(* ===== verification/Prelude.thy ===== *)
theory Prelude
  imports Main "HOL-Library.Word" "HOL-Library.Monad_Syntax"
begin

text \<open>
  Shared vocabulary of the development: the byte-addressed memory the C code runs on, the
  fixed-width integer limits, the little-endian representation of integers in memory, and the
  generic lemmas the component theories use.

  The platform is the 64-bit little-endian one: \<open>sizeof(void *) = sizeof(size_t) = 8\<close>.
  A pointer is a natural number below \<open>2 ^ 64\<close>, NULL is 0, and memory is a total function
  from addresses to bytes, so that aliasing is what it is in the program.

  A call that does not return (an \<open>assert\<close> that fails aborts the process, a loop that
  diverges) is the value \<^const>\<open>None\<close> of type \<open>'a run\<close>; a call that returns is
  \<^const>\<open>Some\<close>. Error codes are ordinary return values (theory \<open>Errors\<close>).
\<close>

section \<open>Types and collections\<close>

type_synonym byte = "8 word"
type_synonym bytes = "byte list"
type_synonym addr = nat
type_synonym mem = "addr \<Rightarrow> byte"
type_synonym 'a run = "'a option"

named_theorems mem_simps \<open>reading and writing of memory ranges\<close>
named_theorems run_simps \<open>calls that return\<close>

abbreviation (input) NULL :: addr where "NULL \<equiv> 0"

definition SIZE_MAX :: nat where "SIZE_MAX = 2 ^ 64 - 1"
definition PTRDIFF_MAX :: nat where "PTRDIFF_MAX = 2 ^ 63 - 1"
definition UINT8_MAX :: nat where "UINT8_MAX = 2 ^ 8 - 1"
definition UINT16_MAX :: nat where "UINT16_MAX = 2 ^ 16 - 1"
definition UINT32_MAX :: nat where "UINT32_MAX = 2 ^ 32 - 1"
definition INT64_MAX :: int where "INT64_MAX = 2 ^ 63 - 1"
definition INT64_MIN :: int where "INT64_MIN = - (2 ^ 63)"
definition INT32_MIN :: int where "INT32_MIN = - (2 ^ 31)"

lemmas int_limits = SIZE_MAX_def PTRDIFF_MAX_def UINT8_MAX_def UINT16_MAX_def UINT32_MAX_def
  INT64_MAX_def INT64_MIN_def INT32_MIN_def

text \<open>Unsigned arithmetic of the C types wraps; conversions truncate.\<close>

definition u8 :: "nat \<Rightarrow> nat" where "u8 n = n mod 2 ^ 8"
definition u16 :: "nat \<Rightarrow> nat" where "u16 n = n mod 2 ^ 16"
definition u32 :: "nat \<Rightarrow> nat" where "u32 n = n mod 2 ^ 32"
definition u64 :: "nat \<Rightarrow> nat" where "u64 n = n mod 2 ^ 64"
definition sub32 :: "nat \<Rightarrow> nat \<Rightarrow> nat" where "sub32 a b = u32 (a + (2 ^ 32 - u32 b))"
definition sub64 :: "nat \<Rightarrow> nat \<Rightarrow> nat" where "sub64 a b = u64 (a + (2 ^ 64 - u64 b))"

lemma u8_small [simp]: "n < 256 \<Longrightarrow> u8 n = n" by (simp add: u8_def)
lemma u16_small [simp]: "n < 65536 \<Longrightarrow> u16 n = n" by (simp add: u16_def)
lemma u32_small [simp]: "n < 4294967296 \<Longrightarrow> u32 n = n" by (simp add: u32_def)
lemma u64_small [simp]: "n < 18446744073709551616 \<Longrightarrow> u64 n = n" by (simp add: u64_def)

lemma sub32_small [simp]:
  assumes "b \<le> a" "a < 4294967296"
  shows "sub32 a b = a - b"
proof -
  have "sub32 a b = (a + (4294967296 - b)) mod 4294967296"
    using assms by (simp add: sub32_def u32_def)
  also have "a + (4294967296 - b) = 4294967296 + (a - b)" using assms by simp
  also have "(4294967296 + (a - b)) mod 4294967296 = a - b"
    using assms by (simp only: mod_add_self1) simp
  finally show ?thesis .
qed

lemma sub64_small [simp]:
  assumes "b \<le> a" "a < 18446744073709551616"
  shows "sub64 a b = a - b"
proof -
  have "sub64 a b = (a + (18446744073709551616 - b)) mod 18446744073709551616"
    using assms by (simp add: sub64_def u64_def)
  also have "a + (18446744073709551616 - b) = 18446744073709551616 + (a - b)"
    using assms by simp
  also have "(18446744073709551616 + (a - b)) mod 18446744073709551616 = a - b"
    using assms by (simp only: mod_add_self1) simp
  finally show ?thesis .
qed

section \<open>Assertions\<close>

definition c_assert :: "bool \<Rightarrow> unit run" where
  "c_assert b = (if b then Some () else None)"

lemma c_assert_True [simp, run_simps]: "b \<Longrightarrow> c_assert b = Some ()"
  by (simp add: c_assert_def)

lemma c_assert_False [simp, run_simps]: "\<not> b \<Longrightarrow> c_assert b = None"
  by (simp add: c_assert_def)

lemma c_assert_eq_Some [simp]: "c_assert b = Some u \<longleftrightarrow> b"
  by (simp add: c_assert_def)

section \<open>Memory\<close>

definition rd :: "mem \<Rightarrow> addr \<Rightarrow> nat \<Rightarrow> bytes" where
  "rd m p n = map m [p..<p + n]"

definition wr :: "mem \<Rightarrow> addr \<Rightarrow> bytes \<Rightarrow> mem" where
  "wr m p bs = (\<lambda>a. if p \<le> a \<and> a < p + length bs then bs ! (a - p) else m a)"

text \<open>\<open>memcpy\<close>: the source is read before the target is written; on disjoint ranges, the only
  ones C allows, the order of the single byte moves makes no difference.\<close>

definition memcpy :: "mem \<Rightarrow> addr \<Rightarrow> addr \<Rightarrow> nat \<Rightarrow> mem" where
  "memcpy m dst src n = wr m dst (rd m src n)"

lemma length_rd [simp]: "length (rd m p n) = n"
  by (simp add: rd_def)

lemma nth_rd [simp]: "i < n \<Longrightarrow> rd m p n ! i = m (p + i)"
  by (simp add: rd_def)

lemma rd_0 [simp]: "rd m p 0 = []"
  by (simp add: rd_def)

lemma rd_Suc: "rd m p (Suc n) = m p # rd m (Suc p) n"
  by (simp add: rd_def upt_conv_Cons del: upt_Suc)

lemma rd_add: "rd m p (a + b) = rd m p a @ rd m (p + a) b"
  by (rule nth_equalityI) (auto simp: nth_append)

lemma take_rd [simp]: "take k (rd m p n) = rd m p (min k n)"
  by (rule nth_equalityI) auto

lemma drop_rd [simp]: "drop k (rd m p n) = rd m (p + k) (n - k)"
  by (rule nth_equalityI) (auto simp: add.assoc)

lemma rd_cong: "(\<And>a. p \<le> a \<Longrightarrow> a < p + n \<Longrightarrow> m a = m' a) \<Longrightarrow> rd m p n = rd m' p n"
  by (simp add: rd_def)

lemma wr_Nil [simp]: "wr m p [] = m"
  by (rule ext) (auto simp: wr_def)

lemma wr_outside [mem_simps]: "a < p \<or> p + length bs \<le> a \<Longrightarrow> wr m p bs a = m a"
  by (auto simp: wr_def)

lemma wr_inside [mem_simps]: "i < length bs \<Longrightarrow> wr m p bs (p + i) = bs ! i"
  by (auto simp: wr_def)

lemma rd_wr_same [simp]: "rd (wr m p bs) p (length bs) = bs"
  by (rule nth_equalityI) (auto simp: wr_def)

lemma rd_wr_same' [mem_simps]: "n = length bs \<Longrightarrow> rd (wr m p bs) p n = bs"
  by simp

lemma rd_wr_disjoint [mem_simps]:
  "q + n \<le> p \<or> p + length bs \<le> q \<Longrightarrow> rd (wr m p bs) q n = rd m q n"
  by (rule rd_cong) (auto simp: wr_def)

lemma rd_wr_inner [mem_simps]:
  "p \<le> q \<Longrightarrow> q + n \<le> p + length bs \<Longrightarrow> rd (wr m p bs) q n = take n (drop (q - p) bs)"
  by (rule nth_equalityI) (auto simp: wr_def min_def)

lemma wr_wr_append: "wr (wr m p as) (p + length as) bs = wr m p (as @ bs)"
  by (rule ext) (auto simp: wr_def nth_append)

lemma wr_rd_id [simp]: "wr m p (rd m p n) = m"
  by (rule ext) (auto simp: wr_def)

lemma rd_eq_iff: "rd m p n = rd m' p n \<longleftrightarrow> (\<forall>a. p \<le> a \<and> a < p + n \<longrightarrow> m a = m' a)"
proof
  assume *: "rd m p n = rd m' p n"
  show "\<forall>a. p \<le> a \<and> a < p + n \<longrightarrow> m a = m' a"
  proof (intro allI impI)
    fix a assume "p \<le> a \<and> a < p + n"
    then have "a - p < n" "p + (a - p) = a" by auto
    then have "rd m p n ! (a - p) = m a" "rd m' p n ! (a - p) = m' a"
      using nth_rd[of "a - p" n m p] nth_rd[of "a - p" n m' p] by simp_all
    then show "m a = m' a" using * by simp
  qed
qed (auto intro: rd_cong)

text \<open>Two memories agree on a set of addresses, or outside of it.\<close>

definition agree_on :: "addr set \<Rightarrow> mem \<Rightarrow> mem \<Rightarrow> bool" where
  "agree_on A m m' \<longleftrightarrow> (\<forall>a \<in> A. m a = m' a)"

definition agree_off :: "addr set \<Rightarrow> mem \<Rightarrow> mem \<Rightarrow> bool" where
  "agree_off A m m' \<longleftrightarrow> (\<forall>a. a \<notin> A \<longrightarrow> m a = m' a)"

lemma agree_on_refl [simp]: "agree_on A m m" by (simp add: agree_on_def)
lemma agree_off_refl [simp]: "agree_off A m m" by (simp add: agree_off_def)
lemma agree_off_trans: "agree_off A m m' \<Longrightarrow> agree_off A m' m'' \<Longrightarrow> agree_off A m m''"
  by (simp add: agree_off_def)
lemma agree_off_mono: "agree_off A m m' \<Longrightarrow> A \<subseteq> B \<Longrightarrow> agree_off B m m'"
  by (auto simp: agree_off_def)
lemma agree_on_mono: "agree_on B m m' \<Longrightarrow> A \<subseteq> B \<Longrightarrow> agree_on A m m'"
  by (auto simp: agree_on_def)
lemma agree_off_on: "agree_off W m m' \<Longrightarrow> A \<inter> W = {} \<Longrightarrow> agree_on A m m'"
  by (auto simp: agree_on_def agree_off_def)
lemma agree_on_rd: "agree_on A m m' \<Longrightarrow> {p..<p + n} \<subseteq> A \<Longrightarrow> rd m p n = rd m' p n"
  by (rule rd_cong) (auto simp: agree_on_def)
lemma agree_off_wr: "{p..<p + length bs} \<subseteq> A \<Longrightarrow> agree_off A m (wr m p bs)"
  by (auto simp: agree_off_def wr_def)

lemma rd_off: "agree_off W m m' \<Longrightarrow> {p..<p + n} \<inter> W = {} \<Longrightarrow> rd m' p n = rd m p n"
  by (rule agree_on_rd[OF agree_off_on, symmetric]) auto

lemma rd_wr_off:
  "{q..<q + n} \<inter> {p..<p + length bs} = {} \<Longrightarrow> rd (wr m p bs) q n = rd m q n"
  by (rule rd_cong) (auto simp: wr_def disjoint_iff)

section \<open>Little-endian integers\<close>

fun le_bytes :: "nat \<Rightarrow> nat \<Rightarrow> bytes" where
  "le_bytes 0 x = []"
| "le_bytes (Suc n) x = of_nat (x mod 256) # le_bytes n (x div 256)"

fun le_val :: "bytes \<Rightarrow> nat" where
  "le_val [] = 0"
| "le_val (b # bs) = unat b + 256 * le_val bs"

lemma length_le_bytes [simp]: "length (le_bytes n x) = n"
  by (induction n arbitrary: x) auto

lemma unat_of_nat_byte [simp]: "unat (of_nat (x mod 256) :: byte) = x mod 256"
  by (simp add: unat_of_nat)

lemma le_val_le_bytes [simp]: "x < 256 ^ n \<Longrightarrow> le_val (le_bytes n x) = x"
proof (induction n arbitrary: x)
  case (Suc n)
  then have "x div 256 < 256 ^ n" by (simp add: less_mult_imp_div_less mult.commute)
  then have "le_val (le_bytes n (x div 256)) = x div 256" by (rule Suc.IH)
  then show ?case by simp
qed simp

lemma le_val_bound: "le_val bs < 256 ^ length bs"
proof (induction bs)
  case (Cons b bs)
  have "unat b < 256" using unsigned_less[of b] by simp
  with Cons show ?case by simp
qed simp

lemma le_bytes_le_val [simp]: "le_bytes (length bs) (le_val bs) = bs"
proof (induction bs)
  case (Cons b bs)
  have b: "unat b < 256" using unsigned_less[of b] by simp
  then have "(unat b + 256 * le_val bs) div 256 = le_val bs"
    and "(unat b + 256 * le_val bs) mod 256 = unat b" by simp_all
  with Cons show ?case by simp
qed simp

section \<open>Bytes as words\<close>

lemma unat_of_nat_len: "n < 2 ^ LENGTH('a) \<Longrightarrow> unat (of_nat n :: 'a::len word) = n"
  by (simp add: unat_of_nat)

lemma unat_of_nat_small [simp]: "n < 256 \<Longrightarrow> unat (of_nat n :: byte) = n"
  by (simp add: unat_of_nat)

lemma byte_bound: "unat (b :: byte) \<le> 255"
  using unsigned_less[of b, where 'a = nat] by simp

lemma byte_bit: "bit (b :: byte) n \<Longrightarrow> n < 8"
  using bit_imp_le_length[of b n] by auto

lemma byte_high: "8 \<le> n \<Longrightarrow> \<not> bit (b :: byte) n"
  using byte_bit[of b n] by auto

section \<open>Options and lists\<close>

lemma bind_Some_iff [run_simps]: "Option.bind x f = Some y \<longleftrightarrow> (\<exists>a. x = Some a \<and> f a = Some y)"
  by (cases x) auto

lemma bind_SomeE:
  assumes "Option.bind x f = Some y"
  obtains a where "x = Some a" "f a = Some y"
  using assms by (cases x) auto

lemma nth_update: "xs[i := v] ! j = (if i = j \<and> i < length xs then v else xs ! j)"
  by (cases "i < length xs") (auto simp: nth_list_update list_update_beyond)

text \<open>Characters of the source's literals as bytes.\<close>

definition chr :: "char \<Rightarrow> byte" where "chr c = of_nat (of_char c)"
definition str :: "string \<Rightarrow> bytes" where "str s = map chr s"

lemma length_str [simp]: "length (str s) = length s" by (simp add: str_def)

lemma str_eq_iff [simp]: "str s = str t \<longleftrightarrow> s = t"
proof -
  have "unat (chr c) = of_char c" for c by (simp add: chr_def)
  then have "inj chr" by (metis injI of_char_eq_iff)
  then show ?thesis by (simp add: str_def)
qed

end
