(* ===== verification/Errors.thy ===== *)
theory Errors
  imports Prelude
begin

text \<open>
  The error codes every operation of the SDK returns (\<open>include/gg/error.h\<close>) and their names
  (\<open>src/error.c\<close>). An operation whose output parameters are written on success only has a
  result of type \<open>'a res\<close>: \<open>Inl e\<close> is the error code returned, \<open>Inr v\<close> is
  \<open>GG_ERR_OK\<close> with the value written.
\<close>

datatype GgError =
    GG_ERR_OK | GG_ERR_FAILURE | GG_ERR_RETRY | GG_ERR_BUSY | GG_ERR_FATAL | GG_ERR_INVALID
  | GG_ERR_UNSUPPORTED | GG_ERR_PARSE | GG_ERR_RANGE | GG_ERR_NOMEM | GG_ERR_NOCONN
  | GG_ERR_NODATA | GG_ERR_NOENTRY | GG_ERR_CONFIG | GG_ERR_REMOTE | GG_ERR_EXPECTED
  | GG_ERR_TIMEOUT

type_synonym 'a res = "GgError + 'a"

fun gg_strerror :: "GgError \<Rightarrow> string" where
  "gg_strerror GG_ERR_OK = ''OK''"
| "gg_strerror GG_ERR_FAILURE = ''FAILURE''"
| "gg_strerror GG_ERR_RETRY = ''RETRY''"
| "gg_strerror GG_ERR_BUSY = ''BUSY''"
| "gg_strerror GG_ERR_FATAL = ''FATAL''"
| "gg_strerror GG_ERR_INVALID = ''INVALID''"
| "gg_strerror GG_ERR_UNSUPPORTED = ''UNSUPPORTED''"
| "gg_strerror GG_ERR_PARSE = ''PARSE''"
| "gg_strerror GG_ERR_RANGE = ''RANGE''"
| "gg_strerror GG_ERR_NOMEM = ''NOMEM''"
| "gg_strerror GG_ERR_NOCONN = ''NOCONN''"
| "gg_strerror GG_ERR_NODATA = ''NODATA''"
| "gg_strerror GG_ERR_NOENTRY = ''NOENTRY''"
| "gg_strerror GG_ERR_CONFIG = ''CONFIG''"
| "gg_strerror GG_ERR_REMOTE = ''REMOTE''"
| "gg_strerror GG_ERR_EXPECTED = ''EXPECTED''"
| "gg_strerror GG_ERR_TIMEOUT = ''TIMEOUT''"

lemma gg_strerror_inj: "gg_strerror e = gg_strerror e' \<longleftrightarrow> e = e'"
  by (cases e; cases e') simp_all

end
