(* ===== verification/Buffer.thy ===== *)
theory Buffer
  imports Errors "HOL-Library.Signed_Division" "HOL-Library.Sublist"
begin

text \<open>
  Buffers (\<open>include/gg/buffer.h\<close>, \<open>src/buffer.c\<close>). A \<open>GgBuffer\<close> is a pointer
  and a length; \<open>contents m b\<close> are the bytes it refers to. A buffer that an operation only
  reads is passed as its contents (a byte list); a buffer that an operation advances, shortens or
  writes through is passed as the record.
\<close>

section \<open>Definitions\<close>

record GgBuffer =
  buf_data :: addr
  buf_len :: nat

definition contents :: "mem \<Rightarrow> GgBuffer \<Rightarrow> bytes" where
  "contents m b = rd m (buf_data b) (buf_len b)"

text \<open>The C library's \<open>strlen\<close>, \<open>memcmp\<close> and \<open>memmem\<close>.\<close>

partial_function (option) c_strlen :: "mem \<Rightarrow> addr \<Rightarrow> nat option" where
  "c_strlen m p = (if m p = 0 then Some 0
     else Option.bind (c_strlen m (Suc p)) (\<lambda>n. Some (Suc n)))"

fun memcmp :: "bytes \<Rightarrow> bytes \<Rightarrow> nat \<Rightarrow> int" where
  "memcmp (x # xs) (y # ys) (Suc n) =
     (if x < y then - 1 else if y < x then 1 else memcmp xs ys n)"
| "memcmp _ _ _ = 0"

fun memmem :: "bytes \<Rightarrow> bytes \<Rightarrow> nat option" where
  "memmem hay needle =
     (if length hay < length needle then None
      else if take (length needle) hay = needle then Some 0
      else (case hay of [] \<Rightarrow> None | _ # rest \<Rightarrow> map_option Suc (memmem rest needle)))"

declare memmem.simps [simp del]

definition gg_buffer_from_null_term :: "mem \<Rightarrow> addr \<Rightarrow> GgBuffer run" where
  "gg_buffer_from_null_term m s = do {
     c_assert (s \<noteq> NULL);
     n \<leftarrow> c_strlen m s;
     Some \<lparr>buf_data = s, buf_len = n\<rparr>
   }"

definition gg_buffer_eq :: "bytes \<Rightarrow> bytes \<Rightarrow> bool" where
  "gg_buffer_eq buf1 buf2 =
     (if length buf1 = length buf2
      then if length buf1 = 0 then True else memcmp buf1 buf2 (length buf1) = 0
      else False)"

definition gg_buffer_has_prefix :: "bytes \<Rightarrow> bytes \<Rightarrow> bool" where
  "gg_buffer_has_prefix buf pre =
     (if length pre \<le> length buf then memcmp buf pre (length pre) = 0 else False)"

definition gg_buffer_has_suffix :: "bytes \<Rightarrow> bytes \<Rightarrow> bool" where
  "gg_buffer_has_suffix buf suf =
     (if length suf \<le> length buf
      then memcmp (drop (length buf - length suf) buf) suf (length suf) = 0 else False)"

definition gg_buffer_substr :: "GgBuffer \<Rightarrow> nat \<Rightarrow> nat \<Rightarrow> GgBuffer" where
  "gg_buffer_substr buf start end' =
     (let start_trunc = (if start < buf_len buf then start else buf_len buf);
          end_trunc = (if end' < buf_len buf then end' else buf_len buf)
      in \<lparr>buf_data = buf_data buf + start_trunc,
          buf_len = (if end_trunc \<ge> start_trunc then end_trunc - start_trunc else 0)\<rparr>)"

definition gg_buffer_remove_prefix :: "mem \<Rightarrow> GgBuffer \<Rightarrow> bytes \<Rightarrow> bool \<times> GgBuffer" where
  "gg_buffer_remove_prefix m buf pre =
     (if gg_buffer_has_prefix (contents m buf) pre
      then (True, gg_buffer_substr buf (length pre) SIZE_MAX) else (False, buf))"

definition gg_buffer_remove_suffix :: "mem \<Rightarrow> GgBuffer \<Rightarrow> bytes \<Rightarrow> bool \<times> GgBuffer" where
  "gg_buffer_remove_suffix m buf suf =
     (if gg_buffer_has_suffix (contents m buf) suf
      then (True, gg_buffer_substr buf 0 (buf_len buf - length suf)) else (False, buf))"

text \<open>The result is the start index that is output when the substring is found.\<close>

definition gg_buffer_contains :: "bytes \<Rightarrow> bytes \<Rightarrow> nat option" where
  "gg_buffer_contains buf substring =
     (if length substring = 0 then Some 0 else memmem buf substring)"

definition mult_overflow_int64 :: "int \<Rightarrow> int \<Rightarrow> bool" where
  "mult_overflow_int64 a b =
     (if b = 0 then False
      else if b > 0 then a > INT64_MAX sdiv b \<or> a < INT64_MIN sdiv b
      else a < INT64_MAX sdiv b \<or> a > INT64_MIN sdiv b)"

definition add_overflow_int64 :: "int \<Rightarrow> int \<Rightarrow> bool" where
  "add_overflow_int64 a b = (if b > 0 then a > INT64_MAX - b else a < INT64_MIN - b)"

text \<open>The digit loop of \<open>gg_str_to_int64\<close>; \<open>0x30\<close> and \<open>0x39\<close> are the digits 0 and 9.\<close>

fun str_to_int64_loop :: "int \<Rightarrow> int \<Rightarrow> bytes \<Rightarrow> int res" where
  "str_to_int64_loop sign ret [] = Inr ret"
| "str_to_int64_loop sign ret (c # cs) =
     (if c < 0x30 \<or> c > 0x39 then Inl GG_ERR_INVALID
      else if mult_overflow_int64 ret 10 then Inl GG_ERR_RANGE
      else if add_overflow_int64 (ret * 10) (sign * (uint c - 0x30)) then Inl GG_ERR_RANGE
      else str_to_int64_loop sign (ret * 10 + sign * (uint c - 0x30)) cs)"

definition gg_str_to_int64 :: "bytes \<Rightarrow> int res" where
  "gg_str_to_int64 s =
     (let neg = (length s \<ge> 1 \<and> s ! 0 = 0x2D);
          i = (if neg then 1 else 0);
          sign = (if neg then - 1 else 1)
      in if i = length s then Inl GG_ERR_INVALID
         else str_to_int64_loop sign 0 (drop i s))"

definition gg_buf_copy :: "mem \<Rightarrow> bytes \<Rightarrow> GgBuffer \<Rightarrow> GgError \<times> GgBuffer \<times> mem" where
  "gg_buf_copy m source target =
     (if length source = 0 then (GG_ERR_OK, target\<lparr>buf_len := 0\<rparr>, m)
      else if buf_len target < length source then (GG_ERR_NOMEM, target, m)
      else (GG_ERR_OK, target\<lparr>buf_len := length source\<rparr>, wr m (buf_data target) source))"

text \<open>\<open>buf_write\<close> is the writer behind \<open>gg_buf_writer\<close>: its context is the target buffer, of
  which it consumes the part it has written.\<close>

definition buf_write :: "mem \<Rightarrow> GgBuffer \<Rightarrow> bytes \<Rightarrow> GgError \<times> GgBuffer \<times> mem" where
  "buf_write m target buf =
     (case gg_buf_copy m buf target of (ret, _, m') \<Rightarrow>
        if ret \<noteq> GG_ERR_OK then (ret, target, m')
        else (GG_ERR_OK, gg_buffer_substr target (length buf) SIZE_MAX, m'))"

text \<open>The text an int64 is written in: an optional minus sign and at least one digit.\<close>

definition digits_val :: "bytes \<Rightarrow> int" where
  "digits_val ds = foldl (\<lambda>v d. v * 10 + (uint d - 0x30)) 0 ds"

definition is_digit :: "byte \<Rightarrow> bool" where
  "is_digit c \<longleftrightarrow> 0x30 \<le> c \<and> c \<le> 0x39"

definition int_text_val :: "bytes \<Rightarrow> int option" where
  "int_text_val s =
     (let neg = (s \<noteq> [] \<and> hd s = 0x2D); ds = (if neg then tl s else s)
      in if ds \<noteq> [] \<and> list_all is_digit ds
         then Some (if neg then - digits_val ds else digits_val ds) else None)"

section \<open>Contents and comparisons\<close>

lemma length_contents [simp]: "length (contents m b) = buf_len b"
  by (simp add: contents_def)

lemma memcmp_0_iff:
  "n \<le> length xs \<Longrightarrow> n \<le> length ys \<Longrightarrow> memcmp xs ys n = 0 \<longleftrightarrow> take n xs = take n ys"
proof (induction xs ys n rule: memcmp.induct)
  case (1 x xs y ys n)
  then show ?case by (auto simp: not_less)
qed auto

lemma gg_buffer_eq_iff [simp]: "gg_buffer_eq a b \<longleftrightarrow> a = b"
  by (auto simp: gg_buffer_eq_def memcmp_0_iff)

lemma gg_buffer_has_prefix_iff [simp]: "gg_buffer_has_prefix b p \<longleftrightarrow> prefix p b"
  by (auto simp: gg_buffer_has_prefix_def memcmp_0_iff prefix_def)
    (metis append_take_drop_id)

lemma gg_buffer_has_suffix_iff [simp]: "gg_buffer_has_suffix b s \<longleftrightarrow> suffix s b"
  by (auto simp: gg_buffer_has_suffix_def memcmp_0_iff suffix_def)
    (metis append_take_drop_id)

lemma buf_len_substr [simp]:
  "buf_len (gg_buffer_substr b s e) = min e (buf_len b) - min s (buf_len b)"
  by (auto simp: gg_buffer_substr_def Let_def min_def)

lemma buf_data_substr [simp]:
  "buf_data (gg_buffer_substr b s e) = buf_data b + min s (buf_len b)"
  by (auto simp: gg_buffer_substr_def Let_def min_def)

lemma contents_substr: "contents m (gg_buffer_substr b s e) = drop s (take e (contents m b))"
  by (rule nth_equalityI) (auto simp: contents_def min_def add.assoc)

lemma substr_within:
  "buf_data b \<le> buf_data (gg_buffer_substr b s e) \<and>
   buf_data (gg_buffer_substr b s e) + buf_len (gg_buffer_substr b s e) \<le> buf_data b + buf_len b"
  by auto

lemma c_strlen_Some:
  "c_strlen m p = Some n \<longleftrightarrow> m (p + n) = 0 \<and> (\<forall>i < n. m (p + i) \<noteq> 0)"
proof (induction n arbitrary: p)
  case 0
  show ?case by (subst c_strlen.simps) (auto simp: bind_Some_iff)
next
  case (Suc n)
  have "c_strlen m p = Some (Suc n) \<longleftrightarrow> m p \<noteq> 0 \<and> c_strlen m (Suc p) = Some n"
    by (subst c_strlen.simps) (auto simp: bind_Some_iff)
  also have "\<dots> \<longleftrightarrow> m p \<noteq> 0 \<and> m (Suc p + n) = 0 \<and> (\<forall>i < n. m (Suc p + i) \<noteq> 0)"
    by (simp add: Suc)
  also have "\<dots> \<longleftrightarrow> m (p + Suc n) = 0 \<and> (\<forall>i < Suc n. m (p + i) \<noteq> 0)"
    by (auto simp: All_less_Suc2)
  finally show ?case .
qed

lemma memmem_Some:
  "memmem hay needle = Some i \<Longrightarrow>
     take (length needle) (drop i hay) = needle \<and> i + length needle \<le> length hay \<and>
     (\<forall>j < i. take (length needle) (drop j hay) \<noteq> needle)"
proof (induction hay needle arbitrary: i rule: memmem.induct)
  case (1 hay needle)
  show ?case
  proof (cases "take (length needle) hay = needle")
    case True
    then show ?thesis using "1.prems" by (subst (asm) memmem.simps) (auto split: if_splits)
  next
    case False
    with "1.prems" obtain x rest i' where hay: "hay = x # rest" and len: "length needle \<le> length hay"
      and i: "i = Suc i'" and rec: "memmem rest needle = Some i'"
      by (subst (asm) memmem.simps) (auto split: if_splits list.splits)
    from "1.IH"[OF _ False hay rec] len hay i False show ?thesis
      by (auto simp: less_Suc_eq_0_disj)
  qed
qed

lemma memmem_None:
  "memmem hay needle = None \<Longrightarrow> needle \<noteq> [] \<Longrightarrow>
     \<not> (\<exists>j. j + length needle \<le> length hay \<and> take (length needle) (drop j hay) = needle)"
proof (induction hay needle rule: memmem.induct)
  case (1 hay needle)
  show ?case
  proof (cases hay)
    case Nil
    then show ?thesis using "1.prems" by auto
  next
    case (Cons x rest)
    show ?thesis
    proof
      assume "\<exists>j. j + length needle \<le> length hay \<and> take (length needle) (drop j hay) = needle"
      then obtain j where j: "j + length needle \<le> length hay"
        "take (length needle) (drop j hay) = needle" by blast
      have nt: "take (length needle) hay \<noteq> needle"
        using "1.prems"(1) j(1) by (auto simp: memmem.simps[of hay needle] split: if_splits)
      have rec: "memmem rest needle = None"
        using "1.prems"(1) j(1) nt
        by (simp add: Cons memmem.simps[of "x # rest" needle] split: if_splits)
      from nt j obtain j' where "j = Suc j'" by (cases j) auto
      with j Cons "1.IH"[OF _ nt Cons rec "1.prems"(2)] show False by auto
    qed
  qed
qed

section \<open>Copying\<close>

lemma gg_buf_copy_ok:
  "length source \<le> buf_len target \<Longrightarrow>
     gg_buf_copy m source target =
       (GG_ERR_OK, target\<lparr>buf_len := length source\<rparr>, wr m (buf_data target) source)"
  by (auto simp: gg_buf_copy_def)

lemma gg_buf_copy_nomem:
  "buf_len target < length source \<Longrightarrow> gg_buf_copy m source target = (GG_ERR_NOMEM, target, m)"
  by (auto simp: gg_buf_copy_def)

lemma buf_write_ok [run_simps]:
  "length bs \<le> buf_len t \<Longrightarrow> buf_len t \<le> SIZE_MAX \<Longrightarrow>
     buf_write m t bs = (GG_ERR_OK, \<lparr>buf_data = buf_data t + length bs, buf_len = buf_len t - length bs\<rparr>,
       wr m (buf_data t) bs)"
  by (auto simp: buf_write_def gg_buf_copy_ok gg_buffer_substr_def Let_def)

lemma buf_write_nomem [run_simps]:
  "buf_len t < length bs \<Longrightarrow> buf_write m t bs = (GG_ERR_NOMEM, t, m)"
  by (simp add: buf_write_def gg_buf_copy_nomem)

section \<open>Integers from text\<close>

lemma sdiv_10: "INT64_MAX sdiv 10 = 922337203685477580" "INT64_MIN sdiv 10 = - 922337203685477580"
  by (simp_all add: int_limits signed_divide_int_def)

lemma mult_overflow_10:
  "mult_overflow_int64 a 10 \<longleftrightarrow> \<not> (INT64_MIN \<le> a * 10 \<and> a * 10 \<le> INT64_MAX)"
  by (auto simp: mult_overflow_int64_def sdiv_10 INT64_MAX_def INT64_MIN_def)

lemma add_overflow_iff:
  assumes "INT64_MIN \<le> a" "a \<le> INT64_MAX" "INT64_MIN \<le> b" "b \<le> INT64_MAX"
  shows "add_overflow_int64 a b \<longleftrightarrow> \<not> (INT64_MIN \<le> a + b \<and> a + b \<le> INT64_MAX)"
  using assms by (auto simp: add_overflow_int64_def INT64_MAX_def INT64_MIN_def)

lemma is_digit_uint: "is_digit c \<longleftrightarrow> 48 \<le> uint c \<and> uint c \<le> 57"
  by (simp add: is_digit_def word_le_def)

lemma digits_val_step:
  "foldl (\<lambda>v d. v * 10 + (uint d - 0x30)) v ds = v * 10 ^ length ds + digits_val ds"
proof (induction ds arbitrary: v)
  case (Cons d ds)
  let ?f = "\<lambda>v d. v * 10 + (uint d - 0x30)"
  have "digits_val (d # ds) = foldl ?f (uint d - 0x30) ds"
    by (simp add: digits_val_def)
  also have "\<dots> = (uint d - 0x30) * 10 ^ length ds + digits_val ds" by (rule Cons)
  finally have dv: "digits_val (d # ds) = (uint d - 0x30) * 10 ^ length ds + digits_val ds" .
  have "foldl ?f v (d # ds) = (v * 10 + (uint d - 0x30)) * 10 ^ length ds + digits_val ds"
    by (simp add: Cons)
  with dv show ?case by (simp add: algebra_simps)
qed (simp add: digits_val_def)

lemma digits_val_Cons: "digits_val (d # ds) = (uint d - 48) * 10 ^ length ds + digits_val ds"
  using digits_val_step[of "uint d - 48" ds] by (simp add: digits_val_def)

lemma digits_val_nonneg: "list_all is_digit ds \<Longrightarrow> 0 \<le> digits_val ds"
  by (induction ds) (auto simp: digits_val_Cons is_digit_uint, simp add: digits_val_def)

lemma signed_digits_grow:
  assumes sign: "sign = 1 \<or> sign = - 1" and r: "0 \<le> sign * r" and ds: "list_all is_digit cs"
    and lo: "INT64_MIN \<le> r * 10 ^ length cs + sign * digits_val cs"
    and hi: "r * 10 ^ length cs + sign * digits_val cs \<le> INT64_MAX"
  shows "INT64_MIN \<le> r \<and> r \<le> INT64_MAX"
proof -
  have p: "(1::int) \<le> 10 ^ length cs" and n: "0 \<le> digits_val cs"
    using digits_val_nonneg[OF ds] by simp_all
  from sign show ?thesis
  proof
    assume s: "sign = 1"
    with r p have "r * 1 \<le> r * 10 ^ length cs" by (intro mult_left_mono) simp_all
    with hi n s r show ?thesis by (simp add: INT64_MIN_def)
  next
    assume s: "sign = - 1"
    with r p have "r * 10 ^ length cs \<le> r * 1" by (intro mult_left_mono_neg) simp_all
    with lo n s r show ?thesis by (simp add: INT64_MAX_def)
  qed
qed

text \<open>Invariant of the loop: the accumulated value has the sign of the text, and so once it leaves
  the int64 range no further digit brings it back.\<close>

lemma str_to_int64_loop_iff:
  assumes "sign = 1 \<or> sign = - 1" "0 \<le> sign * ret" "INT64_MIN \<le> ret" "ret \<le> INT64_MAX"
  shows "str_to_int64_loop sign ret cs = Inr v \<longleftrightarrow>
     list_all is_digit cs \<and> v = ret * 10 ^ length cs + sign * digits_val cs \<and>
     INT64_MIN \<le> v \<and> v \<le> INT64_MAX"
  using assms
proof (induction sign ret cs rule: str_to_int64_loop.induct)
  case (1 sign ret)
  then show ?case by (auto simp: digits_val_def)
next
  case (2 sign ret c cs)
  let ?d = "uint c - 48" and ?r = "ret * 10 + sign * (uint c - 48)"
  show ?case
  proof (cases "is_digit c")
    case False
    then show ?thesis by (auto simp: is_digit_def not_le)
  next
    case True
    then have d: "0 \<le> ?d" "?d \<le> 9" and nd: "\<not> (c < 0x30 \<or> c > 0x39)"
      by (auto simp: is_digit_uint, auto simp: word_less_def)
    have s: "0 \<le> sign * ?r" using "2.prems"(1,2) d by auto
    have val: "ret * 10 ^ length (c # cs) + sign * digits_val (c # cs)
      = ?r * 10 ^ length cs + sign * digits_val cs"
      by (simp add: digits_val_Cons algebra_simps)
    have grow: "list_all is_digit cs \<Longrightarrow>
        INT64_MIN \<le> ?r * 10 ^ length cs + sign * digits_val cs \<Longrightarrow>
        ?r * 10 ^ length cs + sign * digits_val cs \<le> INT64_MAX \<Longrightarrow> INT64_MIN \<le> ?r \<and> ?r \<le> INT64_MAX"
      using signed_digits_grow[OF "2.prems"(1) s] by blast
    have abs: "INT64_MIN \<le> ?r \<and> ?r \<le> INT64_MAX \<Longrightarrow> INT64_MIN \<le> ret * 10 \<and> ret * 10 \<le> INT64_MAX"
      using "2.prems"(1,2) d by (auto simp: INT64_MIN_def INT64_MAX_def)
    show ?thesis
    proof (cases "INT64_MIN \<le> ?r \<and> ?r \<le> INT64_MAX")
      case True
      have m: "\<not> mult_overflow_int64 ret 10" using abs[OF True] by (simp add: mult_overflow_10)
      have a: "\<not> add_overflow_int64 (ret * 10) (sign * ?d)"
        using True abs[OF True] "2.prems"(1) d
        by (subst add_overflow_iff) (auto simp: INT64_MIN_def INT64_MAX_def)
      have "str_to_int64_loop sign ret (c # cs) = str_to_int64_loop sign ?r cs"
        using nd m a by simp
      with "2.IH"[OF nd m a "2.prems"(1) s] True \<open>is_digit c\<close> val show ?thesis by simp
    next
      case False
      have "mult_overflow_int64 ret 10 \<or> add_overflow_int64 (ret * 10) (sign * ?d)"
        using False "2.prems"(1) d
        by (cases "INT64_MIN \<le> ret * 10 \<and> ret * 10 \<le> INT64_MAX")
          (auto simp: mult_overflow_10 add_overflow_iff INT64_MIN_def INT64_MAX_def)
      then have "\<exists>e. str_to_int64_loop sign ret (c # cs) = Inl e" using nd by auto
      with False grow val show ?thesis by auto
    qed
  qed
qed

lemma str_to_int64_iff:
  "gg_str_to_int64 s = Inr v \<longleftrightarrow> int_text_val s = Some v \<and> INT64_MIN \<le> v \<and> v \<le> INT64_MAX"
proof (cases "s \<noteq> [] \<and> hd s = 0x2D")
  case True
  then obtain ds where s: "s = 0x2D # ds" by (cases s) auto
  show ?thesis
    by (cases ds) (auto simp: s gg_str_to_int64_def int_text_val_def Let_def str_to_int64_loop_iff
      INT64_MIN_def INT64_MAX_def simp del: str_to_int64_loop.simps)
next
  case False
  then have "\<not> (length s \<ge> 1 \<and> s ! 0 = 0x2D)" by (cases s) auto
  with False show ?thesis
    by (auto simp: gg_str_to_int64_def int_text_val_def Let_def str_to_int64_loop_iff
      INT64_MIN_def INT64_MAX_def simp del: str_to_int64_loop.simps)
qed

section \<open>Properties\<close>

text \<open>\<open>gg_str_to_int64\<close> accepts exactly the texts of the integers of 64 bits (an optional minus
  sign and at least one digit, nothing else), and returns the integer the text denotes: no overflow
  in the loop goes unnoticed and no text in range, such as that of INT64_MIN, is refused.\<close>

theorem gg_str_to_int64_exact:
  "gg_str_to_int64 s = Inr v \<longleftrightarrow> int_text_val s = Some v \<and> INT64_MIN \<le> v \<and> v \<le> INT64_MAX"
  by (rule str_to_int64_iff)

text \<open>\<open>gg_buffer_contains\<close> finds a substring exactly when the buffer has it, and then outputs the
  start of the first occurrence, which lies inside the buffer.\<close>

theorem gg_buffer_contains_first:
  "gg_buffer_contains buf sub = Some i \<longleftrightarrow>
     i + length sub \<le> length buf \<and> take (length sub) (drop i buf) = sub \<and>
     (\<forall>j < i. take (length sub) (drop j buf) \<noteq> sub)"
proof (cases "sub = []")
  case True
  then show ?thesis by (auto simp: gg_buffer_contains_def)
next
  case False
  show ?thesis
  proof
    assume "gg_buffer_contains buf sub = Some i"
    then show "i + length sub \<le> length buf \<and> take (length sub) (drop i buf) = sub \<and>
        (\<forall>j < i. take (length sub) (drop j buf) \<noteq> sub)"
      using False by (auto simp: gg_buffer_contains_def dest: memmem_Some)
  next
    assume i: "i + length sub \<le> length buf \<and> take (length sub) (drop i buf) = sub \<and>
        (\<forall>j < i. take (length sub) (drop j buf) \<noteq> sub)"
    then obtain k where k: "memmem buf sub = Some k" using False memmem_None[of buf sub] by (cases "memmem buf sub") auto
    with memmem_Some[OF k] i have "\<not> k < i" "\<not> i < k" by auto
    then show "gg_buffer_contains buf sub = Some i" using False k by (simp add: gg_buffer_contains_def)
  qed
qed

theorem gg_buffer_contains_first_witness:
  "gg_buffer_contains [1, 2, 1, 2, 3] [2, 3] = Some 3"
  using gg_buffer_contains_first[of "[1, 2, 1, 2, 3]" "[2, 3]" 3]
  by (simp add: numeral_3_eq_3 less_Suc_eq)

end
