(* ===== verification/Arena.thy ===== *)
theory Arena
  imports Buffer
begin

text \<open>
  The arena allocator (\<open>include/gg/arena.h\<close>, \<open>src/arena.c\<close>): a bump allocator over a
  fixed region. The claiming of whole objects, which needs the object visitor, is in theory
  \<open>Object_Ops\<close>. A \<open>GgArena *\<close> that may be NULL is an optional arena.
\<close>

unbundle bit_operations_syntax

section \<open>Definitions\<close>

record GgArena =
  arena_mem :: addr
  arena_capacity :: nat
  arena_index :: nat

definition gg_arena_init :: "GgBuffer \<Rightarrow> GgArena" where
  "gg_arena_init buf = \<lparr>arena_mem = buf_data buf,
     arena_capacity = (if buf_len buf \<le> UINT32_MAX then u32 (buf_len buf) else UINT32_MAX),
     arena_index = 0\<rparr>"

definition gg_arena_alloc :: "GgArena option \<Rightarrow> nat \<Rightarrow> nat \<Rightarrow> (addr \<times> GgArena option) run" where
  "gg_arena_alloc arena size' alignment =
     (case arena of
        None \<Rightarrow> Some (NULL, None)
      | Some a \<Rightarrow> do {
          c_assert (alignment > 0 \<and> alignment AND (alignment - 1) = 0);
          c_assert (alignment < UINT32_MAX);
          c_assert (size' \<le> PTRDIFF_MAX);
          let align = u32 alignment;
          let pad = sub32 align (arena_index a AND (align - 1)) AND (align - 1);
          if pad > sub32 (arena_capacity a) (arena_index a) then Some (NULL, Some a)
          else do {
            let idx = u32 (arena_index a + pad);
            if size' > sub32 (arena_capacity a) idx then Some (NULL, Some a)
            else Some (arena_mem a + idx, Some (a\<lparr>arena_index := u32 (idx + u32 size')\<rparr>))
          }
        })"

definition gg_arena_owns :: "GgArena option \<Rightarrow> addr \<Rightarrow> bool" where
  "gg_arena_owns arena ptr =
     (case arena of None \<Rightarrow> False
      | Some a \<Rightarrow> ptr \<ge> arena_mem a \<and> ptr < u64 (arena_mem a + arena_capacity a))"

definition gg_arena_resize_last ::
    "GgArena \<Rightarrow> addr \<Rightarrow> nat \<Rightarrow> nat \<Rightarrow> (GgError \<times> GgArena) run" where
  "gg_arena_resize_last arena ptr old_size size' = do {
     c_assert (ptr \<noteq> NULL);
     c_assert (old_size < UINT32_MAX);
     c_assert (old_size \<le> PTRDIFF_MAX);
     c_assert (size' \<le> PTRDIFF_MAX);
     if \<not> gg_arena_owns (Some arena) ptr then None
     else do {
       let idx = u32 (sub64 ptr (arena_mem arena));
       if idx > arena_index arena then None
       else if sub32 (arena_index arena) idx \<noteq> old_size then Some (GG_ERR_INVALID, arena)
       else if size' > sub32 (arena_capacity arena) idx then Some (GG_ERR_NOMEM, arena)
       else Some (GG_ERR_OK, arena\<lparr>arena_index := u32 (idx + u32 size')\<rparr>)
     }
   }"

definition gg_arena_alloc_rest :: "GgArena option \<Rightarrow> (GgBuffer \<times> GgArena option) run" where
  "gg_arena_alloc_rest arena =
     (case arena of
        None \<Rightarrow> Some (\<lparr>buf_data = NULL, buf_len = 0\<rparr>, None)
      | Some a \<Rightarrow> do {
          let remaining = sub32 (arena_capacity a) (arena_index a);
          (data, arena') \<leftarrow> gg_arena_alloc arena remaining 1;
          c_assert (data \<noteq> NULL);
          Some (\<lparr>buf_data = data, buf_len = remaining\<rparr>, arena')
        })"

definition gg_arena_claim_buf ::
    "mem \<Rightarrow> GgBuffer \<Rightarrow> GgArena option \<Rightarrow> (GgError \<times> GgBuffer \<times> GgArena option \<times> mem) run" where
  "gg_arena_claim_buf m buf arena =
     (if gg_arena_owns arena (buf_data buf) then Some (GG_ERR_OK, buf, arena, m)
      else if buf_len buf = 0 then Some (GG_ERR_OK, buf\<lparr>buf_data := NULL\<rparr>, arena, m)
      else do {
        (new_mem, arena') \<leftarrow> gg_arena_alloc arena (buf_len buf) 1;
        if new_mem = NULL then Some (GG_ERR_NOMEM, buf, arena', m)
        else Some (GG_ERR_OK, buf\<lparr>buf_data := new_mem\<rparr>, arena',
                   memcpy m new_mem (buf_data buf) (buf_len buf))
      })"

text \<open>The invariant of an arena: its index stays within its capacity, which fits 32 bits, and its
  region lies inside the address space and does not start at NULL.\<close>

definition arena_ok :: "GgArena \<Rightarrow> bool" where
  "arena_ok a \<longleftrightarrow> arena_index a \<le> arena_capacity a \<and> arena_capacity a \<le> UINT32_MAX \<and>
     0 < arena_mem a \<and> arena_mem a + arena_capacity a < 2 ^ 64"

definition arena_avail :: "GgArena \<Rightarrow> nat" where
  "arena_avail a = arena_capacity a - arena_index a"

definition arena_free :: "GgArena \<Rightarrow> addr set" where
  "arena_free a = {arena_mem a + arena_index a ..< arena_mem a + arena_capacity a}"

definition arena_region :: "GgArena \<Rightarrow> addr set" where
  "arena_region a = {arena_mem a ..< arena_mem a + arena_capacity a}"

definition align_up :: "nat \<Rightarrow> nat \<Rightarrow> nat" where
  "align_up i al = ((i + al - 1) div al) * al"

section \<open>Alignment arithmetic\<close>

lemma and_mask_mod: "(i::nat) AND (2 ^ k - 1) = i mod 2 ^ k"
  using take_bit_eq_mask[of k i] by (simp add: take_bit_eq_mod mask_eq_exp_minus_1)

lemmas and_mask_mod_Suc = and_mask_mod [unfolded One_nat_def]

lemma pow2_and: "(2::nat) ^ k AND (2 ^ k - 1) = 0"
  by (subst and_mask_mod) simp

lemma align_up_pad:
  fixes i al :: nat
  assumes "0 < al"
  shows "i + ((al - i mod al) mod al) = align_up i al"
proof -
  define q r where "q = i div al" and "r = i mod al"
  have i: "i = al * q + r" "r < al" using assms by (simp_all add: q_def r_def)
  show ?thesis
  proof (cases "r = 0")
    case True
    have "(al * q + al - 1) div al = q" using assms by (intro div_nat_eqI) auto
    then show ?thesis using i True assms by (simp add: align_up_def mult.commute)
  next
    case False
    have "(al * q + r + al - 1) div al = q + 1" using assms False i(2) by (intro div_nat_eqI) auto
    then show ?thesis using i False assms by (simp add: align_up_def mult.commute)
  qed
qed

lemma align_up_1 [simp]: "align_up i 1 = i" "align_up i (Suc 0) = i"
  by (simp_all add: align_up_def)

lemma align_up_dvd [simp]: "al dvd align_up i al"
  by (simp add: align_up_def)

lemma align_up_bounds: "0 < al \<Longrightarrow> i \<le> align_up i al \<and> align_up i al < i + al"
  using align_up_pad[of al i] by (metis le_add1 mod_less_divisor nat_add_left_cancel_less)

section \<open>Allocation\<close>

lemma arena_alloc_eq:
  assumes ok: "arena_ok a" and al: "al = 2 ^ k" "al < UINT32_MAX" and n: "n \<le> PTRDIFF_MAX"
  shows "gg_arena_alloc (Some a) n al =
    Some (let i = align_up (arena_index a) al in
      if i + n \<le> arena_capacity a then (arena_mem a + i, Some (a\<lparr>arena_index := i + n\<rparr>))
      else (NULL, Some a))"
proof -
  let ?ix = "arena_index a" and ?cap = "arena_capacity a"
  have pos: "0 < al" using al by simp
  have b: "?ix \<le> ?cap" "?cap < 4294967296" "al < 4294967296"
    using ok al by (auto simp: arena_ok_def UINT32_MAX_def)
  have pad: "sub32 (u32 al) (?ix AND (u32 al - 1)) AND (u32 al - 1) = (al - ?ix mod al) mod al"
    using b al by (simp add: and_mask_mod_Suc less_imp_le)
  define i where "i = align_up ?ix al"
  have i: "?ix + (al - ?ix mod al) mod al = i" using pos by (simp add: align_up_pad i_def)
  have asserts: "0 < al \<and> al AND (al - 1) = 0" using al pow2_and by simp
  have le: "(al - ?ix mod al) mod al \<le> ?cap - ?ix \<longleftrightarrow> i \<le> ?cap" using i b by linarith
  have "u32 (?ix + (al - ?ix mod al) mod al) = i" if "i \<le> ?cap" using that i b by simp
  then show ?thesis
    unfolding gg_arena_alloc_def option.case Let_def pad i_def[symmetric]
    using asserts al(2) n b le by (auto simp: not_less)
qed

lemma alloc_bytes:
  assumes "arena_ok a" "n \<le> PTRDIFF_MAX"
  shows "gg_arena_alloc (Some a) n 1 =
    Some (if n \<le> arena_avail a
          then (arena_mem a + arena_index a, Some (a\<lparr>arena_index := arena_index a + n\<rparr>))
          else (NULL, Some a))"
  using arena_alloc_eq[OF assms(1), of 1 0 n] assms
  by (auto simp: arena_avail_def Let_def UINT32_MAX_def arena_ok_def)

lemmas alloc_bytes_Suc [run_simps] = alloc_bytes [unfolded One_nat_def]

lemma arena_ok_advance [simp]:
  "arena_ok a \<Longrightarrow> n \<le> arena_avail a \<Longrightarrow> arena_ok (a\<lparr>arena_index := arena_index a + n\<rparr>)"
  by (auto simp: arena_ok_def arena_avail_def)

lemma arena_owns_iff [simp]: "arena_ok a \<Longrightarrow> gg_arena_owns (Some a) p \<longleftrightarrow> p \<in> arena_region a"
  by (auto simp: gg_arena_owns_def arena_ok_def arena_region_def)

lemma arena_owns_None [simp]: "\<not> gg_arena_owns None p"
  by (simp add: gg_arena_owns_def)

lemma arena_init_ok:
  "0 < buf_data b \<Longrightarrow> buf_data b + buf_len b < 2 ^ 64 \<Longrightarrow> arena_ok (gg_arena_init b)"
  by (auto simp: arena_ok_def gg_arena_init_def UINT32_MAX_def)

text \<open>The allocator seen through its contract: every allocation is carved out of the free space and
  disjoint from every later one, and allocation fails exactly when the free space is too small.\<close>

locale byte_allocator =
  fixes alloc :: "'a \<Rightarrow> nat \<Rightarrow> (addr \<times> 'a) run"
    and avail :: "'a \<Rightarrow> nat" and free :: "'a \<Rightarrow> addr set" and ok :: "'a \<Rightarrow> bool"
  assumes alloc_fits: "ok a \<Longrightarrow> n \<le> avail a \<Longrightarrow>
      \<exists>p a'. alloc a n = Some (p, a') \<and> p \<noteq> NULL \<and> ok a' \<and> avail a' = avail a - n \<and>
        {p..<p + n} \<subseteq> free a \<and> free a' = free a - {p..<p + n}"
    and alloc_too_big: "ok a \<Longrightarrow> avail a < n \<Longrightarrow> n \<le> PTRDIFF_MAX \<Longrightarrow> alloc a n = Some (NULL, a)"
begin

text \<open>A run of allocations: the addresses handed out for a list of sizes, stopping at the first
  failure.\<close>

fun alloc_all :: "'a \<Rightarrow> nat list \<Rightarrow> (addr list \<times> 'a) run" where
  "alloc_all a [] = Some ([], a)"
| "alloc_all a (n # ns) = do {
     (p, a') \<leftarrow> alloc a n;
     if p = NULL then Some ([], a')
     else do { (ps, a'') \<leftarrow> alloc_all a' ns; Some (p # ps, a'') }
   }"

lemma alloc_all_within:
  "ok a \<Longrightarrow> sum_list ns \<le> avail a \<Longrightarrow>
     \<exists>ps a'. alloc_all a ns = Some (ps, a') \<and> length ps = length ns \<and> ok a' \<and>
       avail a' = avail a - sum_list ns \<and>
       (\<forall>i < length ns. {ps ! i..<ps ! i + ns ! i} \<subseteq> free a \<and>
          (\<forall>j < i. {ps ! i..<ps ! i + ns ! i} \<inter> {ps ! j..<ps ! j + ns ! j} = {}))"
proof (induction ns arbitrary: a)
  case (Cons n ns)
  then obtain p a1 where 1: "alloc a n = Some (p, a1)" "p \<noteq> NULL" "ok a1" "avail a1 = avail a - n"
    "{p..<p + n} \<subseteq> free a" "free a1 = free a - {p..<p + n}"
    using alloc_fits[of a n] by auto
  have "sum_list ns \<le> avail a1" using Cons.prems(2) 1(4) by simp
  from Cons.IH[OF 1(3) this] obtain ps a2 where 2: "alloc_all a1 ns = Some (ps, a2)"
    "length ps = length ns" "ok a2" "avail a2 = avail a1 - sum_list ns"
    "\<forall>i < length ns. {ps ! i..<ps ! i + ns ! i} \<subseteq> free a1 \<and>
       (\<forall>j < i. {ps ! i..<ps ! i + ns ! i} \<inter> {ps ! j..<ps ! j + ns ! j} = {})"
    by blast
  have "\<forall>i < length (n # ns). {(p # ps) ! i..<(p # ps) ! i + (n # ns) ! i} \<subseteq> free a \<and>
    (\<forall>j < i. {(p # ps) ! i..<(p # ps) ! i + (n # ns) ! i} \<inter>
       {(p # ps) ! j..<(p # ps) ! j + (n # ns) ! j} = {})"
  proof (intro allI impI conjI)
    fix i assume i: "i < length (n # ns)"
    show "{(p # ps) ! i..<(p # ps) ! i + (n # ns) ! i} \<subseteq> free a"
      using 1(5,6) 2(5) i by (cases i) auto
    fix j assume "j < i"
    then obtain i' where i': "i = Suc i'" "i' < length ns" using i by (cases i) auto
    with 2(5) have "{ps ! i'..<ps ! i' + ns ! i'} \<subseteq> free a1"
      and "\<forall>j < i'. {ps ! i'..<ps ! i' + ns ! i'} \<inter> {ps ! j..<ps ! j + ns ! j} = {}" by blast+
    with 1(6) i' \<open>j < i\<close> show "{(p # ps) ! i..<(p # ps) ! i + (n # ns) ! i} \<inter>
       {(p # ps) ! j..<(p # ps) ! j + (n # ns) ! j} = {}"
      unfolding i' nth_Cons_Suc by (cases j) (auto simp only: nth_Cons_0 nth_Cons_Suc Suc_less_eq)
  qed
  moreover have "alloc_all a (n # ns) = Some (p # ps, a2)" using 1(1,2) 2(1) by simp
  moreover have "avail a2 = avail a - sum_list (n # ns)" using 1(4) 2(4) by simp
  ultimately show ?case using 2(2,3) by (intro exI[of _ "p # ps"] exI[of _ a2]) simp
qed simp

end

definition arena_alloc_byte :: "GgArena \<Rightarrow> nat \<Rightarrow> (addr \<times> GgArena) run" where
  "arena_alloc_byte a n = do {
     (p, a') \<leftarrow> gg_arena_alloc (Some a) n 1;
     Some (p, case a' of None \<Rightarrow> a | Some a'' \<Rightarrow> a'')
   }"

interpretation arena_alloc: byte_allocator arena_alloc_byte arena_avail arena_free arena_ok
proof
  fix a n assume *: "arena_ok a" "n \<le> arena_avail a"
  then have "n \<le> PTRDIFF_MAX" by (auto simp: arena_ok_def arena_avail_def int_limits)
  with * show "\<exists>p a'. arena_alloc_byte a n = Some (p, a') \<and> p \<noteq> NULL \<and> arena_ok a' \<and>
      arena_avail a' = arena_avail a - n \<and> {p..<p + n} \<subseteq> arena_free a \<and>
      arena_free a' = arena_free a - {p..<p + n}"
    by (auto simp: arena_alloc_byte_def alloc_bytes_Suc arena_avail_def arena_free_def arena_ok_def)
next
  fix a n assume "arena_ok a" "arena_avail a < n" "n \<le> PTRDIFF_MAX"
  then show "arena_alloc_byte a n = Some (NULL, a)"
    by (simp add: arena_alloc_byte_def alloc_bytes_Suc)
qed

section \<open>Claiming a buffer\<close>

lemma claim_buf_owned:
  "gg_arena_owns ar (buf_data b) \<Longrightarrow> gg_arena_claim_buf m b ar = Some (GG_ERR_OK, b, ar, m)"
  by (simp add: gg_arena_claim_buf_def)

lemma claim_buf_empty:
  "\<not> gg_arena_owns ar (buf_data b) \<Longrightarrow> buf_len b = 0 \<Longrightarrow>
     gg_arena_claim_buf m b ar = Some (GG_ERR_OK, b\<lparr>buf_data := NULL\<rparr>, ar, m)"
  by (simp add: gg_arena_claim_buf_def)

lemma claim_buf_copy:
  "arena_ok a \<Longrightarrow> \<not> gg_arena_owns (Some a) (buf_data b) \<Longrightarrow> 0 < buf_len b \<Longrightarrow> buf_len b \<le> PTRDIFF_MAX \<Longrightarrow>
     gg_arena_claim_buf m b (Some a) = Some
       (if buf_len b \<le> arena_avail a
        then (GG_ERR_OK, b\<lparr>buf_data := arena_mem a + arena_index a\<rparr>,
              Some (a\<lparr>arena_index := arena_index a + buf_len b\<rparr>),
              wr m (arena_mem a + arena_index a) (contents m b))
        else (GG_ERR_NOMEM, b, Some a, m))"
  by (auto simp: gg_arena_claim_buf_def alloc_bytes_Suc memcpy_def contents_def arena_ok_def)

section \<open>Resizing\<close>

lemma resize_last_eq:
  assumes ok: "arena_ok a" and off: "off \<le> arena_index a" "off < arena_capacity a"
    and n: "n < UINT32_MAX" "k \<le> PTRDIFF_MAX"
  shows "gg_arena_resize_last a (arena_mem a + off) n k = Some
    (if arena_index a - off \<noteq> n then (GG_ERR_INVALID, a)
     else if off + k \<le> arena_capacity a then (GG_ERR_OK, a\<lparr>arena_index := off + k\<rparr>) else (GG_ERR_NOMEM, a))"
proof -
  have b: "arena_index a \<le> arena_capacity a" "arena_capacity a < 4294967296"
    "arena_mem a + arena_capacity a < 18446744073709551616" "0 < arena_mem a"
    using ok by (auto simp: arena_ok_def UINT32_MAX_def)
  have own: "gg_arena_owns (Some a) (arena_mem a + off)" using off ok by (simp add: arena_region_def)
  have idx: "u32 (sub64 (arena_mem a + off) (arena_mem a)) = off" using b off by simp
  have s: "sub32 (arena_index a) off = arena_index a - off" "sub32 (arena_capacity a) off = arena_capacity a - off"
    using b off by simp_all
  have n': "n \<le> PTRDIFF_MAX" using n(1) by (simp add: int_limits)
  show ?thesis unfolding gg_arena_resize_last_def Let_def idx s
    using n n' own b off by (auto simp: not_less)
qed

section \<open>Properties\<close>

text \<open>An allocation from a well-formed arena fails exactly when the space left after alignment is
  too small, and then changes nothing; otherwise it returns the next aligned address, which is not
  NULL, inside the arena and followed by the requested size within the capacity, and the arena stays
  well-formed. No step of the 32-bit index arithmetic wraps.\<close>

theorem gg_arena_alloc_exact:
  assumes "arena_ok a" "al = 2 ^ k" "al < UINT32_MAX" "n \<le> PTRDIFF_MAX"
  shows "let i = align_up (arena_index a) al in
    if i + n \<le> arena_capacity a
    then gg_arena_alloc (Some a) n al = Some (arena_mem a + i, Some (a\<lparr>arena_index := i + n\<rparr>)) \<and>
      arena_mem a + i \<noteq> NULL \<and> al dvd i \<and> arena_index a \<le> i \<and> i < arena_index a + al \<and>
      arena_ok (a\<lparr>arena_index := i + n\<rparr>)
    else gg_arena_alloc (Some a) n al = Some (NULL, Some a)"
  using arena_alloc_eq[OF assms] align_up_bounds[of al "arena_index a"] assms(1,2)
  by (auto simp: Let_def arena_ok_def)

theorem gg_arena_alloc_exact_witness:
  "gg_arena_alloc (Some \<lparr>arena_mem = 100, arena_capacity = 20, arena_index = 3\<rparr>) 6 8 =
     Some (108, Some \<lparr>arena_mem = 100, arena_capacity = 20, arena_index = 14\<rparr>)"
  using gg_arena_alloc_exact[of "\<lparr>arena_mem = 100, arena_capacity = 20, arena_index = 3\<rparr>" 8 3 6]
  by (simp add: arena_ok_def int_limits align_up_def Let_def)



text \<open>Resizing the last allocation, at offset \<open>off\<close> in the arena, succeeds exactly when the old
  size given is right and the new size fits the capacity, and then ends the arena's use at the new
  size; any other outcome leaves the arena unchanged.\<close>

theorem gg_arena_resize_last_exact:
  assumes "arena_ok a" "off \<le> arena_index a" "off < arena_capacity a" "n < UINT32_MAX" "k \<le> PTRDIFF_MAX"
  shows "gg_arena_resize_last a (arena_mem a + off) n k = Some
    (if arena_index a - off \<noteq> n then (GG_ERR_INVALID, a)
     else if off + k \<le> arena_capacity a then (GG_ERR_OK, a\<lparr>arena_index := off + k\<rparr>) else (GG_ERR_NOMEM, a))"
  using assms by (rule resize_last_eq)

theorem gg_arena_resize_last_exact_witness:
  "gg_arena_resize_last \<lparr>arena_mem = 100, arena_capacity = 20, arena_index = 8\<rparr> 104 4 16 =
     Some (GG_ERR_OK, \<lparr>arena_mem = 100, arena_capacity = 20, arena_index = 20\<rparr>)"
  using gg_arena_resize_last_exact[of "\<lparr>arena_mem = 100, arena_capacity = 20, arena_index = 8\<rparr>" 4 4 16]
  by (simp add: arena_ok_def int_limits)

end
