(* ===== verification/Object.thy ===== *)
theory Object
  imports Arena
begin

text \<open>
  The dynamic object representation (\<open>include/gg/object.h\<close>, \<open>src/object.c\<close>) and the
  key-value pairs of maps (\<open>src/map.c\<close>). A \<open>GgObject\<close> is the eleven bytes the code
  packs with \<open>memcpy\<close>: a payload and a tag in the last byte. A \<open>GgKV\<close> is a key
  pointer, a 16-bit key length and an object. The values of the type \<open>gg_val\<close> are what an
  object in memory stands for (\<open>obj_at\<close>).
\<close>

section \<open>Definitions\<close>

definition GG_MAX_OBJECT_DEPTH :: nat where "GG_MAX_OBJECT_DEPTH = 15"
definition GG_MAX_OBJECT_SUBOBJECTS :: nat where "GG_MAX_OBJECT_SUBOBJECTS = 255"

datatype GgObjectType =
    GG_TYPE_NULL | GG_TYPE_BOOLEAN | GG_TYPE_I64 | GG_TYPE_F64 | GG_TYPE_BUF | GG_TYPE_LIST
  | GG_TYPE_MAP

type_synonym GgObject = bytes
type_synonym GgKV = bytes

abbreviation (input) obj_size :: nat where "obj_size \<equiv> 11"
abbreviation (input) kv_size :: nat where "kv_size \<equiv> 21"

record GgList =
  list_items :: addr
  list_len :: nat

record GgMap =
  map_pairs :: addr
  map_len :: nat

text \<open>\<open>memcpy\<close> into a local byte array at an offset.\<close>

definition put_at :: "bytes \<Rightarrow> nat \<Rightarrow> bytes \<Rightarrow> bytes" where
  "put_at xs i bs = take i xs @ bs @ drop (i + length bs) xs"

fun type_tag :: "GgObjectType \<Rightarrow> byte" where
  "type_tag GG_TYPE_NULL = 0"
| "type_tag GG_TYPE_BOOLEAN = 1"
| "type_tag GG_TYPE_I64 = 2"
| "type_tag GG_TYPE_F64 = 3"
| "type_tag GG_TYPE_BUF = 4"
| "type_tag GG_TYPE_LIST = 5"
| "type_tag GG_TYPE_MAP = 6"

definition gg_obj_type :: "GgObject \<Rightarrow> GgObjectType run" where
  "gg_obj_type obj = (let result = obj ! (obj_size - 1) in do {
     c_assert (result \<le> 6);
     Some ([GG_TYPE_NULL, GG_TYPE_BOOLEAN, GG_TYPE_I64, GG_TYPE_F64, GG_TYPE_BUF,
            GG_TYPE_LIST, GG_TYPE_MAP] ! unat result)
   })"

definition GG_OBJ_NULL :: GgObject where "GG_OBJ_NULL = replicate obj_size 0"

definition gg_obj_bool :: "bool \<Rightarrow> GgObject" where
  "gg_obj_bool value =
     put_at (put_at (replicate obj_size 0) 0 [if value then 1 else 0])
       (obj_size - 1) [type_tag GG_TYPE_BOOLEAN]"

definition gg_obj_into_bool :: "GgObject \<Rightarrow> bool run" where
  "gg_obj_into_bool boolean = do {
     t \<leftarrow> gg_obj_type boolean;
     c_assert (t = GG_TYPE_BOOLEAN);
     Some (boolean ! 0 \<noteq> 0)
   }"

definition gg_obj_i64 :: "64 word \<Rightarrow> GgObject" where
  "gg_obj_i64 value =
     put_at (put_at (replicate obj_size 0) 0 (le_bytes 8 (unat value)))
       (obj_size - 1) [type_tag GG_TYPE_I64]"

definition gg_obj_into_i64 :: "GgObject \<Rightarrow> (64 word) run" where
  "gg_obj_into_i64 i64 = do {
     t \<leftarrow> gg_obj_type i64;
     c_assert (t = GG_TYPE_I64);
     Some (of_nat (le_val (take 8 i64)))
   }"

text \<open>A double is its bit pattern.\<close>

definition gg_obj_f64 :: "64 word \<Rightarrow> GgObject" where
  "gg_obj_f64 value =
     put_at (put_at (replicate obj_size 0) 0 (le_bytes 8 (unat value)))
       (obj_size - 1) [type_tag GG_TYPE_F64]"

definition gg_obj_into_f64 :: "GgObject \<Rightarrow> (64 word) run" where
  "gg_obj_into_f64 f64 = do {
     t \<leftarrow> gg_obj_type f64;
     c_assert (t = GG_TYPE_F64);
     Some (of_nat (le_val (take 8 f64)))
   }"

text \<open>\<open>length_err\<close> asserts false, so a length over 16 bits does not return.\<close>

definition length_err :: "nat \<Rightarrow> nat run" where
  "length_err len = (if len > UINT16_MAX then None else Some len)"

definition gg_obj_buf :: "GgBuffer \<Rightarrow> GgObject run" where
  "gg_obj_buf value = do {
     len \<leftarrow> length_err (buf_len value);
     Some (put_at (put_at (put_at (replicate obj_size 0) 0 (le_bytes 8 (buf_data value)))
             8 (le_bytes 2 (u16 len))) (obj_size - 1) [type_tag GG_TYPE_BUF])
   }"

definition gg_obj_into_buf :: "GgObject \<Rightarrow> GgBuffer run" where
  "gg_obj_into_buf buf = do {
     t \<leftarrow> gg_obj_type buf;
     c_assert (t = GG_TYPE_BUF);
     Some \<lparr>buf_data = le_val (take 8 buf), buf_len = le_val (take 2 (drop 8 buf))\<rparr>
   }"

definition gg_obj_map :: "GgMap \<Rightarrow> GgObject run" where
  "gg_obj_map value = do {
     len \<leftarrow> length_err (map_len value);
     Some (put_at (put_at (put_at (replicate obj_size 0) 0 (le_bytes 8 (map_pairs value)))
             8 (le_bytes 2 (u16 len))) (obj_size - 1) [type_tag GG_TYPE_MAP])
   }"

definition gg_obj_into_map :: "GgObject \<Rightarrow> GgMap run" where
  "gg_obj_into_map obj = do {
     t \<leftarrow> gg_obj_type obj;
     c_assert (t = GG_TYPE_MAP);
     Some \<lparr>map_pairs = le_val (take 8 obj), map_len = le_val (take 2 (drop 8 obj))\<rparr>
   }"

definition gg_obj_list :: "GgList \<Rightarrow> GgObject run" where
  "gg_obj_list value = do {
     len \<leftarrow> length_err (list_len value);
     Some (put_at (put_at (put_at (replicate obj_size 0) 0 (le_bytes 8 (list_items value)))
             8 (le_bytes 2 (u16 len))) (obj_size - 1) [type_tag GG_TYPE_LIST])
   }"

definition gg_obj_into_list :: "GgObject \<Rightarrow> GgList run" where
  "gg_obj_into_list list = do {
     t \<leftarrow> gg_obj_type list;
     c_assert (t = GG_TYPE_LIST);
     Some \<lparr>list_items = le_val (take 8 list), list_len = le_val (take 2 (drop 8 list))\<rparr>
   }"

text \<open>Key-value pairs.\<close>

definition gg_kv_set_key :: "GgKV \<Rightarrow> GgBuffer \<Rightarrow> GgKV run" where
  "gg_kv_set_key kv key = do {
     len \<leftarrow> length_err (buf_len key);
     Some (put_at (put_at kv 0 (le_bytes 8 (buf_data key))) 8 (le_bytes 2 (u16 len)))
   }"

definition gg_kv :: "GgBuffer \<Rightarrow> GgObject \<Rightarrow> GgKV run" where
  "gg_kv key val = do {
     result \<leftarrow> gg_kv_set_key (replicate kv_size 0) key;
     Some (put_at result 10 val)
   }"

definition gg_kv_key :: "GgKV \<Rightarrow> GgBuffer" where
  "gg_kv_key kv = \<lparr>buf_data = le_val (take 8 kv), buf_len = le_val (take 2 (drop 8 kv))\<rparr>"

text \<open>The value of a pair is addressed, not copied.\<close>

definition gg_kv_val :: "addr \<Rightarrow> addr" where
  "gg_kv_val kv = kv + 10"

fun gg_list_type_check :: "mem \<Rightarrow> addr \<Rightarrow> nat \<Rightarrow> GgObjectType \<Rightarrow> GgError run" where
  "gg_list_type_check m items 0 type = Some GG_ERR_OK"
| "gg_list_type_check m items (Suc n) type = do {
     t \<leftarrow> gg_obj_type (rd m items obj_size);
     if t \<noteq> type then Some GG_ERR_PARSE
     else gg_list_type_check m (items + obj_size) n type
   }"

text \<open>What an object stands for.\<close>

datatype gg_val =
    VNull
  | VBool bool
  | VI64 "64 word"
  | VF64 "64 word"
  | VBuf bytes
  | VList "gg_val list"
  | VMap "(bytes \<times> gg_val) list"

fun val_type :: "gg_val \<Rightarrow> GgObjectType" where
  "val_type VNull = GG_TYPE_NULL"
| "val_type (VBool _) = GG_TYPE_BOOLEAN"
| "val_type (VI64 _) = GG_TYPE_I64"
| "val_type (VF64 _) = GG_TYPE_F64"
| "val_type (VBuf _) = GG_TYPE_BUF"
| "val_type (VList _) = GG_TYPE_LIST"
| "val_type (VMap _) = GG_TYPE_MAP"

text \<open>\<open>val_blk m x v\<close>: in memory \<open>m\<close> the object bytes \<open>x\<close> stand for \<open>v\<close>;
  \<open>objs_at\<close> and \<open>kvs_at\<close> say it of an array of objects and of key-value pairs.\<close>

fun val_blk :: "mem \<Rightarrow> GgObject \<Rightarrow> gg_val \<Rightarrow> bool"
  and objs_at :: "mem \<Rightarrow> addr \<Rightarrow> gg_val list \<Rightarrow> bool"
  and kvs_at :: "mem \<Rightarrow> addr \<Rightarrow> (bytes \<times> gg_val) list \<Rightarrow> bool" where
  "val_blk m x VNull = (gg_obj_type x = Some GG_TYPE_NULL)"
| "val_blk m x (VBool b) = (gg_obj_into_bool x = Some b)"
| "val_blk m x (VI64 w) = (gg_obj_into_i64 x = Some w)"
| "val_blk m x (VF64 w) = (gg_obj_into_f64 x = Some w)"
| "val_blk m x (VBuf bs) =
     (case gg_obj_into_buf x of None \<Rightarrow> False | Some b \<Rightarrow> contents m b = bs)"
| "val_blk m x (VList vs) =
     (case gg_obj_into_list x of None \<Rightarrow> False
      | Some l \<Rightarrow> list_len l = length vs \<and> objs_at m (list_items l) vs)"
| "val_blk m x (VMap kvs) =
     (case gg_obj_into_map x of None \<Rightarrow> False
      | Some l \<Rightarrow> map_len l = length kvs \<and> kvs_at m (map_pairs l) kvs)"
| "objs_at m p [] = True"
| "objs_at m p (v # vs) = (val_blk m (rd m p obj_size) v \<and> objs_at m (p + obj_size) vs)"
| "kvs_at m p [] = True"
| "kvs_at m p ((k, v) # kvs) =
     (contents m (gg_kv_key (rd m p kv_size)) = k \<and> val_blk m (rd m (gg_kv_val p) obj_size) v \<and>
      kvs_at m (p + kv_size) kvs)"

abbreviation obj_at :: "mem \<Rightarrow> addr \<Rightarrow> gg_val \<Rightarrow> bool" where
  "obj_at m p v \<equiv> val_blk m (rd m p obj_size) v"

text \<open>The addresses an object refers to, through all its pointers; \<open>obj_foot\<close> adds its own bytes.\<close>

fun blk_foot :: "mem \<Rightarrow> GgObject \<Rightarrow> gg_val \<Rightarrow> addr set"
  and objs_foot :: "mem \<Rightarrow> addr \<Rightarrow> gg_val list \<Rightarrow> addr set"
  and kvs_foot :: "mem \<Rightarrow> addr \<Rightarrow> (bytes \<times> gg_val) list \<Rightarrow> addr set" where
  "blk_foot m x VNull = {}"
| "blk_foot m x (VBool b) = {}"
| "blk_foot m x (VI64 w) = {}"
| "blk_foot m x (VF64 w) = {}"
| "blk_foot m x (VBuf bs) = (let d = le_val (take 8 x) in {d..<d + length bs})"
| "blk_foot m x (VList vs) = objs_foot m (le_val (take 8 x)) vs"
| "blk_foot m x (VMap kvs) = kvs_foot m (le_val (take 8 x)) kvs"
| "objs_foot m p [] = {}"
| "objs_foot m p (v # vs) =
     {p..<p + obj_size} \<union> blk_foot m (rd m p obj_size) v \<union> objs_foot m (p + obj_size) vs"
| "kvs_foot m p [] = {}"
| "kvs_foot m p ((k, v) # kvs) =
     {p..<p + kv_size} \<union> (let d = le_val (take 8 (rd m p kv_size)) in {d..<d + length k}) \<union>
     blk_foot m (rd m (gg_kv_val p) obj_size) v \<union> kvs_foot m (p + kv_size) kvs"

abbreviation obj_foot :: "mem \<Rightarrow> addr \<Rightarrow> gg_val \<Rightarrow> addr set" where
  "obj_foot m p v \<equiv> {p..<p + obj_size} \<union> blk_foot m (rd m p obj_size) v"

section \<open>Packing and unpacking\<close>

lemma length_put_at [simp]: "i + length bs \<le> length xs \<Longrightarrow> length (put_at xs i bs) = length xs"
  by (simp add: put_at_def)

lemma length_err_Some [simp, run_simps]: "length_err n = Some k \<longleftrightarrow> n < 65536 \<and> k = n"
  by (auto simp: length_err_def UINT16_MAX_def)

lemma length_err_ok [simp, run_simps]: "n < 65536 \<Longrightarrow> length_err n = Some n"
  by (simp add: length_err_def UINT16_MAX_def)

text \<open>The layout of a tagged object: eight payload bytes, two length bytes, one tag byte.\<close>

definition pack :: "bytes \<Rightarrow> bytes \<Rightarrow> GgObjectType \<Rightarrow> GgObject" where
  "pack ptr len t = ptr @ len @ [type_tag t]"

lemma packed [simp]:
  assumes "length ptr = 8" "length len = 2"
  shows "length (pack ptr len t) = obj_size" "gg_obj_type (pack ptr len t) = Some t"
    "take 8 (pack ptr len t) = ptr" "take 2 (drop 8 (pack ptr len t)) = len"
  using assms by (cases t; simp add: pack_def gg_obj_type_def nth_append)+

lemma put_at_layout:
  assumes "length ptr = 8" "length len = 2"
  shows "put_at (put_at (put_at (replicate obj_size 0) 0 ptr) 8 len) 10 [t] = ptr @ len @ [t]"
    and "put_at (put_at (replicate obj_size 0) 0 ptr) 10 [t] = ptr @ [0, 0, t]"
  using assms by (auto simp: put_at_def numeral_2_eq_2)

lemma gg_obj_packed:
  "gg_obj_i64 w = pack (le_bytes 8 (unat w)) [0, 0] GG_TYPE_I64"
  "gg_obj_f64 w = pack (le_bytes 8 (unat w)) [0, 0] GG_TYPE_F64"
  "gg_obj_bool b = pack [if b then 1 else 0, 0, 0, 0, 0, 0, 0, 0] [0, 0] GG_TYPE_BOOLEAN"
  "buf_len u < 65536 \<Longrightarrow>
    gg_obj_buf u = Some (pack (le_bytes 8 (buf_data u)) (le_bytes 2 (buf_len u)) GG_TYPE_BUF)"
  "list_len l < 65536 \<Longrightarrow>
    gg_obj_list l = Some (pack (le_bytes 8 (list_items l)) (le_bytes 2 (list_len l)) GG_TYPE_LIST)"
  "map_len p < 65536 \<Longrightarrow>
    gg_obj_map p = Some (pack (le_bytes 8 (map_pairs p)) (le_bytes 2 (map_len p)) GG_TYPE_MAP)"
  by (simp_all add: gg_obj_i64_def gg_obj_f64_def gg_obj_buf_def gg_obj_list_def gg_obj_map_def
      put_at_layout put_at_layout(2) [where len = "[0, 0]"] pack_def,
      simp add: gg_obj_bool_def put_at_def numeral_eq_Suc(1))

lemma le_val_le_bytes_8 [simp]: "x < 18446744073709551616 \<Longrightarrow> le_val (le_bytes 8 x) = x"
  by (rule le_val_le_bytes) simp

lemma le_val_le_bytes_2 [simp]: "x < 65536 \<Longrightarrow> le_val (le_bytes 2 x) = x"
  by (rule le_val_le_bytes) simp

lemma unat_64_bound: "unat (w :: 64 word) < 18446744073709551616"
  using unsigned_less[of w] by simp

lemma into_obj [simp]:
  "gg_obj_into_bool (gg_obj_bool b) = Some b"
  "gg_obj_into_i64 (gg_obj_i64 w) = Some w"
  "gg_obj_into_f64 (gg_obj_f64 w) = Some w"
  by (simp_all add: gg_obj_packed gg_obj_into_bool_def gg_obj_into_i64_def gg_obj_into_f64_def
      unat_64_bound, simp add: pack_def)

lemma into_obj_buf: "gg_obj_buf u = Some obj \<Longrightarrow> buf_data u < 2 ^ 64 \<Longrightarrow> gg_obj_into_buf obj = Some u"
  by (cases "buf_len u < 65536")
    (auto simp: gg_obj_packed gg_obj_into_buf_def, simp add: gg_obj_buf_def length_err_def int_limits)

lemma into_obj_list: "gg_obj_list u = Some obj \<Longrightarrow> list_items u < 2 ^ 64 \<Longrightarrow> gg_obj_into_list obj = Some u"
  by (cases "list_len u < 65536")
    (auto simp: gg_obj_packed gg_obj_into_list_def, simp add: gg_obj_list_def length_err_def int_limits)

lemma into_obj_map: "gg_obj_map u = Some obj \<Longrightarrow> map_pairs u < 2 ^ 64 \<Longrightarrow> gg_obj_into_map obj = Some u"
  by (cases "map_len u < 65536")
    (auto simp: gg_obj_packed gg_obj_into_map_def, simp add: gg_obj_map_def length_err_def int_limits)

lemma length_gg_obj [simp]:
  "length GG_OBJ_NULL = obj_size" "length (gg_obj_bool b) = obj_size"
  "length (gg_obj_i64 w) = obj_size" "length (gg_obj_f64 w) = obj_size"
  "gg_obj_buf u = Some obj \<Longrightarrow> length obj = obj_size"
  "gg_obj_list l = Some obj \<Longrightarrow> length obj = obj_size"
  "gg_obj_map q = Some obj \<Longrightarrow> length obj = obj_size"
  by (auto simp: gg_obj_packed GG_OBJ_NULL_def gg_obj_buf_def gg_obj_list_def gg_obj_map_def
      bind_Some_iff)

lemma gg_obj_type_null [simp]: "gg_obj_type GG_OBJ_NULL = Some GG_TYPE_NULL"
  by (simp add: gg_obj_type_def GG_OBJ_NULL_def)

lemma gg_kv_layout:
  "buf_len key < 65536 \<Longrightarrow> length kv = kv_size \<Longrightarrow>
     gg_kv_set_key kv key = Some (le_bytes 8 (buf_data key) @ le_bytes 2 (buf_len key) @ drop 10 kv)"
  by (simp add: gg_kv_set_key_def put_at_def)

lemma gg_kv_eq:
  "buf_len key < 65536 \<Longrightarrow> length val = obj_size \<Longrightarrow>
     gg_kv key val = Some (le_bytes 8 (buf_data key) @ le_bytes 2 (buf_len key) @ val)"
  by (simp add: gg_kv_def gg_kv_layout put_at_def)

lemma gg_kv_roundtrip:
  assumes "gg_kv key val = Some kv" "length val = obj_size" "buf_data key < 2 ^ 64"
  shows "gg_kv_key kv = key" "length kv = kv_size" "drop 10 kv = val"
proof -
  have "buf_len key < 65536" using assms(1)
    by (auto simp: gg_kv_def gg_kv_set_key_def bind_Some_iff)
  with assms show "gg_kv_key kv = key" "length kv = kv_size" "drop 10 kv = val"
    by (auto simp: gg_kv_eq gg_kv_key_def)
qed

lemma gg_obj_type_cong: "xs ! 10 = ys ! 10 \<Longrightarrow> gg_obj_type xs = gg_obj_type ys"
  by (simp add: gg_obj_type_def)

lemma into_type:
  "gg_obj_into_bool x = Some b \<Longrightarrow> gg_obj_type x = Some GG_TYPE_BOOLEAN"
  "gg_obj_into_i64 x = Some i \<Longrightarrow> gg_obj_type x = Some GG_TYPE_I64"
  "gg_obj_into_f64 x = Some i \<Longrightarrow> gg_obj_type x = Some GG_TYPE_F64"
  "gg_obj_into_buf x = Some u \<Longrightarrow> gg_obj_type x = Some GG_TYPE_BUF"
  "gg_obj_into_list x = Some l \<Longrightarrow> gg_obj_type x = Some GG_TYPE_LIST"
  "gg_obj_into_map x = Some q \<Longrightarrow> gg_obj_type x = Some GG_TYPE_MAP"
  by (auto simp: gg_obj_into_bool_def gg_obj_into_i64_def gg_obj_into_f64_def gg_obj_into_buf_def
      gg_obj_into_list_def gg_obj_into_map_def bind_Some_iff)

lemma into_val:
  "gg_obj_into_buf x = Some u \<Longrightarrow> buf_data u = le_val (take 8 x)"
  "gg_obj_into_list x = Some l \<Longrightarrow> list_items l = le_val (take 8 x)"
  "gg_obj_into_map x = Some q \<Longrightarrow> map_pairs q = le_val (take 8 x)"
  by (auto simp: gg_obj_into_buf_def gg_obj_into_list_def gg_obj_into_map_def bind_Some_iff)

lemma into_len_bound:
  "gg_obj_into_buf x = Some u \<Longrightarrow> buf_len u < 65536"
  "gg_obj_into_list x = Some l \<Longrightarrow> list_len l < 65536"
  "gg_obj_into_map x = Some q \<Longrightarrow> map_len q < 65536"
  using le_val_bound[of "take 2 (drop 8 x)"]
  by (auto simp: gg_obj_into_buf_def gg_obj_into_list_def gg_obj_into_map_def bind_Some_iff
      intro: less_le_trans[OF _ power_increasing[of _ 2 256, simplified]])

lemma val_blk_type: "val_blk m x v \<Longrightarrow> gg_obj_type x = Some (val_type v)"
  by (cases v) (auto split: option.splits dest: into_type)

section \<open>Objects depend on their footprint only\<close>

lemma frame_aux:
  "agree_on (blk_foot m x v) m m' \<Longrightarrow> val_blk m x v \<Longrightarrow> val_blk m' x v \<and> blk_foot m' x v = blk_foot m x v"
  "agree_on (objs_foot m p vs) m m' \<Longrightarrow> objs_at m p vs \<Longrightarrow> objs_at m' p vs \<and> objs_foot m' p vs = objs_foot m p vs"
  "agree_on (kvs_foot m p kvs) m m' \<Longrightarrow> kvs_at m p kvs \<Longrightarrow> kvs_at m' p kvs \<and> kvs_foot m' p kvs = kvs_foot m p kvs"
proof (induction m x v and m p vs and m p kvs rule: blk_foot_objs_foot_kvs_foot.induct)
  case (5 m x bs)
  from 5 obtain u where u: "gg_obj_into_buf x = Some u" "contents m u = bs"
    by (auto split: option.splits)
  have "contents m u = contents m' u"
    unfolding contents_def using 5(1) into_val(1)[OF u(1)] u(2)
    by (intro agree_on_rd) (auto simp: contents_def Let_def)
  then show ?case using u by (simp add: Let_def)
next
  case (6 m x vs)
  from 6 obtain l where l: "gg_obj_into_list x = Some l" "list_len l = length vs"
    "objs_at m (list_items l) vs" by (auto split: option.splits)
  have "list_items l = le_val (take 8 x)" using into_val(2)[OF l(1)] .
  with 6 l show ?case by auto
next
  case (7 m x kvs)
  from 7 obtain l where l: "gg_obj_into_map x = Some l" "map_len l = length kvs"
    "kvs_at m (map_pairs l) kvs" by (auto split: option.splits)
  have "map_pairs l = le_val (take 8 x)" using into_val(3)[OF l(1)] .
  with 7 l show ?case by auto
next
  case (9 m p v vs)
  have eq: "rd m p obj_size = rd m' p obj_size"
    using 9(3) by (intro agree_on_rd) auto
  from 9 eq show ?case by (auto intro: agree_on_mono)
next
  case (11 m p k v kvs)
  have eq: "rd m p kv_size = rd m' p kv_size" and eq': "rd m (gg_kv_val p) obj_size = rd m' (gg_kv_val p) obj_size"
    using 11(3) by (auto intro!: agree_on_rd simp: gg_kv_val_def)
  have d: "buf_data (gg_kv_key (rd m p kv_size)) = le_val (take 8 (rd m p kv_size))"
    by (simp add: gg_kv_key_def)
  have "contents m (gg_kv_key (rd m p kv_size)) = contents m' (gg_kv_key (rd m p kv_size))"
    unfolding contents_def using 11(3,4) d
    by (intro agree_on_rd) (auto simp: contents_def Let_def)
  with 11 eq eq' show ?case by (auto intro: agree_on_mono simp: Let_def)
qed auto

lemmas val_blk_frame = frame_aux(1) [THEN conjunct1] and blk_foot_frame = frame_aux(1) [THEN conjunct2]
  and kvs_frame = frame_aux(3) [THEN conjunct1] and kvs_foot_frame = frame_aux(3) [THEN conjunct2]
  and objs_frame = frame_aux(2) [THEN conjunct1] and objs_foot_frame = frame_aux(2) [THEN conjunct2]

lemma objs_at_nth: "objs_at m p vs \<Longrightarrow> i < length vs \<Longrightarrow> obj_at m (p + obj_size * i) (vs ! i)"
proof (induction vs arbitrary: p i)
  case (Cons v vs)
  then show ?case using Cons.IH[of "p + obj_size" "i - 1"] by (cases i) (auto simp: add.assoc)
qed simp

lemma kvs_at_nth:
  "kvs_at m p kvs \<Longrightarrow> i < length kvs \<Longrightarrow>
     contents m (gg_kv_key (rd m (p + kv_size * i) kv_size)) = fst (kvs ! i) \<and>
     obj_at m (gg_kv_val (p + kv_size * i)) (snd (kvs ! i))"
proof (induction kvs arbitrary: p i)
  case (Cons kv kvs)
  then show ?case using Cons.IH[of "p + kv_size" "i - 1"]
    by (cases i; cases kv) (auto simp: add.assoc)
qed simp

lemma list_type_check_iff:
  "objs_at m p vs \<Longrightarrow> gg_list_type_check m p (length vs) t =
     Some (if list_all (\<lambda>v. val_type v = t) vs then GG_ERR_OK else GG_ERR_PARSE)"
  by (induction vs arbitrary: p) (auto dest: val_blk_type)

lemma gg_obj_fits:
  "gg_obj_buf u = None \<longleftrightarrow> \<not> buf_len u < 65536" "gg_obj_list l = None \<longleftrightarrow> \<not> list_len l < 65536"
  "gg_obj_map p = None \<longleftrightarrow> \<not> map_len p < 65536"
  by (auto simp: gg_obj_buf_def gg_obj_list_def gg_obj_map_def length_err_def int_limits)

section \<open>Properties\<close>

text \<open>Every object constructor packs its value so that the matching accessor returns it and the
  type tag is right: booleans, integers and doubles without exception, buffers, lists and maps
  whenever their length fits 16 bits. A longer buffer, list or map makes the constructor abort.\<close>

theorem gg_obj_roundtrip:
  "gg_obj_into_bool (gg_obj_bool b) = Some b \<and> gg_obj_into_i64 (gg_obj_i64 w) = Some w \<and>
   gg_obj_into_f64 (gg_obj_f64 w) = Some w \<and>
   (buf_data u < 2 ^ 64 \<longrightarrow>
      (if buf_len u < 65536 then \<exists>x. gg_obj_buf u = Some x \<and> gg_obj_into_buf x = Some u else gg_obj_buf u = None)) \<and>
   (list_items l < 2 ^ 64 \<longrightarrow>
      (if list_len l < 65536 then \<exists>x. gg_obj_list l = Some x \<and> gg_obj_into_list x = Some l else gg_obj_list l = None)) \<and>
   (map_pairs p < 2 ^ 64 \<longrightarrow>
      (if map_len p < 65536 then \<exists>x. gg_obj_map p = Some x \<and> gg_obj_into_map x = Some p else gg_obj_map p = None))"
  using into_obj_buf[of u] into_obj_list[of l] into_obj_map[of p] gg_obj_fits(1)[of u] gg_obj_fits(2)[of l]
    gg_obj_fits(3)[of p] by (simp add: option.exhaust_sel) (metis option.exhaust)

theorem gg_obj_roundtrip_witness:
  "\<exists>x. gg_obj_buf \<lparr>buf_data = 4096, buf_len = 300\<rparr> = Some x \<and>
     gg_obj_into_buf x = Some \<lparr>buf_data = 4096, buf_len = 300\<rparr>"
  using gg_obj_roundtrip[of True 0 "\<lparr>buf_data = 4096, buf_len = 300\<rparr>"] by simp

text \<open>C40: Objects are typed: every constructor gives an object of its type, or aborts when the length does not
  fit; every accessor returns on the objects of its type and aborts on all others, and the type can be
  read unless the tag is none of the seven.\<close>

theorem gg_obj_typed:
  "gg_obj_type GG_OBJ_NULL = Some GG_TYPE_NULL \<and> gg_obj_type (gg_obj_bool b) = Some GG_TYPE_BOOLEAN \<and>
   gg_obj_type (gg_obj_i64 w) = Some GG_TYPE_I64 \<and> gg_obj_type (gg_obj_f64 w) = Some GG_TYPE_F64 \<and>
   Option.bind (gg_obj_buf u) gg_obj_type = (if buf_len u < 65536 then Some GG_TYPE_BUF else None) \<and>
   Option.bind (gg_obj_list l) gg_obj_type = (if list_len l < 65536 then Some GG_TYPE_LIST else None) \<and>
   Option.bind (gg_obj_map p) gg_obj_type = (if map_len p < 65536 then Some GG_TYPE_MAP else None) \<and>
   (gg_obj_into_bool x \<noteq> None \<longleftrightarrow> gg_obj_type x = Some GG_TYPE_BOOLEAN) \<and>
   (gg_obj_into_i64 x \<noteq> None \<longleftrightarrow> gg_obj_type x = Some GG_TYPE_I64) \<and>
   (gg_obj_into_f64 x \<noteq> None \<longleftrightarrow> gg_obj_type x = Some GG_TYPE_F64) \<and>
   (gg_obj_into_buf x \<noteq> None \<longleftrightarrow> gg_obj_type x = Some GG_TYPE_BUF) \<and>
   (gg_obj_into_list x \<noteq> None \<longleftrightarrow> gg_obj_type x = Some GG_TYPE_LIST) \<and>
   (gg_obj_into_map x \<noteq> None \<longleftrightarrow> gg_obj_type x = Some GG_TYPE_MAP) \<and>
   (gg_obj_type x = None \<longleftrightarrow> x ! 10 > 6)"
proof (intro conjI)
  show "Option.bind (gg_obj_buf u) gg_obj_type = (if buf_len u < 65536 then Some GG_TYPE_BUF else None)"
    using gg_obj_fits(1)[of u] by (cases "buf_len u < 65536") (simp_all add: gg_obj_packed)
  show "Option.bind (gg_obj_list l) gg_obj_type = (if list_len l < 65536 then Some GG_TYPE_LIST else None)"
    using gg_obj_fits(2)[of l] by (cases "list_len l < 65536") (simp_all add: gg_obj_packed)
  show "Option.bind (gg_obj_map p) gg_obj_type = (if map_len p < 65536 then Some GG_TYPE_MAP else None)"
    using gg_obj_fits(3)[of p] by (cases "map_len p < 65536") (simp_all add: gg_obj_packed)
  show "gg_obj_type x = None \<longleftrightarrow> x ! 10 > 6" by (auto simp: gg_obj_type_def Let_def c_assert_def not_le)
qed (auto simp: gg_obj_packed gg_obj_into_bool_def gg_obj_into_i64_def gg_obj_into_f64_def gg_obj_into_buf_def gg_obj_into_list_def
      gg_obj_into_map_def c_assert_def bind_Some_iff split: bind_splits if_splits)

text \<open>A key-value pair built by \<open>gg_kv\<close> has the key and, ten bytes in, the value it was built
  from, and setting another key changes the key and keeps the value.\<close>

theorem gg_kv_roundtrip_key:
  assumes "buf_len key < 65536" "buf_data key < 2 ^ 64" "buf_len key' < 65536" "buf_data key' < 2 ^ 64"
    "length val = obj_size"
  shows "\<exists>kv kv'. gg_kv key val = Some kv \<and> gg_kv_key kv = key \<and> drop 10 kv = val \<and>
    gg_kv_set_key kv key' = Some kv' \<and> gg_kv_key kv' = key' \<and> drop 10 kv' = val"
  using assms by (auto simp: gg_kv_eq gg_kv_layout gg_kv_key_def)

theorem gg_kv_roundtrip_key_witness:
  "\<exists>kv kv'. gg_kv \<lparr>buf_data = 64, buf_len = 3\<rparr> GG_OBJ_NULL = Some kv \<and>
     gg_kv_set_key kv \<lparr>buf_data = 80, buf_len = 5\<rparr> = Some kv' \<and> gg_kv_key kv' = \<lparr>buf_data = 80, buf_len = 5\<rparr>"
  using gg_kv_roundtrip_key[of "\<lparr>buf_data = 64, buf_len = 3\<rparr>" "\<lparr>buf_data = 80, buf_len = 5\<rparr>" GG_OBJ_NULL] by auto

end
