(* ===== verification/Streams.thy ===== *)
theory Streams
  imports Object
begin

text \<open>
  The stream table of the IPC client (\<open>src/ipc/client.c\<close>): for each of its slots the stream id (0 when
  the slot is free), a generation that every claim and every release advances, and the handler of the
  stream. A subscription handle names a slot and its generation. All operations run under
  \<open>stream_state_mtx\<close>.
\<close>

section \<open>Definitions\<close>

definition GG_IPC_MAX_STREAMS :: nat where "GG_IPC_MAX_STREAMS = 16"

text \<open>A callback is code of the SDK's user or of the request layer. Besides its result it returns the
  subscription handles it closes, the only operation of the client it can perform from the receiving
  thread, and the memory it leaves.\<close>

type_synonym GgIpcSubscriptionHandle = "32 word"
type_synonym cb_result = "(GgError \<times> GgIpcSubscriptionHandle list \<times> mem) run"
type_synonym GgIpcSubscribeCallback = "addr \<Rightarrow> addr \<Rightarrow> GgIpcSubscriptionHandle \<Rightarrow> bytes \<Rightarrow> GgMap \<Rightarrow> mem \<Rightarrow> cb_result"

record StreamHandler =
  sh_fn :: "GgIpcSubscribeCallback option"
  sh_ctx :: addr
  sh_aux_ctx :: addr

definition no_handler :: StreamHandler where
  "no_handler = \<lparr>sh_fn = None, sh_ctx = NULL, sh_aux_ctx = NULL\<rparr>"

record streams =
  stream_state_id :: "(32 word) list"
  stream_state_generation :: "(16 word) list"
  stream_state_handler :: "StreamHandler list"

definition init_streams :: streams where
  "init_streams = \<lparr>stream_state_id = replicate GG_IPC_MAX_STREAMS 0,
     stream_state_generation = replicate GG_IPC_MAX_STREAMS 0,
     stream_state_handler = replicate GG_IPC_MAX_STREAMS no_handler\<rparr>"

definition validate_handle :: "streams \<Rightarrow> GgIpcSubscriptionHandle \<Rightarrow> nat res" where
  "validate_handle t handle =
     (let handle_index = (ucast ((handle AND 0xFFFF) - 1) :: 16 word);
          handle_generation = (ucast (drop_bit 16 handle) :: 16 word)
      in if unat handle_index \<ge> GG_IPC_MAX_STREAMS then Inl GG_ERR_INVALID
         else if handle_generation \<noteq> stream_state_generation t ! unat handle_index then Inl GG_ERR_NOENTRY
         else Inr (unat handle_index))"

definition get_current_handle :: "streams \<Rightarrow> nat \<Rightarrow> GgIpcSubscriptionHandle run" where
  "get_current_handle t index = do {
     c_assert (index < GG_IPC_MAX_STREAMS);
     Some (push_bit 16 (ucast (stream_state_generation t ! index)) OR (of_nat index + 1))
   }"

text \<open>The first slot from \<open>i\<close> on that holds an id.\<close>

fun slot_loop :: "32 word \<Rightarrow> (32 word) list \<Rightarrow> nat \<Rightarrow> nat option" where
  "slot_loop x [] i = None"
| "slot_loop x (y # ys) i = (if y = x then Some i else slot_loop x ys (i + 1))"

definition get_stream_index_from_id :: "streams \<Rightarrow> 32 word \<Rightarrow> nat option" where
  "get_stream_index_from_id t stream_id =
     (if sint stream_id \<le> 0 then None else slot_loop stream_id (stream_state_id t) 0)"

definition claim_stream_index :: "streams \<Rightarrow> (nat \<times> streams) option" where
  "claim_stream_index t =
     (case slot_loop 0 (stream_state_id t) 0 of
        None \<Rightarrow> None
      | Some i \<Rightarrow> Some (i, t\<lparr>stream_state_generation := (stream_state_generation t)[i := stream_state_generation t ! i + 1],
          stream_state_id := (stream_state_id t)[i := - 1]\<rparr>))"

definition set_stream_index :: "nat \<Rightarrow> 32 word \<Rightarrow> StreamHandler \<Rightarrow> streams \<Rightarrow> streams" where
  "set_stream_index index stream_id handler t =
     t\<lparr>stream_state_id := (stream_state_id t)[index := stream_id],
       stream_state_handler := (stream_state_handler t)[index := handler]\<rparr>"

definition clear_stream_index :: "nat \<Rightarrow> streams \<Rightarrow> streams" where
  "clear_stream_index index t =
     t\<lparr>stream_state_generation := (stream_state_generation t)[index := stream_state_generation t ! index + 1],
       stream_state_id := (stream_state_id t)[index := 0],
       stream_state_handler := (stream_state_handler t)[index := no_handler]\<rparr>"

section \<open>Slots\<close>

definition wf_streams :: "streams \<Rightarrow> bool" where
  "wf_streams t \<longleftrightarrow> length (stream_state_id t) = GG_IPC_MAX_STREAMS \<and>
     length (stream_state_generation t) = GG_IPC_MAX_STREAMS \<and> length (stream_state_handler t) = GG_IPC_MAX_STREAMS"

lemma wf_init [simp]: "wf_streams init_streams"
  by (simp add: wf_streams_def init_streams_def)

lemma wf_set [simp]: "wf_streams (set_stream_index i x h t) = wf_streams t"
  by (simp add: wf_streams_def set_stream_index_def)

lemma wf_clear [simp]: "wf_streams (clear_stream_index i t) = wf_streams t"
  by (simp add: wf_streams_def clear_stream_index_def)

lemma wf_claim: "claim_stream_index t = Some (i, t') \<Longrightarrow> wf_streams t' = wf_streams t"
  by (auto simp: claim_stream_index_def wf_streams_def split: option.splits)

lemma slot_loop_Some:
  "slot_loop x ys k = Some i \<longleftrightarrow> k \<le> i \<and> i - k < length ys \<and> ys ! (i - k) = x \<and> (\<forall>j < i - k. ys ! j \<noteq> x)"
proof (induction ys arbitrary: k)
  case (Cons y ys)
  show ?case
  proof (cases "i = k")
    case False
    then have "i - k = Suc (i - Suc k)" if "k < i" using that by simp
    then show ?thesis using False Cons[of "Suc k"] by (cases "k < i") (auto simp: All_less_Suc2)
  qed (use Cons[of "Suc k"] in auto)
qed auto

lemma slot_loop_None: "slot_loop x ys k = None \<longleftrightarrow> x \<notin> set ys"
  by (induction ys arbitrary: k) auto

lemma claim_Some:
  assumes "claim_stream_index t = Some (i, t')" "wf_streams t"
  shows "i < GG_IPC_MAX_STREAMS" "stream_state_id t ! i = 0"
    "t' = t\<lparr>stream_state_generation := (stream_state_generation t)[i := stream_state_generation t ! i + 1],
          stream_state_id := (stream_state_id t)[i := - 1]\<rparr>"
  using assms by (auto simp: claim_stream_index_def slot_loop_Some wf_streams_def split: option.splits)

lemma claim_None: "claim_stream_index t = None \<longleftrightarrow> 0 \<notin> set (stream_state_id t)"
  using slot_loop_None[of 0 "stream_state_id t" 0] by (auto simp: claim_stream_index_def split: option.splits)

section \<open>Handles\<close>

lemma low_half:
  assumes "n < 65536"
  shows "drop_bit 16 (of_nat n :: 32 word) = 0" "(of_nat n :: 32 word) AND mask 16 = of_nat n"
proof -
  have "unat (of_nat n :: 32 word) = n" using assms by (intro unat_of_nat_len) simp
  then show "drop_bit 16 (of_nat n :: 32 word) = 0"
    using assms by (subst word_unat_eq_iff) (simp add: unsigned_drop_bit_eq drop_bit_eq_div[of 16 n] take_bit_nat_eq_self)
  show "(of_nat n :: 32 word) AND mask 16 = of_nat n"
    using assms \<open>unat _ = n\<close> by (subst word_unat_eq_iff) (simp add: take_bit_eq_mask[symmetric] unsigned_take_bit_eq take_bit_nat_eq_self)
qed

lemma high_half:
  "ucast (drop_bit 16 (push_bit 16 (ucast (g :: 16 word)) :: 32 word)) = g"
  "push_bit 16 (ucast (g :: 16 word)) AND (mask 16 :: 32 word) = 0"
  by (auto intro!: bit_word_eqI simp: bit_simps)

lemma handle_fields:
  assumes "i < 65535"
  shows "ucast (drop_bit 16 (push_bit 16 (ucast (g :: 16 word)) OR (of_nat i + 1 :: 32 word))) = g"
    and "unat (ucast (((push_bit 16 (ucast g) OR (of_nat i + 1 :: 32 word)) AND 0xFFFF) - 1) :: 16 word) = i"
proof -
  have m: "(0xFFFF :: 32 word) = mask 16" by (simp add: mask_eq_decr_exp)
  have w: "(of_nat i + 1 :: 32 word) = of_nat (i + 1)" by simp
  have lo: "drop_bit 16 (of_nat (i + 1) :: 32 word) = 0" "(of_nat (i + 1) :: 32 word) AND mask 16 = of_nat (i + 1)"
    using low_half[of "i + 1"] assms by simp_all
  show "ucast (drop_bit 16 (push_bit 16 (ucast g) OR (of_nat i + 1 :: 32 word))) = g"
    unfolding w drop_bit_or lo by (simp add: high_half)
  have "(push_bit 16 (ucast g) OR (of_nat (i + 1) :: 32 word)) AND mask 16 = of_nat (i + 1)"
    by (simp only: bit.conj_disj_distrib2 high_half lo or.left_neutral)
  then have "((push_bit 16 (ucast g) OR (of_nat i + 1 :: 32 word)) AND 0xFFFF) - 1 = of_nat i"
    unfolding m w by simp
  then show "unat (ucast (((push_bit 16 (ucast g) OR (of_nat i + 1 :: 32 word)) AND 0xFFFF) - 1) :: 16 word) = i"
    using assms by (simp add: unat_of_nat_len unsigned_ucast_eq take_bit_nat_eq_self)
qed

lemma validate_current:
  assumes "get_current_handle t i = Some h" "wf_streams t'"
  shows "validate_handle t' h = (if stream_state_generation t' ! i = stream_state_generation t ! i then Inr i else Inl GG_ERR_NOENTRY)"
proof -
  have i: "i < 16" and h: "h = push_bit 16 (ucast (stream_state_generation t ! i)) OR (of_nat i + 1)"
    using assms by (auto simp: get_current_handle_def GG_IPC_MAX_STREAMS_def run_simps)
  show ?thesis
    using handle_fields[of i "stream_state_generation t ! i"] i
    by (auto simp: validate_handle_def h Let_def GG_IPC_MAX_STREAMS_def)
qed

lemma handle_zero_invalid: "validate_handle t 0 = Inl GG_ERR_INVALID"
proof -
  have "(ucast (- 1 :: 32 word) :: 16 word) = - 1" by (rule bit_word_eqI) (simp add: bit_simps)
  then have "unat (ucast (- 1 :: 32 word) :: 16 word) = 65535" by (simp add: unsigned_minus_1_eq_mask mask_eq_exp_minus_1)
  then show ?thesis by (simp add: validate_handle_def Let_def GG_IPC_MAX_STREAMS_def)
qed

lemma clear_generation:
  assumes "wf_streams t" "i < GG_IPC_MAX_STREAMS"
  shows "stream_state_generation ((clear_stream_index i ^^ k) t) ! i = stream_state_generation t ! i + of_nat k \<and>
    wf_streams ((clear_stream_index i ^^ k) t)"
proof (induction k)
  case (Suc k)
  then show ?case using assms(2) by (simp add: clear_stream_index_def[of i "(clear_stream_index i ^^ k) t"] wf_streams_def)
qed (use assms in simp)



section \<open>The table is a finite map from stream ids to handlers\<close>

definition unique_ids :: "streams \<Rightarrow> bool" where
  "unique_ids t \<longleftrightarrow> wf_streams t \<and> (\<forall>i < GG_IPC_MAX_STREAMS. \<forall>j < GG_IPC_MAX_STREAMS.
     stream_state_id t ! i \<noteq> 0 \<longrightarrow> stream_state_id t ! i = stream_state_id t ! j \<longrightarrow> i = j)"

definition abs_streams :: "streams \<Rightarrow> 32 word \<rightharpoonup> StreamHandler" where
  "abs_streams t x = (if x = 0 then None
     else map_option (\<lambda>i. stream_state_handler t ! i) (slot_loop x (stream_state_id t) 0))"

lemma abs_streams_Some:
  assumes "unique_ids t" "x \<noteq> 0"
  shows "abs_streams t x = Some h \<longleftrightarrow> (\<exists>i < GG_IPC_MAX_STREAMS. stream_state_id t ! i = x \<and> stream_state_handler t ! i = h)"
proof
  assume "abs_streams t x = Some h"
  then show "\<exists>i < GG_IPC_MAX_STREAMS. stream_state_id t ! i = x \<and> stream_state_handler t ! i = h"
    using assms by (auto simp: abs_streams_def slot_loop_Some unique_ids_def wf_streams_def)
next
  assume "\<exists>i < GG_IPC_MAX_STREAMS. stream_state_id t ! i = x \<and> stream_state_handler t ! i = h"
  then obtain i where i: "i < GG_IPC_MAX_STREAMS" "stream_state_id t ! i = x" "stream_state_handler t ! i = h" by auto
  have "\<forall>j < i. stream_state_id t ! j \<noteq> x"
    using assms i unfolding unique_ids_def by (metis less_trans nat_neq_iff)
  then have "slot_loop x (stream_state_id t) 0 = Some i"
    using assms(1) i by (simp add: slot_loop_Some unique_ids_def wf_streams_def)
  then show "abs_streams t x = Some h" using assms(2) i by (simp add: abs_streams_def)
qed

lemma option_ext: "(\<And>h. x = Some h \<longleftrightarrow> y = Some h) \<Longrightarrow> x = y"
  by (cases x; cases y) auto

lemma abs_streams_dom: "dom (abs_streams t) = set (stream_state_id t) - {0}"
proof -
  have "abs_streams t x \<noteq> None \<longleftrightarrow> x \<noteq> 0 \<and> x \<in> set (stream_state_id t)" for x
    using slot_loop_None[of x "stream_state_id t" 0] by (cases "slot_loop x (stream_state_id t) 0") (auto simp: abs_streams_def)
  then show ?thesis unfolding dom_def by blast
qed

lemma abs_streams_lookup:
  "0 < sint x \<Longrightarrow> map_option (\<lambda>i. stream_state_handler t ! i) (get_stream_index_from_id t x) = abs_streams t x"
  by (auto simp: get_stream_index_from_id_def abs_streams_def)

lemma unique_clear: "unique_ids t \<Longrightarrow> i < GG_IPC_MAX_STREAMS \<Longrightarrow> unique_ids (clear_stream_index i t)"
  by (auto simp: unique_ids_def clear_stream_index_def nth_update wf_streams_def split: if_splits)

lemma abs_streams_clear:
  assumes "unique_ids t" "i < GG_IPC_MAX_STREAMS"
  shows "abs_streams (clear_stream_index i t) = (abs_streams t)(stream_state_id t ! i := None)"
proof
  fix x
  have slot: "stream_state_id (clear_stream_index i t) ! j = (if j = i then 0 else stream_state_id t ! j)"
    "stream_state_handler (clear_stream_index i t) ! j = (if j = i then no_handler else stream_state_handler t ! j)" for j
    using assms by (auto simp: clear_stream_index_def nth_update unique_ids_def wf_streams_def)
  show "abs_streams (clear_stream_index i t) x = ((abs_streams t)(stream_state_id t ! i := None)) x"
  proof (cases "x = 0")
    case False
    show ?thesis
    proof (rule option_ext)
      fix h
      show "abs_streams (clear_stream_index i t) x = Some h \<longleftrightarrow> ((abs_streams t)(stream_state_id t ! i := None)) x = Some h"
        using abs_streams_Some[OF unique_clear[OF assms] False, of h] abs_streams_Some[OF assms(1) False, of h] assms False
        unfolding slot unique_ids_def by (auto split: if_splits)
    qed
  qed (simp add: abs_streams_def)
qed

lemma open_slots:
  assumes "unique_ids t" "claim_stream_index t = Some (i, t1)"
  shows "i < GG_IPC_MAX_STREAMS" "stream_state_id t ! i = 0"
    "stream_state_id (set_stream_index i x h t1) ! j = (if j = i then x else stream_state_id t ! j)"
    "stream_state_handler (set_stream_index i x h t1) ! j = (if j = i then h else stream_state_handler t ! j)"
proof -
  have wf: "wf_streams t" using assms(1) by (simp add: unique_ids_def)
  note c = claim_Some[OF assms(2) wf]
  show "i < GG_IPC_MAX_STREAMS" "stream_state_id t ! i = 0" by (rule c)+
  show "stream_state_id (set_stream_index i x h t1) ! j = (if j = i then x else stream_state_id t ! j)"
    "stream_state_handler (set_stream_index i x h t1) ! j = (if j = i then h else stream_state_handler t ! j)"
    using c wf by (auto simp: set_stream_index_def nth_update wf_streams_def)
qed

lemma abs_streams_open:
  assumes u: "unique_ids t" and c: "claim_stream_index t = Some (i, t1)" and x: "x \<noteq> 0" "abs_streams t x = None"
  shows "unique_ids (set_stream_index i x h t1) \<and> abs_streams (set_stream_index i x h t1) = (abs_streams t)(x \<mapsto> h)"
proof -
  let ?t = "set_stream_index i x h t1"
  note slot = open_slots[OF u c]
  have fresh: "stream_state_id t ! j \<noteq> x" if "j < GG_IPC_MAX_STREAMS" for j
    using abs_streams_Some[OF u x(1)] x(2) that by auto
  have u': "unique_ids ?t"
    using u wf_claim[OF c] fresh slot(1) x(1) unfolding unique_ids_def by (auto simp: slot(3))
  moreover have "abs_streams ?t = (abs_streams t)(x \<mapsto> h)"
  proof
    fix y
    show "abs_streams ?t y = ((abs_streams t)(x \<mapsto> h)) y"
    proof (cases "y = 0")
      case False
      show ?thesis
      proof (rule option_ext)
        fix g
        show "abs_streams ?t y = Some g \<longleftrightarrow> ((abs_streams t)(x \<mapsto> h)) y = Some g"
          using abs_streams_Some[OF u' False, of g] abs_streams_Some[OF u False, of g] fresh slot(1,2) False
          unfolding slot(3,4) by auto
      qed
    qed (use x in \<open>simp add: abs_streams_def\<close>)
  qed
  ultimately show ?thesis by blast
qed

lemma abs_streams_full:
  assumes "unique_ids t"
  shows "claim_stream_index t = None \<longleftrightarrow> card (dom (abs_streams t)) = GG_IPC_MAX_STREAMS"
proof -
  let ?ids = "stream_state_id t"
  have len: "length ?ids = GG_IPC_MAX_STREAMS" using assms by (simp add: unique_ids_def wf_streams_def)
  show ?thesis
  proof (cases "0 \<in> set ?ids")
    case True
    then have "card (set ?ids - {0}) < card (set ?ids)" by (intro psubset_card_mono) auto
    then show ?thesis using True card_length[of ?ids] len by (simp add: claim_None abs_streams_dom)
  next
    case False
    then have "distinct ?ids"
      using assms len by (metis distinct_conv_nth nth_mem unique_ids_def)
    then show ?thesis using False len by (simp add: claim_None abs_streams_dom distinct_card)
  qed
qed

text \<open>C5: The stream table implements a finite map from stream ids to handlers with sixteen entries at most: the
  search by id is the map's lookup, claiming a slot and setting it adds an entry, releasing a slot removes the
  entry of its id, and a claim fails exactly when the map is full.\<close>

theorem stream_table_refines:
  assumes "unique_ids t"
  shows "(\<forall>x. 0 < sint x \<longrightarrow> map_option (\<lambda>i. stream_state_handler t ! i) (get_stream_index_from_id t x) = abs_streams t x) \<and>
    (\<forall>i t1 x h. claim_stream_index t = Some (i, t1) \<longrightarrow> x \<noteq> 0 \<longrightarrow> abs_streams t x = None \<longrightarrow>
       unique_ids (set_stream_index i x h t1) \<and> abs_streams (set_stream_index i x h t1) = (abs_streams t)(x \<mapsto> h)) \<and>
    (\<forall>i < GG_IPC_MAX_STREAMS. unique_ids (clear_stream_index i t) \<and>
       abs_streams (clear_stream_index i t) = (abs_streams t)(stream_state_id t ! i := None)) \<and>
    (claim_stream_index t = None \<longleftrightarrow> card (dom (abs_streams t)) = GG_IPC_MAX_STREAMS)"
  using abs_streams_lookup abs_streams_open[OF assms] abs_streams_clear[OF assms] unique_clear[OF assms] abs_streams_full[OF assms]
  by blast

theorem stream_table_refines_witness:
  "unique_ids init_streams \<and> abs_streams init_streams = Map.empty \<and> claim_stream_index init_streams \<noteq> None"
proof -
  have u: "unique_ids init_streams" by (simp add: unique_ids_def init_streams_def wf_streams_def)
  have e: "abs_streams init_streams = Map.empty"
    using abs_streams_dom[of init_streams] by (simp add: init_streams_def GG_IPC_MAX_STREAMS_def)
  show ?thesis using stream_table_refines[OF u] u e by (simp add: GG_IPC_MAX_STREAMS_def)
qed

end
