(* ===== verification/File.thy ===== *)
theory File
  imports Buffer
begin

text \<open>
  Reading and writing of file descriptors (\<open>src/file.c\<close>). The kernel is outside of the program: what
  it answers to the system calls is a list of events that the calls consume in order, so a theorem about
  all event lists is a theorem about every way the kernel can cut a stream into pieces, interrupt a call or
  fail. A call that finds no event blocks for ever, which is \<^const>\<open>None\<close>.
\<close>

section \<open>System calls\<close>

text \<open>On Linux \<open>EWOULDBLOCK\<close> is \<open>EAGAIN\<close>.\<close>

datatype errno = EINTR | EAGAIN | ECONNRESET | EPIPE | ENOENT | EROFS | EINVAL | EOTHER nat

text \<open>What \<open>read\<close> meets: bytes that have arrived, the end of the stream, or an error. A call takes at
  most the bytes it asks for and leaves the others.\<close>

datatype rd_ev = Arrived bytes | Eof | ReadErr errno

fun sys_read :: "rd_ev list \<Rightarrow> nat \<Rightarrow> ((errno + bytes) \<times> rd_ev list) run" where
  "sys_read [] n = None"
| "sys_read (Arrived [] # evs) n = sys_read evs n"
| "sys_read (Arrived (b # bs) # evs) n = Some (Inr (take n (b # bs)), Arrived (drop n (b # bs)) # evs)"
| "sys_read (Eof # evs) n = Some (Inr [], Eof # evs)"
| "sys_read (ReadErr e # evs) n = Some (Inl e, evs)"

text \<open>What \<open>write\<close> meets: room for a number of bytes, or an error.\<close>

datatype wr_ev = Room nat | WriteErr errno

fun sys_write :: "wr_ev list \<Rightarrow> bytes \<Rightarrow> ((errno + nat) \<times> wr_ev list) run" where
  "sys_write [] buf = None"
| "sys_write (Room k # evs) buf = Some (Inr (min k (length buf)), evs)"
| "sys_write (WriteErr e # evs) buf = Some (Inl e, evs)"

text \<open>Descriptors: the open ones, the answers to the next system calls that return a status or a descriptor
  (\<^const>\<open>None\<close> for success), \<open>errno\<close>, and what has been opened and created by path so far. A new descriptor is
  the lowest one that is not open.\<close>

type_synonym open_flags = "32 word"

datatype path_made =
    Opened int bytes open_flags nat nat   \<comment> \<open>relative to, name, flags, mode, the new descriptor\<close>
  | Created int bytes nat                 \<comment> \<open>relative to, name, mode\<close>

record os =
  os_fds :: "nat list"
  os_ret :: "errno option list"
  os_errno :: errno
  os_opened :: "path_made list"

definition sys_status :: "os \<Rightarrow> (bool \<times> os) run" where
  "sys_status os =
     (case os_ret os of
        [] \<Rightarrow> None
      | None # rs \<Rightarrow> Some (True, os\<lparr>os_ret := rs\<rparr>)
      | Some e # rs \<Rightarrow> Some (False, os\<lparr>os_ret := rs, os_errno := e\<rparr>))"

definition lowest_fd :: "nat list \<Rightarrow> nat" where
  "lowest_fd fds = hd (filter (\<lambda>n. n \<notin> set fds) [0..<Suc (length fds)])"

definition sys_new_fd :: "os \<Rightarrow> (nat option \<times> os) run" where
  "sys_new_fd os = do {
     (ok, os) \<leftarrow> sys_status os;
     if ok then let fd = lowest_fd (os_fds os) in Some (Some fd, os\<lparr>os_fds := fd # os_fds os\<rparr>)
     else Some (None, os)
   }"

text \<open>\<open>close\<close> releases the descriptor even when it reports an error.\<close>

definition sys_close :: "os \<Rightarrow> nat \<Rightarrow> (bool \<times> os) run" where
  "sys_close os fd = do {
     (ok, os) \<leftarrow> sys_status os;
     Some (ok, os\<lparr>os_fds := remove1 fd (os_fds os)\<rparr>)
   }"

definition gg_close :: "os \<Rightarrow> nat \<Rightarrow> (GgError \<times> os) run" where
  "gg_close os fd = do {
     (ok, os) \<leftarrow> sys_close os fd;
     Some (if ok \<or> os_errno os = EINTR then GG_ERR_OK else GG_ERR_FAILURE, os)
   }"

text \<open>\<open>cleanup_close\<close>: a descriptor is closed on the way out, and what the function returns stays.\<close>

definition cleanup_close :: "nat \<Rightarrow> 'a \<times> os \<Rightarrow> ('a \<times> os) run" where
  "cleanup_close fd r = do { (_, os) \<leftarrow> gg_close (snd r) fd; Some (fst r, os) }"

text \<open>A loop that repeats a call while it is interrupted: \<open>do ... while (failed && errno == EINTR)\<close>.\<close>

lemma sys_status_consumes: "sys_status os = Some (ok, os') \<Longrightarrow> length (os_ret os') < length (os_ret os)"
  by (auto simp: sys_status_def split: list.splits option.splits)

function fsync_loop :: "os \<Rightarrow> (bool \<times> os) run" where
  "fsync_loop os =
     (case sys_status os of
        None \<Rightarrow> None
      | Some (ok, os) \<Rightarrow> if \<not> ok \<and> os_errno os = EINTR then fsync_loop os else Some (ok, os))"
  by pat_completeness auto
termination by (relation "measure (\<lambda>os. length (os_ret os))") (auto dest: sys_status_consumes)

declare fsync_loop.simps [simp del]

definition gg_fsync :: "os \<Rightarrow> (GgError \<times> os) run" where
  "gg_fsync os = do {
     (ok, os) \<leftarrow> fsync_loop os;
     Some (if ok then GG_ERR_OK
           else if os_errno os = EROFS \<or> os_errno os = EINVAL then GG_ERR_OK
           else GG_ERR_FAILURE, os)
   }"

section \<open>Reading\<close>

text \<open>The bytes read are returned; in the program they are in the part of the buffer that is passed over.\<close>

definition gg_file_read_partial :: "rd_ev list \<Rightarrow> nat \<Rightarrow> (bytes res \<times> rd_ev list) run" where
  "gg_file_read_partial evs n = do {
     (ret, evs) \<leftarrow> sys_read evs n;
     Some (case ret of
         Inl e \<Rightarrow>
           if e = EINTR then Inl GG_ERR_RETRY
           else if e = EAGAIN then Inl GG_ERR_FAILURE
           else if e = ECONNRESET then Inl GG_ERR_NODATA
           else Inl GG_ERR_FAILURE
       | Inr bs \<Rightarrow> if length bs = 0 then Inl GG_ERR_NODATA else Inr bs, evs)
   }"

lemma sys_read_data: "sys_read evs n = Some (Inr bs, evs') \<Longrightarrow> length bs \<le> n \<and> length evs' \<le> length evs"
  by (induction evs n rule: sys_read.induct) auto

lemma sys_read_err: "sys_read evs n = Some (Inl e, evs') \<Longrightarrow> length evs' < length evs"
  by (induction evs n rule: sys_read.induct) auto

lemma read_partial_data:
  "gg_file_read_partial evs n = Some (Inr bs, evs') \<Longrightarrow> 0 < length bs \<and> length bs \<le> n \<and> length evs' \<le> length evs"
  by (cases "sys_read evs n"; cases "fst (the (sys_read evs n))")
     (auto simp: gg_file_read_partial_def split: if_splits dest: sys_read_data)

lemma read_partial_retry:
  "gg_file_read_partial evs n = Some (Inl GG_ERR_RETRY, evs') \<Longrightarrow> length evs' < length evs"
  by (cases "sys_read evs n"; cases "fst (the (sys_read evs n))")
     (auto simp: gg_file_read_partial_def split: if_splits dest: sys_read_err)

text \<open>The loop reads until the buffer is full (\<open>n\<close> bytes are missing, \<open>got\<close> has been read).\<close>

function file_read_loop :: "rd_ev list \<Rightarrow> nat \<Rightarrow> bytes \<Rightarrow> (bytes res \<times> rd_ev list) run" where
  "file_read_loop evs n got =
     (if n > 0 then
        (case gg_file_read_partial evs n of
           None \<Rightarrow> None
         | Some (Inr bs, evs) \<Rightarrow> file_read_loop evs (n - length bs) (got @ bs)
         | Some (Inl ret, evs) \<Rightarrow>
             if ret = GG_ERR_NODATA then Some (Inr got, evs)
             else if ret = GG_ERR_RETRY then file_read_loop evs n got
             else Some (Inl ret, evs))
      else Some (Inr got, evs))"
  by pat_completeness auto
termination
proof (relation "measure (\<lambda>(evs, n, _). n + length evs)")
  fix evs n got x2 x y b
  assume "0 < n" "gg_file_read_partial evs n = Some x2" "(x, y) = x2" "x = Inr b"
  then have "0 < length b \<and> length b \<le> n \<and> length y \<le> length evs" using read_partial_data[of evs n b y] by auto
  then show "((y, n - length b, got @ b), evs, n, got) \<in> measure (\<lambda>(evs, n, _). n + length evs)" by (cases b) auto
qed (auto dest: read_partial_retry)

declare file_read_loop.simps [simp del]

definition gg_file_read :: "rd_ev list \<Rightarrow> nat \<Rightarrow> (bytes res \<times> rd_ev list) run" where
  "gg_file_read evs n = file_read_loop evs n []"

definition gg_file_read_exact :: "rd_ev list \<Rightarrow> nat \<Rightarrow> (bytes res \<times> rd_ev list) run" where
  "gg_file_read_exact evs n = do {
     (ret, evs) \<leftarrow> gg_file_read evs n;
     Some (case ret of Inl e \<Rightarrow> Inl e | Inr bs \<Rightarrow> if n = length bs then Inr bs else Inl GG_ERR_NODATA, evs)
   }"

section \<open>Writing\<close>

definition gg_file_write_partial :: "wr_ev list \<Rightarrow> bytes \<Rightarrow> (nat res \<times> wr_ev list) run" where
  "gg_file_write_partial evs buf = do {
     (ret, evs) \<leftarrow> sys_write evs buf;
     Some (case ret of
         Inl e \<Rightarrow>
           if e = EINTR then Inl GG_ERR_RETRY
           else if e = EAGAIN then Inl GG_ERR_FAILURE
           else if e = EPIPE then Inl GG_ERR_NOCONN
           else if e = ECONNRESET then Inl GG_ERR_NOCONN
           else Inl GG_ERR_FAILURE
       | Inr k \<Rightarrow> Inr k, evs)
   }"

lemma write_partial_consumes: "gg_file_write_partial evs buf = Some (r, evs') \<Longrightarrow> length evs' < length evs"
  by (cases "(evs, buf)" rule: sys_write.cases) (auto simp: gg_file_write_partial_def)

lemma write_partial_fails: "gg_file_write_partial evs buf = Some (Inl e, evs') \<Longrightarrow> e \<noteq> GG_ERR_OK"
  by (cases "(evs, buf)" rule: sys_write.cases) (auto simp: gg_file_write_partial_def split: if_splits)

text \<open>\<open>sent\<close> are the bytes the kernel has taken.\<close>

function file_write_loop :: "wr_ev list \<Rightarrow> bytes \<Rightarrow> bytes \<Rightarrow> (GgError \<times> bytes \<times> wr_ev list) run" where
  "file_write_loop evs rest sent =
     (if length rest > 0 then
        (case gg_file_write_partial evs rest of
           None \<Rightarrow> None
         | Some (Inr k, evs) \<Rightarrow> file_write_loop evs (drop k rest) (sent @ take k rest)
         | Some (Inl ret, evs) \<Rightarrow>
             if ret = GG_ERR_RETRY then file_write_loop evs rest sent else Some (ret, sent, evs))
      else Some (GG_ERR_OK, sent, evs))"
  by pat_completeness auto
termination
  by (relation "measure (\<lambda>(evs, _, _). length evs)") (auto dest: write_partial_consumes)

declare file_write_loop.simps [simp del]

definition gg_file_write :: "wr_ev list \<Rightarrow> bytes \<Rightarrow> (GgError \<times> bytes \<times> wr_ev list) run" where
  "gg_file_write evs buf = file_write_loop evs buf []"

section \<open>Descriptors\<close>

lemma lowest_fd_new: "lowest_fd fds \<notin> set fds"
proof -
  have "\<not> {0..<Suc (length fds)} \<subseteq> set fds"
    using card_mono[of "set fds" "{0..<Suc (length fds)}"] card_length[of fds] by auto
  then have "filter (\<lambda>n. n \<notin> set fds) [0..<Suc (length fds)] \<noteq> []"
    by (auto simp: filter_empty_conv simp del: upt_Suc)
  from hd_in_set[OF this] show ?thesis by (simp add: lowest_fd_def del: upt_Suc)
qed

lemma sys_status_fds: "sys_status os = Some (ok, os') \<Longrightarrow> os_fds os' = os_fds os"
  by (auto simp: sys_status_def split: list.splits option.splits)

lemma gg_close_fds: "gg_close os fd = Some (e, os') \<Longrightarrow> os_fds os' = remove1 fd (os_fds os)"
  by (auto simp: gg_close_def sys_close_def run_simps dest: sys_status_fds)

lemma sys_new_fd_fds:
  "sys_new_fd os = Some (r, os') \<Longrightarrow>
   (case r of None \<Rightarrow> os_fds os' = os_fds os | Some fd \<Rightarrow> fd = lowest_fd (os_fds os) \<and> os_fds os' = fd # os_fds os)"
  by (auto simp: sys_new_fd_def Let_def run_simps dest: sys_status_fds split: if_splits)

lemma status_bindE:
  assumes "Option.bind (sys_status os) k = Some r"
  obtains ok os1 where "os_fds os1 = os_fds os" "k (ok, os1) = Some r"
  using assms sys_status_fds by (cases "sys_status os") (auto, blast)

lemma new_fd_bindE:
  assumes "Option.bind (sys_new_fd os) k = Some r"
  obtains os1 where "os_fds os1 = os_fds os" "k (None, os1) = Some r"
    | fd os1 where "fd \<notin> set (os_fds os)" "os_fds os1 = fd # os_fds os" "k (Some fd, os1) = Some r"
proof -
  obtain x os1 where x: "sys_new_fd os = Some (x, os1)" "k (x, os1) = Some r" using assms by (cases "sys_new_fd os") auto
  then show ?thesis using that lowest_fd_new[of "os_fds os"] sys_new_fd_fds[OF x(1)] by (cases x) auto
qed

section \<open>Reads see a stream of bytes\<close>

text \<open>The bytes that arrive before the stream ends or breaks. Interrupts do not matter.\<close>

fun arriving :: "rd_ev list \<Rightarrow> bytes" where
  "arriving [] = []"
| "arriving (Arrived bs # evs) = bs @ arriving evs"
| "arriving (Eof # evs) = []"
| "arriving (ReadErr e # evs) = (if e = EINTR then arriving evs else [])"

lemma sys_read_arriving:
  "0 < n \<Longrightarrow> arriving evs \<noteq> [] \<Longrightarrow>
   (\<exists>bs evs'. sys_read evs n = Some (Inr bs, evs') \<and> bs \<noteq> [] \<and> length bs \<le> n \<and> arriving evs = bs @ arriving evs') \<or>
   (\<exists>evs'. sys_read evs n = Some (Inl EINTR, evs') \<and> arriving evs' = arriving evs)"
proof (induction evs n rule: sys_read.induct)
  case (3 b bs evs n)
  then show ?case by (cases n) auto
qed (auto split: if_splits)

lemma file_read_loop_arriving:
  "n \<le> length (arriving evs) \<Longrightarrow>
   \<exists>evs'. file_read_loop evs n got = Some (Inr (got @ take n (arriving evs)), evs') \<and> arriving evs' = drop n (arriving evs)"
proof (induction evs n got rule: file_read_loop.induct)
  case (1 evs n got)
  show ?case
  proof (cases "n = 0")
    case False
    then have "arriving evs \<noteq> []" using 1 by auto
    from sys_read_arriving[OF _ this, of n] False consider
        (data) bs evs' where "sys_read evs n = Some (Inr bs, evs')" "bs \<noteq> []" "length bs \<le> n" "arriving evs = bs @ arriving evs'"
      | (retry) evs' where "sys_read evs n = Some (Inl EINTR, evs')" "arriving evs' = arriving evs" by blast
    then show ?thesis
    proof cases
      case data
      then have p: "gg_file_read_partial evs n = Some (Inr bs, evs')" by (simp add: gg_file_read_partial_def)
      have "\<exists>evs''. file_read_loop evs' (n - length bs) (got @ bs) =
          Some (Inr ((got @ bs) @ take (n - length bs) (arriving evs')), evs'') \<and>
          arriving evs'' = drop (n - length bs) (arriving evs')"
        by (rule "1.IH"(2)[OF _ p refl refl]) (use data False "1.prems" in auto)
      then show ?thesis using False data p by (subst file_read_loop.simps) auto
    next
      case retry
      then have p: "gg_file_read_partial evs n = Some (Inl GG_ERR_RETRY, evs')" by (simp add: gg_file_read_partial_def)
      have "\<exists>evs''. file_read_loop evs' n got = Some (Inr (got @ take n (arriving evs')), evs'') \<and>
          arriving evs'' = drop n (arriving evs')"
        by (rule "1.IH"(1)[OF _ p refl refl _ refl]) (use retry False "1.prems" in auto)
      then show ?thesis using False retry p by (subst file_read_loop.simps) auto
    qed
  qed (simp add: file_read_loop.simps)
qed

lemma gg_file_read_arriving:
  "n \<le> length (arriving evs) \<Longrightarrow>
   \<exists>evs'. gg_file_read evs n = Some (Inr (take n (arriving evs)), evs') \<and> arriving evs' = drop n (arriving evs)"
  using file_read_loop_arriving[of n evs "[]"] by (simp add: gg_file_read_def)

lemma file_read_loop_bound:
  "file_read_loop evs n got = Some (Inr bs, evs') \<Longrightarrow> length bs \<le> length got + n"
proof (induction evs n got arbitrary: bs evs' rule: file_read_loop.induct)
  case (1 evs n got)
  show ?case
  proof (cases "n > 0 \<and> (\<exists>b y. gg_file_read_partial evs n = Some (Inr b, y))")
    case True
    then obtain b y where b: "n > 0" "gg_file_read_partial evs n = Some (Inr b, y)" by auto
    then have "length bs \<le> length (got @ b) + (n - length b)"
      using "1.prems" by (intro "1.IH"(2)[OF _ b(2) refl refl]) (simp_all add: file_read_loop.simps[of evs n])
    then show ?thesis using read_partial_data[OF b(2)] by simp
  next
    case False
    then show ?thesis
      using "1.prems" "1.IH"(1)
      by (subst (asm) file_read_loop.simps) (auto split: if_splits option.splits prod.splits sum.splits)
  qed
qed

section \<open>Writes deliver a prefix\<close>

lemma file_write_loop_prefix:
  "file_write_loop evs rest sent = Some (ret, out, evs') \<Longrightarrow>
   \<exists>k \<le> length rest. out = sent @ take k rest \<and> (ret = GG_ERR_OK \<longleftrightarrow> k = length rest)"
proof (induction evs rest sent arbitrary: ret out evs' rule: file_write_loop.induct)
  case (1 evs rest sent)
  consider (all) "rest = []" | (data) k y where "rest \<noteq> []" "gg_file_write_partial evs rest = Some (Inr k, y)"
    | (fail) e y where "rest \<noteq> []" "gg_file_write_partial evs rest = Some (Inl e, y)"
    using "1.prems" by (subst (asm) file_write_loop.simps) (auto split: if_splits option.splits prod.splits sum.splits)
  then show ?case
  proof cases
    case data
    then have "\<exists>j \<le> length (drop k rest). out = (sent @ take k rest) @ take j (drop k rest) \<and> (ret = GG_ERR_OK \<longleftrightarrow> j = length (drop k rest))"
      using "1.prems" by (intro "1.IH"(2)[OF _ data(2) refl refl]) (simp_all add: file_write_loop.simps[of evs rest])
    then obtain j where j: "j \<le> length rest - k" "out = sent @ take k rest @ take j (drop k rest)" "ret = GG_ERR_OK \<longleftrightarrow> j = length rest - k" by auto
    have "k \<le> length rest"
      using data(2) by (cases "(evs, rest)" rule: sys_write.cases) (auto simp: gg_file_write_partial_def split: if_splits)
    with j show ?thesis by (intro exI[of _ "k + j"]) (auto simp: take_add)
  next
    case fail
    then show ?thesis
      using "1.prems" "1.IH"(1)[OF _ fail(2) refl refl]
      by (cases "e = GG_ERR_RETRY")
         (auto simp: file_write_loop.simps[of evs rest] dest: write_partial_fails intro: exI[of _ 0])
  qed (use "1.prems" in \<open>auto simp: file_write_loop.simps\<close>)
qed

text \<open>\<open>gg_file_write\<close> hands the kernel a prefix of the buffer, in order and without repetition, whatever the
  sizes of the partial writes and however often it is interrupted, and returns OK exactly when the whole buffer
  has been taken.\<close>

theorem gg_file_write_delivers:
  assumes "gg_file_write evs buf = Some (ret, sent, evs')"
  shows "\<exists>k \<le> length buf. sent = take k buf \<and> (ret = GG_ERR_OK \<longleftrightarrow> k = length buf)"
  using file_write_loop_prefix[of evs buf "[]"] assms by (simp add: gg_file_write_def)

theorem gg_file_write_delivers_witness:
  "\<exists>ret sent. gg_file_write [WriteErr EINTR, Room 2, Room 0, WriteErr EPIPE] [1, 2, 3] = Some (ret, sent, []) \<and> ret \<noteq> GG_ERR_OK \<and> sent = [1, 2]"
proof -
  have w: "gg_file_write [WriteErr EINTR, Room 2, Room 0, WriteErr EPIPE] [1, 2, 3] = Some (GG_ERR_NOCONN, [1, 2], [])"
    by (simp add: gg_file_write_def file_write_loop.simps gg_file_write_partial_def)
  from gg_file_write_delivers[OF w] w show ?thesis by auto
qed

text \<open>\<open>gg_file_read_exact\<close> returns exactly the next bytes of the stream when they arrive before its end, in
  pieces of any size and between interrupts, and leaves the bytes after them to be read.\<close>

theorem gg_file_read_exact_stream:
  assumes "n \<le> length (arriving evs)"
  shows "\<exists>evs'. gg_file_read_exact evs n = Some (Inr (take n (arriving evs)), evs') \<and> arriving evs' = drop n (arriving evs)"
  using gg_file_read_arriving[OF assms] assms by (auto simp: gg_file_read_exact_def)

theorem gg_file_read_exact_stream_witness:
  "\<exists>evs'. gg_file_read_exact [Arrived [1, 2], ReadErr EINTR, Arrived [3, 4]] 3 = Some (Inr [1, 2, 3], evs') \<and> arriving evs' = [4]"
  using gg_file_read_exact_stream[of 3 "[Arrived [1, 2], ReadErr EINTR, Arrived [3, 4]]"] by simp

end
