(* ===== verification/Crc32.thy ===== *)
theory Crc32
  imports Prelude
begin

text \<open>
  The CRC-32 of the event stream framing (\<open>src/eventstream/crc32.c\<close>), in its table-driven form.
  The table is shown to compute the bit-by-bit polynomial division.
\<close>

unbundle bit_operations_syntax

section \<open>Definitions\<close>

definition crc_poly :: "32 word" where "crc_poly = 0xEDB88320"

definition crc_bit :: "32 word \<Rightarrow> 32 word" where
  "crc_bit c = (if c AND 1 \<noteq> 0 then crc_poly XOR drop_bit 1 c else drop_bit 1 c)"

definition make_crc_table :: "32 word list" where
  "make_crc_table = map (\<lambda>n. (crc_bit ^^ 8) (of_nat n)) [0..<256]"

definition crc_step :: "32 word \<Rightarrow> byte \<Rightarrow> 32 word" where
  "crc_step crc byte = make_crc_table ! unat ((crc XOR ucast byte) AND 0xFF) XOR drop_bit 8 crc"

definition gg_update_crc :: "32 word \<Rightarrow> bytes \<Rightarrow> 32 word" where
  "gg_update_crc crc buf = NOT (foldl crc_step (NOT crc) buf)"

text \<open>The reference: shift the message into the register, least significant bit first.\<close>

definition crc_ref :: "32 word \<Rightarrow> bytes \<Rightarrow> 32 word" where
  "crc_ref crc buf = NOT (foldl (\<lambda>c b. (crc_bit ^^ 8) (c XOR ucast b)) (NOT crc) buf)"

section \<open>The table computes the division\<close>

lemma crc_bit_alt: "crc_bit c = (if bit c 0 then crc_poly else 0) XOR drop_bit 1 c"
  by (simp add: crc_bit_def and_one_eq bit_0 odd_iff_mod_2_eq_one)

lemma crc_bit_xor: "crc_bit (x XOR y) = crc_bit x XOR crc_bit y"
proof -
  have "drop_bit 1 (x XOR y) = drop_bit 1 x XOR drop_bit 1 y" by simp
  then show ?thesis by (auto simp: crc_bit_alt bit_xor_iff xor.assoc xor.left_commute)
qed

lemma crc_bits_xor: "(crc_bit ^^ n) (x XOR y) = (crc_bit ^^ n) x XOR (crc_bit ^^ n) y"
  by (induction n) (simp_all add: crc_bit_xor)

text \<open>A register whose low bits are zero is only shifted.\<close>

lemma crc_bits_shift:
  "(\<And>i. i < n \<Longrightarrow> \<not> bit x i) \<Longrightarrow> (crc_bit ^^ n) x = drop_bit n x"
proof (induction n arbitrary: x)
  case (Suc n)
  have "crc_bit x = drop_bit 1 x" using Suc.prems[of 0] by (simp add: crc_bit_alt)
  moreover have "(crc_bit ^^ n) (drop_bit 1 x) = drop_bit n (drop_bit 1 x)"
    using Suc.prems by (intro Suc.IH) (simp add: bit_drop_bit_eq)
  ultimately show ?case by (simp add: funpow_Suc_right del: funpow.simps)
qed simp

lemma low_high: "x = (x AND w) XOR (x AND NOT w)" for x :: "32 word"
  by (rule bit_word_eqI) (auto simp: bit_xor_iff bit_and_iff bit_not_iff)

lemma mask_8: "(0xFF :: 32 word) = mask 8" by (simp add: mask_eq_exp_minus_1)

lemma crc_high: "(crc_bit ^^ 8) (x AND NOT 0xFF) = drop_bit 8 x" for x :: "32 word"
proof -
  have "(crc_bit ^^ 8) (x AND NOT 0xFF) = drop_bit 8 (x AND NOT 0xFF)"
    by (rule crc_bits_shift) (simp add: mask_8 bit_and_iff bit_not_iff bit_mask_iff)
  also have "\<dots> = drop_bit 8 x"
    by (rule bit_word_eqI) (auto simp: mask_8 bit_drop_bit_eq bit_and_iff bit_not_iff bit_mask_iff dest: bit_imp_le_length)
  finally show ?thesis .
qed

lemma table_entry: "make_crc_table ! unat (x AND 0xFF) = (crc_bit ^^ 8) (x AND 0xFF)" for x :: "32 word"
proof -
  have "unat (x AND 0xFF) < 256"
  proof -
    have "unat (x AND 0xFF) = take_bit 8 (unat x)"
      by (simp only: mask_8 take_bit_eq_mask[symmetric] unsigned_take_bit_eq)
    then show ?thesis by (simp add: take_bit_eq_mod)
  qed
  then show ?thesis by (simp add: make_crc_table_def)
qed

lemma crc_step_ref: "crc_step c b = (crc_bit ^^ 8) (c XOR ucast b)"
proof -
  let ?x = "c XOR ucast b :: 32 word"
  have "drop_bit 8 ?x = drop_bit 8 c"
    by (rule bit_word_eqI) (auto simp: bit_drop_bit_eq bit_xor_iff bit_unsigned_iff dest: bit_imp_le_length)
  then have "crc_step c b = (crc_bit ^^ 8) (?x AND 0xFF) XOR (crc_bit ^^ 8) (?x AND NOT 0xFF)"
    by (simp only: crc_step_def table_entry crc_high)
  also have "\<dots> = (crc_bit ^^ 8) ((?x AND 0xFF) XOR (?x AND NOT 0xFF))" by (simp only: crc_bits_xor)
  also have "\<dots> = (crc_bit ^^ 8) ?x" by (simp only: low_high[symmetric])
  finally show ?thesis .
qed

lemma update_crc_append: "gg_update_crc (gg_update_crc crc xs) ys = gg_update_crc crc (xs @ ys)"
  by (simp add: gg_update_crc_def)

section \<open>Properties\<close>

text \<open>C34: The table-driven CRC equals the bit-by-bit polynomial division by the reflected polynomial
  0xEDB88320, for every start value and message, and a CRC continued over a second buffer is the CRC
  of both.\<close>

theorem gg_update_crc_reference:
  "gg_update_crc crc buf = crc_ref crc buf \<and> gg_update_crc (gg_update_crc crc buf) buf' = gg_update_crc crc (buf @ buf')"
proof -
  have "crc_step = (\<lambda>c b. (crc_bit ^^ 8) (c XOR ucast b))" by (simp add: fun_eq_iff crc_step_ref)
  then show ?thesis by (simp add: gg_update_crc_def crc_ref_def)
qed

end
