(* ===== verification/Vector.thy ===== *)
theory Vector
  imports Object
begin

text \<open>
  Bounded vectors (\<open>src/vector.c\<close>, \<open>priv_include/gg/vector.h\<close>) and the writer interface
  (\<open>priv_include/gg/io.h\<close>). The locale \<open>writer\<close> is the contract a sink of bytes keeps; the
  byte vector writer and the buffer writer of \<open>src/buffer.c\<close> are its instances, and what is
  written in several calls is shown once, for every writer.
\<close>

section \<open>Definitions\<close>

record GgObjVec =
  ov_list :: GgList
  ov_capacity :: nat

record GgKVVec =
  kvv_map :: GgMap
  kvv_capacity :: nat

record GgByteVec =
  bv_buf :: GgBuffer
  bv_capacity :: nat

record GgBufList =
  bl_bufs :: addr
  bl_len :: nat

record GgBufVec =
  bufv_list :: GgBufList
  bufv_capacity :: nat

definition gg_obj_vec_push :: "mem \<Rightarrow> GgObjVec \<Rightarrow> GgObject \<Rightarrow> GgError \<times> GgObjVec \<times> mem" where
  "gg_obj_vec_push m vector object =
     (let l = ov_list vector in
      if list_len l \<ge> ov_capacity vector then (GG_ERR_NOMEM, vector, m)
      else (GG_ERR_OK, vector\<lparr>ov_list := l\<lparr>list_len := list_len l + 1\<rparr>\<rparr>,
            wr m (list_items l + obj_size * list_len l) object))"

definition gg_obj_vec_chain_push ::
    "GgError \<Rightarrow> mem \<Rightarrow> GgObjVec \<Rightarrow> GgObject \<Rightarrow> GgError \<times> GgObjVec \<times> mem" where
  "gg_obj_vec_chain_push err m vector object =
     (if err = GG_ERR_OK then gg_obj_vec_push m vector object else (err, vector, m))"

text \<open>The result is the error code, the object stored in \<open>*out\<close> on success, and the vector.\<close>

definition gg_obj_vec_pop :: "mem \<Rightarrow> GgObjVec \<Rightarrow> GgObject res \<times> GgObjVec" where
  "gg_obj_vec_pop m vector =
     (let l = ov_list vector in
      if list_len l = 0 then (Inl GG_ERR_RANGE, vector)
      else (Inr (rd m (list_items l + obj_size * (list_len l - 1)) obj_size),
            vector\<lparr>ov_list := l\<lparr>list_len := list_len l - 1\<rparr>\<rparr>))"

definition gg_obj_vec_append :: "mem \<Rightarrow> GgObjVec \<Rightarrow> GgList \<Rightarrow> GgError \<times> GgObjVec \<times> mem" where
  "gg_obj_vec_append m vector list =
     (let l = ov_list vector in
      if sub64 (ov_capacity vector) (list_len l) < list_len list then (GG_ERR_NOMEM, vector, m)
      else (GG_ERR_OK, vector\<lparr>ov_list := l\<lparr>list_len := list_len l + list_len list\<rparr>\<rparr>,
            if list_len list > 0
            then memcpy m (list_items l + obj_size * list_len l) (list_items list) (list_len list * obj_size)
            else m))"

definition gg_obj_vec_chain_append ::
    "GgError \<Rightarrow> mem \<Rightarrow> GgObjVec \<Rightarrow> GgList \<Rightarrow> GgError \<times> GgObjVec \<times> mem" where
  "gg_obj_vec_chain_append err m vector list =
     (if err = GG_ERR_OK then gg_obj_vec_append m vector list else (err, vector, m))"

definition gg_kv_vec_push :: "mem \<Rightarrow> GgKVVec \<Rightarrow> GgKV \<Rightarrow> GgError \<times> GgKVVec \<times> mem" where
  "gg_kv_vec_push m vector kv =
     (let q = kvv_map vector in
      if map_len q \<ge> kvv_capacity vector then (GG_ERR_NOMEM, vector, m)
      else (GG_ERR_OK, vector\<lparr>kvv_map := q\<lparr>map_len := map_len q + 1\<rparr>\<rparr>,
            wr m (map_pairs q + kv_size * map_len q) kv))"

definition gg_byte_vec_init :: "GgBuffer \<Rightarrow> GgByteVec" where
  "gg_byte_vec_init buf = \<lparr>bv_buf = \<lparr>buf_data = buf_data buf, buf_len = 0\<rparr>, bv_capacity = buf_len buf\<rparr>"

definition gg_byte_vec_push :: "mem \<Rightarrow> GgByteVec \<Rightarrow> byte \<Rightarrow> GgError \<times> GgByteVec \<times> mem" where
  "gg_byte_vec_push m vector byte =
     (let b = bv_buf vector in
      if buf_len b \<ge> bv_capacity vector then (GG_ERR_NOMEM, vector, m)
      else (GG_ERR_OK, vector\<lparr>bv_buf := b\<lparr>buf_len := buf_len b + 1\<rparr>\<rparr>, wr m (buf_data b + buf_len b) [byte]))"

definition gg_byte_vec_chain_push ::
    "GgError \<Rightarrow> mem \<Rightarrow> GgByteVec \<Rightarrow> byte \<Rightarrow> GgError \<times> GgByteVec \<times> mem" where
  "gg_byte_vec_chain_push err m vector byte =
     (if err = GG_ERR_OK then gg_byte_vec_push m vector byte else (err, vector, m))"

definition gg_byte_vec_append :: "mem \<Rightarrow> GgByteVec \<Rightarrow> bytes \<Rightarrow> GgError \<times> GgByteVec \<times> mem" where
  "gg_byte_vec_append m vector buf =
     (let b = bv_buf vector in
      if sub64 (bv_capacity vector) (buf_len b) < length buf then (GG_ERR_NOMEM, vector, m)
      else (GG_ERR_OK, vector\<lparr>bv_buf := b\<lparr>buf_len := buf_len b + length buf\<rparr>\<rparr>,
            if length buf > 0 then wr m (buf_data b + buf_len b) buf else m))"

definition gg_byte_vec_chain_append ::
    "GgError \<Rightarrow> mem \<Rightarrow> GgByteVec \<Rightarrow> bytes \<Rightarrow> GgError \<times> GgByteVec \<times> mem" where
  "gg_byte_vec_chain_append err m vector buf =
     (if err = GG_ERR_OK then gg_byte_vec_append m vector buf else (err, vector, m))"

definition gg_byte_vec_remaining_capacity :: "GgByteVec \<Rightarrow> GgBuffer" where
  "gg_byte_vec_remaining_capacity vector =
     \<lparr>buf_data = buf_data (bv_buf vector) + buf_len (bv_buf vector),
      buf_len = sub64 (bv_capacity vector) (buf_len (bv_buf vector))\<rparr>"

text \<open>A buffer in memory is a pointer and a length, eight bytes each.\<close>

abbreviation (input) buf_size :: nat where "buf_size \<equiv> 16"

definition gg_buf_vec_push :: "mem \<Rightarrow> GgBufVec \<Rightarrow> GgBuffer \<Rightarrow> GgError \<times> GgBufVec \<times> mem" where
  "gg_buf_vec_push m vector buf =
     (let l = bufv_list vector in
      if bl_len l \<ge> bufv_capacity vector then (GG_ERR_NOMEM, vector, m)
      else (GG_ERR_OK, vector\<lparr>bufv_list := l\<lparr>bl_len := bl_len l + 1\<rparr>\<rparr>,
            wr m (bl_bufs l + buf_size * bl_len l) (le_bytes 8 (buf_data buf) @ le_bytes 8 (buf_len buf))))"

definition gg_buf_vec_chain_push ::
    "GgError \<Rightarrow> mem \<Rightarrow> GgBufVec \<Rightarrow> GgBuffer \<Rightarrow> GgError \<times> GgBufVec \<times> mem" where
  "gg_buf_vec_chain_push err m vector buf =
     (if err = GG_ERR_OK then gg_buf_vec_push m vector buf else (err, vector, m))"

fun buf_vec_append_loop :: "mem \<Rightarrow> GgBufVec \<Rightarrow> addr \<Rightarrow> nat \<Rightarrow> (GgError \<times> GgBufVec \<times> mem) run" where
  "buf_vec_append_loop m vector item 0 = Some (GG_ERR_OK, vector, m)"
| "buf_vec_append_loop m vector item (Suc n) = do {
     t \<leftarrow> gg_obj_type (rd m item obj_size);
     if t \<noteq> GG_TYPE_BUF then Some (GG_ERR_INVALID, vector, m)
     else do {
       buf \<leftarrow> gg_obj_into_buf (rd m item obj_size);
       case gg_buf_vec_push m vector buf of (ret, vector', m') \<Rightarrow>
         if ret \<noteq> GG_ERR_OK then Some (ret, vector', m')
         else buf_vec_append_loop m' vector' (item + obj_size) n
     }
   }"

definition gg_buf_vec_append_list :: "mem \<Rightarrow> GgBufVec \<Rightarrow> GgList \<Rightarrow> (GgError \<times> GgBufVec \<times> mem) run" where
  "gg_buf_vec_append_list m vector list = buf_vec_append_loop m vector (list_items list) (list_len list)"

definition gg_buf_vec_chain_append_list ::
    "GgError \<Rightarrow> mem \<Rightarrow> GgBufVec \<Rightarrow> GgList \<Rightarrow> (GgError \<times> GgBufVec \<times> mem) run" where
  "gg_buf_vec_chain_append_list err m vector list =
     (if err = GG_ERR_OK then gg_buf_vec_append_list m vector list else Some (err, vector, m))"

text \<open>Writers: the function, with the context passed explicitly. \<open>GG_NULL_WRITER\<close> has no function.\<close>

type_synonym 'c write_fn = "'c \<Rightarrow> bytes \<Rightarrow> mem \<Rightarrow> (GgError \<times> 'c \<times> mem) run"

record 'c GgWriter =
  wtr_write :: "'c write_fn option"
  wtr_ctx :: 'c

definition gg_writer_call :: "'c GgWriter \<Rightarrow> bytes \<Rightarrow> mem \<Rightarrow> (GgError \<times> 'c \<times> mem) run" where
  "gg_writer_call wtr buf m =
     (case wtr_write wtr of
        None \<Rightarrow> Some (if length buf = 0 then GG_ERR_OK else GG_ERR_FAILURE, wtr_ctx wtr, m)
      | Some f \<Rightarrow> f (wtr_ctx wtr) buf m)"

definition byte_vec_write :: "GgByteVec write_fn" where
  "byte_vec_write target buf m = (case gg_byte_vec_append m target buf of (ret, v, m') \<Rightarrow> Some (ret, v, m'))"

definition gg_byte_vec_writer :: "GgByteVec \<Rightarrow> GgByteVec GgWriter" where
  "gg_byte_vec_writer byte_vec = \<lparr>wtr_write = Some byte_vec_write, wtr_ctx = byte_vec\<rparr>"

definition buf_writer_write :: "GgBuffer write_fn" where
  "buf_writer_write target buf m = Some (buf_write m target buf)"

definition gg_buf_writer :: "GgBuffer \<Rightarrow> GgBuffer GgWriter" where
  "gg_buf_writer buf = \<lparr>wtr_write = Some buf_writer_write, wtr_ctx = buf\<rparr>"

text \<open>Several writes in a row, stopping at the first error.\<close>

fun write_all :: "'c write_fn \<Rightarrow> 'c \<Rightarrow> bytes list \<Rightarrow> mem \<Rightarrow> (GgError \<times> 'c \<times> mem) run" where
  "write_all f c [] m = Some (GG_ERR_OK, c, m)"
| "write_all f c (b # bs) m = do {
     (e, c', m') \<leftarrow> f c b m;
     if e \<noteq> GG_ERR_OK then Some (e, c', m') else write_all f c' bs m'
   }"

section \<open>Objects and bytes in vectors\<close>

definition bv_ok :: "GgByteVec \<Rightarrow> bool" where
  "bv_ok v \<longleftrightarrow> buf_len (bv_buf v) \<le> bv_capacity v \<and> bv_capacity v \<le> SIZE_MAX"

definition bv_region :: "GgByteVec \<Rightarrow> addr set" where
  "bv_region v = {buf_data (bv_buf v)..<buf_data (bv_buf v) + bv_capacity v}"

lemma byte_vec_append_fits:
  assumes "bv_ok v" "buf_len (bv_buf v) + length bs \<le> bv_capacity v"
  shows "\<exists>v' m'. gg_byte_vec_append m v bs = (GG_ERR_OK, v', m') \<and> bv_ok v' \<and> bv_region v' = bv_region v \<and>
    buf_data (bv_buf v') = buf_data (bv_buf v) \<and> bv_capacity v' = bv_capacity v \<and>
    contents m' (bv_buf v') = contents m (bv_buf v) @ bs \<and> agree_off (bv_region v) m m'"
proof -
  let ?b = "bv_buf v"
  let ?v = "v\<lparr>bv_buf := ?b\<lparr>buf_len := buf_len ?b + length bs\<rparr>\<rparr>" and ?m = "wr m (buf_data ?b + buf_len ?b) bs"
  have "bv_capacity v < 18446744073709551616" "buf_len ?b \<le> bv_capacity v"
    using assms(1) by (simp_all add: bv_ok_def SIZE_MAX_def)
  then have run: "gg_byte_vec_append m v bs = (GG_ERR_OK, ?v, ?m)"
    using assms(2) by (auto simp: gg_byte_vec_append_def Let_def)
  have c: "contents ?m (bv_buf ?v) = contents m ?b @ bs"
    unfolding contents_def by (simp add: rd_add rd_wr_disjoint rd_wr_same')
  have off: "agree_off (bv_region v) m ?m" using assms(2) by (intro agree_off_wr) (auto simp: bv_region_def)
  have "bv_ok ?v" "bv_region ?v = bv_region v" using assms by (simp_all add: bv_ok_def bv_region_def)
  with run c off show ?thesis by auto
qed

lemma byte_vec_append_full:
  "bv_ok v \<Longrightarrow> buf_len (bv_buf v) + length bs > bv_capacity v \<Longrightarrow> gg_byte_vec_append m v bs = (GG_ERR_NOMEM, v, m)"
  by (auto simp: gg_byte_vec_append_def Let_def bv_ok_def SIZE_MAX_def)

lemma objs_at_snoc:
  "objs_at m p vs \<Longrightarrow> obj_at m (p + obj_size * length vs) u \<Longrightarrow> objs_at m p (vs @ [u])"
  by (induction vs arbitrary: p) (auto simp: add.assoc)

lemma obj_vec_push_fits:
  assumes "list_len (ov_list v) < ov_capacity v" "length x = obj_size" "objs_at m (list_items (ov_list v)) vs"
    "list_len (ov_list v) = length vs" "val_blk m x u"
    "(objs_foot m (list_items (ov_list v)) vs \<union> blk_foot m x u) \<inter>
       {list_items (ov_list v) + obj_size * length vs..<list_items (ov_list v) + obj_size * Suc (length vs)} = {}"
  shows "\<exists>v' m'. gg_obj_vec_push m v x = (GG_ERR_OK, v', m') \<and> list_len (ov_list v') = Suc (length vs) \<and>
    list_items (ov_list v') = list_items (ov_list v) \<and> objs_at m' (list_items (ov_list v)) (vs @ [u])"
proof -
  let ?l = "ov_list v"
  let ?p = "list_items ?l + obj_size * length vs"
  let ?m = "wr m ?p x"
  have off: "agree_off {?p..<?p + obj_size} m ?m" using assms(2) by (intro agree_off_wr) simp
  have on: "agree_on (objs_foot m (list_items ?l) vs) m ?m" "agree_on (blk_foot m x u) m ?m"
    using assms(6) by (auto intro!: agree_off_on[OF off] simp: Int_Un_distrib2)
  have "objs_at ?m (list_items ?l) (vs @ [u])"
    using objs_frame[OF on(1) assms(3)] val_blk_frame[OF on(2) assms(5)] assms(2)
    by (intro objs_at_snoc) (simp_all add: rd_wr_same')
  with assms(1,4) show ?thesis by (simp add: gg_obj_vec_push_def Let_def)
qed

section \<open>Writers\<close>

text \<open>What a sink of bytes promises: \<open>rel out c m\<close> holds of a context that has written \<open>out\<close>; a
  write that fits the capacity appends and touches the region \<open>W\<close> only, one that does not fit
  changes nothing.\<close>

locale writer =
  fixes wfn :: "'c write_fn" and rel :: "bytes \<Rightarrow> 'c \<Rightarrow> mem \<Rightarrow> bool" and cap :: nat and W :: "addr set"
  assumes write_fits: "rel out c m \<Longrightarrow> length out + length bs \<le> cap \<Longrightarrow>
      \<exists>c' m'. wfn c bs m = Some (GG_ERR_OK, c', m') \<and> rel (out @ bs) c' m' \<and> agree_off W m m'"
    and write_full: "rel out c m \<Longrightarrow> length out + length bs > cap \<Longrightarrow>
      wfn c bs m = Some (GG_ERR_NOMEM, c, m)"
    and rel_cap: "rel out c m \<Longrightarrow> length out \<le> cap"
begin

lemma write_all_fits:
  "rel out c m \<Longrightarrow> length out + length (concat bs) \<le> cap \<Longrightarrow>
     \<exists>c' m'. write_all wfn c bs m = Some (GG_ERR_OK, c', m') \<and> rel (out @ concat bs) c' m' \<and> agree_off W m m'"
proof (induction bs arbitrary: out c m)
  case (Cons b bs)
  from write_fits[OF Cons.prems(1), of b] Cons.prems(2) obtain c1 m1 where
    1: "wfn c b m = Some (GG_ERR_OK, c1, m1)" "rel (out @ b) c1 m1" "agree_off W m m1" by auto
  from Cons.IH[OF 1(2)] Cons.prems(2) obtain c2 m2 where
    2: "write_all wfn c1 bs m1 = Some (GG_ERR_OK, c2, m2)" "rel (out @ b @ concat bs) c2 m2" "agree_off W m1 m2" by auto
  show ?case using 1 2 agree_off_trans[OF 1(3) 2(3)] by (intro exI[of _ c2] exI[of _ m2]) simp
qed auto

lemma write_all_full:
  "rel out c m \<Longrightarrow> length out + length (concat bs) > cap \<Longrightarrow>
     \<exists>e c' m' out'. write_all wfn c bs m = Some (e, c', m') \<and> e \<noteq> GG_ERR_OK \<and> rel out' c' m' \<and> agree_off W m m'"
proof (induction bs arbitrary: out c m)
  case (Cons b bs)
  show ?case
  proof (cases "length out + length b \<le> cap")
    case True
    from write_fits[OF Cons.prems(1) True] obtain c1 m1 where
      1: "wfn c b m = Some (GG_ERR_OK, c1, m1)" "rel (out @ b) c1 m1" "agree_off W m m1" by auto
    have "length (out @ b) + length (concat bs) > cap" using Cons.prems(2) by simp
    from Cons.IH[OF 1(2) this] obtain e c2 m2 out' where
      2: "write_all wfn c1 bs m1 = Some (e, c2, m2)" "e \<noteq> GG_ERR_OK" "rel out' c2 m2" "agree_off W m1 m2" by blast
    show ?thesis using 1 2 agree_off_trans[OF 1(3) 2(4)] by auto
  next
    case False
    with write_full[OF Cons.prems(1), of b] Cons.prems(1) show ?thesis by fastforce
  qed
qed (use rel_cap in fastforce)

end

definition bv_rel :: "addr \<Rightarrow> nat \<Rightarrow> bytes \<Rightarrow> GgByteVec \<Rightarrow> mem \<Rightarrow> bool" where
  "bv_rel base cap out v m \<longleftrightarrow> bv_ok v \<and> buf_data (bv_buf v) = base \<and> bv_capacity v = cap \<and> contents m (bv_buf v) = out"

interpretation byte_vec: writer byte_vec_write "bv_rel base cap" cap "{base..<base + cap}" for base cap
proof
  fix out c m and bs :: bytes assume *: "bv_rel base cap out c m" "length out + length bs \<le> cap"
  then have "bv_ok c" "buf_len (bv_buf c) + length bs \<le> bv_capacity c" by (auto simp: bv_rel_def)
  from byte_vec_append_fits[OF this, of m] *
  show "\<exists>c' m'. byte_vec_write c bs m = Some (GG_ERR_OK, c', m') \<and> bv_rel base cap (out @ bs) c' m' \<and>
      agree_off {base..<base + cap} m m'"
    by (auto simp: bv_rel_def byte_vec_write_def bv_region_def)
next
  fix out c m and bs :: bytes assume *: "bv_rel base cap out c m" "length out + length bs > cap"
  then have "bv_ok c" "buf_len (bv_buf c) + length bs > bv_capacity c" by (auto simp: bv_rel_def)
  from byte_vec_append_full[OF this, of m]
  show "byte_vec_write c bs m = Some (GG_ERR_NOMEM, c, m)" by (simp add: byte_vec_write_def)
next
  fix out c m assume "bv_rel base cap out c m"
  then show "length out \<le> cap" by (auto simp: bv_rel_def bv_ok_def)
qed

text \<open>The buffer writer consumes its target: what it has written lies before the target's pointer.\<close>

definition bw_rel :: "addr \<Rightarrow> nat \<Rightarrow> bytes \<Rightarrow> GgBuffer \<Rightarrow> mem \<Rightarrow> bool" where
  "bw_rel base cap out t m \<longleftrightarrow> buf_data t = base + length out \<and> buf_len t + length out = cap \<and> cap \<le> SIZE_MAX \<and>
     rd m base (length out) = out"

interpretation buf_writer: writer buf_writer_write "bw_rel base cap" cap "{base..<base + cap}" for base cap
proof
  fix out t m and bs :: bytes assume *: "bw_rel base cap out t m" "length out + length bs \<le> cap"
  then have "length bs \<le> buf_len t" "buf_len t \<le> SIZE_MAX" by (auto simp: bw_rel_def)
  from buf_write_ok[OF this, of m] *
  show "\<exists>c' m'. buf_writer_write t bs m = Some (GG_ERR_OK, c', m') \<and> bw_rel base cap (out @ bs) c' m' \<and>
      agree_off {base..<base + cap} m m'"
    by (auto simp: bw_rel_def buf_writer_write_def rd_add rd_wr_disjoint rd_wr_same' intro!: agree_off_wr)
next
  fix out t m and bs :: bytes assume *: "bw_rel base cap out t m" "length out + length bs > cap"
  then show "buf_writer_write t bs m = Some (GG_ERR_NOMEM, t, m)"
    by (auto simp: bw_rel_def buf_writer_write_def buf_write_nomem)
next
  fix out t m assume "bw_rel base cap out t m"
  then show "length out \<le> cap" by (simp add: bw_rel_def)
qed

section \<open>Properties\<close>

text \<open>A sequence of appends to a byte vector, all through its writer, succeeds exactly when everything
  fits the capacity; then the vector holds its old contents followed by all the pieces in order, and
  nothing outside the vector's own memory has changed, even after a failure.\<close>

theorem gg_byte_vec_writes:
  assumes "bv_ok v"
  shows "\<exists>e v' m'. write_all byte_vec_write v bs m = Some (e, v', m') \<and> agree_off (bv_region v) m m' \<and> bv_ok v' \<and>
    (e = GG_ERR_OK \<longleftrightarrow> buf_len (bv_buf v) + length (concat bs) \<le> bv_capacity v) \<and>
    (e = GG_ERR_OK \<longrightarrow> contents m' (bv_buf v') = contents m (bv_buf v) @ concat bs)"
proof -
  let ?r = "bv_rel (buf_data (bv_buf v)) (bv_capacity v)"
  have r: "?r (contents m (bv_buf v)) v m" using assms by (simp add: bv_rel_def)
  show ?thesis
  proof (cases "buf_len (bv_buf v) + length (concat bs) \<le> bv_capacity v")
    case True
    with byte_vec.write_all_fits[OF r, of bs] show ?thesis by (auto simp: bv_rel_def bv_region_def)
  next
    case False
    with byte_vec.write_all_full[OF r, of bs] show ?thesis by (auto simp: bv_rel_def bv_region_def)
  qed
qed

theorem gg_byte_vec_writes_witness:
  "\<exists>e v' m'. write_all byte_vec_write (gg_byte_vec_init \<lparr>buf_data = 8, buf_len = 4\<rparr>) [[1, 2], [3]] (\<lambda>_. 0) =
     Some (e, v', m') \<and> contents m' (bv_buf v') = [1, 2, 3]"
  using gg_byte_vec_writes[of "gg_byte_vec_init \<lparr>buf_data = 8, buf_len = 4\<rparr>" "[[1, 2], [3]]" "\<lambda>_. 0"]
  by (auto simp: gg_byte_vec_init_def bv_ok_def int_limits contents_def)

end
