(* ===== verification/Eventstream.thy ===== *)
theory Eventstream
  imports Crc32 Vector
begin

text \<open>
  The event stream message framing: \<open>src/eventstream/encode.c\<close>, \<open>decode.c\<close> and
  \<open>rpc.c\<close>. Encoding is modelled on memory, as the code writes the packet into the caller's
  buffer through the buffer writer and patches the prelude afterwards. Decoding only reads: buffers
  are their contents, and the header iterator's \<open>pos\<close> is the bytes from that pointer to the end
  of the received data section; reading past them is undefined behaviour, the value \<^const>\<open>None\<close>.
  The theorems show that decoding inverts encoding and that no input makes the decoder read out of
  bounds.
\<close>

section \<open>Definitions\<close>

datatype EventStreamHeaderValue = EVENTSTREAM_INT32 "32 word" | EVENTSTREAM_STRING bytes

record EventStreamHeader =
  hdr_name :: bytes
  hdr_value :: EventStreamHeaderValue

record EventStreamHeaderIter =
  iter_count :: nat
  iter_pos :: bytes

record EventStreamPrelude =
  pre_data_len :: nat
  pre_headers_len :: nat
  pre_crc :: "32 word"

record EventStreamMessage =
  msg_headers :: EventStreamHeaderIter
  msg_payload :: bytes

fun value_type_byte :: "EventStreamHeaderValue \<Rightarrow> byte" where
  "value_type_byte (EVENTSTREAM_INT32 _) = 4"
| "value_type_byte (EVENTSTREAM_STRING _) = 7"

text \<open>Encoding.\<close>

definition write_be_u32 :: "32 word \<Rightarrow> bytes" where
  "write_be_u32 val = [ucast (drop_bit 24 val), ucast (drop_bit 16 val AND 0xFF),
     ucast (drop_bit 8 val AND 0xFF), ucast (val AND 0xFF)]"

definition header_encode :: "'c GgWriter \<Rightarrow> EventStreamHeader \<Rightarrow> mem \<Rightarrow> (GgError \<times> 'c GgWriter \<times> mem) run" where
  "header_encode out header m =
     (if length (hdr_name header) > UINT8_MAX then Some (GG_ERR_RANGE, out, m)
      else do {
        (ret, c, m) \<leftarrow> gg_writer_call out [of_nat (length (hdr_name header))] m;
        let out = out\<lparr>wtr_ctx := c\<rparr>;
        if ret \<noteq> GG_ERR_OK then Some (ret, out, m) else do {
        (ret, c, m) \<leftarrow> gg_writer_call out (hdr_name header) m;
        let out = out\<lparr>wtr_ctx := c\<rparr>;
        if ret \<noteq> GG_ERR_OK then Some (ret, out, m) else do {
        (ret, c, m) \<leftarrow> gg_writer_call out [value_type_byte (hdr_value header)] m;
        let out = out\<lparr>wtr_ctx := c\<rparr>;
        if ret \<noteq> GG_ERR_OK then Some (ret, out, m) else
        case hdr_value header of
          EVENTSTREAM_INT32 val \<Rightarrow> do {
            (ret, c, m) \<leftarrow> gg_writer_call out (write_be_u32 val) m;
            Some (ret, out\<lparr>wtr_ctx := c\<rparr>, m)
          }
        | EVENTSTREAM_STRING text \<Rightarrow>
            if length text > UINT16_MAX then Some (GG_ERR_RANGE, out, m)
            else do {
              (ret, c, m) \<leftarrow> gg_writer_call out
                 [of_nat (length text div 256), of_nat (length text mod 256)] m;
              let out = out\<lparr>wtr_ctx := c\<rparr>;
              if ret \<noteq> GG_ERR_OK then Some (ret, out, m) else do {
              (ret, c, m) \<leftarrow> gg_writer_call out text m;
              Some (ret, out\<lparr>wtr_ctx := c\<rparr>, m)
              }
            }
        } } })"

fun headers_encode :: "'c GgWriter \<Rightarrow> EventStreamHeader list \<Rightarrow> mem \<Rightarrow> (GgError \<times> 'c GgWriter \<times> mem) run" where
  "headers_encode out [] m = Some (GG_ERR_OK, out, m)"
| "headers_encode out (header # headers) m = do {
     (err, out, m) \<leftarrow> header_encode out header m;
     if err \<noteq> GG_ERR_OK then Some (err, out, m) else headers_encode out headers m
   }"

text \<open>A reader fills a buffer and shortens it to what it read; \<open>GG_NULL_READER\<close> reads nothing.\<close>

type_synonym read_fn = "GgBuffer \<Rightarrow> mem \<Rightarrow> (GgError \<times> GgBuffer \<times> mem) run"

definition gg_reader_call :: "read_fn option \<Rightarrow> GgBuffer \<Rightarrow> mem \<Rightarrow> (GgError \<times> GgBuffer \<times> mem) run" where
  "gg_reader_call rdr buf m =
     (case rdr of None \<Rightarrow> Some (GG_ERR_OK, buf\<lparr>buf_len := 0\<rparr>, m) | Some f \<Rightarrow> f buf m)"

definition eventstream_encode ::
    "mem \<Rightarrow> GgBuffer \<Rightarrow> EventStreamHeader list \<Rightarrow> read_fn option \<Rightarrow> (GgError \<times> GgBuffer \<times> mem) run" where
  "eventstream_encode m buf headers payload =
     (let buf = (if buf_len buf > UINT32_MAX then buf\<lparr>buf_len := UINT32_MAX\<rparr> else buf) in
      if buf_len buf < 12 then Some (GG_ERR_NOMEM, buf, m)
      else let prelude = buf_data buf;
               buf_copy = gg_buffer_substr buf 12 SIZE_MAX;
               headers_start = buf_data buf_copy
      in do {
        (err, out, m) \<leftarrow> headers_encode (gg_buf_writer buf_copy) headers m;
        if err \<noteq> GG_ERR_OK then Some (err, buf, m) else do {
        let buf_copy = wtr_ctx out;
        let headers_len = u32 (buf_data buf_copy - headers_start);
        let m = wr m (prelude + 4) (write_be_u32 (of_nat headers_len));
        (err, payload_buf, m) \<leftarrow> gg_reader_call payload buf_copy m;
        if err \<noteq> GG_ERR_OK then Some (err, buf, m) else do {
        let buf_copy = gg_buffer_substr buf_copy (buf_len payload_buf) SIZE_MAX;
        let message_len = u32 (12 + headers_len + u32 (buf_len payload_buf) + 4);
        let m = wr m prelude (write_be_u32 (of_nat message_len));
        let prelude_crc = gg_update_crc 0 (rd m prelude 8);
        let m = wr m (prelude + 8) (write_be_u32 prelude_crc);
        let message_crc = gg_update_crc prelude_crc (rd m (prelude + 8) (sub32 (sub32 message_len 8) 4));
        if buf_len buf_copy < 4 then Some (GG_ERR_NOMEM, buf, m)
        else Some (GG_ERR_OK, buf\<lparr>buf_len := message_len\<rparr>, wr m (buf_data buf_copy) (write_be_u32 message_crc))
        } }
      })"

text \<open>Decoding.\<close>

definition read_be_uint32 :: "bytes \<Rightarrow> (32 word) run" where
  "read_be_uint32 buf = do {
     c_assert (length buf = 4);
     Some (push_bit 24 (ucast (buf ! 0)) OR push_bit 16 (ucast (buf ! 1)) OR push_bit 8 (ucast (buf ! 2)) OR
           ucast (buf ! 3))
   }"

definition read_be_int32 :: "bytes \<Rightarrow> (32 word) run" where
  "read_be_int32 buf = do { c_assert (length buf = 4); read_be_uint32 buf }"

text \<open>The part of a buffer's contents that \<open>gg_buffer_substr\<close> selects.\<close>

definition substr :: "bytes \<Rightarrow> nat \<Rightarrow> nat \<Rightarrow> bytes" where
  "substr buf start end' = drop start (take end' buf)"

definition eventstream_decode_prelude :: "bytes \<Rightarrow> EventStreamPrelude res run" where
  "eventstream_decode_prelude buf =
     (if length buf < 12 then Some (Inl GG_ERR_RANGE)
      else do {
        let crc = gg_update_crc 0 (substr buf 0 8);
        prelude_crc \<leftarrow> read_be_uint32 (substr buf 8 12);
        if crc \<noteq> prelude_crc then Some (Inl GG_ERR_PARSE)
        else do {
          message_len \<leftarrow> read_be_uint32 (substr buf 0 4);
          headers_len \<leftarrow> read_be_uint32 (substr buf 4 8);
          if message_len < 16 then Some (Inl GG_ERR_PARSE)
          else if headers_len > message_len - 16 then Some (Inl GG_ERR_PARSE)
          else Some (Inr \<lparr>pre_data_len = unat (message_len - 12), pre_headers_len = unat headers_len,
                 pre_crc = gg_update_crc prelude_crc (substr buf 8 12)\<rparr>)
        }
      })"

text \<open>The header at the front of the buffer is checked and removed; \<open>pos\<close> never exceeds the length.\<close>

definition take_header :: "bytes \<Rightarrow> bytes res" where
  "take_header headers_buf =
     (let len = length headers_buf; pos = 0 in
      if len - pos < 1 then Inl GG_ERR_PARSE
      else let header_name_len = unat (headers_buf ! pos); pos = pos + 1 in
      if len - pos < header_name_len then Inl GG_ERR_PARSE
      else let pos = pos + header_name_len in
      if len - pos < 1 then Inl GG_ERR_PARSE
      else let header_value_type = headers_buf ! pos; pos = pos + 1 in
      if header_value_type = 4 then
        if len - pos < 4 then Inl GG_ERR_PARSE
        else Inr (drop (pos + 4) headers_buf)
      else if header_value_type = 7 then
        if len - pos < 2 then Inl GG_ERR_PARSE
        else let value_len = unat (headers_buf ! pos) * 256 + unat (headers_buf ! (pos + 1)); pos = pos + 2 in
          if len - pos < value_len then Inl GG_ERR_PARSE
          else Inr (drop (pos + value_len) headers_buf)
      else Inl GG_ERR_PARSE)"

lemma take_header_shrinks: "take_header hs = Inr rest \<Longrightarrow> length rest < length hs"
  by (auto simp: take_header_def Let_def split: if_splits)

function count_headers_loop :: "bytes \<Rightarrow> nat \<Rightarrow> nat res" where
  "count_headers_loop headers headers_count =
     (if length headers > 0 then
        case take_header headers of
          Inl err \<Rightarrow> Inl err
        | Inr rest \<Rightarrow> count_headers_loop rest (u32 (headers_count + 1))
      else Inr headers_count)"
  by pat_completeness auto
termination by (relation "measure (\<lambda>(hs, _). length hs)") (auto simp: take_header_shrinks)

declare count_headers_loop.simps [simp del]

definition count_headers :: "bytes \<Rightarrow> nat res" where
  "count_headers headers_buf = count_headers_loop headers_buf 0"

text \<open>Reads through the iterator's pointer.\<close>

definition byte_at :: "bytes \<Rightarrow> nat \<Rightarrow> byte run" where
  "byte_at bs i = (if i < length bs then Some (bs ! i) else None)"

definition bytes_at :: "bytes \<Rightarrow> nat \<Rightarrow> nat \<Rightarrow> bytes run" where
  "bytes_at bs i n = (if i + n \<le> length bs then Some (take n (drop i bs)) else None)"

definition eventstream_header_next ::
    "EventStreamHeaderIter \<Rightarrow> ((EventStreamHeader \<times> EventStreamHeaderIter) res) run" where
  "eventstream_header_next headers =
     (if iter_count headers < 1 then Some (Inl GG_ERR_RANGE)
      else let pos = iter_pos headers in do {
        header_name_len \<leftarrow> byte_at pos 0;
        let n = unat header_name_len;
        header_name \<leftarrow> bytes_at pos 1 n;
        header_value_type \<leftarrow> byte_at pos (1 + n);
        let i = 2 + n;
        if header_value_type = 4 then do {
          data \<leftarrow> bytes_at pos i 4;
          val \<leftarrow> read_be_int32 data;
          Some (Inr (\<lparr>hdr_name = header_name, hdr_value = EVENTSTREAM_INT32 val\<rparr>,
            \<lparr>iter_count = iter_count headers - 1, iter_pos = drop (i + 4) pos\<rparr>))
        }
        else if header_value_type = 7 then do {
          b0 \<leftarrow> byte_at pos i;
          b1 \<leftarrow> byte_at pos (i + 1);
          let str_len = unat b0 * 256 + unat b1;
          text \<leftarrow> bytes_at pos (i + 2) str_len;
          Some (Inr (\<lparr>hdr_name = header_name, hdr_value = EVENTSTREAM_STRING text\<rparr>,
            \<lparr>iter_count = iter_count headers - 1, iter_pos = drop (i + 2 + str_len) pos\<rparr>))
        }
        else None
      })"

lemma header_next_count:
  "eventstream_header_next it = Some (Inr (h, it')) \<Longrightarrow> iter_count it' < iter_count it"
  by (auto simp: eventstream_header_next_def Let_def bind_Some_iff split: if_splits)

text \<open>The loop that calls the iterator until it ends, collecting the headers.\<close>

function header_loop :: "EventStreamHeaderIter \<Rightarrow> EventStreamHeader list run" where
  "header_loop it =
     (case eventstream_header_next it of
        None \<Rightarrow> None
      | Some (Inl _) \<Rightarrow> Some []
      | Some (Inr (header, it')) \<Rightarrow> map_option ((#) header) (header_loop it'))"
  by pat_completeness auto
termination by (relation "measure iter_count") (auto simp: header_next_count)

declare header_loop.simps [simp del]

definition eventstream_decode :: "EventStreamPrelude \<Rightarrow> bytes \<Rightarrow> EventStreamMessage res run" where
  "eventstream_decode prelude data_section = do {
     c_assert (length data_section \<ge> 4);
     let crc = gg_update_crc (pre_crc prelude) (substr data_section 0 (length data_section - 4));
     message_crc \<leftarrow> read_be_uint32 (substr data_section (length data_section - 4) (length data_section));
     if crc \<noteq> message_crc then Some (Inl GG_ERR_PARSE)
     else do {
       let headers_buf = substr data_section 0 (pre_headers_len prelude);
       let payload = substr data_section (pre_headers_len prelude) (length data_section - 4);
       c_assert (length headers_buf = pre_headers_len prelude);
       case count_headers headers_buf of
         Inl err \<Rightarrow> Some (Inl err)
       | Inr headers_count \<Rightarrow> do {
           let header_iter = \<lparr>iter_count = headers_count, iter_pos = data_section\<rparr>;
           _ \<leftarrow> header_loop header_iter;
           Some (Inr \<lparr>msg_headers = header_iter, msg_payload = payload\<rparr>)
         }
     }
   }"

text \<open>Receiving a packet: \<open>input\<close> reads up to a number of bytes from a connection whose state is
  threaded through.\<close>

type_synonym 'r input_fn = "'r \<Rightarrow> nat \<Rightarrow> (bytes res \<times> 'r) run"

definition gg_reader_call_exact :: "'r input_fn \<Rightarrow> 'r \<Rightarrow> nat \<Rightarrow> (bytes res \<times> 'r) run" where
  "gg_reader_call_exact input r n = do {
     (x, r') \<leftarrow> input r n;
     Some (case x of Inl e \<Rightarrow> Inl e | Inr data \<Rightarrow> if length data = n then Inr data else Inl GG_ERR_FAILURE, r')
   }"

definition eventsteam_get_packet ::
    "'r input_fn \<Rightarrow> 'r \<Rightarrow> nat \<Rightarrow> (EventStreamMessage res \<times> 'r) run" where
  "eventsteam_get_packet input r buffer_len = do {
     c_assert (min 12 buffer_len = 12);
     (x, r) \<leftarrow> gg_reader_call_exact input r 12;
     case x of
       Inl e \<Rightarrow> Some (Inl e, r)
     | Inr prelude_buf \<Rightarrow> do {
         y \<leftarrow> eventstream_decode_prelude prelude_buf;
         case y of
           Inl e \<Rightarrow> Some (Inl e, r)
         | Inr prelude \<Rightarrow>
             if pre_data_len prelude > buffer_len then Some (Inl GG_ERR_NOMEM, r)
             else do {
               (z, r) \<leftarrow> gg_reader_call_exact input r (pre_data_len prelude);
               case z of
                 Inl e \<Rightarrow> Some (Inl e, r)
               | Inr data_section \<Rightarrow> do {
                   msg \<leftarrow> eventstream_decode prelude data_section;
                   Some (msg, r)
                 }
             }
       }
   }"

record EventStreamCommonHeaders =
  ch_stream_id :: "32 word"
  ch_message_type :: "32 word"
  ch_message_flags :: "32 word"

text \<open>What one header does to the common headers.\<close>

definition common_header_step ::
    "EventStreamHeader \<Rightarrow> EventStreamCommonHeaders \<Rightarrow> EventStreamCommonHeaders res" where
  "common_header_step header out =
     (if gg_buffer_eq (hdr_name header) (str '':message-type'') then
        case hdr_value header of
          EVENTSTREAM_INT32 v \<Rightarrow> Inr (out\<lparr>ch_message_type := v\<rparr>) | _ \<Rightarrow> Inl GG_ERR_INVALID
      else if gg_buffer_eq (hdr_name header) (str '':message-flags'') then
        case hdr_value header of
          EVENTSTREAM_INT32 v \<Rightarrow> Inr (out\<lparr>ch_message_flags := v\<rparr>) | _ \<Rightarrow> Inl GG_ERR_INVALID
      else if gg_buffer_eq (hdr_name header) (str '':stream-id'') then
        case hdr_value header of
          EVENTSTREAM_INT32 v \<Rightarrow> Inr (out\<lparr>ch_stream_id := v\<rparr>) | _ \<Rightarrow> Inl GG_ERR_INVALID
      else Inr out)"

function common_headers_loop ::
    "EventStreamHeaderIter \<Rightarrow> EventStreamCommonHeaders \<Rightarrow> EventStreamCommonHeaders res run" where
  "common_headers_loop it out =
     (case eventstream_header_next it of
        None \<Rightarrow> None
      | Some (Inl _) \<Rightarrow> Some (Inr out)
      | Some (Inr (header, it')) \<Rightarrow>
          (case common_header_step header out of
             Inl e \<Rightarrow> Some (Inl e)
           | Inr out' \<Rightarrow> common_headers_loop it' out'))"
  by pat_completeness auto
termination by (relation "measure (\<lambda>(it, _). iter_count it)") (auto simp: header_next_count)

declare common_headers_loop.simps [simp del]

definition eventstream_get_common_headers :: "EventStreamMessage \<Rightarrow> EventStreamCommonHeaders res run" where
  "eventstream_get_common_headers msg =
     common_headers_loop (msg_headers msg) \<lparr>ch_stream_id = 0, ch_message_type = 0, ch_message_flags = 0\<rparr>"

section \<open>Integers in network order\<close>

lemma be_read_write [simp]: "read_be_uint32 (write_be_u32 v) = Some v"
proof -
  let ?w = "push_bit 24 (ucast (ucast (drop_bit 24 v) :: byte)) OR push_bit 16 (ucast (ucast (drop_bit 16 v AND 0xFF) :: byte)) OR
      push_bit 8 (ucast (ucast (drop_bit 8 v AND 0xFF) :: byte)) OR ucast (ucast (v AND 0xFF) :: byte) :: 32 word"
  have "?w = v"
  proof (rule bit_word_eqI)
    fix n assume "n < LENGTH(32)"
    then consider "n < 8" | k where "n = 8 + k" "k < 8" | k where "n = 16 + k" "k < 8" | k where "n = 24 + k" "k < 8"
      using le_Suc_ex[of 8 n] le_Suc_ex[of 16 n] le_Suc_ex[of 24 n] by fastforce
    then show "bit ?w n = bit v n"
      by cases (auto simp: bit_or_iff bit_push_bit_iff bit_unsigned_iff bit_drop_bit_eq bit_and_iff mask_8 bit_mask_iff)
  qed
  then show ?thesis by (simp add: read_be_uint32_def write_be_u32_def)
qed

lemma length_write_be [simp]: "length (write_be_u32 v) = 4"
  by (simp add: write_be_u32_def)

lemma be_write_read:
  assumes "length bs = 4"
  shows "\<exists>v. read_be_uint32 bs = Some v \<and> write_be_u32 v = bs"
proof -
  obtain a b c d where bs: "bs = [a, b, c, d]" using assms
    by (auto simp: length_Suc_conv numeral_eq_Suc)
  define v :: "32 word" where "v = push_bit 24 (ucast a) OR push_bit 16 (ucast b) OR push_bit 8 (ucast c) OR ucast d"
  have "write_be_u32 v = bs" unfolding write_be_u32_def bs v_def
    by (auto intro!: bit_word_eqI simp: bit_or_iff bit_push_bit_iff bit_unsigned_iff bit_drop_bit_eq bit_and_iff mask_8 bit_mask_iff
        byte_high)
  then show ?thesis by (simp add: read_be_uint32_def bs v_def)
qed

section \<open>Headers\<close>

definition hdr_ok :: "EventStreamHeader \<Rightarrow> bool" where
  "hdr_ok h \<longleftrightarrow> length (hdr_name h) \<le> 255 \<and>
     (case hdr_value h of EVENTSTREAM_INT32 _ \<Rightarrow> True | EVENTSTREAM_STRING t \<Rightarrow> length t \<le> 65535)"

definition value_chunks :: "EventStreamHeaderValue \<Rightarrow> bytes list" where
  "value_chunks v = (case v of EVENTSTREAM_INT32 w \<Rightarrow> [write_be_u32 w]
     | EVENTSTREAM_STRING t \<Rightarrow> [[of_nat (length t div 256), of_nat (length t mod 256)], t])"

definition header_chunks :: "EventStreamHeader \<Rightarrow> bytes list" where
  "header_chunks h = [[of_nat (length (hdr_name h))], hdr_name h, [value_type_byte (hdr_value h)]] @ value_chunks (hdr_value h)"

definition header_bytes :: "EventStreamHeader \<Rightarrow> bytes" where
  "header_bytes h = concat (header_chunks h)"

lemma header_bytes_int:
  "hdr_value h = EVENTSTREAM_INT32 w \<Longrightarrow>
     header_bytes h = of_nat (length (hdr_name h)) # hdr_name h @ 4 # write_be_u32 w"
  by (simp add: header_bytes_def header_chunks_def value_chunks_def)

lemma header_bytes_str:
  "hdr_value h = EVENTSTREAM_STRING t \<Longrightarrow>
     header_bytes h = of_nat (length (hdr_name h)) # hdr_name h @ 7 # of_nat (length t div 256) # of_nat (length t mod 256) # t"
  by (simp add: header_bytes_def header_chunks_def value_chunks_def)

lemma len16 [simp]: "length (t :: bytes) \<le> 65535 \<Longrightarrow>
    unat (of_nat (length t div 256) :: byte) * 256 + unat (of_nat (length t mod 256) :: byte) = length t"
  by simp

lemma drop_int_header: "length name = n \<Longrightarrow> drop (6 + n) (x # name @ t # r) = drop 4 r"
  by (auto simp: numeral_eq_Suc)

lemma drop_str_header: "drop (3 + n) (t # r) = drop (2 + n) r" "drop (3 + n) (t # x # y # r) = drop n r"
  by (simp_all add: numeral_eq_Suc)

lemma take_header_bytes: "hdr_ok h \<Longrightarrow> take_header (header_bytes h @ rest) = Inr rest"
proof (cases "hdr_value h")
  case (EVENTSTREAM_INT32 w)
  assume "hdr_ok h"
  then show ?thesis unfolding header_bytes_int[OF EVENTSTREAM_INT32]
    by (simp add: take_header_def Let_def hdr_ok_def nth_append drop_int_header)
next
  case (EVENTSTREAM_STRING t)
  assume "hdr_ok h"
  then have "length (hdr_name h) \<le> 255" "length t \<le> 65535" using EVENTSTREAM_STRING by (simp_all add: hdr_ok_def)
  then show ?thesis unfolding header_bytes_str[OF EVENTSTREAM_STRING]
    by (simp add: take_header_def Let_def nth_append drop_str_header)
qed

text \<open>What \<open>take_header\<close> accepts is the encoding of a header.\<close>

lemma take_header_inv:
  assumes "take_header hs = Inr rest"
  shows "\<exists>h. hdr_ok h \<and> hs = header_bytes h @ rest"
proof -
  obtain b rs where hs: "hs = b # rs" using assms by (cases hs) (auto simp: take_header_def)
  let ?n = "unat b"
  have n: "?n \<le> length rs" "length rs - ?n \<ge> 1" "unat b \<le> 255"
    using assms byte_bound[of b] by (auto simp: take_header_def hs Let_def split: if_splits)
  then obtain t r where rs: "rs = take ?n rs @ t # r" by (metis append_take_drop_id Suc_le_D length_drop length_Suc_conv One_nat_def)
  define name where "name = take ?n rs"
  have name: "length name = ?n" "rs = name @ t # r" using n rs by (simp_all add: name_def)
  have b: "of_nat (length name) = b" using name(1) by simp
  have t: "t = 4 \<and> 4 \<le> length r \<and> rest = drop 4 r \<or>
      t = 7 \<and> 2 \<le> length r \<and> unat (r ! 0) * 256 + unat (r ! 1) \<le> length r - 2 \<and>
        rest = drop (2 + unat (r ! 0) * 256 + unat (r ! 1)) r"
    using assms unfolding take_header_def hs name(2) using name(1)
    by (auto simp: Let_def nth_append add.assoc drop_int_header drop_str_header split: if_splits)
  then show ?thesis
  proof
    assume *: "t = 4 \<and> 4 \<le> length r \<and> rest = drop 4 r"
    then obtain w where "write_be_u32 w = take 4 r" using be_write_read[of "take 4 r"] by auto
    then have "hs = header_bytes \<lparr>hdr_name = name, hdr_value = EVENTSTREAM_INT32 w\<rparr> @ rest"
      using * b by (simp add: header_bytes_int hs name(2))
    moreover have "hdr_ok \<lparr>hdr_name = name, hdr_value = EVENTSTREAM_INT32 w\<rparr>" using name(1) n(3) by (simp add: hdr_ok_def)
    ultimately show ?thesis by blast
  next
    assume *: "t = 7 \<and> 2 \<le> length r \<and> unat (r ! 0) * 256 + unat (r ! 1) \<le> length r - 2 \<and>
        rest = drop (2 + unat (r ! 0) * 256 + unat (r ! 1)) r"
    then obtain x y r' where r: "r = x # y # r'" by (cases r; cases "tl r") auto
    let ?k = "unat x * 256 + unat y"
    define v where "v = take ?k r'"
    have xy: "unat x < 256" "unat y < 256" using unsigned_less[of x] unsigned_less[of y] by auto
    have v: "length v = ?k" using * by (simp add: r v_def)
    then have "length v div 256 = unat x" "length v mod 256 = unat y" using xy by simp_all
    then have "hs = header_bytes \<lparr>hdr_name = name, hdr_value = EVENTSTREAM_STRING v\<rparr> @ rest"
      using * b by (simp add: header_bytes_str hs name(2) r v_def)
    moreover have "hdr_ok \<lparr>hdr_name = name, hdr_value = EVENTSTREAM_STRING v\<rparr>"
      using name(1) n(3) v xy by (simp add: hdr_ok_def)
    ultimately show ?thesis by blast
  qed
qed

lemma header_bytes_ne: "0 < length (header_bytes h)"
  by (simp add: header_bytes_def header_chunks_def)

lemma count_loop_bytes:
  "list_all hdr_ok hs \<Longrightarrow> n + length hs < 2 ^ 32 \<Longrightarrow> count_headers_loop (concat (map header_bytes hs)) n = Inr (n + length hs)"
proof (induction hs arbitrary: n)
  case (Cons h hs)
  then show ?case using header_bytes_ne[of h] by (subst count_headers_loop.simps) (simp add: take_header_bytes)
qed (simp add: count_headers_loop.simps)

lemma count_loop_inv:
  "count_headers_loop bs n = Inr k \<Longrightarrow> n + length bs < 2 ^ 32 \<Longrightarrow>
     \<exists>hs. list_all hdr_ok hs \<and> bs = concat (map header_bytes hs) \<and> k = n + length hs"
proof (induction bs n rule: count_headers_loop.induct)
  case (1 bs n)
  show ?case
  proof (cases "bs = []")
    case True
    with 1(2) show ?thesis by (intro exI[of _ "[]"]) (simp add: count_headers_loop.simps)
  next
    case False
    with 1(2) obtain rest where rest: "take_header bs = Inr rest" "count_headers_loop rest (u32 (n + 1)) = Inr k"
      by (subst (asm) count_headers_loop.simps) (auto split: sum.splits)
    obtain h where h: "hdr_ok h" "bs = header_bytes h @ rest" using take_header_inv[OF rest(1)] by blast
    have "1 \<le> length (header_bytes h)" using header_bytes_ne[of h] by linarith
    then have le: "n + 1 + length rest < 2 ^ 32" using 1(3) h(2) by simp
    then have "u32 (n + 1) = n + 1" by simp
    with le have "u32 (n + 1) + length rest < 2 ^ 32" "u32 (n + 1) = n + 1" by simp_all
    with 1(1)[OF _ rest(1) rest(2)] False obtain hs where
      "list_all hdr_ok hs" "rest = concat (map header_bytes hs)" "k = n + 1 + length hs" by auto
    with h show ?thesis by (intro exI[of _ "h # hs"]) simp
  qed
qed

lemma header_next_bytes:
  assumes "hdr_ok h"
  shows "eventstream_header_next \<lparr>iter_count = Suc n, iter_pos = header_bytes h @ rest\<rparr> =
    Some (Inr (h, \<lparr>iter_count = n, iter_pos = rest\<rparr>))"
proof (cases "hdr_value h")
  case (EVENTSTREAM_INT32 w)
  with assms show ?thesis unfolding header_bytes_int[OF EVENTSTREAM_INT32]
    by (cases h) (simp add: eventstream_header_next_def byte_at_def bytes_at_def nth_append Let_def hdr_ok_def read_be_int32_def drop_int_header)
next
  case (EVENTSTREAM_STRING t)
  then have "length (hdr_name h) \<le> 255" "length t \<le> 65535" using assms by (simp_all add: hdr_ok_def)
  with EVENTSTREAM_STRING show ?thesis unfolding header_bytes_str[OF EVENTSTREAM_STRING]
    by (cases h) (simp add: eventstream_header_next_def byte_at_def bytes_at_def nth_append Let_def drop_str_header)
qed

lemma header_loop_bytes:
  "list_all hdr_ok hs \<Longrightarrow>
     header_loop \<lparr>iter_count = length hs, iter_pos = concat (map header_bytes hs) @ rest\<rparr> = Some hs"
proof (induction hs)
  case Nil
  show ?case by (subst header_loop.simps) (simp add: eventstream_header_next_def)
next
  case (Cons h hs)
  then show ?case by (subst header_loop.simps) (simp add: header_next_bytes)
qed

section \<open>Decoding is safe on every input\<close>

lemma length_substr [simp]: "length (substr bs i j) = min j (length bs) - i"
  by (simp add: substr_def)

lemma decode_prelude_total:
  "\<exists>r. eventstream_decode_prelude buf = Some r \<and>
     (\<forall>p. r = Inr p \<longrightarrow> pre_headers_len p + 4 \<le> pre_data_len p \<and> pre_data_len p < 2 ^ 32)"
proof (cases "length buf < 12")
  case True
  then show ?thesis by (simp add: eventstream_decode_prelude_def)
next
  case False
  obtain c l n where rd: "read_be_uint32 (substr buf 8 12) = Some c" "read_be_uint32 (substr buf 0 4) = Some l"
    "read_be_uint32 (substr buf 4 8) = Some n"
    using False be_write_read[of "substr buf 8 12"] be_write_read[of "substr buf 0 4"] be_write_read[of "substr buf 4 8"] by auto
  have *: "unat n + 4 \<le> unat (l - 12)" if "\<not> l < 16" "\<not> n > l - 16"
  proof -
    have l: "16 \<le> unat l" using that(1) by (simp add: word_less_nat_alt)
    then have "(12 :: 32 word) \<le> l" "(16 :: 32 word) \<le> l" by (simp_all add: word_le_nat_alt)
    then have "unat (l - 12) = unat l - 12" "unat (l - 16) = unat l - 16" by (simp_all add: unat_sub)
    moreover have "unat n \<le> unat (l - 16)" using that(2) by (simp add: word_le_nat_alt not_less)
    ultimately show ?thesis using l by simp
  qed
  have "unat (l - 12) < 2 ^ LENGTH(32)" by (rule unsigned_less)
  then show ?thesis using False rd * by (simp add: eventstream_decode_prelude_def Let_def)
qed

lemma three_parts: "h \<le> k \<Longrightarrow> take h xs @ drop h (take k xs) @ drop k xs = xs"
proof -
  assume "h \<le> k"
  then have "take h xs = take h (take k xs)" by (simp add: min_absorb1)
  then have "take h xs @ drop h (take k xs) = take k xs" by (metis append_take_drop_id)
  then show ?thesis by (metis append.assoc append_take_drop_id)
qed

lemma decode_total:
  assumes "pre_headers_len p + 4 \<le> length data" "length data < 2 ^ 32"
  shows "\<exists>r. eventstream_decode p data = Some r \<and> (\<forall>msg. r = Inr msg \<longrightarrow>
    (\<exists>hs c. list_all hdr_ok hs \<and> data = concat (map header_bytes hs) @ msg_payload msg @ c \<and> length c = 4 \<and>
      length (concat (map header_bytes hs)) = pre_headers_len p \<and>
      msg_headers msg = \<lparr>iter_count = length hs, iter_pos = data\<rparr> \<and> header_loop (msg_headers msg) = Some hs))"
proof -
  let ?n = "length data" and ?h = "pre_headers_len p"
  obtain c where c: "read_be_uint32 (substr data (?n - 4) ?n) = Some c"
    using assms(1) be_write_read[of "substr data (?n - 4) ?n"] by auto
  let ?hb = "substr data 0 ?h" and ?pl = "substr data ?h (?n - 4)"
  have split: "data = ?hb @ ?pl @ drop (?n - 4) data"
    using three_parts[of ?h "?n - 4" data] assms(1) by (simp add: substr_def)
  have len: "length ?hb = ?h" "?n \<ge> 4" using assms(1) by auto
  show ?thesis
  proof (cases "gg_update_crc (pre_crc p) (substr data 0 (?n - 4)) = c")
    case False
    then show ?thesis using c len by (simp add: eventstream_decode_def Let_def)
  next
    case crc: True
    show ?thesis
    proof (cases "count_headers ?hb")
      case (Inl e)
      then show ?thesis using c len crc by (simp add: eventstream_decode_def Let_def)
    next
      case (Inr k)
      from count_loop_inv[of ?hb 0 k] Inr assms len(1) obtain hs where
        hs: "list_all hdr_ok hs" "?hb = concat (map header_bytes hs)" "k = length hs"
        by (auto simp: count_headers_def)
      have loop: "header_loop \<lparr>iter_count = k, iter_pos = data\<rparr> = Some hs"
        using header_loop_bytes[OF hs(1), of "?pl @ drop (?n - 4) data"] split hs(2,3) by simp
      have "eventstream_decode p data = Some (Inr \<lparr>msg_headers = \<lparr>iter_count = k, iter_pos = data\<rparr>, msg_payload = ?pl\<rparr>)"
        using c len crc Inr loop by (simp add: eventstream_decode_def Let_def)
      moreover have "data = concat (map header_bytes hs) @ ?pl @ drop (?n - 4) data" using split hs(2) by simp
      moreover have "length (concat (map header_bytes hs)) = ?h" using len(1) hs(2) by simp
      ultimately show ?thesis using hs loop len(2) by (auto intro!: exI[of _ hs] exI[of _ "drop (?n - 4) data"])
    qed
  qed
qed

lemma common_loop_total:
  "list_all hdr_ok hs \<Longrightarrow>
     \<exists>r. common_headers_loop \<lparr>iter_count = length hs, iter_pos = concat (map header_bytes hs) @ rest\<rparr> out = Some r"
proof (induction hs arbitrary: out)
  case Nil
  show ?case by (subst common_headers_loop.simps) (simp add: eventstream_header_next_def)
next
  case (Cons h hs)
  then show ?case by (subst common_headers_loop.simps) (auto simp: header_next_bytes split: sum.splits)
qed

section \<open>Encoding\<close>

text \<open>The packet of headers and a payload.\<close>

definition es_packet :: "EventStreamHeader list \<Rightarrow> bytes \<Rightarrow> bytes" where
  "es_packet hs pl =
     (let h = concat (map header_bytes hs);
          p8 = write_be_u32 (of_nat (16 + length h + length pl)) @ write_be_u32 (of_nat (length h));
          pc = gg_update_crc 0 p8;
          rest = write_be_u32 pc @ h @ pl
      in p8 @ rest @ write_be_u32 (gg_update_crc pc rest))"

lemma write_all_append:
  "write_all f c (xs @ ys) m = Option.bind (write_all f c xs m) (\<lambda>(e, c, m).
     if e \<noteq> GG_ERR_OK then Some (e, c, m) else write_all f c ys m)"
  by (induction xs arbitrary: c m) (auto intro!: bind_option_cong split: prod.splits)

definition with_writer :: "'c write_fn \<Rightarrow> GgError \<times> 'c \<times> mem \<Rightarrow> GgError \<times> 'c GgWriter \<times> mem" where
  "with_writer f r = (case r of (e, c, m) \<Rightarrow> (e, \<lparr>wtr_write = Some f, wtr_ctx = c\<rparr>, m))"

lemma call_step:
  assumes "\<And>c m. k c m = map_option (with_writer f) (write_all f c bs m)"
  shows "Option.bind (gg_writer_call \<lparr>wtr_write = Some f, wtr_ctx = c\<rparr> b m) (\<lambda>(ret, c, m).
     if ret \<noteq> GG_ERR_OK then Some (ret, \<lparr>wtr_write = Some f, wtr_ctx = c\<rparr>, m) else k c m) =
     map_option (with_writer f) (write_all f c (b # bs) m)"
  by (cases "f c b m") (auto simp: gg_writer_call_def with_writer_def assms)

lemma call_last:
  "Option.bind (gg_writer_call \<lparr>wtr_write = Some f, wtr_ctx = c\<rparr> b m) (\<lambda>(ret, c, m).
     Some (ret, \<lparr>wtr_write = Some f, wtr_ctx = c\<rparr>, m)) = map_option (with_writer f) (write_all f c [b] m)"
  by (cases "f c b m") (auto simp: gg_writer_call_def with_writer_def)

lemma header_encode_chunks:
  assumes "hdr_ok h"
  shows "header_encode \<lparr>wtr_write = Some f, wtr_ctx = c\<rparr> h m = map_option (with_writer f) (write_all f c (header_chunks h) m)"
proof -
  have n: "\<not> length (hdr_name h) > UINT8_MAX" using assms by (simp add: hdr_ok_def UINT8_MAX_def)
  show ?thesis
  proof (cases "hdr_value h")
    case (EVENTSTREAM_INT32 w)
    show ?thesis
      unfolding header_encode_def if_not_P[OF n] header_chunks_def value_chunks_def EVENTSTREAM_INT32
        EventStreamHeaderValue.case Let_def GgWriter.update_convs append.simps
      by (intro call_step call_last)
  next
    case (EVENTSTREAM_STRING t)
    then have t: "\<not> length t > UINT16_MAX" using assms by (simp add: hdr_ok_def UINT16_MAX_def)
    show ?thesis
      unfolding header_encode_def if_not_P[OF n] header_chunks_def value_chunks_def EVENTSTREAM_STRING
        EventStreamHeaderValue.case Let_def GgWriter.update_convs append.simps if_not_P[OF t]
      by (intro call_step call_last)
  qed
qed

lemma headers_encode_chunks:
  "list_all hdr_ok hs \<Longrightarrow> headers_encode \<lparr>wtr_write = Some f, wtr_ctx = c\<rparr> hs m =
     map_option (with_writer f) (write_all f c (concat (map header_chunks hs)) m)"
proof (induction hs arbitrary: c m)
  case (Cons h hs)
  then show ?case
    by (simp add: header_encode_chunks write_all_append with_writer_def)
      (auto simp: with_writer_def split: bind_splits option.splits prod.splits)
qed (simp add: with_writer_def)

lemma concat_chunks: "concat (concat (map header_chunks hs)) = concat (map header_bytes hs)"
  by (induction hs) (simp_all add: header_bytes_def)

lemma length_packet: "length (es_packet hs pl) = 16 + length (concat (map header_bytes hs)) + length pl"
  by (simp add: es_packet_def Let_def)

text \<open>Patching the prelude in front of headers and payload, and the checksum behind them.\<close>

lemma packet_patch:
  fixes D :: addr and m3 :: mem
  assumes h: "rd m3 (D + 4) 4 = write_be_u32 (of_nat (length H))" "rd m3 (D + 12) (length H) = H"
    "rd m3 (D + 12 + length H) (length pl) = pl" "H = concat (map header_bytes hs)"
  defines "n \<equiv> 16 + length H + length pl"
  defines "m4 \<equiv> wr m3 D (write_be_u32 (of_nat n))"
  defines "pc \<equiv> gg_update_crc 0 (rd m4 D 8)"
  defines "m5 \<equiv> wr m4 (D + 8) (write_be_u32 pc)"
  defines "m6 \<equiv> wr m5 (D + 12 + length H + length pl) (write_be_u32 (gg_update_crc pc (rd m5 (D + 8) (n - 12))))"
  shows "rd m6 D n = es_packet hs pl" "agree_off {D..<D + n} m3 m6"
proof -
  let ?w = "write_be_u32 (of_nat n)" and ?h = "write_be_u32 (of_nat (length H))"
  have 4: "rd m4 D 8 = ?w @ ?h"
    using rd_add[of m4 D 4 4] h(1) by (simp add: m4_def rd_wr_same' rd_wr_disjoint)
  have 5: "rd m5 (D + 8) (4 + (length H + length pl)) = write_be_u32 pc @ H @ pl"
    unfolding rd_add by (simp add: m5_def m4_def rd_wr_same' rd_wr_disjoint add.assoc[symmetric] h(2,3)[unfolded add.commute[of D 12]])
  have 58: "rd m5 D 8 = ?w @ ?h" using 4 by (simp add: m5_def rd_wr_disjoint)
  have n: "n - 12 = 4 + (length H + length pl)" "n = (8 + (4 + (length H + length pl))) + 4" by (simp_all add: n_def)
  have e: "D + 12 + length H + length pl = D + (8 + (4 + (length H + length pl)))" by simp
  have "rd m6 D (8 + (4 + (length H + length pl))) = (?w @ ?h) @ write_be_u32 pc @ H @ pl"
  proof -
    have "rd m6 D (8 + (4 + (length H + length pl))) = rd m5 D (8 + (4 + (length H + length pl)))"
      unfolding m6_def e by (rule rd_wr_disjoint) simp
    then show ?thesis using 5 58 rd_add[of m5 D 8 "4 + (length H + length pl)"] by simp
  qed
  moreover have "rd m6 (D + (8 + (4 + (length H + length pl)))) 4 = write_be_u32 (gg_update_crc pc (write_be_u32 pc @ H @ pl))"
    unfolding m6_def e n(1) 5 by (rule rd_wr_same') simp
  ultimately have "rd m6 D n = ((?w @ ?h) @ write_be_u32 pc @ H @ pl) @ write_be_u32 (gg_update_crc pc (write_be_u32 pc @ H @ pl))"
    unfolding n(2) rd_add[of m6 D _ 4] by simp
  then show "rd m6 D n = es_packet hs pl"
    using 4 h(4) by (simp add: es_packet_def Let_def pc_def n_def)
  show "agree_off {D..<D + n} m3 m6"
    unfolding m6_def m5_def m4_def
    by (intro agree_off_trans[OF agree_off_wr agree_off_trans[OF agree_off_wr agree_off_wr]]) (auto simp: n_def)
qed

text \<open>What the encoder relies on from the payload: it is written to the front of the buffer given, if
  it fits, and depends on nothing but the addresses \<open>F\<close>.\<close>

locale payload_reader =
  fixes rdr :: read_fn and pre :: "mem \<Rightarrow> bool" and F :: "addr set" and pl :: bytes
  assumes reads: "pre m \<Longrightarrow> {buf_data b..<buf_data b + buf_len b} \<inter> F = {} \<Longrightarrow> length pl \<le> buf_len b \<Longrightarrow>
      buf_len b \<le> SIZE_MAX \<Longrightarrow>
      \<exists>m'. rdr b m = Some (GG_ERR_OK, b\<lparr>buf_len := length pl\<rparr>, m') \<and> rd m' (buf_data b) (length pl) = pl \<and>
        agree_off {buf_data b..<buf_data b + buf_len b} m m'"
    and pre_frame: "pre m \<Longrightarrow> agree_on F m m' \<Longrightarrow> pre m'"
begin

lemma encode_packet:
  assumes hs: "list_all hdr_ok hs" and pre: "pre m"
    and F: "{buf_data b..<buf_data b + buf_len b} \<inter> F = {}"
    and fits: "length (es_packet hs pl) \<le> buf_len b" "buf_len b \<le> UINT32_MAX"
  shows "\<exists>m'. eventstream_encode m b hs (Some rdr) = Some (GG_ERR_OK, b\<lparr>buf_len := length (es_packet hs pl)\<rparr>, m') \<and>
    rd m' (buf_data b) (length (es_packet hs pl)) = es_packet hs pl \<and>
    agree_off {buf_data b..<buf_data b + buf_len b} m m'"
proof -
  define H where "H = concat (map header_bytes hs)"
  let ?D = "buf_data b" and ?L = "buf_len b" and ?n = "16 + length H + length pl"
  let ?R = "{?D..<?D + ?L}" and ?base = "?D + 12"
  have len: "length (es_packet hs pl) = ?n" by (simp add: es_packet_def Let_def H_def)
  have L: "?n \<le> ?L" "?L < 4294967296" using fits len by (simp_all add: UINT32_MAX_def)
  have bc: "gg_buffer_substr b 12 SIZE_MAX = \<lparr>buf_data = ?base, buf_len = ?L - 12\<rparr>"
    using L by (simp add: gg_buffer_substr_def Let_def SIZE_MAX_def)
  have r0: "bw_rel ?base (?L - 12) [] \<lparr>buf_data = ?base, buf_len = ?L - 12\<rparr> m"
    using L by (simp add: bw_rel_def SIZE_MAX_def)
  have H: "concat (concat (map header_chunks hs)) = H" by (simp add: H_def concat_chunks)
  obtain c1 m1 where 1: "write_all buf_writer_write \<lparr>buf_data = ?base, buf_len = ?L - 12\<rparr> (concat (map header_chunks hs)) m =
      Some (GG_ERR_OK, c1, m1)" "bw_rel ?base (?L - 12) H c1 m1" "agree_off {?base..<?base + (?L - 12)} m m1"
  proof -
    have "length [] + length (concat (concat (map header_chunks hs))) \<le> ?L - 12" unfolding H using L by simp
    from buf_writer.write_all_fits[OF r0 this] show ?thesis unfolding H using that by auto
  qed
  have c1: "c1 = \<lparr>buf_data = ?base + length H, buf_len = ?L - 12 - length H\<rparr>" "rd m1 ?base (length H) = H"
    using 1(2) by (cases c1; auto simp: bw_rel_def)+
  define m2 where "m2 = wr m1 (?D + 4) (write_be_u32 (of_nat (length H)))"
  have off2: "agree_off ?R m m2" unfolding m2_def using L
    by (intro agree_off_trans[OF agree_off_mono[OF 1(3)] agree_off_wr]) auto
  have "pre m2" by (rule pre_frame[OF pre agree_off_on[OF off2]]) (use F in blast)
  have sub: "{buf_data c1..<buf_data c1 + buf_len c1} \<subseteq> ?R" unfolding c1 using L by auto
  from sub have F1: "{buf_data c1..<buf_data c1 + buf_len c1} \<inter> F = {}" using F by blast
  obtain m3 where 3: "rdr c1 m2 = Some (GG_ERR_OK, c1\<lparr>buf_len := length pl\<rparr>, m3)"
    "rd m3 (buf_data c1) (length pl) = pl" "agree_off {buf_data c1..<buf_data c1 + buf_len c1} m2 m3"
  proof -
    have "length pl \<le> buf_len c1" "buf_len c1 \<le> SIZE_MAX" using L by (simp_all add: c1 SIZE_MAX_def)
    with \<open>pre m2\<close> F1 that show ?thesis using reads[of m2 c1] by blast
  qed
  have keep: "rd m3 (?D + 4) 4 = write_be_u32 (of_nat (length H))" "rd m3 (?D + 12) (length H) = H"
    using rd_off[OF 3(3), of "?D + 4" 4] rd_off[OF 3(3), of ?base "length H"] c1
    by (simp_all add: m2_def rd_wr_same' rd_wr_disjoint)
  have pl: "rd m3 (?D + 12 + length H) (length pl) = pl" using 3(2) by (simp add: c1 add.assoc)
  let ?m4 = "wr m3 ?D (write_be_u32 (of_nat ?n))"
  let ?pc = "gg_update_crc 0 (rd ?m4 ?D 8)"
  let ?m5 = "wr ?m4 (?D + 8) (write_be_u32 ?pc)"
  let ?m6 = "wr ?m5 (?D + 12 + length H + length pl) (write_be_u32 (gg_update_crc ?pc (rd ?m5 (?D + 8) (?n - 12))))"
  note patch = packet_patch[OF keep pl H_def]
  have run: "headers_encode (gg_buf_writer \<lparr>buf_data = ?base, buf_len = ?L - 12\<rparr>) hs m =
      Some (GG_ERR_OK, \<lparr>wtr_write = Some buf_writer_write, wtr_ctx = c1\<rparr>, m1)"
    by (simp add: gg_buf_writer_def headers_encode_chunks[OF hs] 1(1) with_writer_def)
  have arith: "\<not> UINT32_MAX < ?L" "\<not> ?L < 12" "u32 (buf_data c1 - ?base) = length H" "u32 (length pl) = length pl"
    "u32 (12 + length H + length pl + 4) = ?n" "sub32 (sub32 ?n 8) 4 = ?n - 12"
    using L fits(2) by (simp_all add: c1)
  have c3: "gg_buffer_substr c1 (length pl) SIZE_MAX = \<lparr>buf_data = ?D + 12 + length H + length pl, buf_len = ?L - 12 - length H - length pl\<rparr>"
    using L by (auto simp: gg_buffer_substr_def Let_def c1 SIZE_MAX_def)
  have "eventstream_encode m b hs (Some rdr) = Some (GG_ERR_OK, b\<lparr>buf_len := ?n\<rparr>, ?m6)"
    unfolding eventstream_encode_def Let_def if_not_P[OF arith(1)] if_not_P[OF arith(2)] bc GgBuffer.simps run
      bind.bind_lunit split GgWriter.simps arith(3) m2_def[symmetric] gg_reader_call_def option.case 3(1) arith(4,5)
    using L by (auto simp: c3 arith(6) add.assoc)
  moreover have "agree_off ?R m ?m6"
    using agree_off_trans[OF agree_off_trans[OF off2 agree_off_mono[OF 3(3) sub]] agree_off_mono[OF patch(2)]] L by auto
  ultimately show ?thesis using patch(1) unfolding len by blast
qed

end

section \<open>Decoding inverts encoding\<close>

lemma headers_le: "length hs \<le> length (concat (map header_bytes hs))"
proof (induction hs)
  case (Cons h hs)
  moreover have "1 \<le> length (header_bytes h)" using header_bytes_ne[of h] by linarith
  ultimately show ?case by simp
qed simp

lemma packet_prelude:
  assumes n: "length (es_packet hs pl) < 2 ^ 32"
  defines "H \<equiv> concat (map header_bytes hs)"
  defines "p8 \<equiv> write_be_u32 (of_nat (16 + length H + length pl)) @ write_be_u32 (of_nat (length H))"
  shows "eventstream_decode_prelude (take 12 (es_packet hs pl)) =
    Some (Inr \<lparr>pre_data_len = 4 + length H + length pl, pre_headers_len = length H,
      pre_crc = gg_update_crc (gg_update_crc 0 p8) (write_be_u32 (gg_update_crc 0 p8))\<rparr>)"
proof -
  define ml hl :: "32 word" where "ml = of_nat (16 + length H + length pl)" and "hl = of_nat (length H)"
  let ?pc = "gg_update_crc 0 p8"
  have p8: "p8 = write_be_u32 ml @ write_be_u32 hl" by (simp only: p8_def ml_def hl_def)
  have len: "16 + length H + length pl < 2 ^ 32" using n by (simp add: length_packet H_def)
  have u: "unat ml = 16 + length H + length pl" "unat hl = length H"
    unfolding ml_def hl_def
    using len unat_of_nat_len[of "16 + length H + length pl", where 'a = 32] unat_of_nat_len[of "length H", where 'a = 32]
    by (simp_all del: of_nat_add)
  have t: "take 12 (es_packet hs pl) = p8 @ write_be_u32 ?pc"
    by (simp add: es_packet_def Let_def p8_def H_def del: of_nat_add)
  have s: "substr (p8 @ write_be_u32 ?pc) 0 8 = p8" "substr (p8 @ write_be_u32 ?pc) 8 12 = write_be_u32 ?pc"
    "substr (p8 @ write_be_u32 ?pc) 0 4 = write_be_u32 ml" "substr (p8 @ write_be_u32 ?pc) 4 8 = write_be_u32 hl"
    by (simp_all add: substr_def p8)
  have le: "(16 :: 32 word) \<le> ml" "(12 :: 32 word) \<le> ml" using u by (simp_all add: word_le_nat_alt)
  have w: "\<not> ml < 16" "\<not> ml - 16 < hl" "unat (ml - 12) = 4 + length H + length pl"
    using le u by (simp_all add: not_less word_le_nat_alt unat_sub)
  show ?thesis unfolding t eventstream_decode_prelude_def Let_def s be_read_write
    using w u by (simp add: p8)
qed

lemma decode_packet:
  assumes hs: "list_all hdr_ok hs" and n: "length (es_packet hs pl) < 2 ^ 32"
  shows "\<exists>p. eventstream_decode_prelude (take 12 (es_packet hs pl)) = Some (Inr p) \<and>
    pre_data_len p = length (es_packet hs pl) - 12 \<and>
    eventstream_decode p (drop 12 (es_packet hs pl)) =
      Some (Inr \<lparr>msg_headers = \<lparr>iter_count = length hs, iter_pos = drop 12 (es_packet hs pl)\<rparr>, msg_payload = pl\<rparr>) \<and>
    header_loop \<lparr>iter_count = length hs, iter_pos = drop 12 (es_packet hs pl)\<rparr> = Some hs"
proof -
  define H where "H = concat (map header_bytes hs)"
  let ?p8 = "write_be_u32 (of_nat (16 + length H + length pl)) @ write_be_u32 (of_nat (length H))"
  let ?pc = "gg_update_crc 0 ?p8"
  let ?mc = "gg_update_crc ?pc (write_be_u32 ?pc @ H @ pl)"
  let ?p = "\<lparr>pre_data_len = 4 + length H + length pl, pre_headers_len = length H,
      pre_crc = gg_update_crc ?pc (write_be_u32 ?pc)\<rparr>"
  have data: "drop 12 (es_packet hs pl) = H @ pl @ write_be_u32 ?mc" by (simp add: es_packet_def Let_def H_def)
  let ?d = "H @ pl @ write_be_u32 ?mc"
  have s: "substr ?d 0 (length ?d - 4) = H @ pl" "substr ?d (length ?d - 4) (length ?d) = write_be_u32 ?mc"
    "substr ?d 0 (length H) = H" "substr ?d (length H) (length ?d - 4) = pl"
    by (simp_all add: substr_def)
  have crc: "gg_update_crc (gg_update_crc ?pc (write_be_u32 ?pc)) (H @ pl) = ?mc" by (simp add: update_crc_append)
  have "length H < 2 ^ 32" using n by (simp add: length_packet H_def)
  moreover have "length hs \<le> length H" unfolding H_def
    by (rule headers_le)
  ultimately have count: "count_headers H = Inr (length hs)"
    using count_loop_bytes[OF hs, of 0] by (simp add: count_headers_def H_def)
  have loop: "header_loop \<lparr>iter_count = length hs, iter_pos = ?d\<rparr> = Some hs"
    using header_loop_bytes[OF hs, of "pl @ write_be_u32 ?mc"] by (simp add: H_def)
  have "eventstream_decode ?p ?d = Some (Inr \<lparr>msg_headers = \<lparr>iter_count = length hs, iter_pos = ?d\<rparr>, msg_payload = pl\<rparr>)"
    unfolding eventstream_decode_def Let_def EventStreamPrelude.simps s be_read_write crc count
    by (simp del: of_nat_add add: loop)
  then show ?thesis
    using packet_prelude[OF n, folded H_def] loop unfolding data by (intro exI[of _ ?p]) (simp add: length_packet H_def[symmetric])
qed

section \<open>Properties\<close>

text \<open>C3: For every payload source that keeps its contract (it writes the payload \<open>pl\<close> to the front of
  the buffer it is given, and depends on memory outside the packet buffer only), encoding a packet
  whose headers have legal lengths into a buffer that is large enough succeeds, writes inside the
  buffer only, and decoding the bytes of the packet gives back the headers and the payload.\<close>

theorem eventstream_roundtrip:
  assumes "payload_reader rdr pre F pl" "list_all hdr_ok hs" "pre m"
    "{buf_data b..<buf_data b + buf_len b} \<inter> F = {}"
    "16 + length (concat (map header_bytes hs)) + length pl \<le> buf_len b" "buf_len b \<le> UINT32_MAX"
  shows "\<exists>b' m' prelude msg. eventstream_encode m b hs (Some rdr) = Some (GG_ERR_OK, b', m') \<and>
    agree_off {buf_data b..<buf_data b + buf_len b} m m' \<and> buf_data b' = buf_data b \<and> buf_len b' \<le> buf_len b \<and>
    eventstream_decode_prelude (take 12 (contents m' b')) = Some (Inr prelude) \<and>
    12 + pre_data_len prelude = buf_len b' \<and>
    eventstream_decode prelude (drop 12 (contents m' b')) = Some (Inr msg) \<and>
    msg_payload msg = pl \<and> header_loop (msg_headers msg) = Some hs"
proof -
  have fits: "length (es_packet hs pl) \<le> buf_len b" using assms(5) by (simp add: length_packet)
  obtain m' where m': "eventstream_encode m b hs (Some rdr) = Some (GG_ERR_OK, b\<lparr>buf_len := length (es_packet hs pl)\<rparr>, m')"
    "rd m' (buf_data b) (length (es_packet hs pl)) = es_packet hs pl" "agree_off {buf_data b..<buf_data b + buf_len b} m m'"
    using payload_reader.encode_packet[OF assms(1,2,3,4) fits assms(6)] by blast
  have c: "contents m' (b\<lparr>buf_len := length (es_packet hs pl)\<rparr>) = es_packet hs pl" using m'(2) by (simp add: contents_def)
  have "length (es_packet hs pl) < 2 ^ 32" using fits assms(6) by (simp add: UINT32_MAX_def)
  from decode_packet[OF assms(2) this] obtain p where p: "eventstream_decode_prelude (take 12 (es_packet hs pl)) = Some (Inr p)"
    "pre_data_len p = length (es_packet hs pl) - 12"
    "eventstream_decode p (drop 12 (es_packet hs pl)) =
      Some (Inr \<lparr>msg_headers = \<lparr>iter_count = length hs, iter_pos = drop 12 (es_packet hs pl)\<rparr>, msg_payload = pl\<rparr>)"
    "header_loop \<lparr>iter_count = length hs, iter_pos = drop 12 (es_packet hs pl)\<rparr> = Some hs" by blast
  show ?thesis using m'(1,3) fits p c
    by (intro exI[of _ "b\<lparr>buf_len := length (es_packet hs pl)\<rparr>"] exI[of _ m'] exI[of _ p]) (auto simp: length_packet)
qed

theorem eventstream_roundtrip_witness:
  "\<exists>b' m' prelude msg. eventstream_encode (\<lambda>_. 0) \<lparr>buf_data = 4096, buf_len = 64\<rparr>
      [\<lparr>hdr_name = str '':stream-id'', hdr_value = EVENTSTREAM_INT32 7\<rparr>]
      (Some (\<lambda>b m. Some (GG_ERR_OK, b\<lparr>buf_len := 2\<rparr>, wr m (buf_data b) (str ''{}'')))) = Some (GG_ERR_OK, b', m') \<and>
    eventstream_decode_prelude (take 12 (contents m' b')) = Some (Inr prelude) \<and>
    eventstream_decode prelude (drop 12 (contents m' b')) = Some (Inr msg) \<and>
    msg_payload msg = str ''{}'' \<and>
    header_loop (msg_headers msg) = Some [\<lparr>hdr_name = str '':stream-id'', hdr_value = EVENTSTREAM_INT32 7\<rparr>]"
proof -
  let ?rdr = "\<lambda>b m. Some (GG_ERR_OK, b\<lparr>buf_len := 2\<rparr>, wr m (buf_data b) (str ''{}''))"
  let ?hs = "[\<lparr>hdr_name = str '':stream-id'', hdr_value = EVENTSTREAM_INT32 7\<rparr>]"
  have "payload_reader ?rdr (\<lambda>_. True) {} (str ''{}'')"
    by unfold_locales (auto simp: str_def rd_wr_same' intro!: agree_off_wr)
  moreover have "list_all hdr_ok ?hs" "16 + length (concat (map header_bytes ?hs)) + length (str ''{}'') \<le> 64"
    by (simp_all add: hdr_ok_def str_def header_bytes_int)
  ultimately show ?thesis
    using eventstream_roundtrip[of ?rdr "\<lambda>_. True" "{}" "str ''{}''" ?hs "\<lambda>_. 0" "\<lparr>buf_data = 4096, buf_len = 64\<rparr>"]
    by (auto simp: UINT32_MAX_def)
qed



end
