(* ===== verification/Socket.thy ===== *)
theory Socket
  imports File Eventstream
begin

text \<open>
  Sockets (\<open>src/socket.c\<close>) and the event loop over them (\<open>src/socket_epoll.c\<close>). A socket is read
  through the loop of theory \<open>File\<close>, so the client above sees a stream of bytes however the kernel
  delivers it; the locale \<open>byte_stream\<close> is that view, and packets are received through it.
\<close>

section \<open>Definitions\<close>

definition gg_socket_read :: "rd_ev list \<Rightarrow> nat \<Rightarrow> (bytes res \<times> rd_ev list) run" where
  "gg_socket_read evs n = gg_file_read_exact evs n"

definition gg_socket_write :: "wr_ev list \<Rightarrow> bytes \<Rightarrow> (GgError \<times> bytes \<times> wr_ev list) run" where
  "gg_socket_write evs buf = gg_file_write evs buf"

definition socket_reader_fn :: "rd_ev list input_fn" where
  "socket_reader_fn evs n = gg_file_read evs n"

definition gg_socket_reader :: "rd_ev list input_fn" where
  "gg_socket_reader = socket_reader_fn"

text \<open>The length of \<open>sun_path\<close>.\<close>

definition SUN_PATH_LEN :: nat where "SUN_PATH_LEN = 108"

text \<open>\<open>cleanup_close\<close> runs on every return until the descriptor is handed over.\<close>

definition fail_close :: "os \<Rightarrow> nat \<Rightarrow> GgError \<Rightarrow> (nat res \<times> os) run" where
  "fail_close os fd err = do { (_, os) \<leftarrow> gg_close os fd; Some (Inl err, os) }"

definition gg_connect :: "bytes \<Rightarrow> os \<Rightarrow> (nat res \<times> os) run" where
  "gg_connect path os =
     (if length path \<ge> SUN_PATH_LEN then Some (Inl GG_ERR_FAILURE, os)
      else do {
        (sockfd, os) \<leftarrow> sys_new_fd os;
        case sockfd of
          None \<Rightarrow> Some (Inl GG_ERR_FATAL, os)
        | Some sockfd \<Rightarrow> do {
            (ok, os) \<leftarrow> sys_status os;
            if \<not> ok then fail_close os sockfd GG_ERR_FAILURE
            else do {
              (ok, os) \<leftarrow> sys_status os;
              if \<not> ok then fail_close os sockfd GG_ERR_FATAL
              else do {
                (ok, os) \<leftarrow> sys_status os;
                if \<not> ok then fail_close os sockfd GG_ERR_FATAL
                else Some (Inr sockfd, os)
              }
            }
          }
      })"

definition gg_socket_epoll_create :: "os \<Rightarrow> (nat res \<times> os) run" where
  "gg_socket_epoll_create os = do {
     (fd, os) \<leftarrow> sys_new_fd os;
     Some (case fd of None \<Rightarrow> Inl GG_ERR_FAILURE | Some fd \<Rightarrow> Inr fd, os)
   }"

definition gg_socket_epoll_add :: "int \<Rightarrow> int \<Rightarrow> os \<Rightarrow> (GgError \<times> os) run" where
  "gg_socket_epoll_add epoll_fd target_fd os = do {
     c_assert (epoll_fd \<ge> 0);
     c_assert (target_fd \<ge> 0);
     (ok, os) \<leftarrow> sys_status os;
     Some (if ok then GG_ERR_OK else GG_ERR_FAILURE, os)
   }"

text \<open>The event loop. \<open>epoll_wait\<close> reports ready descriptors (their data words, ten at most) or fails; the
  callback \<open>fd_ready\<close> runs on each. The loop ends only with an error.\<close>

datatype ep_ev = Ready "(64 word) list" | WaitErr errno

fun ready_loop :: "('s \<Rightarrow> 64 word \<Rightarrow> (GgError \<times> 's) run) \<Rightarrow> 's \<Rightarrow> (64 word) list \<Rightarrow> (GgError \<times> 's) run" where
  "ready_loop fd_ready s [] = Some (GG_ERR_OK, s)"
| "ready_loop fd_ready s (data # rest) = do {
     (ret, s) \<leftarrow> fd_ready s data;
     if ret \<noteq> GG_ERR_OK then Some (ret, s) else ready_loop fd_ready s rest
   }"

fun gg_socket_epoll_run :: "('s \<Rightarrow> 64 word \<Rightarrow> (GgError \<times> 's) run) \<Rightarrow> 's \<Rightarrow> ep_ev list \<Rightarrow> (GgError \<times> 's) run" where
  "gg_socket_epoll_run fd_ready s [] = None"
| "gg_socket_epoll_run fd_ready s (WaitErr e # evs) =
     (if e = EINTR then gg_socket_epoll_run fd_ready s evs else Some (GG_ERR_FAILURE, s))"
| "gg_socket_epoll_run fd_ready s (Ready ds # evs) = do {
     (ret, s) \<leftarrow> ready_loop fd_ready s (take 10 ds);
     if ret \<noteq> GG_ERR_OK then Some (ret, s) else gg_socket_epoll_run fd_ready s evs
   }"

section \<open>Descriptors\<close>

lemma fail_close_fds: "fail_close os fd e = Some (r, os') \<Longrightarrow> r = Inl e \<and> os_fds os' = remove1 fd (os_fds os)"
  by (auto simp: fail_close_def run_simps dest: gg_close_fds)

text \<open>No path through \<open>gg_connect\<close> leaks its socket.\<close>

lemma gg_connect_fds:
  assumes "gg_connect path os = Some (r, os')"
  shows "case r of Inl e \<Rightarrow> e \<noteq> GG_ERR_OK \<and> os_fds os' = os_fds os
    | Inr fd \<Rightarrow> fd \<notin> set (os_fds os) \<and> os_fds os' = fd # os_fds os"
  using assms by (auto simp: gg_connect_def split: if_splits elim!: status_bindE new_fd_bindE dest!: fail_close_fds)

section \<open>A socket is a stream of bytes\<close>

text \<open>An input whose reads give the next bytes of a stream.\<close>

locale byte_stream =
  fixes input :: "'r input_fn" and pending :: "'r \<Rightarrow> bytes"
  assumes reads: "n \<le> length (pending r) \<Longrightarrow> \<exists>r'. input r n = Some (Inr (take n (pending r)), r') \<and> pending r' = drop n (pending r)"
begin

lemma read_exact:
  assumes "pending r = xs @ ys" "n = length xs"
  obtains r' where "gg_reader_call_exact input r n = Some (Inr xs, r')" "pending r' = ys"
proof -
  obtain r' where "input r n = Some (Inr xs, r')" "pending r' = ys"
    using reads[of n r] assms by auto
  then show ?thesis using assms that by (simp add: gg_reader_call_exact_def)
qed

text \<open>A packet at the front of the stream is received whole, and the stream continues after it.\<close>

lemma get_packet_at:
  assumes hs: "list_all hdr_ok hs" and r: "pending r = es_packet hs pl @ rest"
    and fits: "length (es_packet hs pl) \<le> buffer_len + 12" "12 \<le> buffer_len" "buffer_len \<le> 2 ^ 31"
  shows "\<exists>r'. eventsteam_get_packet input r buffer_len =
      Some (Inr \<lparr>msg_headers = \<lparr>iter_count = length hs, iter_pos = drop 12 (es_packet hs pl)\<rparr>, msg_payload = pl\<rparr>, r') \<and>
    pending r' = rest \<and> header_loop \<lparr>iter_count = length hs, iter_pos = drop 12 (es_packet hs pl)\<rparr> = Some hs"
proof -
  let ?P = "es_packet hs pl"
  have len: "16 \<le> length ?P" by (simp add: length_packet)
  have small: "length ?P < 2 ^ 32" using fits by simp
  obtain p where p: "eventstream_decode_prelude (take 12 ?P) = Some (Inr p)" "pre_data_len p = length ?P - 12"
    "eventstream_decode p (drop 12 ?P) =
      Some (Inr \<lparr>msg_headers = \<lparr>iter_count = length hs, iter_pos = drop 12 ?P\<rparr>, msg_payload = pl\<rparr>)"
    "header_loop \<lparr>iter_count = length hs, iter_pos = drop 12 ?P\<rparr> = Some hs"
    using decode_packet[OF hs small] by blast
  have r12: "pending r = take 12 ?P @ drop 12 ?P @ rest" using r by simp
  obtain r1 where r1: "gg_reader_call_exact input r 12 = Some (Inr (take 12 ?P), r1)" "pending r1 = drop 12 ?P @ rest"
    using read_exact[OF r12, of 12] len by auto
  obtain r2 where r2: "gg_reader_call_exact input r1 (length ?P - 12) = Some (Inr (drop 12 ?P), r2)" "pending r2 = rest"
    using read_exact[OF r1(2), of "length ?P - 12"] by auto
  show ?thesis
    using p r1 r2 fits by (auto simp: eventsteam_get_packet_def)
qed

lemma get_packet:
  assumes hs: "list_all hdr_ok hs" and r: "pending r = es_packet hs pl @ rest"
    and fits: "length (es_packet hs pl) \<le> buffer_len + 12" "12 \<le> buffer_len" "buffer_len \<le> 2 ^ 31"
  shows "\<exists>r' msg. eventsteam_get_packet input r buffer_len = Some (Inr msg, r') \<and> pending r' = rest \<and>
    msg_payload msg = pl \<and> header_loop (msg_headers msg) = Some hs"
  using get_packet_at[OF assms] by force

end

interpretation sock: byte_stream gg_socket_reader arriving
  by unfold_locales (simp add: gg_socket_reader_def socket_reader_fn_def gg_file_read_arriving)

text \<open>C20: A packet is received from a socket exactly as it was sent, however the kernel cuts the stream into pieces
  and interrupts the reads: the message has the packet's headers and payload, and the stream continues with the
  bytes after the packet.\<close>

theorem gg_socket_packet_received:
  assumes "list_all hdr_ok hs" "arriving evs = es_packet hs pl @ rest" "length (es_packet hs pl) \<le> buffer_len + 12"
    "12 \<le> buffer_len" "buffer_len \<le> 2 ^ 31"
  shows "\<exists>evs' msg. eventsteam_get_packet gg_socket_reader evs buffer_len = Some (Inr msg, evs') \<and> arriving evs' = rest \<and>
    msg_payload msg = pl \<and> header_loop (msg_headers msg) = Some hs"
  by (rule sock.get_packet[OF assms])

theorem gg_socket_packet_received_witness:
  "\<exists>evs' msg. eventsteam_get_packet gg_socket_reader
      [Arrived (take 7 (es_packet [] [1, 2])), ReadErr EINTR, Arrived (drop 7 (es_packet [] [1, 2]) @ [9])] 100 = Some (Inr msg, evs') \<and>
    arriving evs' = [9] \<and> msg_payload msg = [1, 2]"
proof -
  have "length (es_packet [] [1, 2]) \<le> 100 + 12" by (simp add: length_packet)
  then show ?thesis
    using gg_socket_packet_received[of "[]" "[Arrived (take 7 (es_packet [] [1, 2])), ReadErr EINTR, Arrived (drop 7 (es_packet [] [1, 2]) @ [9])]"
        "[1, 2]" "[9]" 100] by auto
qed

end
