(* ===== verification/Json_Parse.thy ===== *)
theory Json_Parse
  imports Buffer
begin

unbundle bit_operations_syntax

text \<open>
  The JSON grammar of \<open>src/json_decode.c\<close>: parsers are data, built from the combinators, and
  \<open>parser_call\<close> runs them on a buffer in memory, which they only read. A call that runs out of
  fuel is \<^const>\<open>None\<close>; the code has no fuel, and \<open>parser_terminates\<close> shows that on every
  buffer some fuel is enough for every parser of the file, after which more fuel changes nothing
  (\<open>parser_fuel_mono\<close>).
\<close>

section \<open>Definitions\<close>

datatype JsonType = JSON_TYPE_STR | JSON_TYPE_NUMBER | JSON_TYPE_OBJECT | JSON_TYPE_ARRAY
  | JSON_TYPE_TRUE | JSON_TYPE_FALSE | JSON_TYPE_NULL

record ParseResult =
  pr_type :: JsonType
  pr_content :: GgBuffer
  pr_count :: nat

definition PARSE_RESULT_INIT :: ParseResult where
  "PARSE_RESULT_INIT = \<lparr>pr_type = JSON_TYPE_NULL, pr_content = \<lparr>buf_data = NULL, buf_len = 0\<rparr>, pr_count = 0\<rparr>"

text \<open>The function of a parser with its context; \<open>PARSER_JSON_VALUE\<close> stands for the address of the
  recursive parser.\<close>

datatype Parser =
    COMB_ONE_OF "Parser list"
  | COMB_SEQUENCE "Parser list"
  | COMB_ZERO_OR_MORE Parser
  | COMB_MAYBE Parser
  | COMB_NESTED Parser
  | COMB_RESULT_VAL JsonType Parser
  | COMB_INCREMENT_COUNT Parser
  | PARSER_CHAR byte
  | PARSER_STR bytes
  | PARSER_CHAR_RANGE byte byte
  | PARSER_JSON_STR_CODEPOINT
  | PARSER_JSON_VALUE

text \<open>The outcome of a parser: whether it matched, the buffer, and the output record (\<^const>\<open>None\<close> for
  NULL).\<close>

type_synonym outcome = "bool \<times> GgBuffer \<times> ParseResult option"

definition parser_char_fn :: "byte \<Rightarrow> mem \<Rightarrow> GgBuffer \<Rightarrow> bool \<times> GgBuffer" where
  "parser_char_fn c m buf =
     (if buf_len buf < 1 then (False, buf)
      else if m (buf_data buf) \<noteq> c then (False, buf)
      else (True, gg_buffer_substr buf 1 SIZE_MAX))"

definition parser_str_fn :: "bytes \<Rightarrow> mem \<Rightarrow> GgBuffer \<Rightarrow> bool \<times> GgBuffer" where
  "parser_str_fn s m buf =
     (if buf_len buf < length s then (False, buf)
      else if memcmp s (rd m (buf_data buf) (length s)) (length s) \<noteq> 0 then (False, buf)
      else (True, gg_buffer_substr buf (length s) SIZE_MAX))"

definition parser_char_range_fn :: "byte \<Rightarrow> byte \<Rightarrow> mem \<Rightarrow> GgBuffer \<Rightarrow> bool \<times> GgBuffer" where
  "parser_char_range_fn start end' m buf =
     (if buf_len buf < 1 then (False, buf)
      else let c = m (buf_data buf) in
      if sint c < sint start \<or> sint c > sint end' then (False, buf)
      else (True, gg_buffer_substr buf 1 SIZE_MAX))"

definition utf8_cont :: "byte \<Rightarrow> bool" where
  "utf8_cont b \<longleftrightarrow> b AND 0xC0 = 0x80"

definition utf8_lead_len :: "byte \<Rightarrow> nat" where
  "utf8_lead_len b = (if b AND 0x80 = 0 then 1 else if b AND 0xE0 = 0xC0 then 2
     else if b AND 0xF0 = 0xE0 then 3 else if b AND 0xF8 = 0xF0 then 4 else 0)"

definition parser_json_str_codepoint_fn :: "mem \<Rightarrow> GgBuffer \<Rightarrow> bool \<times> GgBuffer" where
  "parser_json_str_codepoint_fn m buf =
     (if buf_len buf < 1 then (False, buf)
      else let b = m (buf_data buf) in
      if b \<le> 0x1F then (False, buf)
      else if b = chr CHR ''\"'' then (False, buf)
      else if b = chr (CHR 0x5C) then (False, buf)
      else if utf8_cont b then (False, buf)
      else let utf8_len = utf8_lead_len b in
      if utf8_len = 0 then (False, buf)
      else if buf_len buf < utf8_len then (False, buf)
      else if list_all (\<lambda>i. utf8_cont (m (buf_data buf + i))) [1..<utf8_len]
      then (True, gg_buffer_substr buf utf8_len SIZE_MAX)
      else (False, buf))"

text \<open>The static parsers.\<close>

abbreviation ch :: "char \<Rightarrow> Parser" where "ch c \<equiv> PARSER_CHAR (chr c)"

definition PARSER_DIGIT :: Parser where
  "PARSER_DIGIT = PARSER_CHAR_RANGE (chr CHR ''0'') (chr CHR ''9'')"

definition PARSER_HEX_DIGIT :: Parser where
  "PARSER_HEX_DIGIT = COMB_ONE_OF [PARSER_DIGIT, PARSER_CHAR_RANGE (chr CHR ''A'') (chr CHR ''F''),
     PARSER_CHAR_RANGE (chr CHR ''a'') (chr CHR ''f'')]"

definition PARSER_JSON_STR_ESCAPE :: Parser where
  "PARSER_JSON_STR_ESCAPE = COMB_SEQUENCE [ch (CHR 0x5C),
     COMB_ONE_OF [ch CHR ''\"'', ch (CHR 0x5C), ch CHR ''/'', ch CHR ''b'', ch CHR ''f'', ch CHR ''n'',
       ch CHR ''r'', ch CHR ''t'',
       COMB_SEQUENCE [ch CHR ''u'', PARSER_HEX_DIGIT, PARSER_HEX_DIGIT, PARSER_HEX_DIGIT, PARSER_HEX_DIGIT]]]"

definition PARSER_JSON_WHITESPACE :: Parser where
  "PARSER_JSON_WHITESPACE = COMB_ZERO_OR_MORE (COMB_ONE_OF
     [ch CHR '' '', ch (CHR 0x0A), ch (CHR 0x0D), ch (CHR 0x09)])"

definition PARSER_JSON_STR :: Parser where
  "PARSER_JSON_STR = COMB_SEQUENCE [ch CHR ''\"'',
     COMB_RESULT_VAL JSON_TYPE_STR (COMB_ZERO_OR_MORE (COMB_ONE_OF [PARSER_JSON_STR_CODEPOINT, PARSER_JSON_STR_ESCAPE])),
     ch CHR ''\"'']"

definition PARSER_INT_PART :: Parser where
  "PARSER_INT_PART = COMB_SEQUENCE [COMB_MAYBE (ch CHR ''-''),
     COMB_ONE_OF [ch CHR ''0'',
       COMB_SEQUENCE [PARSER_CHAR_RANGE (chr CHR ''1'') (chr CHR ''9''), COMB_ZERO_OR_MORE PARSER_DIGIT]]]"

definition PARSER_FRAC_PART :: Parser where
  "PARSER_FRAC_PART = COMB_SEQUENCE [ch CHR ''.'', COMB_ZERO_OR_MORE PARSER_DIGIT]"

definition PARSER_EXPONENT :: Parser where
  "PARSER_EXPONENT = COMB_SEQUENCE [COMB_ONE_OF [ch CHR ''e'', ch CHR ''E''],
     COMB_MAYBE (COMB_ONE_OF [ch CHR ''+'', ch CHR ''-'']), PARSER_DIGIT, COMB_ZERO_OR_MORE PARSER_DIGIT]"

definition PARSER_JSON_NUMBER :: Parser where
  "PARSER_JSON_NUMBER = COMB_RESULT_VAL JSON_TYPE_NUMBER
     (COMB_SEQUENCE [PARSER_INT_PART, COMB_MAYBE PARSER_FRAC_PART, COMB_MAYBE PARSER_EXPONENT])"

definition PARSER_JSON_OBJECT_KV :: Parser where
  "PARSER_JSON_OBJECT_KV = COMB_NESTED (COMB_SEQUENCE [PARSER_JSON_STR, PARSER_JSON_WHITESPACE, ch CHR '':'', PARSER_JSON_VALUE])"

definition PARSER_JSON_OBJECT :: Parser where
  "PARSER_JSON_OBJECT = COMB_SEQUENCE [ch CHR ''{'', PARSER_JSON_WHITESPACE,
     COMB_RESULT_VAL JSON_TYPE_OBJECT (COMB_MAYBE (COMB_SEQUENCE [
       COMB_ZERO_OR_MORE (COMB_INCREMENT_COUNT (COMB_SEQUENCE [PARSER_JSON_OBJECT_KV, ch CHR '','', PARSER_JSON_WHITESPACE])),
       COMB_INCREMENT_COUNT PARSER_JSON_OBJECT_KV])),
     ch CHR ''}'']"

definition PARSER_JSON_ARRAY_ELEM :: Parser where
  "PARSER_JSON_ARRAY_ELEM = COMB_NESTED PARSER_JSON_VALUE"

definition PARSER_JSON_ARRAY :: Parser where
  "PARSER_JSON_ARRAY = COMB_SEQUENCE [ch CHR ''['', PARSER_JSON_WHITESPACE,
     COMB_RESULT_VAL JSON_TYPE_ARRAY (COMB_MAYBE (COMB_SEQUENCE [
       COMB_ZERO_OR_MORE (COMB_INCREMENT_COUNT (COMB_SEQUENCE [PARSER_JSON_ARRAY_ELEM, ch CHR '',''])),
       COMB_INCREMENT_COUNT PARSER_JSON_ARRAY_ELEM])),
     ch CHR '']'']"

definition PARSER_JSON_TRUE :: Parser where
  "PARSER_JSON_TRUE = COMB_RESULT_VAL JSON_TYPE_TRUE (PARSER_STR (str ''true''))"

definition PARSER_JSON_FALSE :: Parser where
  "PARSER_JSON_FALSE = COMB_RESULT_VAL JSON_TYPE_FALSE (PARSER_STR (str ''false''))"

definition PARSER_JSON_NULL :: Parser where
  "PARSER_JSON_NULL = COMB_RESULT_VAL JSON_TYPE_NULL (PARSER_STR (str ''null''))"

text \<open>What \<open>PARSER_JSON_VALUE\<close> is defined as.\<close>

definition json_value_parser :: Parser where
  "json_value_parser = COMB_SEQUENCE [PARSER_JSON_WHITESPACE,
     COMB_ONE_OF [PARSER_JSON_STR, PARSER_JSON_NUMBER, PARSER_JSON_OBJECT, PARSER_JSON_ARRAY,
       PARSER_JSON_TRUE, PARSER_JSON_FALSE, PARSER_JSON_NULL],
     PARSER_JSON_WHITESPACE]"

text \<open>The combinators. A parser that ignores the output leaves it as it is.\<close>

definition no_output :: "bool \<times> GgBuffer \<Rightarrow> ParseResult option \<Rightarrow> outcome run" where
  "no_output r out = Some (fst r, snd r, out)"

text \<open>Each combinator takes the call of the parsers it combines as its first argument; the loop of
  \<open>comb_zero_or_more_fn\<close> has the number of turns it may make.\<close>

type_synonym call = "Parser \<Rightarrow> GgBuffer \<Rightarrow> ParseResult option \<Rightarrow> outcome run"

fun comb_one_of_fn :: "call \<Rightarrow> Parser list \<Rightarrow> GgBuffer \<Rightarrow> ParseResult option \<Rightarrow> outcome run" where
  "comb_one_of_fn call [] buf out = Some (False, buf, out)"
| "comb_one_of_fn call (p # ps) buf out = do {
     (matches, buf, out) \<leftarrow> call p buf out;
     if matches then Some (True, buf, out) else comb_one_of_fn call ps buf out
   }"

fun comb_sequence_loop :: "call \<Rightarrow> Parser list \<Rightarrow> GgBuffer \<Rightarrow> ParseResult option \<Rightarrow> outcome run" where
  "comb_sequence_loop call [] buf_copy out = Some (True, buf_copy, out)"
| "comb_sequence_loop call (p # ps) buf_copy out = do {
     (matches, buf_copy, out) \<leftarrow> call p buf_copy out;
     if \<not> matches then Some (False, buf_copy, out) else comb_sequence_loop call ps buf_copy out
   }"

definition comb_sequence_fn :: "call \<Rightarrow> Parser list \<Rightarrow> GgBuffer \<Rightarrow> ParseResult option \<Rightarrow> outcome run" where
  "comb_sequence_fn call ps buf out = do {
     (matches, buf_copy, out) \<leftarrow> comb_sequence_loop call ps buf out;
     Some (matches, if matches then buf_copy else buf, out)
   }"

fun comb_zero_or_more_fn :: "nat \<Rightarrow> call \<Rightarrow> Parser \<Rightarrow> GgBuffer \<Rightarrow> ParseResult option \<Rightarrow> outcome run" where
  "comb_zero_or_more_fn 0 call p buf out = None"
| "comb_zero_or_more_fn (Suc n) call p buf out = do {
     (matches, buf, out) \<leftarrow> call p buf out;
     if matches then comb_zero_or_more_fn n call p buf out else Some (True, buf, out)
   }"

definition comb_maybe_fn :: "call \<Rightarrow> Parser \<Rightarrow> GgBuffer \<Rightarrow> ParseResult option \<Rightarrow> outcome run" where
  "comb_maybe_fn call p buf out = do {
     (matches, buf, out) \<leftarrow> call p buf out;
     Some (True, buf, out)
   }"

definition comb_nested_fn :: "call \<Rightarrow> Parser \<Rightarrow> GgBuffer \<Rightarrow> ParseResult option \<Rightarrow> outcome run" where
  "comb_nested_fn call p buf out = do {
     (matches, buf, _) \<leftarrow> call p buf None;
     Some (matches, buf, out)
   }"

definition comb_result_val_fn :: "call \<Rightarrow> JsonType \<Rightarrow> Parser \<Rightarrow> GgBuffer \<Rightarrow> ParseResult option \<Rightarrow> outcome run" where
  "comb_result_val_fn call t p buf out = do {
     let match_data = buf_data buf;
     (matches, buf, out) \<leftarrow> call p buf out;
     let match' = \<lparr>buf_data = match_data, buf_len = buf_data buf - match_data\<rparr>;
     Some (matches, buf,
       if matches then map_option (\<lambda>r. r\<lparr>pr_type := t, pr_content := match'\<rparr>) out else out)
   }"

definition comb_increment_count_fn :: "call \<Rightarrow> Parser \<Rightarrow> GgBuffer \<Rightarrow> ParseResult option \<Rightarrow> outcome run" where
  "comb_increment_count_fn call p buf out = do {
     (matches, buf, out) \<leftarrow> call p buf out;
     Some (matches, buf, if matches then map_option (\<lambda>r. r\<lparr>pr_count := pr_count r + 1\<rparr>) out else out)
   }"

text \<open>What a parser does, given the call of other parsers and the turns its loop may make.\<close>

definition parser_fn :: "nat \<Rightarrow> call \<Rightarrow> mem \<Rightarrow> call" where
  "parser_fn n call m p buf out =
     (case p of
        COMB_ONE_OF ps \<Rightarrow> comb_one_of_fn call ps buf out
      | COMB_SEQUENCE ps \<Rightarrow> comb_sequence_fn call ps buf out
      | COMB_ZERO_OR_MORE q \<Rightarrow> comb_zero_or_more_fn n call q buf out
      | COMB_MAYBE q \<Rightarrow> comb_maybe_fn call q buf out
      | COMB_NESTED q \<Rightarrow> comb_nested_fn call q buf out
      | COMB_RESULT_VAL t q \<Rightarrow> comb_result_val_fn call t q buf out
      | COMB_INCREMENT_COUNT q \<Rightarrow> comb_increment_count_fn call q buf out
      | PARSER_CHAR c \<Rightarrow> no_output (parser_char_fn c m buf) out
      | PARSER_STR s \<Rightarrow> no_output (parser_str_fn s m buf) out
      | PARSER_CHAR_RANGE s e \<Rightarrow> no_output (parser_char_range_fn s e m buf) out
      | PARSER_JSON_STR_CODEPOINT \<Rightarrow> no_output (parser_json_str_codepoint_fn m buf) out
      | PARSER_JSON_VALUE \<Rightarrow> call json_value_parser buf out)"

primrec parser_call :: "nat \<Rightarrow> mem \<Rightarrow> call" where
  "parser_call 0 m = (\<lambda>p buf out. None)"
| "parser_call (Suc n) m = parser_fn n (parser_call n m) m"

section \<open>More fuel changes nothing\<close>

definition le_run :: "'a run \<Rightarrow> 'a run \<Rightarrow> bool" where
  "le_run x y \<longleftrightarrow> x = None \<or> x = y"

lemma le_run_refl: "le_run x x" and le_run_None: "le_run None y"
  by (simp_all add: le_run_def)

lemma le_run_bind: "le_run x y \<Longrightarrow> (\<And>a. le_run (f a) (g a)) \<Longrightarrow> le_run (Option.bind x f) (Option.bind y g)"
  by (cases x) (auto simp: le_run_def, metis)

lemma le_run_if: "le_run x x' \<Longrightarrow> le_run y y' \<Longrightarrow> le_run (if c then x else y) (if c then x' else y')"
  by simp

lemma le_run_prod: "(\<And>a b c. le_run (f a b c) (g a b c)) \<Longrightarrow> le_run (case r of (a, b, c) \<Rightarrow> f a b c) (case r of (a, b, c) \<Rightarrow> g a b c)"
  by (cases r) simp

lemmas le_run_intros = le_run_refl le_run_None le_run_bind le_run_if le_run_prod

definition call_le :: "call \<Rightarrow> call \<Rightarrow> bool" where
  "call_le f g \<longleftrightarrow> (\<forall>p buf out. le_run (f p buf out) (g p buf out))"

lemma call_leD: "call_le f g \<Longrightarrow> le_run (f p buf out) (g p buf out)"
  by (simp add: call_le_def)

lemma one_of_mono:
  assumes "call_le f g"
  shows "le_run (comb_one_of_fn f ps buf out) (comb_one_of_fn g ps buf out)"
  by (induction ps arbitrary: buf out) (auto intro!: le_run_intros call_leD[OF assms])

lemma sequence_mono:
  assumes "call_le f g"
  shows "le_run (comb_sequence_loop f ps buf out) (comb_sequence_loop g ps buf out)"
  by (induction ps arbitrary: buf out) (auto intro!: le_run_intros call_leD[OF assms])

lemma zero_or_more_mono:
  assumes "call_le f g"
  shows "n \<le> k \<Longrightarrow> le_run (comb_zero_or_more_fn n f p buf out) (comb_zero_or_more_fn k g p buf out)"
proof (induction n arbitrary: buf out k)
  case (Suc n)
  then obtain k' where "k = Suc k'" "n \<le> k'" by (cases k) auto
  with Suc show ?case by (auto intro!: le_run_intros call_leD[OF assms])
qed (simp add: le_run_None)

lemma parser_fn_mono:
  assumes "call_le f g" "n \<le> k"
  shows "call_le (parser_fn n f m) (parser_fn k g m)"
  unfolding call_le_def parser_fn_def
  by (auto simp: comb_sequence_fn_def comb_maybe_fn_def comb_nested_fn_def comb_result_val_fn_def comb_increment_count_fn_def Let_def
      intro!: le_run_bind le_run_prod le_run_refl call_leD[OF assms(1)] one_of_mono sequence_mono zero_or_more_mono assms
      split: Parser.split)

lemma parser_call_le: "n \<le> k \<Longrightarrow> call_le (parser_call n m) (parser_call k m)"
proof (induction n arbitrary: k)
  case (Suc n)
  then obtain k' where "k = Suc k'" "n \<le> k'" by (cases k) auto
  with Suc.IH[of k'] show ?case by (simp add: parser_fn_mono)
qed (simp add: call_le_def le_run_None)

lemma parser_fuel_mono: "parser_call n m p buf out = Some r \<Longrightarrow> n \<le> k \<Longrightarrow> parser_call k m p buf out = Some r"
  using call_leD[OF parser_call_le[of n k m], of p buf out] by (auto simp: le_run_def)

section \<open>What parsers do to the buffer\<close>

text \<open>Parsers that consume input whenever they match.\<close>

fun consumes :: "Parser \<Rightarrow> bool" where
  "consumes (COMB_ONE_OF ps) = list_all consumes ps"
| "consumes (COMB_SEQUENCE ps) = list_ex consumes ps"
| "consumes (COMB_ZERO_OR_MORE p) = False"
| "consumes (COMB_MAYBE p) = False"
| "consumes (COMB_NESTED p) = consumes p"
| "consumes (COMB_RESULT_VAL t p) = consumes p"
| "consumes (COMB_INCREMENT_COUNT p) = consumes p"
| "consumes (PARSER_STR s) = (s \<noteq> [])"
| "consumes _ = True"

definition advance :: "GgBuffer \<Rightarrow> nat \<Rightarrow> GgBuffer" where
  "advance buf k = \<lparr>buf_data = buf_data buf + k, buf_len = buf_len buf - k\<rparr>"

lemma advance_0 [simp]: "advance buf 0 = buf" by (simp add: advance_def)

lemma advance_advance [simp]: "advance (advance buf j) k = advance buf (j + k)" by (simp add: advance_def)

lemma advance_sel [simp]: "buf_data (advance buf k) = buf_data buf + k" "buf_len (advance buf k) = buf_len buf - k"
  by (simp_all add: advance_def)

lemma substr_advance: "k \<le> buf_len buf \<Longrightarrow> buf_len buf \<le> SIZE_MAX \<Longrightarrow> gg_buffer_substr buf k SIZE_MAX = advance buf k"
  by (auto simp: gg_buffer_substr_def advance_def Let_def)

text \<open>The contract of a parser: a match consumes a prefix, otherwise the buffer is as before.\<close>

definition moves :: "bool \<Rightarrow> bool \<Rightarrow> GgBuffer \<Rightarrow> GgBuffer \<Rightarrow> bool" where
  "moves strict matches buf buf' \<longleftrightarrow>
     (if matches then \<exists>k \<le> buf_len buf. (strict \<longrightarrow> 0 < k) \<and> buf' = advance buf k else buf' = buf)"

definition call_ok :: "call \<Rightarrow> bool" where
  "call_ok f \<longleftrightarrow> (\<forall>p buf out matches buf' out'. f p buf out = Some (matches, buf', out') \<longrightarrow> buf_len buf \<le> SIZE_MAX \<longrightarrow>
     moves (consumes p) matches buf buf')"

lemma call_okD: "call_ok f \<Longrightarrow> f p buf out = Some (matches, buf', out') \<Longrightarrow> buf_len buf \<le> SIZE_MAX \<Longrightarrow> moves (consumes p) matches buf buf'"
  unfolding call_ok_def by blast

lemma moves_trans:
  "moves s1 True buf buf1 \<Longrightarrow> moves s2 True buf1 buf2 \<Longrightarrow> (s \<Longrightarrow> s1 \<or> s2) \<Longrightarrow> moves s True buf buf2"
proof -
  assume "moves s1 True buf buf1" "moves s2 True buf1 buf2" and s: "s \<Longrightarrow> s1 \<or> s2"
  then obtain j k where "j \<le> buf_len buf" "s1 \<longrightarrow> 0 < j" "k \<le> buf_len buf - j" "s2 \<longrightarrow> 0 < k" "buf2 = advance buf (j + k)"
    by (auto simp: moves_def)
  with s show ?thesis by (simp add: moves_def) (rule exI[of _ "j + k"], auto)
qed

lemma moves_len: "moves s b buf buf' \<Longrightarrow> buf_len buf' \<le> buf_len buf"
  by (auto simp: moves_def split: if_splits)

lemma one_of_moves:
  assumes "call_ok f"
  shows "comb_one_of_fn f ps buf out = Some (b, buf', out') \<Longrightarrow> buf_len buf \<le> SIZE_MAX \<Longrightarrow> moves (list_all consumes ps) b buf buf'"
proof (induction ps arbitrary: buf out)
  case (Cons p ps)
  from Cons.prems(1) obtain c buf1 out1 where 1: "f p buf out = Some (c, buf1, out1)"
    "(if c then Some (True, buf1, out1) else comb_one_of_fn f ps buf1 out1) = Some (b, buf', out')"
    by (auto simp: bind_Some_iff)
  from call_okD[OF assms 1(1) Cons.prems(2)] 1(2) Cons.IH[of buf out1] Cons.prems(2) show ?case
    by (cases c) (auto simp: moves_def split: if_splits)
qed (simp add: moves_def)

lemma sequence_moves:
  assumes "call_ok f"
  shows "comb_sequence_loop f ps buf out = Some (True, buf', out') \<Longrightarrow> buf_len buf \<le> SIZE_MAX \<Longrightarrow> moves (list_ex consumes ps) True buf buf'"
proof (induction ps arbitrary: buf out)
  case Nil
  then show ?case by (auto simp: moves_def intro: exI[of _ 0])
next
  case (Cons p ps)
  from Cons.prems(1) obtain c buf1 out1 where 1: "f p buf out = Some (c, buf1, out1)"
    "(if \<not> c then Some (False, buf1, out1) else comb_sequence_loop f ps buf1 out1) = Some (True, buf', out')"
    by (auto simp: bind_Some_iff)
  then have c: "c" "comb_sequence_loop f ps buf1 out1 = Some (True, buf', out')" by (auto split: if_splits)
  have m1: "moves (consumes p) True buf buf1" using call_okD[OF assms 1(1) Cons.prems(2)] c(1) by simp
  from Cons.IH[OF c(2)] moves_len[OF m1] Cons.prems(2) have "moves (list_ex consumes ps) True buf1 buf'" by simp
  from moves_trans[OF m1 this] show ?case by simp
qed

lemma zero_or_more_moves:
  assumes "call_ok f"
  shows "comb_zero_or_more_fn n f p buf out = Some (b, buf', out') \<Longrightarrow> buf_len buf \<le> SIZE_MAX \<Longrightarrow> b \<and> moves False True buf buf'"
proof (induction n arbitrary: buf out)
  case (Suc n)
  from Suc.prems(1) obtain c buf1 out1 where 1: "f p buf out = Some (c, buf1, out1)"
    "(if c then comb_zero_or_more_fn n f p buf1 out1 else Some (True, buf1, out1)) = Some (b, buf', out')"
    by (auto simp: bind_Some_iff)
  note m1 = call_okD[OF assms 1(1) Suc.prems(2)]
  show ?case
  proof (cases c)
    case True
    with Suc.IH[of buf1 out1] 1(2) moves_len[OF m1] Suc.prems(2) have "b \<and> moves False True buf1 buf'" by simp
    with moves_trans[of "consumes p" buf buf1 False buf' False] m1 True show ?thesis by simp
  next
    case False
    with 1(2) m1 show ?thesis by (auto simp: moves_def intro: exI[of _ 0])
  qed
qed simp

lemma no_output_eq: "no_output r out = Some (b, buf', out') \<longleftrightarrow> r = (b, buf') \<and> out' = out"
  by (cases r) (auto simp: no_output_def)

lemma leaf_moves:
  assumes "buf_len buf \<le> SIZE_MAX"
  shows "parser_char_fn c m buf = (b, buf') \<Longrightarrow> moves True b buf buf'"
    "parser_str_fn s m buf = (b, buf') \<Longrightarrow> moves (s \<noteq> []) b buf buf'"
    "parser_char_range_fn x y m buf = (b, buf') \<Longrightarrow> moves True b buf buf'"
    "parser_json_str_codepoint_fn m buf = (b, buf') \<Longrightarrow> moves True b buf buf'"
  using assms
  by (auto simp: parser_char_fn_def parser_str_fn_def parser_char_range_fn_def parser_json_str_codepoint_fn_def Let_def
      substr_advance not_less moves_def split: if_splits intro: exI[of _ 1])

lemma consumes_json_value: "consumes json_value_parser"
  by code_simp

lemma parser_fn_ok:
  assumes "call_ok f"
  shows "call_ok (parser_fn n f m)"
  unfolding call_ok_def
proof (intro allI impI)
  fix p buf out b buf' out'
  assume r: "parser_fn n f m p buf out = Some (b, buf', out')" and len: "buf_len buf \<le> SIZE_MAX"
  note ok = call_okD[OF assms _ len]
  show "moves (consumes p) b buf buf'"
  proof (cases p)
    case (COMB_ONE_OF ps)
    with r one_of_moves[OF assms _ len] show ?thesis by (simp add: parser_fn_def)
  next
    case (COMB_SEQUENCE ps)
    with r sequence_moves[OF assms _ len] show ?thesis
      by (cases b) (auto simp: parser_fn_def comb_sequence_fn_def bind_Some_iff moves_def)
  next
    case (COMB_ZERO_OR_MORE q)
    with r zero_or_more_moves[OF assms _ len, of n q out b buf' out'] show ?thesis by (simp add: parser_fn_def)
  next
    case (COMB_MAYBE q)
    with r obtain c o1 where "f q buf out = Some (c, buf', o1)" "b" by (auto simp: parser_fn_def comb_maybe_fn_def bind_Some_iff)
    with ok[of q out c buf' o1] COMB_MAYBE show ?thesis by (cases c) (auto simp: moves_def intro: exI[of _ 0])
  next
    case PARSER_JSON_VALUE
    with r ok[of json_value_parser] show ?thesis by (auto simp: parser_fn_def consumes_json_value)
  qed (use r ok leaf_moves[OF len] in \<open>auto simp: parser_fn_def comb_nested_fn_def comb_result_val_fn_def comb_increment_count_fn_def
      bind_Some_iff Let_def no_output_eq\<close>)
qed

lemma parser_call_ok: "call_ok (parser_call n m)"
  by (induction n) (auto simp: parser_fn_ok, simp add: call_ok_def)

lemmas parser_moves = call_okD[OF parser_call_ok]

section \<open>Termination\<close>

text \<open>Parsers whose loops repeat a parser that consumes, and parsers that do not reach the recursive
  parser before they have consumed something.\<close>

fun wf_parser :: "Parser \<Rightarrow> bool" where
  "wf_parser (COMB_ONE_OF ps) = list_all wf_parser ps"
| "wf_parser (COMB_SEQUENCE ps) = list_all wf_parser ps"
| "wf_parser (COMB_ZERO_OR_MORE p) = (consumes p \<and> wf_parser p)"
| "wf_parser (COMB_MAYBE p) = wf_parser p"
| "wf_parser (COMB_NESTED p) = wf_parser p"
| "wf_parser (COMB_RESULT_VAL t p) = wf_parser p"
| "wf_parser (COMB_INCREMENT_COUNT p) = wf_parser p"
| "wf_parser _ = True"

fun guarded :: "Parser \<Rightarrow> bool" where
  "guarded (COMB_ONE_OF []) = True"
| "guarded (COMB_ONE_OF (p # ps)) = (guarded p \<and> guarded (COMB_ONE_OF ps))"
| "guarded (COMB_SEQUENCE []) = True"
| "guarded (COMB_SEQUENCE (p # ps)) = (guarded p \<and> (consumes p \<or> guarded (COMB_SEQUENCE ps)))"
| "guarded (COMB_ZERO_OR_MORE p) = guarded p"
| "guarded (COMB_MAYBE p) = guarded p"
| "guarded (COMB_NESTED p) = guarded p"
| "guarded (COMB_RESULT_VAL t p) = guarded p"
| "guarded (COMB_INCREMENT_COUNT p) = guarded p"
| "guarded PARSER_JSON_VALUE = False"
| "guarded _ = True"

lemma json_value_wf: "wf_parser json_value_parser" "guarded json_value_parser"
  by code_simp+

definition total :: "mem \<Rightarrow> Parser \<Rightarrow> GgBuffer \<Rightarrow> bool" where
  "total m p buf \<longleftrightarrow> (\<forall>out. \<exists>n. parser_call n m p buf out \<noteq> None)"

lemma total_fn: "total m p buf \<longleftrightarrow> (\<forall>out. \<exists>n. parser_fn n (parser_call n m) m p buf out \<noteq> None)"
proof -
  have "(\<exists>n. parser_call n m p buf out \<noteq> None) \<longleftrightarrow> (\<exists>n. parser_fn n (parser_call n m) m p buf out \<noteq> None)" for out
    by (metis not0_implies_Suc parser_call.simps)
  then show ?thesis by (simp add: total_def)
qed

lemma call_mono: "parser_call n m p buf out = Some r \<Longrightarrow> parser_call (n + k) m p buf out = Some r"
  by (erule parser_fuel_mono) simp

lemma totalE:
  assumes "total m p buf"
  obtains n matches buf' out' where "\<And>k. n \<le> k \<Longrightarrow> parser_call k m p buf out = Some (matches, buf', out')"
proof -
  obtain n where "parser_call n m p buf out \<noteq> None" using assms unfolding total_def by blast
  then obtain b buf' out' where "parser_call n m p buf out = Some (b, buf', out')" by auto
  with that parser_fuel_mono show thesis by blast
qed

lemma le_run_Some: "le_run x y \<Longrightarrow> x = Some r \<Longrightarrow> y = Some r"
  by (auto simp: le_run_def)

lemma total_one_of:
  assumes "total m p buf" "buf_len buf \<le> SIZE_MAX" "total m (COMB_ONE_OF ps) buf"
  shows "total m (COMB_ONE_OF (p # ps)) buf"
  unfolding total_fn
proof
  fix out
  obtain n b buf1 o1 where n: "\<And>k. n \<le> k \<Longrightarrow> parser_call k m p buf out = Some (b, buf1, o1)" using totalE[OF assms(1)] by metis
  show "\<exists>n. parser_fn n (parser_call n m) m (COMB_ONE_OF (p # ps)) buf out \<noteq> None"
  proof (cases b)
    case True
    then show ?thesis using n[OF order_refl] by (intro exI[of _ n]) (simp add: parser_fn_def)
  next
    case False
    with parser_moves[OF n[OF order_refl] assms(2)] have "buf1 = buf" by (simp add: moves_def)
    from assms(3) obtain k where "comb_one_of_fn (parser_call k m) ps buf o1 \<noteq> None"
      unfolding total_fn parser_fn_def Parser.case by blast
    then obtain r where "comb_one_of_fn (parser_call k m) ps buf o1 = Some r" by blast
    then have "comb_one_of_fn (parser_call (n + k) m) ps buf o1 = Some r"
      by (rule le_run_Some[OF one_of_mono[OF parser_call_le], rotated -1]) simp
    then show ?thesis using n[of "n + k"] False \<open>buf1 = buf\<close> by (intro exI[of _ "n + k"]) (simp add: parser_fn_def)
  qed
qed

lemma total_sequence:
  assumes "total m p buf" "\<And>n out buf1 o1. parser_call n m p buf out = Some (True, buf1, o1) \<Longrightarrow> total m (COMB_SEQUENCE ps) buf1"
  shows "total m (COMB_SEQUENCE (p # ps)) buf"
  unfolding total_fn
proof
  fix out
  obtain n b buf1 o1 where n: "\<And>k. n \<le> k \<Longrightarrow> parser_call k m p buf out = Some (b, buf1, o1)" using totalE[OF assms(1)] by metis
  show "\<exists>n. parser_fn n (parser_call n m) m (COMB_SEQUENCE (p # ps)) buf out \<noteq> None"
  proof (cases b)
    case False
    then show ?thesis using n[OF order_refl] by (intro exI[of _ n]) (simp add: parser_fn_def comb_sequence_fn_def)
  next
    case True
    from assms(2)[of n out buf1 o1] n[OF order_refl] True have "total m (COMB_SEQUENCE ps) buf1" by simp
    then obtain k where "comb_sequence_fn (parser_call k m) ps buf1 o1 \<noteq> None"
      unfolding total_fn parser_fn_def Parser.case by blast
    then obtain r where "comb_sequence_loop (parser_call k m) ps buf1 o1 = Some r"
      by (cases "comb_sequence_loop (parser_call k m) ps buf1 o1") (simp_all add: comb_sequence_fn_def)
    then have "comb_sequence_loop (parser_call (n + k) m) ps buf1 o1 = Some r"
      by (rule le_run_Some[OF sequence_mono[OF parser_call_le], rotated -1]) simp
    then show ?thesis using n[of "n + k"] True
      by (intro exI[of _ "n + k"]) (simp add: parser_fn_def comb_sequence_fn_def split: prod.split)
  qed
qed

lemma total_zero_or_more:
  assumes "total m p buf" "\<And>n out buf1 o1. parser_call n m p buf out = Some (True, buf1, o1) \<Longrightarrow> total m (COMB_ZERO_OR_MORE p) buf1"
  shows "total m (COMB_ZERO_OR_MORE p) buf"
  unfolding total_fn
proof
  fix out
  obtain n b buf1 o1 where n: "\<And>k. n \<le> k \<Longrightarrow> parser_call k m p buf out = Some (b, buf1, o1)" using totalE[OF assms(1)] by metis
  show "\<exists>n. parser_fn n (parser_call n m) m (COMB_ZERO_OR_MORE p) buf out \<noteq> None"
  proof (cases b)
    case False
    then show ?thesis using n[of "Suc n"] by (intro exI[of _ "Suc n"]) (simp add: parser_fn_def)
  next
    case True
    from assms(2)[of n out buf1 o1] n[OF order_refl] True have "total m (COMB_ZERO_OR_MORE p) buf1" by simp
    then obtain k where "comb_zero_or_more_fn k (parser_call k m) p buf1 o1 \<noteq> None"
      unfolding total_fn parser_fn_def Parser.case by blast
    then obtain r where "comb_zero_or_more_fn k (parser_call k m) p buf1 o1 = Some r" by blast
    then have "comb_zero_or_more_fn (n + k) (parser_call (Suc (n + k)) m) p buf1 o1 = Some r"
      by (rule le_run_Some[OF zero_or_more_mono[OF parser_call_le], rotated -1]) simp_all
    then show ?thesis using n[of "Suc (n + k)"] True
      by (intro exI[of _ "Suc (n + k)"]) (simp add: parser_fn_def del: parser_call.simps)
  qed
qed

lemma total_wrap:
  assumes "total m p buf"
  shows "total m (COMB_MAYBE p) buf" "total m (COMB_NESTED p) buf" "total m (COMB_RESULT_VAL t p) buf"
    "total m (COMB_INCREMENT_COUNT p) buf"
proof -
  have *: "\<exists>n. parser_fn n (parser_call n m) m q buf out \<noteq> None"
    if "q \<in> {COMB_MAYBE p, COMB_NESTED p, COMB_RESULT_VAL t p, COMB_INCREMENT_COUNT p}" for q out
  proof -
    obtain n b buf' o' where 1: "\<And>k. n \<le> k \<Longrightarrow> parser_call k m p buf out = Some (b, buf', o')" using totalE[OF assms] by metis
    obtain n' b2 buf2 o2 where 2: "\<And>k. n' \<le> k \<Longrightarrow> parser_call k m p buf None = Some (b2, buf2, o2)" using totalE[OF assms] by metis
    have "parser_call (n + n') m p buf out = Some (b, buf', o')" "parser_call (n + n') m p buf None = Some (b2, buf2, o2)"
      using 1 2 by simp_all
    then show ?thesis using that
      by (intro exI[of _ "n + n'"]) (auto simp: parser_fn_def comb_maybe_fn_def comb_nested_fn_def comb_result_val_fn_def
          comb_increment_count_fn_def Let_def)
  qed
  then show "total m (COMB_MAYBE p) buf" "total m (COMB_NESTED p) buf" "total m (COMB_RESULT_VAL t p) buf"
    "total m (COMB_INCREMENT_COUNT p) buf" by (simp_all add: total_fn)
qed

lemma total_leaf:
  "total m (COMB_ONE_OF []) buf" "total m (COMB_SEQUENCE []) buf" "total m (PARSER_CHAR c) buf" "total m (PARSER_STR s) buf"
  "total m (PARSER_CHAR_RANGE x y) buf" "total m PARSER_JSON_STR_CODEPOINT buf"
  by (simp_all add: total_fn parser_fn_def no_output_def comb_sequence_fn_def)

lemma total_at:
  assumes len: "buf_len buf \<le> SIZE_MAX"
    and shorter: "\<And>p buf'. wf_parser p \<Longrightarrow> buf_len buf' < buf_len buf \<Longrightarrow> total m p buf'"
    and rec: "J \<Longrightarrow> total m PARSER_JSON_VALUE buf"
  shows "wf_parser p \<Longrightarrow> J \<or> guarded p \<Longrightarrow> total m p buf"
proof (induction p rule: guarded.induct)
  case (2 p ps)
  then show ?case by (intro total_one_of[OF _ len]) auto
next
  case (4 p ps)
  have wf: "wf_parser p" "wf_parser (COMB_SEQUENCE ps)" using 4(3) by auto
  show ?case
  proof (rule total_sequence)
    show "total m p buf" using 4(1,4) wf by auto
    fix n out buf1 o1 assume "parser_call n m p buf out = Some (True, buf1, o1)"
    from parser_moves[OF this len] obtain k where k: "k \<le> buf_len buf" "consumes p \<Longrightarrow> 0 < k" "buf1 = advance buf k"
      by (auto simp: moves_def)
    show "total m (COMB_SEQUENCE ps) buf1"
    proof (cases "k = 0")
      case True
      with k 4 wf show ?thesis by auto
    next
      case False
      with k wf show ?thesis by (intro shorter) auto
    qed
  qed
next
  case (5 p)
  show ?case
  proof (rule total_zero_or_more)
    show "total m p buf" using 5 by auto
    fix n out buf1 o1 assume "parser_call n m p buf out = Some (True, buf1, o1)"
    from parser_moves[OF this len] 5(2) have "buf_len buf1 < buf_len buf" by (auto simp: moves_def)
    with 5(2) show "total m (COMB_ZERO_OR_MORE p) buf1" by (intro shorter) auto
  qed
qed (auto intro: total_wrap total_leaf rec)

lemma total_json: "total m json_value_parser buf \<Longrightarrow> total m PARSER_JSON_VALUE buf"
  unfolding total_fn[of _ PARSER_JSON_VALUE] by (simp add: parser_fn_def total_def)

lemma parser_terminates: "wf_parser p \<Longrightarrow> buf_len buf \<le> SIZE_MAX \<Longrightarrow> total m p buf"
proof (induction "buf_len buf" arbitrary: p buf rule: less_induct)
  case less
  have shorter: "\<And>p buf'. wf_parser p \<Longrightarrow> buf_len buf' < buf_len buf \<Longrightarrow> total m p buf'" using less by simp
  have "total m json_value_parser buf"
    using total_at[OF less.prems(2) shorter, where J = False] json_value_wf by simp
  then have J: "total m PARSER_JSON_VALUE buf" by (rule total_json)
  show ?case by (rule total_at[OF less.prems(2) shorter J less.prems(1) disjI1, where J = True]) auto
qed

section \<open>Properties\<close>

text \<open>The parser of JSON values terminates on every buffer, whatever its contents and however deeply
  values are nested: some amount of fuel is enough, and every larger amount gives the same result. If
  it matches it has consumed at least one byte, and never more than the buffer holds; if it does not match,
  the buffer is unchanged.\<close>

theorem json_parser_terminates:
  assumes "buf_len buf \<le> SIZE_MAX"
  shows "\<exists>N matches buf' out'. (\<forall>n \<ge> N. parser_call n m PARSER_JSON_VALUE buf out = Some (matches, buf', out')) \<and>
    (if matches then \<exists>k. 0 < k \<and> k \<le> buf_len buf \<and> buf_data buf' = buf_data buf + k \<and> buf_len buf' = buf_len buf - k
     else buf' = buf)"
proof -
  have "total m PARSER_JSON_VALUE buf" using parser_terminates assms by simp
  then obtain N matches buf' out' where N: "\<And>n. N \<le> n \<Longrightarrow> parser_call n m PARSER_JSON_VALUE buf out = Some (matches, buf', out')"
    using totalE by metis
  from parser_moves[OF N[OF order_refl] assms] have "moves True matches buf buf'" by simp
  then have "if matches then \<exists>k. 0 < k \<and> k \<le> buf_len buf \<and> buf_data buf' = buf_data buf + k \<and> buf_len buf' = buf_len buf - k
     else buf' = buf" by (auto simp: moves_def split: if_splits)
  with N show ?thesis by blast
qed

theorem json_parser_terminates_witness:
  "\<exists>N matches buf' out'. (\<forall>n \<ge> N. parser_call n (\<lambda>_. chr CHR ''['') PARSER_JSON_VALUE \<lparr>buf_data = 8, buf_len = 1000\<rparr> None =
     Some (matches, buf', out'))"
  using json_parser_terminates[of "\<lparr>buf_data = 8, buf_len = 1000\<rparr>" "\<lambda>_. chr CHR ''[''" None] by (auto simp: int_limits)

end
