(* ===== verification/Maps.thy ===== *)
theory Maps
  imports Object "HOL-Library.List_Lexorder" "HOL-Library.Multiset"
begin

text \<open>
  Maps: lookup, path lookup and schema validation (\<open>src/map.c\<close>), and canonical form
  (\<open>src/map_canonical.c\<close>), which sorts the pairs of a map in place and removes duplicate
  keys. A map is an array of pairs in memory; the algorithms are proved on the list of its pairs and
  carried over to memory by the lemmas on \<open>kv_arr\<close>.
\<close>

section \<open>Definitions\<close>

fun map_get_loop :: "mem \<Rightarrow> addr \<Rightarrow> nat \<Rightarrow> bytes \<Rightarrow> addr option" where
  "map_get_loop m pair 0 key = None"
| "map_get_loop m pair (Suc n) key =
     (if gg_buffer_eq key (contents m (gg_kv_key (rd m pair kv_size))) then Some (gg_kv_val pair)
      else map_get_loop m (pair + kv_size) n key)"

text \<open>The result is the return value and what is stored in \<open>*result\<close>.\<close>

definition gg_map_get :: "mem \<Rightarrow> GgMap \<Rightarrow> bytes \<Rightarrow> bool \<times> addr" where
  "gg_map_get m mp key =
     (case map_get_loop m (map_pairs mp) (map_len mp) key of
        Some p \<Rightarrow> (True, p) | None \<Rightarrow> (False, NULL))"

text \<open>A path lookup that fails before the last key stores nothing in \<open>*result\<close>.\<close>

fun map_get_path_loop :: "mem \<Rightarrow> GgMap \<Rightarrow> bytes list \<Rightarrow> (bool \<times> addr option) run" where
  "map_get_path_loop m current [] = None"
| "map_get_path_loop m current [key] =
     (case gg_map_get m current key of (found, item) \<Rightarrow> Some (found, Some item))"
| "map_get_path_loop m current (key # keys) =
     (case gg_map_get m current key of (found, item) \<Rightarrow>
        if \<not> found then Some (False, None)
        else do {
          t \<leftarrow> gg_obj_type (rd m item obj_size);
          if t \<noteq> GG_TYPE_MAP then Some (False, None)
          else do {
            current' \<leftarrow> gg_obj_into_map (rd m item obj_size);
            map_get_path_loop m current' keys
          }
        })"

definition gg_map_get_path :: "mem \<Rightarrow> GgMap \<Rightarrow> bytes list \<Rightarrow> (bool \<times> addr option) run" where
  "gg_map_get_path m mp path = do {
     c_assert (length path \<ge> 1);
     map_get_path_loop m mp path
   }"

datatype GgPresence = GG_PRESENCE_REQUIRED | GG_PRESENCE_OPTIONAL | GG_PRESENCE_MISSING

text \<open>A schema entry; \<open>sch_value\<close> tells whether the entry has an output pointer.\<close>

record GgMapSchemaEntry =
  sch_key :: bytes
  sch_required :: GgPresence
  sch_type :: GgObjectType
  sch_value :: bool

text \<open>Validation returns the error code and, per entry handled so far, what was stored through its
  output pointer.\<close>

fun gg_map_validate :: "mem \<Rightarrow> GgMap \<Rightarrow> GgMapSchemaEntry list \<Rightarrow> (GgError \<times> addr option list) run" where
  "gg_map_validate m mp [] = Some (GG_ERR_OK, [])"
| "gg_map_validate m mp (entry # entries) =
     (case gg_map_get m mp (sch_key entry) of (found, value) \<Rightarrow>
        if \<not> found then
          if sch_required entry = GG_PRESENCE_REQUIRED then Some (GG_ERR_NOENTRY, [])
          else do {
            (ret, outs) \<leftarrow> gg_map_validate m mp entries;
            Some (ret, (if sch_value entry then Some NULL else None) # outs)
          }
        else if sch_required entry = GG_PRESENCE_MISSING then Some (GG_ERR_PARSE, [])
        else do {
          t \<leftarrow> (if sch_type entry \<noteq> GG_TYPE_NULL then gg_obj_type (rd m value obj_size)
               else Some GG_TYPE_NULL);
          if sch_type entry \<noteq> GG_TYPE_NULL \<and> sch_type entry \<noteq> t then Some (GG_ERR_PARSE, [])
          else do {
            (ret, outs) \<leftarrow> gg_map_validate m mp entries;
            Some (ret, (if sch_value entry then Some value else None) # outs)
          }
        })"

fun is_key_less :: "bytes \<Rightarrow> bytes \<Rightarrow> bool" where
  "is_key_less (x # xs) (y # ys) =
     (if x < y then True else if y < x then False else is_key_less xs ys)"
| "is_key_less xs ys = (length xs < length ys)"

abbreviation pair_key :: "mem \<Rightarrow> addr \<Rightarrow> bytes" where
  "pair_key m p \<equiv> contents m (gg_kv_key (rd m p kv_size))"

definition swap_pairs :: "mem \<Rightarrow> addr \<Rightarrow> addr \<Rightarrow> mem" where
  "swap_pairs m lhs rhs =
     (let temp = rd m lhs kv_size; m' = wr m lhs (rd m rhs kv_size) in wr m' rhs temp)"

text \<open>The loop over \<open>i = len, ..., 1\<close>; \<open>pruned\<close> is the literal the orphaned pairs are keyed
  with. The map's length is updated as pairs are dropped.\<close>

fun prune_loop :: "GgBuffer \<Rightarrow> nat \<Rightarrow> mem \<Rightarrow> GgMap \<Rightarrow> (mem \<times> GgMap) run" where
  "prune_loop pruned 0 m val = Some (m, val)"
| "prune_loop pruned (Suc j) m val =
     (let pair = map_pairs val + kv_size * j;
          last' = gg_kv_val pair;
          first' = snd (gg_map_get m val (pair_key m pair))
      in if first' = last' then prune_loop pruned j m val
         else let end' = map_pairs val + kv_size * (map_len val - 1);
                  m1 = (if Suc j \<noteq> map_len val then wr m pair (rd m end' kv_size) else m)
              in do {
                kv \<leftarrow> gg_kv_set_key (rd m1 end' kv_size) pruned;
                let m2 = wr m1 end' kv;
                let m3 = wr m2 (gg_kv_val end') GG_OBJ_NULL;
                prune_loop pruned j m3 (val\<lparr>map_len := map_len val - 1\<rparr>)
              })"

definition prune_duplicates :: "GgBuffer \<Rightarrow> mem \<Rightarrow> GgMap \<Rightarrow> (mem \<times> GgMap) run" where
  "prune_duplicates pruned m val = prune_loop pruned (map_len val) m val"

fun sort_inner :: "mem \<Rightarrow> addr \<Rightarrow> nat \<Rightarrow> mem" where
  "sort_inner m pairs 0 = m"
| "sort_inner m pairs (Suc j) =
     (if is_key_less (pair_key m (pairs + kv_size * Suc j)) (pair_key m (pairs + kv_size * j))
      then sort_inner (swap_pairs m (pairs + kv_size * Suc j) (pairs + kv_size * j)) pairs j
      else m)"

fun sort_from :: "mem \<Rightarrow> addr \<Rightarrow> nat \<Rightarrow> nat \<Rightarrow> mem" where
  "sort_from m pairs i 0 = m"
| "sort_from m pairs i (Suc k) = sort_from (sort_inner m pairs i) pairs (Suc i) k"

definition sort_keys :: "mem \<Rightarrow> GgMap \<Rightarrow> mem" where
  "sort_keys m val = sort_from m (map_pairs val) 0 (map_len val)"

definition gg_map_canonicalize_shallow :: "GgBuffer \<Rightarrow> mem \<Rightarrow> GgMap \<Rightarrow> (mem \<times> GgMap) run" where
  "gg_map_canonicalize_shallow pruned m mp = do {
     (m', map') \<leftarrow> prune_duplicates pruned m mp;
     Some (sort_keys m' map', map')
   }"

definition gg_map_is_canonical :: "mem \<Rightarrow> GgMap \<Rightarrow> bool" where
  "gg_map_is_canonical m mp =
     list_all (\<lambda>i. is_key_less (pair_key m (map_pairs mp + kv_size * (i - 1)))
                     (pair_key m (map_pairs mp + kv_size * i))) [1..<map_len mp]"

text \<open>The same two algorithms on a list whose elements have a key.\<close>

fun prune_list :: "('b \<Rightarrow> bytes) \<Rightarrow> nat \<Rightarrow> 'b list \<Rightarrow> 'b list" where
  "prune_list f 0 xs = xs"
| "prune_list f (Suc j) xs =
     (if \<exists>l < j. f (xs ! l) = f (xs ! j) then prune_list f j (butlast (xs[j := last xs]))
      else prune_list f j xs)"

fun insert_list :: "('b \<Rightarrow> bytes) \<Rightarrow> 'b list \<Rightarrow> nat \<Rightarrow> 'b list" where
  "insert_list f xs 0 = xs"
| "insert_list f xs (Suc j) =
     (if f (xs ! Suc j) < f (xs ! j) then insert_list f (xs[j := xs ! Suc j, Suc j := xs ! j]) j
      else xs)"

fun sort_list_from :: "('b \<Rightarrow> bytes) \<Rightarrow> 'b list \<Rightarrow> nat \<Rightarrow> nat \<Rightarrow> 'b list" where
  "sort_list_from f xs i 0 = xs"
| "sort_list_from f xs i (Suc k) = sort_list_from f (insert_list f xs i) (Suc i) k"

definition canon_list :: "('b \<Rightarrow> bytes) \<Rightarrow> 'b list \<Rightarrow> 'b list" where
  "canon_list f xs =
     (let ys = prune_list f (length xs) xs in sort_list_from f ys 0 (length ys))"

section \<open>Keys\<close>

lemma is_key_less_iff [simp]: "is_key_less xs ys \<longleftrightarrow> xs < ys"
  apply (induction xs ys rule: is_key_less.induct)
  subgoal by (auto simp: not_less)
  subgoal for ys by (cases ys) auto
  subgoal for xs by (cases xs) auto
  done

section \<open>Removing duplicates and sorting, on lists\<close>

text \<open>From position \<open>j\<close> on, every key is new: it occurs nowhere before.\<close>

definition keys_first_from :: "('b \<Rightarrow> bytes) \<Rightarrow> nat \<Rightarrow> 'b list \<Rightarrow> bool" where
  "keys_first_from f j xs \<longleftrightarrow>
     distinct (map f (drop j xs)) \<and> f ` set (drop j xs) \<inter> f ` set (take j xs) = {}"

lemma butlast_move:
  "butlast ((as @ x # bs)[length as := last (as @ x # bs)]) =
     (if bs = [] then as else as @ last bs # butlast bs)"
  by (auto simp: butlast_append)

lemma dup_before:
  "(\<exists>l < length as. f ((as @ x # bs) ! l) = f ((as @ x # bs) ! length as)) \<longleftrightarrow> f x \<in> f ` set as"
proof -
  have "(\<exists>l < length as. f ((as @ x # bs) ! l) = f ((as @ x # bs) ! length as)) \<longleftrightarrow>
      (\<exists>l < length as. f (as ! l) = f x)" by (auto simp: nth_append)
  also have "\<dots> \<longleftrightarrow> f x \<in> f ` set as" by (metis (no_types, lifting) image_iff in_set_conv_nth)
  finally show ?thesis .
qed

lemma find_key_None: "find (\<lambda>x. f x = k) xs = None \<longleftrightarrow> k \<notin> f ` set xs"
  by (auto simp: find_None_iff)

lemma find_key_append:
  "find (\<lambda>x. f x = k) (xs @ ys) =
     (if k \<in> f ` set xs then find (\<lambda>x. f x = k) xs else find (\<lambda>x. f x = k) ys)"
  by (induction xs) auto

lemma find_dup: "f x \<in> f ` set as \<Longrightarrow> find (\<lambda>x. f x = k) (as @ x # bs) = find (\<lambda>x. f x = k) (as @ bs)"
  by (auto simp: find_key_append)

lemma find_move_front:
  "f y \<notin> f ` set cs \<Longrightarrow> find (\<lambda>x. f x = k) (as @ y # cs) = find (\<lambda>x. f x = k) (as @ cs @ [y])"
  using find_key_None[of f k cs] by (auto simp: find_key_append)

lemma prune_list_step:
  assumes inv: "keys_first_from f (Suc j) xs" and j: "j < length xs"
    and dup: "\<exists>l < j. f (xs ! l) = f (xs ! j)"
  defines "ys \<equiv> butlast (xs[j := last xs])"
  shows "keys_first_from f j ys \<and> find (\<lambda>x. f x = k) ys = find (\<lambda>x. f x = k) xs \<and>
    set ys \<subseteq> set xs \<and> j \<le> length ys \<and> length ys \<le> length xs"
proof -
  obtain as x bs where xs: "xs = as @ x # bs" and as: "length as = j"
    using j by (metis id_take_nth_drop length_take less_imp_le_nat min.absorb2)
  have fx: "f x \<in> f ` set as" using dup dup_before[of as f x bs] unfolding xs as[symmetric] by simp
  have ys: "ys = (if bs = [] then as else as @ last bs # butlast bs)"
    unfolding ys_def xs as[symmetric] by (rule butlast_move)
  have inv': "distinct (map f bs)" "f ` set bs \<inter> f ` set (as @ [x]) = {}"
    using inv unfolding keys_first_from_def xs as[symmetric] by auto
  show ?thesis
  proof (cases bs rule: rev_cases)
    case Nil
    then show ?thesis
      using as find_dup[OF fx, of k "[]"] by (auto simp: ys xs keys_first_from_def)
  next
    case (snoc cs y)
    then have ys': "ys = as @ y # cs" using ys by simp
    have "f y \<notin> f ` set cs" using inv'(1) snoc by auto
    then have "find (\<lambda>x. f x = k) ys = find (\<lambda>x. f x = k) xs"
      using find_move_front[of f y cs k as] by (simp add: ys' xs snoc find_dup[OF fx])
    then show ?thesis
      using inv' as by (auto simp: ys' xs snoc keys_first_from_def)
  qed
qed

lemma prune_list_inv:
  "keys_first_from f j xs \<Longrightarrow> j \<le> length xs \<Longrightarrow>
     distinct (map f (prune_list f j xs)) \<and> set (prune_list f j xs) \<subseteq> set xs \<and>
     length (prune_list f j xs) \<le> length xs \<and>
     find (\<lambda>x. f x = k) (prune_list f j xs) = find (\<lambda>x. f x = k) xs"
proof (induction f j xs rule: prune_list.induct)
  case (1 f xs)
  then show ?case by (simp add: keys_first_from_def)
next
  case (2 f j xs)
  show ?case
  proof (cases "\<exists>l < j. f (xs ! l) = f (xs ! j)")
    case True
    have j: "j < length xs" using 2(4) by simp
    show ?thesis using True 2(1)[OF True] prune_list_step[OF 2(3) j True, of k] by auto
  next
    case False
    have "keys_first_from f j xs"
    proof -
      obtain as x bs where xs: "xs = as @ x # bs" and as: "length as = j"
        using 2(4) by (metis Suc_le_eq id_take_nth_drop length_take less_imp_le_nat min.absorb2)
      then show ?thesis using 2(3) False dup_before[of as f x bs]
        by (auto simp: keys_first_from_def)
    qed
    with 2 False show ?thesis by auto
  qed
qed

lemma prune_list_full:
  "distinct (map f (prune_list f (length xs) xs))" "set (prune_list f (length xs) xs) \<subseteq> set xs"
  "length (prune_list f (length xs) xs) \<le> length xs"
  "find (\<lambda>x. f x = k) (prune_list f (length xs) xs) = find (\<lambda>x. f x = k) xs"
  using prune_list_inv[of f "length xs" xs] by (auto simp: keys_first_from_def)

text \<open>Insertion from the right into a sorted prefix.\<close>

lemma insert_list_append:
  "\<exists>ys. insert_list f (as @ x # rest) (length as) = ys @ rest \<and> mset ys = mset (as @ [x]) \<and>
     (sorted (map f as) \<longrightarrow> sorted (map f ys))"
proof (induction as arbitrary: rest rule: rev_induct)
  case (snoc a as)
  show ?case
  proof (cases "f x < f a")
    case True
    from snoc.IH[of "a # rest"] obtain ys where ys:
      "insert_list f (as @ x # a # rest) (length as) = ys @ a # rest" "mset ys = mset (as @ [x])"
      "sorted (map f as) \<longrightarrow> sorted (map f ys)" by blast
    have "sorted (map f (ys @ [a]))" if "sorted (map f (as @ [a]))"
    proof -
      have "set ys = set (as @ [x])" using ys(2) by (metis set_mset_mset)
      then show ?thesis using that ys(3) True by (auto simp: sorted_append)
    qed
    moreover have "insert_list f ((as @ [a]) @ x # rest) (length (as @ [a])) = (ys @ [a]) @ rest"
      using True ys(1) by (simp add: nth_append list_update_append)
    moreover have "mset (ys @ [a]) = mset ((as @ [a]) @ [x])" using ys(2) by simp
    ultimately show ?thesis by blast
  next
    case False
    have "insert_list f ((as @ [a]) @ x # rest) (length (as @ [a])) = ((as @ [a]) @ [x]) @ rest"
      using False by (simp add: nth_append)
    moreover have "sorted (map f ((as @ [a]) @ [x]))" if "sorted (map f (as @ [a]))"
      using that False by (auto simp: sorted_append not_less intro: order_trans)
    ultimately show ?thesis by (intro exI[of _ "(as @ [a]) @ [x]"]) auto
  qed
qed simp

lemma sort_list_from_sorted:
  "i + k = length xs \<Longrightarrow> sorted (map f (take i xs)) \<Longrightarrow>
     sorted (map f (sort_list_from f xs i k)) \<and> mset (sort_list_from f xs i k) = mset xs"
proof (induction f xs i k rule: sort_list_from.induct)
  case (2 f xs i k)
  then obtain as x rest where xs: "xs = as @ x # rest" and i: "length as = i"
    by (metis add_Suc_right id_take_nth_drop length_take less_add_Suc1 less_imp_le_nat min.absorb2)
  from insert_list_append[of f as x rest] obtain ys where ys:
    "insert_list f xs i = ys @ rest" "mset ys = mset (as @ [x])"
    "sorted (map f as) \<longrightarrow> sorted (map f ys)" unfolding xs i by blast
  have "length ys = Suc i" using ys(2) i by (metis length_append_singleton size_mset)
  moreover have "sorted (map f ys)" using 2(3) ys(3) i by (simp add: xs)
  moreover have "Suc i + k = length (ys @ rest)" using 2(2) calculation(1) i by (simp add: xs)
  ultimately show ?case using "2.IH" ys by (auto simp: xs)
qed simp

lemma canon_list_spec:
  "sorted_wrt (<) (map f (canon_list f xs))" "set (canon_list f xs) \<subseteq> set xs"
  "length (canon_list f xs) \<le> length xs"
proof -
  let ?ys = "prune_list f (length xs) xs"
  have s: "sorted (map f (canon_list f xs)) \<and> mset (canon_list f xs) = mset ?ys"
    unfolding canon_list_def Let_def by (rule sort_list_from_sorted) simp_all
  then have "distinct (map f (canon_list f xs))"
    using prune_list_full(1)[of f xs] by (metis mset_eq_imp_distinct_iff mset_map)
  with s show "sorted_wrt (<) (map f (canon_list f xs))" by (simp add: strict_sorted_iff)
  show "set (canon_list f xs) \<subseteq> set xs" "length (canon_list f xs) \<le> length xs"
    using s prune_list_full(2,3)[of f xs] by (metis set_mset_mset, metis size_mset)
qed

lemma find_distinct_perm:
  assumes "distinct (map f xs)" "mset xs = mset ys"
  shows "find (\<lambda>x. f x = k) xs = find (\<lambda>x. f x = k) ys"
proof (cases "find (\<lambda>x. f x = k) xs")
  case None
  then show ?thesis using assms(2) by (metis find_None_iff set_mset_mset)
next
  case (Some x)
  then have x: "x \<in> set ys" "f x = k" using assms(2)
    by (metis find_Some_iff nth_mem set_mset_mset, metis (mono_tags, lifting) find_Some_iff)
  then obtain y where y: "find (\<lambda>x. f x = k) ys = Some y"
    by (cases "find (\<lambda>x. f x = k) ys") (auto simp: find_None_iff)
  then have "y \<in> set ys" "f y = k" by (auto simp: find_Some_iff)
  moreover have "distinct (map f ys)" using assms by (metis mset_eq_imp_distinct_iff mset_map)
  ultimately have "x = y" using x by (auto simp: distinct_map inj_on_def)
  with Some y show ?thesis by simp
qed

lemma find_canon_list: "find (\<lambda>x. f x = k) (canon_list f xs) = find (\<lambda>x. f x = k) xs"
proof -
  let ?ys = "prune_list f (length xs) xs"
  have "mset (canon_list f xs) = mset ?ys"
    unfolding canon_list_def Let_def by (rule sort_list_from_sorted[THEN conjunct2]) simp_all
  then have "find (\<lambda>x. f x = k) (canon_list f xs) = find (\<lambda>x. f x = k) ?ys"
    using prune_list_full(1)[of f xs] by (metis find_distinct_perm)
  then show ?thesis by (simp add: prune_list_full(4))
qed

section \<open>Arrays of pairs in memory\<close>

definition kv_arr :: "mem \<Rightarrow> addr \<Rightarrow> nat \<Rightarrow> GgKV list" where
  "kv_arr m p n = map (\<lambda>i. rd m (p + kv_size * i) kv_size) [0..<n]"

abbreviation arr_reg :: "addr \<Rightarrow> nat \<Rightarrow> addr set" where
  "arr_reg p n \<equiv> {p..<p + kv_size * n}"

abbreviation key_of :: "mem \<Rightarrow> GgKV \<Rightarrow> bytes" where
  "key_of m blk \<equiv> contents m (gg_kv_key blk)"

lemma length_kv_arr [simp]: "length (kv_arr m p n) = n"
  by (simp add: kv_arr_def)

lemma nth_kv_arr [simp]: "i < n \<Longrightarrow> kv_arr m p n ! i = rd m (p + kv_size * i) kv_size"
  by (simp add: kv_arr_def)

lemma kv_arr_set_length: "blk \<in> set (kv_arr m p n) \<Longrightarrow> length blk = kv_size"
  by (auto simp: kv_arr_def)

lemma take_kv_arr: "k \<le> n \<Longrightarrow> take k (kv_arr m p n) = kv_arr m p k"
  by (simp add: kv_arr_def take_map)

lemma kv_arr_wr:
  assumes "j < n" "length blk = kv_size"
  shows "kv_arr (wr m (p + kv_size * j) blk) p n = (kv_arr m p n)[j := blk]"
proof (rule nth_equalityI)
  fix i assume i: "i < length (kv_arr (wr m (p + kv_size * j) blk) p n)"
  show "kv_arr (wr m (p + kv_size * j) blk) p n ! i = (kv_arr m p n)[j := blk] ! i"
  proof (cases "i = j")
    case True
    then show ?thesis using assms by (simp add: rd_wr_same')
  next
    case False
    then have "p + kv_size * i + kv_size \<le> p + kv_size * j \<or> p + kv_size * j + length blk \<le> p + kv_size * i"
      using assms(2) by linarith
    then show ?thesis using i False assms by (simp add: rd_wr_disjoint)
  qed
qed simp

lemma agree_off_wr_kv:
  "j < n \<Longrightarrow> length blk \<le> kv_size \<Longrightarrow> agree_off (arr_reg p n) m (wr m (p + kv_size * j) blk)"
  by (rule agree_off_wr) auto

lemma agree_off_contents:
  "agree_off A m m' \<Longrightarrow> {buf_data b..<buf_data b + buf_len b} \<inter> A = {} \<Longrightarrow> contents m' b = contents m b"
  unfolding contents_def by (rule agree_on_rd[OF agree_off_on, symmetric]) auto

lemma map_get_loop_Some:
  "map_get_loop m p n key = Some q \<longleftrightarrow>
     (\<exists>i < n. q = gg_kv_val (p + kv_size * i) \<and> pair_key m (p + kv_size * i) = key \<and>
        (\<forall>l < i. pair_key m (p + kv_size * l) \<noteq> key))"
proof (induction n arbitrary: p)
  case (Suc n)
  show ?case
  proof (cases "pair_key m p = key")
    case True
    then show ?thesis by (auto intro: exI[of _ 0]) (metis add.right_neutral gr0I mult_0_right)
  next
    case False
    have shift: "p + kv_size * Suc i = (p + kv_size) + kv_size * i" for i by simp
    have "map_get_loop m p (Suc n) key = Some q \<longleftrightarrow>
        (\<exists>i < n. q = gg_kv_val (p + kv_size * Suc i) \<and> pair_key m (p + kv_size * Suc i) = key \<and>
          (\<forall>l < i. pair_key m (p + kv_size * Suc l) \<noteq> key))"
      using False unfolding shift by (simp add: Suc)
    also have "\<dots> \<longleftrightarrow> (\<exists>i < Suc n. q = gg_kv_val (p + kv_size * i) \<and> pair_key m (p + kv_size * i) = key \<and>
        (\<forall>l < i. pair_key m (p + kv_size * l) \<noteq> key))"
      unfolding Ex_less_Suc2 All_less_Suc2 using False by simp
    finally show ?thesis .
  qed
qed simp

lemma map_get_is_first:
  assumes "j < map_len val"
  shows "snd (gg_map_get m val (pair_key m (map_pairs val + kv_size * j))) =
      gg_kv_val (map_pairs val + kv_size * j) \<longleftrightarrow>
    \<not> (\<exists>l < j. pair_key m (map_pairs val + kv_size * l) = pair_key m (map_pairs val + kv_size * j))"
proof -
  let ?k = "\<lambda>i. pair_key m (map_pairs val + kv_size * i)"
  obtain i where i: "i \<le> j" "?k i = ?k j" "\<forall>l < i. ?k l \<noteq> ?k j"
    using exists_least_iff[of "\<lambda>i. ?k i = ?k j"] by (metis linorder_le_less_linear)
  then have "map_get_loop m (map_pairs val) (map_len val) (?k j) = Some (gg_kv_val (map_pairs val + kv_size * i))"
    using assms unfolding map_get_loop_Some by (intro exI[of _ i]) simp
  then have "snd (gg_map_get m val (?k j)) = gg_kv_val (map_pairs val + kv_size * i)"
    by (simp add: gg_map_get_def)
  then show ?thesis using i by (auto simp: gg_kv_val_def) (metis le_neq_implies_less)
qed

text \<open>The key of a block is \<open>f\<close> in every memory that differs from \<open>m0\<close> inside the array only.\<close>

definition keys_fixed :: "addr set \<Rightarrow> mem \<Rightarrow> (GgKV \<Rightarrow> bytes) \<Rightarrow> GgKV list \<Rightarrow> bool" where
  "keys_fixed A m0 f blks \<longleftrightarrow> (\<forall>blk \<in> set blks. \<forall>m. agree_off A m0 m \<longrightarrow> key_of m blk = f blk)"

lemma keys_fixedD: "keys_fixed A m0 f blks \<Longrightarrow> agree_off A m0 m \<Longrightarrow> blk \<in> set blks \<Longrightarrow> key_of m blk = f blk"
  by (auto simp: keys_fixed_def)

lemma keys_fixed_subset: "keys_fixed A m0 f ys \<Longrightarrow> set xs \<subseteq> set ys \<Longrightarrow> keys_fixed A m0 f xs"
  by (auto simp: keys_fixed_def)

lemma pair_key_fixed:
  "keys_fixed A m0 f (kv_arr m p n) \<Longrightarrow> agree_off A m0 m \<Longrightarrow> i < n \<Longrightarrow>
     pair_key m (p + kv_size * i) = f (kv_arr m p n ! i)"
  using keys_fixedD[of A m0 f "kv_arr m p n" m "kv_arr m p n ! i"] nth_mem[of i "kv_arr m p n"] by simp

text \<open>Dropping the pair at \<open>j\<close>: the last pair takes its place and the old last one is overwritten.\<close>

lemma prune_step_mem:
  fixes p :: addr and m :: mem
  assumes "j < len" "len \<le> n" "buf_len pruned < 65536"
  defines "e \<equiv> p + kv_size * (len - 1)"
    and "m1 \<equiv> if Suc j \<noteq> len then wr m (p + kv_size * j) (rd m (p + kv_size * (len - 1)) kv_size) else m"
  shows "\<exists>kv. gg_kv_set_key (rd m1 e kv_size) pruned = Some kv \<and>
    agree_off (arr_reg p n) m (wr (wr m1 e kv) (gg_kv_val e) GG_OBJ_NULL) \<and>
    kv_arr (wr (wr m1 e kv) (gg_kv_val e) GG_OBJ_NULL) p (len - 1) =
      butlast ((kv_arr m p len)[j := last (kv_arr m p len)])"
proof -
  define kv where "kv = le_bytes 8 (buf_data pruned) @ le_bytes 2 (buf_len pruned) @ drop 10 (rd m1 e kv_size)"
  have kv: "gg_kv_set_key (rd m1 e kv_size) pruned = Some kv" "length kv = kv_size"
    using assms(3) by (simp_all add: gg_kv_layout kv_def)
  define m3 where "m3 = wr (wr m1 e kv) (gg_kv_val e) GG_OBJ_NULL"
  have e: "e < p + kv_size * n" "e + kv_size \<le> p + kv_size * n"
    using assms(1,2) unfolding e_def by (auto simp: algebra_simps)
  have a1: "agree_off (arr_reg p n) m m1"
    using assms(1,2) by (auto simp: m1_def intro!: agree_off_wr_kv)
  have a3: "agree_off (arr_reg p n) m1 m3"
    unfolding m3_def using kv(2) e
    by (intro agree_off_trans[OF agree_off_wr agree_off_wr]) (auto simp: gg_kv_val_def e_def)
  have "kv_arr m3 p (len - 1) = kv_arr m1 p (len - 1)"
  proof (rule nth_equalityI)
    fix i assume "i < length (kv_arr m3 p (len - 1))"
    then have "i < len - 1" by simp
    then have "p + kv_size * i + kv_size \<le> e" by (auto simp: e_def)
    then show "kv_arr m3 p (len - 1) ! i = kv_arr m1 p (len - 1) ! i"
      using \<open>i < len - 1\<close> by (simp add: m3_def gg_kv_val_def rd_wr_disjoint)
  qed simp
  also have "\<dots> = take (len - 1) (kv_arr m1 p len)" by (simp add: take_kv_arr)
  also have "kv_arr m1 p len = (kv_arr m p len)[j := last (kv_arr m p len)]"
  proof -
    have ne: "kv_arr m p len \<noteq> []" using assms(1) by (metis length_kv_arr less_nat_zero_code list.size(3))
    have l: "last (kv_arr m p len) = rd m (p + kv_size * (len - 1)) kv_size"
      using assms(1) ne by (simp add: last_conv_nth)
    show ?thesis
    proof (cases "Suc j = len")
      case True
      then have "last (kv_arr m p len) = kv_arr m p len ! j" using ne by (auto simp: last_conv_nth)
      then have "(kv_arr m p len)[j := last (kv_arr m p len)] = kv_arr m p len" by simp
      with True show ?thesis unfolding m1_def by simp
    qed (use assms(1) l in \<open>simp add: m1_def kv_arr_wr\<close>)
  qed
  also have "take (len - 1) \<dots> = butlast \<dots>" by (simp add: butlast_conv_take)
  finally show ?thesis using kv(1) agree_off_trans[OF a1 a3] by (auto simp: m3_def)
qed

lemma prune_loop_refines:
  assumes "buf_len pruned < 65536" and "j \<le> map_len val" and "map_len val \<le> n"
    and "agree_off (arr_reg (map_pairs val) n) m0 m"
    and "keys_fixed (arr_reg (map_pairs val) n) m0 f (kv_arr m (map_pairs val) (map_len val))"
  shows "\<exists>m' val'. prune_loop pruned j m val = Some (m', val') \<and> map_pairs val' = map_pairs val \<and>
     map_len val' \<le> map_len val \<and> agree_off (arr_reg (map_pairs val) n) m0 m' \<and>
     kv_arr m' (map_pairs val) (map_len val') = prune_list f j (kv_arr m (map_pairs val) (map_len val))"
  using assms
proof (induction j arbitrary: m val)
  case (Suc j)
  let ?p = "map_pairs val" and ?len = "map_len val"
  let ?xs = "kv_arr m ?p ?len"
  have j: "j < ?len" using Suc.prems(2) by simp
  have key: "pair_key m (?p + kv_size * i) = f (?xs ! i)" if "i < ?len" for i
    using pair_key_fixed[OF Suc.prems(5,4) that] .
  have dup: "snd (gg_map_get m val (pair_key m (?p + kv_size * j))) = gg_kv_val (?p + kv_size * j) \<longleftrightarrow>
      \<not> (\<exists>l < j. f (?xs ! l) = f (?xs ! j))"
    unfolding map_get_is_first[OF j] using key j order.strict_trans[OF _ j] by (simp cong: conj_cong)
  show ?case
  proof (cases "\<exists>l < j. f (?xs ! l) = f (?xs ! j)")
    case False
    with dup have "prune_loop pruned (Suc j) m val = prune_loop pruned j m val" by simp
    moreover have "prune_list f (Suc j) ?xs = prune_list f j ?xs"
      by (subst prune_list.simps) (simp only: False if_False)
    ultimately show ?thesis using Suc.IH[of val m] Suc.prems by auto
  next
    case True
    let ?e = "?p + kv_size * (?len - 1)"
    let ?m1 = "if Suc j \<noteq> ?len then wr m (?p + kv_size * j) (rd m ?e kv_size) else m"
    let ?ys = "butlast (?xs[j := last ?xs])"
    obtain kv where kv: "gg_kv_set_key (rd ?m1 ?e kv_size) pruned = Some kv"
      and off: "agree_off (arr_reg ?p n) m (wr (wr ?m1 ?e kv) (gg_kv_val ?e) GG_OBJ_NULL)"
      and arr: "kv_arr (wr (wr ?m1 ?e kv) (gg_kv_val ?e) GG_OBJ_NULL) ?p (?len - 1) = ?ys"
      using prune_step_mem[OF j Suc.prems(3,1), of m ?p] by blast
    define m3 where "m3 = wr (wr ?m1 ?e kv) (gg_kv_val ?e) GG_OBJ_NULL"
    define val3 where "val3 = val\<lparr>map_len := ?len - 1\<rparr>"
    have ne: "snd (gg_map_get m val (pair_key m (?p + kv_size * j))) \<noteq> gg_kv_val (?p + kv_size * j)"
      using dup True by simp
    have step: "prune_loop pruned (Suc j) m val = prune_loop pruned j m3 val3"
      by (simp only: prune_loop.simps Let_def ne if_False kv Option.bind.bind_lunit m3_def val3_def)
    have sub: "set ?ys \<subseteq> set ?xs"
      using j by (metis (no_types, lifting) in_set_butlastD insert_subset last_in_set length_0_conv
          length_kv_arr not_less0 set_update_subset_insert subset_iff subset_insert_iff
          insert_absorb)
    have "\<exists>m' val'. prune_loop pruned j m3 val3 = Some (m', val') \<and> map_pairs val' = map_pairs val3 \<and>
        map_len val' \<le> map_len val3 \<and> agree_off (arr_reg (map_pairs val3) n) m0 m' \<and>
        kv_arr m' (map_pairs val3) (map_len val') =
          prune_list f j (kv_arr m3 (map_pairs val3) (map_len val3))"
      using Suc.prems arr off j sub agree_off_trans[OF Suc.prems(4) off]
      by (intro Suc.IH) (auto simp: val3_def m3_def intro: keys_fixed_subset)
    moreover have "prune_list f (Suc j) ?xs = prune_list f j ?ys"
      by (subst prune_list.simps) (simp only: True if_True)
    ultimately show ?thesis using arr unfolding step by (auto simp: val3_def m3_def)
  qed
qed auto

lemma swap_pairs_arr:
  assumes "Suc j < n"
  shows "kv_arr (swap_pairs m (p + kv_size * Suc j) (p + kv_size * j)) p n =
      (kv_arr m p n)[j := kv_arr m p n ! Suc j, Suc j := kv_arr m p n ! j]"
    and "agree_off (arr_reg p n) m (swap_pairs m (p + kv_size * Suc j) (p + kv_size * j))"
proof -
  have d: "rd (wr m (p + kv_size * Suc j) bs) (p + kv_size * j) kv_size = rd m (p + kv_size * j) kv_size" for bs
    by (rule rd_wr_disjoint) simp
  have "kv_arr (swap_pairs m (p + kv_size * Suc j) (p + kv_size * j)) p n =
      (kv_arr m p n)[Suc j := rd m (p + kv_size * j) kv_size, j := rd m (p + kv_size * Suc j) kv_size]"
    unfolding swap_pairs_def Let_def using assms by (subst kv_arr_wr, simp, simp)+ simp
  then show "kv_arr (swap_pairs m (p + kv_size * Suc j) (p + kv_size * j)) p n =
      (kv_arr m p n)[j := kv_arr m p n ! Suc j, Suc j := kv_arr m p n ! j]"
    using assms by (simp add: list_update_swap)
  show "agree_off (arr_reg p n) m (swap_pairs m (p + kv_size * Suc j) (p + kv_size * j))"
    unfolding swap_pairs_def Let_def using assms
    by (intro agree_off_trans[OF agree_off_wr_kv agree_off_wr_kv]) auto
qed

lemma sort_inner_refines:
  "j < n \<Longrightarrow> agree_off (arr_reg p n) m0 m \<Longrightarrow> keys_fixed (arr_reg p n) m0 f (kv_arr m p n) \<Longrightarrow>
     kv_arr (sort_inner m p j) p n = insert_list f (kv_arr m p n) j \<and>
     agree_off (arr_reg p n) m0 (sort_inner m p j) \<and> set (insert_list f (kv_arr m p n) j) = set (kv_arr m p n)"
proof (induction j arbitrary: m)
  case (Suc j)
  have key: "pair_key m (p + kv_size * i) = f (kv_arr m p n ! i)" if "i < n" for i
    using pair_key_fixed[OF Suc.prems(3,2) that] .
  let ?m = "swap_pairs m (p + kv_size * Suc j) (p + kv_size * j)"
  note sw = swap_pairs_arr[OF Suc.prems(1), where m = m and p = p]
  have set: "set (kv_arr ?m p n) = set (kv_arr m p n)"
    unfolding sw(1) using Suc.prems(1) list_update_swap[of j "Suc j" "kv_arr m p n"]
      set_swap[of j "kv_arr m p n" "Suc j"] by (simp del: nth_kv_arr)
  have "kv_arr (sort_inner ?m p j) p n = insert_list f (kv_arr ?m p n) j \<and>
     agree_off (arr_reg p n) m0 (sort_inner ?m p j) \<and> set (insert_list f (kv_arr ?m p n) j) = set (kv_arr ?m p n)"
    using Suc.prems sw(2) set by (intro Suc.IH) (auto intro: agree_off_trans keys_fixed_subset)
  moreover have "sort_inner m p (Suc j) =
      (if f (kv_arr m p n ! Suc j) < f (kv_arr m p n ! j) then sort_inner ?m p j else m)"
    using key[of "Suc j"] key[of j] Suc.prems(1)
    by (simp only: sort_inner.simps is_key_less_iff Suc_lessD)
  ultimately show ?case using set Suc.prems(2)
    by (cases "f (kv_arr m p n ! Suc j) < f (kv_arr m p n ! j)")
      (simp_all add: sw(1)[symmetric] del: nth_kv_arr mult_Suc_right)
qed simp

lemma sort_from_refines:
  "i + k \<le> n \<Longrightarrow> agree_off (arr_reg p n) m0 m \<Longrightarrow> keys_fixed (arr_reg p n) m0 f (kv_arr m p n) \<Longrightarrow>
     kv_arr (sort_from m p i k) p n = sort_list_from f (kv_arr m p n) i k \<and>
     agree_off (arr_reg p n) m0 (sort_from m p i k)"
proof (induction k arbitrary: m i)
  case (Suc k)
  then have "i < n" by simp
  from sort_inner_refines[OF this Suc.prems(2,3)]
  have 1: "kv_arr (sort_inner m p i) p n = insert_list f (kv_arr m p n) i"
    "agree_off (arr_reg p n) m0 (sort_inner m p i)"
    "set (kv_arr (sort_inner m p i) p n) = set (kv_arr m p n)" by simp_all
  have "keys_fixed (arr_reg p n) m0 f (kv_arr (sort_inner m p i) p n)"
    using Suc.prems(3) 1(3) by (auto intro: keys_fixed_subset)
  with Suc.IH[of "Suc i" "sort_inner m p i"] Suc.prems 1 show ?case by simp
qed simp

lemma keys_fixed_mono: "keys_fixed A m0 f xs \<Longrightarrow> B \<subseteq> A \<Longrightarrow> agree_off A m0 m \<Longrightarrow> keys_fixed B m f xs"
  unfolding keys_fixed_def by (metis agree_off_trans agree_off_mono)

lemma canonicalize_refines:
  assumes "buf_len pruned < 65536"
    and fixed: "keys_fixed (arr_reg (map_pairs val) (map_len val)) m f
          (kv_arr m (map_pairs val) (map_len val))"
  shows "\<exists>m' val'. gg_map_canonicalize_shallow pruned m val = Some (m', val') \<and>
     map_pairs val' = map_pairs val \<and> map_len val' \<le> map_len val \<and>
     agree_off (arr_reg (map_pairs val) (map_len val)) m m' \<and>
     kv_arr m' (map_pairs val) (map_len val') = canon_list f (kv_arr m (map_pairs val) (map_len val))"
proof -
  let ?p = "map_pairs val" and ?n = "map_len val"
  let ?A = "arr_reg ?p ?n" and ?xs = "kv_arr m ?p ?n"
  from prune_loop_refines[OF assms(1) order_refl order_refl agree_off_refl fixed] obtain m1 val1 where
    1: "prune_duplicates pruned m val = Some (m1, val1)" "map_pairs val1 = ?p" "map_len val1 \<le> ?n"
      "agree_off ?A m m1" "kv_arr m1 ?p (map_len val1) = prune_list f ?n ?xs"
    by (auto simp: prune_duplicates_def)
  let ?B = "arr_reg ?p (map_len val1)"
  have sub: "?B \<subseteq> ?A" using 1(3) by auto
  have "set (prune_list f ?n ?xs) \<subseteq> set ?xs" using prune_list_full(2)[of f ?xs] by simp
  then have "keys_fixed ?B m1 f (kv_arr m1 ?p (map_len val1))"
    unfolding 1(5) using keys_fixed_mono[OF fixed sub 1(4)] keys_fixed_subset by blast
  from sort_from_refines[OF _ agree_off_refl this, of 0 "map_len val1"]
  have 2: "kv_arr (sort_keys m1 val1) ?p (map_len val1) = sort_list_from f (prune_list f ?n ?xs) 0 (map_len val1)"
    "agree_off ?B m1 (sort_keys m1 val1)" by (simp_all add: sort_keys_def 1(2,5))
  have len: "length (prune_list f ?n ?xs) = map_len val1" using 1(5) by (metis length_kv_arr)
  have "kv_arr (sort_keys m1 val1) ?p (map_len val1) = canon_list f ?xs"
    by (simp add: 2(1) canon_list_def Let_def len)
  moreover have "agree_off ?A m (sort_keys m1 val1)"
    using 1(4) agree_off_mono[OF 2(2) sub] by (rule agree_off_trans)
  ultimately show ?thesis using 1 by (auto simp: gg_map_canonicalize_shallow_def)
qed

section \<open>Maps as lists of pairs\<close>

text \<open>A block and the key and value it stands for; \<open>kv_refs\<close> are the addresses it refers to.\<close>

definition kv_blk :: "mem \<Rightarrow> GgKV \<Rightarrow> bytes \<times> gg_val \<Rightarrow> bool" where
  "kv_blk m blk kv \<longleftrightarrow> key_of m blk = fst kv \<and> val_blk m (drop 10 blk) (snd kv)"

definition kv_refs :: "mem \<Rightarrow> GgKV \<Rightarrow> bytes \<times> gg_val \<Rightarrow> addr set" where
  "kv_refs m blk kv =
     (let d = le_val (take 8 blk) in {d..<d + length (fst kv)}) \<union> blk_foot m (drop 10 blk) (snd kv)"

lemma kvs_at_conv: "kvs_at m p kvs \<longleftrightarrow> list_all2 (kv_blk m) (kv_arr m p (length kvs)) kvs"
proof (induction kvs arbitrary: p)
  case (Cons kv kvs)
  obtain k v where kv: "kv = (k, v)" by (cases kv)
  have "kv_arr m p (Suc (length kvs)) = rd m p kv_size # kv_arr m (p + kv_size) (length kvs)"
    by (rule nth_equalityI) (auto simp: nth_Cons' algebra_simps)
  then show ?case using Cons[of "p + kv_size"]
    by (simp add: kv kv_blk_def gg_kv_val_def)
qed (simp add: kv_arr_def)

lemma kv_blk_frame:
  assumes "kv_blk m blk kv" "agree_on (kv_refs m blk kv) m m'"
  shows "kv_blk m' blk kv"
proof -
  have "length (fst kv) = buf_len (gg_kv_key blk)"
    using assms(1) by (metis kv_blk_def length_contents)
  then have "{buf_data (gg_kv_key blk)..<buf_data (gg_kv_key blk) + buf_len (gg_kv_key blk)} \<subseteq> kv_refs m blk kv"
    by (simp add: kv_refs_def Let_def gg_kv_key_def)
  then have "contents m (gg_kv_key blk) = contents m' (gg_kv_key blk)"
    unfolding contents_def using assms(2) by (rule agree_on_rd[rotated])
  moreover have "val_blk m' (drop 10 blk) (snd kv)"
  proof (rule val_blk_frame)
    show "val_blk m (drop 10 blk) (snd kv)" using assms(1) by (simp add: kv_blk_def)
    show "agree_on (blk_foot m (drop 10 blk) (snd kv)) m m'"
      by (rule agree_on_mono[OF assms(2)]) (simp add: kv_refs_def)
  qed
  ultimately show ?thesis using assms(1) by (simp add: kv_blk_def)
qed

text \<open>Nothing that the pairs refer to lies inside the array that holds them.\<close>

definition kvs_sep :: "mem \<Rightarrow> addr \<Rightarrow> (bytes \<times> gg_val) list \<Rightarrow> bool" where
  "kvs_sep m p kvs \<longleftrightarrow> (\<forall>i < length kvs.
     kv_refs m (rd m (p + kv_size * i) kv_size) (kvs ! i) \<inter> arr_reg p (length kvs) = {})"

lemma prune_list_rel:
  assumes "\<And>x y. R x y \<Longrightarrow> f x = g y"
  shows "list_all2 R xs ys \<Longrightarrow> j \<le> length xs \<Longrightarrow> list_all2 R (prune_list f j xs) (prune_list g j ys)"
proof (induction j arbitrary: xs ys)
  case (Suc j)
  have "f (xs ! l) = g (ys ! l)" if "l < length xs" for l
    using Suc.prems(1) that assms by (auto simp: list_all2_conv_all_nth)
  then have cond: "(\<exists>l < j. f (xs ! l) = f (xs ! j)) \<longleftrightarrow> (\<exists>l < j. g (ys ! l) = g (ys ! j))"
    using Suc.prems(2) by (metis Suc_le_lessD order.strict_trans)
  have ne: "xs \<noteq> []" "ys \<noteq> []" and len: "length xs = length ys"
    using Suc.prems by (auto dest: list_all2_lengthD)
  have "R (last xs) (last ys)"
    using Suc.prems(1) ne len by (simp add: last_conv_nth list_all2_conv_all_nth)
  then have "list_all2 R (butlast (xs[j := last xs])) (butlast (ys[j := last ys]))"
    using Suc.prems(1) len
    by (auto simp: butlast_conv_take intro!: list_all2_takeI list_all2_update_cong)
  with Suc.IH[of xs ys] Suc.IH[of "butlast (xs[j := last xs])" "butlast (ys[j := last ys])"] Suc.prems cond
  show ?case by auto
qed simp

lemma insert_list_rel:
  assumes "\<And>x y. R x y \<Longrightarrow> f x = g y"
  shows "list_all2 R xs ys \<Longrightarrow> j < length xs \<Longrightarrow> list_all2 R (insert_list f xs j) (insert_list g ys j)"
proof (induction j arbitrary: xs ys)
  case (Suc j)
  have R: "R (xs ! l) (ys ! l)" if "l < length xs" for l
    using Suc.prems(1) that by (auto simp: list_all2_conv_all_nth)
  have eq: "f (xs ! Suc j) = g (ys ! Suc j)" "f (xs ! j) = g (ys ! j)"
    using R Suc.prems(2) assms by auto
  have "list_all2 R (xs[j := xs ! Suc j, Suc j := xs ! j]) (ys[j := ys ! Suc j, Suc j := ys ! j])"
    using Suc.prems R by (intro list_all2_update_cong) auto
  with Suc.IH[of "xs[j := xs ! Suc j, Suc j := xs ! j]"] Suc.prems eq show ?case by auto
qed simp

lemma length_insert_list [simp]: "length (insert_list f xs j) = length xs"
  by (induction f xs j rule: insert_list.induct) auto

lemma sort_list_from_rel:
  assumes "\<And>x y. R x y \<Longrightarrow> f x = g y"
  shows "list_all2 R xs ys \<Longrightarrow> i + k \<le> length xs \<Longrightarrow>
    list_all2 R (sort_list_from f xs i k) (sort_list_from g ys i k)"
proof (induction k arbitrary: xs ys i)
  case (Suc k)
  have "list_all2 R (insert_list f xs i) (insert_list g ys i)"
    using Suc.prems by (intro insert_list_rel assms) auto
  with Suc show ?case by simp
qed simp

lemma canon_list_rel:
  assumes "\<And>x y. R x y \<Longrightarrow> f x = g y" "list_all2 R xs ys"
  shows "list_all2 R (canon_list f xs) (canon_list g ys)"
proof -
  have len: "length xs = length ys" using assms(2) by (rule list_all2_lengthD)
  have "list_all2 R (prune_list f (length xs) xs) (prune_list g (length xs) ys)"
    using assms by (intro prune_list_rel) auto
  then show ?thesis unfolding canon_list_def Let_def
    using sort_list_from_rel[of R f g] assms(1) len by (metis add_0 list_all2_lengthD order_refl)
qed

text \<open>What the pairs refer to stays within \<open>S\<close>, outside the array.\<close>

definition kvs_within :: "addr set \<Rightarrow> mem \<Rightarrow> addr \<Rightarrow> (bytes \<times> gg_val) list \<Rightarrow> bool" where
  "kvs_within S m p kvs \<longleftrightarrow> list_all2 (\<lambda>blk kv. kv_refs m blk kv \<subseteq> S) (kv_arr m p (length kvs)) kvs"

lemma kvs_sep_within: "kvs_sep m p kvs \<longleftrightarrow> kvs_within (- arr_reg p (length kvs)) m p kvs"
  by (auto simp: kvs_sep_def kvs_within_def list_all2_conv_all_nth)

lemma kv_refs_frame: "kv_blk m blk kv \<Longrightarrow> agree_on (kv_refs m blk kv) m m' \<Longrightarrow> kv_refs m' blk kv = kv_refs m blk kv"
  using blk_foot_frame[of m "drop 10 blk" "snd kv" m'] agree_on_mono[of "kv_refs m blk kv" m m' "blk_foot m (drop 10 blk) (snd kv)"]
  by (simp add: kv_refs_def kv_blk_def)

lemma canonicalize_within:
  assumes "buf_len pruned < 65536" and at: "kvs_at m (map_pairs val) kvs"
    and len: "map_len val = length kvs" and within: "kvs_within S m (map_pairs val) kvs" "S \<inter> arr_reg (map_pairs val) (length kvs) = {}"
  shows "\<exists>m' val'. gg_map_canonicalize_shallow pruned m val = Some (m', val') \<and>
     map_pairs val' = map_pairs val \<and> map_len val' = length (canon_list fst kvs) \<and>
     kvs_at m' (map_pairs val) (canon_list fst kvs) \<and> kvs_within S m' (map_pairs val) (canon_list fst kvs) \<and>
     agree_off (arr_reg (map_pairs val) (length kvs)) m m'"
proof -
  let ?p = "map_pairs val" and ?n = "length kvs"
  let ?xs = "kv_arr m ?p ?n" and ?A = "arr_reg ?p ?n"
  let ?R = "\<lambda>blk kv. kv_blk m blk kv \<and> kv_refs m blk kv \<subseteq> S"
  have rel: "list_all2 ?R ?xs kvs"
    using at within(1) unfolding kvs_at_conv kvs_within_def list_all2_conv_all_nth by simp
  have on: "agree_on (kv_refs m blk kv) m m'" if "?R blk kv" "agree_off ?A m m'" for m' blk kv
    using that within(2) by (intro agree_off_on[OF that(2)]) auto
  have stable: "kv_blk m' blk kv \<and> kv_refs m' blk kv \<subseteq> S" if "?R blk kv" "agree_off ?A m m'" for m' blk kv
    using kv_blk_frame[OF _ on[OF that]] kv_refs_frame[OF _ on[OF that]] that by simp
  have "keys_fixed ?A m (key_of m) ?xs"
    unfolding keys_fixed_def
  proof (intro ballI allI impI)
    fix blk m' assume "blk \<in> set ?xs" "agree_off ?A m m'"
    then obtain i where "i < ?n" "blk = ?xs ! i" unfolding in_set_conv_nth by auto
    then obtain kv where "?R blk kv" using list_all2_nthD[OF rel, of i] by simp
    with stable[OF this \<open>agree_off ?A m m'\<close>] show "key_of m' blk = key_of m blk"
      by (simp add: kv_blk_def)
  qed
  from canonicalize_refines[OF assms(1), of val m "key_of m"] this obtain m' val' where
    r: "gg_map_canonicalize_shallow pruned m val = Some (m', val')" "map_pairs val' = ?p"
      "agree_off ?A m m'" "kv_arr m' ?p (map_len val') = canon_list (key_of m) ?xs"
    by (auto simp: len)
  have "list_all2 ?R (canon_list (key_of m) ?xs) (canon_list fst kvs)"
    using rel by (intro canon_list_rel) (auto simp: kv_blk_def)
  then have *: "list_all2 (\<lambda>blk kv. kv_blk m' blk kv \<and> kv_refs m' blk kv \<subseteq> S) (kv_arr m' ?p (map_len val')) (canon_list fst kvs)"
    unfolding r(4) using stable[OF _ r(3)] by (rule list_all2_mono)
  then have l: "map_len val' = length (canon_list fst kvs)" using list_all2_lengthD by fastforce
  with * have "kvs_at m' ?p (canon_list fst kvs)" "kvs_within S m' ?p (canon_list fst kvs)"
    unfolding kvs_at_conv kvs_within_def l by (auto elim: list_all2_mono)
  with r l show ?thesis by auto
qed

lemma canonicalize_kvs:
  assumes "buf_len pruned < 65536" "kvs_at m (map_pairs val) kvs" "map_len val = length kvs" "kvs_sep m (map_pairs val) kvs"
  shows "\<exists>m' val'. gg_map_canonicalize_shallow pruned m val = Some (m', val') \<and>
     map_pairs val' = map_pairs val \<and> map_len val' = length (canon_list fst kvs) \<and>
     kvs_at m' (map_pairs val) (canon_list fst kvs) \<and>
     agree_off (arr_reg (map_pairs val) (length kvs)) m m'"
  using canonicalize_within[OF assms(1-3) assms(4)[unfolded kvs_sep_within]] by auto

lemma map_of_find: "map_of kvs k = map_option snd (find (\<lambda>kv. fst kv = k) kvs)"
  by (induction kvs) auto

lemma map_of_canon: "map_of (canon_list fst kvs) = map_of kvs"
  by (rule ext) (simp add: map_of_find find_canon_list)

lemma is_canonical_iff:
  "kvs_at m (map_pairs mp) kvs \<Longrightarrow> map_len mp = length kvs \<Longrightarrow>
     gg_map_is_canonical m mp \<longleftrightarrow> sorted_wrt (<) (map fst kvs)"
proof -
  assume *: "kvs_at m (map_pairs mp) kvs" "map_len mp = length kvs"
  let ?k = "\<lambda>i. pair_key m (map_pairs mp + kv_size * i)"
  have k: "?k i = fst (kvs ! i)" if "i < length kvs" for i
    using kvs_at_nth[OF *(1) that] by simp
  have "gg_map_is_canonical m mp \<longleftrightarrow> (\<forall>i \<in> {1..<length kvs}. ?k (i - 1) < ?k i)"
    by (simp add: gg_map_is_canonical_def list_all_iff *(2))
  also have "\<dots> \<longleftrightarrow> (\<forall>i. Suc i < length kvs \<longrightarrow> ?k i < ?k (Suc i))"
  proof (intro iffI allI impI ballI)
    fix i assume "\<forall>i \<in> {1..<length kvs}. ?k (i - 1) < ?k i" "Suc i < length kvs"
    then show "?k i < ?k (Suc i)" by (auto dest: bspec[of _ _ "Suc i"] simp del: mult_Suc_right)
  next
    fix i assume a: "\<forall>i. Suc i < length kvs \<longrightarrow> ?k i < ?k (Suc i)" and "i \<in> {1..<length kvs}"
    then have "Suc (i - 1) < length kvs" "Suc (i - 1) = i" by auto
    with a show "?k (i - 1) < ?k i" by metis
  qed
  also have "\<dots> \<longleftrightarrow> (\<forall>i. Suc i < length kvs \<longrightarrow> map fst kvs ! i < map fst kvs ! Suc i)"
    using k by (simp add: Suc_lessD del: mult_Suc_right cong: imp_cong)
  also have "\<dots> \<longleftrightarrow> sorted_wrt (<) (map fst kvs)"
    by (simp add: sorted_wrt_iff_nth_Suc_transp[OF transp_on_less])
  finally show ?thesis .
qed

lemma map_get_value:
  assumes "kvs_at m (map_pairs mp) kvs" "map_len mp = length kvs"
  shows "(\<exists>v. map_of kvs key = Some v \<and> fst (gg_map_get m mp key) \<and> obj_at m (snd (gg_map_get m mp key)) v)
     \<or> (map_of kvs key = None \<and> gg_map_get m mp key = (False, NULL))"
proof -
  have "(\<exists>v p. map_get_loop m q (length kvs) key = Some p \<and> map_of kvs key = Some v \<and> obj_at m p v) \<or>
      (map_get_loop m q (length kvs) key = None \<and> map_of kvs key = None)" if "kvs_at m q kvs" for q
    using that
  proof (induction kvs arbitrary: q)
    case (Cons kv kvs)
    then show ?case using Cons.IH[of "q + kv_size"] by (cases kv) auto
  qed simp
  from this[OF assms(1)] show ?thesis by (auto simp: gg_map_get_def assms(2))
qed

section \<open>Validation\<close>

definition entry_ok :: "(bytes \<times> gg_val) list \<Rightarrow> GgMapSchemaEntry \<Rightarrow> bool" where
  "entry_ok kvs e =
     (case map_of kvs (sch_key e) of
        None \<Rightarrow> sch_required e \<noteq> GG_PRESENCE_REQUIRED
      | Some v \<Rightarrow> sch_required e \<noteq> GG_PRESENCE_MISSING \<and> (sch_type e = GG_TYPE_NULL \<or> sch_type e = val_type v))"

lemma validate_step:
  assumes "kvs_at m (map_pairs mp) kvs" "map_len mp = length kvs"
  shows "entry_ok kvs e \<Longrightarrow> gg_map_validate m mp (e # es) = do {
      (ret, outs) \<leftarrow> gg_map_validate m mp es;
      Some (ret, (if sch_value e then Some (snd (gg_map_get m mp (sch_key e))) else None) # outs) }"
    and "\<not> entry_ok kvs e \<Longrightarrow> gg_map_validate m mp (e # es) =
      Some (if map_of kvs (sch_key e) = None then GG_ERR_NOENTRY else GG_ERR_PARSE, [])"
  using map_get_value[OF assms, of "sch_key e"]
  by (auto simp: entry_ok_def dest!: val_blk_type split: prod.splits)

lemma validate_result:
  assumes "kvs_at m (map_pairs mp) kvs" "map_len mp = length kvs"
  shows "\<exists>ret outs. gg_map_validate m mp es = Some (ret, outs) \<and>
    (ret = GG_ERR_OK \<longleftrightarrow> list_all (entry_ok kvs) es) \<and>
    (list_all (entry_ok kvs) es \<longrightarrow>
       outs = map (\<lambda>e. if sch_value e then Some (snd (gg_map_get m mp (sch_key e))) else None) es)"
proof (induction es)
  case (Cons e es)
  then show ?case
    using validate_step[OF assms, of e es] by (cases "entry_ok kvs e") auto
qed simp

section \<open>Properties\<close>

text \<open>C6: Canonicalizing a map, whose pairs \<open>kvs\<close> refer to nothing inside the array that holds them,
  returns with the keys of the map strictly ascending, the value of every key the one that lookup
  found before, no pair that was not there before, and no byte written outside the array.\<close>

theorem gg_map_canonicalize_correct:
  assumes "buf_len pruned < 65536" "kvs_at m (map_pairs val) kvs" "map_len val = length kvs"
    "kvs_sep m (map_pairs val) kvs"
  shows "\<exists>m' val' kvs'. gg_map_canonicalize_shallow pruned m val = Some (m', val') \<and>
    map_pairs val' = map_pairs val \<and> map_len val' = length kvs' \<and> kvs_at m' (map_pairs val) kvs' \<and>
    sorted_wrt (<) (map fst kvs') \<and> set kvs' \<subseteq> set kvs \<and> map_of kvs' = map_of kvs \<and>
    agree_off (arr_reg (map_pairs val) (length kvs)) m m'"
  using canonicalize_kvs[OF assms] map_of_canon[of kvs] canon_list_spec(1,2)[of fst kvs] by blast

definition map_mem :: mem where
  "map_mem = wr (wr (\<lambda>_. 0) 10 ([60,0,0,0,0,0,0,0, 1,0, 1,0,0,0,0,0,0,0, 0,0, 2] @
     [61,0,0,0,0,0,0,0, 1,0, 1,0,0,0,0,0,0,0, 0,0, 1])) 60 [98, 97]"

lemma map_mem_kvs: "kvs_at map_mem 10 [([98], VI64 1), ([97], VBool True)]"
  by code_simp

lemma map_mem_sep: "kvs_sep map_mem 10 [([98], VI64 1), ([97], VBool True)]"
  by (simp add: kvs_sep_def less_Suc_eq all_conj_distrib kv_refs_def map_mem_def rd_def wr_def upt_rec Let_def)

theorem gg_map_canonicalize_correct_witness:
  "\<exists>m' val' kvs'. gg_map_canonicalize_shallow \<lparr>buf_data = 0, buf_len = 0\<rparr> map_mem \<lparr>map_pairs = 10, map_len = 2\<rparr> =
      Some (m', val') \<and> kvs_at m' 10 kvs' \<and> sorted_wrt (<) (map fst kvs') \<and>
      map_of kvs' = map_of [([98], VI64 1), ([97], VBool True)]"
  using gg_map_canonicalize_correct[of "\<lparr>buf_data = 0, buf_len = 0\<rparr>" map_mem "\<lparr>map_pairs = 10, map_len = 2\<rparr>"
      "[([98], VI64 1), ([97], VBool True)]"] map_mem_kvs map_mem_sep by auto

text \<open>\<open>gg_map_is_canonical\<close> decides whether the keys of a map are strictly ascending, that is, sorted
  and without duplicates.\<close>

theorem gg_map_is_canonical_exact:
  assumes "kvs_at m (map_pairs mp) kvs" "map_len mp = length kvs"
  shows "gg_map_is_canonical m mp \<longleftrightarrow> sorted_wrt (<) (map fst kvs)"
  using assms by (rule is_canonical_iff)

theorem gg_map_is_canonical_exact_witness: "\<not> gg_map_is_canonical map_mem \<lparr>map_pairs = 10, map_len = 2\<rparr>"
  using gg_map_is_canonical_exact[of map_mem "\<lparr>map_pairs = 10, map_len = 2\<rparr>" "[([98], VI64 1), ([97], VBool True)]"]
    map_mem_kvs by simp

text \<open>\<open>gg_map_get\<close> finds the first pair with the key, and its output then points to an object with
  that pair's value; for a key that no pair has it returns false and outputs NULL.\<close>

theorem gg_map_get_correct:
  assumes "kvs_at m (map_pairs mp) kvs" "map_len mp = length kvs"
  shows "case map_of kvs key of
      None \<Rightarrow> gg_map_get m mp key = (False, NULL)
    | Some v \<Rightarrow> fst (gg_map_get m mp key) \<and> obj_at m (snd (gg_map_get m mp key)) v"
  using map_get_value[OF assms, of key] by auto

theorem gg_map_get_correct_witness:
  "fst (gg_map_get map_mem \<lparr>map_pairs = 10, map_len = 2\<rparr> [97]) \<and>
     obj_at map_mem (snd (gg_map_get map_mem \<lparr>map_pairs = 10, map_len = 2\<rparr> [97])) (VBool True)"
  using gg_map_get_correct[of map_mem "\<lparr>map_pairs = 10, map_len = 2\<rparr>" "[([98], VI64 1), ([97], VBool True)]" "[97]"]
    map_mem_kvs by simp

text \<open>C33: \<open>gg_map_validate\<close> returns OK exactly when every schema entry holds of the map (required keys
  present, keys that must be missing absent, types as asked for, in which the type NULL asks for
  none), and then outputs, for every entry with an output pointer, the value found or NULL.\<close>

theorem gg_map_validate_correct:
  assumes "kvs_at m (map_pairs mp) kvs" "map_len mp = length kvs"
  shows "\<exists>ret outs. gg_map_validate m mp es = Some (ret, outs) \<and>
    (ret = GG_ERR_OK \<longleftrightarrow> list_all (entry_ok kvs) es) \<and>
    (list_all (entry_ok kvs) es \<longrightarrow>
       outs = map (\<lambda>e. if sch_value e then Some (snd (gg_map_get m mp (sch_key e))) else None) es)"
  using assms by (rule validate_result)

theorem gg_map_validate_correct_witness:
  "\<exists>outs. gg_map_validate map_mem \<lparr>map_pairs = 10, map_len = 2\<rparr>
     [\<lparr>sch_key = [97], sch_required = GG_PRESENCE_REQUIRED, sch_type = GG_TYPE_BOOLEAN, sch_value = True\<rparr>] =
     Some (GG_ERR_OK, outs)"
  using gg_map_validate_correct[of map_mem "\<lparr>map_pairs = 10, map_len = 2\<rparr>" "[([98], VI64 1), ([97], VBool True)]"
      "[\<lparr>sch_key = [97], sch_required = GG_PRESENCE_REQUIRED, sch_type = GG_TYPE_BOOLEAN, sch_value = True\<rparr>]"]
    map_mem_kvs by (auto simp: entry_ok_def)

end
