(* ===== verification/Visit.thy ===== *)
theory Visit
  imports Maps
begin

text \<open>
  The non-recursive object visitor (\<open>src/object_visit.c\<close>, \<open>priv_include/gg/object_iter.h\<close>,
  \<open>priv_include/gg/object_visit.h\<close>): a loop over an array of at most 15 levels that calls the
  handlers of a visit. \<open>vobj\<close>, \<open>vlist\<close> and \<open>vmap\<close> are the recursive traversal the
  loop stands for; \<open>visit_loop_vobj\<close> shows that the loop does what the traversal does. The
  locale \<open>observer\<close> is the contract of a visit whose handlers leave the visited object alone.
\<close>

section \<open>Definitions\<close>

datatype IterLevelState = LEVEL_DEFAULT | LEVEL_LIST | LEVEL_MAP

record IterLevels =
  lv_obj :: "addr list"
  lv_state :: "IterLevelState list"
  lv_elem_index :: "nat list"
  lv_index :: nat

text \<open>A handler takes the context and the memory and returns the error code, the context and the
  memory it leaves.\<close>

type_synonym 'c act = "'c \<Rightarrow> mem \<Rightarrow> (GgError \<times> 'c \<times> mem) run"

record 'c GgObjectVisitHandlers =
  on_null :: "'c act option"
  on_bool :: "(bool \<Rightarrow> 'c act) option"
  on_i64 :: "(64 word \<Rightarrow> 'c act) option"
  on_f64 :: "(64 word \<Rightarrow> 'c act) option"
  on_buf :: "(GgBuffer \<Rightarrow> addr \<Rightarrow> 'c act) option"
  on_list :: "(GgList \<Rightarrow> addr \<Rightarrow> 'c act) option"
  cont_list :: "'c act option"
  end_list :: "'c act option"
  on_map :: "(GgMap \<Rightarrow> addr \<Rightarrow> 'c act) option"
  on_map_key :: "(GgBuffer \<Rightarrow> addr \<Rightarrow> 'c act) option"
  cont_map :: "'c act option"
  end_map :: "'c act option"

definition no_handlers :: "'c GgObjectVisitHandlers" where
  "no_handlers = \<lparr>on_null = None, on_bool = None, on_i64 = None, on_f64 = None, on_buf = None,
     on_list = None, cont_list = None, end_list = None, on_map = None, on_map_key = None,
     cont_map = None, end_map = None\<rparr>"

text \<open>\<open>TRY_HANDLER\<close>: a handler that is not set does nothing.\<close>

definition call0 :: "'c act option \<Rightarrow> 'c act" where
  "call0 h c m = (case h of None \<Rightarrow> Some (GG_ERR_OK, c, m) | Some f \<Rightarrow> f c m)"

definition call1 :: "('x \<Rightarrow> 'c act) option \<Rightarrow> 'x \<Rightarrow> 'c act" where
  "call1 h x c m = (case h of None \<Rightarrow> Some (GG_ERR_OK, c, m) | Some f \<Rightarrow> f x c m)"

definition call2 :: "('x \<Rightarrow> addr \<Rightarrow> 'c act) option \<Rightarrow> 'x \<Rightarrow> addr \<Rightarrow> 'c act" where
  "call2 h x p c m = (case h of None \<Rightarrow> Some (GG_ERR_OK, c, m) | Some f \<Rightarrow> f x p c m)"

text \<open>What one turn of the loop does: return, or go on with new levels and a new subobject count.\<close>

datatype 'c visit_out =
    Return GgError 'c mem
  | Continue IterLevels nat 'c mem

definition and_then :: "(GgError \<times> 'c \<times> mem) run \<Rightarrow> ('c \<Rightarrow> mem \<Rightarrow> 'c visit_out run) \<Rightarrow> 'c visit_out run" where
  "and_then r k = do {
     (e, c, m) \<leftarrow> r;
     if e \<noteq> GG_ERR_OK then Some (Return e c m) else k c m
   }"

text \<open>The end of a turn whose switch ended with \<open>break\<close>: up one level.\<close>

definition visit_up :: "IterLevels \<Rightarrow> nat \<Rightarrow> 'c \<Rightarrow> mem \<Rightarrow> 'c visit_out run" where
  "visit_up st subobjects c m =
     (if lv_index st = 0 then Some (Return GG_ERR_OK c m)
      else Some (Continue (st\<lparr>lv_index := lv_index st - 1\<rparr>) subobjects c m))"

text \<open>Down one level, to the element at \<open>p\<close>.\<close>

definition visit_down :: "IterLevels \<Rightarrow> addr \<Rightarrow> nat \<Rightarrow> 'c \<Rightarrow> mem \<Rightarrow> 'c visit_out run" where
  "visit_down st p subobjects c m =
     (let i = Suc (lv_index st) in
      if i = GG_MAX_OBJECT_DEPTH then Some (Return GG_ERR_RANGE c m)
      else Some (Continue \<lparr>
        lv_obj = (lv_obj st)[i := p],
        lv_state = (lv_state st)[i := LEVEL_DEFAULT],
        lv_elem_index = (lv_elem_index st)[i := 0, i - 1 := u8 (lv_elem_index st ! (i - 1) + 1)],
        lv_index = i\<rparr> subobjects c m))"

definition visit_default ::
    "'c GgObjectVisitHandlers \<Rightarrow> addr \<Rightarrow> IterLevels \<Rightarrow> nat \<Rightarrow> 'c \<Rightarrow> mem \<Rightarrow> 'c visit_out run" where
  "visit_default h p st subobjects c m =
     (let x = rd m p obj_size; up = visit_up st subobjects in do {
       t \<leftarrow> gg_obj_type x;
       case t of
         GG_TYPE_NULL \<Rightarrow> and_then (call0 (on_null h) c m) up
       | GG_TYPE_BOOLEAN \<Rightarrow> do { b \<leftarrow> gg_obj_into_bool x; and_then (call1 (on_bool h) b c m) up }
       | GG_TYPE_I64 \<Rightarrow> do { w \<leftarrow> gg_obj_into_i64 x; and_then (call1 (on_i64 h) w c m) up }
       | GG_TYPE_F64 \<Rightarrow> do { w \<leftarrow> gg_obj_into_f64 x; and_then (call1 (on_f64 h) w c m) up }
       | GG_TYPE_BUF \<Rightarrow> do { b \<leftarrow> gg_obj_into_buf x; and_then (call2 (on_buf h) b p c m) up }
       | GG_TYPE_LIST \<Rightarrow> do {
           list \<leftarrow> gg_obj_into_list x;
           if list_len list > GG_MAX_OBJECT_SUBOBJECTS - subobjects
           then Some (Return GG_ERR_RANGE c m)
           else and_then (call2 (on_list h) list p c m) (\<lambda>c m.
             Some (Continue (st\<lparr>lv_state := (lv_state st)[lv_index st := LEVEL_LIST]\<rparr>)
               (u8 (subobjects + u8 (list_len list))) c m))
         }
       | GG_TYPE_MAP \<Rightarrow> do {
           mp \<leftarrow> gg_obj_into_map x;
           if map_len mp > (GG_MAX_OBJECT_SUBOBJECTS - subobjects) div 2
           then Some (Return GG_ERR_RANGE c m)
           else and_then (call2 (on_map h) mp p c m) (\<lambda>c m.
             Some (Continue (st\<lparr>lv_state := (lv_state st)[lv_index st := LEVEL_MAP]\<rparr>)
               (u8 (subobjects + u8 (map_len mp * 2))) c m))
         }
     })"

definition visit_list ::
    "'c GgObjectVisitHandlers \<Rightarrow> addr \<Rightarrow> nat \<Rightarrow> IterLevels \<Rightarrow> nat \<Rightarrow> 'c \<Rightarrow> mem \<Rightarrow> 'c visit_out run" where
  "visit_list h p cur_index st subobjects c m = do {
     list \<leftarrow> gg_obj_into_list (rd m p obj_size);
     if cur_index = list_len list
     then and_then (call0 (end_list h) c m) (visit_up st subobjects)
     else and_then (if cur_index \<noteq> 0 then call0 (cont_list h) c m else Some (GG_ERR_OK, c, m))
       (visit_down st (list_items list + obj_size * cur_index) subobjects)
   }"

definition visit_map ::
    "'c GgObjectVisitHandlers \<Rightarrow> addr \<Rightarrow> nat \<Rightarrow> IterLevels \<Rightarrow> nat \<Rightarrow> 'c \<Rightarrow> mem \<Rightarrow> 'c visit_out run" where
  "visit_map h p cur_index st subobjects c m = do {
     mp \<leftarrow> gg_obj_into_map (rd m p obj_size);
     if cur_index = map_len mp
     then and_then (call0 (end_map h) c m) (visit_up st subobjects)
     else and_then (if cur_index \<noteq> 0 then call0 (cont_map h) c m else Some (GG_ERR_OK, c, m))
       (\<lambda>c m. let kv = map_pairs mp + kv_size * cur_index in
         and_then (call2 (on_map_key h) (gg_kv_key (rd m kv kv_size)) kv c m)
           (visit_down st (gg_kv_val kv) subobjects))
   }"

definition visit_step ::
    "'c GgObjectVisitHandlers \<Rightarrow> IterLevels \<Rightarrow> nat \<Rightarrow> 'c \<Rightarrow> mem \<Rightarrow> 'c visit_out run" where
  "visit_step h st subobjects c m =
     (let cur_obj = lv_obj st ! lv_index st;
          cur_state = lv_state st ! lv_index st;
          cur_index = lv_elem_index st ! lv_index st
      in case cur_state of
           LEVEL_DEFAULT \<Rightarrow> visit_default h cur_obj st subobjects c m
         | LEVEL_LIST \<Rightarrow> visit_list h cur_obj cur_index st subobjects c m
         | LEVEL_MAP \<Rightarrow> visit_map h cur_obj cur_index st subobjects c m)"

partial_function (option) visit_loop ::
    "'c GgObjectVisitHandlers \<Rightarrow> IterLevels \<Rightarrow> nat \<Rightarrow> 'c \<Rightarrow> mem \<Rightarrow> (GgError \<times> 'c \<times> mem) option" where
  "visit_loop h st subobjects c m = Option.bind (visit_step h st subobjects c m) (\<lambda>r.
     case r of
       Return e c' m' \<Rightarrow> Some (e, c', m')
     | Continue st' subobjects' c' m' \<Rightarrow> visit_loop h st' subobjects' c' m')"

definition gg_obj_visit :: "'c GgObjectVisitHandlers \<Rightarrow> 'c \<Rightarrow> addr \<Rightarrow> mem \<Rightarrow> (GgError \<times> 'c \<times> mem) run" where
  "gg_obj_visit h c obj m =
     visit_loop h \<lparr>lv_obj = (replicate GG_MAX_OBJECT_DEPTH NULL)[0 := obj],
       lv_state = (replicate GG_MAX_OBJECT_DEPTH LEVEL_DEFAULT)[0 := LEVEL_DEFAULT],
       lv_elem_index = (replicate GG_MAX_OBJECT_DEPTH 0)[0 := 0],
       lv_index = 0\<rparr> 0 c m"

section \<open>The recursive traversal\<close>

text \<open>The outcome of visiting an object: a failed visit, or the subobject count, context and memory
  the rest of the visit goes on with.\<close>

datatype 'c vres = Fail GgError 'c mem | Next nat 'c mem

definition after :: "(GgError \<times> 'c \<times> mem) \<Rightarrow> nat \<Rightarrow> 'c vres" where
  "after r s = (case r of (e, c, m) \<Rightarrow> if e = GG_ERR_OK then Next s c m else Fail e c m)"

text \<open>The handler call for an object that is not a container.\<close>

definition leaf_act :: "'c GgObjectVisitHandlers \<Rightarrow> addr \<Rightarrow> GgObjectType \<Rightarrow> 'c act" where
  "leaf_act h p t c m =
     (let x = rd m p obj_size in
      case t of
        GG_TYPE_NULL \<Rightarrow> call0 (on_null h) c m
      | GG_TYPE_BOOLEAN \<Rightarrow> do { b \<leftarrow> gg_obj_into_bool x; call1 (on_bool h) b c m }
      | GG_TYPE_I64 \<Rightarrow> do { w \<leftarrow> gg_obj_into_i64 x; call1 (on_i64 h) w c m }
      | GG_TYPE_F64 \<Rightarrow> do { w \<leftarrow> gg_obj_into_f64 x; call1 (on_f64 h) w c m }
      | GG_TYPE_BUF \<Rightarrow> do { b \<leftarrow> gg_obj_into_buf x; call2 (on_buf h) b p c m }
      | _ \<Rightarrow> None)"

definition cont :: "nat \<Rightarrow> 'c act option \<Rightarrow> 'c act" where
  "cont i h c m = (if i \<noteq> 0 then call0 h c m else Some (GG_ERR_OK, c, m))"

inductive vobj :: "'c GgObjectVisitHandlers \<Rightarrow> nat \<Rightarrow> addr \<Rightarrow> nat \<Rightarrow> 'c \<Rightarrow> mem \<Rightarrow> 'c vres \<Rightarrow> bool"
  and vlist :: "'c GgObjectVisitHandlers \<Rightarrow> nat \<Rightarrow> addr \<Rightarrow> nat \<Rightarrow> nat \<Rightarrow> 'c \<Rightarrow> mem \<Rightarrow> 'c vres \<Rightarrow> bool"
  and vmap :: "'c GgObjectVisitHandlers \<Rightarrow> nat \<Rightarrow> addr \<Rightarrow> nat \<Rightarrow> nat \<Rightarrow> 'c \<Rightarrow> mem \<Rightarrow> 'c vres \<Rightarrow> bool"
  for h :: "'c GgObjectVisitHandlers" where
  leaf: "gg_obj_type (rd m p obj_size) = Some t \<Longrightarrow> leaf_act h p t c m = Some r \<Longrightarrow>
      vobj h d p s c m (after r s)"
| list_range: "gg_obj_into_list (rd m p obj_size) = Some l \<Longrightarrow>
      list_len l > GG_MAX_OBJECT_SUBOBJECTS - s \<Longrightarrow> vobj h d p s c m (Fail GG_ERR_RANGE c m)"
| list_err: "gg_obj_into_list (rd m p obj_size) = Some l \<Longrightarrow>
      list_len l \<le> GG_MAX_OBJECT_SUBOBJECTS - s \<Longrightarrow>
      call2 (on_list h) l p c m = Some (e, c', m') \<Longrightarrow> e \<noteq> GG_ERR_OK \<Longrightarrow> vobj h d p s c m (Fail e c' m')"
| list: "gg_obj_into_list (rd m p obj_size) = Some l \<Longrightarrow>
      list_len l \<le> GG_MAX_OBJECT_SUBOBJECTS - s \<Longrightarrow>
      call2 (on_list h) l p c m = Some (GG_ERR_OK, c', m') \<Longrightarrow>
      vlist h d p 0 (u8 (s + u8 (list_len l))) c' m' r \<Longrightarrow> vobj h d p s c m r"
| map_range: "gg_obj_into_map (rd m p obj_size) = Some l \<Longrightarrow>
      map_len l > (GG_MAX_OBJECT_SUBOBJECTS - s) div 2 \<Longrightarrow> vobj h d p s c m (Fail GG_ERR_RANGE c m)"
| map_err: "gg_obj_into_map (rd m p obj_size) = Some l \<Longrightarrow>
      map_len l \<le> (GG_MAX_OBJECT_SUBOBJECTS - s) div 2 \<Longrightarrow>
      call2 (on_map h) l p c m = Some (e, c', m') \<Longrightarrow> e \<noteq> GG_ERR_OK \<Longrightarrow> vobj h d p s c m (Fail e c' m')"
| map: "gg_obj_into_map (rd m p obj_size) = Some l \<Longrightarrow>
      map_len l \<le> (GG_MAX_OBJECT_SUBOBJECTS - s) div 2 \<Longrightarrow>
      call2 (on_map h) l p c m = Some (GG_ERR_OK, c', m') \<Longrightarrow>
      vmap h d p 0 (u8 (s + u8 (map_len l * 2))) c' m' r \<Longrightarrow> vobj h d p s c m r"
| list_end: "gg_obj_into_list (rd m p obj_size) = Some l \<Longrightarrow> i = list_len l \<Longrightarrow>
      call0 (end_list h) c m = Some r \<Longrightarrow> vlist h d p i s c m (after r s)"
| list_cont_err: "gg_obj_into_list (rd m p obj_size) = Some l \<Longrightarrow> i \<noteq> list_len l \<Longrightarrow>
      cont i (cont_list h) c m = Some (e, c', m') \<Longrightarrow> e \<noteq> GG_ERR_OK \<Longrightarrow> vlist h d p i s c m (Fail e c' m')"
| list_deep: "gg_obj_into_list (rd m p obj_size) = Some l \<Longrightarrow> i \<noteq> list_len l \<Longrightarrow>
      cont i (cont_list h) c m = Some (GG_ERR_OK, c', m') \<Longrightarrow> Suc d = GG_MAX_OBJECT_DEPTH \<Longrightarrow>
      vlist h d p i s c m (Fail GG_ERR_RANGE c' m')"
| list_item_err: "gg_obj_into_list (rd m p obj_size) = Some l \<Longrightarrow> i \<noteq> list_len l \<Longrightarrow>
      cont i (cont_list h) c m = Some (GG_ERR_OK, c', m') \<Longrightarrow> Suc d \<noteq> GG_MAX_OBJECT_DEPTH \<Longrightarrow>
      vobj h (Suc d) (list_items l + obj_size * i) s c' m' (Fail e c'' m'') \<Longrightarrow>
      vlist h d p i s c m (Fail e c'' m'')"
| list_item: "gg_obj_into_list (rd m p obj_size) = Some l \<Longrightarrow> i \<noteq> list_len l \<Longrightarrow>
      cont i (cont_list h) c m = Some (GG_ERR_OK, c', m') \<Longrightarrow> Suc d \<noteq> GG_MAX_OBJECT_DEPTH \<Longrightarrow>
      vobj h (Suc d) (list_items l + obj_size * i) s c' m' (Next s' c'' m'') \<Longrightarrow>
      vlist h d p (u8 (i + 1)) s' c'' m'' r \<Longrightarrow> vlist h d p i s c m r"
| map_end: "gg_obj_into_map (rd m p obj_size) = Some l \<Longrightarrow> i = map_len l \<Longrightarrow>
      call0 (end_map h) c m = Some r \<Longrightarrow> vmap h d p i s c m (after r s)"
| map_cont_err: "gg_obj_into_map (rd m p obj_size) = Some l \<Longrightarrow> i \<noteq> map_len l \<Longrightarrow>
      cont i (cont_map h) c m = Some (e, c', m') \<Longrightarrow> e \<noteq> GG_ERR_OK \<Longrightarrow> vmap h d p i s c m (Fail e c' m')"
| map_key_err: "gg_obj_into_map (rd m p obj_size) = Some l \<Longrightarrow> i \<noteq> map_len l \<Longrightarrow>
      cont i (cont_map h) c m = Some (GG_ERR_OK, c', m') \<Longrightarrow> kv = map_pairs l + kv_size * i \<Longrightarrow>
      call2 (on_map_key h) (gg_kv_key (rd m' kv kv_size)) kv c' m' = Some (e, c'', m'') \<Longrightarrow>
      e \<noteq> GG_ERR_OK \<Longrightarrow> vmap h d p i s c m (Fail e c'' m'')"
| map_deep: "gg_obj_into_map (rd m p obj_size) = Some l \<Longrightarrow> i \<noteq> map_len l \<Longrightarrow>
      cont i (cont_map h) c m = Some (GG_ERR_OK, c', m') \<Longrightarrow> kv = map_pairs l + kv_size * i \<Longrightarrow>
      call2 (on_map_key h) (gg_kv_key (rd m' kv kv_size)) kv c' m' = Some (GG_ERR_OK, c'', m'') \<Longrightarrow>
      Suc d = GG_MAX_OBJECT_DEPTH \<Longrightarrow> vmap h d p i s c m (Fail GG_ERR_RANGE c'' m'')"
| map_item_err: "gg_obj_into_map (rd m p obj_size) = Some l \<Longrightarrow> i \<noteq> map_len l \<Longrightarrow>
      cont i (cont_map h) c m = Some (GG_ERR_OK, c', m') \<Longrightarrow> kv = map_pairs l + kv_size * i \<Longrightarrow>
      call2 (on_map_key h) (gg_kv_key (rd m' kv kv_size)) kv c' m' = Some (GG_ERR_OK, c'', m'') \<Longrightarrow>
      Suc d \<noteq> GG_MAX_OBJECT_DEPTH \<Longrightarrow>
      vobj h (Suc d) (gg_kv_val kv) s c'' m'' (Fail e c3 m3) \<Longrightarrow> vmap h d p i s c m (Fail e c3 m3)"
| map_item: "gg_obj_into_map (rd m p obj_size) = Some l \<Longrightarrow> i \<noteq> map_len l \<Longrightarrow>
      cont i (cont_map h) c m = Some (GG_ERR_OK, c', m') \<Longrightarrow> kv = map_pairs l + kv_size * i \<Longrightarrow>
      call2 (on_map_key h) (gg_kv_key (rd m' kv kv_size)) kv c' m' = Some (GG_ERR_OK, c'', m'') \<Longrightarrow>
      Suc d \<noteq> GG_MAX_OBJECT_DEPTH \<Longrightarrow>
      vobj h (Suc d) (gg_kv_val kv) s c'' m'' (Next s' c3 m3) \<Longrightarrow>
      vmap h d p (u8 (i + 1)) s' c3 m3 r \<Longrightarrow> vmap h d p i s c m r"

section \<open>The loop performs the traversal\<close>

text \<open>The current level of a state, and what one level says about the levels below it.\<close>

definition at_level :: "IterLevels \<Rightarrow> nat \<Rightarrow> addr \<Rightarrow> IterLevelState \<Rightarrow> nat \<Rightarrow> bool" where
  "at_level st d p cur i \<longleftrightarrow> lv_index st = d \<and> d < GG_MAX_OBJECT_DEPTH \<and>
     length (lv_obj st) = GG_MAX_OBJECT_DEPTH \<and> length (lv_state st) = GG_MAX_OBJECT_DEPTH \<and>
     length (lv_elem_index st) = GG_MAX_OBJECT_DEPTH \<and>
     lv_obj st ! d = p \<and> lv_state st ! d = cur \<and> lv_elem_index st ! d = i"

definition same_below :: "nat \<Rightarrow> IterLevels \<Rightarrow> IterLevels \<Rightarrow> bool" where
  "same_below d st st' \<longleftrightarrow>
     length (lv_obj st') = GG_MAX_OBJECT_DEPTH \<and> length (lv_state st') = GG_MAX_OBJECT_DEPTH \<and>
     length (lv_elem_index st') = GG_MAX_OBJECT_DEPTH \<and>
     (\<forall>j < d. lv_obj st' ! j = lv_obj st ! j \<and> lv_state st' ! j = lv_state st ! j \<and>
        lv_elem_index st' ! j = lv_elem_index st ! j)"

text \<open>The loop started in \<open>st\<close> at level \<open>d\<close> ends as \<open>r\<close> says.\<close>

definition loop_does :: "'c GgObjectVisitHandlers \<Rightarrow> IterLevels \<Rightarrow> nat \<Rightarrow> nat \<Rightarrow> 'c \<Rightarrow> mem \<Rightarrow> 'c vres \<Rightarrow> bool" where
  "loop_does h st d s c m r =
     (case r of
        Fail e c' m' \<Rightarrow> visit_loop h st s c m = Some (e, c', m')
      | Next s' c' m' \<Rightarrow> \<exists>st'. same_below d st st' \<and>
          visit_loop h st s c m =
            (if d = 0 then Some (GG_ERR_OK, c', m') else visit_loop h (st'\<lparr>lv_index := d - 1\<rparr>) s' c' m'))"

lemma visit_loop_Return:
  "visit_step h st s c m = Some (Return e c' m') \<Longrightarrow> visit_loop h st s c m = Some (e, c', m')"
  by (subst visit_loop.simps) simp

lemma visit_loop_Continue:
  "visit_step h st s c m = Some (Continue st' s' c' m') \<Longrightarrow> visit_loop h st s c m = visit_loop h st' s' c' m'"
  by (subst visit_loop.simps) simp

lemma loop_does_up:
  assumes "at_level st d p cur i" "visit_step h st s c m = and_then (Some r) (visit_up st s')"
  shows "loop_does h st d s c m (after r s')"
proof -
  obtain e c' m' where r: "r = (e, c', m')" by (cases r)
  have sb: "same_below d st st" using assms(1) by (simp add: same_below_def at_level_def)
  show ?thesis
  proof (cases "e = GG_ERR_OK")
    case False
    then show ?thesis using assms
      by (auto simp: r after_def loop_does_def and_then_def intro: visit_loop_Return)
  next
    case True
    have "visit_loop h st s c m =
        (if d = 0 then Some (GG_ERR_OK, c', m') else visit_loop h (st\<lparr>lv_index := d - 1\<rparr>) s' c' m')"
      using assms True unfolding r
      by (auto simp: and_then_def visit_up_def at_level_def intro: visit_loop_Return visit_loop_Continue)
    with sb show ?thesis by (auto simp: r True after_def loop_does_def)
  qed
qed

lemma loop_does_Continue:
  assumes "visit_step h st s c m = Some (Continue st1 s1 c1 m1)" "loop_does h st1 d s1 c1 m1 r"
    "same_below d st st1"
  shows "loop_does h st d s c m r"
  using assms(2,3) unfolding loop_does_def visit_loop_Continue[OF assms(1)]
  by (cases r) (auto simp: same_below_def)

definition pushed :: "IterLevels \<Rightarrow> addr \<Rightarrow> IterLevels" where
  "pushed st q = (let i = Suc (lv_index st) in \<lparr>
     lv_obj = (lv_obj st)[i := q], lv_state = (lv_state st)[i := LEVEL_DEFAULT],
     lv_elem_index = (lv_elem_index st)[i := 0, i - 1 := u8 (lv_elem_index st ! (i - 1) + 1)],
     lv_index = i\<rparr>)"

lemma visit_down_eq:
  "visit_down st q s c m =
     (if Suc (lv_index st) = GG_MAX_OBJECT_DEPTH then Some (Return GG_ERR_RANGE c m)
      else Some (Continue (pushed st q) s c m))"
  by (simp add: visit_down_def pushed_def Let_def)

lemma pushed_level:
  assumes "at_level st d p cur i" "Suc d \<noteq> GG_MAX_OBJECT_DEPTH"
  shows "at_level (pushed st q) (Suc d) q LEVEL_DEFAULT 0"
  using assms by (auto simp: at_level_def pushed_def Let_def nth_list_update)

lemma popped_level:
  assumes "at_level st d p cur i" "Suc d \<noteq> GG_MAX_OBJECT_DEPTH" "same_below (Suc d) (pushed st q) st'"
  shows "at_level (st'\<lparr>lv_index := d\<rparr>) d p cur (u8 (i + 1))" "same_below d st (st'\<lparr>lv_index := d\<rparr>)"
  using assms by (auto simp: at_level_def same_below_def pushed_def Let_def nth_list_update less_Suc_eq)

lemma child_fails:
  assumes "at_level st d p cur i" "Suc d \<noteq> GG_MAX_OBJECT_DEPTH"
    "visit_step h st s c m = visit_down st q s c' m'"
    "loop_does h (pushed st q) (Suc d) s c' m' (Fail e c'' m'')"
  shows "loop_does h st d s c m (Fail e c'' m'')"
  using assms visit_loop_Continue[of h st s c m "pushed st q" s c' m']
  by (simp add: loop_does_def visit_down_eq at_level_def)

lemma child_returns:
  assumes "at_level st d p cur i" "Suc d \<noteq> GG_MAX_OBJECT_DEPTH"
    "visit_step h st s c m = visit_down st q s c' m'"
    "loop_does h (pushed st q) (Suc d) s c' m' (Next s' c'' m'')"
    "\<And>st2. at_level st2 d p cur (u8 (i + 1)) \<Longrightarrow> loop_does h st2 d s' c'' m'' r"
  shows "loop_does h st d s c m r"
proof -
  from assms(4) obtain st' where st': "same_below (Suc d) (pushed st q) st'"
    "visit_loop h (pushed st q) s c' m' = visit_loop h (st'\<lparr>lv_index := d\<rparr>) s' c'' m''"
    by (auto simp: loop_does_def)
  note lv = popped_level[OF assms(1,2) st'(1)]
  have "visit_loop h st s c m = visit_loop h (st'\<lparr>lv_index := d\<rparr>) s' c'' m''"
    using assms(1-3) visit_loop_Continue[of h st s c m "pushed st q" s c' m'] st'(2)
    by (simp add: visit_down_eq at_level_def)
  with assms(5)[OF lv(1)] lv(2) show ?thesis
    by (cases r) (auto simp: loop_does_def same_below_def)
qed

lemma enter_container:
  assumes "at_level st d p LEVEL_DEFAULT 0"
  shows "at_level (st\<lparr>lv_state := (lv_state st)[d := cur]\<rparr>) d p cur 0"
    "same_below d st (st\<lparr>lv_state := (lv_state st)[d := cur]\<rparr>)"
  using assms by (auto simp: at_level_def same_below_def)

lemma step_default: "at_level st d p LEVEL_DEFAULT i \<Longrightarrow> visit_step h st s c m = visit_default h p st s c m"
  and step_list: "at_level st d p LEVEL_LIST i \<Longrightarrow> visit_step h st s c m = visit_list h p i st s c m"
  and step_map: "at_level st d p LEVEL_MAP i \<Longrightarrow> visit_step h st s c m = visit_map h p i st s c m"
  by (simp_all add: at_level_def visit_step_def Let_def)

lemma default_leaf:
  "gg_obj_type (rd m p obj_size) = Some t \<Longrightarrow> leaf_act h p t c m = Some r \<Longrightarrow>
     visit_default h p st s c m = and_then (Some r) (visit_up st s)"
  by (cases t) (auto simp: visit_default_def leaf_act_def Let_def bind_Some_iff)

lemma default_list:
  "gg_obj_into_list (rd m p obj_size) = Some l \<Longrightarrow> visit_default h p st s c m =
     (if list_len l > GG_MAX_OBJECT_SUBOBJECTS - s then Some (Return GG_ERR_RANGE c m)
      else and_then (call2 (on_list h) l p c m) (\<lambda>c m.
        Some (Continue (st\<lparr>lv_state := (lv_state st)[lv_index st := LEVEL_LIST]\<rparr>)
          (u8 (s + u8 (list_len l))) c m)))"
  using into_type(5)[of "rd m p obj_size" l] by (simp add: visit_default_def Let_def)

lemma default_map:
  "gg_obj_into_map (rd m p obj_size) = Some l \<Longrightarrow> visit_default h p st s c m =
     (if map_len l > (GG_MAX_OBJECT_SUBOBJECTS - s) div 2 then Some (Return GG_ERR_RANGE c m)
      else and_then (call2 (on_map h) l p c m) (\<lambda>c m.
        Some (Continue (st\<lparr>lv_state := (lv_state st)[lv_index st := LEVEL_MAP]\<rparr>)
          (u8 (s + u8 (map_len l * 2))) c m)))"
  using into_type(6)[of "rd m p obj_size" l] by (simp add: visit_default_def Let_def)

lemma loop_Return: "visit_step h st s c m = Some (Return e c' m') \<Longrightarrow> loop_does h st d s c m (Fail e c' m')"
  by (simp add: loop_does_def visit_loop_Return)

lemma list_step:
  assumes "at_level st d p LEVEL_LIST i" "gg_obj_into_list (rd m p obj_size) = Some l" "i \<noteq> list_len l"
    "cont i (cont_list h) c m = Some (e, c', m')"
  shows "visit_step h st s c m = (if e \<noteq> GG_ERR_OK then Some (Return e c' m')
     else visit_down st (list_items l + obj_size * i) s c' m')"
  using assms by (auto simp: step_list visit_list_def and_then_def cont_def)

lemma map_step:
  assumes "at_level st d p LEVEL_MAP i" "gg_obj_into_map (rd m p obj_size) = Some l" "i \<noteq> map_len l"
    "cont i (cont_map h) c m = Some (e, c', m')"
  shows "visit_step h st s c m = (if e \<noteq> GG_ERR_OK then Some (Return e c' m')
     else let kv = map_pairs l + kv_size * i in
       and_then (call2 (on_map_key h) (gg_kv_key (rd m' kv kv_size)) kv c' m') (visit_down st (gg_kv_val kv) s))"
  using assms by (auto simp: step_map visit_map_def and_then_def cont_def Let_def)

lemma loop_does_vobj:
  "vobj h d p s c m r \<Longrightarrow> at_level st d p LEVEL_DEFAULT 0 \<Longrightarrow> loop_does h st d s c m r"
  "vlist h d p i s c m r \<Longrightarrow> at_level st d p LEVEL_LIST i \<Longrightarrow> loop_does h st d s c m r"
  "vmap h d p i s c m r \<Longrightarrow> at_level st d p LEVEL_MAP i \<Longrightarrow> loop_does h st d s c m r"
proof (induction arbitrary: st and st and st rule: vobj_vlist_vmap.inducts)
  case (leaf m p t c r d s)
  then show ?case by (intro loop_does_up) (auto simp: step_default default_leaf)
next
  case (list_range m p l s d c)
  then show ?case by (intro loop_Return) (simp add: step_default default_list)
next
  case (list_err m p l s c e c' m' d)
  then show ?case by (intro loop_Return) (simp add: step_default default_list and_then_def)
next
  case (list m p l s c c' m' d r)
  have "lv_index st = d" using list.prems by (simp add: at_level_def)
  with list show ?case
    by (intro loop_does_Continue[OF _ list.IH(3)]) (auto simp: step_default default_list and_then_def intro: enter_container)
next
  case (map_range m p l s d c)
  then show ?case by (intro loop_Return) (simp add: step_default default_map)
next
  case (map_err m p l s c e c' m' d)
  then show ?case by (intro loop_Return) (simp add: step_default default_map and_then_def)
next
  case (map m p l s c c' m' d r)
  have "lv_index st = d" using map.prems by (simp add: at_level_def)
  with map show ?case
    by (intro loop_does_Continue[OF _ map.IH(3)]) (auto simp: step_default default_map and_then_def intro: enter_container)
next
  case (list_end m p l i c r d s)
  then show ?case by (intro loop_does_up) (auto simp: step_list visit_list_def)
next
  case (list_cont_err m p l i c e c' m' d s)
  then show ?case by (intro loop_Return) (simp add: list_step)
next
  case (list_deep m p l i c c' m' d s)
  have "lv_index st = d" using list_deep.prems by (simp add: at_level_def)
  with list_deep show ?case by (intro loop_Return) (simp add: list_step visit_down_eq)
next
  case (list_item_err m p l i c c' m' d s e c'' m'')
  then show ?case by (intro child_fails[OF _ _ _ list_item_err.IH(3)]) (auto simp: list_step intro: pushed_level)
next
  case (list_item m p l i c c' m' d s s' c'' m'' r)
  then show ?case
    by (intro child_returns[OF _ _ _ list_item.IH(3) list_item.IH(5)]) (auto simp: list_step intro: pushed_level)
next
  case (map_end m p l i c r d s)
  then show ?case by (intro loop_does_up) (auto simp: step_map visit_map_def)
next
  case (map_cont_err m p l i c e c' m' d s)
  then show ?case by (intro loop_Return) (simp add: map_step)
next
  case (map_key_err m p l i c c' m' kv e c'' m'' d s)
  then show ?case by (intro loop_Return) (simp add: map_step and_then_def Let_def)
next
  case (map_deep m p l i c c' m' kv c'' m'' d s)
  have "lv_index st = d" using map_deep.prems by (simp add: at_level_def)
  with map_deep show ?case by (intro loop_Return) (simp add: map_step and_then_def Let_def visit_down_eq)
next
  case (map_item_err m p l i c c' m' kv c'' m'' d s e c3 m3)
  then show ?case
    by (intro child_fails[OF _ _ _ map_item_err.IH(4)]) (auto simp: map_step and_then_def Let_def intro: pushed_level)
next
  case (map_item m p l i c c' m' kv c'' m'' d s s' c3 m3 r)
  then show ?case
    by (intro child_returns[OF _ _ _ map_item.IH(4) map_item.IH(6)])
      (auto simp: map_step and_then_def Let_def intro: pushed_level)
qed

lemma visit_performs:
  assumes "vobj h 0 p 0 c m r"
  shows "gg_obj_visit h c p m = Some (case r of Fail e c' m' \<Rightarrow> (e, c', m') | Next s c' m' \<Rightarrow> (GG_ERR_OK, c', m'))"
proof -
  let ?st = "\<lparr>lv_obj = (replicate GG_MAX_OBJECT_DEPTH NULL)[0 := p],
       lv_state = (replicate GG_MAX_OBJECT_DEPTH LEVEL_DEFAULT)[0 := LEVEL_DEFAULT],
       lv_elem_index = (replicate GG_MAX_OBJECT_DEPTH 0)[0 := 0], lv_index = 0\<rparr>"
  have "at_level ?st 0 p LEVEL_DEFAULT 0" by (simp add: at_level_def GG_MAX_OBJECT_DEPTH_def)
  from loop_does_vobj(1)[OF assms this] show ?thesis
    by (cases r) (simp_all add: gg_obj_visit_def loop_does_def)
qed

section \<open>Visits that leave the object alone\<close>

datatype visit_event =
    EvNull | EvBool bool | EvI64 "64 word" | EvF64 "64 word" | EvBuf bytes
  | EvList "gg_val list" | EvContList | EvEndList
  | EvMap "(bytes \<times> gg_val) list" | EvKey bytes | EvContMap | EvEndMap

text \<open>What a visit amounts to when its handlers act on an abstract state: a recursion over the value,
  with the limits on depth and on the number of subobjects.\<close>

definition andthen :: "GgError \<times> 'a \<Rightarrow> nat \<Rightarrow> ('a \<Rightarrow> GgError \<times> nat \<times> 'a) \<Rightarrow> GgError \<times> nat \<times> 'a" where
  "andthen r s k = (if fst r \<noteq> GG_ERR_OK then (fst r, s, snd r) else k (snd r))"

fun ref_obj :: "(visit_event \<Rightarrow> 'a \<Rightarrow> GgError \<times> 'a) \<Rightarrow> nat \<Rightarrow> nat \<Rightarrow> gg_val \<Rightarrow> 'a \<Rightarrow> GgError \<times> nat \<times> 'a"
  and ref_list :: "(visit_event \<Rightarrow> 'a \<Rightarrow> GgError \<times> 'a) \<Rightarrow> nat \<Rightarrow> nat \<Rightarrow> nat \<Rightarrow> gg_val list \<Rightarrow> 'a \<Rightarrow> GgError \<times> nat \<times> 'a"
  and ref_map :: "(visit_event \<Rightarrow> 'a \<Rightarrow> GgError \<times> 'a) \<Rightarrow> nat \<Rightarrow> nat \<Rightarrow> nat \<Rightarrow> (bytes \<times> gg_val) list \<Rightarrow> 'a \<Rightarrow> GgError \<times> nat \<times> 'a" where
  "ref_obj act d s VNull a = andthen (act EvNull a) s (\<lambda>a. (GG_ERR_OK, s, a))"
| "ref_obj act d s (VBool b) a = andthen (act (EvBool b) a) s (\<lambda>a. (GG_ERR_OK, s, a))"
| "ref_obj act d s (VI64 w) a = andthen (act (EvI64 w) a) s (\<lambda>a. (GG_ERR_OK, s, a))"
| "ref_obj act d s (VF64 w) a = andthen (act (EvF64 w) a) s (\<lambda>a. (GG_ERR_OK, s, a))"
| "ref_obj act d s (VBuf bs) a = andthen (act (EvBuf bs) a) s (\<lambda>a. (GG_ERR_OK, s, a))"
| "ref_obj act d s (VList vs) a =
     (if length vs > 255 - s then (GG_ERR_RANGE, s, a)
      else andthen (act (EvList vs) a) s (ref_list act d (s + length vs) 0 vs))"
| "ref_obj act d s (VMap kvs) a =
     (if 2 * length kvs > 255 - s then (GG_ERR_RANGE, s, a)
      else andthen (act (EvMap kvs) a) s (ref_map act d (s + 2 * length kvs) 0 kvs))"
| "ref_list act d s i [] a = andthen (act EvEndList a) s (\<lambda>a. (GG_ERR_OK, s, a))"
| "ref_list act d s i (v # vs) a =
     andthen (if i \<noteq> 0 then act EvContList a else (GG_ERR_OK, a)) s (\<lambda>a.
       if Suc d = 15 then (GG_ERR_RANGE, s, a)
       else (case ref_obj act (Suc d) s v a of (e, s', a') \<Rightarrow>
         if e \<noteq> GG_ERR_OK then (e, s', a') else ref_list act d s' (Suc i) vs a'))"
| "ref_map act d s i [] a = andthen (act EvEndMap a) s (\<lambda>a. (GG_ERR_OK, s, a))"
| "ref_map act d s i ((k, v) # kvs) a =
     andthen (if i \<noteq> 0 then act EvContMap a else (GG_ERR_OK, a)) s (\<lambda>a.
       andthen (act (EvKey k) a) s (\<lambda>a.
       if Suc d = 15 then (GG_ERR_RANGE, s, a)
       else (case ref_obj act (Suc d) s v a of (e, s', a') \<Rightarrow>
         if e \<noteq> GG_ERR_OK then (e, s', a') else ref_map act d s' (Suc i) kvs a')))"

text \<open>A handler call that has the effect \<open>x\<close> on the abstract state and writes inside \<open>W\<close> only.\<close>

definition effect :: "('a \<Rightarrow> 'c \<Rightarrow> mem \<Rightarrow> bool) \<Rightarrow> addr set \<Rightarrow> mem \<Rightarrow> GgError \<times> 'a \<Rightarrow> (GgError \<times> 'c \<times> mem) run \<Rightarrow> bool" where
  "effect rel W m x r \<longleftrightarrow>
     (\<exists>c' m'. r = Some (fst x, c', m') \<and> rel (snd x) c' m' \<and> agree_off W m m')"

definition ref_res :: "GgError \<times> nat \<times> 'a \<Rightarrow> 'c \<Rightarrow> mem \<Rightarrow> 'c vres" where
  "ref_res r c m = (case r of (e, s, _) \<Rightarrow> if e = GG_ERR_OK then Next s c m else Fail e c m)"

definition ref_done ::
    "('a \<Rightarrow> 'c \<Rightarrow> mem \<Rightarrow> bool) \<Rightarrow> addr set \<Rightarrow> mem \<Rightarrow> GgError \<times> nat \<times> 'a \<Rightarrow> ('c vres \<Rightarrow> bool) \<Rightarrow> bool" where
  "ref_done rel W m x V \<longleftrightarrow> (\<exists>c' m'. V (ref_res x c' m') \<and> rel (snd (snd x)) c' m' \<and> agree_off W m m' \<and>
     (fst x = GG_ERR_OK \<longrightarrow> fst (snd x) \<le> 255))"

text \<open>What lies outside the written region keeps its meaning.\<close>

lemma obj_off:
  assumes "agree_off W m m'" "obj_foot m p v \<inter> W = {}" "obj_at m p v"
  shows "obj_at m' p v \<and> blk_foot m' (rd m' p obj_size) v = blk_foot m (rd m p obj_size) v"
proof -
  have eq: "rd m' p obj_size = rd m p obj_size" using assms by (intro rd_off) auto
  have "blk_foot m (rd m p obj_size) v \<inter> W = {}" using assms(2) by auto
  then have on: "agree_on (blk_foot m (rd m p obj_size) v) m m'" by (rule agree_off_on[OF assms(1)])
  show ?thesis unfolding eq blk_foot_frame[OF on assms(3)] using val_blk_frame[OF on assms(3)] by simp
qed

lemma kvs_foot_val: "obj_foot m (gg_kv_val q) v \<subseteq> kvs_foot m q ((k, v) # kvs)"
  by (auto simp: gg_kv_val_def)

lemma objs_off:
  "agree_off W m m' \<Longrightarrow> objs_foot m p vs \<inter> W = {} \<Longrightarrow> objs_at m p vs \<Longrightarrow>
     objs_at m' p vs \<and> objs_foot m' p vs = objs_foot m p vs"
  using objs_frame objs_foot_frame agree_off_on by meson

lemma kvs_off:
  "agree_off W m m' \<Longrightarrow> kvs_foot m p kvs \<inter> W = {} \<Longrightarrow> kvs_at m p kvs \<Longrightarrow>
     kvs_at m' p kvs \<and> kvs_foot m' p kvs = kvs_foot m p kvs"
  using kvs_frame kvs_foot_frame agree_off_on by meson

text \<open>How outcomes compose along the recursion.\<close>

lemma ref_done_range:
  "V (Fail GG_ERR_RANGE c m) \<Longrightarrow> rel a c m \<Longrightarrow> ref_done rel W m (GG_ERR_RANGE, s, a) V"
  unfolding ref_done_def by (intro exI[of _ c] exI[of _ m]) (simp add: ref_res_def)

lemma ref_done_trans:
  "agree_off W m m1 \<Longrightarrow> ref_done rel W m1 x V \<Longrightarrow> ref_done rel W m x V"
  unfolding ref_done_def by (metis agree_off_trans)

lemma ref_done_mono: "ref_done rel W m x V \<Longrightarrow> (\<And>r. V r \<Longrightarrow> V' r) \<Longrightarrow> ref_done rel W m x V'"
  unfolding ref_done_def by blast

lemma ref_done_call:
  assumes "effect rel W m x r"
    and "\<And>e c1 m1. r = Some (e, c1, m1) \<Longrightarrow> e \<noteq> GG_ERR_OK \<Longrightarrow> V (Fail e c1 m1)"
    and "\<And>c1 m1. r = Some (GG_ERR_OK, c1, m1) \<Longrightarrow> rel (snd x) c1 m1 \<Longrightarrow> agree_off W m m1 \<Longrightarrow>
      ref_done rel W m1 (k (snd x)) V"
  shows "ref_done rel W m (andthen x s k) V"
proof -
  obtain c1 m1 where 1: "r = Some (fst x, c1, m1)" "rel (snd x) c1 m1" "agree_off W m m1"
    using assms(1) by (auto simp: effect_def)
  show ?thesis
  proof (cases "fst x = GG_ERR_OK")
    case True
    with 1 assms(3)[of c1 m1] show ?thesis by (simp add: andthen_def ref_done_trans)
  next
    case False
    with 1 assms(2)[OF 1(1)] show ?thesis
      by (auto simp: andthen_def ref_done_def ref_res_def)
  qed
qed

lemma ref_done_end:
  assumes "effect rel W m x r" "s \<le> 255" "\<And>y. r = Some y \<Longrightarrow> V (after y s)"
  shows "ref_done rel W m (andthen x s (\<lambda>a. (GG_ERR_OK, s, a))) V"
proof -
  obtain c1 m1 where 1: "r = Some (fst x, c1, m1)" "rel (snd x) c1 m1" "agree_off W m m1"
    using assms(1) by (auto simp: effect_def)
  from assms(3)[OF 1(1)] 1(2,3) assms(2) show ?thesis
    unfolding ref_done_def by (intro exI[of _ c1] exI[of _ m1]) (auto simp: andthen_def ref_res_def after_def)
qed

lemma ref_done_child:
  assumes "ref_done rel W m y V1"
    and "\<And>e c2 m2. V1 (Fail e c2 m2) \<Longrightarrow> V (Fail e c2 m2)"
    and "\<And>s' a' c2 m2. V1 (Next s' c2 m2) \<Longrightarrow> rel a' c2 m2 \<Longrightarrow> agree_off W m m2 \<Longrightarrow> s' \<le> 255 \<Longrightarrow>
      ref_done rel W m2 (k s' a') V"
  shows "ref_done rel W m (case y of (e, s', a') \<Rightarrow> if e \<noteq> GG_ERR_OK then (e, s', a') else k s' a') V"
proof -
  obtain e s' a' where y: "y = (e, s', a')" by (cases y)
  from assms(1) obtain c2 m2 where 2: "V1 (ref_res y c2 m2)" "rel a' c2 m2" "agree_off W m m2"
    "e = GG_ERR_OK \<longrightarrow> s' \<le> 255" by (auto simp: ref_done_def y)
  show ?thesis
  proof (cases "e = GG_ERR_OK")
    case True
    with 2 assms(3)[of s' c2 m2 a'] show ?thesis by (simp add: y ref_res_def ref_done_trans)
  next
    case False
    with 2 assms(2)[of e c2 m2] show ?thesis by (auto simp: y ref_done_def ref_res_def)
  qed
qed

lemma kv_key_len: "buf_len (gg_kv_key (rd m p kv_size)) < 65536"
  using le_val_bound[of "take 2 (drop 8 (rd m p kv_size))"] by (simp add: gg_kv_key_def)

text \<open>A property of every number in a value.\<close>

fun val_all :: "(gg_val \<Rightarrow> bool) \<Rightarrow> gg_val \<Rightarrow> bool" and vals_all :: "(gg_val \<Rightarrow> bool) \<Rightarrow> gg_val list \<Rightarrow> bool"
  and kvs_all :: "(gg_val \<Rightarrow> bool) \<Rightarrow> (bytes \<times> gg_val) list \<Rightarrow> bool" where
  "val_all P (VList vs) = vals_all P vs"
| "val_all P (VMap kvs) = kvs_all P kvs"
| "val_all P (VI64 w) = P (VI64 w)"
| "val_all P (VF64 w) = P (VF64 w)"
| "val_all P _ = True"
| "vals_all P [] = True"
| "vals_all P (v # vs) = (val_all P v \<and> vals_all P vs)"
| "kvs_all P [] = True"
| "kvs_all P ((k, v) # kvs) = (val_all P v \<and> kvs_all P kvs)"

lemma vals_all_iff: "vals_all P vs \<longleftrightarrow> (\<forall>v \<in> set vs. val_all P v)"
  by (induction vs) auto

lemma kvs_all_iff: "kvs_all P kvs \<longleftrightarrow> (\<forall>kv \<in> set kvs. val_all P (snd kv))"
  by (induction kvs) auto

lemma val_all_True [simp]: "val_all (\<lambda>_. True) v" "vals_all (\<lambda>_. True) vs" "kvs_all (\<lambda>_. True) kvs"
  by (induction "\<lambda>_ :: gg_val. True" v and "\<lambda>_ :: gg_val. True" vs and "\<lambda>_ :: gg_val. True" kvs
      rule: val_all_vals_all_kvs_all.induct) auto

locale observer =
  fixes h :: "'c GgObjectVisitHandlers" and rel :: "'a \<Rightarrow> 'c \<Rightarrow> mem \<Rightarrow> bool"
    and act :: "visit_event \<Rightarrow> 'a \<Rightarrow> GgError \<times> 'a" and W :: "addr set" and ok :: "gg_val \<Rightarrow> bool"
  assumes call_null: "rel a c m \<Longrightarrow> effect rel W m (act EvNull a) (call0 (on_null h) c m)"
    and call_bool: "rel a c m \<Longrightarrow> effect rel W m (act (EvBool b) a) (call1 (on_bool h) b c m)"
    and call_i64: "ok (VI64 w) \<Longrightarrow> rel a c m \<Longrightarrow> effect rel W m (act (EvI64 w) a) (call1 (on_i64 h) w c m)"
    and call_f64: "ok (VF64 w) \<Longrightarrow> rel a c m \<Longrightarrow> effect rel W m (act (EvF64 w) a) (call1 (on_f64 h) w c m)"
    and call_buf: "rel a c m \<Longrightarrow> buf_len u < 65536 \<Longrightarrow> {buf_data u..<buf_data u + buf_len u} \<inter> W = {} \<Longrightarrow>
      effect rel W m (act (EvBuf (contents m u)) a) (call2 (on_buf h) u p c m)"
    and call_list: "rel a c m \<Longrightarrow> list_len l = length vs \<Longrightarrow> length vs \<le> 255 \<Longrightarrow>
      effect rel W m (act (EvList vs) a) (call2 (on_list h) l p c m)"
    and call_cont_list: "rel a c m \<Longrightarrow> effect rel W m (act EvContList a) (call0 (cont_list h) c m)"
    and call_end_list: "rel a c m \<Longrightarrow> effect rel W m (act EvEndList a) (call0 (end_list h) c m)"
    and call_map: "rel a c m \<Longrightarrow> map_len mp = length kvs \<Longrightarrow> length kvs \<le> 127 \<Longrightarrow> kvs_at m (map_pairs mp) kvs \<Longrightarrow>
      kvs_foot m (map_pairs mp) kvs \<inter> W = {} \<Longrightarrow>
      effect rel W m (act (EvMap kvs) a) (call2 (on_map h) mp p c m)"
    and call_key: "rel a c m \<Longrightarrow> buf_len u < 65536 \<Longrightarrow> {buf_data u..<buf_data u + buf_len u} \<inter> W = {} \<Longrightarrow>
      effect rel W m (act (EvKey (contents m u)) a) (call2 (on_map_key h) u p c m)"
    and call_cont_map: "rel a c m \<Longrightarrow> effect rel W m (act EvContMap a) (call0 (cont_map h) c m)"
    and call_end_map: "rel a c m \<Longrightarrow> effect rel W m (act EvEndMap a) (call0 (end_map h) c m)"
begin

definition visited :: "gg_val \<Rightarrow> bool" where
  "visited v \<longleftrightarrow> (\<forall>d p s a c m. s \<le> 255 \<longrightarrow> rel a c m \<longrightarrow> obj_at m p v \<longrightarrow>
     obj_foot m p v \<inter> W = {} \<longrightarrow> ref_done rel W m (ref_obj act d s v a) (vobj h d p s c m))"

lemma visited_list:
  assumes "\<And>v. v \<in> set vs \<Longrightarrow> visited v"
    "rel a c m" "gg_obj_into_list (rd m p obj_size) = Some l" "list_len l = i + length vs" "list_len l \<le> 255"
    "objs_at m (list_items l + obj_size * i) vs" "s \<le> 255" "{p..<p + obj_size} \<inter> W = {}"
    "objs_foot m (list_items l + obj_size * i) vs \<inter> W = {}"
  shows "ref_done rel W m (ref_list act d s i vs a) (vlist h d p i s c m)"
  using assms
proof (induction vs arbitrary: i s a c m)
  case Nil
  then show ?case unfolding ref_list.simps
    by (intro ref_done_end[OF call_end_list]) (auto intro: list_end)
next
  case (Cons v vs)
  let ?q = "list_items l + obj_size * i"
  have i: "i \<noteq> list_len l" and u8: "u8 (i + 1) = Suc i" and q: "?q + obj_size = list_items l + obj_size * Suc i"
    using Cons.prems by simp_all
  have eff: "effect rel W m (if i \<noteq> 0 then act EvContList a else (GG_ERR_OK, a)) (cont i (cont_list h) c m)"
    using call_cont_list[OF Cons.prems(2)] Cons.prems(2) by (auto simp: cont_def effect_def)
  note L = Cons.prems(3)
  show ?case unfolding ref_list.simps
  proof (rule ref_done_call[OF eff])
    fix e c1 m1 assume "cont i (cont_list h) c m = Some (e, c1, m1)" "e \<noteq> GG_ERR_OK"
    then show "vlist h d p i s c m (Fail e c1 m1)" by (rule list_cont_err[OF L i])
  next
    fix c1 m1 assume 1: "cont i (cont_list h) c m = Some (GG_ERR_OK, c1, m1)"
      "rel (snd (if i \<noteq> 0 then act EvContList a else (GG_ERR_OK, a))) c1 m1" "agree_off W m m1"
    let ?a = "snd (if i \<noteq> 0 then act EvContList a else (GG_ERR_OK, a))"
    have v: "obj_at m1 ?q v" "obj_foot m1 ?q v \<inter> W = {}" and rest: "objs_at m1 (?q + obj_size) vs"
      "objs_foot m1 (?q + obj_size) vs \<inter> W = {}" and p: "rd m1 p obj_size = rd m p obj_size"
      using obj_off[OF 1(3), of ?q v] objs_off[OF 1(3), of "?q + obj_size" vs] rd_off[OF 1(3) Cons.prems(8)]
        Cons.prems(6,9) by (simp_all add: Int_Un_distrib2)
    show "ref_done rel W m1 (if Suc d = 15 then (GG_ERR_RANGE, s, ?a)
       else (case ref_obj act (Suc d) s v ?a of (e, s', a') \<Rightarrow>
         if e \<noteq> GG_ERR_OK then (e, s', a') else ref_list act d s' (Suc i) vs a')) (vlist h d p i s c m)"
    proof (cases "Suc d = GG_MAX_OBJECT_DEPTH")
      case True
      have "ref_done rel W m1 (GG_ERR_RANGE, s, ?a) (vlist h d p i s c m)"
        by (rule ref_done_range[where c = c1 and m = m1]) (rule list_deep[OF L i 1(1) True], rule 1(2))
      with True show ?thesis by (simp add: GG_MAX_OBJECT_DEPTH_def)
    next
      case False
      have "ref_done rel W m1 (ref_obj act (Suc d) s v ?a) (vobj h (Suc d) ?q s c1 m1)"
        using Cons.prems(1)[of v] 1(2) v Cons.prems(7) by (simp add: visited_def)
      then have "ref_done rel W m1 (case ref_obj act (Suc d) s v ?a of (e, s', a') \<Rightarrow>
         if e \<noteq> GG_ERR_OK then (e, s', a') else ref_list act d s' (Suc i) vs a') (vlist h d p i s c m)"
      proof (rule ref_done_child)
        fix e c2 m2 assume "vobj h (Suc d) ?q s c1 m1 (Fail e c2 m2)"
        then show "vlist h d p i s c m (Fail e c2 m2)" by (rule list_item_err[OF L i 1(1) False])
      next
        fix s' a' c2 m2 assume 2: "vobj h (Suc d) ?q s c1 m1 (Next s' c2 m2)" "rel a' c2 m2"
          "agree_off W m1 m2" "s' \<le> 255"
        have "ref_done rel W m2 (ref_list act d s' (Suc i) vs a') (vlist h d p (Suc i) s' c2 m2)"
          using Cons.prems 2 p rest objs_off[OF 2(3) rest(2,1)] rd_off[OF 2(3) Cons.prems(8)]
          unfolding q by (intro Cons.IH) auto
        then show "ref_done rel W m2 (ref_list act d s' (Suc i) vs a') (vlist h d p i s c m)"
          by (rule ref_done_mono) (rule list_item[OF L i 1(1) False 2(1)], simp only: u8)
      qed
      with False show ?thesis by (simp add: GG_MAX_OBJECT_DEPTH_def)
    qed
  qed
qed

lemma visited_map_item:
  assumes M: "gg_obj_into_map (rd m p obj_size) = Some l" and i: "i \<noteq> map_len l" "u8 (i + 1) = Suc i"
    and cont: "cont i (cont_map h) c m = Some (GG_ERR_OK, c1, m1)"
    and key: "call2 (on_map_key h) (gg_kv_key (rd m1 (map_pairs l + kv_size * i) kv_size))
        (map_pairs l + kv_size * i) c1 m1 = Some (GG_ERR_OK, c2, m2)"
    and v: "rel a c2 m2" "visited v" "s \<le> 255" "obj_at m2 (gg_kv_val (map_pairs l + kv_size * i)) v"
      "obj_foot m2 (gg_kv_val (map_pairs l + kv_size * i)) v \<inter> W = {}"
    and rest: "\<And>s' a' c3 m3. rel a' c3 m3 \<Longrightarrow> agree_off W m2 m3 \<Longrightarrow> s' \<le> 255 \<Longrightarrow>
        ref_done rel W m3 (ref_map act d s' (Suc i) kvs a') (vmap h d p (Suc i) s' c3 m3)"
  shows "ref_done rel W m2 (if Suc d = 15 then (GG_ERR_RANGE, s, a)
      else (case ref_obj act (Suc d) s v a of (e, s', a') \<Rightarrow>
        if e \<noteq> GG_ERR_OK then (e, s', a') else ref_map act d s' (Suc i) kvs a')) (vmap h d p i s c m)"
proof (cases "Suc d = GG_MAX_OBJECT_DEPTH")
  case True
  have "ref_done rel W m2 (GG_ERR_RANGE, s, a) (vmap h d p i s c m)"
    by (rule ref_done_range[where c = c2 and m = m2]) (rule map_deep[OF M i(1) cont refl key True], rule v(1))
  with True show ?thesis by (simp add: GG_MAX_OBJECT_DEPTH_def)
next
  case False
  let ?q = "gg_kv_val (map_pairs l + kv_size * i)"
  have "ref_done rel W m2 (ref_obj act (Suc d) s v a) (vobj h (Suc d) ?q s c2 m2)"
    using v by (simp add: visited_def)
  then have "ref_done rel W m2 (case ref_obj act (Suc d) s v a of (e, s', a') \<Rightarrow>
      if e \<noteq> GG_ERR_OK then (e, s', a') else ref_map act d s' (Suc i) kvs a') (vmap h d p i s c m)"
  proof (rule ref_done_child)
    fix e c3 m3 assume "vobj h (Suc d) ?q s c2 m2 (Fail e c3 m3)"
    then show "vmap h d p i s c m (Fail e c3 m3)" by (rule map_item_err[OF M i(1) cont refl key False])
  next
    fix s' :: nat and a' c3 m3 assume 3: "vobj h (Suc d) ?q s c2 m2 (Next s' c3 m3)" "rel a' c3 m3"
      "agree_off W m2 m3" "s' \<le> 255"
    show "ref_done rel W m3 (ref_map act d s' (Suc i) kvs a') (vmap h d p i s c m)"
      by (rule ref_done_mono[OF rest[OF 3(2-4)]]) (rule map_item[OF M i(1) cont refl key False 3(1)], simp only: i(2))
  qed
  with False show ?thesis by (simp add: GG_MAX_OBJECT_DEPTH_def)
qed

lemma visited_map:
  assumes "\<And>kv. kv \<in> set kvs \<Longrightarrow> visited (snd kv)"
    "rel a c m" "gg_obj_into_map (rd m p obj_size) = Some l" "map_len l = i + length kvs" "map_len l \<le> 127"
    "kvs_at m (map_pairs l + kv_size * i) kvs" "s \<le> 255" "{p..<p + obj_size} \<inter> W = {}"
    "kvs_foot m (map_pairs l + kv_size * i) kvs \<inter> W = {}"
  shows "ref_done rel W m (ref_map act d s i kvs a) (vmap h d p i s c m)"
  using assms
proof (induction kvs arbitrary: i s a c m)
  case Nil
  then show ?case unfolding ref_map.simps
    by (intro ref_done_end[OF call_end_map]) (auto intro: map_end)
next
  case (Cons kv kvs)
  obtain k v where kv: "kv = (k, v)" by (cases kv)
  let ?q = "map_pairs l + kv_size * i"
  have i: "i \<noteq> map_len l" and u8: "u8 (i + 1) = Suc i" and q: "?q + kv_size = map_pairs l + kv_size * Suc i"
    using Cons.prems by simp_all
  let ?x = "if i \<noteq> 0 then act EvContMap a else (GG_ERR_OK, a)"
  have eff: "effect rel W m ?x (cont i (cont_map h) c m)"
    using call_cont_map[OF Cons.prems(2)] Cons.prems(2) by (auto simp: cont_def effect_def)
  note L = Cons.prems(3)
  show ?case unfolding kv ref_map.simps
  proof (rule ref_done_call[OF eff])
    fix e c1 m1 assume "cont i (cont_map h) c m = Some (e, c1, m1)" "e \<noteq> GG_ERR_OK"
    then show "vmap h d p i s c m (Fail e c1 m1)" by (rule map_cont_err[OF L i])
  next
    fix c1 m1 assume 1: "cont i (cont_map h) c m = Some (GG_ERR_OK, c1, m1)" "rel (snd ?x) c1 m1" "agree_off W m m1"
    have at1: "kvs_at m1 ?q ((k, v) # kvs)" "kvs_foot m1 ?q ((k, v) # kvs) \<inter> W = {}"
      and p1: "rd m1 p obj_size = rd m p obj_size"
      using kvs_off[OF 1(3), of ?q "kv # kvs"] rd_off[OF 1(3) Cons.prems(8)] Cons.prems(6,9)
      unfolding kv by simp_all
    let ?u = "gg_kv_key (rd m1 ?q kv_size)"
    have u: "contents m1 ?u = k" using at1(1) by simp
    have ul: "length k = buf_len ?u" using u by (metis length_contents)
    have ud: "buf_data ?u = le_val (rd m1 ?q 8)" by (simp add: gg_kv_key_def)
    have "effect rel W m1 (act (EvKey k) (snd ?x)) (call2 (on_map_key h) ?u ?q c1 m1)"
      unfolding u[symmetric] using 1(2) at1(2) ul ud
      by (intro call_key kv_key_len) (auto simp: Let_def Int_Un_distrib2)
    then show "ref_done rel W m1 (andthen (act (EvKey k) (snd ?x)) s (\<lambda>a.
        if Suc d = 15 then (GG_ERR_RANGE, s, a)
        else (case ref_obj act (Suc d) s v a of (e, s', a') \<Rightarrow>
          if e \<noteq> GG_ERR_OK then (e, s', a') else ref_map act d s' (Suc i) kvs a'))) (vmap h d p i s c m)"
    proof (rule ref_done_call)
      fix e c2 m2 assume "call2 (on_map_key h) ?u ?q c1 m1 = Some (e, c2, m2)" "e \<noteq> GG_ERR_OK"
      then show "vmap h d p i s c m (Fail e c2 m2)" by (rule map_key_err[OF L i 1(1) refl])
    next
      fix c2 m2 assume 2: "call2 (on_map_key h) ?u ?q c1 m1 = Some (GG_ERR_OK, c2, m2)"
        "rel (snd (act (EvKey k) (snd ?x))) c2 m2" "agree_off W m1 m2"
      have at2: "kvs_at m2 ?q ((k, v) # kvs)" "kvs_foot m2 ?q ((k, v) # kvs) \<inter> W = {}"
        and p2: "rd m2 p obj_size = rd m p obj_size"
        using kvs_off[OF 2(3) at1(2,1)] rd_off[OF 2(3) Cons.prems(8)] at1(2) p1 by simp_all
      show "ref_done rel W m2 (if Suc d = 15 then (GG_ERR_RANGE, s, snd (act (EvKey k) (snd ?x)))
        else (case ref_obj act (Suc d) s v (snd (act (EvKey k) (snd ?x))) of (e, s', a') \<Rightarrow>
          if e \<noteq> GG_ERR_OK then (e, s', a') else ref_map act d s' (Suc i) kvs a')) (vmap h d p i s c m)"
      proof (rule visited_map_item[OF L i u8 1(1) 2(1) 2(2) _ Cons.prems(7)])
        show "visited v" using Cons.prems(1)[of kv] kv by simp
        show "obj_at m2 (gg_kv_val ?q) v" "obj_foot m2 (gg_kv_val ?q) v \<inter> W = {}"
          using at2 kvs_foot_val[where m = m2 and q = ?q and v = v and k = k and kvs = kvs] by auto
        fix s' :: nat and a' c3 m3 assume 3: "rel a' c3 m3" "agree_off W m2 m3" "s' \<le> 255"
        have rest: "kvs_at m2 (?q + kv_size) kvs" "kvs_foot m2 (?q + kv_size) kvs \<inter> W = {}"
          using at2 by auto
        show "ref_done rel W m3 (ref_map act d s' (Suc i) kvs a') (vmap h d p (Suc i) s' c3 m3)"
          using Cons.prems 3 p2 kvs_off[OF 3(2) rest(2,1)] rest rd_off[OF 3(2) Cons.prems(8)]
          unfolding q by (intro Cons.IH) auto
      qed
    qed
  qed
qed

lemma visited_buf: "visited (VBuf bs)"
  unfolding visited_def
proof (intro allI impI)
  fix d p s :: nat and a c m assume *: "s \<le> 255" "rel a c m" "obj_at m p (VBuf bs)" "obj_foot m p (VBuf bs) \<inter> W = {}"
  then obtain u where u: "gg_obj_into_buf (rd m p obj_size) = Some u" "contents m u = bs"
    by (auto split: option.splits)
  have "buf_len u = length bs" using u(2) by auto
  then have "effect rel W m (act (EvBuf (contents m u)) a) (call2 (on_buf h) u p c m)"
    using *(2,4) into_len_bound(1)[OF u(1)] into_val(1)[OF u(1)]
    by (intro call_buf) (auto simp: Let_def Int_Un_distrib2)
  then show "ref_done rel W m (ref_obj act d s (VBuf bs) a) (vobj h d p s c m)"
    using *(1) u unfolding ref_obj.simps
    by (intro ref_done_end leaf[OF into_type(4)[OF u(1)]]) (auto simp: leaf_act_def Let_def)
qed

lemma visited_VList:
  assumes "\<And>v. v \<in> set vs \<Longrightarrow> visited v"
  shows "visited (VList vs)"
  unfolding visited_def
proof (intro allI impI)
  fix d p s :: nat and a c m assume *: "s \<le> 255" "rel a c m" "obj_at m p (VList vs)" "obj_foot m p (VList vs) \<inter> W = {}"
  then obtain l where l: "gg_obj_into_list (rd m p obj_size) = Some l" "list_len l = length vs"
    "objs_at m (list_items l) vs" by (auto split: option.splits)
  have foot: "{p..<p + obj_size} \<inter> W = {}" "objs_foot m (list_items l) vs \<inter> W = {}"
    using *(4) into_val(2)[OF l(1)] by auto
  show "ref_done rel W m (ref_obj act d s (VList vs) a) (vobj h d p s c m)"
  proof (cases "length vs > 255 - s")
    case True
    then have "vobj h d p s c m (Fail GG_ERR_RANGE c m)"
      using l(2) by (intro list_range[OF l(1)]) (simp add: GG_MAX_OBJECT_SUBOBJECTS_def)
    with True *(2) show ?thesis by (simp add: ref_done_range)
  next
    case False
    then have le: "list_len l \<le> GG_MAX_OBJECT_SUBOBJECTS - s" "length vs \<le> 255"
      "u8 (s + u8 (list_len l)) = s + length vs"
      using *(1) l(2) by (simp_all add: GG_MAX_OBJECT_SUBOBJECTS_def)
    have "ref_done rel W m (andthen (act (EvList vs) a) s (ref_list act d (s + length vs) 0 vs)) (vobj h d p s c m)"
    proof (rule ref_done_call[OF call_list[OF *(2) l(2) le(2)]])
      fix e c1 m1 assume "call2 (on_list h) l p c m = Some (e, c1, m1)" "e \<noteq> GG_ERR_OK"
      then show "vobj h d p s c m (Fail e c1 m1)" by (rule list_err[OF l(1) le(1)])
    next
      fix c1 m1 assume 1: "call2 (on_list h) l p c m = Some (GG_ERR_OK, c1, m1)"
        "rel (snd (act (EvList vs) a)) c1 m1" "agree_off W m m1"
      have "ref_done rel W m1 (ref_list act d (s + length vs) 0 vs (snd (act (EvList vs) a)))
          (vlist h d p 0 (s + length vs) c1 m1)"
        using assms 1(2) l le False *(1) foot objs_off[OF 1(3) foot(2) l(3)] rd_off[OF 1(3) foot(1)]
        by (intro visited_list) auto
      then show "ref_done rel W m1 (ref_list act d (s + length vs) 0 vs (snd (act (EvList vs) a))) (vobj h d p s c m)"
        by (rule ref_done_mono) (rule list[OF l(1) le(1) 1(1)], simp only: le(3))
    qed
    with False show ?thesis by simp
  qed
qed

lemma visited_VMap:
  assumes "\<And>kv. kv \<in> set kvs \<Longrightarrow> visited (snd kv)"
  shows "visited (VMap kvs)"
  unfolding visited_def
proof (intro allI impI)
  fix d p s :: nat and a c m assume *: "s \<le> 255" "rel a c m" "obj_at m p (VMap kvs)" "obj_foot m p (VMap kvs) \<inter> W = {}"
  then obtain l where l: "gg_obj_into_map (rd m p obj_size) = Some l" "map_len l = length kvs"
    "kvs_at m (map_pairs l) kvs" by (auto split: option.splits)
  have foot: "{p..<p + obj_size} \<inter> W = {}" "kvs_foot m (map_pairs l) kvs \<inter> W = {}"
    using *(4) into_val(3)[OF l(1)] by auto
  show "ref_done rel W m (ref_obj act d s (VMap kvs) a) (vobj h d p s c m)"
  proof (cases "2 * length kvs > 255 - s")
    case True
    then have "map_len l > (GG_MAX_OBJECT_SUBOBJECTS - s) div 2"
      using l(2) by (simp add: GG_MAX_OBJECT_SUBOBJECTS_def)
    then have "vobj h d p s c m (Fail GG_ERR_RANGE c m)" by (rule map_range[OF l(1)])
    with True *(2) show ?thesis by (simp add: ref_done_range)
  next
    case False
    then have le: "map_len l \<le> (GG_MAX_OBJECT_SUBOBJECTS - s) div 2" "length kvs \<le> 127"
      "u8 (s + u8 (map_len l * 2)) = s + 2 * length kvs"
      using *(1) l(2) by (simp_all add: GG_MAX_OBJECT_SUBOBJECTS_def)
    have "ref_done rel W m (andthen (act (EvMap kvs) a) s (ref_map act d (s + 2 * length kvs) 0 kvs)) (vobj h d p s c m)"
    proof (rule ref_done_call[OF call_map[OF *(2) l(2) le(2) l(3) foot(2)]])
      fix e c1 m1 assume "call2 (on_map h) l p c m = Some (e, c1, m1)" "e \<noteq> GG_ERR_OK"
      then show "vobj h d p s c m (Fail e c1 m1)" by (rule map_err[OF l(1) le(1)])
    next
      fix c1 m1 assume 1: "call2 (on_map h) l p c m = Some (GG_ERR_OK, c1, m1)"
        "rel (snd (act (EvMap kvs) a)) c1 m1" "agree_off W m m1"
      have "ref_done rel W m1 (ref_map act d (s + 2 * length kvs) 0 kvs (snd (act (EvMap kvs) a)))
          (vmap h d p 0 (s + 2 * length kvs) c1 m1)"
        using assms 1(2) l le False *(1) foot kvs_off[OF 1(3) foot(2) l(3)] rd_off[OF 1(3) foot(1)]
        by (intro visited_map) auto
      then show "ref_done rel W m1 (ref_map act d (s + 2 * length kvs) 0 kvs (snd (act (EvMap kvs) a))) (vobj h d p s c m)"
        by (rule ref_done_mono) (rule map[OF l(1) le(1) 1(1)], simp only: le(3))
    qed
    with False show ?thesis by simp
  qed
qed

lemma visited_obj: "val_all ok v \<Longrightarrow> visited v"
proof (induction v)
  case (VMap kvs)
  then show ?case by (intro visited_VMap) (auto simp: snds.intros kvs_all_iff)
next
  case (VList vs)
  then show ?case by (intro visited_VList) (auto simp: vals_all_iff)
next
  case (VBuf bs)
  show ?case by (rule visited_buf)
qed (auto simp: visited_def leaf_act_def Let_def dest: into_type
    intro!: ref_done_end leaf call_null call_bool call_i64 call_f64)

text \<open>The visit of an object whose footprint is disjoint from what the handlers write returns, with
  the error code of the recursion over the value.\<close>

lemma visit_result:
  assumes "rel a c m" "obj_at m p v" "obj_foot m p v \<inter> W = {}" "val_all ok v"
  shows "\<exists>c' m'. gg_obj_visit h c p m = Some (fst (ref_obj act 0 0 v a), c', m') \<and>
    rel (snd (snd (ref_obj act 0 0 v a))) c' m' \<and> agree_off W m m'"
proof -
  have "ref_done rel W m (ref_obj act 0 0 v a) (vobj h 0 p 0 c m)"
    using visited_obj[of v] assms by (simp add: visited_def)
  then obtain c' m' where "vobj h 0 p 0 c m (ref_res (ref_obj act 0 0 v a) c' m')"
    "rel (snd (snd (ref_obj act 0 0 v a))) c' m'" "agree_off W m m'" by (auto simp: ref_done_def)
  then show ?thesis
    by (intro exI[of _ c'] exI[of _ m']) (auto simp: visit_performs ref_res_def split: prod.splits)
qed

end

section \<open>Properties\<close>

text \<open>C16: The visitor's loop over its fixed array of levels does exactly what the recursive traversal
  does, whatever the handlers do to the context and to the objects still to be visited: where the
  traversal of the object returns, the loop terminates with the same error code, context and memory.\<close>

theorem gg_obj_visit_traverses:
  assumes "vobj h 0 p 0 c m r"
  shows "gg_obj_visit h c p m =
    Some (case r of Fail e c' m' \<Rightarrow> (e, c', m') | Next s c' m' \<Rightarrow> (GG_ERR_OK, c', m'))"
  using assms by (rule visit_performs)

theorem gg_obj_visit_traverses_witness:
  "gg_obj_visit (no_handlers\<lparr>on_null := Some (\<lambda>c m. Some (GG_ERR_BUSY, c + 1, m))\<rparr>) (0 :: nat) 8 (\<lambda>_. 0) =
     Some (GG_ERR_BUSY, 1, \<lambda>_. 0)"
proof -
  let ?h = "no_handlers\<lparr>on_null := Some (\<lambda>c m. Some (GG_ERR_BUSY, c + 1, m))\<rparr> :: nat GgObjectVisitHandlers"
  have "gg_obj_type (rd (\<lambda>_. 0) 8 obj_size) = Some GG_TYPE_NULL" by (simp add: gg_obj_type_def)
  from leaf[OF this, of ?h 0 "(GG_ERR_BUSY, 1, \<lambda>_. 0)" 0 0]
  have "vobj ?h 0 8 0 0 (\<lambda>_. 0) (Fail GG_ERR_BUSY 1 (\<lambda>_. 0))"
    by (simp add: leaf_act_def call0_def no_handlers_def after_def)
  from gg_obj_visit_traverses[OF this] show ?thesis by simp
qed

end
