(* ===== verification/Object_Ops.thy ===== *)
theory Object_Ops
  imports Visit
begin

text \<open>
  The operations built on the object visitor: measuring an object (\<open>gg_obj_mem_usage\<close> in
  \<open>src/object.c\<close>), copying it into an arena (\<open>gg_arena_claim_obj\<close>,
  \<open>gg_arena_claim_obj_bufs\<close> in \<open>src/arena.c\<close>), and canonical form
  (\<open>src/object_canonical.c\<close>).
\<close>

section \<open>Definitions\<close>

text \<open>\<open>gg_obj_mem_usage\<close>: the context is \<open>size_t measured\<close>.\<close>

definition mem_usage_buf :: "GgBuffer \<Rightarrow> addr \<Rightarrow> nat act" where
  "mem_usage_buf val obj measured m = Some (GG_ERR_OK, u64 (measured + buf_len val), m)"

definition mem_usage_list :: "GgList \<Rightarrow> addr \<Rightarrow> nat act" where
  "mem_usage_list val obj measured m = Some (GG_ERR_OK, u64 (measured + list_len val * obj_size), m)"

definition mem_usage_map :: "GgMap \<Rightarrow> addr \<Rightarrow> nat act" where
  "mem_usage_map val obj measured m = Some (GG_ERR_OK, u64 (measured + map_len val * kv_size), m)"

definition mem_usage_map_key :: "GgBuffer \<Rightarrow> addr \<Rightarrow> nat act" where
  "mem_usage_map_key key kv measured m = Some (GG_ERR_OK, u64 (measured + buf_len key), m)"

definition mem_usage_handlers :: "nat GgObjectVisitHandlers" where
  "mem_usage_handlers = no_handlers\<lparr>on_buf := Some mem_usage_buf, on_map_key := Some mem_usage_map_key,
     on_map := Some mem_usage_map, on_list := Some mem_usage_list\<rparr>"

text \<open>The result is the error code and what is stored in \<open>*size\<close>. The object is visited at its
  address \<open>obj\<close> (the parameter's own copy in the code).\<close>

definition gg_obj_mem_usage :: "mem \<Rightarrow> addr \<Rightarrow> nat res run" where
  "gg_obj_mem_usage m obj = do {
     (ret, measured, _) \<leftarrow> gg_obj_visit mem_usage_handlers 0 obj m;
     Some (if ret = GG_ERR_OK then Inr measured else Inl ret)
   }"

text \<open>\<open>gg_arena_claim_obj\<close>: the context is the arena.\<close>

definition claim_buf :: "GgBuffer \<Rightarrow> addr \<Rightarrow> GgArena option act" where
  "claim_buf val obj arena m = do {
     (ret, val', arena', m') \<leftarrow> gg_arena_claim_buf m val arena;
     x \<leftarrow> gg_obj_buf val';
     Some (ret, arena', wr m' obj x)
   }"

definition claim_list :: "GgList \<Rightarrow> addr \<Rightarrow> GgArena option act" where
  "claim_list val obj arena m =
     (if gg_arena_owns arena (list_items val) then Some (GG_ERR_OK, arena, m)
      else if list_len val = 0 then do {
        x \<leftarrow> gg_obj_list \<lparr>list_items = NULL, list_len = 0\<rparr>;
        Some (GG_ERR_OK, arena, wr m obj x)
      }
      else do {
        (new_mem, arena') \<leftarrow> gg_arena_alloc arena (list_len val * obj_size) 1;
        if new_mem = NULL then Some (GG_ERR_NOMEM, arena', m)
        else do {
          let m' = memcpy m new_mem (list_items val) (list_len val * obj_size);
          x \<leftarrow> gg_obj_list \<lparr>list_items = new_mem, list_len = list_len val\<rparr>;
          Some (GG_ERR_OK, arena', wr m' obj x)
        }
      })"

definition claim_map :: "GgMap \<Rightarrow> addr \<Rightarrow> GgArena option act" where
  "claim_map val obj arena m =
     (if gg_arena_owns arena (map_pairs val) then Some (GG_ERR_OK, arena, m)
      else if map_len val = 0 then do {
        x \<leftarrow> gg_obj_map \<lparr>map_pairs = NULL, map_len = 0\<rparr>;
        Some (GG_ERR_OK, arena, wr m obj x)
      }
      else do {
        (new_mem, arena') \<leftarrow> gg_arena_alloc arena (map_len val * kv_size) 1;
        if new_mem = NULL then Some (GG_ERR_NOMEM, arena', m)
        else do {
          let m' = memcpy m new_mem (map_pairs val) (map_len val * kv_size);
          x \<leftarrow> gg_obj_map \<lparr>map_pairs = new_mem, map_len = map_len val\<rparr>;
          Some (GG_ERR_OK, arena', wr m' obj x)
        }
      })"

definition claim_map_key :: "GgBuffer \<Rightarrow> addr \<Rightarrow> GgArena option act" where
  "claim_map_key key kv arena m = do {
     (ret, key', arena', m') \<leftarrow> gg_arena_claim_buf m key arena;
     x \<leftarrow> gg_kv_set_key (rd m' kv kv_size) key';
     Some (ret, arena', wr m' kv x)
   }"

definition claim_handlers :: "GgArena option GgObjectVisitHandlers" where
  "claim_handlers = no_handlers\<lparr>on_buf := Some claim_buf, on_list := Some claim_list,
     on_map := Some claim_map, on_map_key := Some claim_map_key\<rparr>"

definition gg_arena_claim_obj ::
    "mem \<Rightarrow> addr \<Rightarrow> GgArena option \<Rightarrow> (GgError \<times> GgArena option \<times> mem) run" where
  "gg_arena_claim_obj m obj arena = gg_obj_visit claim_handlers arena obj m"

definition claim_bufs_handlers :: "GgArena option GgObjectVisitHandlers" where
  "claim_bufs_handlers = no_handlers\<lparr>on_buf := Some claim_buf, on_map_key := Some claim_map_key\<rparr>"

definition gg_arena_claim_obj_bufs ::
    "mem \<Rightarrow> addr \<Rightarrow> GgArena option \<Rightarrow> (GgError \<times> GgArena option \<times> mem) run" where
  "gg_arena_claim_obj_bufs m obj arena = gg_obj_visit claim_bufs_handlers arena obj m"

text \<open>Canonical form; \<open>pruned\<close> is the literal of \<open>prune_duplicates\<close>.\<close>

definition canonicalize_map :: "GgBuffer \<Rightarrow> GgMap \<Rightarrow> addr \<Rightarrow> unit act" where
  "canonicalize_map pruned val obj ctx m = do {
     (m', val') \<leftarrow> gg_map_canonicalize_shallow pruned m val;
     x \<leftarrow> gg_obj_map val';
     Some (GG_ERR_OK, ctx, wr m' obj x)
   }"

definition gg_obj_canonicalize :: "GgBuffer \<Rightarrow> mem \<Rightarrow> addr \<Rightarrow> (GgError \<times> mem) run" where
  "gg_obj_canonicalize pruned m obj =
     (if obj = NULL then Some (GG_ERR_OK, m)
      else do {
        (ret, _, m') \<leftarrow> gg_obj_visit (no_handlers\<lparr>on_map := Some (canonicalize_map pruned)\<rparr>) () obj m;
        Some (ret, m')
      })"

definition is_map_canonical :: "GgMap \<Rightarrow> addr \<Rightarrow> unit act" where
  "is_map_canonical val obj ctx m =
     Some (if \<not> gg_map_is_canonical m val then GG_ERR_FAILURE else GG_ERR_OK, ctx, m)"

definition gg_obj_is_canonical :: "mem \<Rightarrow> addr \<Rightarrow> bool run" where
  "gg_obj_is_canonical m obj = do {
     (ret, _, _) \<leftarrow> gg_obj_visit (no_handlers\<lparr>on_map := Some is_map_canonical\<rparr>) () obj m;
     Some (ret = GG_ERR_OK)
   }"

section \<open>Values: size, depth and the calls of a visit\<close>

fun val_count :: "gg_val \<Rightarrow> nat" and vals_count :: "gg_val list \<Rightarrow> nat"
  and kvs_count :: "(bytes \<times> gg_val) list \<Rightarrow> nat" where
  "val_count (VList vs) = length vs + vals_count vs"
| "val_count (VMap kvs) = 2 * length kvs + kvs_count kvs"
| "val_count _ = 0"
| "vals_count [] = 0"
| "vals_count (v # vs) = val_count v + vals_count vs"
| "kvs_count [] = 0"
| "kvs_count ((k, v) # kvs) = val_count v + kvs_count kvs"

text \<open>The number of levels a value needs; an empty container needs one.\<close>

fun val_depth :: "gg_val \<Rightarrow> nat" and vals_depth :: "gg_val list \<Rightarrow> nat"
  and kvs_depth :: "(bytes \<times> gg_val) list \<Rightarrow> nat" where
  "val_depth (VList vs) = Suc (vals_depth vs)"
| "val_depth (VMap kvs) = Suc (kvs_depth kvs)"
| "val_depth _ = 1"
| "vals_depth [] = 0"
| "vals_depth (v # vs) = max (val_depth v) (vals_depth vs)"
| "kvs_depth [] = 0"
| "kvs_depth ((k, v) # kvs) = max (val_depth v) (kvs_depth kvs)"

definition within_limits :: "gg_val \<Rightarrow> bool" where
  "within_limits v \<longleftrightarrow> val_depth v \<le> GG_MAX_OBJECT_DEPTH \<and> val_count v \<le> GG_MAX_OBJECT_SUBOBJECTS"

fun val_usage :: "gg_val \<Rightarrow> nat" and vals_usage :: "gg_val list \<Rightarrow> nat"
  and kvs_usage :: "(bytes \<times> gg_val) list \<Rightarrow> nat" where
  "val_usage (VBuf bs) = length bs"
| "val_usage (VList vs) = length vs * obj_size + vals_usage vs"
| "val_usage (VMap kvs) = length kvs * kv_size + kvs_usage kvs"
| "val_usage _ = 0"
| "vals_usage [] = 0"
| "vals_usage (v # vs) = val_usage v + vals_usage vs"
| "kvs_usage [] = 0"
| "kvs_usage ((k, v) # kvs) = length k + val_usage v + kvs_usage kvs"

fun events :: "gg_val \<Rightarrow> visit_event list" and list_events :: "nat \<Rightarrow> gg_val list \<Rightarrow> visit_event list"
  and map_events :: "nat \<Rightarrow> (bytes \<times> gg_val) list \<Rightarrow> visit_event list" where
  "events VNull = [EvNull]"
| "events (VBool b) = [EvBool b]"
| "events (VI64 w) = [EvI64 w]"
| "events (VF64 w) = [EvF64 w]"
| "events (VBuf bs) = [EvBuf bs]"
| "events (VList vs) = EvList vs # list_events 0 vs"
| "events (VMap kvs) = EvMap kvs # map_events 0 kvs"
| "list_events i [] = [EvEndList]"
| "list_events i (v # vs) = (if i \<noteq> 0 then [EvContList] else []) @ events v @ list_events (Suc i) vs"
| "map_events i [] = [EvEndMap]"
| "map_events i ((k, v) # kvs) =
     (if i \<noteq> 0 then [EvContMap] else []) @ [EvKey k] @ events v @ map_events (Suc i) kvs"

fun run_events :: "(visit_event \<Rightarrow> 'a \<Rightarrow> GgError \<times> 'a) \<Rightarrow> visit_event list \<Rightarrow> 'a \<Rightarrow> GgError \<times> 'a" where
  "run_events act [] a = (GG_ERR_OK, a)"
| "run_events act (ev # evs) a =
     (case act ev a of (e, a') \<Rightarrow> if e \<noteq> GG_ERR_OK then (e, a') else run_events act evs a')"

text \<open>A visit of a value within the limits is the sequence of its handler calls.\<close>

lemma run_events_append:
  "run_events act (xs @ ys) a =
     (case run_events act xs a of (e, a') \<Rightarrow> if e \<noteq> GG_ERR_OK then (e, a') else run_events act ys a')"
  by (induction xs arbitrary: a) (auto split: prod.splits)

definition amounts :: "GgError \<times> nat \<times> 'a \<Rightarrow> GgError \<times> 'a \<Rightarrow> nat \<Rightarrow> bool" where
  "amounts x r n \<longleftrightarrow> (\<exists>s'. x = (fst r, s', snd r) \<and> (fst r = GG_ERR_OK \<longrightarrow> s' = n))"

lemma amounts_call:
  assumes "\<And>a'. amounts (k a') (run_events act evs a') n"
  shows "amounts (andthen (act ev a) s k) (run_events act (ev # evs) a) n"
  using assms by (auto simp: andthen_def amounts_def split: prod.splits)

lemma amounts_end: "amounts (andthen (act ev a) s (\<lambda>a. (GG_ERR_OK, s, a))) (run_events act [ev] a) s"
  by (rule amounts_call) (simp add: amounts_def)

lemma amounts_child:
  assumes "amounts y (run_events act xs a) n1" "\<And>a'. y = (GG_ERR_OK, n1, a') \<Longrightarrow> amounts (k n1 a') (run_events act ys a') n"
  shows "amounts (case y of (e, s', a') \<Rightarrow> if e \<noteq> GG_ERR_OK then (e, s', a') else k s' a')
     (run_events act (xs @ ys) a) n"
proof -
  obtain s' where "y = (fst (run_events act xs a), s', snd (run_events act xs a))"
    "fst (run_events act xs a) = GG_ERR_OK \<longrightarrow> s' = n1" using assms(1) by (auto simp: amounts_def)
  then show ?thesis using assms(2)[of "snd (run_events act xs a)"]
    by (cases "run_events act xs a") (auto simp: run_events_append amounts_def)
qed

lemma amounts_cont:
  assumes "\<And>a'. amounts (k a') (run_events act evs a') n"
  shows "amounts (andthen (if i \<noteq> 0 then act ev a else (GG_ERR_OK, a)) s k)
     (run_events act ((if i \<noteq> 0 then [ev] else []) @ evs) a) n"
proof (cases "i = 0")
  case True
  with assms show ?thesis by (simp add: andthen_def)
next
  case False
  have "amounts (andthen (act ev a) s k) (run_events act (ev # evs) a) n" using assms by (rule amounts_call)
  with False show ?thesis by (simp only: not_False_eq_True if_True append.simps)
qed

lemma ref_events:
  "d + val_depth v \<le> 15 \<Longrightarrow> s + val_count v \<le> 255 \<Longrightarrow>
     amounts (ref_obj act d s v a) (run_events act (events v) a) (s + val_count v)"
  "d + vals_depth vs < 15 \<Longrightarrow> s + vals_count vs \<le> 255 \<Longrightarrow>
     amounts (ref_list act d s i vs a) (run_events act (list_events i vs) a) (s + vals_count vs)"
  "d + kvs_depth kvs < 15 \<Longrightarrow> s + kvs_count kvs \<le> 255 \<Longrightarrow>
     amounts (ref_map act d s i kvs a) (run_events act (map_events i kvs) a) (s + kvs_count kvs)"
proof (induction act d s v a and act d s i vs a and act d s i kvs a rule: ref_obj_ref_list_ref_map.induct)
  case (6 act d s vs a)
  have ne: "\<not> length vs > 255 - s" using "6.prems" by simp
  show ?case unfolding ref_obj.simps if_not_P[OF ne] events.simps val_count.simps add.assoc[symmetric]
    using "6.prems" by (intro amounts_call "6.IH" ne) auto
next
  case (7 act d s kvs a)
  have ne: "\<not> 2 * length kvs > 255 - s" using "7.prems" by simp
  show ?case unfolding ref_obj.simps if_not_P[OF ne] events.simps val_count.simps add.assoc[symmetric]
    using "7.prems" by (intro amounts_call "7.IH" ne) auto
next
  case (9 act d s i v vs a)
  have d: "Suc d \<noteq> 15" using "9.prems" by (cases v) auto
  show ?case unfolding ref_list.simps list_events.simps if_not_P[OF d]
  proof (intro amounts_cont amounts_child[OF "9.IH"(1)])
    fix a' a'' assume eq: "ref_obj act (Suc d) s v a' = (GG_ERR_OK, s + val_count v, a'')"
    show "amounts (ref_list act d (s + val_count v) (Suc i) vs a'') (run_events act (list_events (Suc i) vs) a'')
       (s + vals_count (v # vs))"
      using "9.IH"(2)[OF d eq[symmetric] refl] "9.prems" by (simp add: add.assoc)
  qed (use "9.prems" d in auto)
next
  case (11 act d s i k v kvs a)
  have d: "Suc d \<noteq> 15" using "11.prems" by (cases v) auto
  show ?case unfolding ref_map.simps map_events.simps if_not_P[OF d] append.simps
  proof (intro amounts_cont amounts_call amounts_child[OF "11.IH"(1)])
    fix a' a'' a3 assume eq: "ref_obj act (Suc d) s v a'' = (GG_ERR_OK, s + val_count v, a3)"
    show "amounts (ref_map act d (s + val_count v) (Suc i) kvs a3) (run_events act (map_events (Suc i) kvs) a3)
       (s + kvs_count ((k, v) # kvs))"
      using "11.IH"(2)[OF d eq[symmetric] refl] "11.prems" by (simp add: add.assoc)
  qed (use "11.prems" d in auto)
qed (simp_all only: ref_obj.simps ref_list.simps ref_map.simps events.simps list_events.simps map_events.simps
    val_count.simps vals_count.simps kvs_count.simps amounts_end add_0_right)

text \<open>A visit of a value outside the limits fails: with \<open>GG_ERR_RANGE\<close>, or with the error of a
  handler called before the limit was reached.\<close>

definition fails :: "(visit_event \<Rightarrow> 'a \<Rightarrow> GgError \<times> 'a) \<Rightarrow> GgError \<Rightarrow> bool" where
  "fails act e \<longleftrightarrow> e \<noteq> GG_ERR_OK \<and> (e = GG_ERR_RANGE \<or> (\<exists>ev a. fst (act ev a) = e))"

lemma fails_andthen:
  assumes "\<And>a'. fails act (fst (k a'))"
  shows "fails act (fst (andthen (act ev a) s k))"
  using assms by (auto simp: andthen_def fails_def)

lemma fails_cont:
  assumes "\<And>a'. fails act (fst (k a'))"
  shows "fails act (fst (andthen (if i \<noteq> 0 then act ev a else (GG_ERR_OK, a)) s k))"
  using assms by (auto simp: andthen_def fails_def)

lemma run_events_fails:
  "fst (run_events act evs a) \<noteq> GG_ERR_OK \<Longrightarrow> fails act (fst (run_events act evs a))"
  by (induction evs arbitrary: a) (auto simp: fails_def split: prod.splits if_splits, metis fst_conv)

lemma fails_child:
  assumes "d + val_depth v \<le> 15 \<and> s + val_count v \<le> 255 \<Longrightarrow>
      (\<And>a'. ref_obj act d s v a = (GG_ERR_OK, s + val_count v, a') \<Longrightarrow> fails act (fst (k (s + val_count v) a')))"
    and "\<not> (d + val_depth v \<le> 15 \<and> s + val_count v \<le> 255) \<Longrightarrow> fails act (fst (ref_obj act d s v a))"
  shows "fails act (fst (case ref_obj act d s v a of (e, s', a') \<Rightarrow> if e \<noteq> GG_ERR_OK then (e, s', a') else k s' a'))"
proof (cases "d + val_depth v \<le> 15 \<and> s + val_count v \<le> 255")
  case False
  with assms(2) show ?thesis by (auto simp: fails_def split: prod.splits)
next
  case True
  then have "amounts (ref_obj act d s v a) (run_events act (events v) a) (s + val_count v)"
    by (intro ref_events) auto
  then obtain s' where r: "ref_obj act d s v a = (fst (run_events act (events v) a), s', snd (run_events act (events v) a))"
    "fst (run_events act (events v) a) = GG_ERR_OK \<longrightarrow> s' = s + val_count v" by (auto simp: amounts_def)
  show ?thesis
  proof (cases "fst (run_events act (events v) a) = GG_ERR_OK")
    case ok: True
    with r assms(1)[OF True] show ?thesis by simp
  next
    case False
    with r(1) run_events_fails[OF False] show ?thesis by simp
  qed
qed

lemma ref_range:
  "d < 15 \<Longrightarrow> s \<le> 255 \<Longrightarrow> \<not> (d + val_depth v \<le> 15 \<and> s + val_count v \<le> 255) \<Longrightarrow>
     fails act (fst (ref_obj act d s v a))"
  "d < 15 \<Longrightarrow> s \<le> 255 \<Longrightarrow> \<not> (d + vals_depth vs < 15 \<and> s + vals_count vs \<le> 255) \<Longrightarrow>
     fails act (fst (ref_list act d s i vs a))"
  "d < 15 \<Longrightarrow> s \<le> 255 \<Longrightarrow> \<not> (d + kvs_depth kvs < 15 \<and> s + kvs_count kvs \<le> 255) \<Longrightarrow>
     fails act (fst (ref_map act d s i kvs a))"
proof (induction act d s v a and act d s i vs a and act d s i kvs a rule: ref_obj_ref_list_ref_map.induct)
  case (6 act d s vs a)
  show ?case
  proof (cases "length vs > 255 - s")
    case ne: False
    show ?thesis unfolding ref_obj.simps if_not_P[OF ne]
      using "6.prems" ne by (intro fails_andthen "6.IH"[OF ne]) auto
  qed (simp add: fails_def)
next
  case (7 act d s kvs a)
  show ?case
  proof (cases "2 * length kvs > 255 - s")
    case ne: False
    show ?thesis unfolding ref_obj.simps if_not_P[OF ne]
      using "7.prems" ne by (intro fails_andthen "7.IH"[OF ne]) auto
  qed (simp add: fails_def)
next
  case (9 act d s i v vs a)
  show ?case unfolding ref_list.simps
  proof (rule fails_cont)
    fix a'
    show "fails act (fst (if Suc d = 15 then (GG_ERR_RANGE, s, a')
       else (case ref_obj act (Suc d) s v a' of (e, s', a') \<Rightarrow>
         if e \<noteq> GG_ERR_OK then (e, s', a') else ref_list act d s' (Suc i) vs a')))"
    proof (cases "Suc d = 15")
      case d: False
      show ?thesis unfolding if_not_P[OF d]
      proof (intro fails_child "9.IH"(1))
        fix a2 assume fit: "Suc d + val_depth v \<le> 15 \<and> s + val_count v \<le> 255"
          and eq: "ref_obj act (Suc d) s v a' = (GG_ERR_OK, s + val_count v, a2)"
        show "fails act (fst (ref_list act d (s + val_count v) (Suc i) vs a2))"
          using "9.prems" fit by (intro "9.IH"(2)[OF d eq[symmetric] refl]) auto
      qed (use "9.prems" d in auto)
    qed (simp add: fails_def)
  qed
next
  case (11 act d s i k v kvs a)
  show ?case unfolding ref_map.simps
  proof (intro fails_cont fails_andthen)
    fix a0 a'
    show "fails act (fst (if Suc d = 15 then (GG_ERR_RANGE, s, a')
       else (case ref_obj act (Suc d) s v a' of (e, s', a') \<Rightarrow>
         if e \<noteq> GG_ERR_OK then (e, s', a') else ref_map act d s' (Suc i) kvs a')))"
    proof (cases "Suc d = 15")
      case d: False
      show ?thesis unfolding if_not_P[OF d]
      proof (intro fails_child "11.IH"(1))
        fix a2 assume fit: "Suc d + val_depth v \<le> 15 \<and> s + val_count v \<le> 255"
          and eq: "ref_obj act (Suc d) s v a' = (GG_ERR_OK, s + val_count v, a2)"
        show "fails act (fst (ref_map act d (s + val_count v) (Suc i) kvs a2))"
          using "11.prems" fit by (intro "11.IH"(2)[OF d eq[symmetric] refl]) auto
      qed (use "11.prems" d in auto)
    qed (simp add: fails_def)
  qed
qed auto

lemma ref_visit:
  "within_limits v \<Longrightarrow> fst (ref_obj act 0 0 v a) = fst (run_events act (events v) a) \<and>
     snd (snd (ref_obj act 0 0 v a)) = snd (run_events act (events v) a)"
  "\<not> within_limits v \<Longrightarrow> fails act (fst (ref_obj act 0 0 v a))"
  using ref_events(1)[of 0 v 0 act a] ref_range(1)[of 0 0 v act a]
  by (auto simp: within_limits_def amounts_def GG_MAX_OBJECT_DEPTH_def GG_MAX_OBJECT_SUBOBJECTS_def)

section \<open>Measuring\<close>

fun ev_size :: "visit_event \<Rightarrow> nat" where
  "ev_size (EvBuf bs) = length bs"
| "ev_size (EvList vs) = length vs * obj_size"
| "ev_size (EvMap kvs) = length kvs * kv_size"
| "ev_size (EvKey k) = length k"
| "ev_size _ = 0"

definition usage_act :: "visit_event \<Rightarrow> nat \<Rightarrow> GgError \<times> nat" where
  "usage_act ev a = (GG_ERR_OK, u64 (a + ev_size ev))"

lemmas call_defs = call0_def call1_def call2_def no_handlers_def

interpretation usage: observer mem_usage_handlers "\<lambda>a c m. c = a \<and> a < 2 ^ 64" usage_act "{}" "\<lambda>_. True"
  by unfold_locales
    (auto simp: effect_def call_defs mem_usage_handlers_def usage_act_def u64_def mem_usage_buf_def
      mem_usage_list_def mem_usage_map_def mem_usage_map_key_def)

lemma u64_add: "u64 (u64 a + b) = u64 (a + b)"
  by (simp add: u64_def mod_add_left_eq)

lemma run_usage:
  "a < 2 ^ 64 \<Longrightarrow> run_events usage_act (events v) a = (GG_ERR_OK, u64 (a + val_usage v))"
  "a < 2 ^ 64 \<Longrightarrow> run_events usage_act (list_events i vs) a = (GG_ERR_OK, u64 (a + vals_usage vs))"
  "a < 2 ^ 64 \<Longrightarrow> run_events usage_act (map_events i kvs) a = (GG_ERR_OK, u64 (a + kvs_usage kvs))"
proof (induction v and i vs and i kvs arbitrary: a and a and a rule: events_list_events_map_events.induct)
qed (auto simp: usage_act_def run_events_append u64_add u64_def mod_add_left_eq add.assoc)

lemma mem_usage_result:
  assumes "obj_at m p v"
  shows "gg_obj_mem_usage m p =
    Some (if within_limits v then Inr (u64 (val_usage v)) else Inl GG_ERR_RANGE)"
proof -
  let ?r = "ref_obj usage_act 0 0 v 0"
  from usage.visit_result[OF _ assms, of 0 0] obtain c' m' where
    "gg_obj_visit mem_usage_handlers 0 p m = Some (fst ?r, c', m')" "c' = snd (snd ?r)" by auto
  then show ?thesis
    using ref_visit[of v usage_act 0] run_usage(1)[of 0 v]
    by (auto simp: gg_obj_mem_usage_def fails_def usage_act_def)
qed

text \<open>Lengths in memory are 16 bits wide, so the measure of an object within the limits is far from
  wrapping around.\<close>

lemma usage_bound:
  "val_blk m x v \<Longrightarrow> val_usage v \<le> 65535 + 65556 * val_count v"
  "objs_at m p vs \<Longrightarrow> vals_usage vs + length vs * obj_size \<le> 65556 * (length vs + vals_count vs)"
  "kvs_at m p kvs \<Longrightarrow> kvs_usage kvs + length kvs * kv_size \<le> 65556 * (2 * length kvs + kvs_count kvs)"
proof (induction m x v and m p vs and m p kvs rule: val_blk_objs_at_kvs_at.induct)
  case (5 m x bs)
  then obtain u where u: "gg_obj_into_buf x = Some u" "contents m u = bs" by (auto split: option.splits)
  with into_len_bound(1)[OF u(1)] show ?case by auto
next
  case (6 m x vs)
  then show ?case by (auto split: option.splits)
next
  case (7 m x kvs)
  then show ?case by (auto split: option.splits)
next
  case (9 m p v vs)
  then show ?case by simp
next
  case (11 m p k v kvs)
  have "length k < 65536" using 11(3) kv_key_len[of m p] by auto
  with 11 show ?case by simp
qed auto

lemma usage_no_wrap: "obj_at m p v \<Longrightarrow> within_limits v \<Longrightarrow> val_usage v < 2 ^ 25"
  using usage_bound(1)[of m "rd m p obj_size" v]
  by (simp add: within_limits_def GG_MAX_OBJECT_SUBOBJECTS_def)

section \<open>Testing for canonical form\<close>

fun val_canonical :: "gg_val \<Rightarrow> bool" and vals_canonical :: "gg_val list \<Rightarrow> bool"
  and kvs_canonical :: "(bytes \<times> gg_val) list \<Rightarrow> bool" where
  "val_canonical (VList vs) = vals_canonical vs"
| "val_canonical (VMap kvs) = (sorted_wrt (<) (map fst kvs) \<and> kvs_canonical kvs)"
| "val_canonical _ = True"
| "vals_canonical [] = True"
| "vals_canonical (v # vs) = (val_canonical v \<and> vals_canonical vs)"
| "kvs_canonical [] = True"
| "kvs_canonical ((k, v) # kvs) = (val_canonical v \<and> kvs_canonical kvs)"

fun canonical_act :: "visit_event \<Rightarrow> unit \<Rightarrow> GgError \<times> unit" where
  "canonical_act (EvMap kvs) a = (if sorted_wrt (<) (map fst kvs) then GG_ERR_OK else GG_ERR_FAILURE, ())"
| "canonical_act _ a = (GG_ERR_OK, ())"

interpretation canonical: observer "no_handlers\<lparr>on_map := Some is_map_canonical\<rparr>"
    "\<lambda>_ _ _. True" canonical_act "{}" "\<lambda>_. True"
  by unfold_locales (auto simp: effect_def call_defs is_map_canonical_def is_canonical_iff)

lemma run_canonical:
  "run_events canonical_act (events v) a = (if val_canonical v then GG_ERR_OK else GG_ERR_FAILURE, ())"
  "run_events canonical_act (list_events i vs) a = (if vals_canonical vs then GG_ERR_OK else GG_ERR_FAILURE, ())"
  "run_events canonical_act (map_events i kvs) a = (if kvs_canonical kvs then GG_ERR_OK else GG_ERR_FAILURE, ())"
  by (induction v and i vs and i kvs arbitrary: a and a and a rule: events_list_events_map_events.induct)
    (auto simp: run_events_append)

lemma is_canonical_result:
  assumes "obj_at m p v"
  shows "gg_obj_is_canonical m p = Some (within_limits v \<and> val_canonical v)"
proof -
  let ?r = "ref_obj canonical_act 0 0 v ()"
  from canonical.visit_result[OF _ assms, of "()"] obtain c' m' where
    "gg_obj_visit (no_handlers\<lparr>on_map := Some is_map_canonical\<rparr>) () p m = Some (fst ?r, c', m')" by auto
  then show ?thesis
    using ref_visit[of v canonical_act "()"] run_canonical(1)[of v "()"]
    by (cases "val_canonical v"; cases "within_limits v") (simp_all add: gg_obj_is_canonical_def fails_def)
qed

section \<open>Properties\<close>

text \<open>\<open>gg_obj_mem_usage\<close> terminates on every well-formed object. It succeeds exactly when the object
  is within the limits on depth and on subobjects, and then outputs the exact number of bytes of the
  arrays, buffers and keys the object refers to, which does not wrap; otherwise it fails with
  GG_ERR_RANGE.\<close>

theorem gg_obj_mem_usage_exact:
  assumes "obj_at m p v"
  shows "gg_obj_mem_usage m p = Some (if within_limits v then Inr (val_usage v) else Inl GG_ERR_RANGE)"
  using mem_usage_result[OF assms] usage_no_wrap[OF assms] by auto

definition obj_mem :: mem where
  "obj_mem = wr (wr (wr (\<lambda>_. 0) 10 [30,0,0,0,0,0,0,0, 1,0, 5]) 30 [50,0,0,0,0,0,0,0, 2,0, 4]) 50 [97,98]"

lemma obj_mem_val: "obj_at obj_mem 10 (VList [VBuf [97, 98]])"
  by code_simp

lemma obj_mem_foot: "blk_foot obj_mem (rd obj_mem 10 obj_size) (VList [VBuf [97, 98]]) = {30..<41} \<union> {50..<52}"
  by (simp add: obj_mem_def rd_def wr_def upt_rec)

lemma obj_mem_limits: "within_limits (VList [VBuf [97, 98]])"
  by code_simp

theorem gg_obj_mem_usage_exact_witness: "gg_obj_mem_usage obj_mem 10 = Some (Inr 13)"
  using gg_obj_mem_usage_exact[of obj_mem 10 "VList [VBuf [97, 98]]"] obj_mem_val obj_mem_limits by simp

text \<open>\<open>gg_obj_is_canonical\<close> answers true exactly for objects within the limits in which every map, at
  every depth, has strictly ascending keys.\<close>

theorem gg_obj_is_canonical_exact:
  assumes "obj_at m p v"
  shows "gg_obj_is_canonical m p = Some (within_limits v \<and> val_canonical v)"
  using assms by (rule is_canonical_result)

theorem gg_obj_is_canonical_exact_witness: "gg_obj_is_canonical obj_mem 10 = Some True"
  using gg_obj_is_canonical_exact[of obj_mem 10 "VList [VBuf [97, 98]]"] obj_mem_val obj_mem_limits by simp

end
