(* ===== verification/Json_Encode.thy ===== *)
theory Json_Encode
  imports Object_Ops Eventstream
begin

unbundle bit_operations_syntax

text \<open>
  JSON encoding (\<open>src/json_encode.c\<close>): the handlers of a visit that write an object through a
  writer, and the reader that produces the JSON text of an object as a packet's payload.

  The conversions of \<open>snprintf\<close> the code uses are written out: \<open>PRId64\<close>, \<open>%02X\<close> and
  \<open>%#.17g\<close> on the bits of a double. Objects are passed to \<open>gg_json_encode\<close> by value; the
  handlers do not write through the object, so the model visits the caller's copy.

  Inside the locale \<open>writer\<close> the encoder is shown to write the reference text \<open>Json_text\<close>, for
  every writer; the reader is an instance of the contract that packet encoding relies on.
\<close>

section \<open>Definitions\<close>

text \<open>Decimal numbers.\<close>

fun nat_text :: "nat \<Rightarrow> bytes" where
  "nat_text n = (if n < 10 then [of_nat (48 + n)] else nat_text (n div 10) @ [of_nat (48 + n mod 10)])"

declare nat_text.simps [simp del]

definition int_text :: "int \<Rightarrow> bytes" where
  "int_text i = (if i < 0 then chr CHR ''-'' # nat_text (nat (- i)) else nat_text (nat i))"

text \<open>The last \<open>k\<close> decimal digits of a number.\<close>

fun fixed_digits :: "nat \<Rightarrow> nat \<Rightarrow> bytes" where
  "fixed_digits 0 n = []"
| "fixed_digits (Suc k) n = fixed_digits k (n div 10) @ [of_nat (48 + n mod 10)]"

text \<open>\<open>%#.17g\<close>: the value of a finite double is a fraction; it is rounded to 17 significant digits, ties
  to even, and \<open>X\<close> is the decimal exponent of the rounded value.\<close>

definition f64_neg :: "64 word \<Rightarrow> bool" where "f64_neg w = bit w 63"
definition f64_exp :: "64 word \<Rightarrow> nat" where "f64_exp w = unat (drop_bit 52 w AND 0x7FF)"
definition f64_frac :: "64 word \<Rightarrow> nat" where "f64_frac w = unat (w AND mask 52)"

definition f64_fraction :: "64 word \<Rightarrow> nat \<times> nat" where
  "f64_fraction w =
     (let mant = (if f64_exp w = 0 then f64_frac w else 2 ^ 52 + f64_frac w);
          e = (if f64_exp w = 0 then - 1074 else int (f64_exp w) - 1075)
      in if e \<ge> 0 then (mant * 2 ^ nat e, 1) else (mant, 2 ^ nat (- e)))"

definition round_even :: "nat \<Rightarrow> nat \<Rightarrow> nat" where
  "round_even a b =
     (let q = a div b; r = a mod b
      in if 2 * r < b then q else if 2 * r > b then q + 1 else if even q then q else q + 1)"

definition scaled :: "nat \<times> nat \<Rightarrow> int \<Rightarrow> nat" where
  "scaled v X = (if X \<le> 16 then round_even (fst v * 10 ^ nat (16 - X)) (snd v)
     else round_even (fst v) (snd v * 10 ^ nat (X - 16)))"

definition decimal_exp :: "nat \<times> nat \<Rightarrow> int" where
  "decimal_exp v = (if fst v = 0 then 0
     else case find (\<lambda>X. scaled v X < 10 ^ 17) [- 324..308] of Some X \<Rightarrow> X | None \<Rightarrow> 308)"

definition exp_text :: "int \<Rightarrow> bytes" where
  "exp_text X = chr CHR ''e'' # (if X < 0 then chr CHR ''-'' else chr CHR ''+'') #
     fixed_digits (if \<bar>X\<bar> < 100 then 2 else 3) (nat \<bar>X\<bar>)"

definition f64_text :: "64 word \<Rightarrow> bytes" where
  "f64_text w =
     (if f64_neg w then [chr CHR ''-''] else []) @
     (if f64_exp w = 2047 then (if f64_frac w = 0 then str ''inf'' else str ''nan'')
      else let v = f64_fraction w; X = decimal_exp v; ds = fixed_digits 17 (scaled v X)
        in if 0 \<le> X \<and> X < 17 then take (nat X + 1) ds @ [chr CHR ''.''] @ drop (nat X + 1) ds
           else if - 4 \<le> X \<and> X < 0 then str ''0.'' @ replicate (nat (- X) - 1) (chr CHR ''0'') @ ds
           else take 1 ds @ [chr CHR ''.''] @ drop 1 ds @ exp_text X)"

text \<open>\<open>snprintf\<close> into an array of \<open>n\<close> bytes stores the text cut to \<open>n - 1\<close> bytes and a NUL
  (the rest of the array keeps its old bytes, of which nothing is read) and returns the length of the
  whole text. The result is the first \<open>ret_len\<close> bytes of the array where that many exist.\<close>

definition snprintf_read :: "nat \<Rightarrow> bytes \<Rightarrow> bytes run" where
  "snprintf_read n text =
     (if length text < n then Some text
      else if length text = n then Some (take (n - 1) text @ [0])
      else None)"

type_synonym 'c wact = "'c GgWriter act"

definition write_out :: "bytes \<Rightarrow> 'c wact" where
  "write_out bs w m = do {
     (ret, c, m) \<leftarrow> gg_writer_call w bs m;
     Some (ret, w\<lparr>wtr_ctx := c\<rparr>, m)
   }"

definition json_encode_on_null :: "'c wact" where
  "json_encode_on_null = write_out (str ''null'')"

definition json_encode_on_bool :: "bool \<Rightarrow> 'c wact" where
  "json_encode_on_bool val = write_out (if val then str ''true'' else str ''false'')"

text \<open>A text longer than the array fails the assertion.\<close>

definition json_encode_on_i64 :: "64 word \<Rightarrow> 'c wact" where
  "json_encode_on_i64 val w m = do {
     let text = int_text (sint val);
     c_assert (length text \<le> 19);
     encoded \<leftarrow> snprintf_read 19 text;
     write_out encoded w m
   }"

definition json_encode_on_f64 :: "64 word \<Rightarrow> 'c wact" where
  "json_encode_on_f64 val w m = do {
     let text = f64_text val;
     c_assert (length text \<le> 26);
     encoded \<leftarrow> snprintf_read 26 text;
     write_out encoded w m
   }"

definition hex_digit :: "nat \<Rightarrow> byte" where
  "hex_digit n = (if n < 10 then of_nat (48 + n) else of_nat (55 + n))"

definition json_write_buf_byte :: "byte \<Rightarrow> 'c wact" where
  "json_write_buf_byte byte w m =
     (if byte = chr CHR ''\"'' then write_out [chr (CHR 0x5C), chr CHR ''\"''] w m
      else if byte = chr (CHR 0x5C) then write_out [chr (CHR 0x5C), chr (CHR 0x5C)] w m
      else if byte \<le> 0x1F then do {
        let text = [chr (CHR 0x5C), chr CHR ''u'', chr CHR ''0'', chr CHR ''0'',
          hex_digit (unat byte div 16), hex_digit (unat byte mod 16)];
        c_assert (length text \<le> 7);
        encoded \<leftarrow> snprintf_read 7 text;
        write_out encoded w m
      }
      else write_out [byte] w m)"

text \<open>The loop over the bytes of a buffer, of which \<open>n\<close> are left.\<close>

fun json_buf_loop :: "addr \<Rightarrow> nat \<Rightarrow> 'c wact" where
  "json_buf_loop p 0 w m = Some (GG_ERR_OK, w, m)"
| "json_buf_loop p (Suc n) w m = do {
     (ret, w, m) \<leftarrow> json_write_buf_byte (m p) w m;
     if ret \<noteq> GG_ERR_OK then Some (ret, w, m) else json_buf_loop (p + 1) n w m
   }"

definition json_encode_on_buf :: "GgBuffer \<Rightarrow> addr \<Rightarrow> 'c wact" where
  "json_encode_on_buf val obj w m = do {
     (ret, w, m) \<leftarrow> write_out [chr CHR ''\"''] w m;
     if ret \<noteq> GG_ERR_OK then Some (ret, w, m) else do {
     (ret, w, m) \<leftarrow> json_buf_loop (buf_data val) (buf_len val) w m;
     if ret \<noteq> GG_ERR_OK then Some (ret, w, m) else write_out [chr CHR ''\"''] w m
     }
   }"

definition json_encode_on_list :: "GgList \<Rightarrow> addr \<Rightarrow> 'c wact" where
  "json_encode_on_list val obj = write_out (str ''['')"

definition json_encode_cont_list :: "'c wact" where
  "json_encode_cont_list = write_out (str '','')"

definition json_encode_end_list :: "'c wact" where
  "json_encode_end_list = write_out (str '']'')"

definition json_encode_on_map :: "GgMap \<Rightarrow> addr \<Rightarrow> 'c wact" where
  "json_encode_on_map val obj = write_out (str ''{'')"

definition json_encode_on_map_key :: "GgBuffer \<Rightarrow> addr \<Rightarrow> 'c wact" where
  "json_encode_on_map_key key kv w m = do {
     (ret, w, m) \<leftarrow> json_encode_on_buf key NULL w m;
     if ret \<noteq> GG_ERR_OK then Some (ret, w, m) else write_out (str '':'') w m
   }"

definition json_encode_cont_map :: "'c wact" where
  "json_encode_cont_map = write_out (str '','')"

definition json_encode_end_map :: "'c wact" where
  "json_encode_end_map = write_out (str ''}'')"

definition json_handlers :: "'c GgWriter GgObjectVisitHandlers" where
  "json_handlers = \<lparr>on_null = Some json_encode_on_null, on_bool = Some json_encode_on_bool,
     on_i64 = Some json_encode_on_i64, on_f64 = Some json_encode_on_f64, on_buf = Some json_encode_on_buf,
     on_list = Some json_encode_on_list, cont_list = Some json_encode_cont_list,
     end_list = Some json_encode_end_list, on_map = Some json_encode_on_map,
     on_map_key = Some json_encode_on_map_key, cont_map = Some json_encode_cont_map,
     end_map = Some json_encode_end_map\<rparr>"

definition gg_json_encode :: "addr \<Rightarrow> 'c GgWriter \<Rightarrow> mem \<Rightarrow> (GgError \<times> 'c GgWriter \<times> mem) run" where
  "gg_json_encode obj wtr m = gg_obj_visit json_handlers wtr obj m"

definition obj_read :: "addr \<Rightarrow> read_fn" where
  "obj_read obj buf m =
     (if obj = NULL then Some (GG_ERR_INVALID, buf, m)
      else do {
        (ret, w, m) \<leftarrow> gg_json_encode obj (gg_byte_vec_writer (gg_byte_vec_init buf)) m;
        if ret \<noteq> GG_ERR_OK then Some (ret, buf, m)
        else Some (GG_ERR_OK, bv_buf (wtr_ctx w), m)
      })"

definition gg_json_reader :: "addr \<Rightarrow> read_fn run" where
  "gg_json_reader obj = do { c_assert (obj \<noteq> NULL); Some (obj_read obj) }"

section \<open>The reference text\<close>

definition esc :: "byte \<Rightarrow> bytes" where
  "esc b = (if b = chr CHR ''\"'' then [chr (CHR 0x5C), chr CHR ''\"'']
     else if b = chr (CHR 0x5C) then [chr (CHR 0x5C), chr (CHR 0x5C)]
     else if b \<le> 0x1F then [chr (CHR 0x5C), chr CHR ''u'', chr CHR ''0'', chr CHR ''0'',
       hex_digit (unat b div 16), hex_digit (unat b mod 16)]
     else [b])"

definition quoted :: "bytes \<Rightarrow> bytes" where
  "quoted bs = [chr CHR ''\"''] @ concat (map esc bs) @ [chr CHR ''\"'']"

fun json_text :: "gg_val \<Rightarrow> bytes" and json_items :: "nat \<Rightarrow> gg_val list \<Rightarrow> bytes"
  and json_pairs :: "nat \<Rightarrow> (bytes \<times> gg_val) list \<Rightarrow> bytes" where
  "json_text VNull = str ''null''"
| "json_text (VBool b) = (if b then str ''true'' else str ''false'')"
| "json_text (VI64 w) = int_text (sint w)"
| "json_text (VF64 w) = f64_text w"
| "json_text (VBuf bs) = quoted bs"
| "json_text (VList vs) = str ''['' @ json_items 0 vs"
| "json_text (VMap kvs) = str ''{'' @ json_pairs 0 kvs"
| "json_items i [] = str '']''"
| "json_items i (v # vs) = (if i \<noteq> 0 then str '','' else []) @ json_text v @ json_items (Suc i) vs"
| "json_pairs i [] = str ''}''"
| "json_pairs i ((k, v) # kvs) =
     (if i \<noteq> 0 then str '','' else []) @ quoted k @ str '':'' @ json_text v @ json_pairs (Suc i) kvs"

section \<open>Pieces of output\<close>

text \<open>Pieces written one after the other until one does not fit.\<close>

fun put_all :: "nat \<Rightarrow> bytes \<Rightarrow> bytes list \<Rightarrow> GgError \<times> bytes" where
  "put_all cap out [] = (GG_ERR_OK, out)"
| "put_all cap out (b # bs) =
     (if length out + length b \<le> cap then put_all cap (out @ b) bs else (GG_ERR_NOMEM, out))"

lemma put_all_append:
  "put_all cap out (xs @ ys) =
     (case put_all cap out xs of (e, out') \<Rightarrow> if e \<noteq> GG_ERR_OK then (e, out') else put_all cap out' ys)"
  by (induction xs arbitrary: out) auto

lemma put_all_fits: "length out + length (concat bs) \<le> cap \<Longrightarrow> put_all cap out bs = (GG_ERR_OK, out @ concat bs)"
  by (induction bs arbitrary: out) auto

lemma put_all_full:
  "length out \<le> cap \<Longrightarrow> length out + length (concat bs) > cap \<Longrightarrow> fst (put_all cap out bs) = GG_ERR_NOMEM"
  by (induction bs arbitrary: out) auto

lemma put_all_err: "fst (put_all cap out bs) \<in> {GG_ERR_OK, GG_ERR_NOMEM}"
  by (induction bs arbitrary: out) auto

fun ev_chunks :: "visit_event \<Rightarrow> bytes list" where
  "ev_chunks EvNull = [str ''null'']"
| "ev_chunks (EvBool b) = [if b then str ''true'' else str ''false'']"
| "ev_chunks (EvI64 w) = [int_text (sint w)]"
| "ev_chunks (EvF64 w) = [f64_text w]"
| "ev_chunks (EvBuf bs) = [chr CHR ''\"''] # map esc bs @ [[chr CHR ''\"'']]"
| "ev_chunks (EvList _) = [str ''['']"
| "ev_chunks EvContList = [str '','']"
| "ev_chunks EvEndList = [str '']'']"
| "ev_chunks (EvMap _) = [str ''{'']"
| "ev_chunks (EvKey k) = ([chr CHR ''\"''] # map esc k @ [[chr CHR ''\"'']]) @ [str '':'']"
| "ev_chunks EvContMap = [str '','']"
| "ev_chunks EvEndMap = [str ''}'']"

lemma concat_events:
  "concat (concat (map ev_chunks (events v))) = json_text v"
  "concat (concat (map ev_chunks (list_events i vs))) = json_items i vs"
  "concat (concat (map ev_chunks (map_events i kvs))) = json_pairs i kvs"
  by (induction v and i vs and i kvs rule: events_list_events_map_events.induct) (auto simp: quoted_def)

lemma run_put_all:
  "run_events (\<lambda>ev out. put_all cap out (ev_chunks ev)) evs out = put_all cap out (concat (map ev_chunks evs))"
  by (induction evs arbitrary: out) (auto simp: put_all_append split: prod.splits)

section \<open>Lengths of numbers\<close>

lemma length_fixed_digits [simp]: "length (fixed_digits k n) = k"
  by (induction k arbitrary: n) auto

lemma length_exp_text: "length (exp_text X) \<le> 5"
  by (simp add: exp_text_def)

lemma length_f64_text: "length (f64_text w) \<le> 24"
proof -
  define v X where "v = f64_fraction w" and "X = decimal_exp v"
  have "length (f64_text w) \<le> 1 + (if f64_exp w = 2047 then 3 else
      if 0 \<le> X \<and> X < 17 then 18 else if - 4 \<le> X \<and> X < 0 then 22 else 18 + length (exp_text X))"
    by (auto simp: f64_text_def Let_def v_def X_def)
  also have "\<dots> \<le> 24" using length_exp_text[of X] by auto
  finally show ?thesis .
qed

text \<open>Numbers whose text fits the array.\<close>

fun json_ok :: "gg_val \<Rightarrow> bool" where
  "json_ok (VI64 w) = (length (int_text (sint w)) \<le> 18)"
| "json_ok _ = True"

section \<open>Encoding with any writer\<close>

definition wtr_rel :: "'c write_fn \<Rightarrow> (bytes \<Rightarrow> 'c \<Rightarrow> mem \<Rightarrow> bool) \<Rightarrow> bytes \<Rightarrow> 'c GgWriter \<Rightarrow> mem \<Rightarrow> bool" where
  "wtr_rel wfn rel out w m \<longleftrightarrow> wtr_write w = Some wfn \<and> rel out (wtr_ctx w) m"

lemma effect_seq:
  assumes "effect R W m (put_all cap out xs) r"
    and "\<And>w' m'. R (snd (put_all cap out xs)) w' m' \<Longrightarrow> agree_off W m m' \<Longrightarrow>
      effect R W m' (put_all cap (snd (put_all cap out xs)) ys) (k w' m')"
  shows "effect R W m (put_all cap out (xs @ ys))
    (Option.bind r (\<lambda>(ret, w, m). if ret \<noteq> GG_ERR_OK then Some (ret, w, m) else k w m))"
proof -
  obtain e o1 where x: "put_all cap out xs = (e, o1)" by (cases "put_all cap out xs")
  from assms(1) obtain w' m' where 1: "r = Some (e, w', m')" "R o1 w' m'" "agree_off W m m'"
    by (auto simp: effect_def x)
  show ?thesis
  proof (cases "e = GG_ERR_OK")
    case True
    from assms(2)[of w' m'] 1 x have "effect R W m' (put_all cap o1 ys) (k w' m')" by simp
    then show ?thesis using 1 True agree_off_trans[OF 1(3)]
      by (auto simp: effect_def put_all_append x)
  qed (use 1 in \<open>auto simp: effect_def put_all_append x\<close>)
qed

context writer
begin

lemma write_out_effect:
  assumes "wtr_rel wfn rel out w m"
  shows "effect (wtr_rel wfn rel) W m (put_all cap out [bs]) (write_out bs w m)"
proof (cases "length out + length bs \<le> cap")
  case True
  with write_fits[of out "wtr_ctx w" m bs] assms show ?thesis
    by (auto simp: effect_def wtr_rel_def write_out_def gg_writer_call_def)
next
  case False
  with write_full[of out "wtr_ctx w" m bs] assms show ?thesis
    by (auto simp: effect_def wtr_rel_def write_out_def gg_writer_call_def)
qed

lemma buf_byte_effect:
  "wtr_rel wfn rel out w m \<Longrightarrow> effect (wtr_rel wfn rel) W m (put_all cap out [esc b]) (json_write_buf_byte b w m)"
  using write_out_effect[of out w m] by (auto simp: json_write_buf_byte_def esc_def snprintf_read_def Let_def simp del: put_all.simps)

lemma buf_loop_effect:
  "wtr_rel wfn rel out w m \<Longrightarrow> {p..<p + n} \<inter> W = {} \<Longrightarrow>
     effect (wtr_rel wfn rel) W m (put_all cap out (map esc (rd m p n))) (json_buf_loop p n w m)"
proof (induction n arbitrary: p out w m)
  case (Suc n)
  have "effect (wtr_rel wfn rel) W m (put_all cap out ([esc (m p)] @ map esc (rd m (Suc p) n))) (json_buf_loop p (Suc n) w m)"
    unfolding json_buf_loop.simps
  proof (rule effect_seq[OF buf_byte_effect[OF Suc.prems(1)]])
    fix w' m' assume *: "wtr_rel wfn rel (snd (put_all cap out [esc (m p)])) w' m'" "agree_off W m m'"
    have d: "{Suc p..<Suc p + n} \<inter> W = {}" using Suc.prems(2) by (auto simp: disjoint_iff)
    from Suc.IH[OF *(1), of "p + 1"] d rd_off[OF *(2) d]
    show "effect (wtr_rel wfn rel) W m' (put_all cap (snd (put_all cap out [esc (m p)])) (map esc (rd m (Suc p) n)))
        (json_buf_loop (p + 1) n w' m')" by (simp del: put_all.simps)
  qed
  then show ?case by (simp add: rd_Suc)
qed (simp add: effect_def)

lemma buf_effect:
  assumes "wtr_rel wfn rel out w m" "{buf_data u..<buf_data u + buf_len u} \<inter> W = {}"
  shows "effect (wtr_rel wfn rel) W m (put_all cap out (ev_chunks (EvBuf (contents m u)))) (json_encode_on_buf u p w m)"
proof -
  have "effect (wtr_rel wfn rel) W m (put_all cap out ([[chr CHR ''\"'']] @ (map esc (contents m u) @ [[chr CHR ''\"'']])))
      (json_encode_on_buf u p w m)"
    unfolding json_encode_on_buf_def
  proof (rule effect_seq[OF write_out_effect[OF assms(1)]], rule effect_seq)
    fix w' m' assume *: "wtr_rel wfn rel (snd (put_all cap out [[chr CHR ''\"'']])) w' m'" "agree_off W m m'"
    show "effect (wtr_rel wfn rel) W m' (put_all cap (snd (put_all cap out [[chr CHR ''\"'']])) (map esc (contents m u)))
        (json_buf_loop (buf_data u) (buf_len u) w' m')"
      using buf_loop_effect[OF *(1) assms(2)] rd_off[OF *(2) assms(2)] by (simp add: contents_def del: put_all.simps)
  qed (rule write_out_effect)
  then show ?thesis by simp
qed

end

sublocale writer \<subseteq> json: observer json_handlers "wtr_rel wfn rel" "\<lambda>ev out. put_all cap out (ev_chunks ev)" W json_ok
proof
  fix out w m and u :: GgBuffer and p :: addr
  assume *: "wtr_rel wfn rel out w m" "{buf_data u..<buf_data u + buf_len u} \<inter> W = {}"
  show "effect (wtr_rel wfn rel) W m (put_all cap out (ev_chunks (EvBuf (contents m u)))) (call2 (on_buf json_handlers) u p w m)"
    using buf_effect[OF *] by (simp add: call2_def json_handlers_def)
  show "effect (wtr_rel wfn rel) W m (put_all cap out (ev_chunks (EvKey (contents m u)))) (call2 (on_map_key json_handlers) u p w m)"
    unfolding ev_chunks.simps(10) ev_chunks.simps(5)[symmetric]
    using effect_seq[OF buf_effect[OF *, of NULL] write_out_effect]
    by (simp add: call2_def json_handlers_def json_encode_on_map_key_def del: ev_chunks.simps)
next
  fix out w m and x :: "64 word" assume *: "json_ok (VI64 x)" "wtr_rel wfn rel out w m"
  then show "effect (wtr_rel wfn rel) W m (put_all cap out (ev_chunks (EvI64 x))) (call1 (on_i64 json_handlers) x w m)"
    using write_out_effect[OF *(2), of "int_text (sint x)"]
    by (simp add: call1_def json_handlers_def json_encode_on_i64_def snprintf_read_def Let_def del: put_all.simps)
next
  fix out w m and x :: "64 word" assume *: "wtr_rel wfn rel out w m"
  then show "effect (wtr_rel wfn rel) W m (put_all cap out (ev_chunks (EvF64 x))) (call1 (on_f64 json_handlers) x w m)"
    using write_out_effect[OF *, of "f64_text x"] length_f64_text[of x]
    by (simp add: call1_def json_handlers_def json_encode_on_f64_def snprintf_read_def Let_def del: put_all.simps)
qed (auto simp: call_defs json_handlers_def json_encode_on_null_def json_encode_on_bool_def json_encode_on_list_def
    json_encode_cont_list_def json_encode_end_list_def json_encode_on_map_def json_encode_cont_map_def json_encode_end_map_def
    simp del: put_all.simps intro!: write_out_effect)

context writer
begin

text \<open>The outcome of encoding a value whose memory is not written: the JSON text, if it fits the
  capacity.\<close>

lemma json_encode_result:
  assumes "rel [] c m" "obj_at m p v" "obj_foot m p v \<inter> W = {}" "val_all json_ok v"
  shows "\<exists>e c' m' out. gg_json_encode p \<lparr>wtr_write = Some wfn, wtr_ctx = c\<rparr> m = Some (e, \<lparr>wtr_write = Some wfn, wtr_ctx = c'\<rparr>, m') \<and>
    agree_off W m m' \<and> rel out c' m' \<and> (e = GG_ERR_OK \<longleftrightarrow> within_limits v \<and> length (json_text v) \<le> cap) \<and>
    (e = GG_ERR_OK \<longrightarrow> out = json_text v) \<and> e \<in> {GG_ERR_OK, GG_ERR_NOMEM, GG_ERR_RANGE}"
proof -
  let ?act = "\<lambda>ev out. put_all cap out (ev_chunks ev)" and ?w = "\<lparr>wtr_write = Some wfn, wtr_ctx = c\<rparr>"
  let ?r = "ref_obj ?act 0 0 v []"
  have "wtr_rel wfn rel [] ?w m" using assms(1) by (simp add: wtr_rel_def)
  from json.visit_result[OF this assms(2-4)] obtain w' m' where
    1: "gg_json_encode p ?w m = Some (fst ?r, w', m')" "wtr_rel wfn rel (snd (snd ?r)) w' m'" "agree_off W m m'"
    by (auto simp: gg_json_encode_def)
  have w': "w' = \<lparr>wtr_write = Some wfn, wtr_ctx = wtr_ctx w'\<rparr>" "rel (snd (snd ?r)) (wtr_ctx w') m'"
    using 1(2) by (cases w'; auto simp: wtr_rel_def)+
  have "(fst ?r = GG_ERR_OK \<longleftrightarrow> within_limits v \<and> length (json_text v) \<le> cap) \<and>
    (fst ?r = GG_ERR_OK \<longrightarrow> snd (snd ?r) = json_text v) \<and> fst ?r \<in> {GG_ERR_OK, GG_ERR_NOMEM, GG_ERR_RANGE}"
  proof (cases "within_limits v")
    case True
    have "fst ?r = fst (put_all cap [] (concat (map ev_chunks (events v))))"
      "snd (snd ?r) = snd (put_all cap [] (concat (map ev_chunks (events v))))"
      using ref_visit(1)[OF True, of ?act "[]"] by (simp_all add: run_put_all)
    then show ?thesis
      using True put_all_fits[of "[]" "concat (map ev_chunks (events v))" cap]
        put_all_full[of "[]" cap "concat (map ev_chunks (events v))"]
      by (cases "length (json_text v) \<le> cap") (simp_all add: concat_events)
  next
    case False
    have "fails ?act (fst ?r)" by (rule ref_visit(2)[OF False])
    then have "fst ?r \<noteq> GG_ERR_OK" "fst ?r = GG_ERR_RANGE \<or> (\<exists>ev a. fst (?act ev a) = fst ?r)" by (auto simp: fails_def)
    then show ?thesis using False put_all_err by (metis (no_types, lifting) insertCI insertE singletonD)
  qed
  then show ?thesis using 1(1,3) w' by metis
qed

end

section \<open>The reader\<close>

definition json_pre :: "addr \<Rightarrow> gg_val \<Rightarrow> addr set \<Rightarrow> mem \<Rightarrow> bool" where
  "json_pre p v F m \<longleftrightarrow> p \<noteq> NULL \<and> obj_at m p v \<and> obj_foot m p v = F \<and> within_limits v \<and> val_all json_ok v"

lemma bv_relD:
  assumes "bv_rel base cap out v m"
  shows "bv_buf v = \<lparr>buf_data = base, buf_len = length out\<rparr>" "rd m base (length out) = out"
proof -
  have "contents m (bv_buf v) = out" "buf_data (bv_buf v) = base" using assms by (simp_all add: bv_rel_def)
  moreover from this(1) have "buf_len (bv_buf v) = length out" by (metis length_contents)
  ultimately show "bv_buf v = \<lparr>buf_data = base, buf_len = length out\<rparr>" "rd m base (length out) = out"
    by (simp_all add: contents_def GgBuffer.equality)
qed

interpretation json_payload: payload_reader "obj_read p" "json_pre p v F" F "json_text v" for p v F
proof
  fix m :: mem and b :: GgBuffer
  assume pre: "json_pre p v F m" and d: "{buf_data b..<buf_data b + buf_len b} \<inter> F = {}"
    and fits: "length (json_text v) \<le> buf_len b" "buf_len b \<le> SIZE_MAX"
  let ?v = "gg_byte_vec_init b"
  have v: "p \<noteq> NULL" "obj_at m p v" "within_limits v" "val_all json_ok v"
    "obj_foot m p v \<inter> {buf_data b..<buf_data b + buf_len b} = {}"
    using pre d by (auto simp: json_pre_def)
  have "bv_rel (buf_data b) (buf_len b) [] ?v m"
    using fits(2) by (simp add: bv_rel_def bv_ok_def gg_byte_vec_init_def contents_def)
  from byte_vec.json_encode_result[OF this v(2,5,4)] fits(1) v(3) obtain c' m' where
    "gg_json_encode p (gg_byte_vec_writer ?v) m = Some (GG_ERR_OK, \<lparr>wtr_write = Some byte_vec_write, wtr_ctx = c'\<rparr>, m')"
    "agree_off {buf_data b..<buf_data b + buf_len b} m m'" "bv_rel (buf_data b) (buf_len b) (json_text v) c' m'"
    unfolding gg_byte_vec_writer_def by blast
  moreover from bv_relD[OF this(3)] have "bv_buf c' = b\<lparr>buf_len := length (json_text v)\<rparr>" "rd m' (buf_data b) (length (json_text v)) = json_text v"
    by (simp_all add: GgBuffer.equality)
  ultimately show "\<exists>m'. obj_read p b m = Some (GG_ERR_OK, b\<lparr>buf_len := length (json_text v)\<rparr>, m') \<and>
      rd m' (buf_data b) (length (json_text v)) = json_text v \<and> agree_off {buf_data b..<buf_data b + buf_len b} m m'"
    using v(1) by (simp add: obj_read_def)
next
  fix m m' assume *: "json_pre p v F m" "agree_on F m m'"
  then have F: "agree_on (obj_foot m p v) m m'" by (simp add: json_pre_def)
  then have "rd m' p obj_size = rd m p obj_size" "agree_on (blk_foot m (rd m p obj_size) v) m m'"
    by (auto intro: agree_on_rd[symmetric] agree_on_mono)
  with *(1) val_blk_frame[of m "rd m p obj_size" v m'] blk_foot_frame[of m "rd m p obj_size" v m']
  show "json_pre p v F m'" by (auto simp: json_pre_def)
qed

section \<open>Integers\<close>

lemma nat_text_digits: "nat_text n \<noteq> [] \<and> list_all is_digit (nat_text n) \<and> digits_val (nat_text n) = int n"
proof (induction n rule: nat_text.induct)
  case (1 n)
  have d: "is_digit (of_nat (48 + k))" "uint (of_nat (48 + k) :: byte) = 48 + int k" if "k < 10" for k
  proof -
    have u: "unat (of_nat (48 + k) :: byte) = 48 + k" using that by (intro unat_of_nat_small) simp
    then show "uint (of_nat (48 + k) :: byte) = 48 + int k" using that by (simp add: uint_nat)
    then show "is_digit (of_nat (48 + k))" using that by (simp add: is_digit_uint)
  qed
  show ?case
  proof (cases "n < 10")
    case True
    with d[of n] show ?thesis by (simp add: nat_text.simps digits_val_def)
  next
    case False
    have "int (n div 10) * 10 + int (n mod 10) = int n" by (simp add: zdiv_int zmod_int)
    with False 1 d[of "n mod 10"] show ?thesis
      by (subst (1 2 3) nat_text.simps) (simp add: digits_val_def)
  qed
qed

lemma nat_text_no_minus: "hd (nat_text n) \<noteq> 0x2D"
  using nat_text_digits[of n] by (cases "nat_text n") (auto simp: is_digit_def)

lemma int_text_val_text: "int_text_val (int_text i) = Some i"
  using nat_text_digits[of "nat i"] nat_text_digits[of "nat (- i)"] nat_text_no_minus[of "nat i"]
  by (auto simp: int_text_val_def int_text_def Let_def chr_def)

lemma visit_i64:
  assumes "obj_at m p (VI64 w)"
  shows "gg_obj_visit h c p m = call1 (on_i64 h) w c m"
proof -
  have x: "gg_obj_into_i64 (rd m p obj_size) = Some w" using assms by simp
  from into_type(2)[OF x] x show ?thesis unfolding gg_obj_visit_def
    by (subst visit_loop.simps) (auto simp: visit_step_def visit_default_def Let_def and_then_def visit_up_def
      GG_MAX_OBJECT_DEPTH_def split: bind_splits)
qed

lemma obj_read_exact:
  assumes "p \<noteq> NULL" "obj_at m p v" "obj_foot m p v \<inter> {buf_data b..<buf_data b + buf_len b} = {}" "val_all json_ok v"
    "buf_len b \<le> SIZE_MAX"
  shows "\<exists>e b' m'. obj_read p b m = Some (e, b', m') \<and> agree_off {buf_data b..<buf_data b + buf_len b} m m' \<and>
    (e = GG_ERR_OK \<longleftrightarrow> within_limits v \<and> length (json_text v) \<le> buf_len b) \<and>
    (if e = GG_ERR_OK then buf_data b' = buf_data b \<and> contents m' b' = json_text v else b' = b)"
proof -
  have "bv_rel (buf_data b) (buf_len b) [] (gg_byte_vec_init b) m"
    using assms(5) by (simp add: bv_rel_def bv_ok_def gg_byte_vec_init_def contents_def)
  from byte_vec.json_encode_result[OF this assms(2-4)] obtain e c' m' out where
    1: "gg_json_encode p (gg_byte_vec_writer (gg_byte_vec_init b)) m = Some (e, \<lparr>wtr_write = Some byte_vec_write, wtr_ctx = c'\<rparr>, m')"
      "agree_off {buf_data b..<buf_data b + buf_len b} m m'" "bv_rel (buf_data b) (buf_len b) out c' m'"
      "e = GG_ERR_OK \<longleftrightarrow> within_limits v \<and> length (json_text v) \<le> buf_len b" "e = GG_ERR_OK \<Longrightarrow> out = json_text v"
    unfolding gg_byte_vec_writer_def by blast
  show ?thesis
  proof (cases "e = GG_ERR_OK")
    case True
    then have "obj_read p b m = Some (GG_ERR_OK, bv_buf c', m')" using 1(1) assms(1) by (simp add: obj_read_def)
    moreover have "buf_data (bv_buf c') = buf_data b \<and> contents m' (bv_buf c') = json_text v"
      using 1(3,5) True by (simp add: bv_rel_def)
    ultimately show ?thesis using 1(2,4) True by auto
  next
    case False
    then have "obj_read p b m = Some (e, b, m')" using 1(1) assms(1) by (simp add: obj_read_def)
    with 1(2,4) False show ?thesis by auto
  qed
qed

section \<open>Properties\<close>



text \<open>The text of every 64-bit integer, as the encoder formats it, is read back to the same integer
  by \<open>gg_str_to_int64\<close>.\<close>

theorem int_text_roundtrip: "gg_str_to_int64 (int_text (sint (w :: 64 word))) = Inr (sint w)"
  using sint_less[of w] sint_greater_eq[of w] by (simp add: str_to_int64_iff int_text_val_text INT64_MIN_def INT64_MAX_def)

text \<open>A defect of the encoder: an integer of 19 characters is written with its last digit replaced by a
  NUL byte, and success is reported; one of 20 characters aborts the process.\<close>

theorem json_encode_i64_truncates:
  assumes "obj_at m p (VI64 w)" "writer wfn rel cap W" "rel [] c m" "19 \<le> cap" "length (int_text (sint w)) = n" "19 \<le> n"
  shows "if n = 19
    then \<exists>c' m'. gg_json_encode p \<lparr>wtr_write = Some wfn, wtr_ctx = c\<rparr> m =
        Some (GG_ERR_OK, \<lparr>wtr_write = Some wfn, wtr_ctx = c'\<rparr>, m') \<and> rel (take 18 (int_text (sint w)) @ [0]) c' m'
    else gg_json_encode p \<lparr>wtr_write = Some wfn, wtr_ctx = c\<rparr> m = None"
proof -
  have run: "gg_json_encode p \<lparr>wtr_write = Some wfn, wtr_ctx = c\<rparr> m = json_encode_on_i64 w \<lparr>wtr_write = Some wfn, wtr_ctx = c\<rparr> m"
    unfolding gg_json_encode_def visit_i64[OF assms(1)] by (simp add: call1_def json_handlers_def)
  show ?thesis
  proof (cases "n = 19")
    case True
    let ?t = "take 18 (int_text (sint w)) @ [0]"
    have "length [] + length ?t \<le> cap" using assms(4,5) True by simp
    from writer.write_fits[OF assms(2,3) this] True assms(5) show ?thesis
      unfolding run json_encode_on_i64_def
      by (auto simp: snprintf_read_def write_out_def gg_writer_call_def Let_def)
  next
    case False
    with assms(5,6) show ?thesis unfolding run by (simp add: json_encode_on_i64_def Let_def)
  qed
qed

theorem json_encode_i64_truncates_witness:
  "\<exists>c' m'. gg_json_encode 10 (gg_byte_vec_writer (gg_byte_vec_init \<lparr>buf_data = 100, buf_len = 20\<rparr>))
      (wr (\<lambda>_. 0) 10 (gg_obj_i64 1234567890123456789)) =
    Some (GG_ERR_OK, \<lparr>wtr_write = Some byte_vec_write, wtr_ctx = c'\<rparr>, m') \<and>
    contents m' (bv_buf c') = str ''123456789012345678'' @ [0]"
proof -
  let ?m = "wr (\<lambda>_. 0) 10 (gg_obj_i64 1234567890123456789)"
  have t: "int_text (sint (1234567890123456789 :: 64 word)) = str ''1234567890123456789''"
    by (simp add: int_text_def nat_text.simps str_def chr_def signed_take_bit_eq_if_positive)
  have obj: "obj_at ?m 10 (VI64 1234567890123456789)" by (simp add: rd_wr_same')
  have r: "bv_rel 100 20 [] (gg_byte_vec_init \<lparr>buf_data = 100, buf_len = 20\<rparr>) ?m"
    by (simp add: bv_rel_def bv_ok_def gg_byte_vec_init_def contents_def int_limits)
  show ?thesis
    using json_encode_i64_truncates[OF obj byte_vec.writer_axioms r _ refl] t
    unfolding gg_byte_vec_writer_def by (auto simp: str_def bv_rel_def)
qed

end
