(* ===== verification/Json_Decode.thy ===== *)
theory Json_Decode
  imports Json_Parse Json_Encode Maps
begin

unbundle bit_operations_syntax

text \<open>
  JSON decoding (\<open>src/json_decode.c\<close>, after the grammar of \<open>Json_Parse\<close>): strings are unescaped
  in place in the input buffer, arrays and objects are allocated from an arena. An output parameter
  that may be NULL is a flag (\<open>want\<close>) and an optional result. The C library's \<open>strtod\<close> is
  written out for the texts it is called with; it reads memory until the number ends, which the code
  does not bound by the buffer.
\<close>

section \<open>Definitions\<close>

definition hex_char_to_byte :: "byte \<Rightarrow> byte option" where
  "hex_char_to_byte c =
     (if c \<ge> chr CHR ''0'' \<and> c \<le> chr CHR ''9'' then Some (c - chr CHR ''0'')
      else if c \<ge> chr CHR ''A'' \<and> c \<le> chr CHR ''F'' then Some (c - chr CHR ''A'' + 10)
      else if c \<ge> chr CHR ''a'' \<and> c \<le> chr CHR ''f'' then Some (c - chr CHR ''a'' + 10)
      else None)"

definition get_uint16_from_hex4 :: "mem \<Rightarrow> addr \<Rightarrow> (16 word) option" where
  "get_uint16_from_hex4 m hex_bytes = do {
     b0 \<leftarrow> hex_char_to_byte (m hex_bytes);
     b1 \<leftarrow> hex_char_to_byte (m (hex_bytes + 1));
     b2 \<leftarrow> hex_char_to_byte (m (hex_bytes + 2));
     b3 \<leftarrow> hex_char_to_byte (m (hex_bytes + 3));
     Some (ucast (push_bit 12 (ucast b0 :: 32 word) OR push_bit 8 (ucast b1) OR push_bit 4 (ucast b2) OR ucast b3))
   }"

text \<open>The bytes of a code point; \<^const>\<open>None\<close> is the return value false.\<close>

definition codepoint_bytes :: "32 word \<Rightarrow> bytes option" where
  "codepoint_bytes cp =
     (if cp \<le> 0x7F then Some [ucast cp]
      else if cp \<le> 0x7FF then Some [0xC0 + ucast (drop_bit 6 cp), 0x80 + ucast (cp AND 0x3F)]
      else if cp \<le> 0xFFFF then Some [0xE0 + ucast (drop_bit 12 cp), 0x80 + ucast (drop_bit 6 cp AND 0x3F),
        0x80 + ucast (cp AND 0x3F)]
      else if cp \<le> 0x1FFFFF then Some [0xF0 + ucast (drop_bit 18 cp), 0x80 + ucast (drop_bit 12 cp AND 0x3F),
        0x80 + ucast (drop_bit 6 cp AND 0x3F), 0x80 + ucast (cp AND 0x3F)]
      else None)"

definition write_codepoint_utf8 :: "mem \<Rightarrow> 32 word \<Rightarrow> addr \<Rightarrow> bool \<times> addr \<times> mem" where
  "write_codepoint_utf8 m code_point write_ptr =
     (case codepoint_bytes code_point of
        None \<Rightarrow> (False, write_ptr, m)
      | Some bs \<Rightarrow> (True, write_ptr + length bs, wr m write_ptr bs))"

definition u_escape :: "mem \<Rightarrow> GgBuffer \<Rightarrow> bool" where
  "u_escape m buf \<longleftrightarrow> \<not> (buf_len buf < 6 \<or> m (buf_data buf) \<noteq> chr (CHR 0x5C) \<or> m (buf_data buf + 1) \<noteq> chr CHR ''u'')"

definition str_conv_handle_utf16_escape :: "mem \<Rightarrow> GgBuffer \<Rightarrow> addr \<Rightarrow> bool \<times> GgBuffer \<times> addr \<times> mem" where
  "str_conv_handle_utf16_escape m buf write_ptr =
     (if \<not> u_escape m buf then (False, buf, write_ptr, m)
      else case get_uint16_from_hex4 m (buf_data buf + 2) of
        None \<Rightarrow> (False, buf, write_ptr, m)
      | Some code_value \<Rightarrow>
          let buf = gg_buffer_substr buf 6 SIZE_MAX in
          if code_value \<ge> 0xD800 \<and> code_value \<le> 0xDBFF then
            if \<not> u_escape m buf then (False, buf, write_ptr, m)
            else (case get_uint16_from_hex4 m (buf_data buf + 2) of
                None \<Rightarrow> (False, buf, write_ptr, m)
              | Some low_surrogate \<Rightarrow>
                  if low_surrogate < 0xDC00 \<or> low_surrogate > 0xDFFF then (False, buf, write_ptr, m)
                  else let buf = gg_buffer_substr buf 6 SIZE_MAX;
                      code_point = (push_bit 10 (ucast code_value - 0xD800) + (ucast low_surrogate - 0xDC00)) + 0x10000
                    in case write_codepoint_utf8 m code_point write_ptr of (ret, write_ptr, m) \<Rightarrow> (ret, buf, write_ptr, m))
          else if code_value \<ge> 0xDC00 \<and> code_value \<le> 0xDFFF then (False, buf, write_ptr, m)
          else case write_codepoint_utf8 m (ucast code_value) write_ptr of (ret, write_ptr, m) \<Rightarrow> (ret, buf, write_ptr, m))"

definition simple_escape :: "byte \<Rightarrow> byte option" where
  "simple_escape b =
     (if b = chr CHR ''\"'' \<or> b = chr (CHR 0x5C) \<or> b = chr CHR ''/'' then Some b
      else if b = chr CHR ''b'' then Some 8 else if b = chr CHR ''f'' then Some 12
      else if b = chr CHR ''n'' then Some 10 else if b = chr CHR ''r'' then Some 13
      else if b = chr CHR ''t'' then Some 9 else None)"

definition str_conv_handle_escape :: "mem \<Rightarrow> GgBuffer \<Rightarrow> addr \<Rightarrow> bool \<times> GgBuffer \<times> addr \<times> mem" where
  "str_conv_handle_escape m buf write_ptr =
     (if buf_len buf < 2 \<or> m (buf_data buf) \<noteq> chr (CHR 0x5C) then (False, buf, write_ptr, m)
      else if m (buf_data buf + 1) = chr CHR ''u'' then str_conv_handle_utf16_escape m buf write_ptr
      else case simple_escape (m (buf_data buf + 1)) of
        None \<Rightarrow> (False, buf, write_ptr, m)
      | Some c \<Rightarrow> (True, gg_buffer_substr buf 2 SIZE_MAX, write_ptr + 1, wr m write_ptr [c]))"

lemma escape_shrinks:
  "str_conv_handle_escape m buf w = (True, buf', w', m') \<Longrightarrow> buf_len buf' < buf_len buf"
  by (auto simp: str_conv_handle_escape_def str_conv_handle_utf16_escape_def u_escape_def Let_def SIZE_MAX_def
      split: if_splits option.splits prod.splits)

function unescape_loop :: "mem \<Rightarrow> GgBuffer \<Rightarrow> addr \<Rightarrow> bool \<times> addr \<times> mem" where
  "unescape_loop m buf write_ptr =
     (if buf_len buf > 0 then
        if m (buf_data buf) = chr (CHR 0x5C) then
          (case str_conv_handle_escape m buf write_ptr of (ret, buf', write_ptr', m') \<Rightarrow>
             if \<not> ret then (False, write_ptr', m') else unescape_loop m' buf' write_ptr')
        else unescape_loop (wr m write_ptr [m (buf_data buf)]) (gg_buffer_substr buf 1 SIZE_MAX) (write_ptr + 1)
      else (True, write_ptr, m))"
  by pat_completeness auto
termination
  by (relation "measure (\<lambda>(_, buf, _). buf_len buf)") (auto simp: SIZE_MAX_def dest: escape_shrinks[OF sym])

declare unescape_loop.simps [simp del]

definition unescape_string :: "mem \<Rightarrow> GgBuffer \<Rightarrow> bool \<times> GgBuffer \<times> mem" where
  "unescape_string m s =
     (case unescape_loop m s (buf_data s) of (ret, write_ptr, m') \<Rightarrow>
        if \<not> ret then (False, s, m') else (True, s\<lparr>buf_len := write_ptr - buf_data s\<rparr>, m'))"

text \<open>\<open>strtod\<close> on a decimal number: the digits, an optional fraction and an optional exponent, as far as
  they go in memory; the nearest double, ties to even, and whether the value is out of range (too large,
  or below the normal numbers and not exact).\<close>

partial_function (option) digits_from :: "mem \<Rightarrow> addr \<Rightarrow> bytes option" where
  "digits_from m p = (if is_digit (m p) then Option.bind (digits_from m (p + 1)) (\<lambda>ds. Some (m p # ds)) else Some [])"

fun bit_length :: "nat \<Rightarrow> nat" where
  "bit_length n = (if n = 0 then 0 else Suc (bit_length (n div 2)))"

declare bit_length.simps [simp del]

definition scale2 :: "nat \<Rightarrow> nat \<Rightarrow> int \<Rightarrow> nat \<times> nat" where
  "scale2 a b e = (if e \<ge> 0 then (a, b * 2 ^ nat e) else (a * 2 ^ nat (- e), b))"

definition nearest_f64 :: "nat \<Rightarrow> nat \<Rightarrow> (64 word) \<times> bool" where
  "nearest_f64 a b =
     (if a = 0 then (0, False)
      else let d = int (bit_length a) - int (bit_length b);
               lg = (if (case scale2 a b d of (x, y) \<Rightarrow> y \<le> x) then d else d - 1);
               e = max (lg - 52) (- 1074);
               (x, y) = scale2 a b e;
               q = round_even x y
           in if e + 1074 \<ge> 2046 \<or> e + 1074 = 2045 \<and> q = 2 ^ 53 then (of_nat (2047 * 2 ^ 52), True)
              else (of_nat (nat (e + 1074) * 2 ^ 52 + q), q < 2 ^ 52 \<and> q * y \<noteq> x))"

definition strtod :: "mem \<Rightarrow> addr \<Rightarrow> ((64 word) \<times> bool) run" where
  "strtod m p = do {
     let neg = (m p = chr CHR ''-'');
     let p1 = (if neg then p + 1 else p);
     ip \<leftarrow> digits_from m p1;
     let p2 = p1 + length ip;
     fp \<leftarrow> (if m p2 = chr CHR ''.'' then digits_from m (p2 + 1) else Some []);
     let p3 = (if m p2 = chr CHR ''.'' then p2 + 1 + length fp else p2);
     let has_e = (m p3 = chr CHR ''e'' \<or> m p3 = chr CHR ''E'');
     let esign = (m (p3 + 1) = chr CHR ''+'' \<or> m (p3 + 1) = chr CHR ''-'');
     ep \<leftarrow> (if has_e then digits_from m (if esign then p3 + 2 else p3 + 1) else Some []);
     let expo = (if m (p3 + 1) = chr CHR ''-'' then - digits_val ep else digits_val ep) - int (length fp);
     let mant = nat (digits_val (ip @ fp));
     let (val, range) = (if expo \<ge> 0 then nearest_f64 (mant * 10 ^ nat expo) 1 else nearest_f64 mant (10 ^ nat (- expo)));
     Some (if neg then val OR 0x8000000000000000 else val, range)
   }"

definition decode_json_str :: "mem \<Rightarrow> GgBuffer \<Rightarrow> bool \<Rightarrow> (GgObject option res \<times> mem) run" where
  "decode_json_str m content want =
     (case unescape_string m content of (ret, s, m') \<Rightarrow>
        if \<not> ret then Some (Inl GG_ERR_PARSE, m')
        else if want then do { x \<leftarrow> gg_obj_buf s; Some (Inr (Some x), m') }
        else Some (Inr None, m'))"

definition decode_json_number :: "nat \<Rightarrow> mem \<Rightarrow> GgBuffer \<Rightarrow> bool \<Rightarrow> GgObject option res run" where
  "decode_json_number n m content want = do {
     (result, buf, _) \<leftarrow> parser_call n m PARSER_INT_PART content None;
     if \<not> result then Some (Inl GG_ERR_PARSE)
     else do {
       (has_frac_part, buf, _) \<leftarrow> parser_call n m PARSER_FRAC_PART buf None;
       (has_exp_part, _, _) \<leftarrow> parser_call n m PARSER_EXPONENT buf None;
       if \<not> has_frac_part \<and> \<not> has_exp_part then
         (case gg_str_to_int64 (contents m content) of
            Inl e \<Rightarrow> Some (Inl e)
          | Inr val \<Rightarrow> Some (Inr (if want then Some (gg_obj_i64 (of_int val)) else None)))
       else do {
         (val, erange) \<leftarrow> strtod m (buf_data content);
         if erange then Some (Inl GG_ERR_RANGE)
         else Some (Inr (if want then Some (gg_obj_f64 val) else None))
       }
     }
   }"

text \<open>The decoder of one value, which the decoders of arrays and objects call.\<close>

type_synonym take_val = "GgBuffer \<Rightarrow> GgArena \<Rightarrow> bool \<Rightarrow> mem \<Rightarrow> (GgObject option res \<times> GgBuffer \<times> GgArena \<times> mem) run"

definition alloc_n :: "GgArena \<Rightarrow> nat \<Rightarrow> nat \<Rightarrow> (addr \<times> GgArena) run" where
  "alloc_n arena n sz = do {
     (p, a) \<leftarrow> gg_arena_alloc (Some arena) (u64 (n * sz)) 1;
     a' \<leftarrow> a;
     Some (p, a')
   }"

definition store :: "mem \<Rightarrow> addr \<Rightarrow> GgObject option \<Rightarrow> mem" where
  "store m p x = (case x of None \<Rightarrow> m | Some obj \<Rightarrow> wr m p obj)"

text \<open>The loop over the elements from \<open>i\<close> on, of which \<open>k\<close> are left.\<close>

fun array_loop :: "take_val \<Rightarrow> addr \<Rightarrow> nat \<Rightarrow> nat \<Rightarrow> GgBuffer \<Rightarrow> GgArena \<Rightarrow> mem \<Rightarrow> (GgError \<times> GgArena \<times> mem) run" where
  "array_loop take_val items i 0 buf_copy arena m = Some (GG_ERR_OK, arena, m)"
| "array_loop take_val items i (Suc k) buf_copy arena m = do {
     (ret, buf_copy, arena, m) \<leftarrow> take_val buf_copy arena (items \<noteq> NULL) m;
     case ret of
       Inl e \<Rightarrow> Some (e, arena, m)
     | Inr x \<Rightarrow>
         let m = store m (items + obj_size * i) x in
         if k = 0 then Some (GG_ERR_OK, arena, m)
         else (case parser_char_fn (chr CHR '','') m buf_copy of (matches, buf_copy) \<Rightarrow>
           if \<not> matches then Some (GG_ERR_PARSE, arena, m)
           else array_loop take_val items (i + 1) k buf_copy arena m)
   }"

definition decode_json_array ::
    "take_val \<Rightarrow> GgBuffer \<Rightarrow> nat \<Rightarrow> GgArena \<Rightarrow> bool \<Rightarrow> mem \<Rightarrow> (GgObject option res \<times> GgArena \<times> mem) run" where
  "decode_json_array take_val content cnt arena want m = do {
     (items, arena) \<leftarrow> (if cnt > 0 \<and> want then alloc_n arena cnt obj_size else Some (NULL, arena));
     if cnt > 0 \<and> want \<and> items = NULL then Some (Inl GG_ERR_NOMEM, arena, m)
     else do {
       (ret, arena, m) \<leftarrow> array_loop take_val items 0 cnt content arena m;
       if ret \<noteq> GG_ERR_OK then Some (Inl ret, arena, m)
       else if want then do {
         x \<leftarrow> gg_obj_list \<lparr>list_items = items, list_len = cnt\<rparr>;
         Some (Inr (Some x), arena, m)
       }
       else Some (Inr None, arena, m)
     }
   }"

fun object_loop :: "take_val \<Rightarrow> addr \<Rightarrow> nat \<Rightarrow> nat \<Rightarrow> GgBuffer \<Rightarrow> GgArena \<Rightarrow> mem \<Rightarrow> (GgError \<times> GgArena \<times> mem) run" where
  "object_loop take_val pairs i 0 buf_copy arena m = Some (GG_ERR_OK, arena, m)"
| "object_loop take_val pairs i (Suc k) buf_copy arena m = do {
     (ret, buf_copy, arena, m) \<leftarrow> take_val buf_copy arena True m;
     case ret of
       Inl e \<Rightarrow> Some (e, arena, m)
     | Inr x \<Rightarrow> do {
         key_obj \<leftarrow> x;
         t \<leftarrow> gg_obj_type key_obj;
         if t \<noteq> GG_TYPE_BUF then Some (GG_ERR_PARSE, arena, m)
         else do {
           let kv = pairs + kv_size * i;
           m \<leftarrow> (if pairs \<noteq> NULL then do {
                   key \<leftarrow> gg_obj_into_buf key_obj;
                   pair \<leftarrow> gg_kv_set_key (rd m kv kv_size) key;
                   Some (wr m kv pair)
                 } else Some m);
           case parser_char_fn (chr CHR '':'') m buf_copy of (matches, buf_copy) \<Rightarrow>
             if \<not> matches then Some (GG_ERR_PARSE, arena, m)
             else do {
               (ret, buf_copy, arena, m) \<leftarrow> take_val buf_copy arena (pairs \<noteq> NULL) m;
               case ret of
                 Inl e \<Rightarrow> Some (e, arena, m)
               | Inr x \<Rightarrow>
                   let m = store m (gg_kv_val kv) x in
                   if k = 0 then Some (GG_ERR_OK, arena, m)
                   else (case parser_char_fn (chr CHR '','') m buf_copy of (matches, buf_copy) \<Rightarrow>
                     if \<not> matches then Some (GG_ERR_PARSE, arena, m)
                     else object_loop take_val pairs (i + 1) k buf_copy arena m)
             }
         }
       }
   }"

text \<open>\<open>pruned\<close> is the static buffer by which canonicalization marks dropped pairs.\<close>

definition decode_json_object ::
    "GgBuffer \<Rightarrow> take_val \<Rightarrow> GgBuffer \<Rightarrow> nat \<Rightarrow> GgArena \<Rightarrow> bool \<Rightarrow> mem \<Rightarrow> (GgObject option res \<times> GgArena \<times> mem) run" where
  "decode_json_object pruned take_val content cnt arena want m = do {
     (pairs, arena) \<leftarrow> (if cnt > 0 \<and> want then alloc_n arena cnt kv_size else Some (NULL, arena));
     if cnt > 0 \<and> want \<and> pairs = NULL then Some (Inl GG_ERR_NOMEM, arena, m)
     else do {
       (ret, arena, m) \<leftarrow> object_loop take_val pairs 0 cnt content arena m;
       if ret \<noteq> GG_ERR_OK then Some (Inl ret, arena, m)
       else if want then do {
         (m, mp) \<leftarrow> gg_map_canonicalize_shallow pruned m \<lparr>map_pairs = pairs, map_len = cnt\<rparr>;
         x \<leftarrow> gg_obj_map mp;
         Some (Inr (Some x), arena, m)
       }
       else Some (Inr None, arena, m)
     }
   }"

text \<open>The switch on the type of the parsed value.\<close>

definition decode_json_val ::
    "nat \<Rightarrow> GgBuffer \<Rightarrow> take_val \<Rightarrow> ParseResult \<Rightarrow> GgArena \<Rightarrow> bool \<Rightarrow> mem \<Rightarrow> (GgObject option res \<times> GgArena \<times> mem) run" where
  "decode_json_val n pruned take_val r arena want m =
     (case pr_type r of
        JSON_TYPE_STR \<Rightarrow> map_option (\<lambda>(x, m). (x, arena, m)) (decode_json_str m (pr_content r) want)
      | JSON_TYPE_NUMBER \<Rightarrow> map_option (\<lambda>x. (x, arena, m)) (decode_json_number n m (pr_content r) want)
      | JSON_TYPE_TRUE \<Rightarrow> Some (Inr (if want then Some (gg_obj_bool True) else None), arena, m)
      | JSON_TYPE_FALSE \<Rightarrow> Some (Inr (if want then Some (gg_obj_bool False) else None), arena, m)
      | JSON_TYPE_NULL \<Rightarrow> Some (Inr (if want then Some GG_OBJ_NULL else None), arena, m)
      | JSON_TYPE_ARRAY \<Rightarrow> decode_json_array take_val (pr_content r) (pr_count r) arena want m
      | JSON_TYPE_OBJECT \<Rightarrow> decode_json_object pruned take_val (pr_content r) (pr_count r) arena want m)"

primrec take_json_val :: "nat \<Rightarrow> GgBuffer \<Rightarrow> take_val" where
  "take_json_val 0 pruned = (\<lambda>buf arena want m. None)"
| "take_json_val (Suc n) pruned = (\<lambda>buf arena want m. do {
     (matches, buf, out) \<leftarrow> parser_call n m PARSER_JSON_VALUE buf (Some PARSE_RESULT_INIT);
     if \<not> matches then Some (Inl GG_ERR_PARSE, buf, arena, m)
     else do {
       r \<leftarrow> out;
       (x, arena, m) \<leftarrow> decode_json_val n pruned (take_json_val n pruned) r arena want m;
       Some (x, buf, arena, m)
     }
   })"

definition gg_json_decode_destructive ::
    "nat \<Rightarrow> GgBuffer \<Rightarrow> GgBuffer \<Rightarrow> GgArena option \<Rightarrow> bool \<Rightarrow> mem \<Rightarrow> (GgObject option res \<times> GgArena option \<times> mem) run" where
  "gg_json_decode_destructive n pruned buf arena want m = do {
     let arena_copy = (case arena of None \<Rightarrow> \<lparr>arena_mem = NULL, arena_capacity = 0, arena_index = 0\<rparr> | Some a \<Rightarrow> a);
     (ret, buf_copy, arena_copy, m) \<leftarrow> take_json_val n pruned buf arena_copy want m;
     case ret of
       Inl e \<Rightarrow> Some (Inl e, arena, m)
     | Inr x \<Rightarrow>
         if buf_len buf_copy > 0 then Some (Inl GG_ERR_PARSE, arena, m)
         else Some (Inr x, if want then map_option (\<lambda>_. arena_copy) arena else arena, m)
   }"

section \<open>Unescaping in place\<close>

lemma codepoint_len: "codepoint_bytes cp = Some bs \<Longrightarrow> 1 \<le> length bs \<and> length bs \<le> 4 \<and> (cp \<le> 0xFFFF \<longrightarrow> length bs \<le> 3)"
  by (auto simp: codepoint_bytes_def split: if_splits)

lemma ucast16_le: "(ucast (w :: 16 word) :: 32 word) \<le> 0xFFFF"
proof -
  have "unat w < 2 ^ LENGTH(16)" by (rule unsigned_less)
  then show ?thesis by (simp add: word_le_nat_alt unsigned_ucast_eq take_bit_nat_eq_self)
qed

lemma write_codepoint:
  assumes "write_codepoint_utf8 m cp w = (ret, w', m')"
  shows "if ret then \<exists>bs. length bs \<le> 4 \<and> (cp \<le> 0xFFFF \<longrightarrow> length bs \<le> 3) \<and> w' = w + length bs \<and> m' = wr m w bs else w' = w \<and> m' = m"
  using assms codepoint_len[of cp] by (auto simp: write_codepoint_utf8_def split: option.splits)

text \<open>An escape reads \<open>k\<close> bytes and writes \<open>bs\<close>, fewer than it reads.\<close>

definition stepped :: "GgBuffer \<Rightarrow> addr \<Rightarrow> mem \<Rightarrow> bool \<times> GgBuffer \<times> addr \<times> mem \<Rightarrow> bool" where
  "stepped buf w m r = (case r of (ret, buf', w', m') \<Rightarrow>
     if ret then \<exists>k bs. k \<le> buf_len buf \<and> buf' = advance buf k \<and> length bs < k \<and> w' = w + length bs \<and> m' = wr m w bs
     else w' = w \<and> m' = m)"

lemma stepped_fail [simp]: "stepped buf w m (False, buf', w, m)"
  by (simp add: stepped_def)

lemma stepped_write:
  assumes "k \<le> buf_len buf" "5 \<le> k \<or> 4 \<le> k \<and> cp \<le> 0xFFFF"
  shows "stepped buf w m (case write_codepoint_utf8 m cp w of (ret, w', m') \<Rightarrow> (ret, advance buf k, w', m'))"
proof -
  obtain ret w' m' where r: "write_codepoint_utf8 m cp w = (ret, w', m')" by (metis prod_cases3)
  have "length bs < k" if "length bs \<le> 4" "cp \<le> 0xFFFF \<longrightarrow> length bs \<le> 3" for bs :: bytes using assms(2) that by auto
  with write_codepoint[OF r] assms(1) show ?thesis by (auto simp: stepped_def r split: if_splits)
qed

lemma utf16_step:
  assumes len: "buf_len buf \<le> SIZE_MAX"
  shows "stepped buf w m (str_conv_handle_utf16_escape m buf w)"
proof (cases "u_escape m buf")
  case True
  then have 6: "6 \<le> buf_len buf" by (simp add: u_escape_def)
  have a6: "gg_buffer_substr buf 6 SIZE_MAX = advance buf 6" by (rule substr_advance[OF 6 len])
  have a12: "gg_buffer_substr (advance buf 6) 6 SIZE_MAX = advance buf 12" "12 \<le> buf_len buf" if "u_escape m (advance buf 6)"
    using that substr_advance[of 6 "advance buf 6"] len by (auto simp: u_escape_def)
  show ?thesis
    unfolding str_conv_handle_utf16_escape_def Let_def a6
    using True a12 by (auto simp: split: option.split intro!: stepped_write ucast16_le 6)
qed (simp add: str_conv_handle_utf16_escape_def)

lemma escape_step:
  assumes "buf_len buf \<le> SIZE_MAX"
  shows "stepped buf w m (str_conv_handle_escape m buf w)"
  using utf16_step[OF assms] substr_advance[of 2 buf] assms
  by (auto simp: str_conv_handle_escape_def stepped_def not_less split: option.split intro!: exI[of _ 2] exI[of _ "[_]"])

text \<open>Whatever the text, writing never overtakes reading.\<close>

lemma unescape_safe:
  assumes "buf_len buf \<le> SIZE_MAX" "w \<le> buf_data buf"
  shows "\<exists>ret w' m'. unescape_loop m buf w = (ret, w', m') \<and> w \<le> w' \<and> w' \<le> buf_data buf + buf_len buf \<and>
    agree_off {w..<buf_data buf + buf_len buf} m m'"
  using assms
proof (induction m buf w rule: unescape_loop.induct)
  case (1 m buf w)
  let ?R = "{w..<buf_data buf + buf_len buf}"
  show ?case
  proof (cases "buf_len buf > 0")
    case False
    with "1.prems" show ?thesis by (intro exI[of _ True]) (simp add: unescape_loop.simps)
  next
    case pos: True
    show ?thesis
    proof (cases "m (buf_data buf) = chr (CHR 0x5C)")
      case esc: True
      obtain ret buf' w' m' where r: "str_conv_handle_escape m buf w = (ret, buf', w', m')" by (metis prod_cases4)
      have st: "stepped buf w m (ret, buf', w', m')" using escape_step[OF "1.prems"(1), of w m] r by simp
      show ?thesis
      proof (cases ret)
        case False
        with st have "unescape_loop m buf w = (False, w, m)"
          using pos esc r by (subst unescape_loop.simps) (simp add: stepped_def)
        with "1.prems"(2) show ?thesis by (intro exI[of _ False]) simp
      next
        case True
        with st obtain k bs where k: "k \<le> buf_len buf" "buf' = advance buf k" "length bs < k" "w' = w + length bs" "m' = wr m w bs"
          by (auto simp: stepped_def)
        have run: "unescape_loop m buf w = unescape_loop m' buf' w'"
          using pos esc r True by (subst unescape_loop.simps) simp
        have "buf_len buf' \<le> SIZE_MAX" "w' \<le> buf_data buf'" using k "1.prems" by simp_all
        from "1.IH"(1)[OF pos esc r[symmetric] refl refl _ this] True obtain ret2 w2 m2 where
          2: "unescape_loop m' buf' w' = (ret2, w2, m2)" "w' \<le> w2" "w2 \<le> buf_data buf' + buf_len buf'"
            "agree_off {w'..<buf_data buf' + buf_len buf'} m' m2" by auto
        have "agree_off ?R m m2"
          by (rule agree_off_trans[OF _ agree_off_mono[OF 2(4)]]) (use k "1.prems" in \<open>auto intro!: agree_off_wr\<close>)
        with run 2 k "1.prems" show ?thesis by auto
      qed
    next
      case False
      let ?m = "wr m w [m (buf_data buf)]" and ?buf = "gg_buffer_substr buf 1 SIZE_MAX"
      have a: "?buf = advance buf 1" using pos "1.prems"(1) by (intro substr_advance) auto
      have run: "unescape_loop m buf w = unescape_loop ?m ?buf (w + 1)"
        using pos False by (subst unescape_loop.simps) simp
      have "buf_len ?buf \<le> SIZE_MAX" "w + 1 \<le> buf_data ?buf" using "1.prems" unfolding a by simp_all
      from "1.IH"(2)[OF pos False this] obtain ret2 w2 m2 where
        2: "unescape_loop ?m ?buf (w + 1) = (ret2, w2, m2)" "w + 1 \<le> w2" "w2 \<le> buf_data ?buf + buf_len ?buf"
          "agree_off {w + 1..<buf_data ?buf + buf_len ?buf} ?m m2" by auto
      have "agree_off ?R m m2"
        by (rule agree_off_trans[OF _ agree_off_mono[OF 2(4)]]) (use pos "1.prems" in \<open>auto intro!: agree_off_wr simp: a\<close>)
      with run 2 pos show ?thesis by (auto simp: a)
    qed
  qed
qed

section \<open>Unescaping inverts escaping\<close>

lemma hex_digit_value: "n < 16 \<Longrightarrow> hex_char_to_byte (hex_digit n) = Some (of_nat n)"
proof -
  assume n: "n < 16"
  have "unat (hex_digit n) = (if n < 10 then 48 + n else 55 + n)"
    using n unat_of_nat_small[of "48 + n"] unat_of_nat_small[of "55 + n"] by (auto simp: hex_digit_def simp del: of_nat_add unat_of_nat_small)
  then show ?thesis using n by (auto simp: hex_char_to_byte_def chr_def word_le_nat_alt hex_digit_def)
qed

lemma control_escape:
  fixes b :: byte
  assumes "b \<le> 0x1F" "u_escape m buf" 
    "\<And>i. i < 4 \<Longrightarrow> m (buf_data buf + 2 + i) = [chr CHR ''0'', chr CHR ''0'', hex_digit (unat b div 16), hex_digit (unat b mod 16)] ! i"
    "buf_len buf \<le> SIZE_MAX"
  shows "str_conv_handle_utf16_escape m buf w = (True, advance buf 6, w + 1, wr m w [b])"
proof -
  have b: "unat b \<le> 31" using assms(1) by (simp add: word_le_nat_alt)
  have z: "hex_char_to_byte (chr CHR ''0'') = Some 0" by code_simp
  have "m (buf_data buf + 2 + 0) = chr CHR ''0''" "m (buf_data buf + 2 + 1) = chr CHR ''0''"
    "m (buf_data buf + 2 + 2) = hex_digit (unat b div 16)" "m (buf_data buf + 2 + 3) = hex_digit (unat b mod 16)"
    using assms(3)[of 0] assms(3)[of 1] assms(3)[of 2] assms(3)[of 3] by simp_all
  then have h: "get_uint16_from_hex4 m (buf_data buf + 2) =
      Some (ucast (push_bit 4 (ucast (of_nat (unat b div 16) :: byte) :: 32 word) OR ucast (of_nat (unat b mod 16) :: byte)))"
    using b by (simp add: get_uint16_from_hex4_def z hex_digit_value)
  have v: "(ucast (push_bit 4 (ucast (of_nat (unat b div 16) :: byte) :: 32 word) OR ucast (of_nat (unat b mod 16) :: byte)) :: 16 word) = ucast b"
  proof -
    have e: "of_nat (unat b div 16) = drop_bit 4 b" "of_nat (unat b mod 16) = take_bit 4 b"
      using b by (simp_all add: drop_bit_eq_div take_bit_eq_mod word_unat_eq_iff unat_div_distrib unat_mod_distrib)
    show ?thesis unfolding e
      by (auto intro!: bit_word_eqI simp: bit_or_iff bit_push_bit_iff bit_unsigned_iff bit_drop_bit_eq bit_take_bit_iff dest: byte_bit)
  qed
  have a: "gg_buffer_substr buf 6 SIZE_MAX = advance buf 6" using assms(2,4) by (intro substr_advance) (auto simp: u_escape_def)
  have u1: "unat (ucast b :: 16 word) = unat b"
    using byte_bound[of b] by (simp add: unsigned_ucast_eq take_bit_nat_eq_self)
  have u: "unat (ucast b :: 16 word) = unat b" "unat (ucast (ucast b :: 16 word) :: 32 word) = unat b"
    using byte_bound[of b] unfolding unsigned_ucast_eq[of "ucast b :: 16 word"] u1 by (simp_all add: take_bit_nat_eq_self)
  have "ucast (ucast (ucast b :: 16 word) :: 32 word) = b"
    using u(2) byte_bound[of b] by (simp add: word_unat_eq_iff unsigned_ucast_eq take_bit_nat_eq_self)
  then show ?thesis using assms(2) u b
    unfolding str_conv_handle_utf16_escape_def h v a Let_def option.case
    by (simp add: word_le_nat_alt write_codepoint_utf8_def codepoint_bytes_def)
qed

lemma contents_append:
  assumes "contents m buf = xs @ ys" "buf_len buf \<le> SIZE_MAX"
  shows "length xs \<le> buf_len buf" "rd m (buf_data buf) (length xs) = xs" "contents m (advance buf (length xs)) = ys"
proof -
  have l: "buf_len buf = length xs + length ys" using arg_cong[OF assms(1), of length] by simp
  then show "length xs \<le> buf_len buf" by simp
  have "rd m (buf_data buf) (length xs) @ rd m (buf_data buf + length xs) (length ys) = xs @ ys"
    using assms(1) by (simp add: contents_def l rd_add)
  then show "rd m (buf_data buf) (length xs) = xs" "contents m (advance buf (length xs)) = ys"
    by (simp_all add: contents_def l)
qed

text \<open>One escaped byte.\<close>

lemma unescape_one:
  assumes "contents m buf = esc b @ ys" "buf_len buf \<le> SIZE_MAX" "w \<le> buf_data buf"
  shows "unescape_loop m buf w = unescape_loop (wr m w [b]) (advance buf (length (esc b))) (w + 1)"
proof -
  note c = contents_append[OF assms(1,2)]
  have pos: "buf_len buf > 0" using c(1) by (auto simp: esc_def split: if_splits)
  have nth: "m (buf_data buf + i) = esc b ! i" if "i < length (esc b)" for i
    using nth_rd[OF that, of m "buf_data buf"] c(2) by simp
  consider (lit) "esc b = [b]" "b \<noteq> chr (CHR 0x5C)" | (two) "esc b = [chr (CHR 0x5C), b]" "b = chr CHR ''\"'' \<or> b = chr (CHR 0x5C)"
    | (ctl) "esc b = [chr (CHR 0x5C), chr CHR ''u'', chr CHR ''0'', chr CHR ''0'', hex_digit (unat b div 16), hex_digit (unat b mod 16)]"
      "b \<le> 0x1F" unfolding esc_def by (cases "b = chr CHR ''\"''"; cases "b = chr (CHR 0x5C)"; cases "b \<le> 0x1F") auto
  then show ?thesis
  proof cases
    case lit
    then have "m (buf_data buf) = b" using nth[of 0] by simp
    then show ?thesis using lit pos assms(2) by (subst unescape_loop.simps) (simp add: substr_advance)
  next
    case two
    then have "m (buf_data buf) = chr (CHR 0x5C)" "m (buf_data buf + 1) = b" "2 \<le> buf_len buf" using nth[of 0] nth[of 1] c(1) by simp_all
    moreover have "b \<noteq> chr CHR ''u''" using two(2) by (auto simp: chr_def)
    ultimately have "str_conv_handle_escape m buf w = (True, advance buf 2, w + 1, wr m w [b])"
      using two(2) assms(2) by (auto simp: str_conv_handle_escape_def simple_escape_def substr_advance)
    then show ?thesis using two pos \<open>m (buf_data buf) = chr (CHR 0x5C)\<close>
      by (subst unescape_loop.simps) (simp add: numeral_2_eq_2)
  next
    case ctl
    then have h: "m (buf_data buf) = chr (CHR 0x5C)" "m (buf_data buf + 1) = chr CHR ''u''" "6 \<le> buf_len buf"
      using nth[of 0] nth[of 1] c(1) by simp_all
    have "m (buf_data buf + 2 + i) = [chr CHR ''0'', chr CHR ''0'', hex_digit (unat b div 16), hex_digit (unat b mod 16)] ! i"
      if "i < 4" for i using nth[of "2 + i"] that ctl(1) by (simp add: add.assoc)
    from control_escape[OF ctl(2) _ this assms(2), of w] h have
      "str_conv_handle_escape m buf w = (True, advance buf 6, w + 1, wr m w [b])"
      by (simp add: str_conv_handle_escape_def u_escape_def)
    moreover have "length (esc b) = 6" using ctl(1) by simp
    ultimately show ?thesis using pos h(1) by (subst unescape_loop.simps) simp
  qed
qed

lemma unescape_esc:
  assumes "contents m buf = concat (map esc bs)" "buf_len buf \<le> SIZE_MAX" "w \<le> buf_data buf"
  shows "\<exists>m'. unescape_loop m buf w = (True, w + length bs, m') \<and> rd m' w (length bs) = bs"
  using assms
proof (induction bs arbitrary: m buf w)
  case Nil
  have "length (contents m buf) = 0" by (subst Nil(1)) simp
  then have "buf_len buf = 0" by simp
  then show ?case by (simp add: unescape_loop.simps)
next
  case (Cons b bs)
  let ?m = "wr m w [b]" and ?buf = "advance buf (length (esc b))"
  have c: "contents m buf = esc b @ concat (map esc bs)" using Cons.prems(1) by simp
  have e: "1 \<le> length (esc b)" by (simp add: esc_def)
  have "contents ?m ?buf = contents m ?buf" unfolding contents_def
    by (rule rd_wr_disjoint) (use e Cons.prems(3) in auto)
  then have 1: "contents ?m ?buf = concat (map esc bs)" using contents_append(3)[OF c Cons.prems(2)] by simp
  have "w + 1 \<le> buf_data ?buf" "buf_len ?buf \<le> SIZE_MAX" using e Cons.prems by simp_all
  from Cons.IH[OF 1 this(2,1)] obtain m' where m': "unescape_loop ?m ?buf (w + 1) = (True, w + 1 + length bs, m')"
    "rd m' (w + 1) (length bs) = bs" by blast
  obtain ret w2 m2 where "unescape_loop ?m ?buf (w + 1) = (ret, w2, m2)" "agree_off {w + 1..<buf_data ?buf + buf_len ?buf} ?m m2"
    using unescape_safe[of ?buf "w + 1" ?m] \<open>w + 1 \<le> buf_data ?buf\<close> \<open>buf_len ?buf \<le> SIZE_MAX\<close> by blast
  with m'(1) have "agree_off {w + 1..<buf_data ?buf + buf_len ?buf} ?m m'" by simp
  then have "?m w = m' w" unfolding agree_off_def by (auto dest: spec[of _ w])
  then have "m' w = b" by (simp add: wr_def)
  then have "rd m' w (length (b # bs)) = b # bs" using m'(2) by (simp add: rd_Suc)
  then show ?case using unescape_one[OF c Cons.prems(2,3)] m'(1) by simp
qed

section \<open>Properties\<close>

text \<open>Strings survive JSON: unescaping in place the text that the encoder writes between the quotes
  of a string gives back the string, for every sequence of bytes; nothing outside the text is written.\<close>

theorem json_string_roundtrip:
  assumes "contents m s = concat (map esc bs)" "buf_len s \<le> SIZE_MAX"
  shows "\<exists>s' m'. unescape_string m s = (True, s', m') \<and> buf_data s' = buf_data s \<and> buf_len s' \<le> buf_len s \<and> contents m' s' = bs \<and>
    agree_off {buf_data s..<buf_data s + buf_len s} m m'"
proof -
  obtain m' where m': "unescape_loop m s (buf_data s) = (True, buf_data s + length bs, m')" "rd m' (buf_data s) (length bs) = bs"
    using unescape_esc[OF assms order_refl] by blast
  with unescape_safe[OF assms(2) order_refl, of m]
  have "buf_data s + length bs \<le> buf_data s + buf_len s" "agree_off {buf_data s..<buf_data s + buf_len s} m m'" by auto
  with m' show ?thesis by (simp add: unescape_string_def contents_def)
qed

theorem json_string_roundtrip_witness:
  "\<exists>s' m'. unescape_string (wr (\<lambda>_. 0) 16 (concat (map esc [10, 34, 97]))) \<lparr>buf_data = 16, buf_len = 9\<rparr> = (True, s', m') \<and>
     contents m' s' = [10, 34, 97]"
proof -
  have "length (concat (map esc [10, 34, 97])) = 9" by code_simp
  then show ?thesis
    using json_string_roundtrip[of "wr (\<lambda>_. 0) 16 (concat (map esc [10, 34, 97]))" "\<lparr>buf_data = 16, buf_len = 9\<rparr>" "[10, 34, 97]"]
    by (auto simp: contents_def rd_wr_same' int_limits)
qed



end
