(* ===== verification/Client.thy ===== *)
theory Client
  imports Streams Socket Json_Decode
begin

text \<open>
  The IPC client (\<open>src/ipc/client.c\<close>): connecting, calls and subscriptions, the receiving thread and
  the closing of subscriptions.

  The client's state is the record \<open>client\<close>: the static variables of the file, the memory, the
  descriptors and the two directions of the connection. A call to \<open>ggipc_subscribe\<close> has its
  \<open>ResponseHandlerCtx\<close> on its own stack, and the stream table keeps a pointer to it; \<open>frames\<close> holds the
  contexts of the calls that have not returned, by their address, so that a handler whose context is not
  in \<open>frames\<close> is a dangling pointer.

  Every definition below that reads or writes the table is one critical section of \<open>stream_state_mtx\<close>:
  \<open>ggipc_subscribe\<close> is the section up to its wait (\<open>subscribe_begin\<close>) and the sections in which it wakes
  (\<open>subscribe_woken\<close>, \<open>subscribe_timed_out\<close>), since \<open>pthread_cond_timedwait\<close> releases the mutex.
\<close>

section \<open>State\<close>

definition GG_IPC_MAX_MSG_LEN :: nat where "GG_IPC_MAX_MSG_LEN = 10000"

definition EVENTSTREAM_APPLICATION_MESSAGE :: "32 word" where "EVENTSTREAM_APPLICATION_MESSAGE = 0"
definition EVENTSTREAM_APPLICATION_ERROR :: "32 word" where "EVENTSTREAM_APPLICATION_ERROR = 1"
definition EVENTSTREAM_CONNECT :: "32 word" where "EVENTSTREAM_CONNECT = 4"
definition EVENTSTREAM_CONNECT_ACK :: "32 word" where "EVENTSTREAM_CONNECT_ACK = 5"
definition EVENTSTREAM_CONNECTION_ACCEPTED :: "32 word" where "EVENTSTREAM_CONNECTION_ACCEPTED = 1"
definition EVENTSTREAM_TERMINATE_STREAM :: "32 word" where "EVENTSTREAM_TERMINATE_STREAM = 2"

lemmas eventstream_consts = EVENTSTREAM_APPLICATION_MESSAGE_def EVENTSTREAM_APPLICATION_ERROR_def EVENTSTREAM_CONNECT_def
  EVENTSTREAM_CONNECT_ACK_def EVENTSTREAM_CONNECTION_ACCEPTED_def EVENTSTREAM_TERMINATE_STREAM_def

type_synonym GgIpcResultCallback = "addr \<Rightarrow> GgMap \<Rightarrow> mem \<Rightarrow> cb_result"
type_synonym GgIpcErrorCallback = "addr \<Rightarrow> bytes \<Rightarrow> bytes \<Rightarrow> mem \<Rightarrow> cb_result"

record ResponseHandlerCtx =
  rh_ready :: bool
  rh_ret :: GgError
  rh_result_callback :: "GgIpcResultCallback option"
  rh_error_callback :: "GgIpcErrorCallback option"
  rh_response_ctx :: addr
  rh_sub_callback :: "GgIpcSubscribeCallback option"
  rh_sub_callback_ctx :: addr
  rh_sub_callback_aux_ctx :: addr

text \<open>The locals of a call that waits: its response context and its stream index.\<close>

record frame =
  fr_ctx :: ResponseHandlerCtx
  fr_index :: nat

text \<open>The last five fields are the link-time addresses of the static buffers and the fuel of the JSON
  decoder; no operation changes them.\<close>

record client =
  ipc_conn_fd :: int
  epoll_fd :: int
  recv_thread_id :: int
  tbl :: streams
  next_stream_id :: "32 word"
  frames :: "addr \<rightharpoonup> frame"
  cl_mem :: mem
  cl_os :: os
  cl_rx :: "rd_ev list"
  cl_tx :: "wr_ev list"
  cl_sent :: bytes
  ipc_recv_mem :: addr
  ipc_recv_decode_mem :: addr
  ipc_send_mem :: addr
  pruned_buf :: GgBuffer
  json_fuel :: nat

abbreviation upd_tbl :: "(streams \<Rightarrow> streams) \<Rightarrow> client \<Rightarrow> client" where
  "upd_tbl f cl \<equiv> cl\<lparr>tbl := f (tbl cl)\<rparr>"

definition connected :: "client \<Rightarrow> bool" where
  "connected cl \<longleftrightarrow> ipc_conn_fd cl \<ge> 0"

section \<open>Sending\<close>

definition int_header :: "string \<Rightarrow> 32 word \<Rightarrow> EventStreamHeader" where
  "int_header name v = \<lparr>hdr_name = str name, hdr_value = EVENTSTREAM_INT32 v\<rparr>"

definition str_header :: "string \<Rightarrow> bytes \<Rightarrow> EventStreamHeader" where
  "str_header name v = \<lparr>hdr_name = str name, hdr_value = EVENTSTREAM_STRING v\<rparr>"

definition ipc_send_packet :: "EventStreamHeader list \<Rightarrow> read_fn option \<Rightarrow> client \<Rightarrow> (GgError \<times> client) run" where
  "ipc_send_packet headers payload cl = do {
     (ret, es_packet, m) \<leftarrow> eventstream_encode (cl_mem cl)
       \<lparr>buf_data = ipc_send_mem cl, buf_len = GG_IPC_MAX_MSG_LEN\<rparr> headers payload;
     let cl = cl\<lparr>cl_mem := m\<rparr>;
     if ret \<noteq> GG_ERR_OK then Some (ret, cl)
     else do {
       (ret, sent, tx) \<leftarrow> gg_socket_write (cl_tx cl) (contents m es_packet);
       Some (ret, cl\<lparr>cl_sent := cl_sent cl @ sent, cl_tx := tx\<rparr>)
     }
   }"

section \<open>Closing a subscription\<close>

definition ggipc_close_subscription :: "GgIpcSubscriptionHandle \<Rightarrow> client \<Rightarrow> client run" where
  "ggipc_close_subscription handle cl =
     (case validate_handle (tbl cl) handle of
        Inl _ \<Rightarrow> Some cl
      | Inr index \<Rightarrow> do {
          let stream_id = stream_state_id (tbl cl) ! index;
          (_, cl) \<leftarrow> ipc_send_packet
            [int_header '':message-type'' EVENTSTREAM_APPLICATION_MESSAGE,
             int_header '':message-flags'' EVENTSTREAM_TERMINATE_STREAM,
             int_header '':stream-id'' stream_id] None cl;
          Some (upd_tbl (clear_stream_index index) cl)
        })"

fun close_all :: "GgIpcSubscriptionHandle list \<Rightarrow> client \<Rightarrow> client run" where
  "close_all [] cl = Some cl"
| "close_all (h # hs) cl = do { cl \<leftarrow> ggipc_close_subscription h cl; close_all hs cl }"

text \<open>A callback runs, with the mutex held, and closes the subscriptions it chooses.\<close>

definition run_callback :: "(mem \<Rightarrow> cb_result) \<Rightarrow> client \<Rightarrow> (GgError \<times> client) run" where
  "run_callback cb cl = do {
     (ret, hs, m) \<leftarrow> cb (cl_mem cl);
     cl \<leftarrow> close_all hs (cl\<lparr>cl_mem := m\<rparr>);
     Some (ret, cl)
   }"

section \<open>Responses\<close>

text \<open>The payload of a received message is in the receive buffer, before the checksum that ends the data
  section, and is decoded in place; objects are allocated in \<open>ipc_recv_decode_mem\<close>.\<close>

definition payload_buf :: "client \<Rightarrow> EventStreamMessage \<Rightarrow> GgBuffer" where
  "payload_buf cl msg =
     \<lparr>buf_data = ipc_recv_mem cl + (length (iter_pos (msg_headers msg)) - 4 - length (msg_payload msg)),
      buf_len = length (msg_payload msg)\<rparr>"

definition decode_payload :: "EventStreamMessage \<Rightarrow> client \<Rightarrow> (GgObject option res \<times> client) run" where
  "decode_payload msg cl = do {
     let alloc = gg_arena_init \<lparr>buf_data = ipc_recv_decode_mem cl, buf_len = GG_MAX_OBJECT_SUBOBJECTS * obj_size\<rparr>;
     (x, _, m) \<leftarrow> gg_json_decode_destructive (json_fuel cl) (pruned_buf cl) (payload_buf cl msg) (Some alloc) True (cl_mem cl);
     Some (x, cl\<lparr>cl_mem := m\<rparr>)
   }"

definition handle_application_error ::
    "EventStreamMessage \<Rightarrow> GgIpcErrorCallback option \<Rightarrow> addr \<Rightarrow> client \<Rightarrow> (GgError \<times> client) run" where
  "handle_application_error msg error_callback response_ctx cl =
     (case error_callback of
        None \<Rightarrow> Some (GG_ERR_REMOTE, cl)
      | Some callback \<Rightarrow> do {
          (x, cl) \<leftarrow> decode_payload msg cl;
          case x of
            Inl e \<Rightarrow> Some (e, cl)
          | Inr obj \<Rightarrow> do {
              err_result \<leftarrow> obj;
              t \<leftarrow> gg_obj_type err_result;
              if t \<noteq> GG_TYPE_MAP then Some (GG_ERR_PARSE, cl)
              else do {
                mp \<leftarrow> gg_obj_into_map err_result;
                (ret, outs) \<leftarrow> gg_map_validate (cl_mem cl) mp
                  [\<lparr>sch_key = str ''_errorCode'', sch_required = GG_PRESENCE_REQUIRED, sch_type = GG_TYPE_BUF, sch_value = True\<rparr>,
                   \<lparr>sch_key = str ''_message'', sch_required = GG_PRESENCE_OPTIONAL, sch_type = GG_TYPE_BUF, sch_value = True\<rparr>];
                if ret \<noteq> GG_ERR_OK then Some (ret, cl)
                else do {
                  error_code_obj \<leftarrow> outs ! 0;
                  message_obj \<leftarrow> outs ! 1;
                  error_code \<leftarrow> gg_obj_into_buf (rd (cl_mem cl) error_code_obj obj_size);
                  message \<leftarrow> (if message_obj = NULL then Some []
                     else map_option (contents (cl_mem cl)) (gg_obj_into_buf (rd (cl_mem cl) message_obj obj_size)));
                  (ret, cl) \<leftarrow> run_callback (callback response_ctx (contents (cl_mem cl) error_code) message) cl;
                  if ret \<noteq> GG_ERR_OK then Some (ret, cl) else Some (GG_ERR_REMOTE, cl)
                }
              }
            }
        })"

definition response_handler_inner ::
    "EventStreamCommonHeaders \<Rightarrow> EventStreamMessage \<Rightarrow> GgIpcResultCallback option \<Rightarrow> GgIpcErrorCallback option \<Rightarrow> addr \<Rightarrow>
     client \<Rightarrow> (GgError \<times> client) run" where
  "response_handler_inner common_headers msg result_callback error_callback response_ctx cl =
     (if ch_message_type common_headers = EVENTSTREAM_APPLICATION_ERROR then
        handle_application_error msg error_callback response_ctx cl
      else if ch_message_type common_headers \<noteq> EVENTSTREAM_APPLICATION_MESSAGE then Some (GG_ERR_FAILURE, cl)
      else case result_callback of
        None \<Rightarrow> Some (GG_ERR_OK, cl)
      | Some callback \<Rightarrow> do {
          (x, cl) \<leftarrow> decode_payload msg cl;
          case x of
            Inl e \<Rightarrow> Some (e, cl)
          | Inr obj \<Rightarrow> do {
              result \<leftarrow> obj;
              t \<leftarrow> gg_obj_type result;
              if t \<noteq> GG_TYPE_MAP then Some (GG_ERR_FAILURE, cl)
              else do {
                mp \<leftarrow> gg_obj_into_map result;
                run_callback (callback response_ctx mp) cl
              }
            }
        })"

definition terminates_stream :: "EventStreamCommonHeaders \<Rightarrow> bool" where
  "terminates_stream common_headers \<longleftrightarrow> ch_message_flags common_headers AND EVENTSTREAM_TERMINATE_STREAM \<noteq> 0"

definition response_handler ::
    "nat \<Rightarrow> addr \<Rightarrow> EventStreamCommonHeaders \<Rightarrow> EventStreamMessage \<Rightarrow> client \<Rightarrow> client run" where
  "response_handler index ctx common_headers msg cl = do {
     fr \<leftarrow> frames cl ctx;
     let call_ctx = fr_ctx fr;
     (ret, cl) \<leftarrow> response_handler_inner common_headers msg (rh_result_callback call_ctx) (rh_error_callback call_ctx)
       (rh_response_ctx call_ctx) cl;
     let (ret, cl) =
       (if rh_sub_callback call_ctx = None \<or> ret \<noteq> GG_ERR_OK then (ret, upd_tbl (clear_stream_index index) cl)
        else if terminates_stream common_headers then (GG_ERR_FAILURE, upd_tbl (clear_stream_index index) cl)
        else (ret, upd_tbl (set_stream_index index (ch_stream_id common_headers)
          \<lparr>sh_fn = rh_sub_callback call_ctx, sh_ctx = rh_sub_callback_ctx call_ctx,
           sh_aux_ctx = rh_sub_callback_aux_ctx call_ctx\<rparr>) cl));
     Some (cl\<lparr>frames := (frames cl)(ctx \<mapsto> fr\<lparr>fr_ctx := call_ctx\<lparr>rh_ret := ret, rh_ready := True\<rparr>\<rparr>)\<rparr>)
   }"

section \<open>Subscription events\<close>

definition sub_header_step :: "EventStreamHeader \<Rightarrow> bytes \<times> bytes \<Rightarrow> (bytes \<times> bytes) res" where
  "sub_header_step header acc =
     (case acc of (service_model_type, content_type) \<Rightarrow>
        if gg_buffer_eq (hdr_name header) (str ''service-model-type'') then
          case hdr_value header of EVENTSTREAM_STRING s \<Rightarrow> Inr (s, content_type) | _ \<Rightarrow> Inl GG_ERR_INVALID
        else if gg_buffer_eq (hdr_name header) (str '':content-type'') then
          case hdr_value header of EVENTSTREAM_STRING s \<Rightarrow> Inr (service_model_type, s) | _ \<Rightarrow> Inl GG_ERR_INVALID
        else Inr acc)"

function sub_headers_loop :: "EventStreamHeaderIter \<Rightarrow> bytes \<times> bytes \<Rightarrow> (bytes \<times> bytes) res run" where
  "sub_headers_loop it acc =
     (case eventstream_header_next it of
        None \<Rightarrow> None
      | Some (Inl _) \<Rightarrow> Some (Inr acc)
      | Some (Inr (header, it')) \<Rightarrow>
          (case sub_header_step header acc of
             Inl e \<Rightarrow> Some (Inl e)
           | Inr acc' \<Rightarrow> sub_headers_loop it' acc'))"
  by pat_completeness auto
termination by (relation "measure (\<lambda>(it, _). iter_count it)") (auto simp: header_next_count)

declare sub_headers_loop.simps [simp del]

definition call_sub_callback ::
    "GgIpcSubscriptionHandle \<Rightarrow> GgIpcSubscribeCallback \<Rightarrow> addr \<Rightarrow> addr \<Rightarrow> EventStreamCommonHeaders \<Rightarrow> EventStreamMessage \<Rightarrow>
     client \<Rightarrow> (GgError \<times> client) run" where
  "call_sub_callback handle sub_callback sub_callback_ctx sub_callback_aux_ctx common_headers msg cl =
     (if ch_message_type common_headers \<noteq> EVENTSTREAM_APPLICATION_MESSAGE then Some (GG_ERR_FAILURE, cl)
      else do {
        hs \<leftarrow> sub_headers_loop (msg_headers msg) ([], []);
        case hs of
          Inl e \<Rightarrow> Some (e, cl)
        | Inr (service_model_type, content_type) \<Rightarrow>
            if \<not> gg_buffer_eq content_type (str ''application/json'') then Some (GG_ERR_INVALID, cl)
            else do {
              (x, cl) \<leftarrow> decode_payload msg cl;
              case x of
                Inl e \<Rightarrow> if e = GG_ERR_NOMEM then Some (GG_ERR_OK, cl) else Some (e, cl)
              | Inr obj \<Rightarrow> do {
                  response \<leftarrow> obj;
                  t \<leftarrow> gg_obj_type response;
                  if t \<noteq> GG_TYPE_MAP then Some (GG_ERR_INVALID, cl)
                  else do {
                    mp \<leftarrow> gg_obj_into_map response;
                    run_callback (sub_callback sub_callback_ctx sub_callback_aux_ctx handle service_model_type mp) cl
                  }
                }
            }
      })"

section \<open>The receiving thread\<close>

text \<open>The part of \<open>dispatch_incoming_packet\<close> under the mutex.\<close>

definition dispatch_message ::
    "EventStreamCommonHeaders \<Rightarrow> EventStreamMessage \<Rightarrow> client \<Rightarrow> (GgError \<times> client) run" where
  "dispatch_message common_headers msg cl =
     (case get_stream_index_from_id (tbl cl) (ch_stream_id common_headers) of
        None \<Rightarrow> Some (GG_ERR_OK, cl)
      | Some index \<Rightarrow>
          let handler = stream_state_handler (tbl cl) ! index in
          case sh_fn handler of
            None \<Rightarrow> do {
              cl \<leftarrow> response_handler index (sh_ctx handler) common_headers msg cl;
              Some (GG_ERR_OK, cl)
            }
          | Some fn \<Rightarrow> do {
              handle \<leftarrow> get_current_handle (tbl cl) index;
              (sub_ret, cl) \<leftarrow> call_sub_callback handle fn (sh_ctx handler) (sh_aux_ctx handler) common_headers msg cl;
              let cl = (if sub_ret \<noteq> GG_ERR_OK \<or> terminates_stream common_headers
                        then upd_tbl (clear_stream_index index) cl else cl);
              Some (GG_ERR_OK, cl)
            })"

definition dispatch_incoming_packet :: "client \<Rightarrow> (GgError \<times> client) run" where
  "dispatch_incoming_packet cl = do {
     (ret, rx) \<leftarrow> eventsteam_get_packet gg_socket_reader (cl_rx cl) GG_IPC_MAX_MSG_LEN;
     let cl = cl\<lparr>cl_rx := rx\<rparr>;
     case ret of
       Inl e \<Rightarrow> Some (e, cl)
     | Inr msg \<Rightarrow> do {
         let cl = cl\<lparr>cl_mem := wr (cl_mem cl) (ipc_recv_mem cl) (iter_pos (msg_headers msg))\<rparr>;
         headers \<leftarrow> eventstream_get_common_headers msg;
         case headers of
           Inl e \<Rightarrow> Some (e, cl)
         | Inr common_headers \<Rightarrow>
             if sint (ch_stream_id common_headers) < 0 then Some (GG_ERR_FAILURE, cl)
             else dispatch_message common_headers msg cl
       }
   }"

definition data_ready_callback :: "client \<Rightarrow> 64 word \<Rightarrow> (GgError \<times> client) run" where
  "data_ready_callback cl data = do {
     (ret, cl) \<leftarrow> dispatch_incoming_packet cl;
     if ret \<noteq> GG_ERR_OK then do {
       (_, os) \<leftarrow> gg_close (cl_os cl) (nat (ipc_conn_fd cl));
       Some (ret, cl\<lparr>cl_os := os\<rparr>)
     }
     else Some (ret, cl)
   }"

text \<open>The thread runs until its event loop fails and then ends the process with status 1.\<close>

definition recv_thread :: "int \<Rightarrow> ep_ev list \<Rightarrow> client \<Rightarrow> (nat \<times> client) run" where
  "recv_thread tid evs cl = do {
     (_, cl) \<leftarrow> gg_socket_epoll_run data_ready_callback (cl\<lparr>recv_thread_id := tid\<rparr>) evs;
     Some (1, cl)
   }"

definition init_ipc_recv_thread :: "client \<Rightarrow> (GgError \<times> client) run" where
  "init_ipc_recv_thread cl = do {
     (ret, os) \<leftarrow> gg_socket_epoll_create (cl_os cl);
     case ret of
       Inl e \<Rightarrow> Some (e, cl\<lparr>cl_os := os\<rparr>)
     | Inr fd \<Rightarrow> do {
         (created, os) \<leftarrow> sys_status os;
         Some (if created then GG_ERR_OK else GG_ERR_FATAL, cl\<lparr>cl_os := os, epoll_fd := int fd\<rparr>)
       }
   }"

section \<open>Calls and subscriptions\<close>

text \<open>The arguments of \<open>ggipc_subscribe\<close>; \<open>rq_handle\<close> tells whether the caller passes a pointer for the
  subscription handle.\<close>

record request =
  rq_operation :: bytes
  rq_service_model_type :: bytes
  rq_params :: GgMap
  rq_result_callback :: "GgIpcResultCallback option"
  rq_error_callback :: "GgIpcErrorCallback option"
  rq_response_ctx :: addr
  rq_sub_callback :: "GgIpcSubscribeCallback option"
  rq_sub_callback_ctx :: addr
  rq_sub_callback_aux_ctx :: addr
  rq_handle :: bool

definition request_headers :: "request \<Rightarrow> 32 word \<Rightarrow> EventStreamHeader list" where
  "request_headers rq stream_id =
     [int_header '':message-type'' EVENTSTREAM_APPLICATION_MESSAGE,
      int_header '':message-flags'' 0,
      int_header '':stream-id'' stream_id,
      str_header ''operation'' (rq_operation rq),
      str_header ''service-model-type'' (rq_service_model_type rq)]"

definition request_ctx :: "request \<Rightarrow> ResponseHandlerCtx" where
  "request_ctx rq = \<lparr>rh_ready = False, rh_ret = GG_ERR_TIMEOUT, rh_result_callback = rq_result_callback rq,
     rh_error_callback = rq_error_callback rq, rh_response_ctx = rq_response_ctx rq,
     rh_sub_callback = rq_sub_callback rq, rh_sub_callback_ctx = rq_sub_callback_ctx rq,
     rh_sub_callback_aux_ctx = rq_sub_callback_aux_ctx rq\<rparr>"

text \<open>From the call to the wait. \<open>tid\<close> is the calling thread, \<open>fp\<close> its stack frame, where the object of the
  parameters is. The result is the error returned, or \<^const>\<open>None\<close> when the call goes on to wait, and the
  handle stored. \<open>next_stream_id++\<close> overflows, which C leaves undefined, after \<open>2 ^ 31\<close> requests.\<close>

definition subscribe_begin :: "int \<Rightarrow> addr \<Rightarrow> request \<Rightarrow> client \<Rightarrow> (GgError option \<times> GgIpcSubscriptionHandle option \<times> client) run" where
  "subscribe_begin tid fp rq cl =
     (if \<not> connected cl then Some (Some GG_ERR_NOCONN, None, cl)
      else if recv_thread_id cl = tid then Some (Some GG_ERR_INVALID, None, cl)
      else case claim_stream_index (tbl cl) of
        None \<Rightarrow> Some (Some GG_ERR_NOMEM, None, cl)
      | Some (stream_index, t) \<Rightarrow> do {
          let stream_id = next_stream_id cl;
          c_assert (stream_id \<noteq> 0x7FFFFFFF);
          let t = set_stream_index stream_index stream_id \<lparr>sh_fn = None, sh_ctx = fp, sh_aux_ctx = NULL\<rparr> t;
          handle \<leftarrow> get_current_handle t stream_index;
          let sub_handle = (if rq_handle rq then Some handle else None);
          params_obj \<leftarrow> gg_obj_map (rq_params rq);
          payload \<leftarrow> gg_json_reader fp;
          (ret, cl) \<leftarrow> ipc_send_packet (request_headers rq stream_id) (Some payload)
            (cl\<lparr>tbl := t, next_stream_id := stream_id + 1, cl_mem := wr (cl_mem cl) fp params_obj\<rparr>);
          if ret \<noteq> GG_ERR_OK then Some (Some ret, sub_handle, upd_tbl (clear_stream_index stream_index) cl)
          else Some (None, sub_handle, cl\<lparr>frames := (frames cl)(fp \<mapsto> \<lparr>fr_ctx = request_ctx rq, fr_index = stream_index\<rparr>)\<rparr>)
        })"

text \<open>A wake-up of the wait loop: the call returns when its response is ready.\<close>

definition subscribe_woken :: "addr \<Rightarrow> client \<Rightarrow> (GgError option \<times> client) run" where
  "subscribe_woken fp cl = do {
     fr \<leftarrow> frames cl fp;
     if rh_ready (fr_ctx fr) then Some (Some (rh_ret (fr_ctx fr)), cl\<lparr>frames := (frames cl)(fp := None)\<rparr>)
     else Some (None, cl)
   }"

text \<open>The wait ends with \<open>ETIMEDOUT\<close>.\<close>

definition subscribe_timed_out :: "addr \<Rightarrow> client \<Rightarrow> (GgError \<times> client) run" where
  "subscribe_timed_out fp cl = do {
     fr \<leftarrow> frames cl fp;
     Some (GG_ERR_TIMEOUT, (upd_tbl (clear_stream_index (fr_index fr)) cl)\<lparr>frames := (frames cl)(fp := None)\<rparr>)
   }"

text \<open>One call on its own: while it waits, the receiving thread handles packets, and the wait is woken or
  times out. An error of the receiving thread ends the process.\<close>

datatype wait_ev = Received | Woken | TimedOut

fun subscribe_wait :: "addr \<Rightarrow> wait_ev list \<Rightarrow> client \<Rightarrow> (GgError \<times> client) run" where
  "subscribe_wait fp [] cl = None"
| "subscribe_wait fp (Received # ws) cl = do {
     (ret, cl) \<leftarrow> data_ready_callback cl 0;
     if ret \<noteq> GG_ERR_OK then None else subscribe_wait fp ws cl
   }"
| "subscribe_wait fp (Woken # ws) cl = do {
     (ret, cl) \<leftarrow> subscribe_woken fp cl;
     case ret of Some ret \<Rightarrow> Some (ret, cl) | None \<Rightarrow> subscribe_wait fp ws cl
   }"
| "subscribe_wait fp (TimedOut # ws) cl = subscribe_timed_out fp cl"

definition ggipc_subscribe ::
    "int \<Rightarrow> addr \<Rightarrow> wait_ev list \<Rightarrow> request \<Rightarrow> client \<Rightarrow> (GgError \<times> GgIpcSubscriptionHandle option \<times> client) run" where
  "ggipc_subscribe tid fp ws rq cl = do {
     (ret, handle, cl) \<leftarrow> subscribe_begin tid fp rq cl;
     case ret of
       Some ret \<Rightarrow> Some (ret, handle, cl)
     | None \<Rightarrow> do { (ret, cl) \<leftarrow> subscribe_wait fp ws cl; Some (ret, handle, cl) }
   }"

definition ggipc_call ::
    "int \<Rightarrow> addr \<Rightarrow> wait_ev list \<Rightarrow> bytes \<Rightarrow> bytes \<Rightarrow> GgMap \<Rightarrow> GgIpcResultCallback option \<Rightarrow> GgIpcErrorCallback option \<Rightarrow> addr \<Rightarrow>
     client \<Rightarrow> (GgError \<times> client) run" where
  "ggipc_call tid fp ws operation service_model_type params result_callback error_callback response_ctx cl = do {
     (ret, _, cl) \<leftarrow> ggipc_subscribe tid fp ws
       \<lparr>rq_operation = operation, rq_service_model_type = service_model_type, rq_params = params,
        rq_result_callback = result_callback, rq_error_callback = error_callback, rq_response_ctx = response_ctx,
        rq_sub_callback = None, rq_sub_callback_ctx = NULL, rq_sub_callback_aux_ctx = NULL, rq_handle = False\<rparr> cl;
     Some (ret, cl)
   }"

section \<open>Connecting\<close>

definition ggipc_connect_extra_header_handler :: "EventStreamHeaderIter \<Rightarrow> GgError" where
  "ggipc_connect_extra_header_handler headers = GG_ERR_OK"

definition register_ipc_socket :: "int \<Rightarrow> client \<Rightarrow> (GgError \<times> client) run" where
  "register_ipc_socket conn cl = do {
     c_assert (epoll_fd cl \<ge> 0);
     (ret, os) \<leftarrow> gg_socket_epoll_add (epoll_fd cl) conn (cl_os cl);
     Some (ret, cl\<lparr>cl_os := os\<rparr>)
   }"

definition connect_headers :: "EventStreamHeader list" where
  "connect_headers =
     [int_header '':message-type'' EVENTSTREAM_CONNECT, int_header '':message-flags'' 0, int_header '':stream-id'' 0,
      str_header '':version'' (str ''0.1.0'')]"

text \<open>The handshake on the open connection: everything between \<open>gg_connect\<close> and the hand-over of the
  descriptor. \<open>payload\<close> is the address of the payload object; the handler of extra headers is a weak symbol
  that a program may replace.\<close>

definition connect_handshake ::
    "(EventStreamHeaderIter \<Rightarrow> GgError) \<Rightarrow> int \<Rightarrow> addr \<Rightarrow> client \<Rightarrow> (GgError \<times> client) run" where
  "connect_handshake extra conn payload cl = do {
     rdr \<leftarrow> gg_json_reader payload;
     (ret, cl) \<leftarrow> ipc_send_packet connect_headers (Some rdr) cl;
     if ret \<noteq> GG_ERR_OK then Some (ret, cl)
     else do {
       (x, rx) \<leftarrow> eventsteam_get_packet gg_socket_reader (cl_rx cl) GG_IPC_MAX_MSG_LEN;
       let cl = cl\<lparr>cl_rx := rx\<rparr>;
       case x of
         Inl e \<Rightarrow> Some (e, cl)
       | Inr msg \<Rightarrow> do {
           headers \<leftarrow> eventstream_get_common_headers msg;
           case headers of
             Inl e \<Rightarrow> Some (e, cl)
           | Inr common_headers \<Rightarrow>
               if ch_message_type common_headers \<noteq> EVENTSTREAM_CONNECT_ACK then Some (GG_ERR_FAILURE, cl)
               else if ch_message_flags common_headers AND EVENTSTREAM_CONNECTION_ACCEPTED = 0 then Some (GG_ERR_FAILURE, cl)
               else if extra (msg_headers msg) \<noteq> GG_ERR_OK then Some (extra (msg_headers msg), cl)
               else register_ipc_socket conn cl
         }
     }
   }"

definition ggipc_connect_with_payload ::
    "(EventStreamHeaderIter \<Rightarrow> GgError) \<Rightarrow> bytes \<Rightarrow> addr \<Rightarrow> client \<Rightarrow> (GgError \<times> client) run" where
  "ggipc_connect_with_payload extra socket_path payload cl = do {
     c_assert (\<not> connected cl);
     (x, os) \<leftarrow> gg_connect socket_path (cl_os cl);
     let cl = cl\<lparr>cl_os := os\<rparr>;
     case x of
       Inl e \<Rightarrow> Some (e, cl)
     | Inr conn \<Rightarrow> do {
         (ret, cl) \<leftarrow> connect_handshake extra (int conn) payload cl;
         if ret \<noteq> GG_ERR_OK then do {
           (_, os) \<leftarrow> gg_close (cl_os cl) conn;
           Some (ret, cl\<lparr>cl_os := os\<rparr>)
         }
         else Some (GG_ERR_OK, cl\<lparr>ipc_conn_fd := int conn\<rparr>)
       }
   }"

end
