(* ===== verification/Client_Run.thy ===== *)
theory Client_Run
  imports Client
begin

text \<open>
  The client as a concurrent system: any number of threads make calls and close subscriptions while the
  receiving thread dispatches packets. A step is one critical section of \<open>stream_state_mtx\<close>, of any thread,
  in any order; bytes arrive, the kernel takes bytes and the memory of the program changes at any time.
\<close>

section \<open>Steps\<close>

inductive client_step :: "client \<Rightarrow> client \<Rightarrow> bool" where
  subscribes: "frames cl fp = None \<Longrightarrow> subscribe_begin tid fp rq cl = Some (ret, handle, cl') \<Longrightarrow> client_step cl cl'"
| wakes: "subscribe_woken fp cl = Some (ret, cl') \<Longrightarrow> client_step cl cl'"
| times_out: "subscribe_timed_out fp cl = Some (ret, cl') \<Longrightarrow> client_step cl cl'"
| closes: "ggipc_close_subscription handle cl = Some cl' \<Longrightarrow> client_step cl cl'"
| receives: "data_ready_callback cl data = Some (ret, cl') \<Longrightarrow> client_step cl cl'"
| connects: "ggipc_connect_with_payload extra path payload cl = Some (ret, cl') \<Longrightarrow> client_step cl cl'"
| inits: "init_ipc_recv_thread cl = Some (ret, cl') \<Longrightarrow> client_step cl cl'"
| starts: "client_step cl (cl\<lparr>recv_thread_id := tid\<rparr>)"
| environment: "client_step cl (cl\<lparr>cl_mem := m, cl_rx := rx, cl_tx := tx, cl_os := os\<rparr>)"

definition client_start :: "client \<Rightarrow> bool" where
  "client_start cl \<longleftrightarrow> ipc_conn_fd cl = -1 \<and> tbl cl = init_streams \<and> next_stream_id cl = 1 \<and> frames cl = Map.empty"

inductive client_reachable :: "client \<Rightarrow> bool" where
  start: "client_start cl \<Longrightarrow> client_reachable cl"
| step: "client_reachable cl \<Longrightarrow> client_step cl cl' \<Longrightarrow> client_reachable cl'"

section \<open>The invariant\<close>

abbreviation slot_id :: "client \<Rightarrow> nat \<Rightarrow> 32 word" where
  "slot_id cl i \<equiv> stream_state_id (tbl cl) ! i"

abbreviation slot_handler :: "client \<Rightarrow> nat \<Rightarrow> StreamHandler" where
  "slot_handler cl i \<equiv> stream_state_handler (tbl cl) ! i"

text \<open>A slot waits for the response of the call with frame \<open>fp\<close>.\<close>

definition awaits :: "client \<Rightarrow> nat \<Rightarrow> addr \<Rightarrow> bool" where
  "awaits cl i fp \<longleftrightarrow> slot_id cl i \<noteq> 0 \<and> sh_fn (slot_handler cl i) = None \<and> sh_ctx (slot_handler cl i) = fp"

text \<open>Ids in use are positive, below the next one and distinct; a slot that awaits a response points to the
  frame of a call that has not returned, has no response yet and knows the slot.\<close>

definition client_inv :: "client \<Rightarrow> bool" where
  "client_inv cl \<longleftrightarrow> wf_streams (tbl cl) \<and> 0 < sint (next_stream_id cl) \<and>
     (\<forall>i < GG_IPC_MAX_STREAMS. slot_id cl i \<noteq> 0 \<longrightarrow> 0 < sint (slot_id cl i) \<and> sint (slot_id cl i) < sint (next_stream_id cl)) \<and>
     (\<forall>i < GG_IPC_MAX_STREAMS. \<forall>j < GG_IPC_MAX_STREAMS. slot_id cl i \<noteq> 0 \<longrightarrow> slot_id cl i = slot_id cl j \<longrightarrow> i = j) \<and>
     (\<forall>i < GG_IPC_MAX_STREAMS. \<forall>fp. awaits cl i fp \<longrightarrow> (\<exists>fr. frames cl fp = Some fr \<and> \<not> rh_ready (fr_ctx fr) \<and> fr_index fr = i))"

lemma client_inv_wf: "client_inv cl \<Longrightarrow> wf_streams (tbl cl)"
  by (simp add: client_inv_def)

lemma client_inv_start: "client_start cl \<Longrightarrow> client_inv cl"
  by (auto simp: client_inv_def client_start_def awaits_def init_streams_def wf_streams_def)

section \<open>Operations that only release slots\<close>

definition releases :: "client \<Rightarrow> client \<Rightarrow> bool" where
  "releases cl cl' \<longleftrightarrow> frames cl' = frames cl \<and> next_stream_id cl' = next_stream_id cl \<and>
     (wf_streams (tbl cl) \<longrightarrow> wf_streams (tbl cl') \<and>
       (\<forall>i. slot_id cl' i = 0 \<or> (slot_id cl' i = slot_id cl i \<and> slot_handler cl' i = slot_handler cl i)))"

lemma releases_refl [simp]: "releases cl cl"
  by (simp add: releases_def)

lemma releases_trans: "releases a b \<Longrightarrow> releases b c \<Longrightarrow> releases a c"
  unfolding releases_def by metis

lemma releases_same: "tbl cl' = tbl cl \<Longrightarrow> frames cl' = frames cl \<Longrightarrow> next_stream_id cl' = next_stream_id cl \<Longrightarrow> releases cl cl'"
  by (simp add: releases_def)

lemma releases_clear [intro]: "releases cl (upd_tbl (clear_stream_index i) cl)"
  by (auto simp: releases_def clear_stream_index_def nth_update wf_streams_def)

lemma send_core:
  assumes "ipc_send_packet hs pl cl = Some (ret, cl')"
  obtains m s t where "cl' = cl\<lparr>cl_mem := m, cl_sent := s, cl_tx := t\<rparr>"
proof -
  obtain e b m where e: "eventstream_encode (cl_mem cl) \<lparr>buf_data = ipc_send_mem cl, buf_len = GG_IPC_MAX_MSG_LEN\<rparr> hs pl = Some (e, b, m)"
    using assms by (auto simp: ipc_send_packet_def run_simps)
  show ?thesis
  proof (cases "e = GG_ERR_OK")
    case True
    then show ?thesis using assms e that by (auto simp: ipc_send_packet_def run_simps)
  next
    case False
    then have "cl' = cl\<lparr>cl_mem := m, cl_sent := cl_sent cl, cl_tx := cl_tx cl\<rparr>"
      using assms e by (auto simp: ipc_send_packet_def)
    then show ?thesis by (rule that)
  qed
qed

lemma releases_send: "ipc_send_packet hs pl cl = Some (ret, cl') \<Longrightarrow> releases cl cl'"
  by (erule send_core) (simp add: releases_same)

lemma releases_close:
  assumes "ggipc_close_subscription h cl = Some cl'"
  shows "releases cl cl'"
proof (cases "validate_handle (tbl cl) h")
  case (Inr i)
  then obtain ret cl1 hs where "ipc_send_packet hs None cl = Some (ret, cl1)" "cl' = upd_tbl (clear_stream_index i) cl1"
    using assms by (auto simp: ggipc_close_subscription_def Let_def run_simps)
  then show ?thesis using releases_trans[OF releases_send releases_clear] by blast
qed (use assms in \<open>simp add: ggipc_close_subscription_def\<close>)

lemma releases_close_all: "close_all hs cl = Some cl' \<Longrightarrow> releases cl cl'"
proof (induction hs arbitrary: cl)
  case (Cons h hs)
  then obtain cl1 where "ggipc_close_subscription h cl = Some cl1" "close_all hs cl1 = Some cl'" by (auto simp: run_simps)
  then show ?case using Cons.IH releases_close releases_trans by blast
qed simp

lemma releases_callback: "run_callback cb cl = Some (ret, cl') \<Longrightarrow> releases cl cl'"
  by (auto simp: run_callback_def elim!: bind_SomeE dest!: releases_close_all intro: releases_trans[OF releases_same, rotated -1])

lemma releases_decode: "decode_payload msg cl = Some (x, cl') \<Longrightarrow> releases cl cl'"
  by (auto simp: decode_payload_def run_simps intro!: releases_same)

text \<open>The handlers are sequences of such operations.\<close>

lemma releases_error:
  assumes "handle_application_error msg cb ctx cl = Some (ret, cl')"
  shows "releases cl cl'"
  using assms
  by (auto simp: handle_application_error_def elim!: bind_SomeE split: option.split_asm sum.split_asm if_split_asm
      dest!: releases_decode releases_callback simp del: gg_map_validate.simps) (metis releases_trans)+

lemma releases_inner:
  assumes "response_handler_inner hs msg rcb ecb ctx cl = Some (ret, cl')"
  shows "releases cl cl'"
  using assms
  by (auto simp: response_handler_inner_def elim!: bind_SomeE split: option.split_asm sum.split_asm if_split_asm
      dest!: releases_decode releases_callback releases_error) (metis releases_trans)+

lemma releases_sub:
  assumes "call_sub_callback h cb c a hs msg cl = Some (ret, cl')"
  shows "releases cl cl'"
  using assms
  by (auto simp: call_sub_callback_def elim!: bind_SomeE split: option.split_asm sum.split_asm if_split_asm prod.split_asm
      dest!: releases_decode releases_callback simp del: gg_map_validate.simps) (metis releases_trans)+

lemma client_inv_releases:
  assumes "client_inv cl" "releases cl cl'"
  shows "client_inv cl'"
proof -
  have slot: "slot_id cl' i = 0 \<or> (slot_id cl' i = slot_id cl i \<and> slot_handler cl' i = slot_handler cl i)" for i
    using assms by (simp add: releases_def client_inv_def)
  have f: "frames cl' = frames cl" "next_stream_id cl' = next_stream_id cl" "wf_streams (tbl cl')"
    using assms by (auto simp: releases_def client_inv_def)
  have "awaits cl' i fp \<Longrightarrow> awaits cl i fp" for i fp using slot[of i] by (auto simp: awaits_def)
  with slot f assms(1) show ?thesis unfolding client_inv_def by metis
qed

section \<open>Operations keep the invariant\<close>

text \<open>The parts of the invariant that concern one slot.\<close>

lemma client_invD:
  assumes "client_inv cl"
  shows "wf_streams (tbl cl)" "0 < sint (next_stream_id cl)"
    and "i < GG_IPC_MAX_STREAMS \<Longrightarrow> slot_id cl i \<noteq> 0 \<Longrightarrow> 0 < sint (slot_id cl i) \<and> sint (slot_id cl i) < sint (next_stream_id cl)"
    and "i < GG_IPC_MAX_STREAMS \<Longrightarrow> j < GG_IPC_MAX_STREAMS \<Longrightarrow> slot_id cl i \<noteq> 0 \<Longrightarrow> slot_id cl i = slot_id cl j \<Longrightarrow> i = j"
    and "i < GG_IPC_MAX_STREAMS \<Longrightarrow> awaits cl i fp \<Longrightarrow> \<exists>fr. frames cl fp = Some fr \<and> \<not> rh_ready (fr_ctx fr) \<and> fr_index fr = i"
  using assms by (auto simp: client_inv_def)

lemma client_invI:
  assumes "wf_streams (tbl cl)" "0 < sint (next_stream_id cl)"
    and "\<And>i. i < GG_IPC_MAX_STREAMS \<Longrightarrow> slot_id cl i \<noteq> 0 \<Longrightarrow> 0 < sint (slot_id cl i) \<and> sint (slot_id cl i) < sint (next_stream_id cl)"
    and "\<And>i j. i < GG_IPC_MAX_STREAMS \<Longrightarrow> j < GG_IPC_MAX_STREAMS \<Longrightarrow> slot_id cl i \<noteq> 0 \<Longrightarrow> slot_id cl i = slot_id cl j \<Longrightarrow> i = j"
    and "\<And>i fp. i < GG_IPC_MAX_STREAMS \<Longrightarrow> awaits cl i fp \<Longrightarrow> \<exists>fr. frames cl fp = Some fr \<and> \<not> rh_ready (fr_ctx fr) \<and> fr_index fr = i"
  shows "client_inv cl"
  using assms unfolding client_inv_def by blast

lemma found_slot:
  assumes "client_inv cl" "get_stream_index_from_id (tbl cl) x = Some i"
  shows "i < GG_IPC_MAX_STREAMS" "slot_id cl i = x" "x \<noteq> 0" "0 < sint x" "sint x < sint (next_stream_id cl)"
proof -
  have *: "\<not> sint x \<le> 0" "i < GG_IPC_MAX_STREAMS" "slot_id cl i = x"
    using assms client_invD(1)[OF assms(1)]
    by (auto simp: get_stream_index_from_id_def slot_loop_Some wf_streams_def split: if_splits)
  moreover from *(1) have "x \<noteq> 0" by auto
  ultimately show "i < GG_IPC_MAX_STREAMS" "slot_id cl i = x" "x \<noteq> 0" "0 < sint x" "sint x < sint (next_stream_id cl)"
    using client_invD(3)[OF assms(1), of i] by auto
qed

text \<open>Changing what a frame holds, when no slot awaits it.\<close>

lemma client_inv_frame:
  assumes "client_inv cl" "\<And>i. i < GG_IPC_MAX_STREAMS \<Longrightarrow> \<not> awaits cl i fp"
  shows "client_inv (cl\<lparr>frames := (frames cl)(fp := x)\<rparr>)"
proof -
  have aw: "awaits (cl\<lparr>frames := (frames cl)(fp := x)\<rparr>) i p = awaits cl i p" for i p by (simp add: awaits_def)
  show ?thesis
  proof (rule client_invI)
    fix i p assume "i < GG_IPC_MAX_STREAMS" "awaits (cl\<lparr>frames := (frames cl)(fp := x)\<rparr>) i p"
    then show "\<exists>fr. frames (cl\<lparr>frames := (frames cl)(fp := x)\<rparr>) p = Some fr \<and> \<not> rh_ready (fr_ctx fr) \<and> fr_index fr = i"
      using client_invD(5)[OF assms(1)] assms(2)[of i] aw by auto
  qed (use assms(1) in \<open>auto simp: client_inv_def\<close>)
qed

lemma awaits_clear: "wf_streams (tbl cl) \<Longrightarrow> i < GG_IPC_MAX_STREAMS \<Longrightarrow> awaits (upd_tbl (clear_stream_index i) cl) j fp \<longleftrightarrow> j \<noteq> i \<and> awaits cl j fp"
  by (auto simp: awaits_def clear_stream_index_def nth_update wf_streams_def)

lemma client_inv_woken:
  assumes "client_inv cl" "subscribe_woken fp cl = Some (ret, cl')"
  shows "client_inv cl'"
proof -
  obtain fr where fr: "frames cl fp = Some fr" using assms(2) by (auto simp: subscribe_woken_def elim!: bind_SomeE)
  show ?thesis
  proof (cases "rh_ready (fr_ctx fr)")
    case True
    then have "\<not> awaits cl i fp" if "i < GG_IPC_MAX_STREAMS" for i using client_invD(5)[OF assms(1) that] fr by fastforce
    then have "client_inv (cl\<lparr>frames := (frames cl)(fp := None)\<rparr>)" by (rule client_inv_frame[OF assms(1)])
    then show ?thesis using assms(2) fr True by (simp add: subscribe_woken_def)
  qed (use assms fr in \<open>simp add: subscribe_woken_def\<close>)
qed

lemma client_inv_timed_out:
  assumes "client_inv cl" "subscribe_timed_out fp cl = Some (ret, cl')"
  shows "client_inv cl'"
proof -
  obtain fr where fr: "frames cl fp = Some fr" "cl' = (upd_tbl (clear_stream_index (fr_index fr)) cl)\<lparr>frames := (frames cl)(fp := None)\<rparr>"
    using assms(2) by (auto simp: subscribe_timed_out_def elim!: bind_SomeE)
  let ?c = "upd_tbl (clear_stream_index (fr_index fr)) cl"
  have inv: "client_inv ?c" by (rule client_inv_releases[OF assms(1) releases_clear])
  have "\<not> awaits ?c i fp" if i: "i < GG_IPC_MAX_STREAMS" for i
  proof
    assume a: "awaits ?c i fp"
    from client_invD(5)[OF inv i a] fr(1) have "fr_index fr = i" by auto
    with a i awaits_clear[OF client_invD(1)[OF assms(1)] i] show False by simp
  qed
  from client_inv_frame[OF inv this] show ?thesis using fr(2) by simp
qed

lemma client_inv_set:
  assumes inv: "client_inv cl" and i: "i < GG_IPC_MAX_STREAMS" and x: "0 < sint x" "sint x < sint (next_stream_id cl)"
    and new: "\<And>j. j < GG_IPC_MAX_STREAMS \<Longrightarrow> slot_id cl j = x \<Longrightarrow> j = i"
    and h: "sh_fn h = None \<Longrightarrow> \<exists>fr. frames cl (sh_ctx h) = Some fr \<and> \<not> rh_ready (fr_ctx fr) \<and> fr_index fr = i"
  shows "client_inv (upd_tbl (set_stream_index i x h) cl)"
proof -
  let ?c = "upd_tbl (set_stream_index i x h) cl"
  have wf: "wf_streams (tbl cl)" by (rule client_invD(1)[OF inv])
  have slot: "slot_id ?c j = (if j = i then x else slot_id cl j)" "slot_handler ?c j = (if j = i then h else slot_handler cl j)" for j
    using i wf by (auto simp: set_stream_index_def nth_update wf_streams_def)
  show ?thesis
  proof (rule client_invI)
    fix j fp assume "j < GG_IPC_MAX_STREAMS" "awaits ?c j fp"
    then show "\<exists>fr. frames ?c fp = Some fr \<and> \<not> rh_ready (fr_ctx fr) \<and> fr_index fr = j"
      using slot[of j] h client_invD(5)[OF inv, of j fp] by (cases "j = i") (auto simp: awaits_def)
  next
    fix j assume "j < GG_IPC_MAX_STREAMS" "slot_id ?c j \<noteq> 0"
    then show "0 < sint (slot_id ?c j) \<and> sint (slot_id ?c j) < sint (next_stream_id ?c)"
      using slot(1)[of j] x client_invD(3)[OF inv, of j] by (cases "j = i") simp_all
  next
    fix j k assume "j < GG_IPC_MAX_STREAMS" "k < GG_IPC_MAX_STREAMS" "slot_id ?c j \<noteq> 0" "slot_id ?c j = slot_id ?c k"
    then show "j = k"
      using new[of j] new[of k] client_invD(4)[OF inv, of j k] unfolding slot(1) by metis
  qed (use wf client_invD(2)[OF inv] in simp_all)
qed

lemma client_inv_response:
  assumes inv: "client_inv cl" and found: "get_stream_index_from_id (tbl cl) (ch_stream_id hs) = Some i"
    and h: "sh_fn (slot_handler cl i) = None" "sh_ctx (slot_handler cl i) = ctx"
    and r: "response_handler i ctx hs msg cl = Some cl'"
  shows "client_inv cl'"
proof -
  note slot = found_slot[OF inv found]
  from slot h have aw: "awaits cl i ctx" by (simp add: awaits_def)
  obtain fr ret cl1 where fr: "frames cl ctx = Some fr"
    and inner: "response_handler_inner hs msg (rh_result_callback (fr_ctx fr)) (rh_error_callback (fr_ctx fr)) (rh_response_ctx (fr_ctx fr)) cl = Some (ret, cl1)"
    using r by (auto simp: response_handler_def Let_def elim!: bind_SomeE split: prod.splits)
  have fi: "fr_index fr = i" using client_invD(5)[OF inv slot(1) aw] fr by simp
  have rel: "releases cl cl1" by (rule releases_inner[OF inner])
  have inv1: "client_inv cl1" by (rule client_inv_releases[OF inv rel])
  have fr1: "frames cl1 ctx = Some fr" "next_stream_id cl1 = next_stream_id cl" using rel fr by (simp_all add: releases_def)
  define cl2 where "cl2 = (if rh_sub_callback (fr_ctx fr) = None \<or> ret \<noteq> GG_ERR_OK \<or> terminates_stream hs
    then upd_tbl (clear_stream_index i) cl1
    else upd_tbl (set_stream_index i (ch_stream_id hs) \<lparr>sh_fn = rh_sub_callback (fr_ctx fr),
       sh_ctx = rh_sub_callback_ctx (fr_ctx fr), sh_aux_ctx = rh_sub_callback_aux_ctx (fr_ctx fr)\<rparr>) cl1)"
  have new: "j = i" if "j < GG_IPC_MAX_STREAMS" "slot_id cl1 j = ch_stream_id hs" for j
  proof -
    have "slot_id cl1 j = 0 \<or> slot_id cl1 j = slot_id cl j"
      using rel client_invD(1)[OF inv] unfolding releases_def by blast
    with that(2) slot(3) have "slot_id cl j = ch_stream_id hs" by metis
    with slot(2,3) show ?thesis using client_invD(4)[OF inv that(1) slot(1)] by metis
  qed
  have "client_inv cl2"
    unfolding cl2_def using slot fr1 new by (auto intro!: client_inv_releases[OF inv1 releases_clear] client_inv_set[OF inv1])
  moreover have "\<not> awaits cl2 j ctx" if j: "j < GG_IPC_MAX_STREAMS" for j
  proof
    assume a: "awaits cl2 j ctx"
    have "frames cl2 = frames cl1" by (simp add: cl2_def)
    with client_invD(5)[OF \<open>client_inv cl2\<close> j a] fr1 fi have "j = i" by auto
    with a slot(1) client_invD(1)[OF inv1] show False
      by (auto simp: cl2_def awaits_def clear_stream_index_def set_stream_index_def nth_update wf_streams_def split: if_splits)
  qed
  ultimately have "client_inv (cl2\<lparr>frames := (frames cl2)(ctx := x)\<rparr>)" for x by (rule client_inv_frame)
  moreover have "\<exists>x. cl' = cl2\<lparr>frames := (frames cl2)(ctx := x)\<rparr>"
    using r fr inner by (auto simp: response_handler_def cl2_def Let_def split: if_splits)
  ultimately show ?thesis by auto
qed

lemma client_inv_dispatch:
  assumes inv: "client_inv cl" and d: "dispatch_message hs msg cl = Some (ret, cl')"
  shows "client_inv cl'"
proof (cases "get_stream_index_from_id (tbl cl) (ch_stream_id hs)")
  case (Some i)
  show ?thesis
  proof (cases "sh_fn (slot_handler cl i)")
    case None
    then show ?thesis
      using d Some client_inv_response[OF inv Some None refl] by (auto simp: dispatch_message_def Let_def elim!: bind_SomeE)
  next
    case fn: (Some fn)
    then obtain h sub_ret cl1 where "call_sub_callback h fn (sh_ctx (slot_handler cl i)) (sh_aux_ctx (slot_handler cl i)) hs msg cl = Some (sub_ret, cl1)"
      "cl' = (if sub_ret \<noteq> GG_ERR_OK \<or> terminates_stream hs then upd_tbl (clear_stream_index i) cl1 else cl1)"
      using d Some by (auto simp: dispatch_message_def Let_def elim!: bind_SomeE)
    then show ?thesis
      using client_inv_releases[OF inv releases_sub] client_inv_releases[OF _ releases_clear] by auto
  qed
qed (use inv d in \<open>simp add: dispatch_message_def\<close>)

text \<open>The invariant does not depend on the memory, the descriptors and the connection.\<close>

lemma client_inv_other [simp]:
  "client_inv (cl\<lparr>cl_mem := m\<rparr>) = client_inv cl" "client_inv (cl\<lparr>cl_rx := rx\<rparr>) = client_inv cl"
  "client_inv (cl\<lparr>cl_tx := tx\<rparr>) = client_inv cl" "client_inv (cl\<lparr>cl_sent := bs\<rparr>) = client_inv cl"
  "client_inv (cl\<lparr>cl_os := os\<rparr>) = client_inv cl" "client_inv (cl\<lparr>ipc_conn_fd := fd\<rparr>) = client_inv cl"
  "client_inv (cl\<lparr>epoll_fd := fd\<rparr>) = client_inv cl" "client_inv (cl\<lparr>recv_thread_id := tid\<rparr>) = client_inv cl"
  by (simp_all add: client_inv_def awaits_def)

lemma client_inv_receive:
  assumes inv: "client_inv cl" and d: "data_ready_callback cl data = Some (ret, cl')"
  shows "client_inv cl'"
proof -
  have *: "client_inv cl1" if "dispatch_incoming_packet cl = Some (ret1, cl1)" for ret1 cl1
    using that inv
    by (auto simp: dispatch_incoming_packet_def Let_def elim!: bind_SomeE split: sum.split_asm if_split_asm
        dest!: client_inv_dispatch[rotated])
  show ?thesis
    using d by (auto simp: data_ready_callback_def elim!: bind_SomeE split: if_split_asm dest!: *)
qed

lemma sint_Suc:
  assumes "(x :: 32 word) \<noteq> 0x7FFFFFFF"
  shows "sint (x + 1) = sint x + 1"
proof -
  have "sint x \<noteq> sint (0x7FFFFFFF :: 32 word)" using assms using signed_word_eqI by blast
  then have "sint x \<noteq> 2147483647" by simp
  moreover have "sint x < 2147483648" "- 2147483648 \<le> sint x" using sint_less[of x] sint_greater_eq[of x] by simp_all
  ultimately show ?thesis by (simp add: sint_word_ariths signed_take_bit_int_eq_self)
qed

lemma client_inv_next:
  assumes "client_inv cl" "sint (next_stream_id cl) \<le> sint x"
  shows "client_inv (cl\<lparr>next_stream_id := x\<rparr>)"
proof -
  have aw: "awaits (cl\<lparr>next_stream_id := x\<rparr>) i p = awaits cl i p" for i p by (simp add: awaits_def)
  show ?thesis
    by (rule client_invI) (use client_invD[OF assms(1)] assms(2) aw in \<open>simp_all, fastforce\<close>)
qed

lemma client_inv_begin:
  assumes inv: "client_inv cl" and fresh: "frames cl fp = None" and b: "subscribe_begin tid fp rq cl = Some (ret, handle, cl')"
  shows "client_inv cl'"
proof (cases "cl' = cl")
  case False
  then obtain i t where claim: "claim_stream_index (tbl cl) = Some (i, t)"
    using b by (auto simp: subscribe_begin_def split: if_splits option.splits)
  note cl = claim_Some[OF claim client_invD(1)[OF inv]]
  let ?x = "next_stream_id cl" and ?h = "\<lparr>sh_fn = None, sh_ctx = fp, sh_aux_ctx = NULL\<rparr>"
  let ?fr = "\<lparr>fr_ctx = request_ctx rq, fr_index = i\<rparr>"
  obtain m po ret1 cl1 where x: "?x \<noteq> 0x7FFFFFFF"
    and send: "ipc_send_packet (request_headers rq ?x) (Some po)
      (cl\<lparr>tbl := set_stream_index i ?x ?h t, next_stream_id := ?x + 1, cl_mem := m\<rparr>) = Some (ret1, cl1)"
    and cl': "cl' = (if ret1 \<noteq> GG_ERR_OK then upd_tbl (clear_stream_index i) cl1 else cl1\<lparr>frames := (frames cl1)(fp \<mapsto> ?fr)\<rparr>)"
    using b claim False by (auto simp: subscribe_begin_def Let_def elim!: bind_SomeE split: if_splits)
  have sx: "sint (?x + 1) = sint ?x + 1" by (rule sint_Suc[OF x])
  have "\<not> awaits cl j fp" if "j < GG_IPC_MAX_STREAMS" for j using client_invD(5)[OF inv that, of fp] fresh by auto
  from client_inv_frame[OF inv this] have "client_inv (cl\<lparr>frames := (frames cl)(fp \<mapsto> ?fr)\<rparr>)" .
  then have inv1: "client_inv (cl\<lparr>frames := (frames cl)(fp \<mapsto> ?fr), next_stream_id := ?x + 1\<rparr>)"
    by (rule client_inv_next) (simp add: sx)
  let ?c1 = "cl\<lparr>frames := (frames cl)(fp \<mapsto> ?fr), next_stream_id := ?x + 1\<rparr>"
  have "j = i" if "j < GG_IPC_MAX_STREAMS" "slot_id ?c1 j = ?x" for j
    using client_invD(2)[OF inv] client_invD(3)[OF inv that(1)] that(2) by (cases "?x = 0") auto
  then have inv2: "client_inv (upd_tbl (set_stream_index i ?x ?h) ?c1)"
    using cl(1) client_invD(2)[OF inv] by (intro client_inv_set[OF inv1]) (auto simp: sx request_ctx_def)
  define c2 where "c2 = cl\<lparr>tbl := set_stream_index i ?x ?h t, next_stream_id := ?x + 1\<rparr>"
  have inv3: "client_inv (c2\<lparr>frames := (frames c2)(fp \<mapsto> ?fr)\<rparr>)"
    by (rule client_inv_releases[OF inv2]) (auto simp: releases_def c2_def cl(3) set_stream_index_def wf_streams_def)
  obtain m' ss tt where cl1: "cl1 = c2\<lparr>cl_mem := m', cl_sent := ss, cl_tx := tt\<rparr>"
    using send by (rule send_core) (auto simp: c2_def)
  show ?thesis
  proof (cases "ret1 = GG_ERR_OK")
    case True
    have "cl' = (c2\<lparr>frames := (frames c2)(fp \<mapsto> ?fr)\<rparr>)\<lparr>cl_mem := m', cl_sent := ss, cl_tx := tt\<rparr>"
      using True by (simp add: cl' cl1)
    then show ?thesis using inv3 by (simp only: client_inv_other)
  next
    case False
    let ?c3 = "upd_tbl (clear_stream_index i) (c2\<lparr>frames := (frames c2)(fp \<mapsto> ?fr)\<rparr>)"
    have inv4: "client_inv ?c3" by (rule client_inv_releases[OF inv3 releases_clear])
    have "\<not> awaits ?c3 j fp" if j: "j < GG_IPC_MAX_STREAMS" for j
      using client_invD(5)[OF inv4 j, of fp] awaits_clear[OF client_invD(1)[OF inv3] cl(1), of j fp] by auto
    from client_inv_frame[OF inv4 this, of None]
    have inv5: "client_inv (?c3\<lparr>frames := (frames ?c3)(fp := None)\<rparr>)" .
    have "(frames c2)(fp := None) = frames c2" using fresh by (auto simp: c2_def)
    then have "cl' = (?c3\<lparr>frames := (frames ?c3)(fp := None)\<rparr>)\<lparr>cl_mem := m', cl_sent := ss, cl_tx := tt\<rparr>"
      using False by (simp add: cl' cl1)
    then show ?thesis using inv5 by (simp only: client_inv_other)
  qed
qed (use inv in simp)

section \<open>Every reachable state\<close>

lemma client_inv_send: "ipc_send_packet hs pl cl = Some (ret, cl') \<Longrightarrow> client_inv cl' = client_inv cl"
  by (erule send_core) simp

lemma client_inv_connect:
  assumes "client_inv cl" "ggipc_connect_with_payload extra path payload cl = Some (ret, cl')"
  shows "client_inv cl'"
proof -
  have *: "client_inv c2" if "client_inv c1" "connect_handshake extra fd p c1 = Some (e, c2)" for c1 c2 fd p e
    using that(2,1)
    by (auto simp: connect_handshake_def register_ipc_socket_def Let_def elim!: bind_SomeE
        split: sum.split_asm if_split_asm dest!: client_inv_send)
  show ?thesis
    using assms
    by (auto simp: ggipc_connect_with_payload_def Let_def elim!: bind_SomeE split: sum.split_asm if_split_asm dest!: *[rotated])
qed

lemma client_inv_step: "client_step cl cl' \<Longrightarrow> client_inv cl \<Longrightarrow> client_inv cl'"
proof (induction rule: client_step.induct)
  case (closes handle cl cl')
  then show ?case using client_inv_releases releases_close by blast
next
  case (inits cl ret cl')
  then show ?case
    by (auto simp: init_ipc_recv_thread_def elim!: bind_SomeE split: sum.split_asm)
qed (auto intro: client_inv_begin client_inv_woken client_inv_timed_out client_inv_receive client_inv_connect)

lemma client_inv_reachable: "client_reachable cl \<Longrightarrow> client_inv cl"
  by (induction rule: client_reachable.induct) (auto intro: client_inv_start client_inv_step)

end
