(* ===== verification/Client_Calls.thy ===== *)
theory Client_Calls
  imports Client_Run
begin

text \<open>
  What one call does from end to end: the request packet it sends, and what the response completes. The
  layers below enter through their interfaces: the JSON reader writes the payload, the socket takes the
  packet, and the socket's stream delivers the response however the kernel cuts it.
\<close>

section \<open>Headers of a received message\<close>

fun header_fold :: "(EventStreamHeader \<Rightarrow> 'a \<Rightarrow> 'a res) \<Rightarrow> EventStreamHeader list \<Rightarrow> 'a \<Rightarrow> 'a res" where
  "header_fold f [] acc = Inr acc"
| "header_fold f (h # hs) acc = (case f h acc of Inl e \<Rightarrow> Inl e | Inr acc' \<Rightarrow> header_fold f hs acc')"

lemma common_headers_fold:
  "header_loop it = Some hs \<Longrightarrow> common_headers_loop it out = Some (header_fold common_header_step hs out)"
proof (induction it arbitrary: hs out rule: header_loop.induct)
  case (1 it)
  from "1.prems" show ?case
    by (subst common_headers_loop.simps, subst (asm) header_loop.simps)
       (auto split: option.split_asm sum.splits simp: "1.IH")
qed

lemma sub_headers_fold:
  "header_loop it = Some hs \<Longrightarrow> sub_headers_loop it acc = Some (header_fold sub_header_step hs acc)"
proof (induction it arbitrary: hs acc rule: header_loop.induct)
  case (1 it)
  from "1.prems" show ?case
    by (subst sub_headers_loop.simps, subst (asm) header_loop.simps)
       (auto split: option.split_asm sum.splits simp: "1.IH")
qed

text \<open>The common headers a list of headers amounts to.\<close>

definition common_of :: "EventStreamHeader list \<Rightarrow> EventStreamCommonHeaders res" where
  "common_of hs = header_fold common_header_step hs \<lparr>ch_stream_id = 0, ch_message_type = 0, ch_message_flags = 0\<rparr>"

lemma get_common_headers: "header_loop (msg_headers msg) = Some hs \<Longrightarrow> eventstream_get_common_headers msg = Some (common_of hs)"
  by (simp add: eventstream_get_common_headers_def common_of_def common_headers_fold)

section \<open>Sending a request\<close>

text \<open>A packet is sent whole or an error is reported.\<close>

lemma write_whole: "gg_socket_write tx bs = Some (GG_ERR_OK, s, tx') \<Longrightarrow> s = bs"
  using file_write_loop_prefix[of tx bs "[]" GG_ERR_OK s tx'] by (auto simp: gg_socket_write_def gg_file_write_def)

lemma send_result:
  assumes obj: "json_pre p v F (cl_mem cl)" and hs: "list_all hdr_ok hs"
    and apart: "{ipc_send_mem cl..<ipc_send_mem cl + GG_IPC_MAX_MSG_LEN} \<inter> F = {}"
    and fits: "length (es_packet hs (json_text v)) \<le> GG_IPC_MAX_MSG_LEN"
    and room: "gg_socket_write (cl_tx cl) (es_packet hs (json_text v)) = Some (e, s, tx)"
  shows "\<exists>m. ipc_send_packet hs (Some (obj_read p)) cl = Some (e, cl\<lparr>cl_mem := m, cl_sent := cl_sent cl @ s, cl_tx := tx\<rparr>)"
proof -
  let ?b = "\<lparr>buf_data = ipc_send_mem cl, buf_len = GG_IPC_MAX_MSG_LEN\<rparr>" and ?P = "es_packet hs (json_text v)"
  obtain m where m: "eventstream_encode (cl_mem cl) ?b hs (Some (obj_read p)) = Some (GG_ERR_OK, ?b\<lparr>buf_len := length ?P\<rparr>, m)"
    "rd m (ipc_send_mem cl) (length ?P) = ?P"
    using json_payload.encode_packet[OF hs obj, of ?b] apart fits by (auto simp: GG_IPC_MAX_MSG_LEN_def UINT32_MAX_def)
  then show ?thesis
    using room by (auto simp: ipc_send_packet_def contents_def)
qed

lemma send_request:
  assumes "json_pre p v F (cl_mem cl)" "list_all hdr_ok hs"
    "{ipc_send_mem cl..<ipc_send_mem cl + GG_IPC_MAX_MSG_LEN} \<inter> F = {}"
    "length (es_packet hs (json_text v)) \<le> GG_IPC_MAX_MSG_LEN"
    and room: "gg_socket_write (cl_tx cl) (es_packet hs (json_text v)) = Some (GG_ERR_OK, s, tx)"
  shows "\<exists>m. ipc_send_packet hs (Some (obj_read p)) cl =
    Some (GG_ERR_OK, cl\<lparr>cl_mem := m, cl_sent := cl_sent cl @ es_packet hs (json_text v), cl_tx := tx\<rparr>)"
  using send_result[OF assms] write_whole[OF room] by simp

text \<open>The client can send a request with the parameters \<open>v\<close>: it is connected, has a free stream and an id for
  it, the parameters are an object outside of the send buffer, and the kernel takes the packet.\<close>

definition request_packet :: "request \<Rightarrow> 32 word \<Rightarrow> gg_val \<Rightarrow> bytes" where
  "request_packet rq stream_id v = es_packet (request_headers rq stream_id) (json_text v)"

definition can_send :: "int \<Rightarrow> addr \<Rightarrow> request \<Rightarrow> gg_val \<Rightarrow> client \<Rightarrow> bool" where
  "can_send tid fp rq v cl \<longleftrightarrow> connected cl \<and> recv_thread_id cl \<noteq> tid \<and> 0 \<in> set (stream_state_id (tbl cl)) \<and>
     next_stream_id cl \<noteq> 0x7FFFFFFF \<and> frames cl fp = None \<and>
     (\<exists>po F. gg_obj_map (rq_params rq) = Some po \<and> json_pre fp v F (wr (cl_mem cl) fp po) \<and>
        {ipc_send_mem cl..<ipc_send_mem cl + GG_IPC_MAX_MSG_LEN} \<inter> F = {}) \<and>
     list_all hdr_ok (request_headers rq (next_stream_id cl)) \<and>
     length (request_packet rq (next_stream_id cl) v) \<le> GG_IPC_MAX_MSG_LEN \<and>
     (\<exists>s tx. gg_socket_write (cl_tx cl) (request_packet rq (next_stream_id cl) v) = Some (GG_ERR_OK, s, tx))"

lemma begin_sends:
  assumes send: "can_send tid fp rq v cl" and wf: "wf_streams (tbl cl)"
  shows "\<exists>i t h m tx. claim_stream_index (tbl cl) = Some (i, t) \<and>
    get_current_handle (set_stream_index i (next_stream_id cl) \<lparr>sh_fn = None, sh_ctx = fp, sh_aux_ctx = NULL\<rparr> t) i = Some h \<and>
    subscribe_begin tid fp rq cl = Some (None, if rq_handle rq then Some h else None,
      cl\<lparr>tbl := set_stream_index i (next_stream_id cl) \<lparr>sh_fn = None, sh_ctx = fp, sh_aux_ctx = NULL\<rparr> t,
        next_stream_id := next_stream_id cl + 1, cl_mem := m, cl_sent := cl_sent cl @ request_packet rq (next_stream_id cl) v,
        cl_tx := tx, frames := (frames cl)(fp \<mapsto> \<lparr>fr_ctx = request_ctx rq, fr_index = i\<rparr>)\<rparr>)"
proof -
  obtain i t where claim: "claim_stream_index (tbl cl) = Some (i, t)"
    using send claim_None[of "tbl cl"] by (cases "claim_stream_index (tbl cl)") (auto simp: can_send_def)
  have i: "i < GG_IPC_MAX_STREAMS" by (rule claim_Some[OF claim wf])
  obtain po F s tx where s: "connected cl" "recv_thread_id cl \<noteq> tid" "next_stream_id cl \<noteq> 0x7FFFFFFF"
    "gg_obj_map (rq_params rq) = Some po" "json_pre fp v F (wr (cl_mem cl) fp po)"
    "{ipc_send_mem cl..<ipc_send_mem cl + GG_IPC_MAX_MSG_LEN} \<inter> F = {}" "list_all hdr_ok (request_headers rq (next_stream_id cl))"
    "length (request_packet rq (next_stream_id cl) v) \<le> GG_IPC_MAX_MSG_LEN"
    "gg_socket_write (cl_tx cl) (request_packet rq (next_stream_id cl) v) = Some (GG_ERR_OK, s, tx)"
    using send by (auto simp: can_send_def)
  let ?t = "set_stream_index i (next_stream_id cl) \<lparr>sh_fn = None, sh_ctx = fp, sh_aux_ctx = NULL\<rparr> t"
  let ?cl = "cl\<lparr>tbl := ?t, next_stream_id := next_stream_id cl + 1, cl_mem := wr (cl_mem cl) fp po\<rparr>"
  obtain m where m: "ipc_send_packet (request_headers rq (next_stream_id cl)) (Some (obj_read fp)) ?cl =
    Some (GG_ERR_OK, ?cl\<lparr>cl_mem := m, cl_sent := cl_sent cl @ request_packet rq (next_stream_id cl) v, cl_tx := tx\<rparr>)"
    using send_request[of fp v F ?cl "request_headers rq (next_stream_id cl)" s tx] s by (auto simp: request_packet_def)
  obtain h where h: "get_current_handle ?t i = Some h" using i by (simp add: get_current_handle_def)
  have fp: "gg_json_reader fp = Some (obj_read fp)" using s(5) by (simp add: gg_json_reader_def json_pre_def)
  show ?thesis
    using s claim m h fp by (auto simp: subscribe_begin_def Let_def)
qed

section \<open>Receiving the response\<close>

text \<open>A packet with headers that amount to \<open>com\<close> is next in the stream, and \<open>rest\<close> follows it.\<close>

definition incoming :: "EventStreamHeader list \<Rightarrow> bytes \<Rightarrow> EventStreamCommonHeaders \<Rightarrow> bytes \<Rightarrow> client \<Rightarrow> bool" where
  "incoming hs pl com rest cl \<longleftrightarrow> arriving (cl_rx cl) = es_packet hs pl @ rest \<and> list_all hdr_ok hs \<and>
     length (es_packet hs pl) \<le> GG_IPC_MAX_MSG_LEN + 12 \<and> common_of hs = Inr com"

lemma receive_message:
  assumes "incoming hs pl com rest cl" "0 \<le> sint (ch_stream_id com)"
  shows "\<exists>rx msg m. arriving rx = rest \<and> msg_payload msg = pl \<and> header_loop (msg_headers msg) = Some hs \<and>
    dispatch_incoming_packet cl = dispatch_message com msg (cl\<lparr>cl_rx := rx, cl_mem := m\<rparr>)"
proof -
  have a: "arriving (cl_rx cl) = es_packet hs pl @ rest" "list_all hdr_ok hs" "length (es_packet hs pl) \<le> GG_IPC_MAX_MSG_LEN + 12"
    "common_of hs = Inr com" using assms(1) by (simp_all add: incoming_def)
  obtain rx msg where rx: "eventsteam_get_packet gg_socket_reader (cl_rx cl) GG_IPC_MAX_MSG_LEN = Some (Inr msg, rx)"
    "arriving rx = rest" "msg_payload msg = pl" "header_loop (msg_headers msg) = Some hs"
    using sock.get_packet[OF a(2,1,3)] by (auto simp: GG_IPC_MAX_MSG_LEN_def)
  show ?thesis
    using rx assms(2) get_common_headers[OF rx(4)] a(4)
    by (intro exI[of _ rx] exI[of _ msg]) (auto simp: dispatch_incoming_packet_def)
qed

lemma find_slot:
  assumes inv: "client_inv cl" and i: "i < GG_IPC_MAX_STREAMS" "slot_id cl i = x" "x \<noteq> 0"
  shows "get_stream_index_from_id (tbl cl) x = Some i"
proof -
  have "0 < sint x" using client_invD(3)[OF inv i(1)] i by simp
  moreover have "\<forall>j < i. slot_id cl j \<noteq> x"
    using client_invD(4)[OF inv _ i(1)] i by (metis less_trans nat_neq_iff)
  ultimately show ?thesis
    using i client_invD(1)[OF inv] by (simp add: get_stream_index_from_id_def slot_loop_Some wf_streams_def)
qed

text \<open>The state in which a request has been sent and its call waits.\<close>

definition waiting :: "client \<Rightarrow> addr \<Rightarrow> nat \<Rightarrow> 32 word \<Rightarrow> request \<Rightarrow> bool" where
  "waiting cl fp i x rq \<longleftrightarrow> i < GG_IPC_MAX_STREAMS \<and> slot_id cl i = x \<and> x \<noteq> 0 \<and> awaits cl i fp \<and>
     frames cl fp = Some \<lparr>fr_ctx = request_ctx rq, fr_index = i\<rparr>"

text \<open>A response without a decoded result completes the call: the frame has its outcome, and the slot is free
  or belongs to the subscription.\<close>

definition answer :: "request \<Rightarrow> EventStreamCommonHeaders \<Rightarrow> GgError" where
  "answer rq com = (if rq_sub_callback rq \<noteq> None \<and> terminates_stream com then GG_ERR_FAILURE else GG_ERR_OK)"

definition answered_tbl :: "request \<Rightarrow> EventStreamCommonHeaders \<Rightarrow> nat \<Rightarrow> streams \<Rightarrow> streams" where
  "answered_tbl rq com i t =
     (if rq_sub_callback rq = None \<or> terminates_stream com then clear_stream_index i t
      else set_stream_index i (ch_stream_id com) \<lparr>sh_fn = rq_sub_callback rq, sh_ctx = rq_sub_callback_ctx rq,
        sh_aux_ctx = rq_sub_callback_aux_ctx rq\<rparr> t)"

lemma response_completes:
  assumes inv: "client_inv cl" and w: "waiting cl fp i (ch_stream_id com) rq"
    and plain: "ch_message_type com = EVENTSTREAM_APPLICATION_MESSAGE" "rq_result_callback rq = None"
  shows "dispatch_message com msg cl = Some (GG_ERR_OK, cl\<lparr>tbl := answered_tbl rq com i (tbl cl),
    frames := (frames cl)(fp \<mapsto> \<lparr>fr_ctx = (request_ctx rq)\<lparr>rh_ret := answer rq com, rh_ready := True\<rparr>, fr_index = i\<rparr>)\<rparr>)"
proof -
  have i: "i < GG_IPC_MAX_STREAMS" "slot_id cl i = ch_stream_id com" "ch_stream_id com \<noteq> 0"
    and aw: "sh_fn (slot_handler cl i) = None" "sh_ctx (slot_handler cl i) = fp"
    and fr: "frames cl fp = Some \<lparr>fr_ctx = request_ctx rq, fr_index = i\<rparr>"
    using w by (auto simp: waiting_def awaits_def)
  have "response_handler_inner com msg (rh_result_callback (request_ctx rq)) e c cl = Some (GG_ERR_OK, cl)" for e c
    using plain by (simp add: response_handler_inner_def request_ctx_def eventstream_consts)
  then show ?thesis
    using find_slot[OF inv i] aw fr plain
    by (auto simp: dispatch_message_def response_handler_def answered_tbl_def answer_def request_ctx_def Let_def)
qed

lemma begin_waits:
  assumes inv: "client_inv cl" and send: "can_send tid fp rq v cl"
  shows "\<exists>i h cl1. i < GG_IPC_MAX_STREAMS \<and> subscribe_begin tid fp rq cl = Some (None, if rq_handle rq then Some h else None, cl1) \<and>
    client_inv cl1 \<and> waiting cl1 fp i (next_stream_id cl) rq \<and> get_current_handle (tbl cl1) i = Some h \<and>
    map_option fst (claim_stream_index (tbl cl)) = Some i \<and>
    slot_id cl i = 0 \<and> stream_state_id (tbl cl1) = (stream_state_id (tbl cl))[i := next_stream_id cl] \<and>
    frames cl1 = (frames cl)(fp \<mapsto> \<lparr>fr_ctx = request_ctx rq, fr_index = i\<rparr>) \<and> cl_rx cl1 = cl_rx cl \<and>
    cl_sent cl1 = cl_sent cl @ request_packet rq (next_stream_id cl) v \<and> next_stream_id cl1 = next_stream_id cl + 1"
proof -
  note wf = client_invD(1)[OF inv]
  obtain i t h m tx where b: "claim_stream_index (tbl cl) = Some (i, t)"
    "get_current_handle (set_stream_index i (next_stream_id cl) \<lparr>sh_fn = None, sh_ctx = fp, sh_aux_ctx = NULL\<rparr> t) i = Some h"
    "subscribe_begin tid fp rq cl = Some (None, if rq_handle rq then Some h else None,
      cl\<lparr>tbl := set_stream_index i (next_stream_id cl) \<lparr>sh_fn = None, sh_ctx = fp, sh_aux_ctx = NULL\<rparr> t,
        next_stream_id := next_stream_id cl + 1, cl_mem := m, cl_sent := cl_sent cl @ request_packet rq (next_stream_id cl) v,
        cl_tx := tx, frames := (frames cl)(fp \<mapsto> \<lparr>fr_ctx = request_ctx rq, fr_index = i\<rparr>)\<rparr>)"
    using begin_sends[OF send wf] by blast
  have fresh: "frames cl fp = None" using send by (simp add: can_send_def)
  have nz: "next_stream_id cl \<noteq> 0" using client_invD(2)[OF inv] by auto
  note c = claim_Some[OF b(1) wf]
  show ?thesis
    using b c nz wf client_inv_begin[OF inv fresh b(3)]
    by (intro exI[of _ i] exI[of _ h] exI)
       (auto simp: waiting_def awaits_def set_stream_index_def nth_update wf_streams_def)
qed

section \<open>A whole call\<close>

lemma spurious_wakes:
  "waiting cl fp i x rq \<Longrightarrow> subscribe_wait fp (replicate k Woken @ ws) cl = subscribe_wait fp ws cl"
  by (induction k) (auto simp: subscribe_woken_def waiting_def request_ctx_def)

lemma waiting_other [simp]:
  "waiting (cl\<lparr>cl_rx := rx\<rparr>) fp i x rq = waiting cl fp i x rq" "waiting (cl\<lparr>cl_mem := m\<rparr>) fp i x rq = waiting cl fp i x rq"
  by (simp_all add: waiting_def awaits_def)

lemma wait_completes:
  assumes inv: "client_inv cl" and w: "waiting cl fp i (ch_stream_id com) rq" and inc: "incoming hs pl com rest cl"
    and plain: "ch_message_type com = EVENTSTREAM_APPLICATION_MESSAGE" "rq_result_callback rq = None"
  shows "\<exists>cl'. subscribe_wait fp (replicate k Woken @ [Received, Woken]) cl = Some (answer rq com, cl') \<and>
    tbl cl' = answered_tbl rq com i (tbl cl) \<and> frames cl' = (frames cl)(fp := None) \<and> arriving (cl_rx cl') = rest \<and>
    cl_sent cl' = cl_sent cl"
proof -
  have "0 \<le> sint (ch_stream_id com)"
    using client_invD(3)[OF inv, of i] w by (auto simp: waiting_def)
  then obtain rx msg m where r: "arriving rx = rest"
    "dispatch_incoming_packet cl = dispatch_message com msg (cl\<lparr>cl_rx := rx, cl_mem := m\<rparr>)"
    using receive_message[OF inc] by blast
  have "dispatch_incoming_packet cl = Some (GG_ERR_OK, (cl\<lparr>cl_rx := rx, cl_mem := m\<rparr>)\<lparr>tbl := answered_tbl rq com i (tbl cl),
    frames := (frames cl)(fp \<mapsto> \<lparr>fr_ctx = (request_ctx rq)\<lparr>rh_ret := answer rq com, rh_ready := True\<rparr>, fr_index = i\<rparr>)\<rparr>)"
    unfolding r(2) using response_completes[of "cl\<lparr>cl_rx := rx, cl_mem := m\<rparr>" fp i com rq msg] inv w plain by simp
  then show ?thesis
    using r(1) by (simp add: spurious_wakes[OF w] data_ready_callback_def subscribe_woken_def)
qed

lemma subscribe_completes:
  assumes inv: "client_inv cl" and send: "can_send tid fp rq v cl" and inc: "incoming hs pl com rest cl"
    and own: "ch_stream_id com = next_stream_id cl"
    and plain: "ch_message_type com = EVENTSTREAM_APPLICATION_MESSAGE" "rq_result_callback rq = None"
  shows "\<exists>i h t cl'. i < GG_IPC_MAX_STREAMS \<and> slot_id cl i = 0 \<and>
    stream_state_id t = (stream_state_id (tbl cl))[i := next_stream_id cl] \<and> get_current_handle t i = Some h \<and>
    wf_streams t \<and>
    ggipc_subscribe tid fp (replicate k Woken @ [Received, Woken]) rq cl =
      Some (answer rq com, if rq_handle rq then Some h else None, cl') \<and>
    tbl cl' = answered_tbl rq com i t \<and> frames cl' = frames cl \<and> arriving (cl_rx cl') = rest \<and>
    cl_sent cl' = cl_sent cl @ request_packet rq (next_stream_id cl) v"
proof -
  obtain i h cl1 where b: "i < GG_IPC_MAX_STREAMS" "subscribe_begin tid fp rq cl = Some (None, if rq_handle rq then Some h else None, cl1)"
    "client_inv cl1" "waiting cl1 fp i (next_stream_id cl) rq" "get_current_handle (tbl cl1) i = Some h" "slot_id cl i = 0"
    "stream_state_id (tbl cl1) = (stream_state_id (tbl cl))[i := next_stream_id cl]"
    "frames cl1 = (frames cl)(fp \<mapsto> \<lparr>fr_ctx = request_ctx rq, fr_index = i\<rparr>)" "cl_rx cl1 = cl_rx cl"
    "cl_sent cl1 = cl_sent cl @ request_packet rq (next_stream_id cl) v"
    using begin_waits[OF inv send] by blast
  have "incoming hs pl com rest cl1" using inc b(9) by (simp add: incoming_def)
  from wait_completes[OF b(3) _ this plain, of fp i k] b(4) own obtain cl' where w:
    "subscribe_wait fp (replicate k Woken @ [Received, Woken]) cl1 = Some (answer rq com, cl')"
    "tbl cl' = answered_tbl rq com i (tbl cl1)" "frames cl' = (frames cl1)(fp := None)" "arriving (cl_rx cl') = rest" "cl_sent cl' = cl_sent cl1"
    by auto
  have "frames cl fp = None" using send by (simp add: can_send_def)
  then have "frames cl' = frames cl" using w(3) b(8) by auto
  moreover have "ggipc_subscribe tid fp (replicate k Woken @ [Received, Woken]) rq cl =
      Some (answer rq com, if rq_handle rq then Some h else None, cl')"
    by (simp add: ggipc_subscribe_def b(2) w(1))
  moreover have "cl_sent cl' = cl_sent cl @ request_packet rq (next_stream_id cl) v" using w(5) b(10) by simp
  ultimately show ?thesis using b(1,5,6,7) w(2,4) client_invD(1)[OF b(3)] by blast
qed

text \<open>A call without a result, as \<open>ggipc_call\<close> makes it.\<close>

definition call_request :: "bytes \<Rightarrow> bytes \<Rightarrow> GgMap \<Rightarrow> GgIpcErrorCallback option \<Rightarrow> addr \<Rightarrow> request" where
  "call_request operation model params ecb ctx = \<lparr>rq_operation = operation, rq_service_model_type = model, rq_params = params,
     rq_result_callback = None, rq_error_callback = ecb, rq_response_ctx = ctx, rq_sub_callback = None,
     rq_sub_callback_ctx = NULL, rq_sub_callback_aux_ctx = NULL, rq_handle = False\<rparr>"

lemma call_completes:
  assumes "client_inv cl" "can_send tid fp (call_request operation model params ecb ctx) v cl"
    "incoming hs pl com rest cl" "ch_stream_id com = next_stream_id cl" "ch_message_type com = EVENTSTREAM_APPLICATION_MESSAGE"
  shows "\<exists>cl'. ggipc_call tid fp (replicate k Woken @ [Received, Woken]) operation model params None ecb ctx cl = Some (GG_ERR_OK, cl') \<and>
    cl_sent cl' = cl_sent cl @ request_packet (call_request operation model params ecb ctx) (next_stream_id cl) v \<and>
    stream_state_id (tbl cl') = stream_state_id (tbl cl) \<and> frames cl' = frames cl \<and> arriving (cl_rx cl') = rest"
proof -
  let ?rq = "call_request operation model params ecb ctx"
  have plain: "rq_result_callback ?rq = None" "rq_sub_callback ?rq = None" "rq_handle ?rq = False" by (simp_all add: call_request_def)
  obtain i h t cl' where c: "slot_id cl i = 0" "stream_state_id t = (stream_state_id (tbl cl))[i := next_stream_id cl]"
    "ggipc_subscribe tid fp (replicate k Woken @ [Received, Woken]) ?rq cl = Some (answer ?rq com, if rq_handle ?rq then Some h else None, cl')"
    "tbl cl' = answered_tbl ?rq com i t" "frames cl' = frames cl" "arriving (cl_rx cl') = rest"
    "cl_sent cl' = cl_sent cl @ request_packet ?rq (next_stream_id cl) v"
    using subscribe_completes[OF assms(1) assms(2-5) plain(1), of k] by blast
  have "stream_state_id (tbl cl') = stream_state_id (tbl cl)"
    using c(1,2,4) plain by (simp add: answered_tbl_def clear_stream_index_def) (metis list_update_id)
  moreover have "ggipc_call tid fp (replicate k Woken @ [Received, Woken]) operation model params None ecb ctx cl = Some (GG_ERR_OK, cl')"
    using c(3) plain by (simp add: ggipc_call_def call_request_def answer_def)
  ultimately show ?thesis using c(5-7) by blast
qed

section \<open>Connecting\<close>

lemma status_ok: "os_ret os = None # rs \<Longrightarrow> sys_status os = Some (True, os\<lparr>os_ret := rs\<rparr>)"
  by (simp add: sys_status_def)

lemma connect_opens:
  assumes "length path < SUN_PATH_LEN" "os_ret os = [None, None, None, None] @ rs"
  shows "gg_connect path os = Some (Inr (lowest_fd (os_fds os)), os\<lparr>os_ret := rs, os_fds := lowest_fd (os_fds os) # os_fds os\<rparr>)"
  using assms by (simp add: gg_connect_def sys_new_fd_def Let_def sys_status_def)

text \<open>The handshake with a server that accepts.\<close>

definition accepts :: "EventStreamCommonHeaders \<Rightarrow> bool" where
  "accepts com \<longleftrightarrow> ch_message_type com = EVENTSTREAM_CONNECT_ACK \<and> ch_message_flags com AND EVENTSTREAM_CONNECTION_ACCEPTED \<noteq> 0"

definition connect_packet :: "gg_val \<Rightarrow> bytes" where
  "connect_packet v = es_packet connect_headers (json_text v)"

lemma connect_headers_ok: "list_all hdr_ok connect_headers"
  by (simp add: connect_headers_def int_header_def str_header_def hdr_ok_def str_def)

definition can_connect :: "bytes \<Rightarrow> addr \<Rightarrow> gg_val \<Rightarrow> client \<Rightarrow> bool" where
  "can_connect path p v cl \<longleftrightarrow> \<not> connected cl \<and> 0 \<le> epoll_fd cl \<and> length path < SUN_PATH_LEN \<and>
     (\<exists>rs. os_ret (cl_os cl) = [None, None, None, None, None] @ rs) \<and>
     (\<exists>F. json_pre p v F (cl_mem cl) \<and> {ipc_send_mem cl..<ipc_send_mem cl + GG_IPC_MAX_MSG_LEN} \<inter> F = {}) \<and>
     length (connect_packet v) \<le> GG_IPC_MAX_MSG_LEN \<and>
     (\<exists>s tx. gg_socket_write (cl_tx cl) (connect_packet v) = Some (GG_ERR_OK, s, tx))"

lemma connect_completes:
  assumes can: "can_connect path p v cl" and inc: "incoming hs pl com rest cl" and acc: "accepts com"
    and extra: "\<And>it. extra it = GG_ERR_OK"
  shows "\<exists>cl'. ggipc_connect_with_payload extra path p cl = Some (GG_ERR_OK, cl') \<and>
    ipc_conn_fd cl' = int (lowest_fd (os_fds (cl_os cl))) \<and> os_fds (cl_os cl') = lowest_fd (os_fds (cl_os cl)) # os_fds (cl_os cl) \<and>
    cl_sent cl' = cl_sent cl @ connect_packet v \<and> arriving (cl_rx cl') = rest \<and>
    tbl cl' = tbl cl \<and> frames cl' = frames cl \<and> next_stream_id cl' = next_stream_id cl \<and> recv_thread_id cl' = recv_thread_id cl \<and>
    ipc_send_mem cl' = ipc_send_mem cl"
proof -
  let ?fd = "lowest_fd (os_fds (cl_os cl))"
  obtain rs F s tx where c: "\<not> connected cl" "0 \<le> epoll_fd cl" "length path < SUN_PATH_LEN"
    "os_ret (cl_os cl) = [None, None, None, None, None] @ rs" "json_pre p v F (cl_mem cl)"
    "{ipc_send_mem cl..<ipc_send_mem cl + GG_IPC_MAX_MSG_LEN} \<inter> F = {}"
    "length (connect_packet v) \<le> GG_IPC_MAX_MSG_LEN" "gg_socket_write (cl_tx cl) (connect_packet v) = Some (GG_ERR_OK, s, tx)"
    using can unfolding can_connect_def by blast
  define os where "os = (cl_os cl)\<lparr>os_ret := None # rs, os_fds := ?fd # os_fds (cl_os cl)\<rparr>"
  have conn: "gg_connect path (cl_os cl) = Some (Inr ?fd, os)"
    using connect_opens[OF c(3), of "cl_os cl" "None # rs"] c(4) by (simp add: os_def)
  obtain m where m: "ipc_send_packet connect_headers (Some (obj_read p)) (cl\<lparr>cl_os := os\<rparr>) =
      Some (GG_ERR_OK, (cl\<lparr>cl_os := os\<rparr>)\<lparr>cl_mem := m, cl_sent := cl_sent cl @ connect_packet v, cl_tx := tx\<rparr>)"
    using send_request[of p v F "cl\<lparr>cl_os := os\<rparr>" connect_headers s tx] c connect_headers_ok by (auto simp: connect_packet_def)
  have i: "arriving (cl_rx cl) = es_packet hs pl @ rest" "list_all hdr_ok hs" "length (es_packet hs pl) \<le> GG_IPC_MAX_MSG_LEN + 12"
    "common_of hs = Inr com" using inc by (simp_all add: incoming_def)
  obtain rx msg where rx: "eventsteam_get_packet gg_socket_reader (cl_rx cl) GG_IPC_MAX_MSG_LEN = Some (Inr msg, rx)"
    "arriving rx = rest" "header_loop (msg_headers msg) = Some hs"
    using sock.get_packet[OF i(2,1,3)] by (auto simp: GG_IPC_MAX_MSG_LEN_def)
  have p: "gg_json_reader p = Some (obj_read p)" using c(5) by (simp add: gg_json_reader_def json_pre_def)
  have st: "sys_status os = Some (True, os\<lparr>os_ret := rs\<rparr>)" by (simp add: os_def status_ok)
  show ?thesis
    using c conn m rx p st acc extra i(4) get_common_headers[OF rx(3)]
    by (simp add: ggipc_connect_with_payload_def connect_handshake_def register_ipc_socket_def gg_socket_epoll_add_def accepts_def)
      (simp add: os_def)
qed

text \<open>Connecting never leaks its descriptor.\<close>

lemma handshake_fds:
  assumes "connect_handshake extra fd p cl = Some (ret, cl')"
  shows "os_fds (cl_os cl') = os_fds (cl_os cl) \<and> ipc_conn_fd cl' = ipc_conn_fd cl"
  using assms
  by (auto simp: connect_handshake_def register_ipc_socket_def gg_socket_epoll_add_def Let_def
      split: sum.split_asm if_split_asm elim!: bind_SomeE send_core dest!: sys_status_fds)

end
