(* ===== verification/Base64.thy ===== *)
theory Base64
  imports Arena
begin

unbundle bit_operations_syntax

text \<open>
  Base64 (\<open>src/base64.c\<close>): decoding into a target buffer, decoding in place, and encoding into
  memory of an arena, on memory as the code runs. The reference \<open>b64\<close> is the encoding as a function
  on byte lists; the decoder accepts exactly its values, and encoder and decoder are inverse.
\<close>

section \<open>Definitions\<close>

text \<open>The output parameter is the value in \<^const>\<open>Some\<close>; returning false is \<^const>\<open>None\<close>.\<close>

definition base64_char_to_byte :: "byte \<Rightarrow> byte option" where
  "base64_char_to_byte digit =
     (if digit \<ge> chr CHR ''A'' \<and> digit \<le> chr CHR ''Z'' then Some (digit - chr CHR ''A'')
      else if digit \<ge> chr CHR ''a'' \<and> digit \<le> chr CHR ''z'' then Some (digit - chr CHR ''a'' + 26)
      else if digit \<ge> chr CHR ''0'' \<and> digit \<le> chr CHR ''9'' then Some (digit - chr CHR ''0'' + 26 + 26)
      else if digit = chr CHR ''+'' then Some 62
      else if digit = chr CHR ''/'' then Some 63
      else None)"

text \<open>The bytes \<open>value[0..len)\<close> of one segment.\<close>

definition segment_value :: "byte \<Rightarrow> byte \<Rightarrow> byte \<Rightarrow> byte \<Rightarrow> bytes option" where
  "segment_value s0 s1 s2 s3 = do {
     d0 \<leftarrow> base64_char_to_byte s0;
     d1 \<leftarrow> base64_char_to_byte s1;
     let v0 = push_bit 2 d0 OR drop_bit 4 d1;
     let v1 = push_bit 4 d1;
     if s2 = chr CHR ''='' then
       if s3 \<noteq> chr CHR ''='' then None
       else if v1 \<noteq> 0 then None
       else Some [v0]
     else do {
       d2 \<leftarrow> base64_char_to_byte s2;
       let v1 = v1 OR drop_bit 2 d2;
       let v2 = push_bit 6 d2;
       if s3 = chr CHR ''='' then
         if v2 \<noteq> 0 then None else Some [v0, v1]
       else do {
         d3 \<leftarrow> base64_char_to_byte s3;
         Some [v0, v1, v2 OR d3]
       }
     }
   }"

text \<open>The result is the return value, the target, whether there was padding, and memory.\<close>

definition base64_decode_segment ::
    "mem \<Rightarrow> addr \<Rightarrow> GgBuffer \<Rightarrow> bool \<Rightarrow> bool \<times> GgBuffer \<times> bool \<times> mem" where
  "base64_decode_segment m segment target padding =
     (case segment_value (m segment) (m (segment + 1)) (m (segment + 2)) (m (segment + 3)) of
        None \<Rightarrow> (False, target, padding, m)
      | Some val \<Rightarrow>
          if length val > buf_len target then (False, target, padding, m)
          else (True, gg_buffer_substr target (length val) SIZE_MAX, length val \<noteq> 3, wr m (buf_data target) val))"

text \<open>The loop over the segments, of which \<open>n\<close> are left.\<close>

fun base64_decode_loop :: "mem \<Rightarrow> addr \<Rightarrow> nat \<Rightarrow> GgBuffer \<Rightarrow> bool \<Rightarrow> bool \<times> GgBuffer \<times> mem" where
  "base64_decode_loop m segment 0 out last' = (True, out, m)"
| "base64_decode_loop m segment (Suc n) out last' =
     (if last' then (False, out, m)
      else case base64_decode_segment m segment out last' of (ret, out, last', m) \<Rightarrow>
        if \<not> ret then (False, out, m) else base64_decode_loop m (segment + 4) n out last')"

definition gg_base64_decode :: "mem \<Rightarrow> GgBuffer \<Rightarrow> GgBuffer \<Rightarrow> bool \<times> GgBuffer \<times> mem" where
  "gg_base64_decode m base64 target =
     (if buf_len base64 mod 4 \<noteq> 0 then (False, target, m)
      else if buf_len target < (buf_len base64 div 4) * 3 then (False, target, m)
      else case base64_decode_loop m (buf_data base64) (buf_len base64 div 4) target False of (ret, out, m) \<Rightarrow>
        if \<not> ret then (False, target, m)
        else (True, target\<lparr>buf_len := buf_data out - buf_data target\<rparr>, m))"

definition gg_base64_decode_in_place :: "mem \<Rightarrow> GgBuffer \<Rightarrow> bool \<times> GgBuffer \<times> mem" where
  "gg_base64_decode_in_place m target = gg_base64_decode m target target"

definition BASE64_TABLE :: bytes where
  "BASE64_TABLE = str ''ABCDEFGHIJKLMNOPQRSTUVWXYZabcdefghijklmnopqrstuvwxyz0123456789+/''"

definition table_at :: "32 word \<Rightarrow> byte" where
  "table_at i = BASE64_TABLE ! unat i"

definition chunk_of :: "byte \<Rightarrow> byte \<Rightarrow> byte \<Rightarrow> 32 word" where
  "chunk_of a b c = push_bit 16 (ucast a) + push_bit 8 (ucast b) + ucast c"

text \<open>The loop over whole chunks from chunk \<open>i\<close> on, of which \<open>n\<close> are left.\<close>

fun base64_chunks :: "mem \<Rightarrow> addr \<Rightarrow> addr \<Rightarrow> nat \<Rightarrow> nat \<Rightarrow> mem" where
  "base64_chunks m data out i 0 = m"
| "base64_chunks m data out i (Suc n) =
     (let chunk = chunk_of (m (data + i * 3)) (m (data + (i * 3 + 1))) (m (data + (i * 3 + 2)))
      in base64_chunks (wr m (out + i * 4) [table_at (drop_bit 18 chunk), table_at (drop_bit 12 chunk AND 0x3F),
           table_at (drop_bit 6 chunk AND 0x3F), table_at (chunk AND 0x3F)]) data out (i + 1) n)"

text \<open>The last chunk, of one or two bytes, with its padding.\<close>

definition base64_tail :: "mem \<Rightarrow> addr \<Rightarrow> addr \<Rightarrow> nat \<Rightarrow> nat \<Rightarrow> mem" where
  "base64_tail m data out chunks remaining =
     (if remaining > 0 then
        let chunk = push_bit 16 (ucast (m (data + chunks * 3)));
            chunk = (if remaining > 1 then chunk + push_bit 8 (ucast (m (data + (chunks * 3 + 1)))) else chunk)
        in wr m (out + chunks * 4) [table_at (drop_bit 18 chunk), table_at (drop_bit 12 chunk AND 0x3F),
             if remaining > 1 then table_at (drop_bit 6 chunk AND 0x3F) else chr CHR ''='', chr CHR ''='']
      else m)"

definition gg_base64_encode ::
    "mem \<Rightarrow> GgBuffer \<Rightarrow> GgArena option \<Rightarrow> (GgBuffer res \<times> GgArena option \<times> mem) run" where
  "gg_base64_encode m buf alloc = do {
     let base64_len = u64 (u64 (buf_len buf + 2) div 3 * 4);
     (out, alloc) \<leftarrow> gg_arena_alloc alloc base64_len 1;
     if out = NULL then Some (Inl GG_ERR_NOMEM, alloc, m)
     else do {
       let chunks = buf_len buf div 3;
       let m = base64_chunks m (buf_data buf) out 0 chunks;
       let m = base64_tail m (buf_data buf) out chunks (buf_len buf mod 3);
       Some (Inr \<lparr>buf_data = out, buf_len = base64_len\<rparr>, alloc, m)
     }
   }"

section \<open>The reference encoding\<close>

definition quad :: "byte \<Rightarrow> byte \<Rightarrow> byte \<Rightarrow> bytes" where
  "quad a b c = [table_at (ucast (drop_bit 2 a)), table_at (ucast ((push_bit 4 a OR drop_bit 4 b) AND 0x3F)),
     table_at (ucast ((push_bit 2 b OR drop_bit 6 c) AND 0x3F)), table_at (ucast (c AND 0x3F))]"

fun b64 :: "bytes \<Rightarrow> bytes" where
  "b64 (a # b # c # bs) = quad a b c @ b64 bs"
| "b64 [a, b] = take 3 (quad a b 0) @ [chr CHR ''='']"
| "b64 [a] = take 2 (quad a 0 0) @ [chr CHR ''='', chr CHR ''='']"
| "b64 [] = []"

section \<open>Digits\<close>

lemma chunk_or: "chunk_of a b c = push_bit 16 (ucast a) OR push_bit 8 (ucast b) OR ucast c"
proof -
  have ab: "push_bit 16 (ucast a) + push_bit 8 (ucast b) = (push_bit 16 (ucast a) OR push_bit 8 (ucast b) :: 32 word)"
    by (rule disjunctive_add_eq_or) (auto intro!: bit_word_eqI dest!: byte_bit simp: bit_and_iff bit_push_bit_iff bit_unsigned_iff)
  show ?thesis unfolding chunk_of_def ab or.assoc[symmetric]
    by (rule disjunctive_add_eq_or) (auto intro!: bit_word_eqI dest!: byte_bit simp: bit_and_iff bit_or_iff bit_push_bit_iff bit_unsigned_iff)
qed

lemma mask6: "(0x3F :: 'a::len word) = mask 6"
  by (simp add: mask_eq_exp_minus_1)

lemmas bits = bit_or_iff bit_and_iff bit_push_bit_iff bit_drop_bit_eq bit_unsigned_iff bit_mask_iff

lemma chunk_digits:
  "drop_bit 18 (chunk_of a b c) = ucast (drop_bit 2 a)"
  "drop_bit 12 (chunk_of a b c) AND 0x3F = ucast ((push_bit 4 a OR drop_bit 4 b) AND 0x3F)"
  "drop_bit 6 (chunk_of a b c) AND 0x3F = ucast ((push_bit 2 b OR drop_bit 6 c) AND 0x3F)"
  "chunk_of a b c AND 0x3F = ucast (c AND 0x3F)"
  unfolding chunk_or mask6
  by (auto intro!: bit_word_eqI simp: bits byte_high) (auto dest: byte_bit)

text \<open>Table and digit values are inverse.\<close>

definition digit_code :: "nat \<Rightarrow> nat" where
  "digit_code i = (if i < 26 then 65 + i else if i < 52 then 71 + i else if i < 62 then i - 4 else if i = 62 then 43 else 47)"

lemma table_code: "i < 64 \<Longrightarrow> BASE64_TABLE ! i = of_nat (digit_code i)"
proof -
  have "\<forall>i \<in> set [0..<64]. BASE64_TABLE ! i = of_nat (digit_code i)"
    by (simp add: BASE64_TABLE_def str_def chr_def upt_rec digit_code_def)
  then show "i < 64 \<Longrightarrow> BASE64_TABLE ! i = of_nat (digit_code i)" by simp
qed

lemma char_code:
  "base64_char_to_byte c = (let n = unat c in
     if 65 \<le> n \<and> n \<le> 90 then Some (of_nat (n - 65)) else if 97 \<le> n \<and> n \<le> 122 then Some (of_nat (n - 71))
     else if 48 \<le> n \<and> n \<le> 57 then Some (of_nat (n + 4)) else if n = 43 then Some 62 else if n = 47 then Some 63 else None)"
proof -
  have d: "c - of_nat k = of_nat (unat c - k)" if "k \<le> unat c" for k using that by (simp add: of_nat_diff)
  have e: "c = of_nat n \<longleftrightarrow> unat c = n" if "n < 256" for n using that using unat_of_nat_small[of n] by auto
  have "c - 65 = of_nat (unat c - 65)" if "65 \<le> unat c" using d[OF that] by simp
  moreover have "c - 97 + 26 = of_nat (unat c - 71)" if "97 \<le> unat c"
    using d[of 71] that by simp
  moreover have "c - 48 + 26 + 26 = of_nat (unat c + 4)" by simp
  ultimately show ?thesis using e[of 43] e[of 47]
    by (simp add: base64_char_to_byte_def chr_def word_le_nat_alt Let_def)
qed

lemma char_table: "i < 64 \<Longrightarrow> base64_char_to_byte (BASE64_TABLE ! i) = Some (of_nat i)"
proof -
  assume "i < 64"
  moreover from this have "unat (of_nat (digit_code i) :: byte) = digit_code i"
    by (intro unat_of_nat_small) (auto simp: digit_code_def)
  moreover have "i < 26 \<or> 26 \<le> i \<and> i < 52 \<or> 52 \<le> i \<and> i < 62 \<or> i = 62 \<or> i = 63" using calculation(1) by auto
  ultimately show ?thesis unfolding char_code by (auto simp: table_code Let_def digit_code_def)
qed

lemma table_char: "base64_char_to_byte c = Some d \<Longrightarrow> unat d < 64 \<and> BASE64_TABLE ! unat d = c"
proof -
  assume d: "base64_char_to_byte c = Some d"
  define n where "n = unat c"
  have "\<exists>i < 64. d = of_nat i \<and> digit_code i = n"
  proof -
    consider "65 \<le> n \<and> n \<le> 90" "d = of_nat (n - 65)" | "97 \<le> n \<and> n \<le> 122" "d = of_nat (n - 71)" |
      "48 \<le> n \<and> n \<le> 57" "d = of_nat (n + 4)" | "n = 43" "d = 62" | "n = 47" "d = 63"
      using d unfolding char_code Let_def n_def[symmetric] by (auto split: if_splits)
    then show ?thesis
    proof cases
      case 1 then show ?thesis by (intro exI[of _ "n - 65"]) (auto simp: digit_code_def)
    next
      case 2 then show ?thesis by (intro exI[of _ "n - 71"]) (auto simp: digit_code_def)
    next
      case 3 then show ?thesis by (intro exI[of _ "n + 4"]) (auto simp: digit_code_def)
    next
      case 4 then show ?thesis by (intro exI[of _ 62]) (auto simp: digit_code_def)
    next
      case 5 then show ?thesis by (intro exI[of _ 63]) (auto simp: digit_code_def)
    qed
  qed
  then show ?thesis by (auto simp: table_code n_def)
qed

lemma unat_ucast32 [simp]: "unat (ucast (d :: byte) :: 32 word) = unat d"
  using byte_bound[of d] by (simp add: unsigned_ucast_eq take_bit_nat_eq_self)

lemma table_at_char: "unat w < 64 \<Longrightarrow> base64_char_to_byte (table_at w) = Some (ucast w)"
  by (simp add: table_at_def char_table)

lemma char_iff: "base64_char_to_byte c = Some d \<longleftrightarrow> unat d < 64 \<and> c = table_at (ucast d)"
  using table_char[of c d] char_table[of "unat d"] by (auto simp: table_at_def)

lemma char_pad [simp]: "base64_char_to_byte (chr CHR ''='') = None"
  by (simp add: char_code chr_def Let_def)

section \<open>Segments\<close>

lemma small_bit: "unat (d :: byte) < 64 \<Longrightarrow> bit d n \<Longrightarrow> n < 6"
proof (rule ccontr)
  assume d: "unat d < 64" "bit d n" "\<not> n < 6"
  have "unat (take_bit 6 d) = unat d" using d(1) by (simp add: unsigned_take_bit_eq take_bit_nat_eq_self)
  then have "take_bit 6 d = d" by (simp only: word_unat_eq_iff)
  with d show False by (metis bit_take_bit_iff)
qed

lemma mask_small: "unat ((d :: byte) AND 0x3F) < 64"
proof -
  have "unat (take_bit 6 d) < 2 ^ 6" unfolding unsigned_take_bit_eq by (rule take_bit_nat_less_exp)
  then show ?thesis by (simp add: mask6 flip: take_bit_eq_mask)
qed

lemma quad_digits:
  "quad a b c = map (\<lambda>d. table_at (ucast d)) [drop_bit 2 a, (push_bit 4 a OR drop_bit 4 b) AND 0x3F,
     (push_bit 2 b OR drop_bit 6 c) AND 0x3F, c AND 0x3F]"
  by (simp add: quad_def)

lemma drop2_small: "unat (drop_bit 2 (a :: byte)) < 64"
  using byte_bound[of a] by (simp add: drop_bit_eq_div unat_div_distrib)

lemma byte_eqI:
  assumes "bit a 0 = bit b 0" "bit a 1 = bit b 1" "bit a 2 = bit b 2" "bit a 3 = bit b 3"
    "bit a 4 = bit b 4" "bit a 5 = bit b 5" "bit a 6 = bit b 6" "bit a 7 = bit b 7"
  shows "(a :: byte) = b"
proof (rule bit_word_eqI)
  fix n assume "n < LENGTH(8)"
  then have "n \<in> {0, 1, 2, 3, 4, 5, 6, 7}" by auto
  then show "bit a n = bit b n" using assms by fastforce
qed

lemma join_digits:
  assumes "unat d0 < 64" "unat d1 < 64" "unat d2 < 64" "unat d3 < 64"
  defines "a \<equiv> push_bit 2 d0 OR drop_bit 4 d1 :: byte" and "b \<equiv> push_bit 4 d1 OR drop_bit 2 d2" and "c \<equiv> push_bit 6 d2 OR d3"
  shows "quad a b c = map (\<lambda>d. table_at (ucast d)) [d0, d1, d2, d3]"
proof -
  have s: "\<not> bit d n" if "unat d < 64" "6 \<le> n" for d :: byte and n using small_bit[OF that(1), of n] that(2) by auto
  note s' = s[OF assms(1)] s[OF assms(2)] s[OF assms(3)] s[OF assms(4)]
  have "drop_bit 2 a = d0" "(push_bit 4 a OR drop_bit 4 b) AND 0x3F = d1" "(push_bit 2 b OR drop_bit 6 c) AND 0x3F = d2"
    "c AND 0x3F = d3"
    unfolding a_def b_def c_def mask6
    by (rule byte_eqI; simp add: bits byte_high s')+
  then show ?thesis by (simp add: quad_digits)
qed

lemma split_digits:
  "push_bit 2 (drop_bit 2 a) OR drop_bit 4 ((push_bit 4 a OR drop_bit 4 b) AND 0x3F) = (a :: byte)"
  "push_bit 4 ((push_bit 4 a OR drop_bit 4 b) AND 0x3F) OR drop_bit 2 ((push_bit 2 b OR drop_bit 6 c) AND 0x3F) = (b :: byte)"
  "push_bit 6 ((push_bit 2 b OR drop_bit 6 c) AND 0x3F) OR (c AND 0x3F) = (c :: byte)"
  unfolding mask6 by (rule byte_eqI; simp add: bits byte_high)+

lemma table_at_digit [simp]: "unat (d :: byte) < 64 \<Longrightarrow> base64_char_to_byte (table_at (ucast d)) = Some d"
  using char_iff by blast

lemma table_no_pad [simp]: "unat (d :: byte) < 64 \<Longrightarrow> table_at (ucast d) \<noteq> chr CHR ''=''"
proof
  assume "unat d < 64" "table_at (ucast d) = chr CHR ''=''"
  then have "base64_char_to_byte (chr CHR ''='') = Some d" using table_at_digit[of d] by (simp del: char_pad)
  then show False by simp
qed

text \<open>A segment decodes to \<open>v\<close> exactly when it is the encoding of the one to three bytes of \<open>v\<close>.\<close>

lemma segment_sound:
  assumes "segment_value s0 s1 s2 s3 = Some v"
  shows "1 \<le> length v \<and> length v \<le> 3 \<and> b64 v = [s0, s1, s2, s3]"
proof -
  obtain d0 d1 where d: "base64_char_to_byte s0 = Some d0" "base64_char_to_byte s1 = Some d1"
    using assms by (auto simp: segment_value_def bind_Some_iff)
  show ?thesis
  proof (cases "s2 = chr CHR ''=''")
    case True
    with assms d have v: "s3 = chr CHR ''=''" "push_bit 4 d1 = 0" "v = [push_bit 2 d0 OR drop_bit 4 d1]"
      by (auto simp: segment_value_def Let_def split: if_splits)
    from d join_digits[of d0 d1 0 0] v(2) show ?thesis by (simp add: v(1,3) True char_iff)
  next
    case 2: False
    with assms d obtain d2 where d2: "base64_char_to_byte s2 = Some d2" by (auto simp: segment_value_def bind_Some_iff Let_def)
    show ?thesis
    proof (cases "s3 = chr CHR ''=''")
      case True
      with assms d d2 2 have v: "push_bit 6 d2 = 0" "v = [push_bit 2 d0 OR drop_bit 4 d1, push_bit 4 d1 OR drop_bit 2 d2]"
        by (auto simp: segment_value_def Let_def split: if_splits)
      from d d2 join_digits[of d0 d1 d2 0] v(1) show ?thesis by (simp add: v(2) True char_iff)
    next
      case False
      with assms d d2 2 obtain d3 where "base64_char_to_byte s3 = Some d3"
        "v = [push_bit 2 d0 OR drop_bit 4 d1, push_bit 4 d1 OR drop_bit 2 d2, push_bit 6 d2 OR d3]"
        by (auto simp: segment_value_def Let_def bind_Some_iff)
      with d d2 join_digits[of d0 d1 d2 d3] show ?thesis by (simp add: char_iff)
    qed
  qed
qed

lemma segment_complete:
  assumes "1 \<le> length v" "length v \<le> 3" "b64 v = [s0, s1, s2, s3]"
  shows "segment_value s0 s1 s2 s3 = Some v"
proof -
  note small = mask_small drop2_small
  consider a where "v = [a]" | a b where "v = [a, b]" | a b c where "v = [a, b, c]"
    using assms(1,2) by (cases v; cases "tl v"; cases "tl (tl v)") auto
  then show ?thesis
  proof cases
    case 1
    with assms(3) split_digits(1)[of a 0] split_digits(2)[of a 0 0] show ?thesis
      by (auto simp: segment_value_def quad_digits small Let_def mask_small drop2_small)
  next
    case 2
    with assms(3) split_digits(1)[of a b] split_digits(2)[of a b 0] split_digits(3)[of b 0] show ?thesis
      by (auto simp: segment_value_def quad_digits small Let_def)
  next
    case 3
    with assms(3) split_digits(1)[of a b] split_digits(2)[of a b c] split_digits(3)[of b c] show ?thesis
      by (auto simp: segment_value_def quad_digits small Let_def)
  qed
qed

section \<open>Decoding\<close>

lemma length_quad [simp]: "length (quad a b c) = 4"
  by (simp add: quad_def)

lemma b64_append: "length xs mod 3 = 0 \<Longrightarrow> b64 (xs @ ys) = b64 xs @ b64 ys"
  by (induction xs rule: b64.induct) auto

lemma length_b64: "length (b64 bs) = (length bs + 2) div 3 * 4"
proof (induction bs rule: b64.induct)
  case (1 a b c bs)
  have "(length bs + 5) div 3 = Suc ((length bs + 2) div 3)" by presburger
  with 1 show ?case by (simp add: add.commute)
qed auto

lemma b64_split: "bs \<noteq> [] \<Longrightarrow> b64 bs = b64 (take 3 bs) @ b64 (drop 3 bs) \<and> length (b64 (take 3 bs)) = 4"
  by (cases bs rule: b64.cases) (auto simp: numeral_eq_Suc)

lemma b64_cons_seg:
  assumes "b64 bs = s0 # s1 # s2 # s3 # rest"
  shows "segment_value s0 s1 s2 s3 = Some (take 3 bs) \<and> b64 (drop 3 bs) = rest"
proof -
  have ne: "bs \<noteq> []" using assms by auto
  then have len: "1 \<le> length (take 3 bs)" "length (take 3 bs) \<le> 3" by (cases bs; simp)+
  have "b64 (take 3 bs) = [s0, s1, s2, s3]" "b64 (drop 3 bs) = rest"
    using b64_split[OF ne] assms by (auto simp: append_eq_Cons_conv length_Suc_conv numeral_eq_Suc)
  with segment_complete[OF len] show ?thesis by blast
qed

lemma rd4: "rd m p (4 + n) = m p # m (p + 1) # m (p + 2) # m (p + 3) # rd m (p + 4) n"
  by (simp add: numeral_eq_Suc rd_Suc)

lemma decode_loop_spec:
  assumes "3 * n \<le> buf_len out" "buf_len out \<le> SIZE_MAX" "buf_data out \<le> seg \<or> seg + 4 * n \<le> buf_data out"
  shows "\<exists>ret out' m'. base64_decode_loop m seg n out False = (ret, out', m') \<and>
    agree_off {buf_data out..<buf_data out + 3 * n} m m' \<and>
    (if ret then \<exists>bs. b64 bs = rd m seg (4 * n) \<and> length bs \<le> 3 * n \<and> m' = wr m (buf_data out) bs \<and>
        buf_data out' = buf_data out + length bs
     else \<nexists>bs. b64 bs = rd m seg (4 * n))"
  using assms
proof (induction n arbitrary: m seg out)
  case 0
  show ?case by (auto intro: exI[of _ "[]"])
next
  case (Suc n)
  let ?v = "segment_value (m seg) (m (seg + 1)) (m (seg + 2)) (m (seg + 3))"
  have rd: "rd m seg (4 * Suc n) = m seg # m (seg + 1) # m (seg + 2) # m (seg + 3) # rd m (seg + 4) (4 * n)"
    using rd4[of m seg "4 * n"] by simp
  show ?case
  proof (cases ?v)
    case None
    then have "\<nexists>bs. b64 bs = rd m seg (4 * Suc n)" unfolding rd using b64_cons_seg by fastforce
    with None show ?thesis by (intro exI[of _ False]) (simp add: base64_decode_segment_def)
  next
    case (Some v)
    note v = segment_sound[OF Some]
    let ?m = "wr m (buf_data out) v" and ?out = "gg_buffer_substr out (length v) SIZE_MAX"
    have len: "length v \<le> buf_len out" using v Suc.prems(1) by simp
    have run: "base64_decode_segment m seg out False = (True, ?out, length v \<noteq> 3, ?m)"
      using Some len by (simp add: base64_decode_segment_def)
    have off: "agree_off {buf_data out..<buf_data out + 3 * Suc n} m ?m" using v by (intro agree_off_wr) auto
    have out: "buf_data ?out = buf_data out + length v" "buf_len ?out = buf_len out - length v"
      using len Suc.prems(2) by simp_all
    show ?thesis
    proof (cases "length v = 3")
      case True
      have same: "rd ?m (seg + 4) (4 * n) = rd m (seg + 4) (4 * n)"
        using Suc.prems(3) True by (intro rd_wr_disjoint) auto
      have "3 * n \<le> buf_len ?out" "buf_len ?out \<le> SIZE_MAX" "buf_data ?out \<le> seg + 4 \<or> seg + 4 + 4 * n \<le> buf_data ?out"
        using Suc.prems True out by auto
      from Suc.IH[OF this, of ?m] obtain ret out' m' where IH:
        "base64_decode_loop ?m (seg + 4) n ?out False = (ret, out', m')"
        "agree_off {buf_data ?out..<buf_data ?out + 3 * n} ?m m'"
        "if ret then \<exists>bs. b64 bs = rd m (seg + 4) (4 * n) \<and> length bs \<le> 3 * n \<and> m' = wr ?m (buf_data ?out) bs \<and>
          buf_data out' = buf_data ?out + length bs else \<nexists>bs. b64 bs = rd m (seg + 4) (4 * n)"
        unfolding same by blast
      have off': "agree_off {buf_data out..<buf_data out + 3 * Suc n} m m'"
        using agree_off_trans[OF off agree_off_mono[OF IH(2)]] True out by auto
      have run': "base64_decode_loop m seg (Suc n) out False = (ret, out', m')" using run True IH(1) by simp
      show ?thesis
      proof (cases ret)
        case r: True
        then obtain bs where "b64 bs = rd m (seg + 4) (4 * n)" "length bs \<le> 3 * n" "m' = wr ?m (buf_data ?out) bs"
          "buf_data out' = buf_data ?out + length bs" using IH(3) by auto
        then have "b64 (v @ bs) = rd m seg (4 * Suc n)" "length (v @ bs) \<le> 3 * Suc n" "m' = wr m (buf_data out) (v @ bs)"
          "buf_data out' = buf_data out + length (v @ bs)"
          using True v out rd wr_wr_append[of m "buf_data out" v bs] by (simp_all add: b64_append)
        then have "\<exists>bs. b64 bs = rd m seg (4 * Suc n) \<and> length bs \<le> 3 * Suc n \<and> m' = wr m (buf_data out) bs \<and>
          buf_data out' = buf_data out + length bs" by blast
        then show ?thesis by (intro exI[of _ ret] exI[of _ out'] exI[of _ m'] conjI run' off') (simp only: r if_True)
      next
        case False
        then have "\<nexists>bs. b64 bs = rd m seg (4 * Suc n)" using IH(3) unfolding rd using b64_cons_seg by fastforce
        then show ?thesis by (intro exI[of _ ret] exI[of _ out'] exI[of _ m'] conjI run' off') (simp only: False if_False simp_thms)
      qed
    next
      case False
      show ?thesis
      proof (cases n)
        case 0
        have "b64 v = rd m seg (4 * Suc n)" unfolding rd using v 0 by simp
        then show ?thesis using run False off out(1) v 0 by auto
      next
        case (Suc k)
        have "\<nexists>bs. b64 bs = rd m seg (4 * Suc n)"
        proof
          assume "\<exists>bs. b64 bs = rd m seg (4 * Suc n)"
          then obtain bs where bs: "v = take 3 bs" "b64 (drop 3 bs) = rd m (seg + 4) (4 * n)"
            unfolding rd using b64_cons_seg Some by fastforce
          with False v have "length bs < 3" by auto
          then have "rd m (seg + 4) (4 * n) = []" using bs(2) by simp
          then show False using Suc by (metis length_rd list.size(3) mult_eq_0_iff nat.distinct(1) zero_neq_numeral)
        qed
        then show ?thesis using run False off Suc by (intro exI[of _ False]) simp
      qed
    qed
  qed
qed

lemma decode_spec:
  assumes "buf_len base64 mod 4 = 0" "buf_len base64 div 4 * 3 \<le> buf_len target" "buf_len target \<le> SIZE_MAX"
    "buf_data target \<le> buf_data base64 \<or> buf_data base64 + buf_len base64 \<le> buf_data target"
  shows "\<exists>ret target' m'. gg_base64_decode m base64 target = (ret, target', m') \<and>
    agree_off {buf_data target..<buf_data target + buf_len target} m m' \<and> buf_data target' = buf_data target \<and>
    (ret \<longleftrightarrow> (\<exists>bs. b64 bs = contents m base64)) \<and>
    (ret \<longrightarrow> b64 (contents m' target') = contents m base64 \<and> buf_len target' \<le> buf_len target)"
proof -
  let ?n = "buf_len base64 div 4"
  have n: "4 * ?n = buf_len base64" "3 * ?n \<le> buf_len target" using assms(1,2) by auto
  have "buf_data target \<le> buf_data base64 \<or> buf_data base64 + 4 * ?n \<le> buf_data target" using assms(4) n(1) by simp
  from decode_loop_spec[OF n(2) assms(3) this, of m, unfolded n(1)] obtain ret out' m' where
    *: "base64_decode_loop m (buf_data base64) ?n target False = (ret, out', m')"
      "agree_off {buf_data target..<buf_data target + 3 * ?n} m m'"
      "if ret then \<exists>bs. b64 bs = contents m base64 \<and> length bs \<le> 3 * ?n \<and> m' = wr m (buf_data target) bs \<and>
        buf_data out' = buf_data target + length bs else \<nexists>bs. b64 bs = contents m base64"
    unfolding contents_def by blast
  have off: "agree_off {buf_data target..<buf_data target + buf_len target} m m'"
    using agree_off_mono[OF *(2)] n(2) by auto
  show ?thesis
  proof (cases ret)
    case True
    with *(3) obtain bs where bs: "b64 bs = contents m base64" "length bs \<le> 3 * ?n" "m' = wr m (buf_data target) bs"
      "buf_data out' = buf_data target + length bs" by auto
    have "gg_base64_decode m base64 target = (True, target\<lparr>buf_len := length bs\<rparr>, m')"
      using assms(1,2) *(1) True bs(4) by (simp add: gg_base64_decode_def)
    moreover have "contents m' (target\<lparr>buf_len := length bs\<rparr>) = bs" by (simp add: contents_def bs(3))
    ultimately show ?thesis using off bs(1,2) n(2) by auto
  next
    case False
    with *(1,3) assms(1,2) off show ?thesis by (auto simp: gg_base64_decode_def)
  qed
qed

lemma b64_inject: "b64 as = b64 bs \<Longrightarrow> as = bs"
proof (induction bs arbitrary: as rule: length_induct)
  case (1 bs)
  show ?case
  proof (cases "bs = []")
    case True
    with 1(2) show ?thesis by (cases as rule: b64.cases) (auto simp: quad_def)
  next
    case False
    from b64_split[OF False] obtain s0 s1 s2 s3 where "b64 (take 3 bs) = [s0, s1, s2, s3]"
      by (auto simp: length_Suc_conv numeral_eq_Suc)
    then have b: "b64 bs = s0 # s1 # s2 # s3 # b64 (drop 3 bs)" using b64_split[OF False] by simp
    from b64_cons_seg[OF b] b64_cons_seg[of as, OF trans[OF 1(2) b]]
    have "take 3 as = take 3 bs" "b64 (drop 3 as) = b64 (drop 3 bs)" by auto
    moreover have "length (drop 3 bs) < length bs" using False by (cases bs) auto
    with calculation(2) 1(1) have "drop 3 as = drop 3 bs" by blast
    ultimately show ?thesis by (metis append_take_drop_id)
  qed
qed

section \<open>Encoding\<close>

lemma chunks_spec:
  assumes "{data..<data + 3 * (i + n)} \<inter> {out..<out + 4 * (i + n)} = {}"
  shows "rd (base64_chunks m data out i n) (out + i * 4) (4 * n) = b64 (rd m (data + i * 3) (3 * n)) \<and>
    agree_off {out + i * 4..<out + (i + n) * 4} m (base64_chunks m data out i n)"
  using assms
proof (induction n arbitrary: i m)
  case (Suc n)
  let ?p = "data + i * 3"
  let ?q = "quad (m ?p) (m (?p + 1)) (m (?p + 2))"
  let ?m = "wr m (out + i * 4) ?q"
  let ?r = "base64_chunks ?m data out (i + 1) n"
  have run: "base64_chunks m data out i (Suc n) = ?r"
    by (simp add: Let_def chunk_digits quad_def[symmetric] add.assoc)
  have "{data..<data + 3 * (i + 1 + n)} \<inter> {out..<out + 4 * (i + 1 + n)} = {}" using Suc.prems by simp
  note IH = Suc.IH[OF this, of ?m]
  have src: "rd ?m (data + (i + 1) * 3) (3 * n) = rd m (data + (i + 1) * 3) (3 * n)"
    using Suc.prems by (intro rd_wr_off) (auto simp: disjoint_iff)
  have first: "rd ?r (out + i * 4) 4 = ?q"
    using rd_off[OF conjunct2[OF IH], of "out + i * 4" 4] by (simp add: rd_wr_same')
  have nxt: "out + i * 4 + 4 = out + (i + 1) * 4" by simp
  have r3: "rd m ?p (3 * Suc n) = m ?p # m (?p + 1) # m (?p + 2) # rd m (data + (i + 1) * 3) (3 * n)"
    by (simp add: numeral_eq_Suc rd_Suc)
  have "rd ?r (out + i * 4) (4 + 4 * n) = ?q @ b64 (rd m (data + (i + 1) * 3) (3 * n))"
    unfolding rd_add by (simp only: first nxt conjunct1[OF IH] src)
  then have "rd ?r (out + i * 4) (4 * Suc n) = b64 (rd m ?p (3 * Suc n))" unfolding r3 by simp
  moreover have "agree_off {out + i * 4..<out + (i + Suc n) * 4} m ?r"
    by (rule agree_off_trans[OF agree_off_wr agree_off_mono[OF conjunct2[OF IH]]]) auto
  ultimately show ?case unfolding run by blast
qed simp

lemma tail_spec:
  assumes "r < 3" "{data..<data + (3 * n + r)} \<inter> {out + n * 4..<out + n * 4 + (r + 2) div 3 * 4} = {}"
  shows "rd (base64_tail m data out n r) (out + n * 4) ((r + 2) div 3 * 4) = b64 (rd m (data + n * 3) r) \<and>
    agree_off {out + n * 4..<out + n * 4 + (r + 2) div 3 * 4} m (base64_tail m data out n r)"
proof -
  consider "r = 0" | "r = 1" | "r = 2" using assms(1) by linarith
  then show ?thesis
  proof cases
    case 1
    then show ?thesis by (simp add: base64_tail_def)
  next
    case 2
    have "chunk_of a 0 0 = push_bit 16 (ucast a)" for a by (simp add: chunk_of_def)
    with 2 chunk_digits[of "m (data + n * 3)" 0 0] show ?thesis
      by (auto simp: base64_tail_def Let_def rd_wr_same' quad_def rd_Suc intro!: agree_off_wr)
  next
    case 3
    have "chunk_of a b 0 = push_bit 16 (ucast a) + push_bit 8 (ucast b)" for a b by (simp add: chunk_of_def)
    with 3 chunk_digits[of "m (data + n * 3)" "m (data + (n * 3 + 1))" 0] show ?thesis
      by (auto simp: base64_tail_def Let_def rd_wr_same' quad_def rd_Suc numeral_2_eq_2 intro!: agree_off_wr)
  qed
qed

lemma div3_split: "(L + 2) div 3 = L div 3 + (L mod 3 + 2) div (3 :: nat)"
proof -
  have "L + 2 = (L mod 3 + 2) + 3 * (L div 3)" by simp
  then show ?thesis by (metis add.commute div_mult_self2 zero_neq_numeral)
qed

lemma encode_spec:
  assumes ok: "arena_ok a" and len: "buf_len buf \<le> PTRDIFF_MAX div 2"
    and disj: "{buf_data buf..<buf_data buf + buf_len buf} \<inter> arena_free a = {}"
  defines "n \<equiv> (buf_len buf + 2) div 3 * 4"
  shows "if n \<le> arena_avail a
    then \<exists>a' m'. gg_base64_encode m buf (Some a) = Some (Inr \<lparr>buf_data = arena_mem a + arena_index a, buf_len = n\<rparr>, Some a', m') \<and>
      a' = a\<lparr>arena_index := arena_index a + n\<rparr> \<and> rd m' (arena_mem a + arena_index a) n = b64 (contents m buf) \<and>
      agree_off (arena_free a) m m'
    else gg_base64_encode m buf (Some a) = Some (Inl GG_ERR_NOMEM, Some a, m)"
proof -
  let ?L = "buf_len buf" and ?out = "arena_mem a + arena_index a" and ?k = "buf_len buf div 3" and ?r = "buf_len buf mod 3"
  have small: "u64 (u64 (?L + 2) div 3 * 4) = n" "n \<le> PTRDIFF_MAX" using len by (auto simp: n_def int_limits)
  have run: "gg_base64_encode m buf (Some a) =
      (if n \<le> arena_avail a
       then Some (Inr \<lparr>buf_data = ?out, buf_len = n\<rparr>, Some (a\<lparr>arena_index := arena_index a + n\<rparr>),
         base64_tail (base64_chunks m (buf_data buf) ?out 0 ?k) (buf_data buf) ?out ?k ?r)
       else Some (Inl GG_ERR_NOMEM, Some a, m))"
    unfolding gg_base64_encode_def Let_def small(1) alloc_bytes[OF ok small(2)] using ok by (simp add: arena_ok_def)
  show ?thesis
  proof (cases "n \<le> arena_avail a")
    case True
    let ?m1 = "base64_chunks m (buf_data buf) ?out 0 ?k"
    let ?m2 = "base64_tail ?m1 (buf_data buf) ?out ?k ?r"
    have n: "n = 4 * ?k + (?r + 2) div 3 * 4" "?L = 3 * ?k + ?r" unfolding n_def using div3_split[of ?L] by simp_all
    have out: "{?out..<?out + n} \<subseteq> arena_free a" using True ok by (auto simp: arena_free_def arena_avail_def arena_ok_def)
    have d: "{buf_data buf..<buf_data buf + ?L} \<inter> {?out..<?out + n} = {}" using disj out by blast
    have "{buf_data buf..<buf_data buf + 3 * (0 + ?k)} \<inter> {?out..<?out + 4 * (0 + ?k)} = {}" using d n(1) by auto
    note c = chunks_spec[OF this, of m]
    let ?t = "(?r + 2) div 3 * 4"
    have "{buf_data buf..<buf_data buf + (3 * ?k + ?r)} \<inter> {?out + ?k * 4..<?out + ?k * 4 + ?t} = {}" using d n(1) by auto
    note t = tail_spec[OF _ this, of ?m1]
    have src: "rd ?m1 (buf_data buf + ?k * 3) ?r = rd m (buf_data buf + ?k * 3) ?r"
      using rd_off[OF conjunct2[OF c], of "buf_data buf + ?k * 3" ?r] d n by auto
    have 1: "rd ?m2 ?out (4 * ?k) = b64 (rd m (buf_data buf) (3 * ?k))"
      using rd_off[OF conjunct2[OF t], of ?out "4 * ?k"] conjunct1[OF c] by simp
    have "rd ?m2 ?out n = b64 (rd m (buf_data buf) (3 * ?k)) @ b64 (rd m (buf_data buf + ?k * 3) ?r)"
      unfolding n(1) rd_add using 1 t src by (simp add: mult.commute)
    also have "\<dots> = b64 (contents m buf)"
      using rd_add[of m "buf_data buf" "3 * ?k" ?r, folded n(2)] by (simp add: contents_def b64_append mult.commute)
    finally have res: "rd ?m2 ?out n = b64 (contents m buf)" .
    have "agree_off {?out..<?out + n} m ?m2"
      by (rule agree_off_trans[OF agree_off_mono[OF conjunct2[OF c]] agree_off_mono[OF conjunct2[OF t]]]) (use n(1) in auto)
    then have "agree_off (arena_free a) m ?m2" using out by (rule agree_off_mono)
    with res True show ?thesis unfolding run by auto
  qed (simp add: run)
qed

section \<open>Properties\<close>



text \<open>C21: Encoding into an arena and decoding the result in place gives back the bytes. Encoding allocates
  exactly the length of the text, fails with NOMEM and no effect when the arena has no room for it, and
  writes to the arena's free space only.\<close>

theorem gg_base64_roundtrip:
  assumes "arena_ok a" "buf_len buf \<le> PTRDIFF_MAX div 2"
    "{buf_data buf..<buf_data buf + buf_len buf} \<inter> arena_free a = {}"
  shows "if (buf_len buf + 2) div 3 * 4 \<le> arena_avail a
    then \<exists>text a' m' text' m''. gg_base64_encode m buf (Some a) = Some (Inr text, Some a', m') \<and>
      arena_ok a' \<and> arena_avail a' = arena_avail a - buf_len text \<and> agree_off (arena_free a) m m' \<and>
      contents m' text = b64 (contents m buf) \<and>
      gg_base64_decode_in_place m' text = (True, text', m'') \<and> contents m'' text' = contents m buf
    else gg_base64_encode m buf (Some a) = Some (Inl GG_ERR_NOMEM, Some a, m)"
proof -
  define n where "n = (buf_len buf + 2) div 3 * 4"
  let ?t = "\<lparr>buf_data = arena_mem a + arena_index a, buf_len = n\<rparr>"
  show ?thesis
  proof (cases "n \<le> arena_avail a")
    case True
    with encode_spec[OF assms, of m] obtain m' where
      e: "gg_base64_encode m buf (Some a) = Some (Inr ?t, Some (a\<lparr>arena_index := arena_index a + n\<rparr>), m')"
        "rd m' (arena_mem a + arena_index a) n = b64 (contents m buf)" "agree_off (arena_free a) m m'"
      unfolding n_def[symmetric] by auto
    have c: "contents m' ?t = b64 (contents m buf)" using e(2) by (simp add: contents_def)
    have "n mod 4 = 0" "n div 4 * 3 \<le> n" "n \<le> SIZE_MAX" using assms(2) by (auto simp: n_def int_limits)
    moreover have "\<exists>bs. b64 bs = contents m' ?t" using c by metis
    ultimately obtain t' m'' where d: "gg_base64_decode m' ?t ?t = (True, t', m'')" "b64 (contents m'' t') = contents m' ?t"
      using decode_spec[of ?t ?t m'] by auto
    from d(2) c have "contents m'' t' = contents m buf" using b64_inject by simp
    with d e c True assms(1) show ?thesis
      unfolding n_def[symmetric] gg_base64_decode_in_place_def
      by (simp add: arena_avail_def)
  next
    case False
    with encode_spec[OF assms, of m] show ?thesis unfolding n_def[symmetric] by simp
  qed
qed

theorem gg_base64_roundtrip_witness:
  "\<exists>text a' m' text' m''. gg_base64_encode (wr (\<lambda>_. 0) 16 [1, 2]) \<lparr>buf_data = 16, buf_len = 2\<rparr>
      (Some \<lparr>arena_mem = 64, arena_capacity = 32, arena_index = 0\<rparr>) = Some (Inr text, Some a', m') \<and>
    gg_base64_decode_in_place m' text = (True, text', m'') \<and> contents m'' text' = [1, 2]"
  using gg_base64_roundtrip[of "\<lparr>arena_mem = 64, arena_capacity = 32, arena_index = 0\<rparr>" "\<lparr>buf_data = 16, buf_len = 2\<rparr>"
      "wr (\<lambda>_. 0) 16 [1, 2]"]
  by (auto simp: arena_ok_def arena_free_def arena_avail_def int_limits contents_def rd_wr_same')

end
