(* ===== verification/Claim.thy ===== *)
theory Claim
  imports Object_Ops
begin

text \<open>
  Copying an object into an arena (\<open>gg_arena_claim_obj\<close>, \<open>src/arena.c\<close>): the arena space
  used is exactly what \<open>gg_obj_mem_usage\<close> measures, and the copy stands for the same value
  and refers to arena memory only.
\<close>

section \<open>Advancing an arena\<close>

definition adv :: "GgArena \<Rightarrow> nat \<Rightarrow> GgArena" where
  "adv a n = a\<lparr>arena_index := arena_index a + n\<rparr>"

abbreviation bump :: "GgArena \<Rightarrow> addr" where "bump a \<equiv> arena_mem a + arena_index a"

abbreviation taken :: "GgArena \<Rightarrow> nat \<Rightarrow> addr set" where "taken a n \<equiv> {bump a..<bump a + n}"

lemma adv_simps [simp]:
  "adv (adv a k) n = adv a (k + n)" "adv a 0 = a" "bump (adv a n) = bump a + n"
  "arena_region (adv a n) = arena_region a" "arena_mem (adv a n) = arena_mem a"
  "arena_capacity (adv a n) = arena_capacity a" "arena_index (adv a n) = arena_index a + n"
  "arena_avail (adv a n) = arena_avail a - n"
  "arena_free (adv a n) = {bump a + n..<arena_mem a + arena_capacity a}"
  by (simp_all add: adv_def add.assoc arena_region_def arena_avail_def arena_free_def)

lemma adv_ok [simp]: "arena_ok a \<Longrightarrow> n \<le> arena_avail a \<Longrightarrow> arena_ok (adv a n)"
  by (simp add: adv_def)

lemma taken_sub:
  "n \<le> arena_avail a \<Longrightarrow> arena_ok a \<Longrightarrow> taken a n \<subseteq> arena_free a"
  "arena_free a \<subseteq> arena_region a"
  by (auto simp: arena_free_def arena_region_def arena_avail_def arena_ok_def)

lemma alloc_adv:
  "arena_ok a \<Longrightarrow> n \<le> arena_avail a \<Longrightarrow> gg_arena_alloc (Some a) n (Suc 0) = Some (bump a, Some (adv a n))"
  "arena_ok a \<Longrightarrow> bump a \<noteq> 0" "arena_ok a \<Longrightarrow> bump a < 2 ^ 64"
proof -
  assume "arena_ok a" "n \<le> arena_avail a"
  moreover from this have "n \<le> PTRDIFF_MAX" by (auto simp: arena_ok_def arena_avail_def int_limits)
  ultimately show "gg_arena_alloc (Some a) n (Suc 0) = Some (bump a, Some (adv a n))"
    by (simp add: alloc_bytes_Suc adv_def)
qed (auto simp: arena_ok_def)

lemma claim_buf_adv:
  assumes "arena_ok a" "{buf_data u..<buf_data u + buf_len u} \<inter> arena_region a = {}"
    "buf_len u \<le> arena_avail a" "buf_data u < 2 ^ 64" "buf_len u < 65536"
  shows "\<exists>u'. gg_arena_claim_buf m u (Some a) =
      Some (GG_ERR_OK, u', Some (adv a (buf_len u)), wr m (bump a) (contents m u)) \<and>
    buf_len u' = buf_len u \<and> buf_data u' < 2 ^ 64 \<and>
    {buf_data u'..<buf_data u' + buf_len u} \<subseteq> taken a (buf_len u) \<and>
    contents (wr m (bump a) (contents m u)) u' = contents m u"
proof (cases "buf_len u = 0")
  case True
  then have [simp]: "contents m' u = []" for m' by (simp add: contents_def)
  show ?thesis
  proof (cases "gg_arena_owns (Some a) (buf_data u)")
    case own: True
    show ?thesis unfolding claim_buf_owned[OF own] using True assms by (intro exI[of _ u]) simp
  next
    case own: False
    show ?thesis unfolding claim_buf_empty[OF own True]
      using True by (intro exI[of _ "u\<lparr>buf_data := NULL\<rparr>"]) (simp add: contents_def)
  qed
next
  case False
  then have "buf_data u \<in> {buf_data u..<buf_data u + buf_len u}" by simp
  then have "\<not> gg_arena_owns (Some a) (buf_data u)" using assms(1,2) by (metis arena_owns_iff disjoint_iff)
  then have "gg_arena_claim_buf m u (Some a) = Some (GG_ERR_OK, u\<lparr>buf_data := bump a\<rparr>,
      Some (adv a (buf_len u)), wr m (bump a) (contents m u))"
    using claim_buf_copy[OF assms(1), of u m] False assms(3,5) by (simp add: adv_def int_limits)
  moreover have "contents (wr m (bump a) (contents m u)) (u\<lparr>buf_data := bump a\<rparr>) = contents m u"
    by (simp add: contents_def rd_wr_same')
  ultimately show ?thesis using alloc_adv(3)[OF assms(1)] by (intro exI[of _ "u\<lparr>buf_data := bump a\<rparr>"]) simp
qed

section \<open>What the elements of an array refer to\<close>

fun objs_refs :: "mem \<Rightarrow> addr \<Rightarrow> gg_val list \<Rightarrow> addr set" where
  "objs_refs m p [] = {}"
| "objs_refs m p (v # vs) = blk_foot m (rd m p obj_size) v \<union> objs_refs m (p + obj_size) vs"

definition key_range :: "mem \<Rightarrow> addr \<Rightarrow> addr set" where
  "key_range m p = (let u = gg_kv_key (rd m p kv_size) in {buf_data u..<buf_data u + buf_len u})"

fun pairs_refs :: "mem \<Rightarrow> addr \<Rightarrow> (bytes \<times> gg_val) list \<Rightarrow> addr set" where
  "pairs_refs m p [] = {}"
| "pairs_refs m p ((k, v) # kvs) =
     key_range m p \<union> blk_foot m (rd m (gg_kv_val p) obj_size) v \<union> pairs_refs m (p + kv_size) kvs"

lemma key_range_eq: "contents m (gg_kv_key (rd m p kv_size)) = k \<Longrightarrow>
    key_range m p = (let d = le_val (take 8 (rd m p kv_size)) in {d..<d + length k})"
  by (auto simp: key_range_def gg_kv_key_def Let_def)

lemma objs_foot_eq: "objs_foot m p vs = {p..<p + obj_size * length vs} \<union> objs_refs m p vs"
  by (induction vs arbitrary: p) auto

lemma kvs_foot_eq: "kvs_at m p kvs \<Longrightarrow> kvs_foot m p kvs = {p..<p + kv_size * length kvs} \<union> pairs_refs m p kvs"
proof (induction kvs arbitrary: p)
  case (Cons kv kvs)
  obtain k v where kv: "kv = (k, v)" by (cases kv)
  with Cons show ?case using key_range_eq[of m p k] by auto
qed simp

text \<open>A copy of an array, and an array whose surroundings change, stand for the same values.\<close>

lemma objs_copy:
  "rd m' q (obj_size * length vs) = rd m p (obj_size * length vs) \<Longrightarrow> agree_on (objs_refs m p vs) m m' \<Longrightarrow>
     objs_at m p vs \<Longrightarrow> objs_at m' q vs \<and> objs_refs m' q vs = objs_refs m p vs"
proof (induction vs arbitrary: p q)
  case (Cons v vs)
  have "rd m' q (obj_size + obj_size * length vs) = rd m p (obj_size + obj_size * length vs)"
    using Cons.prems(1) by simp
  then have hd: "rd m' q obj_size = rd m p obj_size"
    and tl: "rd m' (q + obj_size) (obj_size * length vs) = rd m (p + obj_size) (obj_size * length vs)"
    unfolding rd_add by simp_all
  have on: "agree_on (blk_foot m (rd m p obj_size) v) m m'" "agree_on (objs_refs m (p + obj_size) vs) m m'"
    using Cons.prems(2) by (auto intro: agree_on_mono)
  have v: "val_blk m (rd m p obj_size) v" using Cons.prems(3) by simp
  show ?case using Cons.IH[OF tl on(2)] Cons.prems(3) val_blk_frame[OF on(1) v] blk_foot_frame[OF on(1) v]
    by (simp add: hd)
qed simp

lemma kv_val_drop: "rd m (gg_kv_val p) obj_size = drop 10 (rd m p kv_size)"
  by (simp add: gg_kv_val_def)

lemma pairs_copy:
  "rd m' q (kv_size * length kvs) = rd m p (kv_size * length kvs) \<Longrightarrow> agree_on (pairs_refs m p kvs) m m' \<Longrightarrow>
     kvs_at m p kvs \<Longrightarrow> kvs_at m' q kvs \<and> pairs_refs m' q kvs = pairs_refs m p kvs"
proof (induction kvs arbitrary: p q)
  case (Cons kv kvs)
  obtain k v where kv: "kv = (k, v)" by (cases kv)
  have "rd m' q (kv_size + kv_size * length kvs) = rd m p (kv_size + kv_size * length kvs)"
    using Cons.prems(1) by simp
  then have hd: "rd m' q kv_size = rd m p kv_size"
    and tl: "rd m' (q + kv_size) (kv_size * length kvs) = rd m (p + kv_size) (kv_size * length kvs)"
    unfolding rd_add by simp_all
  have vhd: "rd m' (gg_kv_val q) obj_size = rd m (gg_kv_val p) obj_size"
    unfolding kv_val_drop hd ..
  have on: "agree_on (blk_foot m (rd m (gg_kv_val p) obj_size) v) m m'" "agree_on (pairs_refs m (p + kv_size) kvs) m m'"
    "agree_on (key_range m p) m m'"
    using Cons.prems(2) unfolding kv by (auto intro: agree_on_mono)
  have v: "val_blk m (rd m (gg_kv_val p) obj_size) v" using Cons.prems(3) by (simp add: kv)
  have key: "contents m' (gg_kv_key (rd m p kv_size)) = contents m (gg_kv_key (rd m p kv_size))"
    unfolding contents_def by (rule agree_on_rd[symmetric, OF on(3)]) (simp add: key_range_def Let_def)
  have range: "key_range m' q = key_range m p" by (simp only: key_range_def hd)
  show ?case using Cons.IH[OF tl on(2)] Cons.prems(3) val_blk_frame[OF on(1) v] blk_foot_frame[OF on(1) v]
    by (simp only: kv hd vhd key range kvs_at.simps pairs_refs.simps)
qed simp

section \<open>The visit that copies\<close>

text \<open>Visiting the object at \<open>p\<close> copies what it refers to and rewrites its own bytes.\<close>

definition claims :: "gg_val \<Rightarrow> bool" where
  "claims v \<longleftrightarrow> (\<forall>d p s a m. arena_ok a \<longrightarrow> obj_at m p v \<longrightarrow> {p..<p + obj_size} \<inter> arena_free a = {} \<longrightarrow>
     blk_foot m (rd m p obj_size) v \<inter> arena_region a = {} \<longrightarrow>
     {p..<p + obj_size} \<inter> blk_foot m (rd m p obj_size) v = {} \<longrightarrow>
     d + val_depth v \<le> 15 \<longrightarrow> s + val_count v \<le> 255 \<longrightarrow> val_usage v \<le> arena_avail a \<longrightarrow>
     (\<exists>m'. vobj claim_handlers d p s (Some a) m (Next (s + val_count v) (Some (adv a (val_usage v))) m') \<and>
        obj_at m' p v \<and> blk_foot m' (rd m' p obj_size) v \<subseteq> taken a (val_usage v) \<and>
        agree_off ({p..<p + obj_size} \<union> taken a (val_usage v)) m m'))"

lemma claimsD:
  "claims v \<Longrightarrow> arena_ok a \<Longrightarrow> obj_at m p v \<Longrightarrow> {p..<p + obj_size} \<inter> arena_free a = {} \<Longrightarrow>
     blk_foot m (rd m p obj_size) v \<inter> arena_region a = {} \<Longrightarrow>
     {p..<p + obj_size} \<inter> blk_foot m (rd m p obj_size) v = {} \<Longrightarrow>
     d + val_depth v \<le> 15 \<Longrightarrow> s + val_count v \<le> 255 \<Longrightarrow> val_usage v \<le> arena_avail a \<Longrightarrow>
     \<exists>m'. vobj claim_handlers d p s (Some a) m (Next (s + val_count v) (Some (adv a (val_usage v))) m') \<and>
        obj_at m' p v \<and> blk_foot m' (rd m' p obj_size) v \<subseteq> taken a (val_usage v) \<and>
        agree_off ({p..<p + obj_size} \<union> taken a (val_usage v)) m m'"
  by (simp only: claims_def)

lemma claim_calls [simp]:
  "call2 (on_buf claim_handlers) = claim_buf" "call2 (on_list claim_handlers) = claim_list"
  "call2 (on_map claim_handlers) = claim_map" "call2 (on_map_key claim_handlers) = claim_map_key"
  "call0 (end_list claim_handlers) c m = Some (GG_ERR_OK, c, m)"
  "call0 (end_map claim_handlers) c m = Some (GG_ERR_OK, c, m)"
  "cont i (cont_list claim_handlers) c m = Some (GG_ERR_OK, c, m)"
  "cont i (cont_map claim_handlers) c m = Some (GG_ERR_OK, c, m)"
  by (auto simp: fun_eq_iff call_defs claim_handlers_def cont_def)

lemma claims_scalar:
  assumes "v = VNull \<or> v = VBool b \<or> v = VI64 w \<or> v = VF64 w"
  shows "claims v"
  unfolding claims_def
proof (intro allI impI)
  fix d p s a m assume "obj_at m p v"
  moreover from this have "leaf_act claim_handlers p (val_type v) (Some a) m = Some (GG_ERR_OK, Some a, m)"
    using assms by (auto simp: leaf_act_def call_defs claim_handlers_def Let_def)
  ultimately have "vobj claim_handlers d p s (Some a) m (Next s (Some a) m)"
    using leaf[OF val_blk_type, where h = claim_handlers and c = "Some a" and r = "(GG_ERR_OK, Some a, m)" and d = d and s = s]
    by (simp add: after_def)
  with assms \<open>obj_at m p v\<close>
  show "\<exists>m'. vobj claim_handlers d p s (Some a) m (Next (s + val_count v) (Some (adv a (val_usage v))) m') \<and>
        obj_at m' p v \<and> blk_foot m' (rd m' p obj_size) v \<subseteq> taken a (val_usage v) \<and>
        agree_off ({p..<p + obj_size} \<union> taken a (val_usage v)) m m'"
    by (intro exI[of _ m]) auto
qed

lemma claims_buf: "claims (VBuf bs)"
  unfolding claims_def
proof (intro allI impI)
  fix d p s a m assume *: "arena_ok a" "obj_at m p (VBuf bs)" "{p..<p + obj_size} \<inter> arena_free a = {}"
    "blk_foot m (rd m p obj_size) (VBuf bs) \<inter> arena_region a = {}" "val_usage (VBuf bs) \<le> arena_avail a"
  obtain u where u: "gg_obj_into_buf (rd m p obj_size) = Some u" "contents m u = bs"
    using *(2) by (auto split: option.splits)
  have len: "buf_len u = length bs" "buf_len u < 65536" and data: "buf_data u = le_val (rd m p 8)" "buf_data u < 2 ^ 64"
    using u(2) into_len_bound(1)[OF u(1)] into_val(1)[OF u(1)] le_val_bound[of "rd m p 8"] by auto
  obtain u' where u': "gg_arena_claim_buf m u (Some a) =
      Some (GG_ERR_OK, u', Some (adv a (length bs)), wr m (bump a) bs)" "buf_len u' = length bs" "buf_data u' < 2 ^ 64"
    "{buf_data u'..<buf_data u' + length bs} \<subseteq> taken a (length bs)" "contents (wr m (bump a) bs) u' = bs"
    using claim_buf_adv[OF *(1), of u m] *(4,5) len data u(2) by (auto simp: Let_def)
  obtain x where x: "gg_obj_buf u' = Some x" "length x = obj_size" "gg_obj_into_buf x = Some u'"
    using u'(2,3) len gg_obj_packed(4)[of u'] into_obj_buf[of u'] by auto
  define m' where "m' = wr (wr m (bump a) bs) p x"
  have rdp: "rd m' p obj_size = x" using x(2) by (simp add: m'_def rd_wr_same')
  have "taken a (length bs) \<subseteq> arena_free a" using taken_sub(1)[of "length bs" a] *(1,5) by simp
  then have dis: "{buf_data u'..<buf_data u' + length bs} \<inter> {p..<p + obj_size} = {}" using *(3) u'(4) by blast
  have "contents m' u' = contents (wr m (bump a) bs) u'"
    unfolding contents_def m'_def using dis x(2) u'(2) by (intro rd_wr_off) simp
  then have at: "obj_at m' p (VBuf bs)" using u'(5) x(3) by (simp add: rdp)
  have "vobj claim_handlers d p s (Some a) m (Next s (Some (adv a (length bs))) m')"
    using leaf[OF into_type(4)[OF u(1)], of claim_handlers "Some a" "(GG_ERR_OK, Some (adv a (length bs)), m')" d s]
      u'(1) x(1) u(1) by (simp add: leaf_act_def Let_def claim_buf_def m'_def after_def)
  moreover have "blk_foot m' (rd m' p obj_size) (VBuf bs) \<subseteq> taken a (length bs)"
    using u'(4) into_val(1)[OF x(3)] by (simp add: rdp Let_def)
  moreover have "agree_off ({p..<p + obj_size} \<union> taken a (length bs)) m m'"
    unfolding m'_def using x(2) by (intro agree_off_trans[OF agree_off_wr agree_off_wr]) auto
  ultimately show "\<exists>m'. vobj claim_handlers d p s (Some a) m
          (Next (s + val_count (VBuf bs)) (Some (adv a (val_usage (VBuf bs)))) m') \<and>
        obj_at m' p (VBuf bs) \<and> blk_foot m' (rd m' p obj_size) (VBuf bs) \<subseteq> taken a (val_usage (VBuf bs)) \<and>
        agree_off ({p..<p + obj_size} \<union> taken a (val_usage (VBuf bs))) m m'"
    using at by (intro exI[of _ m']) auto
qed

text \<open>The object at \<open>p\<close> refers to an array of \<open>k\<close> bytes at \<open>q\<close> that has been
  allocated in the arena.\<close>

definition holds :: "GgArena \<Rightarrow> addr \<Rightarrow> addr \<Rightarrow> nat \<Rightarrow> bool" where
  "holds a p q k \<longleftrightarrow> {p..<p + obj_size} \<inter> (arena_free a \<union> {q..<q + k}) = {} \<and>
     {q..<q + k} \<subseteq> arena_region a - arena_free a"

lemma holds_adv: "holds a p q k \<Longrightarrow> holds (adv a n) p q k"
proof -
  assume "holds a p q k"
  moreover have "arena_free (adv a n) \<subseteq> arena_free a" by (auto simp: arena_free_def)
  ultimately show ?thesis unfolding holds_def adv_simps(4) by blast
qed

lemma holds_off:
  assumes "holds a p q k" "agree_off ({x..<y} \<union> taken a n) m m'" "q \<le> x" "y \<le> q + k"
    "n \<le> arena_avail a" "arena_ok a"
  shows "rd m' p obj_size = rd m p obj_size" "{x..<y} \<union> taken a n \<subseteq> arena_region a"
    "z + l \<le> x \<or> y \<le> z \<Longrightarrow> q \<le> z \<Longrightarrow> z + l \<le> q + k \<Longrightarrow> rd m' z l = rd m z l"
proof -
  have U: "taken a n \<subseteq> arena_free a" "arena_free a \<subseteq> arena_region a" and xy: "{x..<y} \<subseteq> {q..<q + k}"
    using taken_sub(1)[OF assms(5,6)] taken_sub(2) assms(3,4) by auto
  show "rd m' p obj_size = rd m p obj_size"
    using assms(1) U(1) xy unfolding holds_def by (intro rd_off[OF assms(2)]) blast
  show "{x..<y} \<union> taken a n \<subseteq> arena_region a" using assms(1) U xy unfolding holds_def by blast
  assume z: "z + l \<le> x \<or> y \<le> z" "q \<le> z" "z + l \<le> q + k"
  then have "{z..<z + l} \<subseteq> {q..<q + k}" "{z..<z + l} \<inter> {x..<y} = {}" by auto
  then show "rd m' z l = rd m z l"
    using assms(1) U(1) unfolding holds_def by (intro rd_off[OF assms(2)]) blast
qed

text \<open>Visiting the first of the items at \<open>q'\<close> leaves the others as they are.\<close>

lemma claims_item:
  assumes "claims v" "arena_ok a" "holds a p q k" "q \<le> q'" "q' + obj_size * Suc (length vs) \<le> q + k"
    "objs_at m q' (v # vs)" "objs_refs m q' (v # vs) \<inter> arena_region a = {}"
    "d + val_depth v \<le> 15" "s + val_count v \<le> 255" "val_usage v \<le> arena_avail a"
  shows "\<exists>m1. vobj claim_handlers d q' s (Some a) m (Next (s + val_count v) (Some (adv a (val_usage v))) m1) \<and>
    obj_at m1 q' v \<and> blk_foot m1 (rd m1 q' obj_size) v \<subseteq> taken a (val_usage v) \<and>
    agree_off ({q'..<q' + obj_size} \<union> taken a (val_usage v)) m m1 \<and>
    rd m1 p obj_size = rd m p obj_size \<and> objs_at m1 (q' + obj_size) vs \<and>
    objs_refs m1 (q' + obj_size) vs \<inter> arena_region a = {}"
proof -
  have cell: "{q'..<q' + obj_size} \<subseteq> {q..<q + k}" using assms(4,5) by auto
  have cell': "{q'..<q' + obj_size} \<inter> arena_free a = {}" "{q'..<q' + obj_size} \<subseteq> arena_region a"
    using assms(3) cell unfolding holds_def by blast+
  have refs: "blk_foot m (rd m q' obj_size) v \<inter> arena_region a = {}" using assms(7) by auto
  have "{q'..<q' + obj_size} \<inter> blk_foot m (rd m q' obj_size) v = {}" using refs cell'(2) by blast
  then obtain m1 where m1:
    "vobj claim_handlers d q' s (Some a) m (Next (s + val_count v) (Some (adv a (val_usage v))) m1)" "obj_at m1 q' v"
    "blk_foot m1 (rd m1 q' obj_size) v \<subseteq> taken a (val_usage v)"
    "agree_off ({q'..<q' + obj_size} \<union> taken a (val_usage v)) m m1"
    using claimsD[OF assms(1,2) _ cell'(1) refs _ assms(8-10)] assms(6) by auto
  have "q' + obj_size \<le> q + k" using assms(5) by simp
  note h = holds_off[OF assms(3) m1(4) assms(4) this assms(10,2)]
  have off: "rd m1 p obj_size = rd m p obj_size" "{q'..<q' + obj_size} \<union> taken a (val_usage v) \<subseteq> arena_region a"
    "rd m1 (q' + obj_size) (obj_size * length vs) = rd m (q' + obj_size) (obj_size * length vs)"
    using h(1,2) h(3)[of "q' + obj_size" "obj_size * length vs"] assms(4,5) by simp_all
  from objs_copy[OF off(3) agree_off_on[OF m1(4)]] off(2) assms(6,7)
  have "objs_at m1 (q' + obj_size) vs" "objs_refs m1 (q' + obj_size) vs \<inter> arena_region a = {}" by auto
  with m1 off(1) show ?thesis by blast
qed

text \<open>What has been copied is not touched by the rest of the visit.\<close>

lemma rest_disjoint:
  assumes "holds a p q k" "q \<le> x" "x \<le> y" "y \<le> q + k"
    "n \<le> arena_avail a" "l \<le> arena_avail (adv a n)" "arena_ok a"
  shows "({x..<y} \<union> taken a n) \<inter> ({y..<q + k} \<union> taken (adv a n) l) = {}"
proof -
  have U: "taken a n \<subseteq> arena_free a" "taken (adv a n) l \<subseteq> arena_free a" "{x..<y} \<subseteq> {q..<q + k}" "{y..<q + k} \<subseteq> {q..<q + k}"
    using assms(2-7) by (auto simp: arena_free_def arena_avail_def arena_ok_def)
  have arr: "{q..<q + k} \<inter> arena_free a = {}" using assms(1) unfolding holds_def by blast
  have "{x..<y} \<inter> {y..<q + k} = {}" "taken a n \<inter> taken (adv a n) l = {}" by auto
  moreover have "{x..<y} \<inter> taken (adv a n) l = {}" "taken a n \<inter> {y..<q + k} = {}" using U arr by blast+
  ultimately show ?thesis by blast
qed

lemma claims_items:
  assumes "\<And>v. v \<in> set vs \<Longrightarrow> claims v" "arena_ok a"
    "gg_obj_into_list (rd m p obj_size) = Some \<lparr>list_items = q, list_len = n\<rparr>" "n = i + length vs" "n \<le> 255"
    "holds a p q (obj_size * n)"
    "objs_at m (q + obj_size * i) vs" "objs_refs m (q + obj_size * i) vs \<inter> arena_region a = {}"
    "d + vals_depth vs < 15" "s + vals_count vs \<le> 255" "vals_usage vs \<le> arena_avail a"
  shows "\<exists>m'. vlist claim_handlers d p i s (Some a) m (Next (s + vals_count vs) (Some (adv a (vals_usage vs))) m') \<and>
    objs_at m' (q + obj_size * i) vs \<and> objs_refs m' (q + obj_size * i) vs \<subseteq> taken a (vals_usage vs) \<and>
    agree_off ({q + obj_size * i..<q + obj_size * n} \<union> taken a (vals_usage vs)) m m'"
  using assms
proof (induction vs arbitrary: i s a m)
  case Nil
  have "vlist claim_handlers d p i s (Some a) m (after (GG_ERR_OK, Some a, m) s)"
    by (rule list_end[OF Nil.prems(3)]) (simp_all add: Nil.prems(4))
  then show ?case by (intro exI[of _ m]) (simp add: after_def)
next
  case (Cons v vs)
  let ?q = "q + obj_size * i" and ?a = "adv a (val_usage v)" and ?l = "\<lparr>list_items = q, list_len = n\<rparr>"
  have q: "?q + obj_size = q + obj_size * Suc i" by simp
  have fit: "val_usage v \<le> arena_avail a" "vals_usage vs \<le> arena_avail ?a" using Cons.prems(11) by auto
  have "?q + obj_size * Suc (length vs) \<le> q + obj_size * n" "Suc d + val_depth v \<le> 15" "s + val_count v \<le> 255"
    using Cons.prems(4,9,10) by auto
  from claims_item[OF _ Cons.prems(2,6) _ this(1) Cons.prems(7,8) this(2,3) fit(1)] Cons.prems(1)
  obtain m1 where m1: "vobj claim_handlers (Suc d) ?q s (Some a) m (Next (s + val_count v) (Some ?a) m1)"
    "obj_at m1 ?q v" "blk_foot m1 (rd m1 ?q obj_size) v \<subseteq> taken a (val_usage v)"
    "agree_off ({?q..<?q + obj_size} \<union> taken a (val_usage v)) m m1" "rd m1 p obj_size = rd m p obj_size"
    "objs_at m1 (?q + obj_size) vs" "objs_refs m1 (?q + obj_size) vs \<inter> arena_region a = {}" by auto
  have pre: "\<And>v. v \<in> set vs \<Longrightarrow> claims v" "arena_ok ?a"
    "gg_obj_into_list (rd m1 p obj_size) = Some ?l" "n = Suc i + length vs" "d + vals_depth vs < 15"
    "s + val_count v + vals_count vs \<le> 255" "objs_at m1 (q + obj_size * Suc i) vs"
    "objs_refs m1 (q + obj_size * Suc i) vs \<inter> arena_region ?a = {}"
    using Cons.prems fit m1(5-7) unfolding q by auto
  obtain m2 where m2: "vlist claim_handlers d p (Suc i) (s + val_count v) (Some ?a) m1
       (Next (s + val_count v + vals_count vs) (Some (adv ?a (vals_usage vs))) m2)"
    "objs_at m2 (?q + obj_size) vs" "objs_refs m2 (?q + obj_size) vs \<subseteq> taken ?a (vals_usage vs)"
    "agree_off ({?q + obj_size..<q + obj_size * n} \<union> taken ?a (vals_usage vs)) m1 m2"
    using Cons.IH[OF pre(1-4) Cons.prems(5) holds_adv[OF Cons.prems(6)] pre(7,8,5,6) fit(2)] unfolding q by blast
  have "Suc d \<noteq> GG_MAX_OBJECT_DEPTH" using Cons.prems(9) by (cases v) (auto simp: GG_MAX_OBJECT_DEPTH_def)
  then have "vlist claim_handlers d p i s (Some a) m
      (Next (s + vals_count (v # vs)) (Some (adv a (vals_usage (v # vs)))) m2)"
    using list_item[of m p ?l i claim_handlers "Some a" "Some a" m d s "s + val_count v" "Some ?a" m1] Cons.prems(3-5) m1(1) m2(1)
    by (simp add: add.assoc)
  moreover have v2: "obj_at m2 ?q v \<and> blk_foot m2 (rd m2 ?q obj_size) v \<subseteq> taken a (val_usage v)"
  proof -
    have "({?q..<?q + obj_size} \<union> taken a (val_usage v)) \<inter>
        ({?q + obj_size..<q + obj_size * n} \<union> taken ?a (vals_usage vs)) = {}"
      using Cons.prems(2,4) fit by (intro rest_disjoint[OF Cons.prems(6)]) auto
    then have "obj_foot m1 ?q v \<inter> ({?q + obj_size..<q + obj_size * n} \<union> taken ?a (vals_usage vs)) = {}"
      using m1(3) by blast
    from obj_off[OF m2(4) this m1(2)] m1(3) show ?thesis by simp
  qed
  moreover have "agree_off ({?q..<q + obj_size * n} \<union> taken a (vals_usage (v # vs))) m m2"
    using Cons.prems(4) by (intro agree_off_trans[OF agree_off_mono[OF m1(4)] agree_off_mono[OF m2(4)]]) auto
  moreover have "taken a (val_usage v) \<union> taken ?a (vals_usage vs) = taken a (vals_usage (v # vs))" by auto
  ultimately show ?case using m2(2,3) by (intro exI[of _ m2]) auto
qed

lemma claim_copy:
  fixes m :: mem and src :: addr
  assumes ok: "arena_ok a" "n \<le> arena_avail a" and p: "{p..<p + obj_size} \<inter> arena_free a = {}"
    and S: "S \<inter> arena_region a = {}" "{p..<p + obj_size} \<inter> S = {}" and x: "length x = obj_size"
  defines "m1 \<equiv> wr (wr m (bump a) (rd m src n)) p x"
  shows "rd m1 p obj_size = x" "rd m1 (bump a) n = rd m src n" "agree_off ({p..<p + obj_size} \<union> taken a n) m m1"
    "agree_on S m m1" "holds (adv a n) p (bump a) n"
proof -
  have U: "taken a n \<subseteq> arena_free a" "arena_free a \<subseteq> arena_region a" "arena_free (adv a n) \<subseteq> arena_free a"
    "taken a n \<inter> arena_free (adv a n) = {}"
    using taken_sub(1)[OF ok(2,1)] taken_sub(2) by (auto simp: arena_free_def)
  show "rd m1 p obj_size = x" using x by (simp add: m1_def rd_wr_same')
  have "{bump a..<bump a + n} \<inter> {p..<p + length x} = {}" using p U(1) x by (metis Int_commute disjoint_iff subsetD)
  then show "rd m1 (bump a) n = rd m src n" unfolding m1_def by (subst rd_wr_off) (auto simp: rd_wr_same')
  show off: "agree_off ({p..<p + obj_size} \<union> taken a n) m m1"
    unfolding m1_def using x by (intro agree_off_trans[OF agree_off_wr agree_off_wr]) auto
  have "S \<inter> ({p..<p + obj_size} \<union> taken a n) = {}" using S U by blast
  then show "agree_on S m m1" by (rule agree_off_on[OF off])
  show "holds (adv a n) p (bump a) n" unfolding holds_def adv_simps(4) using p U by blast
qed

lemma claim_list_enter:
  assumes ok: "arena_ok a" and l: "list_len l = length vs" "objs_at m (list_items l) vs" "length vs \<le> 255"
    and p: "{p..<p + obj_size} \<inter> arena_free a = {}" "objs_foot m (list_items l) vs \<inter> arena_region a = {}"
      "{p..<p + obj_size} \<inter> objs_foot m (list_items l) vs = {}"
    and into: "gg_obj_into_list (rd m p obj_size) = Some l"
    and fit: "length vs * obj_size \<le> arena_avail a"
  shows "\<exists>m1 q. claim_list l p (Some a) m = Some (GG_ERR_OK, Some (adv a (length vs * obj_size)), m1) \<and>
    gg_obj_into_list (rd m1 p obj_size) = Some \<lparr>list_items = q, list_len = length vs\<rparr> \<and> objs_at m1 q vs \<and>
    objs_refs m1 q vs \<inter> arena_region a = {} \<and> holds (adv a (length vs * obj_size)) p q (obj_size * length vs) \<and>
    agree_off ({p..<p + obj_size} \<union> taken a (length vs * obj_size)) m m1 \<and>
    {q..<q + obj_size * length vs} \<subseteq> taken a (length vs * obj_size)"
proof (cases "vs = []")
  case True
  have obj: "\<exists>x. gg_obj_list \<lparr>list_items = NULL, list_len = 0\<rparr> = Some x \<and> length x = obj_size \<and>
      gg_obj_into_list x = Some \<lparr>list_items = NULL, list_len = 0\<rparr>"
    using gg_obj_packed(5)[of "\<lparr>list_items = NULL, list_len = 0\<rparr>"] into_obj_list[of "\<lparr>list_items = NULL, list_len = 0\<rparr>"] by auto
  then obtain x where x: "gg_obj_list \<lparr>list_items = NULL, list_len = 0\<rparr> = Some x" "length x = obj_size"
    "gg_obj_into_list x = Some \<lparr>list_items = NULL, list_len = 0\<rparr>" by blast
  show ?thesis
  proof (cases "gg_arena_owns (Some a) (list_items l)")
    case own: True
    have "l = \<lparr>list_items = list_items l, list_len = length vs\<rparr>" using l(1) by simp
    then show ?thesis using True own into p(1)
      by (intro exI[of _ m] exI[of _ "list_items l"]) (simp add: claim_list_def holds_def)
  next
    case own: False
    show ?thesis using True own x p(1) l(1)
      by (intro exI[of _ "wr m p x"] exI[of _ NULL])
        (simp add: claim_list_def holds_def rd_wr_same' agree_off_wr)
  qed
next
  case False
  let ?n = "length vs * obj_size" and ?q = "bump a"
  have "list_items l \<in> objs_foot m (list_items l) vs" using False by (cases vs) auto
  then have own: "\<not> gg_arena_owns (Some a) (list_items l)" using ok p(2) by (metis arena_owns_iff disjoint_iff)
  obtain x where x: "gg_obj_list \<lparr>list_items = ?q, list_len = length vs\<rparr> = Some x" "length x = obj_size"
    "gg_obj_into_list x = Some \<lparr>list_items = ?q, list_len = length vs\<rparr>"
    using gg_obj_packed(5)[of "\<lparr>list_items = ?q, list_len = length vs\<rparr>"] alloc_adv(3)[OF ok] l(3)
      into_obj_list[of "\<lparr>list_items = ?q, list_len = length vs\<rparr>"] by auto
  have refs: "objs_refs m (list_items l) vs \<inter> arena_region a = {}" "{p..<p + obj_size} \<inter> objs_refs m (list_items l) vs = {}"
    using p(2,3) by (auto simp: objs_foot_eq)
  let ?m1 = "wr (wr m ?q (rd m (list_items l) ?n)) p x"
  note c = claim_copy(1-4)[OF ok fit p(1) refs x(2), where m = m and src = "list_items l"]
    claim_copy(5)[OF ok fit p(1) refs x(2)]
  have "claim_list l p (Some a) m = Some (GG_ERR_OK, Some (adv a ?n), ?m1)"
    using own l False alloc_adv(1)[OF ok fit] alloc_adv(2)[OF ok] x(1) by (simp add: claim_list_def memcpy_def)
  moreover have "objs_at ?m1 ?q vs \<and> objs_refs ?m1 ?q vs = objs_refs m (list_items l) vs"
    using objs_copy[OF _ c(4) l(2)] c(2) by (simp add: mult.commute)
  ultimately show ?thesis using x(3) c(1,3,5) refs(1)
    by (intro exI[of _ ?m1] exI[of _ ?q]) (simp add: mult.commute)
qed

lemma claims_VList:
  assumes "\<And>v. v \<in> set vs \<Longrightarrow> claims v"
  shows "claims (VList vs)"
  unfolding claims_def
proof (intro allI impI)
  fix d p s a m assume *: "arena_ok a" "obj_at m p (VList vs)" "{p..<p + obj_size} \<inter> arena_free a = {}"
    "blk_foot m (rd m p obj_size) (VList vs) \<inter> arena_region a = {}"
    "{p..<p + obj_size} \<inter> blk_foot m (rd m p obj_size) (VList vs) = {}"
    "d + val_depth (VList vs) \<le> 15" "s + val_count (VList vs) \<le> 255" "val_usage (VList vs) \<le> arena_avail a"
  let ?n = "length vs * obj_size" and ?U = "val_usage (VList vs)"
  obtain l where l: "gg_obj_into_list (rd m p obj_size) = Some l" "list_len l = length vs" "objs_at m (list_items l) vs"
    using *(2) by (auto split: option.splits)
  have foot: "blk_foot m (rd m p obj_size) (VList vs) = objs_foot m (list_items l) vs" using into_val(2)[OF l(1)] by simp
  have len: "length vs \<le> 255" "?n \<le> arena_avail a" "vals_usage vs \<le> arena_avail (adv a ?n)" using *(7,8) by auto
  obtain m1 q where m1: "claim_list l p (Some a) m = Some (GG_ERR_OK, Some (adv a ?n), m1)"
    "gg_obj_into_list (rd m1 p obj_size) = Some \<lparr>list_items = q, list_len = length vs\<rparr>" "objs_at m1 q vs"
    "objs_refs m1 q vs \<inter> arena_region a = {}" "holds (adv a ?n) p q (obj_size * length vs)"
    "agree_off ({p..<p + obj_size} \<union> taken a ?n) m m1" "{q..<q + obj_size * length vs} \<subseteq> taken a ?n"
    using claim_list_enter[OF *(1) l(2,3) len(1) *(3) *(4)[unfolded foot] *(5)[unfolded foot] l(1) len(2)] by blast
  have pre: "arena_ok (adv a ?n)" "objs_at m1 (q + obj_size * 0) vs" "d + vals_depth vs < 15"
    "objs_refs m1 (q + obj_size * 0) vs \<inter> arena_region (adv a ?n) = {}" "s + length vs + vals_count vs \<le> 255"
    using * len m1(3,4) by auto
  obtain m2 where m2: "vlist claim_handlers d p 0 (s + length vs) (Some (adv a ?n)) m1
      (Next (s + length vs + vals_count vs) (Some (adv (adv a ?n) (vals_usage vs))) m2)" "objs_at m2 q vs"
    "objs_refs m2 q vs \<subseteq> taken (adv a ?n) (vals_usage vs)"
    "agree_off ({q..<q + obj_size * length vs} \<union> taken (adv a ?n) (vals_usage vs)) m1 m2"
    using claims_items[OF assms pre(1) m1(2) _ len(1) m1(5) pre(2,4,3,5) len(3)] by auto
  have "u8 (s + u8 (list_len l)) = s + length vs" "list_len l \<le> GG_MAX_OBJECT_SUBOBJECTS - s"
    using *(7) l(2) by (simp_all add: GG_MAX_OBJECT_SUBOBJECTS_def)
  then have "vobj claim_handlers d p s (Some a) m (Next (s + val_count (VList vs)) (Some (adv a ?U)) m2)"
    using list[OF l(1) _ m1(1)[folded claim_calls(2)]] m2(1) by (simp add: add.assoc)
  moreover have rdp: "rd m2 p obj_size = rd m1 p obj_size"
    using holds_off(1)[OF m1(5) m2(4) order_refl order_refl len(3) pre(1)] .
  moreover have "blk_foot m2 (rd m2 p obj_size) (VList vs) \<subseteq> taken a ?U"
    using m1(7) m2(3) into_val(2)[OF m1(2)] by (auto simp: rdp objs_foot_eq)
  moreover have "agree_off ({p..<p + obj_size} \<union> taken a ?U) m m2"
    using m1(7) by (intro agree_off_trans[OF agree_off_mono[OF m1(6)] agree_off_mono[OF m2(4)]]) auto
  ultimately show "\<exists>m'. vobj claim_handlers d p s (Some a) m (Next (s + val_count (VList vs)) (Some (adv a ?U)) m') \<and>
      obj_at m' p (VList vs) \<and> blk_foot m' (rd m' p obj_size) (VList vs) \<subseteq> taken a ?U \<and>
      agree_off ({p..<p + obj_size} \<union> taken a ?U) m m'"
    using m1(2) m2(2) by (intro exI[of _ m2]) auto
qed

text \<open>The loop over the pairs of a map that has been copied: the key, then the value.\<close>

lemma claim_key_step:
  assumes ok: "arena_ok a" "length k \<le> arena_avail a" and cell: "{q..<q + kv_size} \<inter> arena_free a = {}"
    and key: "contents m (gg_kv_key (rd m q kv_size)) = k" "key_range m q \<inter> arena_region a = {}"
  shows "\<exists>m1. claim_map_key (gg_kv_key (rd m q kv_size)) q (Some a) m = Some (GG_ERR_OK, Some (adv a (length k)), m1) \<and>
    contents m1 (gg_kv_key (rd m1 q kv_size)) = k \<and> key_range m1 q \<subseteq> taken a (length k) \<and>
    rd m1 (gg_kv_val q) obj_size = rd m (gg_kv_val q) obj_size \<and>
    agree_off ({q..<q + kv_size} \<union> taken a (length k)) m m1"
proof -
  let ?u = "gg_kv_key (rd m q kv_size)"
  have len: "buf_len ?u = length k" "buf_len ?u < 65536" "buf_data ?u < 2 ^ 64"
    using key(1) kv_key_len[of m q] le_val_bound[of "rd m q 8"] by (auto simp: gg_kv_key_def)
  obtain u' where u': "gg_arena_claim_buf m ?u (Some a) = Some (GG_ERR_OK, u', Some (adv a (length k)), wr m (bump a) k)"
    "buf_len u' = length k" "buf_data u' < 2 ^ 64" "{buf_data u'..<buf_data u' + length k} \<subseteq> taken a (length k)"
    "contents (wr m (bump a) k) u' = k"
    using claim_buf_adv[OF ok(1), of ?u m] key ok(2) len by (auto simp: key_range_def Let_def)
  let ?m = "wr m (bump a) k" and ?x = "le_bytes 8 (buf_data u') @ le_bytes 2 (length k)"
  have T: "taken a (length k) \<inter> {q..<q + kv_size} = {}" using taken_sub(1)[OF ok(2,1)] cell by blast
  then have q: "rd ?m q kv_size = rd m q kv_size" by (intro rd_wr_off) blast
  have set: "gg_kv_set_key (rd ?m q kv_size) u' = Some (?x @ drop 10 (rd m q kv_size))"
    using u'(2) len by (simp add: gg_kv_layout q)
  define m1 where "m1 = wr ?m q (?x @ drop 10 (rd m q kv_size))"
  have rdq: "rd m1 q kv_size = ?x @ drop 10 (rd m q kv_size)" by (simp add: m1_def rd_wr_same')
  have key1: "gg_kv_key (rd m1 q kv_size) = u'" unfolding rdq using u'(2,3) len by (simp add: gg_kv_key_def)
  have "contents m1 u' = contents ?m u'"
    unfolding contents_def m1_def using u'(2,4) T by (intro rd_wr_off) auto
  moreover have "agree_off ({q..<q + kv_size} \<union> taken a (length k)) m m1"
    unfolding m1_def by (intro agree_off_trans[OF agree_off_wr agree_off_wr]) auto
  moreover have "rd m1 (gg_kv_val q) obj_size = rd m (gg_kv_val q) obj_size"
    unfolding kv_val_drop rdq by simp
  moreover have "claim_map_key ?u q (Some a) m = Some (GG_ERR_OK, Some (adv a (length k)), m1)"
    using u'(1) set by (simp add: claim_map_key_def m1_def)
  ultimately show ?thesis using key1 u'(2,4,5) by (intro exI[of _ m1]) (simp add: key_range_def)
qed

lemma key_of_first10: "rd m' q 10 = rd m q 10 \<Longrightarrow> gg_kv_key (rd m' q kv_size) = gg_kv_key (rd m q kv_size)"
proof -
  assume "rd m' q 10 = rd m q 10"
  then have "rd m' q (8 + 2) = rd m q (8 + 2)" by simp
  then show ?thesis unfolding rd_add by (simp add: gg_kv_key_def)
qed

lemma claims_pair:
  assumes v: "claims v" and ok: "arena_ok a" "length k + val_usage v \<le> arena_avail a"
    and cell: "{q..<q + kv_size} \<inter> arena_free a = {}" "{q..<q + kv_size} \<subseteq> arena_region a"
    and at: "kvs_at m q [(k, v)]" "pairs_refs m q [(k, v)] \<inter> arena_region a = {}"
    and lim: "d + val_depth v \<le> 15" "s + val_count v \<le> 255"
  shows "\<exists>m1 m2. claim_map_key (gg_kv_key (rd m q kv_size)) q (Some a) m = Some (GG_ERR_OK, Some (adv a (length k)), m1) \<and>
    vobj claim_handlers d (gg_kv_val q) s (Some (adv a (length k))) m1
      (Next (s + val_count v) (Some (adv a (length k + val_usage v))) m2) \<and>
    kvs_at m2 q [(k, v)] \<and> pairs_refs m2 q [(k, v)] \<subseteq> taken a (length k + val_usage v) \<and>
    agree_off ({q..<q + kv_size} \<union> taken a (length k + val_usage v)) m m2"
proof -
  let ?p = "gg_kv_val q" and ?a = "adv a (length k)"
  have key: "contents m (gg_kv_key (rd m q kv_size)) = k" "key_range m q \<inter> arena_region a = {}"
    and val: "obj_at m ?p v" "blk_foot m (rd m ?p obj_size) v \<inter> arena_region a = {}" using at by auto
  have fit: "length k \<le> arena_avail a" "val_usage v \<le> arena_avail ?a" using ok(2) by auto
  obtain m1 where m1: "claim_map_key (gg_kv_key (rd m q kv_size)) q (Some a) m = Some (GG_ERR_OK, Some ?a, m1)"
    "contents m1 (gg_kv_key (rd m1 q kv_size)) = k" "key_range m1 q \<subseteq> taken a (length k)"
    "rd m1 ?p obj_size = rd m ?p obj_size" "agree_off ({q..<q + kv_size} \<union> taken a (length k)) m m1"
    using claim_key_step[OF ok(1) fit(1) cell(1) key] by blast
  have U: "taken a (length k) \<subseteq> arena_free a" "arena_free a \<subseteq> arena_region a" "arena_free ?a \<subseteq> arena_free a"
    using taken_sub(1)[OF fit(1) ok(1)] taken_sub(2) by (auto simp: arena_free_def)
  have p: "{?p..<?p + obj_size} \<subseteq> {q..<q + kv_size}" by (auto simp: gg_kv_val_def)
  have "blk_foot m (rd m ?p obj_size) v \<inter> ({q..<q + kv_size} \<union> taken a (length k)) = {}" using val(2) cell(2) U by blast
  then have on: "agree_on (blk_foot m (rd m ?p obj_size) v) m m1" by (rule agree_off_on[OF m1(5)])
  have val1: "obj_at m1 ?p v" "blk_foot m1 (rd m1 ?p obj_size) v \<inter> arena_region ?a = {}"
    using val_blk_frame[OF on val(1)] blk_foot_frame[OF on val(1)] val(2) by (simp_all add: m1(4))
  have p1: "{?p..<?p + obj_size} \<inter> arena_free ?a = {}" "{?p..<?p + obj_size} \<inter> blk_foot m1 (rd m1 ?p obj_size) v = {}"
    using p cell U(3) val1(2) unfolding adv_simps(4) by blast+
  have "arena_ok ?a" using ok(1) fit(1) by simp
  from claimsD[OF v this val1(1) p1(1) val1(2) p1(2) lim fit(2)] obtain m2 where
    m2: "vobj claim_handlers d ?p s (Some ?a) m1 (Next (s + val_count v) (Some (adv ?a (val_usage v))) m2)" "obj_at m2 ?p v"
    "blk_foot m2 (rd m2 ?p obj_size) v \<subseteq> taken ?a (val_usage v)"
    "agree_off ({?p..<?p + obj_size} \<union> taken ?a (val_usage v)) m1 m2" by blast
  have U2: "taken ?a (val_usage v) \<subseteq> arena_free a" using taken_sub(1)[OF fit(2) \<open>arena_ok ?a\<close>] U(3) by blast
  have "{q..<q + 10} \<subseteq> {q..<q + kv_size}" "{q..<q + 10} \<inter> {?p..<?p + obj_size} = {}" by (auto simp: gg_kv_val_def)
  then have "{q..<q + 10} \<inter> ({?p..<?p + obj_size} \<union> taken ?a (val_usage v)) = {}" using U2 cell(1) by blast
  from key_of_first10[OF rd_off[OF m2(4) this]]
  have k2: "gg_kv_key (rd m2 q kv_size) = gg_kv_key (rd m1 q kv_size)" .
  have "taken a (length k) \<inter> taken ?a (val_usage v) = {}" by auto
  then have "key_range m1 q \<inter> ({?p..<?p + obj_size} \<union> taken ?a (val_usage v)) = {}"
    using m1(3) p cell(1) U(1) by blast
  from rd_off[OF m2(4) this[unfolded key_range_def Let_def]]
  have "contents m2 (gg_kv_key (rd m2 q kv_size)) = k" using m1(2) by (simp add: k2 contents_def)
  moreover have "key_range m2 q = key_range m1 q" by (simp only: key_range_def k2)
  moreover have "taken a (length k) \<union> taken ?a (val_usage v) = taken a (length k + val_usage v)" by auto
  moreover have "agree_off ({q..<q + kv_size} \<union> taken a (length k + val_usage v)) m m2"
    using p by (intro agree_off_trans[OF agree_off_mono[OF m1(5)] agree_off_mono[OF m2(4)]]) auto
  ultimately show ?thesis using m1(1,3) m2(1-3)
    by (intro exI[of _ m1] exI[of _ m2]) auto
qed

lemma claims_pair_rest:
  assumes v: "claims v" and ok: "arena_ok a" "length k + val_usage v \<le> arena_avail a"
    and h: "holds a p q n" "q \<le> q'" "q' + kv_size * Suc (length kvs) \<le> q + n"
    and at: "kvs_at m q' ((k, v) # kvs)" "pairs_refs m q' ((k, v) # kvs) \<inter> arena_region a = {}"
    and lim: "d + val_depth v \<le> 15" "s + val_count v \<le> 255"
  shows "\<exists>m1 m2. claim_map_key (gg_kv_key (rd m q' kv_size)) q' (Some a) m = Some (GG_ERR_OK, Some (adv a (length k)), m1) \<and>
    vobj claim_handlers d (gg_kv_val q') s (Some (adv a (length k))) m1
      (Next (s + val_count v) (Some (adv a (length k + val_usage v))) m2) \<and>
    kvs_at m2 q' [(k, v)] \<and> pairs_refs m2 q' [(k, v)] \<subseteq> taken a (length k + val_usage v) \<and>
    agree_off ({q'..<q' + kv_size} \<union> taken a (length k + val_usage v)) m m2 \<and> rd m2 p obj_size = rd m p obj_size \<and>
    kvs_at m2 (q' + kv_size) kvs \<and> pairs_refs m2 (q' + kv_size) kvs \<inter> arena_region a = {}"
proof -
  have sub: "{q'..<q' + kv_size} \<subseteq> {q..<q + n}" "q' + kv_size \<le> q + n" using h(2,3) by auto
  have cell: "{q'..<q' + kv_size} \<inter> arena_free a = {}" "{q'..<q' + kv_size} \<subseteq> arena_region a"
    using h(1) sub(1) unfolding holds_def by blast+
  have one: "kvs_at m q' [(k, v)]" "pairs_refs m q' [(k, v)] \<inter> arena_region a = {}" using at by auto
  obtain m1 m2 where m2: "claim_map_key (gg_kv_key (rd m q' kv_size)) q' (Some a) m = Some (GG_ERR_OK, Some (adv a (length k)), m1)"
    "vobj claim_handlers d (gg_kv_val q') s (Some (adv a (length k))) m1
      (Next (s + val_count v) (Some (adv a (length k + val_usage v))) m2)"
    "kvs_at m2 q' [(k, v)]" "pairs_refs m2 q' [(k, v)] \<subseteq> taken a (length k + val_usage v)"
    "agree_off ({q'..<q' + kv_size} \<union> taken a (length k + val_usage v)) m m2"
    using claims_pair[OF v ok cell one lim] by blast
  note o = holds_off[OF h(1) m2(5) h(2) sub(2) ok(2,1)]
  have eq: "rd m2 (q' + kv_size) (kv_size * length kvs) = rd m (q' + kv_size) (kv_size * length kvs)"
    using h(2,3) by (intro o(3)) auto
  have refs: "pairs_refs m (q' + kv_size) kvs \<inter> arena_region a = {}" using at(2) by auto
  then have "agree_on (pairs_refs m (q' + kv_size) kvs) m m2" using o(2) by (intro agree_off_on[OF m2(5)]) auto
  from pairs_copy[OF eq this] at(1) refs
  have "kvs_at m2 (q' + kv_size) kvs" "pairs_refs m2 (q' + kv_size) kvs \<inter> arena_region a = {}" by auto
  with m2 o(1) show ?thesis by blast
qed

lemma pair_stays:
  assumes "kvs_at m2 q' [kv]" "pairs_refs m2 q' [kv] \<subseteq> taken a n"
    "agree_off ({q' + kv_size..<q + k} \<union> taken (adv a n) l) m2 m3" "holds a p q k" "q \<le> q'" "q' + kv_size \<le> q + k"
    "n \<le> arena_avail a" "l \<le> arena_avail (adv a n)" "arena_ok a"
  shows "kvs_at m3 q' [kv] \<and> pairs_refs m3 q' [kv] \<subseteq> taken a n"
proof -
  have dis: "({q'..<q' + kv_size} \<union> taken a n) \<inter> ({q' + kv_size..<q + k} \<union> taken (adv a n) l) = {}"
    using assms(5-9) by (intro rest_disjoint[OF assms(4)]) auto
  have "rd m3 q' (kv_size * length [kv]) = rd m2 q' (kv_size * length [kv])"
    using dis by (intro rd_off[OF assms(3)]) auto
  moreover have "agree_on (pairs_refs m2 q' [kv]) m2 m3" using dis assms(2) by (intro agree_off_on[OF assms(3)]) blast
  ultimately show ?thesis using pairs_copy[of m3 q' "[kv]" m2 q'] assms(1,2) by simp
qed

lemma claims_pairs:
  assumes "\<And>kv. kv \<in> set kvs \<Longrightarrow> claims (snd kv)" "arena_ok a"
    "gg_obj_into_map (rd m p obj_size) = Some \<lparr>map_pairs = q, map_len = n\<rparr>" "n = i + length kvs" "n \<le> 127"
    "holds a p q (kv_size * n)"
    "kvs_at m (q + kv_size * i) kvs" "pairs_refs m (q + kv_size * i) kvs \<inter> arena_region a = {}"
    "d + kvs_depth kvs < 15" "s + kvs_count kvs \<le> 255" "kvs_usage kvs \<le> arena_avail a"
  shows "\<exists>m'. vmap claim_handlers d p i s (Some a) m (Next (s + kvs_count kvs) (Some (adv a (kvs_usage kvs))) m') \<and>
    kvs_at m' (q + kv_size * i) kvs \<and> pairs_refs m' (q + kv_size * i) kvs \<subseteq> taken a (kvs_usage kvs) \<and>
    agree_off ({q + kv_size * i..<q + kv_size * n} \<union> taken a (kvs_usage kvs)) m m'"
  using assms
proof (induction kvs arbitrary: i s a m)
  case Nil
  have "vmap claim_handlers d p i s (Some a) m (after (GG_ERR_OK, Some a, m) s)"
    by (rule map_end[OF Nil.prems(3)]) (simp_all add: Nil.prems(4))
  then show ?case by (intro exI[of _ m]) (simp add: after_def)
next
  case (Cons kv kvs)
  obtain k v where kv: "kv = (k, v)" by (cases kv)
  let ?q = "q + kv_size * i" and ?u = "length k + val_usage v" and ?l = "\<lparr>map_pairs = q, map_len = n\<rparr>"
  let ?a = "adv a ?u"
  have q: "?q + kv_size = q + kv_size * Suc i" "?q + kv_size * Suc (length kvs) \<le> q + kv_size * n"
    using Cons.prems(4) by auto
  have fit: "?u \<le> arena_avail a" "kvs_usage kvs \<le> arena_avail ?a" using Cons.prems(11) by (auto simp: kv)
  have one: "claims v" "Suc d + val_depth v \<le> 15" "s + val_count v \<le> 255"
    using Cons.prems(1)[of kv] Cons.prems(9,10) by (auto simp: kv)
  obtain m1 m2 where m1: "claim_map_key (gg_kv_key (rd m ?q kv_size)) ?q (Some a) m = Some (GG_ERR_OK, Some (adv a (length k)), m1)"
    and m2: "vobj claim_handlers (Suc d) (gg_kv_val ?q) s (Some (adv a (length k))) m1 (Next (s + val_count v) (Some ?a) m2)"
      "kvs_at m2 ?q [(k, v)]" "pairs_refs m2 ?q [(k, v)] \<subseteq> taken a ?u" "agree_off ({?q..<?q + kv_size} \<union> taken a ?u) m m2"
    and rdp: "rd m2 p obj_size = rd m p obj_size"
    and rest: "kvs_at m2 (q + kv_size * Suc i) kvs" "pairs_refs m2 (q + kv_size * Suc i) kvs \<inter> arena_region a = {}"
    using claims_pair_rest[OF one(1) Cons.prems(2) fit(1) Cons.prems(6) _ q(2) Cons.prems(7,8)[unfolded kv] one(2,3)]
    unfolding q(1) by auto
  have pre: "\<And>kv. kv \<in> set kvs \<Longrightarrow> claims (snd kv)" "arena_ok ?a" "gg_obj_into_map (rd m2 p obj_size) = Some ?l"
    "n = Suc i + length kvs" "d + kvs_depth kvs < 15" "s + val_count v + kvs_count kvs \<le> 255"
    using Cons.prems fit rdp by (auto simp: kv)
  obtain m3 where m3: "vmap claim_handlers d p (Suc i) (s + val_count v) (Some ?a) m2
       (Next (s + val_count v + kvs_count kvs) (Some (adv ?a (kvs_usage kvs))) m3)"
    "kvs_at m3 (?q + kv_size) kvs" "pairs_refs m3 (?q + kv_size) kvs \<subseteq> taken ?a (kvs_usage kvs)"
    "agree_off ({?q + kv_size..<q + kv_size * n} \<union> taken ?a (kvs_usage kvs)) m2 m3"
    using Cons.IH[OF pre(1-4) Cons.prems(5) holds_adv[OF Cons.prems(6)] rest(1) _ pre(5,6) fit(2)]
      rest(2) unfolding q(1) adv_simps(4) by blast
  have "Suc d \<noteq> GG_MAX_OBJECT_DEPTH" using one(2) by (cases v) (auto simp: GG_MAX_OBJECT_DEPTH_def)
  then have "vmap claim_handlers d p i s (Some a) m
      (Next (s + kvs_count (kv # kvs)) (Some (adv a (kvs_usage (kv # kvs)))) m3)"
    using map_item[of m p ?l i claim_handlers "Some a" "Some a" m ?q "Some (adv a (length k))" m1 d s "s + val_count v" "Some ?a" m2]
      Cons.prems(3-5) m1 m2(1) m3(1) by (simp add: add.assoc kv)
  moreover have "kvs_at m3 ?q [(k, v)] \<and> pairs_refs m3 ?q [(k, v)] \<subseteq> taken a ?u"
    using q(2) Cons.prems(2) fit by (intro pair_stays[OF m2(2,3) m3(4) Cons.prems(6)]) auto
  moreover have "agree_off ({?q..<q + kv_size * n} \<union> taken a (kvs_usage (kv # kvs))) m m3"
    using q(2) by (intro agree_off_trans[OF agree_off_mono[OF m2(4)] agree_off_mono[OF m3(4)]]) (auto simp: kv)
  moreover have "taken a ?u \<union> taken ?a (kvs_usage kvs) = taken a (kvs_usage (kv # kvs))" by (auto simp: kv)
  ultimately show ?case using m3(2,3) by (intro exI[of _ m3]) (auto simp: kv)
qed

lemma claim_map_enter:
  assumes ok: "arena_ok a" and l: "map_len l = length kvs" "kvs_at m (map_pairs l) kvs" "length kvs \<le> 127"
    and p: "{p..<p + obj_size} \<inter> arena_free a = {}" "kvs_foot m (map_pairs l) kvs \<inter> arena_region a = {}"
      "{p..<p + obj_size} \<inter> kvs_foot m (map_pairs l) kvs = {}"
    and into: "gg_obj_into_map (rd m p obj_size) = Some l"
    and fit: "length kvs * kv_size \<le> arena_avail a"
  shows "\<exists>m1 q. claim_map l p (Some a) m = Some (GG_ERR_OK, Some (adv a (length kvs * kv_size)), m1) \<and>
    gg_obj_into_map (rd m1 p obj_size) = Some \<lparr>map_pairs = q, map_len = length kvs\<rparr> \<and> kvs_at m1 q kvs \<and>
    pairs_refs m1 q kvs \<inter> arena_region a = {} \<and> holds (adv a (length kvs * kv_size)) p q (kv_size * length kvs) \<and>
    agree_off ({p..<p + obj_size} \<union> taken a (length kvs * kv_size)) m m1 \<and>
    {q..<q + kv_size * length kvs} \<subseteq> taken a (length kvs * kv_size)"
proof (cases "kvs = []")
  case True
  have obj: "\<exists>x. gg_obj_map \<lparr>map_pairs = NULL, map_len = 0\<rparr> = Some x \<and> length x = obj_size \<and>
      gg_obj_into_map x = Some \<lparr>map_pairs = NULL, map_len = 0\<rparr>"
    using gg_obj_packed(6)[of "\<lparr>map_pairs = NULL, map_len = 0\<rparr>"] into_obj_map[of "\<lparr>map_pairs = NULL, map_len = 0\<rparr>"] by auto
  then obtain x where x: "gg_obj_map \<lparr>map_pairs = NULL, map_len = 0\<rparr> = Some x" "length x = obj_size"
    "gg_obj_into_map x = Some \<lparr>map_pairs = NULL, map_len = 0\<rparr>" by blast
  show ?thesis
  proof (cases "gg_arena_owns (Some a) (map_pairs l)")
    case own: True
    have "l = \<lparr>map_pairs = map_pairs l, map_len = length kvs\<rparr>" using l(1) by simp
    then show ?thesis using True own into p(1)
      by (intro exI[of _ m] exI[of _ "map_pairs l"]) (simp add: claim_map_def holds_def)
  next
    case own: False
    show ?thesis using True own x p(1) l(1)
      by (intro exI[of _ "wr m p x"] exI[of _ NULL])
        (simp add: claim_map_def holds_def rd_wr_same' agree_off_wr)
  qed
next
  case False
  let ?n = "length kvs * kv_size" and ?q = "bump a"
  have "map_pairs l \<in> kvs_foot m (map_pairs l) kvs" using False by (cases kvs) auto
  then have own: "\<not> gg_arena_owns (Some a) (map_pairs l)" using ok p(2) by (metis arena_owns_iff disjoint_iff)
  obtain x where x: "gg_obj_map \<lparr>map_pairs = ?q, map_len = length kvs\<rparr> = Some x" "length x = obj_size"
    "gg_obj_into_map x = Some \<lparr>map_pairs = ?q, map_len = length kvs\<rparr>"
    using gg_obj_packed(6)[of "\<lparr>map_pairs = ?q, map_len = length kvs\<rparr>"] alloc_adv(3)[OF ok] l(3)
      into_obj_map[of "\<lparr>map_pairs = ?q, map_len = length kvs\<rparr>"] by auto
  have refs: "pairs_refs m (map_pairs l) kvs \<inter> arena_region a = {}" "{p..<p + obj_size} \<inter> pairs_refs m (map_pairs l) kvs = {}"
    using p(2,3) unfolding kvs_foot_eq[OF l(2)] by auto
  let ?m1 = "wr (wr m ?q (rd m (map_pairs l) ?n)) p x"
  note c = claim_copy(1-4)[OF ok fit p(1) refs x(2), where m = m and src = "map_pairs l"]
    claim_copy(5)[OF ok fit p(1) refs x(2)]
  have "claim_map l p (Some a) m = Some (GG_ERR_OK, Some (adv a ?n), ?m1)"
    using own l False alloc_adv(1)[OF ok fit] alloc_adv(2)[OF ok] x(1) by (simp add: claim_map_def memcpy_def)
  moreover have "kvs_at ?m1 ?q kvs \<and> pairs_refs ?m1 ?q kvs = pairs_refs m (map_pairs l) kvs"
    using pairs_copy[OF _ c(4) l(2)] c(2) by (simp add: mult.commute)
  ultimately show ?thesis using x(3) c(1,3,5) refs(1)
    by (intro exI[of _ ?m1] exI[of _ ?q]) (simp add: mult.commute)
qed

lemma claims_VMap:
  assumes "\<And>kv. kv \<in> set kvs \<Longrightarrow> claims (snd kv)"
  shows "claims (VMap kvs)"
  unfolding claims_def
proof (intro allI impI)
  fix d p s a m assume *: "arena_ok a" "obj_at m p (VMap kvs)" "{p..<p + obj_size} \<inter> arena_free a = {}"
    "blk_foot m (rd m p obj_size) (VMap kvs) \<inter> arena_region a = {}"
    "{p..<p + obj_size} \<inter> blk_foot m (rd m p obj_size) (VMap kvs) = {}"
    "d + val_depth (VMap kvs) \<le> 15" "s + val_count (VMap kvs) \<le> 255" "val_usage (VMap kvs) \<le> arena_avail a"
  let ?n = "length kvs * kv_size" and ?U = "val_usage (VMap kvs)"
  obtain l where l: "gg_obj_into_map (rd m p obj_size) = Some l" "map_len l = length kvs" "kvs_at m (map_pairs l) kvs"
    using *(2) by (auto split: option.splits)
  have foot: "blk_foot m (rd m p obj_size) (VMap kvs) = kvs_foot m (map_pairs l) kvs" using into_val(3)[OF l(1)] by simp
  have len: "length kvs \<le> 127" "?n \<le> arena_avail a" "kvs_usage kvs \<le> arena_avail (adv a ?n)" using *(7,8) by auto
  obtain m1 q where m1: "claim_map l p (Some a) m = Some (GG_ERR_OK, Some (adv a ?n), m1)"
    "gg_obj_into_map (rd m1 p obj_size) = Some \<lparr>map_pairs = q, map_len = length kvs\<rparr>" "kvs_at m1 q kvs"
    "pairs_refs m1 q kvs \<inter> arena_region a = {}" "holds (adv a ?n) p q (kv_size * length kvs)"
    "agree_off ({p..<p + obj_size} \<union> taken a ?n) m m1" "{q..<q + kv_size * length kvs} \<subseteq> taken a ?n"
    using claim_map_enter[OF *(1) l(2,3) len(1) *(3) *(4)[unfolded foot] *(5)[unfolded foot] l(1) len(2)] by blast
  have pre: "arena_ok (adv a ?n)" "kvs_at m1 (q + kv_size * 0) kvs" "d + kvs_depth kvs < 15"
    "pairs_refs m1 (q + kv_size * 0) kvs \<inter> arena_region (adv a ?n) = {}" "s + 2 * length kvs + kvs_count kvs \<le> 255"
    using * len m1(3,4) by auto
  obtain m2 where m2: "vmap claim_handlers d p 0 (s + 2 * length kvs) (Some (adv a ?n)) m1
      (Next (s + 2 * length kvs + kvs_count kvs) (Some (adv (adv a ?n) (kvs_usage kvs))) m2)" "kvs_at m2 q kvs"
    "pairs_refs m2 q kvs \<subseteq> taken (adv a ?n) (kvs_usage kvs)"
    "agree_off ({q..<q + kv_size * length kvs} \<union> taken (adv a ?n) (kvs_usage kvs)) m1 m2"
    using claims_pairs[OF assms pre(1) m1(2) _ len(1) m1(5) pre(2,4,3,5) len(3)] by auto
  have "u8 (s + u8 (map_len l * 2)) = s + 2 * length kvs" "map_len l \<le> (GG_MAX_OBJECT_SUBOBJECTS - s) div 2"
    using *(7) l(2) by (simp_all add: GG_MAX_OBJECT_SUBOBJECTS_def)
  then have "vobj claim_handlers d p s (Some a) m (Next (s + val_count (VMap kvs)) (Some (adv a ?U)) m2)"
    using map[OF l(1) _ m1(1)[folded claim_calls(3)]] m2(1) by (simp add: add.assoc)
  moreover have rdp: "rd m2 p obj_size = rd m1 p obj_size"
    using holds_off(1)[OF m1(5) m2(4) order_refl order_refl len(3) pre(1)] .
  moreover have "blk_foot m2 (rd m2 p obj_size) (VMap kvs) \<subseteq> taken a ?U"
    using m1(7) m2(3) into_val(3)[OF m1(2)] kvs_foot_eq[OF m2(2)] by (auto simp: rdp)
  moreover have "agree_off ({p..<p + obj_size} \<union> taken a ?U) m m2"
    using m1(7) by (intro agree_off_trans[OF agree_off_mono[OF m1(6)] agree_off_mono[OF m2(4)]]) auto
  ultimately show "\<exists>m'. vobj claim_handlers d p s (Some a) m (Next (s + val_count (VMap kvs)) (Some (adv a ?U)) m') \<and>
      obj_at m' p (VMap kvs) \<and> blk_foot m' (rd m' p obj_size) (VMap kvs) \<subseteq> taken a ?U \<and>
      agree_off ({p..<p + obj_size} \<union> taken a ?U) m m'"
    using m1(2) m2(2) by (intro exI[of _ m2]) auto
qed

lemma claims_all: "claims v"
proof (induction v)
  case (VList vs)
  then show ?case by (rule claims_VList)
next
  case (VMap kvs)
  then show ?case by (intro claims_VMap) (auto simp: snds.intros)
qed (auto intro: claims_scalar claims_buf)

lemma claim_obj_result:
  assumes "arena_ok a" "obj_at m p v" "within_limits v" "val_usage v \<le> arena_avail a"
    "{p..<p + obj_size} \<inter> arena_free a = {}" "blk_foot m (rd m p obj_size) v \<inter> arena_region a = {}"
    "{p..<p + obj_size} \<inter> blk_foot m (rd m p obj_size) v = {}"
  shows "\<exists>m'. gg_arena_claim_obj m p (Some a) = Some (GG_ERR_OK, Some (adv a (val_usage v)), m') \<and>
    obj_at m' p v \<and> blk_foot m' (rd m' p obj_size) v \<subseteq> taken a (val_usage v) \<and>
    agree_off ({p..<p + obj_size} \<union> taken a (val_usage v)) m m'"
proof -
  have lim: "0 + val_depth v \<le> 15" "0 + val_count v \<le> 255"
    using assms(3) by (auto simp: within_limits_def GG_MAX_OBJECT_DEPTH_def GG_MAX_OBJECT_SUBOBJECTS_def)
  from claimsD[OF claims_all assms(1,2,5,6,7) lim assms(4)] show ?thesis
    by (auto simp: gg_arena_claim_obj_def dest!: visit_performs)
qed

section \<open>Properties\<close>

text \<open>C4: Claiming an object into an arena with at least the memory that \<open>gg_obj_mem_usage\<close> reports, for
  an object within the limits whose data lie outside the arena and outside its own bytes, succeeds:
  the object then stands for the same value, refers only to the arena memory just allocated, exactly
  the reported number of bytes has been used, and no other byte of memory has changed.\<close>

theorem gg_arena_claim_obj_copies:
  assumes "arena_ok a" "obj_at m p v" "gg_obj_mem_usage m p = Some (Inr n)" "n \<le> arena_avail a"
    "{p..<p + obj_size} \<inter> arena_free a = {}" "blk_foot m (rd m p obj_size) v \<inter> arena_region a = {}"
    "{p..<p + obj_size} \<inter> blk_foot m (rd m p obj_size) v = {}"
  shows "\<exists>m'. gg_arena_claim_obj m p (Some a) =
      Some (GG_ERR_OK, Some (a\<lparr>arena_index := arena_index a + n\<rparr>), m') \<and>
    obj_at m' p v \<and>
    blk_foot m' (rd m' p obj_size) v \<subseteq> {arena_mem a + arena_index a..<arena_mem a + arena_index a + n} \<and>
    agree_off ({p..<p + obj_size} \<union> {arena_mem a + arena_index a..<arena_mem a + arena_index a + n}) m m'"
proof -
  have "within_limits v" "n = u64 (val_usage v)"
    using mem_usage_result[OF assms(2)] assms(3) by (auto split: if_splits)
  moreover from this have "n = val_usage v" using usage_no_wrap[OF assms(2)] by simp
  ultimately show ?thesis using claim_obj_result[of a m p v] assms by (simp add: adv_def)
qed

theorem gg_arena_claim_obj_copies_witness:
  "\<exists>m'. gg_arena_claim_obj obj_mem 10 (Some \<lparr>arena_mem = 100, arena_capacity = 20, arena_index = 5\<rparr>) =
      Some (GG_ERR_OK, Some \<lparr>arena_mem = 100, arena_capacity = 20, arena_index = 18\<rparr>, m') \<and>
    obj_at m' 10 (VList [VBuf [97, 98]])"
proof -
  have u: "gg_obj_mem_usage obj_mem 10 = Some (Inr 13)"
    using mem_usage_result[OF obj_mem_val] obj_mem_limits by simp
  show ?thesis
    using gg_arena_claim_obj_copies[OF _ obj_mem_val u, of "\<lparr>arena_mem = 100, arena_capacity = 20, arena_index = 5\<rparr>"]
    unfolding obj_mem_foot
    by (fastforce simp: arena_ok_def arena_avail_def arena_free_def arena_region_def int_limits)
qed

end
