(* ===== verification/Client_Ops.thy ===== *)
theory Client_Ops
  imports Client_Calls Base64 Claim
begin

text \<open>
  The operations of the IPC client (\<open>src/ipc/client/\<close>): publishing, subscribing, reading and updating the
  configuration, component state and restart. Each builds the parameters of its request in memory, passes its
  callbacks to \<open>ggipc_call\<close> or \<open>ggipc_subscribe\<close>, and turns the server's answer into its own result.

  An operation runs for a \<open>caller\<close>: its thread, the stack frame of the call below, the stack area of its own
  locals, what happens while it waits, and the addresses of the string literals and of the static base64 buffer.
\<close>

section \<open>Callers, literals and arguments\<close>

record caller =
  ca_tid :: int
  ca_fp :: addr
  ca_sp :: addr
  ca_ws :: "wait_ev list"
  ca_lit :: "bytes \<Rightarrow> addr"
  ca_b64_mem :: addr

definition GG_STR :: "caller \<Rightarrow> string \<Rightarrow> GgBuffer" where
  "GG_STR ca s = \<lparr>buf_data = ca_lit ca (str s), buf_len = length s\<rparr>"

text \<open>A key with a value, as \<open>gg_kv(GG_STR(key), value)\<close>, and an array of pairs on the stack as \<open>GG_MAP\<close> has it.\<close>

definition lit_kv :: "caller \<Rightarrow> string \<Rightarrow> GgObject run \<Rightarrow> GgKV run" where
  "lit_kv ca key val = do { x \<leftarrow> val; gg_kv (GG_STR ca key) x }"

definition GG_MAP :: "addr \<Rightarrow> GgKV list \<Rightarrow> mem \<Rightarrow> mem \<times> GgMap" where
  "GG_MAP sp kvs m = (wr m sp (concat kvs), \<lparr>map_pairs = sp, map_len = length kvs\<rparr>)"

text \<open>Where the locals of the operations are in their stack area: the arguments, the maps inside them, the key
  path and the pair to merge.\<close>

definition args_at :: "caller \<Rightarrow> addr" where "args_at ca = ca_sp ca"
definition inner_at :: "caller \<Rightarrow> addr" where "inner_at ca = ca_sp ca + 128"
definition innermost_at :: "caller \<Rightarrow> addr" where "innermost_at ca = ca_sp ca + 256"
definition path_at :: "caller \<Rightarrow> addr" where "path_at ca = ca_sp ca + 384"
definition pair_at :: "caller \<Rightarrow> addr" where "pair_at ca = ca_sp ca + 640"
definition byte_loc :: "caller \<Rightarrow> addr" where "byte_loc ca = ca_sp ca + 704"

definition call_op ::
    "caller \<Rightarrow> string \<Rightarrow> string \<Rightarrow> GgMap \<Rightarrow> GgIpcResultCallback option \<Rightarrow> GgIpcErrorCallback \<Rightarrow> client \<Rightarrow> (GgError \<times> client) run" where
  "call_op ca operation model args result_callback error_callback cl =
     ggipc_call (ca_tid ca) (ca_fp ca) (ca_ws ca) (str operation) (str model) args result_callback (Some error_callback) NULL cl"

definition subscribe_op ::
    "caller \<Rightarrow> string \<Rightarrow> string \<Rightarrow> GgMap \<Rightarrow> GgIpcErrorCallback \<Rightarrow> GgIpcSubscribeCallback \<Rightarrow> addr \<Rightarrow> bool \<Rightarrow>
     client \<Rightarrow> (GgError \<times> GgIpcSubscriptionHandle option \<times> client) run" where
  "subscribe_op ca operation model args error_callback sub_callback ctx want_handle cl =
     ggipc_subscribe (ca_tid ca) (ca_fp ca) (ca_ws ca)
       \<lparr>rq_operation = str operation, rq_service_model_type = str model, rq_params = args, rq_result_callback = None,
        rq_error_callback = Some error_callback, rq_response_ctx = NULL, rq_sub_callback = Some sub_callback,
        rq_sub_callback_ctx = NULL, rq_sub_callback_aux_ctx = ctx, rq_handle = want_handle\<rparr> cl"

section \<open>Publishing\<close>

definition publish_to_topic_error_handler :: GgIpcErrorCallback where
  "publish_to_topic_error_handler ctx error_code message m =
     (if gg_buffer_eq error_code (str ''UnauthorizedError'') then Some (GG_ERR_UNSUPPORTED, [], m)
      else Some (GG_ERR_FAILURE, [], m))"

definition publish_to_topic_common :: "caller \<Rightarrow> GgBuffer \<Rightarrow> GgMap \<Rightarrow> client \<Rightarrow> (GgError \<times> client) run" where
  "publish_to_topic_common ca topic publish_message cl = do {
     kv1 \<leftarrow> lit_kv ca ''topic'' (gg_obj_buf topic);
     kv2 \<leftarrow> lit_kv ca ''publishMessage'' (gg_obj_map publish_message);
     let (m, args) = GG_MAP (args_at ca) [kv1, kv2] (cl_mem cl);
     call_op ca ''aws.greengrass#PublishToTopic'' ''aws.greengrass#PublishToTopicRequest'' args None
       publish_to_topic_error_handler (cl\<lparr>cl_mem := m\<rparr>)
   }"

definition ggipc_publish_to_topic_json :: "caller \<Rightarrow> GgBuffer \<Rightarrow> GgMap \<Rightarrow> client \<Rightarrow> (GgError \<times> client) run" where
  "ggipc_publish_to_topic_json ca topic payload cl = do {
     kv \<leftarrow> lit_kv ca ''message'' (gg_obj_map payload);
     let (m, json_message) = GG_MAP (innermost_at ca) [kv] (cl_mem cl);
     kv \<leftarrow> lit_kv ca ''jsonMessage'' (gg_obj_map json_message);
     let (m, publish_message) = GG_MAP (inner_at ca) [kv] m;
     publish_to_topic_common ca topic publish_message (cl\<lparr>cl_mem := m\<rparr>)
   }"

definition ggipc_publish_to_topic_binary_b64 :: "caller \<Rightarrow> GgBuffer \<Rightarrow> GgBuffer \<Rightarrow> client \<Rightarrow> (GgError \<times> client) run" where
  "ggipc_publish_to_topic_binary_b64 ca topic b64_payload cl = do {
     kv \<leftarrow> lit_kv ca ''message'' (gg_obj_buf b64_payload);
     let (m, binary_message) = GG_MAP (innermost_at ca) [kv] (cl_mem cl);
     kv \<leftarrow> lit_kv ca ''binaryMessage'' (gg_obj_map binary_message);
     let (m, publish_message) = GG_MAP (inner_at ca) [kv] m;
     publish_to_topic_common ca topic publish_message (cl\<lparr>cl_mem := m\<rparr>)
   }"

text \<open>The payload is encoded into the static buffer, whose mutex is held through the call.\<close>

definition b64_arena :: "caller \<Rightarrow> GgArena" where
  "b64_arena ca = gg_arena_init \<lparr>buf_data = ca_b64_mem ca, buf_len = GG_IPC_MAX_MSG_LEN\<rparr>"

definition ggipc_publish_to_topic_binary :: "caller \<Rightarrow> GgBuffer \<Rightarrow> GgBuffer \<Rightarrow> client \<Rightarrow> (GgError \<times> client) run" where
  "ggipc_publish_to_topic_binary ca topic payload cl = do {
     (ret, _, m) \<leftarrow> gg_base64_encode (cl_mem cl) payload (Some (b64_arena ca));
     case ret of
       Inl e \<Rightarrow> Some (e, cl\<lparr>cl_mem := m\<rparr>)
     | Inr b64_payload \<Rightarrow> ggipc_publish_to_topic_binary_b64 ca topic b64_payload (cl\<lparr>cl_mem := m\<rparr>)
   }"

definition publish_to_iot_core_error_handler :: GgIpcErrorCallback where
  "publish_to_iot_core_error_handler ctx error_code message m =
     (if gg_buffer_eq error_code (str ''UnauthorizedError'') then Some (GG_ERR_UNSUPPORTED, [], m)
      else Some (GG_ERR_FAILURE, [], m))"

text \<open>The quality of service is one character; \<open>qos + '0'\<close> is computed in a byte.\<close>

definition ggipc_publish_to_iot_core_b64 :: "caller \<Rightarrow> GgBuffer \<Rightarrow> GgBuffer \<Rightarrow> byte \<Rightarrow> client \<Rightarrow> (GgError \<times> client) run" where
  "ggipc_publish_to_iot_core_b64 ca topic_name b64_payload qos cl = do {
     let m = wr (cl_mem cl) (byte_loc ca) [qos + chr CHR ''0''];
     let qos_buffer = \<lparr>buf_data = byte_loc ca, buf_len = 1\<rparr>;
     kv1 \<leftarrow> lit_kv ca ''topicName'' (gg_obj_buf topic_name);
     kv2 \<leftarrow> lit_kv ca ''payload'' (gg_obj_buf b64_payload);
     kv3 \<leftarrow> lit_kv ca ''qos'' (gg_obj_buf qos_buffer);
     let (m, args) = GG_MAP (args_at ca) [kv1, kv2, kv3] m;
     call_op ca ''aws.greengrass#PublishToIoTCore'' ''aws.greengrass#PublishToIoTCoreRequest'' args None
       publish_to_iot_core_error_handler (cl\<lparr>cl_mem := m\<rparr>)
   }"

definition ggipc_publish_to_iot_core :: "caller \<Rightarrow> GgBuffer \<Rightarrow> GgBuffer \<Rightarrow> byte \<Rightarrow> client \<Rightarrow> (GgError \<times> client) run" where
  "ggipc_publish_to_iot_core ca topic_name payload qos cl = do {
     (ret, _, m) \<leftarrow> gg_base64_encode (cl_mem cl) payload (Some (b64_arena ca));
     case ret of
       Inl e \<Rightarrow> Some (e, cl\<lparr>cl_mem := m\<rparr>)
     | Inr b64_payload \<Rightarrow> ggipc_publish_to_iot_core_b64 ca topic_name b64_payload qos (cl\<lparr>cl_mem := m\<rparr>)
   }"

section \<open>Component state and restart\<close>

definition update_state_error_handler :: GgIpcErrorCallback where
  "update_state_error_handler ctx error_code message m = Some (GG_ERR_FAILURE, [], m)"

text \<open>The enum is an int in C; a value other than the two constants takes the default branch.\<close>

definition GG_COMPONENT_STATE_RUNNING :: int where "GG_COMPONENT_STATE_RUNNING = 0"
definition GG_COMPONENT_STATE_ERRORED :: int where "GG_COMPONENT_STATE_ERRORED = 1"

definition ggipc_update_state :: "caller \<Rightarrow> int \<Rightarrow> client \<Rightarrow> (GgError \<times> client) run" where
  "ggipc_update_state ca state cl =
     (let state_str = (if state = GG_COMPONENT_STATE_RUNNING then Some (GG_STR ca ''RUNNING'')
                       else if state = GG_COMPONENT_STATE_ERRORED then Some (GG_STR ca ''ERRORED'') else None) in
      case state_str of
        None \<Rightarrow> Some (GG_ERR_INVALID, cl)
      | Some state_str \<Rightarrow> do {
          kv \<leftarrow> lit_kv ca ''state'' (gg_obj_buf state_str);
          let (m, args) = GG_MAP (args_at ca) [kv] (cl_mem cl);
          call_op ca ''aws.greengrass#UpdateState'' ''aws.greengrass#UpdateStateRequest'' args None
            update_state_error_handler (cl\<lparr>cl_mem := m\<rparr>)
        })"

definition restart_component_error_handler :: GgIpcErrorCallback where
  "restart_component_error_handler ctx error_code message m = Some (GG_ERR_FAILURE, [], m)"

text \<open>A schema entry whose value is stored for the caller.\<close>

definition entry :: "string \<Rightarrow> GgPresence \<Rightarrow> GgObjectType \<Rightarrow> GgMapSchemaEntry" where
  "entry key presence type = \<lparr>sch_key = str key, sch_required = presence, sch_type = type, sch_value = True\<rparr>"

text \<open>The pointer stored by entry \<open>i\<close> of a schema.\<close>

definition stored :: "addr option list \<Rightarrow> nat \<Rightarrow> addr run" where
  "stored outs i = (if i < length outs then outs ! i else None)"

definition restart_component_response_handler :: GgIpcResultCallback where
  "restart_component_response_handler ctx response m = do {
     (ret, outs) \<leftarrow> gg_map_validate m response [entry ''restartStatus'' GG_PRESENCE_REQUIRED GG_TYPE_BUF];
     if ret \<noteq> GG_ERR_OK then Some (GG_ERR_FAILURE, [], m)
     else do {
       restart_status_obj \<leftarrow> stored outs 0;
       restart_status \<leftarrow> gg_obj_into_buf (rd m restart_status_obj obj_size);
       if gg_buffer_eq (contents m restart_status) (str ''FAILED'') then Some (GG_ERR_FAILURE, [], m)
       else Some (GG_ERR_OK, [], m)
     }
   }"

definition ggipc_restart_component :: "caller \<Rightarrow> GgBuffer \<Rightarrow> client \<Rightarrow> (GgError \<times> client) run" where
  "ggipc_restart_component ca component_name cl = do {
     kv \<leftarrow> lit_kv ca ''componentName'' (gg_obj_buf component_name);
     let (m, args) = GG_MAP (args_at ca) [kv] (cl_mem cl);
     call_op ca ''aws.greengrass#RestartComponent'' ''aws.greengrass#RestartComponentRequest'' args
       (Some restart_component_response_handler) restart_component_error_handler (cl\<lparr>cl_mem := m\<rparr>)
   }"

section \<open>Configuration\<close>

text \<open>The key path as a list object: each key is pushed on a vector of \<open>GG_MAX_OBJECT_DEPTH - 1\<close> objects.\<close>

fun push_path :: "GgError \<Rightarrow> mem \<Rightarrow> GgObjVec \<Rightarrow> GgBuffer list \<Rightarrow> (GgError \<times> GgObjVec \<times> mem) run" where
  "push_path ret m vec [] = Some (ret, vec, m)"
| "push_path ret m vec (key # keys) = do {
     x \<leftarrow> gg_obj_buf key;
     let (ret, vec, m) = gg_obj_vec_chain_push ret m vec x;
     push_path ret m vec keys
   }"

definition path_vec :: "caller \<Rightarrow> GgObjVec" where
  "path_vec ca = \<lparr>ov_list = \<lparr>list_items = path_at ca, list_len = 0\<rparr>, ov_capacity = GG_MAX_OBJECT_DEPTH - 1\<rparr>"

definition args_vec :: "caller \<Rightarrow> GgKVVec" where
  "args_vec ca = \<lparr>kvv_map = \<lparr>map_pairs = args_at ca, map_len = 0\<rparr>, kvv_capacity = 2\<rparr>"

text \<open>The optional component name.\<close>

definition push_component :: "caller \<Rightarrow> GgBuffer option \<Rightarrow> mem \<Rightarrow> GgKVVec \<Rightarrow> (GgKVVec \<times> mem) run" where
  "push_component ca component_name m args =
     (case component_name of
        None \<Rightarrow> Some (args, m)
      | Some name \<Rightarrow> do {
          kv \<leftarrow> lit_kv ca ''componentName'' (gg_obj_buf name);
          let (_, args, m) = gg_kv_vec_push m args kv;
          Some (args, m)
        })"

definition get_config_error_handler :: GgIpcErrorCallback where
  "get_config_error_handler ctx error_code message m =
     (if gg_buffer_eq error_code (str ''ResourceNotFoundError'') then Some (GG_ERR_NOENTRY, [], m)
      else Some (GG_ERR_FAILURE, [], m))"

definition ggipc_get_config_common ::
    "caller \<Rightarrow> GgBuffer list \<Rightarrow> GgBuffer option \<Rightarrow> GgIpcResultCallback \<Rightarrow> client \<Rightarrow> (GgError \<times> client) run" where
  "ggipc_get_config_common ca key_path component_name result_callback cl = do {
     (ret, path, m) \<leftarrow> push_path GG_ERR_OK (cl_mem cl) (path_vec ca) key_path;
     if ret \<noteq> GG_ERR_OK then Some (GG_ERR_NOMEM, cl\<lparr>cl_mem := m\<rparr>)
     else do {
       kv \<leftarrow> lit_kv ca ''keyPath'' (gg_obj_list (ov_list path));
       let (_, args, m) = gg_kv_vec_push m (args_vec ca) kv;
       (args, m) \<leftarrow> push_component ca component_name m args;
       call_op ca ''aws.greengrass#GetConfiguration'' ''aws.greengrass#GetConfigurationRequest'' (kvv_map args)
         (Some result_callback) get_config_error_handler (cl\<lparr>cl_mem := m\<rparr>)
     }
   }"

text \<open>The value in a response, unwrapped when it is the single entry of the last key and not a map itself.\<close>

definition get_resp_value :: "mem \<Rightarrow> GgMap \<Rightarrow> GgBuffer option \<Rightarrow> addr res run" where
  "get_resp_value m resp final_key = do {
     (ret, outs) \<leftarrow> gg_map_validate m resp [entry ''value'' GG_PRESENCE_REQUIRED GG_TYPE_MAP];
     if ret \<noteq> GG_ERR_OK then Some (Inl GG_ERR_INVALID)
     else do {
       val \<leftarrow> stored outs 0;
       mp \<leftarrow> gg_obj_into_map (rd m val obj_size);
       case final_key of
         None \<Rightarrow> Some (Inr val)
       | Some key \<Rightarrow>
           if map_len mp = 1 \<and> gg_buffer_eq (pair_key m (map_pairs mp)) (contents m key) then do {
             t \<leftarrow> gg_obj_type (rd m (gg_kv_val (map_pairs mp)) obj_size);
             Some (Inr (if t \<noteq> GG_TYPE_MAP then gg_kv_val (map_pairs mp) else val))
           }
           else Some (Inr val)
     }
   }"

text \<open>The structures of the caller that the callbacks write: an arena and a buffer in memory.\<close>

definition arena_in :: "mem \<Rightarrow> addr \<Rightarrow> GgArena" where
  "arena_in m p = \<lparr>arena_mem = le_val (rd m p 8), arena_capacity = le_val (rd m (p + 8) 4), arena_index = le_val (rd m (p + 12) 4)\<rparr>"

definition put_arena :: "mem \<Rightarrow> addr \<Rightarrow> GgArena \<Rightarrow> mem" where
  "put_arena m p a = wr m p (le_bytes 8 (arena_mem a) @ le_bytes 4 (arena_capacity a) @ le_bytes 4 (arena_index a))"

definition buffer_in :: "mem \<Rightarrow> addr \<Rightarrow> GgBuffer" where
  "buffer_in m p = \<lparr>buf_data = le_val (rd m p 8), buf_len = le_val (rd m (p + 8) 8)\<rparr>"

definition put_buffer :: "mem \<Rightarrow> addr \<Rightarrow> GgBuffer \<Rightarrow> mem" where
  "put_buffer m p b = wr m p (le_bytes 8 (buf_data b) @ le_bytes 8 (buf_len b))"

definition copy_config_obj :: "addr \<Rightarrow> addr \<Rightarrow> GgBuffer option \<Rightarrow> GgIpcResultCallback" where
  "copy_config_obj value_out alloc final_key ctx result m = do {
     ret \<leftarrow> get_resp_value m result final_key;
     case ret of
       Inl _ \<Rightarrow> Some (GG_ERR_INVALID, [], m)
     | Inr val \<Rightarrow>
         if value_out \<noteq> NULL then do {
           (ret, arena, m) \<leftarrow> gg_arena_claim_obj m val (if alloc = NULL then None else Some (arena_in m alloc));
           let m = (case arena of None \<Rightarrow> m | Some a \<Rightarrow> put_arena m alloc a);
           if ret \<noteq> GG_ERR_OK then Some (ret, [], m)
           else Some (GG_ERR_OK, [], wr m value_out (rd m val obj_size))
         }
         else Some (GG_ERR_OK, [], m)
   }"

text \<open>The last key of the path.\<close>

definition last_key :: "GgBuffer list \<Rightarrow> GgBuffer option" where
  "last_key key_path = (if key_path = [] then None else Some (last key_path))"

definition ggipc_get_config ::
    "caller \<Rightarrow> GgBuffer list \<Rightarrow> GgBuffer option \<Rightarrow> addr \<Rightarrow> addr \<Rightarrow> client \<Rightarrow> (GgError \<times> client) run" where
  "ggipc_get_config ca key_path component_name alloc value_out cl =
     (let cl = (if value_out \<noteq> NULL then cl\<lparr>cl_mem := wr (cl_mem cl) value_out GG_OBJ_NULL\<rparr> else cl) in
      ggipc_get_config_common ca key_path component_name
        (copy_config_obj value_out alloc (last_key key_path)) cl)"

definition copy_config_buf :: "addr \<Rightarrow> GgBuffer option \<Rightarrow> GgIpcResultCallback" where
  "copy_config_buf value_out final_key ctx result m = do {
     ret \<leftarrow> get_resp_value m result final_key;
     case ret of
       Inl _ \<Rightarrow> Some (GG_ERR_INVALID, [], m)
     | Inr val \<Rightarrow> do {
         t \<leftarrow> gg_obj_type (rd m val obj_size);
         if t \<noteq> GG_TYPE_BUF then Some (GG_ERR_FAILURE, [], m)
         else if value_out \<noteq> NULL then do {
           value_buf \<leftarrow> gg_obj_into_buf (rd m val obj_size);
           (ret, value_buf, _, m) \<leftarrow> gg_arena_claim_buf m value_buf (Some (gg_arena_init (buffer_in m value_out)));
           if ret \<noteq> GG_ERR_OK then Some (ret, [], m)
           else Some (GG_ERR_OK, [], put_buffer m value_out value_buf)
         }
         else Some (GG_ERR_OK, [], m)
       }
   }"

definition ggipc_get_config_str ::
    "caller \<Rightarrow> GgBuffer list \<Rightarrow> GgBuffer option \<Rightarrow> addr \<Rightarrow> client \<Rightarrow> (GgError \<times> client) run" where
  "ggipc_get_config_str ca key_path component_name value_out cl = do {
     (ret, cl) \<leftarrow> ggipc_get_config_common ca key_path component_name
       (copy_config_buf value_out (last_key key_path)) cl;
     let cl = (if ret \<noteq> GG_ERR_OK \<and> value_out \<noteq> NULL
               then cl\<lparr>cl_mem := put_buffer (cl_mem cl) value_out (GG_STR ca [])\<rparr> else cl);
     Some (ret, cl)
   }"

definition update_config_error_handler :: GgIpcErrorCallback where
  "update_config_error_handler ctx error_code message m = Some (GG_ERR_FAILURE, [], m)"

text \<open>Arithmetic of nonnegative doubles: the exact result, rounded to nearest.\<close>

definition f64_of_nat :: "nat \<Rightarrow> 64 word" where
  "f64_of_nat n = fst (nearest_f64 n 1)"

definition f64_mult :: "64 word \<Rightarrow> 64 word \<Rightarrow> 64 word" where
  "f64_mult x y = (case (f64_fraction x, f64_fraction y) of ((a, b), (c, d)) \<Rightarrow> fst (nearest_f64 (a * c) (b * d)))"

definition f64_plus :: "64 word \<Rightarrow> 64 word \<Rightarrow> 64 word" where
  "f64_plus x y = (case (f64_fraction x, f64_fraction y) of ((a, b), (c, d)) \<Rightarrow> fst (nearest_f64 (a * d + c * b) (b * d)))"

definition timestamp_f64 :: "(int \<times> int) option \<Rightarrow> 64 word" where
  "timestamp_f64 timestamp =
     (case timestamp of
        None \<Rightarrow> 0
      | Some (tv_sec, tv_nsec) \<Rightarrow>
          f64_plus (f64_of_nat (nat tv_sec)) (f64_mult (f64_of_nat (nat tv_nsec)) (fst (nearest_f64 1 1000000000))))"

definition ggipc_update_config ::
    "caller \<Rightarrow> GgBuffer list \<Rightarrow> (int \<times> int) option \<Rightarrow> GgObject \<Rightarrow> client \<Rightarrow> (GgError \<times> client) run" where
  "ggipc_update_config ca key_path timestamp value_to_merge cl =
     (if (case timestamp of None \<Rightarrow> False | Some (tv_sec, tv_nsec) \<Rightarrow> tv_sec < 0 \<or> tv_nsec < 0) then Some (GG_ERR_UNSUPPORTED, cl)
      else do {
        t \<leftarrow> gg_obj_type value_to_merge;
        if t \<noteq> GG_TYPE_MAP \<and> key_path = [] then Some (GG_ERR_INVALID, cl)
        else do {
          (value_to_merge, key_path, m) \<leftarrow>
            (if t \<noteq> GG_TYPE_MAP then do {
               pair_to_merge \<leftarrow> gg_kv (last key_path) value_to_merge;
               obj \<leftarrow> gg_obj_map \<lparr>map_pairs = pair_at ca, map_len = 1\<rparr>;
               Some (obj, butlast key_path, wr (cl_mem cl) (pair_at ca) pair_to_merge)
             }
             else Some (value_to_merge, key_path, cl_mem cl));
          (ret, path, m) \<leftarrow> push_path GG_ERR_OK m (path_vec ca) key_path;
          if ret \<noteq> GG_ERR_OK then Some (GG_ERR_NOMEM, cl\<lparr>cl_mem := m\<rparr>)
          else do {
            kv1 \<leftarrow> lit_kv ca ''keyPath'' (gg_obj_list (ov_list path));
            kv2 \<leftarrow> lit_kv ca ''timestamp'' (Some (gg_obj_f64 (timestamp_f64 timestamp)));
            kv3 \<leftarrow> lit_kv ca ''valueToMerge'' (Some value_to_merge);
            let (m, args) = GG_MAP (args_at ca) [kv1, kv2, kv3] m;
            call_op ca ''aws.greengrass#UpdateConfiguration'' ''aws.greengrass#UpdateConfigurationRequest'' args None
              update_config_error_handler (cl\<lparr>cl_mem := m\<rparr>)
          }
        }
      })"

section \<open>Subscriptions\<close>

text \<open>The callbacks of the user: they return nothing, and may close subscriptions and change memory.\<close>

type_synonym user_effect = "(GgIpcSubscriptionHandle list \<times> mem) run"
type_synonym GgIpcSubscribeToTopicCallback = "addr \<Rightarrow> bytes \<Rightarrow> GgObject \<Rightarrow> GgIpcSubscriptionHandle \<Rightarrow> mem \<Rightarrow> user_effect"
type_synonym GgIpcSubscribeToIotCoreCallback = "addr \<Rightarrow> bytes \<Rightarrow> GgBuffer \<Rightarrow> GgIpcSubscriptionHandle \<Rightarrow> mem \<Rightarrow> user_effect"
type_synonym GgIpcSubscribeToConfigurationUpdateCallback =
  "addr \<Rightarrow> bytes \<Rightarrow> GgList \<Rightarrow> GgIpcSubscriptionHandle \<Rightarrow> mem \<Rightarrow> user_effect"

definition after_user :: "user_effect \<Rightarrow> cb_result" where
  "after_user r = map_option (\<lambda>(hs, m). (GG_ERR_OK, hs, m)) r"

text \<open>The part of the handler that finds the payload and the topic in the message: first in the message of one of the
  two kinds, then in the whole.\<close>

definition message_parts :: "mem \<Rightarrow> bool \<Rightarrow> GgMap \<Rightarrow> (bool \<times> addr \<times> addr) res run" where
  "message_parts m is_json message = do {
     (ret, outs) \<leftarrow> gg_map_validate m message
       [entry ''message'' GG_PRESENCE_REQUIRED (if is_json then GG_TYPE_MAP else GG_TYPE_BUF),
        entry ''context'' GG_PRESENCE_REQUIRED GG_TYPE_MAP];
     if ret \<noteq> GG_ERR_OK then Some (Inl GG_ERR_INVALID)
     else do {
       message_obj \<leftarrow> stored outs 0;
       context_obj \<leftarrow> stored outs 1;
       context_map \<leftarrow> gg_obj_into_map (rd m context_obj obj_size);
       (ret, outs) \<leftarrow> gg_map_validate m context_map [entry ''topic'' GG_PRESENCE_REQUIRED GG_TYPE_BUF];
       if ret \<noteq> GG_ERR_OK then Some (Inl GG_ERR_INVALID)
       else do { topic_obj \<leftarrow> stored outs 0; Some (Inr (is_json, message_obj, topic_obj)) }
     }
   }"

definition topic_message :: "mem \<Rightarrow> GgMap \<Rightarrow> (bool \<times> addr \<times> addr) res run" where
  "topic_message m data = do {
     (ret, outs) \<leftarrow> gg_map_validate m data
       [entry ''jsonMessage'' GG_PRESENCE_OPTIONAL GG_TYPE_MAP, entry ''binaryMessage'' GG_PRESENCE_OPTIONAL GG_TYPE_MAP];
     if ret \<noteq> GG_ERR_OK then Some (Inl GG_ERR_INVALID)
     else do {
       json_message_obj \<leftarrow> stored outs 0;
       binary_message_obj \<leftarrow> stored outs 1;
       if (json_message_obj = NULL) = (binary_message_obj = NULL) then Some (Inl GG_ERR_INVALID)
       else do {
         let is_json = (json_message_obj \<noteq> NULL);
         message \<leftarrow> gg_obj_into_map (rd m (if is_json then json_message_obj else binary_message_obj) obj_size);
         message_parts m is_json message
       }
     }
   }"

definition subscribe_to_topic_resp_handler :: "GgIpcSubscribeToTopicCallback \<Rightarrow> GgIpcSubscribeCallback" where
  "subscribe_to_topic_resp_handler callback ctx aux_ctx handle service_model_type data m =
     (if \<not> gg_buffer_eq service_model_type (str ''aws.greengrass#SubscriptionResponseMessage'') then Some (GG_ERR_INVALID, [], m)
      else do {
        ret \<leftarrow> topic_message m data;
        case ret of
          Inl e \<Rightarrow> Some (e, [], m)
        | Inr (is_json, message_obj, topic_obj) \<Rightarrow> do {
            topic \<leftarrow> gg_obj_into_buf (rd m topic_obj obj_size);
            if is_json then after_user (callback aux_ctx (contents m topic) (rd m message_obj obj_size) handle m)
            else do {
              payload_buf \<leftarrow> gg_obj_into_buf (rd m message_obj obj_size);
              case gg_base64_decode_in_place m payload_buf of (ok, payload_buf, m) \<Rightarrow>
                if \<not> ok then Some (GG_ERR_INVALID, [], m)
                else do {
                  payload \<leftarrow> gg_obj_buf payload_buf;
                  after_user (callback aux_ctx (contents m topic) payload handle m)
                }
            }
          }
      })"

definition subscribe_to_topic_error_handler :: GgIpcErrorCallback where
  "subscribe_to_topic_error_handler ctx error_code message m =
     (if gg_buffer_eq error_code (str ''UnauthorizedError'') then Some (GG_ERR_UNSUPPORTED, [], m)
      else Some (GG_ERR_FAILURE, [], m))"

definition ggipc_subscribe_to_topic ::
    "caller \<Rightarrow> GgBuffer \<Rightarrow> GgIpcSubscribeToTopicCallback \<Rightarrow> addr \<Rightarrow> bool \<Rightarrow> client \<Rightarrow>
     (GgError \<times> GgIpcSubscriptionHandle option \<times> client) run" where
  "ggipc_subscribe_to_topic ca topic callback ctx want_handle cl = do {
     kv \<leftarrow> lit_kv ca ''topic'' (gg_obj_buf topic);
     let (m, args) = GG_MAP (args_at ca) [kv] (cl_mem cl);
     subscribe_op ca ''aws.greengrass#SubscribeToTopic'' ''aws.greengrass#SubscribeToTopicRequest'' args
       subscribe_to_topic_error_handler (subscribe_to_topic_resp_handler callback) ctx want_handle (cl\<lparr>cl_mem := m\<rparr>)
   }"

definition subscribe_to_iot_core_resp_handler :: "GgIpcSubscribeToIotCoreCallback \<Rightarrow> GgIpcSubscribeCallback" where
  "subscribe_to_iot_core_resp_handler callback ctx aux_ctx handle service_model_type data m =
     (if \<not> gg_buffer_eq service_model_type (str ''aws.greengrass#IoTCoreMessage'') then Some (GG_ERR_INVALID, [], m)
      else do {
        (ret, outs) \<leftarrow> gg_map_validate m data [entry ''message'' GG_PRESENCE_REQUIRED GG_TYPE_MAP];
        if ret \<noteq> GG_ERR_OK then Some (GG_ERR_INVALID, [], m)
        else do {
          message_obj \<leftarrow> stored outs 0;
          message \<leftarrow> gg_obj_into_map (rd m message_obj obj_size);
          (ret, outs) \<leftarrow> gg_map_validate m message
            [entry ''topicName'' GG_PRESENCE_REQUIRED GG_TYPE_BUF, entry ''payload'' GG_PRESENCE_REQUIRED GG_TYPE_BUF];
          if ret \<noteq> GG_ERR_OK then Some (GG_ERR_INVALID, [], m)
          else do {
            topic_obj \<leftarrow> stored outs 0;
            payload_obj \<leftarrow> stored outs 1;
            topic \<leftarrow> gg_obj_into_buf (rd m topic_obj obj_size);
            payload \<leftarrow> gg_obj_into_buf (rd m payload_obj obj_size);
            case gg_base64_decode_in_place m payload of (ok, payload, m) \<Rightarrow>
              if \<not> ok then Some (GG_ERR_INVALID, [], m)
              else after_user (callback aux_ctx (contents m topic) payload handle m)
          }
        }
      })"

definition subscribe_to_iot_core_error_handler :: GgIpcErrorCallback where
  "subscribe_to_iot_core_error_handler ctx error_code message m =
     (if gg_buffer_eq error_code (str ''UnauthorizedError'') then Some (GG_ERR_UNSUPPORTED, [], m)
      else Some (GG_ERR_FAILURE, [], m))"

definition ggipc_subscribe_to_iot_core ::
    "caller \<Rightarrow> GgBuffer \<Rightarrow> byte \<Rightarrow> GgIpcSubscribeToIotCoreCallback \<Rightarrow> addr \<Rightarrow> bool \<Rightarrow> client \<Rightarrow>
     (GgError \<times> GgIpcSubscriptionHandle option \<times> client) run" where
  "ggipc_subscribe_to_iot_core ca topic_filter qos callback ctx want_handle cl =
     (if qos > 2 then Some (GG_ERR_INVALID, None, cl)
      else do {
        let m = wr (cl_mem cl) (byte_loc ca) [qos + chr CHR ''0''];
        let qos_buffer = \<lparr>buf_data = byte_loc ca, buf_len = 1\<rparr>;
        kv1 \<leftarrow> lit_kv ca ''topicName'' (gg_obj_buf topic_filter);
        kv2 \<leftarrow> lit_kv ca ''qos'' (gg_obj_buf qos_buffer);
        let (m, args) = GG_MAP (args_at ca) [kv1, kv2] m;
        subscribe_op ca ''aws.greengrass#SubscribeToIoTCore'' ''aws.greengrass#SubscribeToIoTCoreRequest'' args
          subscribe_to_iot_core_error_handler (subscribe_to_iot_core_resp_handler callback) ctx want_handle (cl\<lparr>cl_mem := m\<rparr>)
      })"

definition subscribe_to_configuration_update_resp_handler ::
    "GgIpcSubscribeToConfigurationUpdateCallback \<Rightarrow> GgIpcSubscribeCallback" where
  "subscribe_to_configuration_update_resp_handler callback ctx aux_ctx handle service_model_type data m =
     (if \<not> gg_buffer_eq service_model_type (str ''aws.greengrass#ConfigurationUpdateEvents'') then Some (GG_ERR_INVALID, [], m)
      else do {
        (ret, outs) \<leftarrow> gg_map_validate m data [entry ''configurationUpdateEvent'' GG_PRESENCE_REQUIRED GG_TYPE_MAP];
        if ret \<noteq> GG_ERR_OK then Some (GG_ERR_INVALID, [], m)
        else do {
          event_obj \<leftarrow> stored outs 0;
          event \<leftarrow> gg_obj_into_map (rd m event_obj obj_size);
          (ret, outs) \<leftarrow> gg_map_validate m event
            [entry ''componentName'' GG_PRESENCE_REQUIRED GG_TYPE_BUF, entry ''keyPath'' GG_PRESENCE_REQUIRED GG_TYPE_LIST];
          if ret \<noteq> GG_ERR_OK then Some (GG_ERR_INVALID, [], m)
          else do {
            component_name_obj \<leftarrow> stored outs 0;
            key_path_obj \<leftarrow> stored outs 1;
            component_name \<leftarrow> gg_obj_into_buf (rd m component_name_obj obj_size);
            key_path \<leftarrow> gg_obj_into_list (rd m key_path_obj obj_size);
            ret \<leftarrow> gg_list_type_check m (list_items key_path) (list_len key_path) GG_TYPE_BUF;
            if ret \<noteq> GG_ERR_OK then Some (GG_ERR_INVALID, [], m)
            else after_user (callback aux_ctx (contents m component_name) key_path handle m)
          }
        }
      })"

definition subscribe_to_configuration_update_error_handler :: GgIpcErrorCallback where
  "subscribe_to_configuration_update_error_handler ctx error_code message m =
     (if gg_buffer_eq error_code (str ''ServiceError'') then Some (GG_ERR_INVALID, [], m)
      else if gg_buffer_eq error_code (str ''ResourceNotFoundError'') then Some (GG_ERR_NOENTRY, [], m)
      else Some (GG_ERR_FAILURE, [], m))"

definition ggipc_subscribe_to_configuration_update ::
    "caller \<Rightarrow> GgBuffer option \<Rightarrow> GgBuffer list \<Rightarrow> GgIpcSubscribeToConfigurationUpdateCallback \<Rightarrow> addr \<Rightarrow> bool \<Rightarrow> client \<Rightarrow>
     (GgError \<times> GgIpcSubscriptionHandle option \<times> client) run" where
  "ggipc_subscribe_to_configuration_update ca component_name key_path callback ctx want_handle cl = do {
     (args, m) \<leftarrow> push_component ca component_name (cl_mem cl) (args_vec ca);
     (ret, path, m) \<leftarrow> push_path GG_ERR_OK m (path_vec ca) key_path;
     if ret \<noteq> GG_ERR_OK then Some (GG_ERR_NOMEM, None, cl\<lparr>cl_mem := m\<rparr>)
     else do {
       kv \<leftarrow> lit_kv ca ''keyPath'' (gg_obj_list (ov_list path));
       let (_, args, m) = gg_kv_vec_push m args kv;
       subscribe_op ca ''aws.greengrass#SubscribeToConfigurationUpdate'' ''aws.greengrass#SubscribeToConfigurationUpdateRequest''
         (kvv_map args) subscribe_to_configuration_update_error_handler (subscribe_to_configuration_update_resp_handler callback)
         ctx want_handle (cl\<lparr>cl_mem := m\<rparr>)
     }
   }"

section \<open>Connecting with a token\<close>

definition ggipc_connect_with_token ::
    "caller \<Rightarrow> (EventStreamHeaderIter \<Rightarrow> GgError) \<Rightarrow> bytes \<Rightarrow> GgBuffer \<Rightarrow> client \<Rightarrow> (GgError \<times> client) run" where
  "ggipc_connect_with_token ca extra socket_path auth_token cl = do {
     kv \<leftarrow> lit_kv ca ''authToken'' (gg_obj_buf auth_token);
     let (m, args) = GG_MAP (args_at ca) [kv] (cl_mem cl);
     payload \<leftarrow> gg_obj_map args;
     ggipc_connect_with_payload extra socket_path (ca_fp ca) (cl\<lparr>cl_mem := wr m (ca_fp ca) payload\<rparr>)
   }"

text \<open>\<open>getenv\<close> gives the address of a variable's value, or NULL.\<close>

definition ggipc_connect ::
    "caller \<Rightarrow> (EventStreamHeaderIter \<Rightarrow> GgError) \<Rightarrow> (string \<Rightarrow> addr) \<Rightarrow> client \<Rightarrow> (GgError \<times> client) run" where
  "ggipc_connect ca extra getenv cl =
     (let svcuid = getenv ''SVCUID'' in
      if svcuid = NULL then Some (GG_ERR_CONFIG, cl)
      else let socket_path = getenv ''AWS_GG_NUCLEUS_DOMAIN_SOCKET_FILEPATH_FOR_COMPONENT'' in
        if socket_path = NULL then Some (GG_ERR_CONFIG, cl)
        else do {
          path \<leftarrow> gg_buffer_from_null_term (cl_mem cl) socket_path;
          token \<leftarrow> gg_buffer_from_null_term (cl_mem cl) svcuid;
          ggipc_connect_with_token ca extra (contents (cl_mem cl) path) token cl
        })"

end
