(* ===== verification/Ops_Args.thy ===== *)
theory Ops_Args
  imports Client_Ops
begin

text \<open>
  The parameters an operation builds in memory (\<open>GG_MAP\<close>, \<open>gg_kv\<close>, \<open>GG_STR\<close>), and what they stand for: a map
  of the keys and values they were built from, held by the literals, the data of the caller and the arrays on the
  stack. \<open>op_completes\<close> is what an operation needs: from parameters that stand for a value, the request that
  carries its JSON text is sent and answered.
\<close>

section \<open>Objects and what holds them\<close>

text \<open>The object \<open>x\<close> stands for \<open>v\<close>, with everything it refers to inside \<open>F\<close>.\<close>

definition stands :: "mem \<Rightarrow> GgObject \<Rightarrow> gg_val \<Rightarrow> addr set \<Rightarrow> bool" where
  "stands m x v F \<longleftrightarrow> length x = obj_size \<and> val_blk m x v \<and> blk_foot m x v \<subseteq> F"

lemma stands_off: "stands m x v F \<Longrightarrow> agree_off W m m' \<Longrightarrow> F \<inter> W = {} \<Longrightarrow> stands m' x v F"
  using val_blk_frame[of m x v m'] blk_foot_frame[of m x v m'] agree_off_on[of W m m' "blk_foot m x v"]
  by (auto simp: stands_def)

lemma stands_mono: "stands m x v F \<Longrightarrow> F \<subseteq> G \<Longrightarrow> stands m x v G"
  by (auto simp: stands_def)

definition range_of :: "GgBuffer \<Rightarrow> addr set" where
  "range_of b = {buf_data b..<buf_data b + buf_len b}"

lemma contents_off: "agree_off W m m' \<Longrightarrow> range_of b \<inter> W = {} \<Longrightarrow> contents m' b = contents m b"
  unfolding contents_def range_of_def by (rule rd_off)

lemma contents_in: "range_of b \<subseteq> F \<Longrightarrow> agree_off W m m' \<Longrightarrow> F \<inter> W = {} \<Longrightarrow> contents m' b = contents m b"
  by (rule contents_off) auto

lemma stands_buf:
  assumes "buf_len b < 65536" "buf_data b < 2 ^ 64"
  obtains x where "gg_obj_buf b = Some x" "stands m x (VBuf (contents m b)) (range_of b)"
proof -
  obtain x where x: "gg_obj_buf b = Some x" using assms(1) gg_obj_fits(1)[of b] by auto
  have "gg_obj_into_buf x = Some b" using into_obj_buf[OF x] assms(2) by simp
  then have "stands m x (VBuf (contents m b)) (range_of b)"
    using x into_val(1)[of x b] by (auto simp: stands_def Let_def range_of_def contents_def)
  with x that show ?thesis by blast
qed

section \<open>Pairs and maps\<close>

text \<open>A literal key is where the caller says, and fits the key of a pair.\<close>

definition literal :: "caller \<Rightarrow> mem \<Rightarrow> string \<Rightarrow> bool" where
  "literal ca m s \<longleftrightarrow> length s < 65536 \<and> ca_lit ca (str s) < 2 ^ 64 \<and> contents m (GG_STR ca s) = str s"

abbreviation lit_range :: "caller \<Rightarrow> string \<Rightarrow> addr set" where
  "lit_range ca s \<equiv> range_of (GG_STR ca s)"

lemma literal_off: "literal ca m s \<Longrightarrow> agree_off W m m' \<Longrightarrow> lit_range ca s \<inter> W = {} \<Longrightarrow> literal ca m' s"
  by (simp add: literal_def contents_off)

lemma literal_in: "literal ca m s \<Longrightarrow> lit_range ca s \<subseteq> F \<Longrightarrow> agree_off W m m' \<Longrightarrow> F \<inter> W = {} \<Longrightarrow> literal ca m' s"
  by (rule literal_off) auto

text \<open>One argument: its key, its object, and the value that stands for.\<close>

type_synonym arg = "string \<times> GgObject \<times> gg_val"

definition arg_kv :: "caller \<Rightarrow> arg \<Rightarrow> GgKV" where
  "arg_kv ca a = (case a of (s, x, _) \<Rightarrow> le_bytes 8 (ca_lit ca (str s)) @ le_bytes 2 (length s) @ x)"

definition arg_val :: "arg \<Rightarrow> bytes \<times> gg_val" where
  "arg_val a = (case a of (s, _, v) \<Rightarrow> (str s, v))"

lemma arg_val_simp [simp]: "arg_val (s, x, v) = (str s, v)"
  by (simp add: arg_val_def)

definition arg_ok :: "caller \<Rightarrow> mem \<Rightarrow> addr set \<Rightarrow> arg \<Rightarrow> bool" where
  "arg_ok ca m F a = (case a of (s, x, v) \<Rightarrow> literal ca m s \<and> lit_range ca s \<subseteq> F \<and> stands m x v F)"

lemma arg_ok_off: "arg_ok ca m F a \<Longrightarrow> agree_off W m m' \<Longrightarrow> F \<inter> W = {} \<Longrightarrow> arg_ok ca m' F a"
  unfolding arg_ok_def by (auto split: prod.splits intro: stands_off literal_off)

lemma arg_kv_size [simp]: "arg_ok ca m F a \<Longrightarrow> length (arg_kv ca a) = kv_size"
  by (auto simp: arg_ok_def arg_kv_def stands_def split: prod.splits)

lemma lit_kv_arg: "arg_ok ca m F (s, x, v) \<Longrightarrow> lit_kv ca s (Some x) = Some (arg_kv ca (s, x, v))"
  by (simp add: lit_kv_def gg_kv_eq GG_STR_def arg_ok_def literal_def stands_def arg_kv_def)

lemma kvs_built:
  "rd m q (kv_size * length as) = concat (map (arg_kv ca) as) \<Longrightarrow> list_all (arg_ok ca m F) as \<Longrightarrow>
   kvs_at m q (map arg_val as) \<and> kvs_foot m q (map arg_val as) \<subseteq> F \<union> {q..<q + kv_size * length as}"
proof (induction as arbitrary: q)
  case (Cons a as)
  obtain s x v where a: "a = (s, x, v)" by (cases a)
  have ok: "literal ca m s" "lit_range ca s \<subseteq> F" "stands m x v F" "length (arg_kv ca a) = kv_size"
    using Cons.prems(2) arg_kv_size[of ca m F a] by (auto simp: arg_ok_def a)
  have "rd m q (kv_size + kv_size * length as) = arg_kv ca a @ concat (map (arg_kv ca) as)" using Cons.prems(1) by simp
  then have rd: "rd m q kv_size = arg_kv ca a" "rd m (q + kv_size) (kv_size * length as) = concat (map (arg_kv ca) as)"
    unfolding rd_add using ok(4) by (simp_all add: append_eq_append_conv)
  have x: "rd m (gg_kv_val q) obj_size = x"
    using rd(1) kv_val_drop[of m q] ok(1) by (simp add: arg_kv_def a)
  have k: "gg_kv_key (rd m q kv_size) = GG_STR ca s" using rd(1) ok(1) by (simp add: arg_kv_def a gg_kv_key_def GG_STR_def literal_def)
  then have d: "le_val (take 8 (rd m q kv_size)) = ca_lit ca (str s)" by (simp add: gg_kv_key_def GG_STR_def)
  have "kvs_at m (q + kv_size) (map arg_val as) \<and> kvs_foot m (q + kv_size) (map arg_val as) \<subseteq> F \<union> {q + kv_size..<q + kv_size + kv_size * length as}"
    using Cons.IH[OF rd(2)] Cons.prems(2) by simp
  then show ?case
    using ok x k d by (auto simp: a literal_def stands_def Let_def range_of_def GG_STR_def)
qed simp

text \<open>An array of pairs on the stack, as \<open>GG_MAP\<close> makes it, stands for the map.\<close>

lemma map_built:
  assumes ok: "list_all (arg_ok ca m F) as" and fits: "length as < 65536" "p < 2 ^ 64"
    and apart: "F \<inter> {p..<p + kv_size * length as} = {}"
  shows "\<exists>m' mp x. GG_MAP p (map (arg_kv ca) as) m = (m', mp) \<and> gg_obj_map mp = Some x \<and>
    stands m' x (VMap (map arg_val as)) (F \<union> {p..<p + kv_size * length as}) \<and> agree_off {p..<p + kv_size * length as} m m'"
proof -
  let ?bs = "concat (map (arg_kv ca) as)" and ?R = "{p..<p + kv_size * length as}"
  let ?m = "wr m p ?bs" and ?mp = "\<lparr>map_pairs = p, map_len = length as\<rparr>"
  have len: "length ?bs = kv_size * length as" using ok by (induction as) auto
  have off: "agree_off ?R m ?m" using agree_off_wr[of p ?bs ?R m] len by simp
  have ok': "list_all (arg_ok ca ?m F) as" using ok arg_ok_off[OF _ off apart] by (auto simp: list_all_iff)
  have "kvs_at ?m p (map arg_val as) \<and> kvs_foot ?m p (map arg_val as) \<subseteq> F \<union> ?R"
    by (rule kvs_built[OF _ ok']) (metis len rd_wr_same)
  moreover obtain x where x: "gg_obj_map ?mp = Some x" using fits(1) gg_obj_fits(3)[of ?mp] by auto
  moreover have "gg_obj_into_map x = Some ?mp" using into_obj_map[OF x] fits(2) by simp
  ultimately have "stands ?m x (VMap (map arg_val as)) (F \<union> ?R)"
    using into_val(3)[of x ?mp] by (simp add: stands_def)
  then show ?thesis using x off by (simp add: GG_MAP_def)
qed

section \<open>Operations that call\<close>

text \<open>The areas an operation and its call write: the stack of the operation, the frame of the call, and the send
  buffer.\<close>

definition op_stack :: "caller \<Rightarrow> addr set" where "op_stack ca = {ca_sp ca..<ca_sp ca + 1024}"
definition op_frame :: "caller \<Rightarrow> addr set" where "op_frame ca = {ca_fp ca..<ca_fp ca + obj_size}"
definition op_send :: "client \<Rightarrow> addr set" where "op_send cl = {ipc_send_mem cl..<ipc_send_mem cl + GG_IPC_MAX_MSG_LEN}"

definition op_ready :: "caller \<Rightarrow> client \<Rightarrow> bool" where
  "op_ready ca cl \<longleftrightarrow> connected cl \<and> recv_thread_id cl \<noteq> ca_tid ca \<and> 0 \<in> set (stream_state_id (tbl cl)) \<and>
     next_stream_id cl \<noteq> 0x7FFFFFFF \<and> frames cl (ca_fp ca) = None \<and> ca_fp ca \<noteq> NULL \<and> ca_sp ca + 1024 \<le> 2 ^ 64 \<and>
     op_stack ca \<inter> op_frame ca = {} \<and> op_stack ca \<inter> op_send cl = {} \<and> op_frame ca \<inter> op_send cl = {}"

text \<open>What the areas are: data of the caller, and the literals, lie outside of them.\<close>

definition op_areas :: "caller \<Rightarrow> client \<Rightarrow> addr set" where
  "op_areas ca cl = op_stack ca \<union> op_frame ca \<union> op_send cl"

definition op_literals :: "caller \<Rightarrow> client \<Rightarrow> string list \<Rightarrow> addr set \<Rightarrow> bool" where
  "op_literals ca cl ss W \<longleftrightarrow> (\<forall>s \<in> set ss. literal ca (cl_mem cl) s \<and> lit_range ca s \<inter> (op_areas ca cl \<union> W) = {})"

definition op_data :: "caller \<Rightarrow> client \<Rightarrow> GgBuffer \<Rightarrow> addr set \<Rightarrow> bool" where
  "op_data ca cl b W \<longleftrightarrow> buf_len b < 65536 \<and> buf_data b < 2 ^ 64 \<and> range_of b \<inter> (op_areas ca cl \<union> W) = {}"

text \<open>The request of an operation, and that the kernel takes its packet and the server answers it.\<close>

definition op_packet :: "string \<Rightarrow> string \<Rightarrow> 32 word \<Rightarrow> gg_val \<Rightarrow> bytes" where
  "op_packet operation model stream_id v =
     es_packet [int_header '':message-type'' EVENTSTREAM_APPLICATION_MESSAGE, int_header '':message-flags'' 0,
       int_header '':stream-id'' stream_id, str_header ''operation'' (str operation),
       str_header ''service-model-type'' (str model)] (json_text v)"

definition op_answered :: "caller \<Rightarrow> bytes \<Rightarrow> client \<Rightarrow> bool" where
  "op_answered ca packet cl \<longleftrightarrow> length packet \<le> GG_IPC_MAX_MSG_LEN \<and>
     (\<exists>s tx. gg_socket_write (cl_tx cl) packet = Some (GG_ERR_OK, s, tx)) \<and>
     (\<exists>k. ca_ws ca = replicate k Woken @ [Received, Woken]) \<and>
     (\<exists>hs pl com rest. incoming hs pl com rest cl \<and> ch_stream_id com = next_stream_id cl \<and>
        ch_message_type com = EVENTSTREAM_APPLICATION_MESSAGE)"

text \<open>What an operation that succeeds leaves: its request has been sent, and its stream and frame are free again.\<close>

definition op_done :: "bytes \<Rightarrow> client \<Rightarrow> client \<Rightarrow> bool" where
  "op_done packet cl cl' \<longleftrightarrow> cl_sent cl' = cl_sent cl @ packet \<and> stream_state_id (tbl cl') = stream_state_id (tbl cl) \<and>
     frames cl' = frames cl"

lemma op_completes:
  assumes inv: "client_inv cl" and ready: "op_ready ca cl" and args: "gg_obj_map args = Some x" "stands m x v F"
    and apart: "F \<inter> op_frame ca = {}" "F \<inter> op_send cl = {}"
    and v: "within_limits v" "val_all json_ok v" and names: "length operation \<le> 65535" "length model \<le> 65535"
    and ans: "op_answered ca (op_packet operation model (next_stream_id cl) v) cl"
  shows "\<exists>cl'. call_op ca operation model args None ecb (cl\<lparr>cl_mem := m\<rparr>) = Some (GG_ERR_OK, cl') \<and>
    op_done (op_packet operation model (next_stream_id cl) v) cl cl'"
proof -
  let ?rq = "call_request (str operation) (str model) args (Some ecb) NULL" and ?cl = "cl\<lparr>cl_mem := m\<rparr>"
  let ?m = "wr m (ca_fp ca) x"
  have len: "length x = obj_size" using args(2) by (simp add: stands_def)
  have "agree_off (op_frame ca) m ?m" using agree_off_wr[of "ca_fp ca" x "op_frame ca" m] len by (simp add: op_frame_def)
  then have st: "stands ?m x v F" by (rule stands_off[OF args(2) _ apart(1)])
  have rdx: "rd ?m (ca_fp ca) obj_size = x" using len rd_wr_same[of m "ca_fp ca" x] by simp
  have pre: "json_pre (ca_fp ca) v (op_frame ca \<union> blk_foot ?m x v) ?m"
    using st rdx v ready by (simp add: json_pre_def stands_def op_ready_def op_frame_def)
  have packet: "request_packet ?rq (next_stream_id cl) v = op_packet operation model (next_stream_id cl) v"
    by (simp add: request_packet_def op_packet_def request_headers_def call_request_def)
  have "can_send (ca_tid ca) (ca_fp ca) ?rq v ?cl"
    unfolding can_send_def
  proof (intro conjI)
    show "\<exists>po F. gg_obj_map (rq_params ?rq) = Some po \<and> json_pre (ca_fp ca) v F (wr (cl_mem ?cl) (ca_fp ca) po) \<and>
        {ipc_send_mem ?cl..<ipc_send_mem ?cl + GG_IPC_MAX_MSG_LEN} \<inter> F = {}"
    proof (intro exI conjI)
      show "json_pre (ca_fp ca) v (op_frame ca \<union> blk_foot ?m x v) (wr (cl_mem ?cl) (ca_fp ca) x)" using pre by simp
      show "{ipc_send_mem ?cl..<ipc_send_mem ?cl + GG_IPC_MAX_MSG_LEN} \<inter> (op_frame ca \<union> blk_foot ?m x v) = {}"
        using st apart(2) ready by (auto simp: stands_def op_ready_def op_send_def)
    qed (simp add: args(1) call_request_def)
    show "list_all hdr_ok (request_headers ?rq (next_stream_id ?cl))"
      using names by (simp add: request_headers_def call_request_def hdr_ok_def int_header_def str_header_def)
  qed (use ready ans packet in \<open>auto simp: op_ready_def op_answered_def connected_def\<close>)
  moreover obtain k hs pl com rest where a: "ca_ws ca = replicate k Woken @ [Received, Woken]" "incoming hs pl com rest cl"
    "ch_stream_id com = next_stream_id cl" "ch_message_type com = EVENTSTREAM_APPLICATION_MESSAGE"
    using ans unfolding op_answered_def by blast
  ultimately show ?thesis
    using call_completes[of ?cl "ca_tid ca" "ca_fp ca" "str operation" "str model" args "Some ecb" NULL v hs pl com rest k] inv
    by (auto simp: call_op_def op_done_def packet incoming_def)
qed

end
