(* ===== verification/Ops_Handlers.thy ===== *)
theory Ops_Handlers
  imports Ops_Args
begin

text \<open>
  The handlers of the operations, on what the server sends: the fields of a topic message, and the value of a
  configuration response. The schemas of \<open>gg_map_validate\<close> are read off the map the message stands for.
\<close>

section \<open>Schemas\<close>

declare gg_map_validate.simps [simp del]

lemma map_get_nonnull: "fst (gg_map_get m mp key) \<Longrightarrow> snd (gg_map_get m mp key) \<noteq> NULL"
proof -
  have "map_get_loop m q n key = Some p \<Longrightarrow> p \<noteq> NULL" for q n p
    by (induction m q n key rule: map_get_loop.induct) (auto simp: gg_kv_val_def split: if_split_asm)
  then show "fst (gg_map_get m mp key) \<Longrightarrow> snd (gg_map_get m mp key) \<noteq> NULL"
    by (auto simp: gg_map_get_def split: option.split_asm)
qed

lemma validate_entries:
  assumes "kvs_at m (map_pairs mp) kvs" "map_len mp = length kvs"
  shows "list_all (entry_ok kvs) es \<Longrightarrow> list_all sch_value es \<Longrightarrow>
      gg_map_validate m mp es = Some (GG_ERR_OK, map (\<lambda>e. Some (snd (gg_map_get m mp (sch_key e)))) es)"
    and "\<not> list_all (entry_ok kvs) es \<Longrightarrow> \<exists>ret outs. gg_map_validate m mp es = Some (ret, outs) \<and> ret \<noteq> GG_ERR_OK"
  using validate_result[OF assms, of es] by (auto simp: list_all_iff)

text \<open>A required entry of a given type is found where its value is.\<close>

definition field :: "(bytes \<times> gg_val) list \<Rightarrow> string \<Rightarrow> GgObjectType \<Rightarrow> gg_val option" where
  "field kvs key t = (case map_of kvs (str key) of Some v \<Rightarrow> if val_type v = t then Some v else None | None \<Rightarrow> None)"

lemma entry_required [simp]:
  "t \<noteq> GG_TYPE_NULL \<Longrightarrow> entry_ok kvs (entry key GG_PRESENCE_REQUIRED t) \<longleftrightarrow> field kvs key t \<noteq> None"
  "sch_value (entry key p t)" "sch_key (entry key p t) = str key"
  by (auto simp: entry_ok_def entry_def field_def split: option.splits)

lemma entry_optional [simp]:
  "t \<noteq> GG_TYPE_NULL \<Longrightarrow> entry_ok kvs (entry key GG_PRESENCE_OPTIONAL t) \<longleftrightarrow> map_of kvs (str key) = None \<or> field kvs key t \<noteq> None"
  by (auto simp: entry_ok_def entry_def field_def split: option.splits)

lemma field_get:
  assumes "kvs_at m (map_pairs mp) kvs" "map_len mp = length kvs"
  shows "field kvs key t = Some v \<Longrightarrow> obj_at m (snd (gg_map_get m mp (str key))) v \<and> val_type v = t \<and> snd (gg_map_get m mp (str key)) \<noteq> NULL"
    and "map_of kvs (str key) = None \<Longrightarrow> snd (gg_map_get m mp (str key)) = NULL"
  using map_get_value[OF assms, of "str key"] map_get_nonnull[of m mp "str key"]
  by (auto simp: field_def split: option.splits if_split_asm)

lemma val_into:
  "val_blk m x v \<Longrightarrow> val_type v = GG_TYPE_MAP \<Longrightarrow>
     \<exists>mp kvs. v = VMap kvs \<and> gg_obj_into_map x = Some mp \<and> kvs_at m (map_pairs mp) kvs \<and> map_len mp = length kvs"
  "val_blk m x v \<Longrightarrow> val_type v = GG_TYPE_BUF \<Longrightarrow> \<exists>b. gg_obj_into_buf x = Some b \<and> v = VBuf (contents m b)"
  by (cases v; auto split: option.split_asm)+

section \<open>Topic messages\<close>

text \<open>The fields of a message, as the map it stands for has them: whether it is JSON, the payload and the topic.\<close>

definition message_fields :: "bool \<Rightarrow> (bytes \<times> gg_val) list \<Rightarrow> (bool \<times> gg_val \<times> bytes) option" where
  "message_fields is_json fs =
     (case (field fs ''message'' (if is_json then GG_TYPE_MAP else GG_TYPE_BUF), field fs ''context'' GG_TYPE_MAP) of
        (Some v, Some (VMap ctx)) \<Rightarrow> (case field ctx ''topic'' GG_TYPE_BUF of Some (VBuf t) \<Rightarrow> Some (is_json, v, t) | _ \<Rightarrow> None)
      | _ \<Rightarrow> None)"

definition topic_fields :: "(bytes \<times> gg_val) list \<Rightarrow> (bool \<times> gg_val \<times> bytes) option" where
  "topic_fields kvs =
     (case (map_of kvs (str ''jsonMessage''), map_of kvs (str ''binaryMessage'')) of
        (Some (VMap fs), None) \<Rightarrow> message_fields True fs
      | (None, Some (VMap fs)) \<Rightarrow> message_fields False fs
      | _ \<Rightarrow> None)"

lemma message_parts_fields:
  assumes at: "kvs_at m (map_pairs mp) fs" "map_len mp = length fs"
  shows "case message_fields is_json fs of None \<Rightarrow> message_parts m is_json mp = Some (Inl GG_ERR_INVALID)
    | Some (j, v, t) \<Rightarrow> \<exists>p q. message_parts m is_json mp = Some (Inr (j, p, q)) \<and> obj_at m p v \<and> obj_at m q (VBuf t)"
proof -
  let ?es = "[entry ''message'' GG_PRESENCE_REQUIRED (if is_json then GG_TYPE_MAP else GG_TYPE_BUF), entry ''context'' GG_PRESENCE_REQUIRED GG_TYPE_MAP]"
  show ?thesis
  proof (cases "list_all (entry_ok fs) ?es")
    case True
    then obtain v c where f: "field fs ''message'' (if is_json then GG_TYPE_MAP else GG_TYPE_BUF) = Some v" "field fs ''context'' GG_TYPE_MAP = Some c"
      by (auto split: if_split_asm)
    obtain cmp ctx where c: "c = VMap ctx" "gg_obj_into_map (rd m (snd (gg_map_get m mp (str ''context''))) obj_size) = Some cmp"
      "kvs_at m (map_pairs cmp) ctx" "map_len cmp = length ctx"
      using field_get(1)[OF at f(2)] val_into(1) by blast
    show ?thesis
    proof (cases "field ctx ''topic'' GG_TYPE_BUF")
      case None
      then show ?thesis
        using validate_entries(1)[OF at True] validate_entries(2)[OF c(3,4), of "[entry ''topic'' GG_PRESENCE_REQUIRED GG_TYPE_BUF]"] f c
        by (auto simp: message_parts_def message_fields_def stored_def)
    next
      case (Some tv)
      then obtain t where t: "tv = VBuf t" using field_get(1)[OF c(3,4) Some] val_into(2) by blast
      show ?thesis
        using validate_entries(1)[OF at True] validate_entries(1)[OF c(3,4), of "[entry ''topic'' GG_PRESENCE_REQUIRED GG_TYPE_BUF]"] f c Some t
          field_get(1)[OF at f(1)] field_get(1)[OF c(3,4) Some]
        by (auto simp: message_parts_def message_fields_def stored_def)
    qed
  next
    case False
    then have "message_fields is_json fs = None" by (auto simp: message_fields_def split: option.split if_split_asm)
    then show ?thesis using validate_entries(2)[OF at False] by (auto simp: message_parts_def)
  qed
qed

lemma topic_message_fields:
  assumes at: "kvs_at m (map_pairs data) kvs" "map_len data = length kvs"
  shows "case topic_fields kvs of None \<Rightarrow> topic_message m data = Some (Inl GG_ERR_INVALID)
    | Some (j, v, t) \<Rightarrow> \<exists>p q. topic_message m data = Some (Inr (j, p, q)) \<and> obj_at m p v \<and> obj_at m q (VBuf t)"
proof -
  let ?es = "[entry ''jsonMessage'' GG_PRESENCE_OPTIONAL GG_TYPE_MAP, entry ''binaryMessage'' GG_PRESENCE_OPTIONAL GG_TYPE_MAP]"
  let ?J = "map_of kvs (str ''jsonMessage'')" and ?B = "map_of kvs (str ''binaryMessage'')"
  have none: "map_of kvs (str s) = None \<Longrightarrow> field kvs s t = None" for s t by (simp add: field_def)
  have vmap: "field kvs s GG_TYPE_MAP = Some v \<Longrightarrow> \<exists>fs mp. v = VMap fs \<and> map_of kvs (str s) = Some (VMap fs) \<and>
      gg_obj_into_map (rd m (snd (gg_map_get m data (str s))) obj_size) = Some mp \<and> kvs_at m (map_pairs mp) fs \<and> map_len mp = length fs" for s v
    using field_get(1)[OF at, of s GG_TYPE_MAP v] val_into(1)[of m "rd m (snd (gg_map_get m data (str s))) obj_size" v]
    by (auto simp: field_def split: option.split_asm if_split_asm)
  note null = field_get(2)[OF at] and nonnull = field_get(1)[OF at, THEN conjunct2, THEN conjunct2]
  consider (bad) "\<not> list_all (entry_ok kvs) ?es" | (both) j b where "field kvs ''jsonMessage'' GG_TYPE_MAP = Some j" "field kvs ''binaryMessage'' GG_TYPE_MAP = Some b"
    | (neither) "?J = None" "?B = None" | (json) j where "field kvs ''jsonMessage'' GG_TYPE_MAP = Some j" "?B = None"
    | (binary) b where "?J = None" "field kvs ''binaryMessage'' GG_TYPE_MAP = Some b"
    by fastforce
  then show ?thesis
  proof cases
    case bad
    then have "topic_fields kvs = None"
      by (auto simp: topic_fields_def field_def split: option.split_asm option.split gg_val.split if_split_asm)
    then show ?thesis using validate_entries(2)[OF at bad] by (auto simp: topic_message_def)
  next
    case both
    then show ?thesis
      using validate_entries(1)[OF at, of ?es] vmap[OF both(1)] vmap[OF both(2)] nonnull[OF both(1)] nonnull[OF both(2)]
      by (auto simp: topic_message_def topic_fields_def stored_def)
  next
    case neither
    then show ?thesis
      using validate_entries(1)[OF at, of ?es] null by (auto simp: topic_message_def topic_fields_def stored_def)
  next
    case (json j)
    obtain fs mp where f: "j = VMap fs" "?J = Some (VMap fs)" "gg_obj_into_map (rd m (snd (gg_map_get m data (str ''jsonMessage''))) obj_size) = Some mp"
      "kvs_at m (map_pairs mp) fs" "map_len mp = length fs" using vmap[OF json(1)] by blast
    then have eq: "topic_message m data = message_parts m True mp" "topic_fields kvs = message_fields True fs"
      using validate_entries(1)[OF at, of ?es] json null[OF json(2)] nonnull[OF json(1)]
      by (auto simp: topic_message_def topic_fields_def stored_def)
    show ?thesis unfolding eq by (rule message_parts_fields[OF f(4,5)])
  next
    case (binary b)
    obtain fs mp where f: "b = VMap fs" "?B = Some (VMap fs)" "gg_obj_into_map (rd m (snd (gg_map_get m data (str ''binaryMessage''))) obj_size) = Some mp"
      "kvs_at m (map_pairs mp) fs" "map_len mp = length fs" using vmap[OF binary(2)] by blast
    then have eq: "topic_message m data = message_parts m False mp" "topic_fields kvs = message_fields False fs"
      using validate_entries(1)[OF at, of ?es] binary null[OF binary(1)] nonnull[OF binary(2)]
      by (auto simp: topic_message_def topic_fields_def stored_def)
    show ?thesis unfolding eq by (rule message_parts_fields[OF f(4,5)])
  qed
qed

text \<open>What a message says to its subscriber: the topic, and the payload, out of its base64 text when it is binary.\<close>

definition topic_says :: "(bytes \<times> gg_val) list \<Rightarrow> bytes \<Rightarrow> gg_val \<Rightarrow> bool" where
  "topic_says kvs t v \<longleftrightarrow> topic_fields kvs = Some (True, v, t) \<or> (\<exists>bs. v = VBuf bs \<and> topic_fields kvs = Some (False, VBuf (b64 bs), t))"

lemma decode_in_place:
  assumes "buf_len b \<le> SIZE_MAX"
  obtains ok b' m' where "gg_base64_decode_in_place m b = (ok, b', m')" "agree_off (range_of b) m m'"
    "ok \<longleftrightarrow> (\<exists>bs. b64 bs = contents m b)" "ok \<Longrightarrow> b64 (contents m' b') = contents m b" "ok \<Longrightarrow> buf_data b' = buf_data b \<and> buf_len b' \<le> buf_len b"
proof (cases "buf_len b mod 4 = 0")
  case True
  then have "buf_len b div 4 * 3 \<le> buf_len b" by simp
  then show ?thesis
    using decode_spec[OF True _ assms, of m] that by (auto simp: gg_base64_decode_in_place_def range_of_def)
next
  case False
  have "\<nexists>bs. b64 bs = contents m b"
  proof
    assume "\<exists>bs. b64 bs = contents m b"
    then obtain bs where "length (b64 bs) = buf_len b" by (metis length_contents)
    then show False using False unfolding length_b64 by (metis mod_mult_self2_is_0)
  qed
  then show ?thesis using that[of False b m] False by (simp add: gg_base64_decode_in_place_def gg_base64_decode_def)
qed

text \<open>The two buffers of a binary message do not overlap: the payload is decoded in place before the topic is used.\<close>

definition parts_apart :: "mem \<Rightarrow> GgMap \<Rightarrow> bool" where
  "parts_apart m data \<longleftrightarrow> (\<forall>p q b b'. topic_message m data = Some (Inr (False, p, q)) \<longrightarrow> gg_obj_into_buf (rd m p obj_size) = Some b \<longrightarrow>
     gg_obj_into_buf (rd m q obj_size) = Some b' \<longrightarrow> range_of b \<inter> range_of b' = {})"

lemma into_buf_data: "gg_obj_into_buf x = Some b \<Longrightarrow> buf_data b < 2 ^ 64"
proof -
  have "le_val (take 8 x) < 256 ^ length (take 8 x)" by (rule le_val_bound)
  also have "\<dots> \<le> 256 ^ 8" by (rule power_increasing) simp_all
  finally show "gg_obj_into_buf x = Some b \<Longrightarrow> buf_data b < 2 ^ 64" using into_val(1)[of x b] by simp
qed

lemma topic_handler_result:
  assumes at: "kvs_at m (map_pairs data) kvs" "map_len data = length kvs" and apart: "parts_apart m data"
    and model: "model = str ''aws.greengrass#SubscriptionResponseMessage''"
  shows "(\<exists>t v x m'. topic_says kvs t v \<and> val_blk m' x v \<and>
      subscribe_to_topic_resp_handler callback ctx aux_ctx handle model data m = after_user (callback aux_ctx t x handle m')) \<or>
    ((\<nexists>t v. topic_says kvs t v) \<and> (\<exists>m'. subscribe_to_topic_resp_handler callback ctx aux_ctx handle model data m = Some (GG_ERR_INVALID, [], m')))"
proof (cases "topic_fields kvs")
  case None
  then show ?thesis using topic_message_fields[OF at] by (simp add: subscribe_to_topic_resp_handler_def model topic_says_def)
next
  case (Some f)
  obtain j v t where f: "f = (j, v, t)" by (cases f)
  obtain p q where pq: "topic_message m data = Some (Inr (j, p, q))" "obj_at m p v" "obj_at m q (VBuf t)"
    using topic_message_fields[OF at] Some f by auto
  obtain b' where b': "gg_obj_into_buf (rd m q obj_size) = Some b'" "contents m b' = t" using pq(3) by (auto split: option.split_asm)
  show ?thesis
  proof (cases j)
    case True
    then show ?thesis
      using pq b' Some f by (auto simp: subscribe_to_topic_resp_handler_def model topic_says_def)
  next
    case False
    have "val_type v = GG_TYPE_BUF"
      using Some f False by (auto simp: topic_fields_def message_fields_def field_def split: option.split_asm gg_val.split_asm if_split_asm)
    then obtain b where b: "gg_obj_into_buf (rd m p obj_size) = Some b" "v = VBuf (contents m b)" using val_into(2)[OF pq(2)] by blast
    have "buf_len b \<le> SIZE_MAX" using into_len_bound(1)[OF b(1)] by (simp add: int_limits)
    then obtain ok d m' where d: "gg_base64_decode_in_place m b = (ok, d, m')" "agree_off (range_of b) m m'"
      "ok \<longleftrightarrow> (\<exists>bs. b64 bs = contents m b)" "ok \<Longrightarrow> b64 (contents m' d) = contents m b" "ok \<Longrightarrow> buf_data d = buf_data b \<and> buf_len d \<le> buf_len b"
      using decode_in_place by metis
    show ?thesis
    proof (cases ok)
      case ok: True
      have "buf_len d < 65536" "buf_data d < 2 ^ 64" using d(5)[OF ok] into_len_bound(1)[OF b(1)] into_buf_data[OF b(1)] by auto
      then obtain x where x: "gg_obj_buf d = Some x" "stands m' x (VBuf (contents m' d)) (range_of d)" using stands_buf by metis
      have t: "contents m' b' = t" using contents_off[OF d(2)] apart pq(1) b(1) b' False by (auto simp: parts_apart_def)
      have "topic_says kvs t (VBuf (contents m' d))" using Some f False b(2) d(4)[OF ok] by (simp add: topic_says_def)
      moreover have "subscribe_to_topic_resp_handler callback ctx aux_ctx handle model data m = after_user (callback aux_ctx t x handle m')"
        using pq(1) b(1) b'(1) d(1) ok False x(1) t by (simp add: subscribe_to_topic_resp_handler_def model)
      moreover have "val_blk m' x (VBuf (contents m' d))" using x(2) by (simp only: stands_def)
      ultimately show ?thesis by blast
    next
      case bad: False
      then have "\<nexists>t v. topic_says kvs t v" using Some f False b(2) d(3) by (auto simp: topic_says_def)
      then show ?thesis using pq(1) b(1) b' d(1) bad False by (auto simp: subscribe_to_topic_resp_handler_def model)
    qed
  qed
qed

section \<open>Configuration responses\<close>

text \<open>The value of a response to a request whose last key is \<open>key\<close>: the map under \<open>value\<close>, or, when the key is its
  only one and has a value that is not a map, that value.\<close>

definition config_value :: "(bytes \<times> gg_val) list \<Rightarrow> bytes option \<Rightarrow> gg_val option" where
  "config_value kvs key =
     (case field kvs ''value'' GG_TYPE_MAP of
        Some (VMap [(k, v)]) \<Rightarrow> Some (if key = Some k \<and> val_type v \<noteq> GG_TYPE_MAP then v else VMap [(k, v)])
      | Some v \<Rightarrow> Some v
      | None \<Rightarrow> None)"

lemma map_get_foot:
  assumes "kvs_at m (map_pairs mp) kvs" "map_len mp = length kvs" "map_of kvs key = Some v"
  shows "blk_foot m (rd m (snd (gg_map_get m mp key)) obj_size) v \<subseteq> kvs_foot m (map_pairs mp) kvs"
proof -
  have "\<exists>p. map_get_loop m q (length kvs) key = Some p \<and> blk_foot m (rd m p obj_size) v \<subseteq> kvs_foot m q kvs"
    if "kvs_at m q kvs" "map_of kvs key = Some v" for q
    using that
  proof (induction kvs arbitrary: q)
    case (Cons kv kvs)
    obtain k w where kv: "kv = (k, w)" by (cases kv)
    show ?case
    proof (cases "k = key")
      case True
      then show ?thesis using Cons.prems kv by auto
    next
      case False
      then obtain p where "map_get_loop m (q + kv_size) (length kvs) key = Some p"
        "blk_foot m (rd m p obj_size) v \<subseteq> kvs_foot m (q + kv_size) kvs"
        using Cons.IH[of "q + kv_size"] Cons.prems kv by auto
      then show ?thesis using False Cons.prems kv by auto
    qed
  qed simp
  from this[OF assms(1,3)] assms(2) show ?thesis by (auto simp: gg_map_get_def)
qed

lemma get_resp_value_result:
  assumes at: "kvs_at m (map_pairs resp) kvs" "map_len resp = length kvs"
  shows "case config_value kvs (map_option (contents m) final_key) of None \<Rightarrow> get_resp_value m resp final_key = Some (Inl GG_ERR_INVALID)
    | Some v \<Rightarrow> \<exists>p. get_resp_value m resp final_key = Some (Inr p) \<and> obj_at m p v \<and>
        blk_foot m (rd m p obj_size) v \<subseteq> kvs_foot m (map_pairs resp) kvs"
proof (cases "field kvs ''value'' GG_TYPE_MAP")
  case None
  then show ?thesis
    using validate_entries(2)[OF at, of "[entry ''value'' GG_PRESENCE_REQUIRED GG_TYPE_MAP]"]
    by (auto simp: get_resp_value_def config_value_def)
next
  case (Some v)
  let ?p = "snd (gg_map_get m resp (str ''value''))"
  obtain mp fs where v: "v = VMap fs" "gg_obj_into_map (rd m ?p obj_size) = Some mp" "kvs_at m (map_pairs mp) fs" "map_len mp = length fs"
    using field_get(1)[OF at Some] val_into(1) by blast
  have p: "obj_at m ?p v" "blk_foot m (rd m ?p obj_size) v \<subseteq> kvs_foot m (map_pairs resp) kvs"
    using field_get(1)[OF at Some] map_get_foot[OF at, of "str ''value''" v] Some
    by (auto simp: field_def split: option.split_asm if_split_asm)
  have foot: "blk_foot m (rd m ?p obj_size) v = kvs_foot m (map_pairs mp) fs" using v(1) into_val(3)[OF v(2)] by simp
  have run: "gg_map_validate m resp [entry ''value'' GG_PRESENCE_REQUIRED GG_TYPE_MAP] = Some (GG_ERR_OK, [Some ?p])"
    using validate_entries(1)[OF at, of "[entry ''value'' GG_PRESENCE_REQUIRED GG_TYPE_MAP]"] Some by simp
  show ?thesis
  proof (cases "\<exists>k w. fs = [(k, w)]")
    case True
    then obtain k w where fs: "fs = [(k, w)]" by blast
    have w: "obj_at m (gg_kv_val (map_pairs mp)) w" "pair_key m (map_pairs mp) = k" "map_len mp = 1"
      "gg_obj_type (rd m (gg_kv_val (map_pairs mp)) obj_size) = Some (val_type w)"
      "blk_foot m (rd m (gg_kv_val (map_pairs mp)) obj_size) w \<subseteq> kvs_foot m (map_pairs resp) kvs"
      using v(3,4) fs p(2) foot by (auto dest: val_blk_type)
    show ?thesis
      using Some v(1,2) fs w p run by (cases final_key) (auto simp: get_resp_value_def config_value_def stored_def)
  next
    case False
    then have "config_value kvs (map_option (contents m) final_key) = Some v"
      using Some v(1) by (auto simp: config_value_def split: list.splits)
    moreover have "map_len mp \<noteq> 1" using v(4) False by (cases fs) (auto simp: length_Suc_conv)
    ultimately show ?thesis
      using v(2) p run by (cases final_key) (auto simp: get_resp_value_def stored_def)
  qed
qed

lemma buffer_in_put: "buf_data b < 2 ^ 64 \<Longrightarrow> buf_len b < 2 ^ 64 \<Longrightarrow> buffer_in (put_buffer m p b) p = b"
proof -
  assume "buf_data b < 2 ^ 64" "buf_len b < 2 ^ 64"
  moreover have "rd (put_buffer m p b) p 16 = le_bytes 8 (buf_data b) @ le_bytes 8 (buf_len b)"
    unfolding put_buffer_def by (rule rd_wr_same') simp
  then have "rd (put_buffer m p b) p 8 = le_bytes 8 (buf_data b)" "rd (put_buffer m p b) (p + 8) 8 = le_bytes 8 (buf_len b)"
    using rd_add[of "put_buffer m p b" p 8 8] by simp_all
  ultimately show ?thesis by (simp add: buffer_in_def)
qed

text \<open>A string that is copied into the buffer the caller gave.\<close>

lemma claim_into:
  assumes "0 < buf_data out" "buf_data out + buf_len out < 2 ^ 64" "buf_len out \<le> UINT32_MAX"
    "range_of u \<inter> range_of out = {}" "buf_data u < 2 ^ 64" "buf_len u < 65536"
  shows "if buf_len u \<le> buf_len out
    then \<exists>u' a m'. gg_arena_claim_buf m u (Some (gg_arena_init out)) = Some (GG_ERR_OK, u', a, m') \<and> contents m' u' = contents m u \<and>
      range_of u' \<subseteq> range_of out \<and> buf_data u' < 2 ^ 64 \<and> buf_len u' = buf_len u \<and> agree_off (range_of out) m m'
    else \<exists>a. gg_arena_claim_buf m u (Some (gg_arena_init out)) = Some (GG_ERR_NOMEM, u, a, m)"
proof -
  let ?a = "gg_arena_init out"
  have a: "arena_ok ?a" "arena_region ?a = range_of out" "arena_avail ?a = buf_len out" "bump ?a = buf_data out"
    using assms(1-3) by (auto simp: gg_arena_init_def arena_ok_def arena_region_def arena_avail_def range_of_def int_limits)
  have d: "{buf_data u..<buf_data u + buf_len u} \<inter> arena_region ?a = {}" using assms(4) a(2) by (simp add: range_of_def)
  show ?thesis
  proof (cases "buf_len u \<le> buf_len out")
    case True
    then obtain u' where "gg_arena_claim_buf m u (Some ?a) = Some (GG_ERR_OK, u', Some (adv ?a (buf_len u)), wr m (buf_data out) (contents m u))"
      "buf_len u' = buf_len u" "buf_data u' < 2 ^ 64" "{buf_data u'..<buf_data u' + buf_len u} \<subseteq> {buf_data out..<buf_data out + buf_len u}"
      "contents (wr m (buf_data out) (contents m u)) u' = contents m u"
      using claim_buf_adv[OF a(1) d _ assms(5,6), of m] unfolding a(3,4) by blast
    moreover have "agree_off (range_of out) m (wr m (buf_data out) (contents m u))"
      using True by (intro agree_off_wr) (auto simp: range_of_def)
    ultimately show ?thesis using True by (auto simp: range_of_def)
  next
    case False
    then have "0 < buf_len u" by simp
    moreover from this have "buf_data u \<in> {buf_data u..<buf_data u + buf_len u}" by simp
    then have "\<not> gg_arena_owns (Some ?a) (buf_data u)" using a(1) d by (metis arena_owns_iff disjoint_iff)
    ultimately show ?thesis
      using claim_buf_copy[OF a(1), of u m] False assms(6) a(3) by (simp add: int_limits)
  qed
qed

lemma copy_config_buf_result:
  assumes at: "kvs_at m (map_pairs resp) kvs" "map_len resp = length kvs"
    and out: "out = buffer_in m value_out" "value_out \<noteq> NULL" "0 < buf_data out" "buf_data out + buf_len out < 2 ^ 64" "buf_len out \<le> UINT32_MAX"
    and apart: "kvs_foot m (map_pairs resp) kvs \<inter> range_of out = {}" "{value_out..<value_out + 16} \<inter> range_of out = {}"
  shows "case config_value kvs (map_option (contents m) final_key) of
      None \<Rightarrow> copy_config_buf value_out final_key ctx resp m = Some (GG_ERR_INVALID, [], m)
    | Some (VBuf bs) \<Rightarrow>
        if length bs \<le> buf_len out
        then \<exists>m'. copy_config_buf value_out final_key ctx resp m = Some (GG_ERR_OK, [], m') \<and> contents m' (buffer_in m' value_out) = bs \<and>
          range_of (buffer_in m' value_out) \<subseteq> range_of out \<and> agree_off (range_of out \<union> {value_out..<value_out + 16}) m m'
        else copy_config_buf value_out final_key ctx resp m = Some (GG_ERR_NOMEM, [], m)
    | Some _ \<Rightarrow> copy_config_buf value_out final_key ctx resp m = Some (GG_ERR_FAILURE, [], m)"
proof (cases "config_value kvs (map_option (contents m) final_key)")
  case None
  then show ?thesis using get_resp_value_result[OF at, of final_key] by (simp add: copy_config_buf_def)
next
  case (Some v)
  obtain p where p: "get_resp_value m resp final_key = Some (Inr p)" "obj_at m p v" "blk_foot m (rd m p obj_size) v \<subseteq> kvs_foot m (map_pairs resp) kvs"
    using get_resp_value_result[OF at, of final_key] Some by auto
  note type = val_blk_type[OF p(2)]
  show ?thesis
  proof (cases "val_type v = GG_TYPE_BUF")
    case False
    then show ?thesis using Some p(1) type by (cases v) (simp_all add: copy_config_buf_def)
  next
    case True
    obtain u where u: "gg_obj_into_buf (rd m p obj_size) = Some u" "v = VBuf (contents m u)" using val_into(2)[OF p(2) True] by blast
    have "range_of u \<subseteq> kvs_foot m (map_pairs resp) kvs" using p(3) u into_val(1)[OF u(1)] by (simp add: range_of_def Let_def)
    then have "range_of u \<inter> range_of out = {}" using apart(1) by blast
    note c = claim_into[OF out(3-5) this into_buf_data[OF u(1)] into_len_bound(1)[OF u(1)], of m]
    have len: "length (contents m u) = buf_len u" by simp
    show ?thesis
    proof (cases "buf_len u \<le> buf_len out")
      case fits: True
      then obtain u' a m' where c: "gg_arena_claim_buf m u (Some (gg_arena_init out)) = Some (GG_ERR_OK, u', a, m')" "contents m' u' = contents m u"
        "range_of u' \<subseteq> range_of out" "buf_data u' < 2 ^ 64" "buf_len u' = buf_len u" "agree_off (range_of out) m m'"
        using c by auto
      let ?V = "{value_out..<value_out + 16}"
      have off: "agree_off ?V m' (put_buffer m' value_out u')" unfolding put_buffer_def by (rule agree_off_wr) simp
      have "contents (put_buffer m' value_out u') u' = contents m u"
        using contents_in[OF c(3) off] apart(2) c(2) by (simp add: Int_commute)
      moreover have "buffer_in (put_buffer m' value_out u') value_out = u'"
        using buffer_in_put[OF c(4)] c(5) into_len_bound(1)[OF u(1)] by simp
      moreover have "agree_off (range_of out \<union> ?V) m (put_buffer m' value_out u')"
        using agree_off_trans[OF agree_off_mono[OF c(6)] agree_off_mono[OF off]] by simp
      ultimately show ?thesis
        using Some p(1) type u True fits out(1,2) c(1,3) by (simp add: copy_config_buf_def)
    next
      case False
      then show ?thesis using Some p(1) type u True out(1,2) c by (auto simp: copy_config_buf_def)
    qed
  qed
qed

end
