(* ===== verification/Client_Props.thy ===== *)
theory Client_Props
  imports Client_Calls
begin

text \<open>
  What the IPC client promises: no response is delivered to a call that has returned, stream ids are unique,
  calls, subscriptions and connections complete when the server answers, connecting leaks no descriptor, and
  two defects of the wait and of a failed send. The witnesses run on a small client that connects and calls.
\<close>

section \<open>A small client\<close>

lemma write_room: "bs \<noteq> [] \<Longrightarrow> length bs \<le> n \<Longrightarrow> gg_socket_write (Room n # tx) bs = Some (GG_ERR_OK, bs, tx)"
  by (simp add: gg_socket_write_def gg_file_write_def file_write_loop.simps gg_file_write_partial_def)

definition empty_map :: GgMap where "empty_map = \<lparr>map_pairs = NULL, map_len = 0\<rparr>"
definition empty_obj :: GgObject where "empty_obj = pack (le_bytes 8 0) (le_bytes 2 0) GG_TYPE_MAP"

lemma empty_obj_map: "gg_obj_map empty_map = Some empty_obj"
  by (simp add: empty_map_def empty_obj_def gg_obj_packed)

lemma length_empty_obj [simp]: "length empty_obj = 11"
  by (simp add: empty_obj_def)

lemma empty_obj_pre: "p \<noteq> NULL \<Longrightarrow> json_pre p (VMap []) {p..<p + 11} (wr m p empty_obj)"
proof -
  assume "p \<noteq> NULL"
  moreover have "rd (wr m p empty_obj) p 11 = empty_obj" by (simp add: rd_wr_same')
  ultimately show ?thesis
    by (simp add: json_pre_def gg_obj_into_map_def empty_obj_def within_limits_def GG_MAX_OBJECT_DEPTH_def GG_MAX_OBJECT_SUBOBJECTS_def)
qed

definition ack_headers :: "EventStreamHeader list" where
  "ack_headers = [int_header '':message-type'' EVENTSTREAM_CONNECT_ACK, int_header '':message-flags'' 1, int_header '':stream-id'' 0]"

definition response_headers :: "EventStreamHeader list" where
  "response_headers = [int_header '':message-type'' EVENTSTREAM_APPLICATION_MESSAGE, int_header '':message-flags'' 0, int_header '':stream-id'' 1]"

definition demo_start :: client where
  "demo_start = \<lparr>ipc_conn_fd = -1, epoll_fd = 4, recv_thread_id = 7, tbl = init_streams, next_stream_id = 1, frames = Map.empty,
     cl_mem = wr (\<lambda>_. 0) 100 empty_obj,
     cl_os = \<lparr>os_fds = [0, 1, 2, 4], os_ret = [None, None, None, None, None], os_errno = EINTR, os_opened = []\<rparr>,
     cl_rx = [Arrived (es_packet ack_headers [])], cl_tx = [Room 10000], cl_sent = [],
     ipc_recv_mem = 20000, ipc_recv_decode_mem = 40000, ipc_send_mem = 4096, pruned_buf = \<lparr>buf_data = 50000, buf_len = 0\<rparr>,
     json_fuel = 1000\<rparr>"

definition demo_request :: "GgIpcSubscribeCallback option \<Rightarrow> request" where
  "demo_request cb = \<lparr>rq_operation = str ''op'', rq_service_model_type = str ''model'', rq_params = empty_map,
     rq_result_callback = None, rq_error_callback = None, rq_response_ctx = NULL, rq_sub_callback = cb,
     rq_sub_callback_ctx = NULL, rq_sub_callback_aux_ctx = NULL, rq_handle = (cb \<noteq> None)\<rparr>"

lemma demo_common:
  "common_of ack_headers = Inr \<lparr>ch_stream_id = 0, ch_message_type = 5, ch_message_flags = 1\<rparr>"
  "common_of response_headers = Inr \<lparr>ch_stream_id = 1, ch_message_type = 0, ch_message_flags = 0\<rparr>"
  by (simp_all add: common_of_def ack_headers_def response_headers_def int_header_def common_header_step_def eventstream_consts)

lemma length_headers:
  "length (header_bytes (int_header n x)) = length n + 6" "length (header_bytes (str_header n s)) = length n + length s + 4"
  by (simp_all add: header_bytes_def header_chunks_def value_chunks_def int_header_def str_header_def write_be_u32_def)

lemma demo_lengths:
  "length (es_packet ack_headers []) \<le> 200" "length (es_packet response_headers []) \<le> 200"
  "length (connect_packet (VMap [])) \<le> 200" "length (request_packet (demo_request cb) x (VMap [])) \<le> 400"
  by (simp_all add: length_packet connect_packet_def request_packet_def ack_headers_def response_headers_def connect_headers_def
      request_headers_def demo_request_def length_headers str_def)

lemma packet_not_empty [simp]: "es_packet hs pl \<noteq> []"
  using length_packet[of hs pl] by auto

lemma demo_headers_ok [simp]:
  "list_all hdr_ok ack_headers" "list_all hdr_ok response_headers" "list_all hdr_ok (request_headers (demo_request cb) x)"
  by (simp_all add: ack_headers_def response_headers_def request_headers_def demo_request_def int_header_def str_header_def hdr_ok_def str_def)

lemma demo_can_connect: "can_connect [] 100 (VMap []) demo_start"
proof -
  have "gg_socket_write [Room 10000] (connect_packet (VMap [])) = Some (GG_ERR_OK, connect_packet (VMap []), [])"
    using demo_lengths(3) by (intro write_room) (simp_all add: connect_packet_def)
  moreover have "\<exists>F. json_pre 100 (VMap []) F (cl_mem demo_start) \<and> {4096..<4096 + GG_IPC_MAX_MSG_LEN} \<inter> F = {}"
    using empty_obj_pre[of 100] by (intro exI[of _ "{100..<111}"]) (auto simp: demo_start_def)
  ultimately show ?thesis
    using demo_lengths(3) by (simp add: can_connect_def demo_start_def connected_def SUN_PATH_LEN_def GG_IPC_MAX_MSG_LEN_def)
qed

lemma demo_incoming_ack: "incoming ack_headers [] \<lparr>ch_stream_id = 0, ch_message_type = 5, ch_message_flags = 1\<rparr> [] demo_start"
  using demo_lengths(1) by (simp add: incoming_def demo_start_def demo_common GG_IPC_MAX_MSG_LEN_def)

lemma demo_accepts: "accepts \<lparr>ch_stream_id = 0, ch_message_type = 5, ch_message_flags = 1\<rparr>"
  by (simp add: accepts_def eventstream_consts)

text \<open>The client after it has connected, with room to send and a response on its way.\<close>

lemma demo_connected:
  "\<exists>cl. client_reachable cl \<and> connected cl \<and> tbl cl = init_streams \<and> frames cl = Map.empty \<and> next_stream_id cl = 1 \<and>
    recv_thread_id cl = 7 \<and> ipc_send_mem cl = 4096 \<and> cl_mem cl = (\<lambda>_. 0) \<and> cl_tx cl = [Room 10000, Room 10000] \<and>
    cl_rx cl = [Arrived (es_packet response_headers [])]"
proof -
  obtain cl where cl: "ggipc_connect_with_payload ggipc_connect_extra_header_handler [] 100 demo_start = Some (GG_ERR_OK, cl)"
    "ipc_conn_fd cl = int (lowest_fd [0, 1, 2, 4])" "tbl cl = init_streams" "frames cl = Map.empty" "next_stream_id cl = 1"
    "recv_thread_id cl = 7" "ipc_send_mem cl = 4096"
    using connect_completes[OF demo_can_connect demo_incoming_ack demo_accepts, of ggipc_connect_extra_header_handler]
    by (auto simp: ggipc_connect_extra_header_handler_def demo_start_def)
  have "client_reachable demo_start" by (rule client_reachable.start) (simp add: client_start_def demo_start_def)
  then have "client_reachable cl" using connects[OF cl(1)] by (rule client_reachable.step)
  from client_reachable.step[OF this environment[where m = "\<lambda>_. 0" and
      rx = "[Arrived (es_packet response_headers [])]" and tx = "[Room 10000, Room 10000]" and os = "cl_os cl"]]
  show ?thesis
    using cl by (intro exI) (auto simp: connected_def)
qed

lemma demo_can_send:
  assumes "connected cl" "0 \<in> set (stream_state_id (tbl cl))" "frames cl p = None" "next_stream_id cl = x" "x \<noteq> 0x7FFFFFFF"
    "recv_thread_id cl = 7" "ipc_send_mem cl = 4096" "cl_tx cl = Room 10000 # tx" "0 < p" "p + 11 \<le> 4096"
  shows "can_send 1 p (demo_request cb) (VMap []) cl"
proof -
  let ?P = "request_packet (demo_request cb) x (VMap [])"
  have w: "gg_socket_write (Room 10000 # tx) ?P = Some (GG_ERR_OK, ?P, tx)"
    using demo_lengths(4)[of cb x] by (intro write_room) (simp_all add: request_packet_def)
  have o: "\<exists>po F. gg_obj_map (rq_params (demo_request cb)) = Some po \<and> json_pre p (VMap []) F (wr (cl_mem cl) p po) \<and>
        {4096..<4096 + GG_IPC_MAX_MSG_LEN} \<inter> F = {}"
    using empty_obj_pre[of p "cl_mem cl"] assms
    by (intro exI[of _ empty_obj] exI[of _ "{p..<p + 11}"]) (auto simp: demo_request_def empty_obj_map)
  show ?thesis
    using assms w o demo_lengths(4)[of cb x] by (auto simp: can_send_def GG_IPC_MAX_MSG_LEN_def)
qed

text \<open>A connected client that is about to call, and the same client while the call waits.\<close>

lemma demo_ready:
  obtains cl where "client_reachable cl" "connected cl" "frames cl = Map.empty" "next_stream_id cl = 1" "recv_thread_id cl = 7"
    "ipc_send_mem cl = 4096" "cl_rx cl = [Arrived (es_packet response_headers [])]" "\<And>cb. can_send 1 100 (demo_request cb) (VMap []) cl"
    "tbl cl = init_streams"
proof -
  obtain cl where cl: "client_reachable cl" "connected cl" "tbl cl = init_streams" "frames cl = Map.empty" "next_stream_id cl = 1"
    "recv_thread_id cl = 7" "ipc_send_mem cl = 4096" "cl_tx cl = [Room 10000, Room 10000]"
    "cl_rx cl = [Arrived (es_packet response_headers [])]"
    using demo_connected by blast
  have "can_send 1 100 (demo_request cb) (VMap []) cl" for cb
    by (rule demo_can_send[where x = 1 and tx = "[Room 10000]"]) (simp_all add: cl init_streams_def GG_IPC_MAX_STREAMS_def)
  with cl that show ?thesis by blast
qed

section \<open>Properties\<close>

text \<open>C1: Safety of the pointers to other threads' stacks. In every reachable state, under every interleaving
  of calls, wake-ups, timeouts, closings and received packets, the slot that a received packet selects either
  belongs to a subscription or holds the context of a call that has not returned, has no response yet and
  waits on this very slot.\<close>

theorem response_context_live:
  assumes "client_reachable cl" "get_stream_index_from_id (tbl cl) x = Some i" "sh_fn (slot_handler cl i) = None"
  shows "\<exists>fr. frames cl (sh_ctx (slot_handler cl i)) = Some fr \<and> \<not> rh_ready (fr_ctx fr) \<and> fr_index fr = i"
proof -
  note inv = client_inv_reachable[OF assms(1)]
  note slot = found_slot[OF inv assms(2)]
  show ?thesis using client_invD(5)[OF inv slot(1), of "sh_ctx (slot_handler cl i)"] slot(2,3) assms(3) by (simp add: awaits_def)
qed

lemma demo_pending:
  obtains cl where "client_reachable cl" "waiting cl 100 0 1 (demo_request None)" "next_stream_id cl = 2" "connected cl" "recv_thread_id cl = 7"
    "ipc_send_mem cl = 4096" "cl_rx cl = [Arrived (es_packet response_headers [])]" "\<And>p. p \<noteq> 100 \<Longrightarrow> frames cl p = None"
    "stream_state_id (tbl cl) = (replicate 16 0)[0 := 1]"
proof -
  obtain cl where cl: "client_reachable cl" "connected cl" "frames cl = Map.empty" "next_stream_id cl = 1" "recv_thread_id cl = 7"
    "ipc_send_mem cl = 4096" "cl_rx cl = [Arrived (es_packet response_headers [])]" "can_send 1 100 (demo_request None) (VMap []) cl"
    "tbl cl = init_streams" using demo_ready by metis
  note inv = client_inv_reachable[OF cl(1)]
  obtain i t h m tx where b: "subscribe_begin 1 100 (demo_request None) cl = Some (None, h,
      cl\<lparr>tbl := t, next_stream_id := next_stream_id cl + 1, cl_mem := m, cl_sent := cl_sent cl @ request_packet (demo_request None) 1 (VMap []),
        cl_tx := tx, frames := (frames cl)(100 \<mapsto> \<lparr>fr_ctx = request_ctx (demo_request None), fr_index = i\<rparr>)\<rparr>)"
    using begin_sends[OF cl(8) client_invD(1)[OF inv]] cl(4) by auto
  let ?c = "cl\<lparr>tbl := t, next_stream_id := next_stream_id cl + 1, cl_mem := m, cl_sent := cl_sent cl @ request_packet (demo_request None) 1 (VMap []),
        cl_tx := tx, frames := (frames cl)(100 \<mapsto> \<lparr>fr_ctx = request_ctx (demo_request None), fr_index = i\<rparr>)\<rparr>"
  have claim: "map_option fst (claim_stream_index init_streams) = Some 0"
    by (simp add: claim_stream_index_def init_streams_def GG_IPC_MAX_STREAMS_def numeral_eq_Suc)
  have w: "waiting ?c 100 i 1 (demo_request None)" "i = 0" "stream_state_id t = (replicate 16 0)[0 := 1]"
    using begin_waits[OF inv cl(8)] b cl(3,4,9) claim
    by (auto simp: waiting_def init_streams_def GG_IPC_MAX_STREAMS_def dest!: map_upd_eqD1)
  have r: "client_reachable ?c" using client_reachable.step[OF cl(1) subscribes[OF _ b]] cl(3) by simp
  show ?thesis by (rule that[OF r]) (use cl w in \<open>simp_all add: connected_def\<close>)
qed

theorem response_context_live_witness:
  "\<exists>cl i fr. get_stream_index_from_id (tbl cl) 1 = Some i \<and> frames cl (sh_ctx (slot_handler cl i)) = Some fr \<and> fr_index fr = i"
proof -
  obtain cl where c: "client_reachable cl" "waiting cl 100 0 1 (demo_request None)" using demo_pending by metis
  then have "get_stream_index_from_id (tbl cl) 1 = Some 0" "sh_fn (slot_handler cl 0) = None"
    using find_slot[OF client_inv_reachable[OF c(1)]] by (simp_all add: waiting_def awaits_def)
  then show ?thesis using response_context_live[OF c(1)] by blast
qed

text \<open>C23: In every reachable state the table has all its slots, and the ids in use are positive, pairwise
  distinct and below the next id.\<close>

theorem stream_ids_unique:
  assumes "client_reachable cl"
  shows "wf_streams (tbl cl) \<and>
    (\<forall>i < GG_IPC_MAX_STREAMS. slot_id cl i \<noteq> 0 \<longrightarrow> 0 < sint (slot_id cl i) \<and> sint (slot_id cl i) < sint (next_stream_id cl) \<and>
      (\<forall>j < GG_IPC_MAX_STREAMS. slot_id cl j = slot_id cl i \<longrightarrow> j = i))"
  using client_inv_reachable[OF assms] unfolding client_inv_def by metis

theorem stream_ids_unique_witness: "wf_streams (tbl demo_start)"
  using stream_ids_unique[of demo_start] by (simp add: client_reachable.start client_start_def demo_start_def)


lemma demo_response:
  "cl_rx cl = [Arrived (es_packet response_headers [])] \<Longrightarrow>
   incoming response_headers [] \<lparr>ch_stream_id = 1, ch_message_type = 0, ch_message_flags = 0\<rparr> [] cl"
  using demo_lengths(2) by (simp add: incoming_def demo_common GG_IPC_MAX_MSG_LEN_def)


text \<open>C24: A subscription whose request the server accepts returns OK with a handle that names the stream, and
  the stream's slot holds the callback and its contexts; nothing is left of the call itself.\<close>

theorem ggipc_subscribe_registers:
  assumes "client_reachable cl" "can_send tid fp rq v cl" "incoming hs pl com rest cl" "ch_stream_id com = next_stream_id cl"
    "ch_message_type com = EVENTSTREAM_APPLICATION_MESSAGE" "\<not> terminates_stream com"
    "rq_result_callback rq = None" "rq_sub_callback rq = Some cb" "rq_handle rq"
  shows "\<exists>i h cl'. ggipc_subscribe tid fp (replicate k Woken @ [Received, Woken]) rq cl = Some (GG_ERR_OK, Some h, cl') \<and>
    validate_handle (tbl cl') h = Inr i \<and> slot_id cl' i = next_stream_id cl \<and>
    slot_handler cl' i = \<lparr>sh_fn = Some cb, sh_ctx = rq_sub_callback_ctx rq, sh_aux_ctx = rq_sub_callback_aux_ctx rq\<rparr> \<and>
    frames cl' = frames cl \<and> cl_sent cl' = cl_sent cl @ request_packet rq (next_stream_id cl) v"
proof -
  obtain i h t cl' where c: "i < GG_IPC_MAX_STREAMS" "stream_state_id t = (stream_state_id (tbl cl))[i := next_stream_id cl]"
    "get_current_handle t i = Some h" "wf_streams t"
    "ggipc_subscribe tid fp (replicate k Woken @ [Received, Woken]) rq cl = Some (answer rq com, if rq_handle rq then Some h else None, cl')"
    "tbl cl' = answered_tbl rq com i t" "frames cl' = frames cl" "cl_sent cl' = cl_sent cl @ request_packet rq (next_stream_id cl) v"
    using subscribe_completes[OF client_inv_reachable[OF assms(1)] assms(2-5,7), of k] by blast
  have t: "tbl cl' = set_stream_index i (next_stream_id cl) \<lparr>sh_fn = Some cb, sh_ctx = rq_sub_callback_ctx rq, sh_aux_ctx = rq_sub_callback_aux_ctx rq\<rparr> t"
    using c(6) assms(4,6,8) by (simp add: answered_tbl_def)
  then have "validate_handle (tbl cl') h = Inr i"
    using validate_current[OF c(3), of "tbl cl'"] c(4) by (simp add: set_stream_index_def wf_streams_def)
  moreover have "slot_id cl' i = next_stream_id cl"
    "slot_handler cl' i = \<lparr>sh_fn = Some cb, sh_ctx = rq_sub_callback_ctx rq, sh_aux_ctx = rq_sub_callback_aux_ctx rq\<rparr>"
    using t c(1,4) by (simp_all add: set_stream_index_def wf_streams_def)
  moreover have "answer rq com = GG_ERR_OK" using assms(6) by (simp add: answer_def)
  ultimately show ?thesis using c(5,7,8) assms(9) by auto
qed

definition quiet_callback :: GgIpcSubscribeCallback where
  "quiet_callback ctx aux handle model data m = Some (GG_ERR_OK, [], m)"

theorem ggipc_subscribe_registers_witness:
  "\<exists>cl h cl' i. ggipc_subscribe 1 100 [Received, Woken] (demo_request (Some quiet_callback)) cl = Some (GG_ERR_OK, Some h, cl') \<and>
     validate_handle (tbl cl') h = Inr i"
proof -
  obtain cl where cl: "client_reachable cl" "next_stream_id cl = 1" "cl_rx cl = [Arrived (es_packet response_headers [])]"
    "can_send 1 100 (demo_request (Some quiet_callback)) (VMap []) cl"
    using demo_ready by metis
  show ?thesis
    using ggipc_subscribe_registers[OF cl(1,4) demo_response[OF cl(3)], of quiet_callback 0] cl(2)
    by (auto simp: eventstream_consts terminates_stream_def demo_request_def)
qed

text \<open>C30: Closing a subscription. A handle that is not valid has no effect. A valid one releases its slot, after
  which the handle is unknown; the other slots and the calls in progress are as before.\<close>

theorem ggipc_close_subscription_releases:
  assumes "wf_streams (tbl cl)" "ggipc_close_subscription h cl = Some cl'"
  shows "case validate_handle (tbl cl) h of Inl _ \<Rightarrow> cl' = cl
    | Inr i \<Rightarrow> slot_id cl' i = 0 \<and> slot_handler cl' i = no_handler \<and> validate_handle (tbl cl') h = Inl GG_ERR_NOENTRY \<and>
        (\<forall>j. j \<noteq> i \<longrightarrow> slot_id cl' j = slot_id cl j \<and> slot_handler cl' j = slot_handler cl j) \<and> frames cl' = frames cl"
proof (cases "validate_handle (tbl cl) h")
  case (Inr i)
  then obtain hs ret cl1 where c: "ipc_send_packet hs None cl = Some (ret, cl1)" "cl' = upd_tbl (clear_stream_index i) cl1"
    using assms(2) by (auto simp: ggipc_close_subscription_def Let_def elim!: bind_SomeE)
  have f: "tbl cl1 = tbl cl" "frames cl1 = frames cl" using c(1) by (auto elim!: send_core)
  have i: "i < GG_IPC_MAX_STREAMS" "i = unat (ucast ((h AND 0xFFFF) - 1) :: 16 word)"
    and g: "ucast (drop_bit 16 h) = stream_state_generation (tbl cl) ! i"
    using Inr by (auto simp: validate_handle_def Let_def split: if_splits)
  have "validate_handle (tbl cl') h = Inl GG_ERR_NOENTRY"
    using i g assms(1) c(2) f by (simp add: validate_handle_def Let_def clear_stream_index_def wf_streams_def)
  then show ?thesis
    using Inr c(2) f i(1) assms(1) by (simp add: clear_stream_index_def nth_update wf_streams_def)
qed (use assms(2) in \<open>simp add: ggipc_close_subscription_def\<close>)

theorem ggipc_close_subscription_releases_witness: "ggipc_close_subscription 0 demo_start = Some demo_start"
proof -
  have "ggipc_close_subscription 0 demo_start \<noteq> None" by (simp add: ggipc_close_subscription_def handle_zero_invalid)
  then show ?thesis
    using ggipc_close_subscription_releases[of demo_start 0] by (auto simp: handle_zero_invalid demo_start_def)
qed

text \<open>C29: A call that fails before it waits has no lasting effect on the client: the error is not OK, the ids in use
  and the contexts of the other calls are unchanged, and a handle that was stored for the caller is already
  unknown to the client.\<close>

theorem failed_call_releases:
  assumes "client_reachable cl" "subscribe_begin tid fp rq cl = Some (Some e, h, cl')"
  shows "e \<noteq> GG_ERR_OK \<and> stream_state_id (tbl cl') = stream_state_id (tbl cl) \<and> frames cl' = frames cl \<and>
    (\<forall>x. h = Some x \<longrightarrow> validate_handle (tbl cl') x = Inl GG_ERR_NOENTRY)"
proof (cases "claim_stream_index (tbl cl) = None \<or> \<not> connected cl \<or> recv_thread_id cl = tid")
  case False
  note wf = client_inv_wf[OF client_inv_reachable[OF assms(1)]]
  obtain i t where claim: "claim_stream_index (tbl cl) = Some (i, t)" using False by auto
  note c = claim_Some[OF claim wf]
  let ?t = "set_stream_index i (next_stream_id cl) \<lparr>sh_fn = None, sh_ctx = fp, sh_aux_ctx = NULL\<rparr> t"
  obtain x0 where gh: "get_current_handle ?t i = Some x0" using c(1) by (simp add: get_current_handle_def)
  obtain m po cl1 hd where s: "ipc_send_packet hd po (cl\<lparr>tbl := ?t, next_stream_id := next_stream_id cl + 1, cl_mem := m\<rparr>) = Some (e, cl1)"
      "e \<noteq> GG_ERR_OK" "cl' = upd_tbl (clear_stream_index i) cl1" "h = None \<or> h = Some x0"
    using assms(2) claim False gh by (auto simp: subscribe_begin_def Let_def elim!: bind_SomeE split: if_splits)
  from s(1) have f: "tbl cl1 = ?t" "frames cl1 = frames cl" by (auto elim!: send_core)
  have wft: "wf_streams (clear_stream_index i ?t)" using wf_claim[OF claim] wf by simp
  have ids: "stream_state_id (tbl cl') = stream_state_id (tbl cl)"
    using c(2,3) s(3) f(1) by (simp add: clear_stream_index_def set_stream_index_def) (metis list_update_id)
  have "validate_handle (tbl cl') x = Inl GG_ERR_NOENTRY" if "h = Some x" for x
    using validate_current[OF gh wft] that s(3,4) f(1) c(1,3) wf
    by (simp add: clear_stream_index_def set_stream_index_def wf_streams_def)
  then show ?thesis using s(2,3) f(2) ids by simp
qed (use assms(2) in \<open>auto simp: subscribe_begin_def split: if_splits option.splits\<close>)

theorem failed_call_releases_witness:
  "\<exists>e h cl'. subscribe_begin 1 100 (demo_request None) demo_start = Some (Some e, h, cl') \<and> e \<noteq> GG_ERR_OK \<and> frames cl' = frames demo_start"
proof -
  have r: "client_reachable demo_start" by (rule client_reachable.start) (simp add: client_start_def demo_start_def)
  have b: "subscribe_begin 1 100 (demo_request None) demo_start = Some (Some GG_ERR_NOCONN, None, demo_start)"
    by (simp add: subscribe_begin_def connected_def demo_start_def)
  from failed_call_releases[OF r b] b show ?thesis by blast
qed

text \<open>Connecting. When the kernel opens the socket and takes the packet and the server accepts, the client is
  connected on the new descriptor, has sent exactly the connect packet with the given payload, and the bytes
  after the server's answer are still to be read.\<close>

theorem ggipc_connect_completes:
  assumes "can_connect path p v cl" "incoming hs pl com rest cl" "accepts com"
  shows "\<exists>cl'. ggipc_connect_with_payload ggipc_connect_extra_header_handler path p cl = Some (GG_ERR_OK, cl') \<and> connected cl' \<and>
    ipc_conn_fd cl' = int (lowest_fd (os_fds (cl_os cl))) \<and> cl_sent cl' = cl_sent cl @ connect_packet v \<and> arriving (cl_rx cl') = rest"
  using connect_completes[OF assms, of ggipc_connect_extra_header_handler]
  by (auto simp: ggipc_connect_extra_header_handler_def connected_def)

theorem ggipc_connect_completes_witness:
  "\<exists>cl'. ggipc_connect_with_payload ggipc_connect_extra_header_handler [] 100 demo_start = Some (GG_ERR_OK, cl') \<and> connected cl'"
  using ggipc_connect_completes[OF demo_can_connect demo_incoming_ack demo_accepts] by blast

text \<open>C25: Connecting never leaks a descriptor and never leaves the client half connected: on every error path the
  open descriptors and \<open>ipc_conn_fd\<close> are as before, and on success the new descriptor is the connection's.\<close>

theorem ggipc_connect_no_leak:
  assumes "ggipc_connect_with_payload extra path p cl = Some (ret, cl')"
  shows "if ret = GG_ERR_OK then \<exists>fd. fd \<notin> set (os_fds (cl_os cl)) \<and> os_fds (cl_os cl') = fd # os_fds (cl_os cl) \<and> ipc_conn_fd cl' = int fd
    else os_fds (cl_os cl') = os_fds (cl_os cl) \<and> ipc_conn_fd cl' = ipc_conn_fd cl"
proof -
  obtain x os where x: "gg_connect path (cl_os cl) = Some (x, os)"
    using assms by (auto simp: ggipc_connect_with_payload_def elim!: bind_SomeE)
  note fds = gg_connect_fds[OF x]
  show ?thesis
  proof (cases x)
    case (Inl e)
    then show ?thesis using assms x fds by (auto simp: ggipc_connect_with_payload_def elim!: bind_SomeE)
  next
    case (Inr fd)
    obtain e cl1 where h: "connect_handshake extra (int fd) p (cl\<lparr>cl_os := os\<rparr>) = Some (e, cl1)"
      using assms x Inr by (auto simp: ggipc_connect_with_payload_def elim!: bind_SomeE)
    from handshake_fds[OF h] Inr fds have f: "os_fds (cl_os cl1) = fd # os_fds (cl_os cl)" "ipc_conn_fd cl1 = ipc_conn_fd cl"
      "fd \<notin> set (os_fds (cl_os cl))" by simp_all
    show ?thesis
    proof (cases "e = GG_ERR_OK")
      case True
      then show ?thesis using assms x Inr h f by (auto simp: ggipc_connect_with_payload_def elim!: bind_SomeE)
    next
      case False
      then obtain ce os2 where "gg_close (cl_os cl1) fd = Some (ce, os2)" "ret = e" "cl' = cl1\<lparr>cl_os := os2\<rparr>"
        using assms x Inr h by (auto simp: ggipc_connect_with_payload_def elim!: bind_SomeE)
      then show ?thesis using False f gg_close_fds[of "cl_os cl1" fd ce os2] by simp
    qed
  qed
qed

theorem ggipc_connect_no_leak_witness:
  "\<exists>cl' fd. ggipc_connect_with_payload ggipc_connect_extra_header_handler [] 100 demo_start = Some (GG_ERR_OK, cl') \<and>
     os_fds (cl_os cl') = fd # os_fds (cl_os demo_start)"
proof -
  obtain cl' where c: "ggipc_connect_with_payload ggipc_connect_extra_header_handler [] 100 demo_start = Some (GG_ERR_OK, cl')"
    using connect_completes[OF demo_can_connect demo_incoming_ack demo_accepts, of ggipc_connect_extra_header_handler]
    by (auto simp: ggipc_connect_extra_header_handler_def)
  from ggipc_connect_no_leak[OF c] c show ?thesis by auto
qed

lemma demo_answered:
  obtains cl fr where "client_reachable cl" "frames cl 100 = Some fr" "rh_ready (fr_ctx fr)" "next_stream_id cl = 2"
    "map_option fst (claim_stream_index (tbl cl)) = Some (fr_index fr)" "can_send 1 300 (demo_request None) (VMap []) cl"
proof -
  let ?com = "\<lparr>ch_stream_id = 1, ch_message_type = 0, ch_message_flags = 0\<rparr>"
  obtain cl where c: "client_reachable cl" "waiting cl 100 0 1 (demo_request None)" "next_stream_id cl = 2" "connected cl" "recv_thread_id cl = 7"
    "ipc_send_mem cl = 4096" "cl_rx cl = [Arrived (es_packet response_headers [])]" "\<And>p. p \<noteq> 100 \<Longrightarrow> frames cl p = None"
    "stream_state_id (tbl cl) = (replicate 16 0)[0 := 1]"
    by (rule demo_pending) blast
  obtain rx msg m where d: "dispatch_incoming_packet cl = dispatch_message ?com msg (cl\<lparr>cl_rx := rx, cl_mem := m\<rparr>)"
    using receive_message[OF demo_response[OF c(7)]] by auto
  let ?t = "answered_tbl (demo_request None) ?com 0 (tbl cl)"
  let ?fr = "\<lparr>fr_ctx = (request_ctx (demo_request None))\<lparr>rh_ret := answer (demo_request None) ?com, rh_ready := True\<rparr>, fr_index = 0\<rparr>"
  let ?cl = "(cl\<lparr>cl_rx := rx, cl_mem := m\<rparr>)\<lparr>tbl := ?t, frames := (frames cl)(100 \<mapsto> ?fr)\<rparr>"
  have "data_ready_callback cl 0 = Some (GG_ERR_OK, ?cl)"
    using response_completes[of "cl\<lparr>cl_rx := rx, cl_mem := m\<rparr>" 100 0 ?com "demo_request None" msg] client_inv_reachable[OF c(1)] c(2)
    by (simp add: data_ready_callback_def d eventstream_consts demo_request_def)
  from client_reachable.step[OF c(1) receives[OF this]] have "client_reachable ?cl" .
  from client_reachable.step[OF this environment[where m = "\<lambda>_. 0" and rx = "[]" and tx = "[Room 10000]" and os = "cl_os cl"]]
  have r: "client_reachable (?cl\<lparr>cl_mem := \<lambda>_. 0, cl_rx := [], cl_tx := [Room 10000], cl_os := cl_os cl\<rparr>)" (is "client_reachable ?c3") .
  have ids: "stream_state_id ?t = replicate 16 0"
    using c(9) by (simp add: answered_tbl_def demo_request_def clear_stream_index_def numeral_eq_Suc)
  have "can_send 1 300 (demo_request None) (VMap []) ?c3"
    by (rule demo_can_send[where x = 2 and tx = "[]"]) (use c ids in \<open>simp_all add: connected_def\<close>)
  moreover have "map_option fst (claim_stream_index (tbl ?c3)) = Some 0"
    using ids by (simp add: claim_stream_index_def numeral_eq_Suc)
  ultimately show ?thesis by (intro that[OF r, of ?fr]) (simp_all add: c(3))
qed

text \<open>C38: A defect of the wait. When a call's wait times out it releases its slot without looking whether its
  response has arrived. If the response came first, the slot may already belong to a new call: then the first
  call reports a timeout although it was answered, and the second one loses its stream, so that its own
  response is dropped and it can only time out.\<close>

theorem late_timeout_drops_call:
  assumes "client_reachable cl" "frames cl p = Some fr" "rh_ready (fr_ctx fr)"
    "map_option fst (claim_stream_index (tbl cl)) = Some (fr_index fr)" "can_send tid q rq v cl"
  shows "\<exists>h cl1 cl2. subscribe_begin tid q rq cl = Some (None, h, cl1) \<and> subscribe_timed_out p cl1 = Some (GG_ERR_TIMEOUT, cl2) \<and>
    frames cl2 q = Some \<lparr>fr_ctx = request_ctx rq, fr_index = fr_index fr\<rparr> \<and> \<not> rh_ready (request_ctx rq) \<and>
    (\<forall>com msg. ch_stream_id com = next_stream_id cl \<longrightarrow> dispatch_message com msg cl2 = Some (GG_ERR_OK, cl2))"
proof -
  note inv = client_inv_reachable[OF assms(1)]
  let ?i = "fr_index fr"
  obtain h cl1 where b: "?i < GG_IPC_MAX_STREAMS" "subscribe_begin tid q rq cl = Some (None, h, cl1)" "client_inv cl1"
    "waiting cl1 q ?i (next_stream_id cl) rq" "frames cl1 = (frames cl)(q \<mapsto> \<lparr>fr_ctx = request_ctx rq, fr_index = ?i\<rparr>)"
    using begin_waits[OF inv assms(5)] assms(4) by auto
  have pq: "p \<noteq> q" using assms(2,5) by (auto simp: can_send_def)
  define cl2 where "cl2 = (upd_tbl (clear_stream_index ?i) cl1)\<lparr>frames := (frames cl1)(p := None)\<rparr>"
  have t: "subscribe_timed_out p cl1 = Some (GG_ERR_TIMEOUT, cl2)"
    using b(5) assms(2) pq by (simp add: subscribe_timed_out_def cl2_def)
  have inv2: "client_inv cl2" by (rule client_inv_timed_out[OF b(3) t])
  have none: "get_stream_index_from_id (tbl cl2) (next_stream_id cl) = None"
  proof (cases "get_stream_index_from_id (tbl cl2) (next_stream_id cl)")
    case (Some j)
    note s = found_slot[OF inv2 Some]
    have "slot_id cl2 j = (if j = ?i then 0 else slot_id cl1 j)"
      using b(1) client_invD(1)[OF b(3)] by (simp add: cl2_def clear_stream_index_def nth_update wf_streams_def)
    with s(2,3) have "slot_id cl1 j = next_stream_id cl" "j \<noteq> ?i" by (metis, metis)
    then show ?thesis using client_invD(4)[OF b(3) s(1) b(1)] b(4) s(3) by (metis waiting_def)
  qed
  have "frames cl2 q = Some \<lparr>fr_ctx = request_ctx rq, fr_index = ?i\<rparr>" using b(5) pq by (simp add: cl2_def)
  moreover have "dispatch_message com msg cl2 = Some (GG_ERR_OK, cl2)" if "ch_stream_id com = next_stream_id cl" for com msg
    using none that by (simp add: dispatch_message_def)
  ultimately show ?thesis using b(2) t by (auto simp: request_ctx_def)
qed

theorem late_timeout_drops_call_witness:
  "\<exists>cl h cl1 cl2. subscribe_begin 1 300 (demo_request None) cl = Some (None, h, cl1) \<and>
     (\<exists>fr. frames cl1 100 = Some fr \<and> rh_ready (fr_ctx fr)) \<and>
     subscribe_timed_out 100 cl1 = Some (GG_ERR_TIMEOUT, cl2) \<and>
     dispatch_message \<lparr>ch_stream_id = 2, ch_message_type = 0, ch_message_flags = 0\<rparr> \<lparr>msg_headers = \<lparr>iter_count = 0, iter_pos = []\<rparr>, msg_payload = []\<rparr> cl2 =
       Some (GG_ERR_OK, cl2)"
proof -
  obtain cl fr where c: "client_reachable cl" "frames cl 100 = Some fr" "rh_ready (fr_ctx fr)" "next_stream_id cl = 2"
    "map_option fst (claim_stream_index (tbl cl)) = Some (fr_index fr)" "can_send 1 300 (demo_request None) (VMap []) cl"
    using demo_answered by metis
  obtain h cl1 cl2 where b: "subscribe_begin 1 300 (demo_request None) cl = Some (None, h, cl1)"
    "subscribe_timed_out 100 cl1 = Some (GG_ERR_TIMEOUT, cl2)"
    "\<And>com msg. ch_stream_id com = 2 \<Longrightarrow> dispatch_message com msg cl2 = Some (GG_ERR_OK, cl2)"
    using late_timeout_drops_call[OF c(1-3,5,6)] c(4) by auto
  have "frames cl1 100 = Some fr"
    using begin_waits[OF client_inv_reachable[OF c(1)] c(6)] b(1) c(2) by auto
  with b c(3) show ?thesis by (intro exI[of _ cl] exI[of _ h] exI) auto
qed

text \<open>C39: A defect of sending. When the kernel takes only a part of a packet before it fails, the call returns the
  error, but the client stays connected with the part sent, and the next packet is written after it.\<close>

theorem failed_send_leaves_part:
  assumes "json_pre p v F (cl_mem cl)" "list_all hdr_ok hs"
    "{ipc_send_mem cl..<ipc_send_mem cl + GG_IPC_MAX_MSG_LEN} \<inter> F = {}"
    "length (es_packet hs (json_text v)) \<le> GG_IPC_MAX_MSG_LEN"
    "gg_socket_write (cl_tx cl) (es_packet hs (json_text v)) = Some (e, s, tx)" "e \<noteq> GG_ERR_OK"
  shows "\<exists>cl' k. ipc_send_packet hs (Some (obj_read p)) cl = Some (e, cl') \<and> k < length (es_packet hs (json_text v)) \<and>
    cl_sent cl' = cl_sent cl @ take k (es_packet hs (json_text v)) \<and> length s = k \<and> connected cl' = connected cl"
proof -
  let ?P = "es_packet hs (json_text v)"
  obtain k where k: "k \<le> length ?P" "s = take k ?P" "k \<noteq> length ?P"
    using file_write_loop_prefix[of "cl_tx cl" ?P "[]" e s tx] assms(5,6) by (auto simp: gg_socket_write_def gg_file_write_def)
  obtain m where "ipc_send_packet hs (Some (obj_read p)) cl = Some (e, cl\<lparr>cl_mem := m, cl_sent := cl_sent cl @ s, cl_tx := tx\<rparr>)"
    using send_result[OF assms(1-5)] by blast
  then show ?thesis using k by (intro exI[of _ k] exI) (auto simp: connected_def)
qed

theorem failed_send_leaves_part_witness:
  "\<exists>cl'. ipc_send_packet connect_headers (Some (obj_read 100)) (demo_start\<lparr>cl_tx := [Room 5, WriteErr EAGAIN]\<rparr>) = Some (GG_ERR_FAILURE, cl') \<and>
     length (cl_sent cl') = 5"
proof -
  let ?P = "es_packet connect_headers (json_text (VMap []))"
  have len: "16 \<le> length ?P" "length ?P \<le> 200" using demo_lengths(3) by (simp_all add: length_packet connect_packet_def)
  have w: "gg_socket_write [Room 5, WriteErr EAGAIN] ?P = Some (GG_ERR_FAILURE, take 5 ?P, [])"
    using len
    by (simp add: gg_socket_write_def gg_file_write_def file_write_loop.simps[of "[Room 5, WriteErr EAGAIN]"]
        file_write_loop.simps[of "[WriteErr EAGAIN]"] gg_file_write_partial_def)
  show ?thesis
    using failed_send_leaves_part[OF _ connect_headers_ok, of 100 "VMap []" "{100..<111}" "demo_start\<lparr>cl_tx := [Room 5, WriteErr EAGAIN]\<rparr>"
        GG_ERR_FAILURE "take 5 ?P" "[]"] empty_obj_pre[of 100] w len
    by (auto simp: demo_start_def GG_IPC_MAX_MSG_LEN_def)
qed

end
