(* ===== verification/Ops_Props.thy ===== *)
theory Ops_Props
  imports Ops_Handlers Client_Props
begin

text \<open>
  What the operations of the IPC client promise: publishing puts exactly the documented request on the wire, the
  payload in base64; a message of a topic reaches the subscriber as it was published; and a configuration value is
  taken out of the response and copied for the caller.
\<close>

section \<open>Publishing\<close>

text \<open>The request that publishes the bytes \<open>payload\<close> to \<open>topic\<close>.\<close>

definition topic_binary_request :: "bytes \<Rightarrow> bytes \<Rightarrow> gg_val" where
  "topic_binary_request topic payload =
     VMap [(str ''topic'', VBuf topic),
           (str ''publishMessage'', VMap [(str ''binaryMessage'', VMap [(str ''message'', VBuf (b64 payload))])])]"

definition b64_range :: "caller \<Rightarrow> addr set" where
  "b64_range ca = {ca_b64_mem ca..<ca_b64_mem ca + GG_IPC_MAX_MSG_LEN}"

lemma publish_common_sends:
  assumes inv: "client_inv cl" and ready: "op_ready ca cl"
    and msg: "gg_obj_map mp = Some x" "stands m x v F" and t: "contents m topic = t" "buf_len topic < 65536" "buf_data topic < 2 ^ 64" "range_of topic \<subseteq> F"
    and lits: "literal ca m ''topic''" "lit_range ca ''topic'' \<subseteq> F" "literal ca m ''publishMessage''" "lit_range ca ''publishMessage'' \<subseteq> F"
    and apart: "F \<inter> {args_at ca..<args_at ca + 42} = {}" "F \<inter> op_frame ca = {}" "F \<inter> op_send cl = {}"
    and v: "within_limits (VMap [(str ''topic'', VBuf t), (str ''publishMessage'', v)])" "val_all json_ok v"
    and ans: "op_answered ca (op_packet ''aws.greengrass#PublishToTopic'' ''aws.greengrass#PublishToTopicRequest'' (next_stream_id cl)
       (VMap [(str ''topic'', VBuf t), (str ''publishMessage'', v)])) cl"
  shows "\<exists>cl'. publish_to_topic_common ca topic mp (cl\<lparr>cl_mem := m\<rparr>) = Some (GG_ERR_OK, cl') \<and>
    op_done (op_packet ''aws.greengrass#PublishToTopic'' ''aws.greengrass#PublishToTopicRequest'' (next_stream_id cl)
       (VMap [(str ''topic'', VBuf t), (str ''publishMessage'', v)])) cl cl'"
proof -
  let ?R = "{args_at ca..<args_at ca + 42}"
  obtain xt where xt: "gg_obj_buf topic = Some xt" "stands m xt (VBuf t) F"
    using stands_buf[OF t(2,3), of m] t(1,4) stands_mono by metis
  define as where "as = [(''topic'', xt, VBuf t), (''publishMessage'', x, v)]"
  have ok: "arg_ok ca m F (''topic'', xt, VBuf t)" "arg_ok ca m F (''publishMessage'', x, v)"
    using xt(2) msg(2) lits by (simp_all add: arg_ok_def)
  have "args_at ca < 2 ^ 64" using ready by (simp add: op_ready_def args_at_def)
  with ok apart(1) obtain m' args xa where b: "GG_MAP (args_at ca) (map (arg_kv ca) as) m = (m', args)" "gg_obj_map args = Some xa"
    "stands m' xa (VMap (map arg_val as)) (F \<union> ?R)" "agree_off ?R m m'"
    using map_built[of ca m F as "args_at ca"] by (auto simp: as_def)
  have R: "?R \<subseteq> op_stack ca" by (auto simp: op_stack_def args_at_def)
  then have "(F \<union> ?R) \<inter> op_frame ca = {}" "(F \<union> ?R) \<inter> op_send cl = {}" using apart ready by (auto simp: op_ready_def)
  from op_completes[OF inv ready b(2) _ this, of m' "VMap [(str ''topic'', VBuf t), (str ''publishMessage'', v)]"
      "''aws.greengrass#PublishToTopic''" "''aws.greengrass#PublishToTopicRequest''"] b(3) v ans
  show ?thesis
    using b(1) xt(1) msg(1) lit_kv_arg[OF ok(1)] lit_kv_arg[OF ok(2)]
    by (simp add: publish_to_topic_common_def as_def)
qed

text \<open>A map of one literal key inside the stack area.\<close>

lemma wrapped:
  assumes "op_ready ca cl" "literal ca m s" "lit_range ca s \<subseteq> F" "stands m x v F"
    and at: "ca_sp ca \<le> p" "p + 21 \<le> ca_sp ca + 1024" "F \<inter> {p..<p + 21} = {}"
  shows "\<exists>kv m' mp x'. lit_kv ca s (Some x) = Some kv \<and> GG_MAP p [kv] m = (m', mp) \<and> gg_obj_map mp = Some x' \<and>
    stands m' x' (VMap [(str s, v)]) (F \<union> {p..<p + 21}) \<and> agree_off {p..<p + 21} m m'"
proof -
  have ok: "arg_ok ca m F (s, x, v)" using assms by (simp add: arg_ok_def)
  have "p < 2 ^ 64" using assms(1) at by (simp add: op_ready_def)
  with map_built[of ca m F "[(s, x, v)]" p] ok at(3) lit_kv_arg[OF ok] show ?thesis by auto
qed

lemma encode_payload:
  assumes "ca_b64_mem ca + GG_IPC_MAX_MSG_LEN < 2 ^ 64" "ca_b64_mem ca \<noteq> NULL"
    "buf_len payload \<le> PTRDIFF_MAX div 2" "range_of payload \<inter> b64_range ca = {}"
  shows "if (buf_len payload + 2) div 3 * 4 \<le> GG_IPC_MAX_MSG_LEN
    then \<exists>b a m'. gg_base64_encode m payload (Some (b64_arena ca)) = Some (Inr b, a, m') \<and> range_of b \<subseteq> b64_range ca \<and>
      buf_len b < 65536 \<and> buf_data b < 2 ^ 64 \<and> contents m' b = b64 (contents m payload) \<and> agree_off (b64_range ca) m m'
    else gg_base64_encode m payload (Some (b64_arena ca)) = Some (Inl GG_ERR_NOMEM, Some (b64_arena ca), m)"
proof -
  let ?a = "b64_arena ca"
  have "arena_ok ?a" "arena_free ?a = b64_range ca" "arena_avail ?a = GG_IPC_MAX_MSG_LEN" "arena_mem ?a + arena_index ?a = ca_b64_mem ca"
    using assms(1,2) by (auto simp: b64_arena_def gg_arena_init_def arena_ok_def arena_free_def arena_avail_def b64_range_def
        GG_IPC_MAX_MSG_LEN_def int_limits)
  with encode_spec[of ?a payload m] assms(3,4) show ?thesis
    using assms(1) by (auto simp: range_of_def b64_range_def contents_def GG_IPC_MAX_MSG_LEN_def)
qed

text \<open>The text \<open>Bs\<close> of a payload, topic and literals are in \<open>F\<close>, outside of what the operation writes.\<close>

lemma publish_b64_sends:
  assumes inv: "client_inv cl" and ready: "op_ready ca cl" and F: "F \<inter> op_areas ca cl = {}"
    and b: "contents m b = bs" "buf_len b < 65536" "buf_data b < 2 ^ 64" "range_of b \<subseteq> F"
    and t: "contents m topic = t" "buf_len topic < 65536" "buf_data topic < 2 ^ 64" "range_of topic \<subseteq> F"
    and lits: "\<And>s. s \<in> {''topic'', ''publishMessage'', ''binaryMessage'', ''message''} \<Longrightarrow> literal ca m s \<and> lit_range ca s \<subseteq> F"
    and packet: "packet = op_packet ''aws.greengrass#PublishToTopic'' ''aws.greengrass#PublishToTopicRequest'' (next_stream_id cl)
       (VMap [(str ''topic'', VBuf t), (str ''publishMessage'', VMap [(str ''binaryMessage'', VMap [(str ''message'', VBuf bs)])])])"
    and ans: "op_answered ca packet cl"
  shows "\<exists>cl'. ggipc_publish_to_topic_binary_b64 ca topic b (cl\<lparr>cl_mem := m\<rparr>) = Some (GG_ERR_OK, cl') \<and> op_done packet cl cl'"
proof -
  let ?R1 = "{innermost_at ca..<innermost_at ca + 21}" and ?R2 = "{inner_at ca..<inner_at ca + 21}"
  have areas: "F \<inter> op_stack ca = {}" "F \<inter> op_frame ca = {}" "F \<inter> op_send cl = {}" using F by (auto simp: op_areas_def)
  have R: "?R1 \<subseteq> op_stack ca" "?R2 \<subseteq> op_stack ca" "?R1 \<inter> ?R2 = {}"
    by (auto simp: op_stack_def innermost_at_def inner_at_def)
  have at: "ca_sp ca \<le> innermost_at ca" "innermost_at ca + 21 \<le> ca_sp ca + 1024" "ca_sp ca \<le> inner_at ca" "inner_at ca + 21 \<le> ca_sp ca + 1024"
    by (simp_all add: innermost_at_def inner_at_def)
  obtain xb where xb: "gg_obj_buf b = Some xb" "stands m xb (VBuf bs) F"
    using stands_buf[OF b(2,3), of m] stands_mono[OF _ b(4)] b(1) by metis
  have F1: "F \<inter> ?R1 = {}" using areas R by blast
  obtain kv1 m1 mp1 x1 where w1: "lit_kv ca ''message'' (Some xb) = Some kv1" "GG_MAP (innermost_at ca) [kv1] m = (m1, mp1)"
    "gg_obj_map mp1 = Some x1" "stands m1 x1 (VMap [(str ''message'', VBuf bs)]) (F \<union> ?R1)" "agree_off ?R1 m m1"
    using wrapped[OF ready _ _ xb(2) at(1,2) F1, of "''message''"] lits by blast
  have lits1: "literal ca m1 s" "lit_range ca s \<subseteq> F \<union> ?R1" if "s \<in> {''topic'', ''publishMessage'', ''binaryMessage''}" for s
    using lits[of s] that literal_in[OF _ _ w1(5) F1, of ca s] by blast+
  have F2: "(F \<union> ?R1) \<inter> ?R2 = {}" using areas R by blast
  obtain kv2 m2 mp2 x2 where w2: "lit_kv ca ''binaryMessage'' (Some x1) = Some kv2" "GG_MAP (inner_at ca) [kv2] m1 = (m2, mp2)"
    "gg_obj_map mp2 = Some x2" "stands m2 x2 (VMap [(str ''binaryMessage'', VMap [(str ''message'', VBuf bs)])]) (F \<union> ?R1 \<union> ?R2)"
    "agree_off ?R2 m1 m2"
    using wrapped[OF ready _ _ w1(4) at(3,4) F2, of "''binaryMessage''"] lits1 by blast
  have lits2: "literal ca m2 s" "lit_range ca s \<subseteq> F \<union> ?R1 \<union> ?R2" if "s \<in> {''topic'', ''publishMessage''}" for s
    using lits1[of s] that literal_in[OF _ _ w2(5) F2, of ca s] by blast+
  let ?G = "F \<union> ?R1 \<union> ?R2" and ?A = "{args_at ca..<args_at ca + 42}"
  have A: "?A \<subseteq> op_stack ca" "?A \<inter> ?R1 = {}" "?A \<inter> ?R2 = {}" by (auto simp: op_stack_def args_at_def innermost_at_def inner_at_def)
  have ap: "op_stack ca \<inter> op_frame ca = {}" "op_stack ca \<inter> op_send cl = {}" using ready by (simp_all add: op_ready_def)
  have t2: "contents m2 topic = t" using contents_in[OF t(4) w1(5) F1] contents_in[OF _ w2(5) F2, of topic] t by auto
  have G: "?G \<inter> {args_at ca..<args_at ca + 42} = {}" "?G \<inter> op_frame ca = {}" "?G \<inter> op_send cl = {}" "range_of topic \<subseteq> ?G"
    using areas R A ap t(4) by blast+
  note topic = lits2[of "''topic''", simplified] and message = lits2[of "''publishMessage''", simplified]
  have "\<exists>cl'. publish_to_topic_common ca topic mp2 (cl\<lparr>cl_mem := m2\<rparr>) = Some (GG_ERR_OK, cl') \<and> op_done packet cl cl'"
    unfolding packet
    by (rule publish_common_sends[OF inv ready w2(3,4) t2 t(2,3) G(4) topic message G(1-3)])
       (use ans packet in \<open>simp_all add: within_limits_def GG_MAX_OBJECT_DEPTH_def GG_MAX_OBJECT_SUBOBJECTS_def\<close>)
  then show ?thesis
    using w1(1-3) w2(1,2) xb(1) by (simp add: ggipc_publish_to_topic_binary_b64_def)
qed

section \<open>Properties\<close>


text \<open>A caller with its literals, a topic and a payload in memory.\<close>

definition demo_lits :: "string list" where
  "demo_lits = [''topic'', ''publishMessage'', ''binaryMessage'', ''message'', ''value'', ''jsonMessage'', ''context'']"

definition demo_lit :: "bytes \<Rightarrow> addr" where
  "demo_lit bs = (case map_of (zip (map str demo_lits) [50000, 50100, 50200, 50300, 50600, 50700, 50800]) bs of None \<Rightarrow> 60000 | Some p \<Rightarrow> p)"

definition demo_caller :: caller where
  "demo_caller = \<lparr>ca_tid = 1, ca_fp = 100, ca_sp = 1000, ca_ws = [Received, Woken], ca_lit = demo_lit, ca_b64_mem = 30000\<rparr>"

definition demo_mem :: mem where
  "demo_mem = wr (wr (wr (wr (wr (wr (\<lambda>_. 0) 50000 (str ''topic'')) 50100 (str ''publishMessage'')) 50200 (str ''binaryMessage''))
     50300 (str ''message'')) 50400 (str ''ab'')) 50500 [1, 2]"

abbreviation demo_packet :: bytes where
  "demo_packet \<equiv> op_packet ''aws.greengrass#PublishToTopic'' ''aws.greengrass#PublishToTopicRequest'' 1 (topic_binary_request (str ''ab'') [1, 2])"

lemma demo_op_ready:
  obtains cl where "client_reachable cl" "op_ready demo_caller cl" "cl_mem cl = demo_mem" "next_stream_id cl = 1" "ipc_send_mem cl = 4096"
    "cl_rx cl = [Arrived (es_packet response_headers [])]" "cl_tx cl = [Room 10000]"
proof -
  obtain cl where cl: "client_reachable cl" "connected cl" "tbl cl = init_streams" "frames cl = Map.empty" "next_stream_id cl = 1"
    "recv_thread_id cl = 7" "ipc_send_mem cl = 4096"
    using demo_connected by blast
  let ?cl = "cl\<lparr>cl_mem := demo_mem, cl_rx := [Arrived (es_packet response_headers [])], cl_tx := [Room 10000], cl_os := cl_os cl\<rparr>"
  have "client_reachable ?cl"
    using client_reachable.step[OF cl(1) environment[where m = demo_mem and rx = "[Arrived (es_packet response_headers [])]" and
      tx = "[Room 10000]" and os = "cl_os cl"]] by simp
  moreover have "op_ready demo_caller ?cl"
    using cl by (auto simp: op_ready_def connected_def demo_caller_def init_streams_def GG_IPC_MAX_STREAMS_def op_stack_def op_frame_def
        op_send_def GG_IPC_MAX_MSG_LEN_def)
  ultimately show ?thesis by (rule that) (use cl in simp_all)
qed

lemma demo_lit_at:
  "GG_STR demo_caller ''topic'' = \<lparr>buf_data = 50000, buf_len = 5\<rparr>" "GG_STR demo_caller ''publishMessage'' = \<lparr>buf_data = 50100, buf_len = 14\<rparr>"
  "GG_STR demo_caller ''binaryMessage'' = \<lparr>buf_data = 50200, buf_len = 13\<rparr>" "GG_STR demo_caller ''message'' = \<lparr>buf_data = 50300, buf_len = 7\<rparr>"
  by (simp_all add: GG_STR_def demo_caller_def demo_lit_def demo_lits_def)

lemma demo_contents:
  "contents demo_mem \<lparr>buf_data = 50000, buf_len = 5\<rparr> = str ''topic''" "contents demo_mem \<lparr>buf_data = 50100, buf_len = 14\<rparr> = str ''publishMessage''"
  "contents demo_mem \<lparr>buf_data = 50200, buf_len = 13\<rparr> = str ''binaryMessage''" "contents demo_mem \<lparr>buf_data = 50300, buf_len = 7\<rparr> = str ''message''"
  "contents demo_mem \<lparr>buf_data = 50400, buf_len = 2\<rparr> = str ''ab''" "contents demo_mem \<lparr>buf_data = 50500, buf_len = 2\<rparr> = [1, 2]"
  by (simp_all add: contents_def demo_mem_def rd_wr_disjoint rd_wr_same')

lemma literalI:
  "GG_STR ca s = b \<Longrightarrow> contents m b = str s \<Longrightarrow> buf_data b < 2 ^ 64 \<Longrightarrow> length s < 65536 \<Longrightarrow> literal ca m s"
  by (auto simp: literal_def GG_STR_def)

lemma demo_literal:
  "literal demo_caller demo_mem ''topic''" "literal demo_caller demo_mem ''publishMessage''"
  "literal demo_caller demo_mem ''binaryMessage''" "literal demo_caller demo_mem ''message''"
  by (rule literalI[OF demo_lit_at(1) demo_contents(1)] literalI[OF demo_lit_at(2) demo_contents(2)]
      literalI[OF demo_lit_at(3) demo_contents(3)] literalI[OF demo_lit_at(4) demo_contents(4)]; simp)+

lemma demo_literals:
  assumes "cl_mem cl = demo_mem" "ipc_send_mem cl = 4096"
  shows "op_literals demo_caller cl [''topic'', ''publishMessage'', ''binaryMessage'', ''message''] (b64_range demo_caller)"
proof -
  have "lit_range demo_caller s \<subseteq> {50000..<51000}" if "s \<in> {''topic'', ''publishMessage'', ''binaryMessage'', ''message''}" for s
    using that by (auto simp: demo_lit_at range_of_def)
  moreover have "{50000..<51000} \<inter> (op_areas demo_caller cl \<union> b64_range demo_caller) = {}"
    using assms(2) by (auto simp: op_areas_def op_stack_def op_frame_def op_send_def b64_range_def demo_caller_def GG_IPC_MAX_MSG_LEN_def)
  moreover have "literal demo_caller demo_mem s" if "s \<in> {''topic'', ''publishMessage'', ''binaryMessage'', ''message''}" for s
    using that demo_literal by blast
  ultimately show ?thesis unfolding op_literals_def assms(1) list.set by blast
qed

lemma demo_packet_length: "length demo_packet \<le> 10000"
proof -
  have "length (json_text (topic_binary_request (str ''ab'') [1, 2])) \<le> 1000" by code_simp
  then show ?thesis by (simp add: op_packet_def length_packet length_headers)
qed

lemma publish_answered:
  assumes "cl_rx cl = [Arrived (es_packet response_headers [])]" "cl_tx cl = [Room 10000]" "next_stream_id cl = 1"
  shows "op_answered demo_caller demo_packet cl"
proof -
  have "gg_socket_write [Room 10000] demo_packet = Some (GG_ERR_OK, demo_packet, [])"
    by (rule write_room) (use demo_packet_length in \<open>simp_all add: op_packet_def\<close>)
  moreover have "ca_ws demo_caller = replicate 0 Woken @ [Received, Woken]" by (simp add: demo_caller_def)
  ultimately show ?thesis
    using demo_response[OF assms(1)] assms demo_packet_length unfolding op_answered_def GG_IPC_MAX_MSG_LEN_def
    by (fastforce simp: eventstream_consts)
qed


text \<open>C18: A message of a topic subscription. When the message the server sent is well formed, the subscriber's callback gets
  its topic and its payload, a binary payload as the bytes whose base64 text was sent; the handler then returns what
  the callback leaves. Every other message, one with a wrong type, with both kinds of payload or with none, with a
  missing field or a text that is not base64, is refused with INVALID without calling the subscriber.\<close>

theorem subscribe_to_topic_delivers:
  assumes "kvs_at m (map_pairs data) kvs" "map_len data = length kvs" "parts_apart m data"
  shows "if model = str ''aws.greengrass#SubscriptionResponseMessage'' \<and> (\<exists>t v. topic_says kvs t v)
    then \<exists>t v x m'. topic_says kvs t v \<and> val_blk m' x v \<and>
      subscribe_to_topic_resp_handler callback ctx aux_ctx handle model data m = after_user (callback aux_ctx t x handle m')
    else \<exists>m'. subscribe_to_topic_resp_handler callback ctx aux_ctx handle model data m = Some (GG_ERR_INVALID, [], m')"
proof (cases "model = str ''aws.greengrass#SubscriptionResponseMessage''")
  case True
  then show ?thesis using topic_handler_result[OF assms True, of callback ctx aux_ctx handle] by simp blast
qed (simp add: subscribe_to_topic_resp_handler_def)

text \<open>The message \<open>{"binaryMessage": {"message": "AQI=", "context": {"topic": "ab"}}}\<close>.\<close>

definition topic_mem :: mem where
  "topic_mem = wr (wr (wr (wr (\<lambda>_. 0) 10 ([110,0,0,0,0,0,0,0, 13,0] @ [40,0,0,0,0,0,0,0, 2,0, 6]))
     40 ([123,0,0,0,0,0,0,0, 7,0] @ [130,0,0,0,0,0,0,0, 4,0, 4] @ [134,0,0,0,0,0,0,0, 7,0] @ [84,0,0,0,0,0,0,0, 1,0, 6]))
     84 ([141,0,0,0,0,0,0,0, 5,0] @ [146,0,0,0,0,0,0,0, 2,0, 4])) 110 (str ''binaryMessagemessageAQI=contexttopicab'')"

definition topic_kvs :: "(bytes \<times> gg_val) list" where
  "topic_kvs = [(str ''binaryMessage'', VMap [(str ''message'', VBuf (str ''AQI='')),
     (str ''context'', VMap [(str ''topic'', VBuf (str ''ab''))])])]"

definition picky_callback :: GgIpcSubscribeToTopicCallback where
  "picky_callback aux t x h m = (if t = str ''ab'' \<and> val_blk m x (VBuf [1, 2]) then Some ([h], m) else None)"

theorem subscribe_to_topic_delivers_witness:
  "\<exists>m'. subscribe_to_topic_resp_handler picky_callback 0 0 7 (str ''aws.greengrass#SubscriptionResponseMessage'')
      \<lparr>map_pairs = 10, map_len = 1\<rparr> topic_mem = Some (GG_ERR_OK, [7], m')"
proof -
  let ?data = "\<lparr>map_pairs = 10, map_len = Suc 0\<rparr>"
  have at: "kvs_at topic_mem 10 topic_kvs" "length topic_kvs = 1" by code_simp+
  have "topic_message topic_mem ?data = Some (Inr (False, 50, 94))" by code_simp
  moreover have "gg_obj_into_buf (rd topic_mem 50 11) = Some \<lparr>buf_data = 130, buf_len = 4\<rparr>"
    "gg_obj_into_buf (rd topic_mem 94 11) = Some \<lparr>buf_data = 146, buf_len = 2\<rparr>" by code_simp+
  ultimately have ap: "parts_apart topic_mem ?data" by (auto simp: parts_apart_def range_of_def)
  have f: "topic_fields topic_kvs = Some (False, VBuf (b64 [1, 2]), str ''ab'')" by code_simp
  have says: "topic_says topic_kvs t v \<longleftrightarrow> t = str ''ab'' \<and> v = VBuf [1, 2]" for t v
    using b64_inject[of "[1, 2]"] by (auto simp: topic_says_def f simp del: b64.simps)
  show ?thesis
    using subscribe_to_topic_delivers[OF _ _ ap, of topic_kvs "str ''aws.greengrass#SubscriptionResponseMessage''" picky_callback 0 0 7] at says
    by (auto simp: picky_callback_def after_user_def)
qed

text \<open>C26: The response to a configuration request for a string: what \<open>ggipc_get_config_str\<close> makes of it. A response without a
  map under \<open>value\<close> is INVALID; the value is the one under the last key when that is the only entry and not a map,
  and the map otherwise; a value that is not a string is a FAILURE; a string longer than the caller's buffer is
  NOMEM; any other string is copied into the caller's buffer, and nothing else is written.\<close>

theorem get_config_str_copies:
  assumes "kvs_at m (map_pairs resp) kvs" "map_len resp = length kvs"
    "out = buffer_in m value_out" "value_out \<noteq> NULL" "0 < buf_data out" "buf_data out + buf_len out < 2 ^ 64" "buf_len out \<le> UINT32_MAX"
    "kvs_foot m (map_pairs resp) kvs \<inter> range_of out = {}" "{value_out..<value_out + 16} \<inter> range_of out = {}"
  shows "case config_value kvs (map_option (contents m) final_key) of
      None \<Rightarrow> copy_config_buf value_out final_key ctx resp m = Some (GG_ERR_INVALID, [], m)
    | Some (VBuf bs) \<Rightarrow>
        if length bs \<le> buf_len out
        then \<exists>m'. copy_config_buf value_out final_key ctx resp m = Some (GG_ERR_OK, [], m') \<and> contents m' (buffer_in m' value_out) = bs \<and>
          range_of (buffer_in m' value_out) \<subseteq> range_of out \<and> agree_off (range_of out \<union> {value_out..<value_out + 16}) m m'
        else copy_config_buf value_out final_key ctx resp m = Some (GG_ERR_NOMEM, [], m)
    | Some _ \<Rightarrow> copy_config_buf value_out final_key ctx resp m = Some (GG_ERR_FAILURE, [], m)"
  by (rule copy_config_buf_result[OF assms])

text \<open>The response \<open>{"value": {"k": "xyz"}}\<close>, and a buffer of ten bytes at 120 whose description is at 140.\<close>

definition config_mem :: mem where
  "config_mem = wr (wr (wr (wr (\<lambda>_. 0) 10 ([70,0,0,0,0,0,0,0, 5,0] @ [40,0,0,0,0,0,0,0, 1,0, 6]))
     40 ([75,0,0,0,0,0,0,0, 1,0] @ [76,0,0,0,0,0,0,0, 3,0, 4])) 70 (str ''valuekxyz''))
     140 ([120,0,0,0,0,0,0,0] @ [10,0,0,0,0,0,0,0])"

theorem get_config_str_copies_witness:
  "\<exists>m'. copy_config_buf 140 (Some \<lparr>buf_data = 75, buf_len = 1\<rparr>) 0 \<lparr>map_pairs = 10, map_len = 1\<rparr> config_mem = Some (GG_ERR_OK, [], m') \<and>
    contents m' (buffer_in m' 140) = str ''xyz''"
proof -
  let ?kvs = "[(str ''value'', VMap [(str ''k'', VBuf (str ''xyz''))])]" and ?key = "\<lparr>buf_data = 75, buf_len = Suc 0\<rparr>"
  have at: "kvs_at config_mem 10 ?kvs" by code_simp
  have out: "buffer_in config_mem 140 = \<lparr>buf_data = 120, buf_len = 10\<rparr>" by code_simp
  have foot: "kvs_foot config_mem 10 ?kvs \<inter> {120..<130} = {}"
    by (simp add: config_mem_def rd_def wr_def upt_rec gg_kv_val_def str_def) auto
  have key: "contents config_mem ?key = str ''k''" by code_simp
  have "config_value ?kvs (Some (str ''k'')) = Some (VBuf (str ''xyz''))" by code_simp
  then show ?thesis
    using get_config_str_copies[of config_mem "\<lparr>map_pairs = 10, map_len = Suc 0\<rparr>" ?kvs "\<lparr>buf_data = 120, buf_len = 10\<rparr>" 140 "Some ?key" 0]
      at out foot key by (auto simp: range_of_def int_limits)
qed

end
