(* ===== verification/Json_Grammar.thy ===== *)
theory Json_Grammar
  imports Json_Decode
begin

unbundle bit_operations_syntax

text \<open>
  A calculus for the parsers of \<open>Json_Parse\<close> on texts: \<open>eats p xs rest f\<close> says that on every buffer
  holding \<open>xs @ rest\<close> the parser matches, consumes \<open>xs\<close> and changes the output record by \<open>f\<close> (applied to
  the address where it started); \<open>misses p t\<close> says that it does not match on \<open>t\<close> and changes nothing.
  Each combinator has a rule, so that what the grammar accepts is derived from texts alone, without
  fuel, addresses or memory.
\<close>

section \<open>Texts that parsers match\<close>

definition parses :: "mem \<Rightarrow> Parser \<Rightarrow> GgBuffer \<Rightarrow> ParseResult option \<Rightarrow> outcome \<Rightarrow> bool" where
  "parses m p buf out r \<longleftrightarrow> (\<forall>\<^sub>F n in sequentially. parser_call n m p buf out = Some r)"

definition eats :: "Parser \<Rightarrow> bytes \<Rightarrow> bytes \<Rightarrow> (addr \<Rightarrow> ParseResult \<Rightarrow> ParseResult) \<Rightarrow> bool" where
  "eats p xs rest f \<longleftrightarrow> (\<forall>m buf out. contents m buf = xs @ rest \<longrightarrow> buf_len buf \<le> SIZE_MAX \<longrightarrow>
     parses m p buf out (True, advance buf (length xs), map_option (f (buf_data buf)) out))"

definition misses :: "Parser \<Rightarrow> bytes \<Rightarrow> bool" where
  "misses p t \<longleftrightarrow> (\<forall>m buf out. contents m buf = t \<longrightarrow> buf_len buf \<le> SIZE_MAX \<longrightarrow> parses m p buf out (False, buf, out))"

abbreviation skip :: "addr \<Rightarrow> ParseResult \<Rightarrow> ParseResult" where "skip \<equiv> \<lambda>_ r. r"

lemma parses_iff: "parses m p buf out r \<longleftrightarrow> (\<forall>\<^sub>F n in sequentially. parser_fn n (parser_call n m) m p buf out = Some r)"
  unfolding parses_def by (subst eventually_sequentially_Suc[symmetric]) simp


lemma parses_Suc: "parses m p buf out r \<longleftrightarrow> (\<forall>\<^sub>F n in sequentially. parser_call (Suc n) m p buf out = Some r)"
  unfolding parses_def by (rule eventually_sequentially_Suc[symmetric])

lemma parses_more:
  "parses m (COMB_ZERO_OR_MORE p) buf out r \<longleftrightarrow>
     (\<forall>\<^sub>F n in sequentially. comb_zero_or_more_fn (Suc n) (parser_call (Suc n) m) p buf out = Some r)"
  unfolding parses_iff parser_fn_def Parser.case
  by (rule eventually_sequentially_Suc[symmetric, where P = "\<lambda>n. comb_zero_or_more_fn n (parser_call n m) p buf out = Some r"])

lemma parses_det: "parses m p buf out r \<Longrightarrow> parses m p buf out r' \<Longrightarrow> r = r'"
  unfolding parses_def by (drule (1) eventually_conj) (auto dest: eventually_happens)

lemma parsesI:
  assumes "parses m p buf out r" "\<And>n. parser_call n m p buf out = Some r \<Longrightarrow> parser_fn n (parser_call n m) m q buf' out' = Some r'"
  shows "parses m q buf' out' r'"
  using assms(1) unfolding parses_iff[of m q] parses_def[of m p] by (rule eventually_mono) (rule assms(2))

lemma parsesI2:
  assumes "parses m p buf out r" "parses m p2 buf2 out2 r2"
    "\<And>n. parser_call n m p buf out = Some r \<Longrightarrow> parser_fn n (parser_call n m) m p2 buf2 out2 = Some r2 \<Longrightarrow>
      parser_fn n (parser_call n m) m q buf' out' = Some r'"
  shows "parses m q buf' out' r'"
  using assms(1,2) unfolding parses_iff[of m q] parses_iff[of m p2] parses_def[of m p] by eventually_elim (rule assms(3))

section \<open>Leaves\<close>

lemma parses_leaf:
  "parses m (PARSER_CHAR c) buf out (fst (parser_char_fn c m buf), snd (parser_char_fn c m buf), out)"
  "parses m (PARSER_STR s) buf out (fst (parser_str_fn s m buf), snd (parser_str_fn s m buf), out)"
  "parses m (PARSER_CHAR_RANGE x y) buf out (fst (parser_char_range_fn x y m buf), snd (parser_char_range_fn x y m buf), out)"
  "parses m PARSER_JSON_STR_CODEPOINT buf out (fst (parser_json_str_codepoint_fn m buf), snd (parser_json_str_codepoint_fn m buf), out)"
  by (simp_all add: parses_iff parser_fn_def no_output_def)

lemma contents_Cons:
  assumes "contents m buf = c # t"
  shows "m (buf_data buf) = c" "buf_len buf = Suc (length t)"
  using assms by (cases "buf_len buf"; simp add: contents_def rd_Suc; metis length_rd)+

lemma contents_Nil: "contents m buf = [] \<longleftrightarrow> buf_len buf = 0"
  by (metis length_0_conv length_contents)

lemma eats_leaf:
  assumes "\<And>m buf out. contents m buf = xs @ rest \<Longrightarrow> buf_len buf \<le> SIZE_MAX \<Longrightarrow> parses m p buf out (True, advance buf (length xs), out)"
  shows "eats p xs rest skip"
  using assms by (simp add: eats_def option.map_ident)

lemma eats_char [intro!, simp]: "eats (PARSER_CHAR c) [c] rest skip"
proof (rule eats_leaf)
  fix m buf out assume "contents m buf = [c] @ rest" "buf_len buf \<le> SIZE_MAX"
  then show "parses m (PARSER_CHAR c) buf out (True, advance buf (length [c]), out)"
    using parses_leaf(1)[of m c buf out] contents_Cons[of m buf c rest] by (simp add: parser_char_fn_def substr_advance)
qed

lemma misses_char: "t = [] \<or> hd t \<noteq> c \<Longrightarrow> misses (PARSER_CHAR c) t"
  unfolding misses_def
proof (intro allI impI)
  fix m buf out assume "t = [] \<or> hd t \<noteq> c" "contents m buf = t"
  then have "parser_char_fn c m buf = (False, buf)"
    by (cases t) (auto simp: parser_char_fn_def contents_Nil dest: contents_Cons)
  then show "parses m (PARSER_CHAR c) buf out (False, buf, out)" using parses_leaf(1)[of m c buf out] by simp
qed

definition in_range :: "byte \<Rightarrow> byte \<Rightarrow> byte \<Rightarrow> bool" where
  "in_range x y c \<longleftrightarrow> sint x \<le> sint c \<and> sint c \<le> sint y"

lemma eats_range: "in_range x y c \<Longrightarrow> eats (PARSER_CHAR_RANGE x y) [c] rest skip"
proof (rule eats_leaf)
  fix m buf out assume c: "in_range x y c" "contents m buf = [c] @ rest" "buf_len buf \<le> SIZE_MAX"
  then show "parses m (PARSER_CHAR_RANGE x y) buf out (True, advance buf (length [c]), out)"
    using parses_leaf(3)[of m x y buf out] contents_Cons[of m buf c rest]
    by (simp add: parser_char_range_fn_def substr_advance in_range_def)
qed

lemma misses_range: "t = [] \<or> \<not> in_range x y (hd t) \<Longrightarrow> misses (PARSER_CHAR_RANGE x y) t"
  unfolding misses_def
proof (intro allI impI)
  fix m buf out assume "t = [] \<or> \<not> in_range x y (hd t)" "contents m buf = t"
  then have "parser_char_range_fn x y m buf = (False, buf)"
    by (cases t) (auto simp: parser_char_range_fn_def contents_Nil in_range_def dest: contents_Cons)
  then show "parses m (PARSER_CHAR_RANGE x y) buf out (False, buf, out)" using parses_leaf(3)[of m x y buf out] by simp
qed

lemma eats_str [simp]: "eats (PARSER_STR s) s rest skip"
proof (rule eats_leaf)
  fix m buf out assume c: "contents m buf = s @ rest" "buf_len buf \<le> SIZE_MAX"
  have l: "buf_len buf = length s + length rest" using arg_cong[OF c(1), of length] by simp
  then have "rd m (buf_data buf) (length s) = s" using arg_cong[OF c(1), of "take (length s)"] by (simp add: contents_def)
  then show "parses m (PARSER_STR s) buf out (True, advance buf (length s), out)"
    using parses_leaf(2)[of m s buf out] c(2) l by (simp add: parser_str_fn_def substr_advance memcmp_0_iff)
qed

lemma misses_str: "take (length s) t \<noteq> s \<Longrightarrow> misses (PARSER_STR s) t"
  unfolding misses_def
proof (intro allI impI)
  fix m buf out assume t: "take (length s) t \<noteq> s" "contents m buf = t"
  have "rd m (buf_data buf) (length s) \<noteq> s" if "\<not> buf_len buf < length s"
    using t that arg_cong[OF t(2), of "take (length s)"] by (auto simp: contents_def)
  then have "parser_str_fn s m buf = (False, buf)" using memcmp_0_iff[of "length s" s "rd m (buf_data buf) (length s)"]
    by (cases "buf_len buf < length s") (simp_all add: parser_str_fn_def)
  then show "parses m (PARSER_STR s) buf out (False, buf, out)" using parses_leaf(2)[of m s buf out] by simp
qed

section \<open>Combinators\<close>

lemma eatsD: "eats p xs rest f \<Longrightarrow> contents m buf = xs @ rest \<Longrightarrow> buf_len buf \<le> SIZE_MAX \<Longrightarrow>
    parses m p buf out (True, advance buf (length xs), map_option (f (buf_data buf)) out)"
  unfolding eats_def by blast

lemma missesD: "misses p t \<Longrightarrow> contents m buf = t \<Longrightarrow> buf_len buf \<le> SIZE_MAX \<Longrightarrow> parses m p buf out (False, buf, out)"
  unfolding misses_def by blast

lemma eatsI:
  assumes "\<And>m buf out. contents m buf = xs @ rest \<Longrightarrow> buf_len buf \<le> SIZE_MAX \<Longrightarrow>
    parses m p buf out (True, advance buf (length xs), map_option (f (buf_data buf)) out)"
  shows "eats p xs rest f"
  using assms by (simp add: eats_def)

lemma missesI:
  assumes "\<And>m buf out. contents m buf = t \<Longrightarrow> buf_len buf \<le> SIZE_MAX \<Longrightarrow> parses m p buf out (False, buf, out)"
  shows "misses p t"
  using assms by (simp add: misses_def)

lemma eats_wrap:
  assumes "eats p xs rest f" "\<And>n m buf out. parser_call n m p buf (o' out) =
      Some (True, advance buf (length xs), map_option (f (buf_data buf)) (o' out)) \<Longrightarrow>
    parser_fn n (parser_call n m) m q buf out = Some (True, advance buf (length xs), map_option (g (buf_data buf)) out)"
  shows "eats q xs rest g"
  by (rule eatsI, rule parsesI[OF eatsD[OF assms(1)]], assumption+, rule assms(2))

lemma misses_wrap:
  assumes "misses p t" "\<And>n m buf out. parser_call n m p buf (o' out) = Some (False, buf, o' out) \<Longrightarrow>
    parser_fn n (parser_call n m) m q buf out = Some (False, buf, out)"
  shows "misses q t"
  by (rule missesI, rule parsesI[OF missesD[OF assms(1)]], assumption+, rule assms(2))

lemma contents_rest:
  assumes "contents m buf = xs @ ys" shows "contents m (advance buf (length xs)) = ys"
proof -
  have "buf_len buf = length xs + length ys" using arg_cong[OF assms, of length] by simp
  then show ?thesis using arg_cong[OF assms, of "drop (length xs)"] by (simp add: contents_def)
qed

lemma eats_SEQUENCE_Nil [simp]: "eats (COMB_SEQUENCE []) [] rest skip"
  by (rule eats_leaf) (simp add: parses_iff parser_fn_def comb_sequence_fn_def)

lemma sequence_result:
  "Option.bind r (\<lambda>(matches, b, out). Some (matches, if matches then b else buf, out)) = Some (True, b', out') \<longleftrightarrow> r = Some (True, b', out')"
  "Option.bind r (\<lambda>(matches, b, out). Some (matches, if matches then b else buf, out)) = Some (False, b', out') \<longleftrightarrow>
     b' = buf \<and> (\<exists>b. r = Some (False, b, out'))"
  by (cases r; auto)+

lemma eats_SEQUENCE_Cons:
  assumes "eats p xs (ys @ rest) f" "eats (COMB_SEQUENCE ps) ys rest g"
  shows "eats (COMB_SEQUENCE (p # ps)) (xs @ ys) rest (\<lambda>a. g (a + length xs) \<circ> f a)"
proof (rule eatsI)
  fix m buf out assume c: "contents m buf = (xs @ ys) @ rest" and l: "buf_len buf \<le> SIZE_MAX"
  have c1: "contents m buf = xs @ ys @ rest" using c by simp
  have l2: "buf_len (advance buf (length xs)) \<le> SIZE_MAX" using l by simp
  show "parses m (COMB_SEQUENCE (p # ps)) buf out
      (True, advance buf (length (xs @ ys)), map_option ((\<lambda>a. g (a + length xs) \<circ> f a) (buf_data buf)) out)"
    by (rule parsesI2[OF eatsD[OF assms(1) c1 l, of out] eatsD[OF assms(2) contents_rest[OF c1] l2, of "map_option (f (buf_data buf)) out"]])
      (auto simp: parser_fn_def comb_sequence_fn_def sequence_result option.map_comp)
qed

lemma misses_SEQUENCE_now: "misses p t \<Longrightarrow> misses (COMB_SEQUENCE (p # ps)) t"
  by (erule misses_wrap[where o' = "\<lambda>out. out"]) (auto simp: parser_fn_def comb_sequence_fn_def)

lemma misses_SEQUENCE_later:
  assumes "eats p xs ys skip" "misses (COMB_SEQUENCE ps) ys"
  shows "misses (COMB_SEQUENCE (p # ps)) (xs @ ys)"
proof (rule missesI)
  fix m buf out assume c: "contents m buf = xs @ ys" and l: "buf_len buf \<le> SIZE_MAX"
  have l2: "buf_len (advance buf (length xs)) \<le> SIZE_MAX" using l by simp
  show "parses m (COMB_SEQUENCE (p # ps)) buf out (False, buf, out)"
    by (rule parsesI2[OF eatsD[OF assms(1) c l, of out] missesD[OF assms(2) contents_rest[OF c] l2, of out]])
      (auto simp: parser_fn_def comb_sequence_fn_def sequence_result option.map_ident)
qed

lemma misses_ONE_OF_Nil [simp]: "misses (COMB_ONE_OF []) t"
  by (rule missesI) (simp add: parses_iff parser_fn_def)

lemma eats_ONE_OF_now: "eats p xs rest f \<Longrightarrow> eats (COMB_ONE_OF (p # ps)) xs rest f"
  by (erule eats_wrap[where o' = "\<lambda>out. out"]) (auto simp: parser_fn_def)

lemma eats_ONE_OF_later:
  assumes "misses p (xs @ rest)" "eats (COMB_ONE_OF ps) xs rest f"
  shows "eats (COMB_ONE_OF (p # ps)) xs rest f"
proof (rule eatsI)
  fix m buf out assume c: "contents m buf = xs @ rest" and l: "buf_len buf \<le> SIZE_MAX"
  show "parses m (COMB_ONE_OF (p # ps)) buf out (True, advance buf (length xs), map_option (f (buf_data buf)) out)"
    by (rule parsesI2[OF missesD[OF assms(1) c l, of out] eatsD[OF assms(2) c l, of out]]) (auto simp: parser_fn_def)
qed

lemma misses_ONE_OF_Cons:
  assumes "misses p t" "misses (COMB_ONE_OF ps) t"
  shows "misses (COMB_ONE_OF (p # ps)) t"
proof (rule missesI)
  fix m buf out assume c: "contents m buf = t" and l: "buf_len buf \<le> SIZE_MAX"
  show "parses m (COMB_ONE_OF (p # ps)) buf out (False, buf, out)"
    by (rule parsesI2[OF missesD[OF assms(1) c l, of out] missesD[OF assms(2) c l, of out]]) (auto simp: parser_fn_def)
qed

lemma eats_ZERO: "misses p rest \<Longrightarrow> eats (COMB_ZERO_OR_MORE p) [] rest skip"
proof (rule eats_leaf)
  fix m buf out assume p: "misses p rest" "contents m buf = [] @ rest" "buf_len buf \<le> SIZE_MAX"
  have "parses m p buf out (False, buf, out)" using missesD[OF p(1)] p by simp
  then have "\<forall>\<^sub>F n in sequentially. parser_call (Suc n) m p buf out = Some (False, buf, out)"
    unfolding parses_Suc .
  then show "parses m (COMB_ZERO_OR_MORE p) buf out (True, advance buf (length []), out)"
    unfolding parses_more by (rule eventually_mono) simp
qed

lemma eats_MORE:
  assumes "eats p xs (ys @ rest) f" "eats (COMB_ZERO_OR_MORE p) ys rest g"
  shows "eats (COMB_ZERO_OR_MORE p) (xs @ ys) rest (\<lambda>a. g (a + length xs) \<circ> f a)"
proof (rule eatsI)
  fix m buf out assume c: "contents m buf = (xs @ ys) @ rest" and l: "buf_len buf \<le> SIZE_MAX"
  have c1: "contents m buf = xs @ ys @ rest" using c by simp
  let ?b = "advance buf (length xs)" and ?o = "map_option (f (buf_data buf)) out"
  let ?r = "(True, advance buf (length (xs @ ys)), map_option ((\<lambda>a. g (a + length xs) \<circ> f a) (buf_data buf)) out)"
  have l2: "buf_len ?b \<le> SIZE_MAX" using l by simp
  have 1: "\<forall>\<^sub>F n in sequentially. parser_call (Suc n) m p buf out = Some (True, ?b, ?o)"
    using eatsD[OF assms(1) c1 l, of out] unfolding parses_Suc .
  have "parses m (COMB_ZERO_OR_MORE p) ?b ?o ?r"
    using eatsD[OF assms(2) contents_rest[OF c1] l2, of ?o] by (simp add: option.map_comp)
  then have 2: "\<forall>\<^sub>F n in sequentially. comb_zero_or_more_fn n (parser_call n m) p ?b ?o = Some ?r"
    unfolding parses_iff parser_fn_def Parser.case .
  have "\<forall>\<^sub>F n in sequentially. comb_zero_or_more_fn (Suc n) (parser_call (Suc n) m) p buf out = Some ?r"
    using 1 2
  proof eventually_elim
    case (elim n)
    have "comb_zero_or_more_fn n (parser_call (Suc n) m) p ?b ?o = Some ?r"
      by (rule le_run_Some[OF zero_or_more_mono[OF parser_call_le] elim(2)]) simp_all
    then show ?case using elim(1) by (simp del: parser_call.simps)
  qed
  then show "parses m (COMB_ZERO_OR_MORE p) buf out ?r" unfolding parses_more .
qed

lemma eats_MAYBE: "eats p xs rest f \<Longrightarrow> eats (COMB_MAYBE p) xs rest f"
  by (erule eats_wrap[where o' = "\<lambda>out. out"]) (auto simp: parser_fn_def comb_maybe_fn_def)

lemma eats_MAYBE_not: "misses p rest \<Longrightarrow> eats (COMB_MAYBE p) [] rest skip"
proof (rule eats_leaf)
  fix m buf out assume p: "misses p rest" "contents m buf = [] @ rest" "buf_len buf \<le> SIZE_MAX"
  show "parses m (COMB_MAYBE p) buf out (True, advance buf (length []), out)"
    by (rule parsesI[OF missesD[OF p(1), of m buf out]]) (use p in \<open>simp_all add: parser_fn_def comb_maybe_fn_def\<close>)
qed

lemma eats_NESTED: "eats p xs rest f \<Longrightarrow> eats (COMB_NESTED p) xs rest skip"
  by (erule eats_wrap[where o' = "\<lambda>_. None"]) (simp add: parser_fn_def comb_nested_fn_def option.map_ident)

lemma misses_NESTED: "misses p t \<Longrightarrow> misses (COMB_NESTED p) t"
  by (erule misses_wrap[where o' = "\<lambda>_. None"]) (simp add: parser_fn_def comb_nested_fn_def option.map_ident)

lemma eats_RESULT_VAL:
  "eats p xs rest f \<Longrightarrow> eats (COMB_RESULT_VAL t p) xs rest
     (\<lambda>a r. (f a r)\<lparr>pr_type := t, pr_content := \<lparr>buf_data = a, buf_len = length xs\<rparr>\<rparr>)"
  by (erule eats_wrap[where o' = "\<lambda>out. out"]) (auto simp: parser_fn_def comb_result_val_fn_def Let_def option.map_comp o_def)

lemma misses_RESULT_VAL: "misses p t \<Longrightarrow> misses (COMB_RESULT_VAL ty p) t"
  by (erule misses_wrap[where o' = "\<lambda>out. out"]) (auto simp: parser_fn_def comb_result_val_fn_def)

lemma eats_INCREMENT_COUNT:
  "eats p xs rest f \<Longrightarrow> eats (COMB_INCREMENT_COUNT p) xs rest (\<lambda>a r. (f a r)\<lparr>pr_count := pr_count (f a r) + 1\<rparr>)"
  by (erule eats_wrap[where o' = "\<lambda>out. out"]) (auto simp: parser_fn_def comb_increment_count_fn_def option.map_comp o_def)

lemma misses_INCREMENT_COUNT: "misses p t \<Longrightarrow> misses (COMB_INCREMENT_COUNT p) t"
  by (erule misses_wrap[where o' = "\<lambda>out. out"]) (auto simp: parser_fn_def comb_increment_count_fn_def)

lemma eats_VALUE: "eats json_value_parser xs rest f \<Longrightarrow> eats PARSER_JSON_VALUE xs rest f"
  by (erule eats_wrap[where o' = "\<lambda>out. out"]) (auto simp: parser_fn_def)

lemma misses_VALUE: "misses json_value_parser t \<Longrightarrow> misses PARSER_JSON_VALUE t"
  by (erule misses_wrap[where o' = "\<lambda>out. out"]) (auto simp: parser_fn_def)

text \<open>The rules for parsers that leave the output alone.\<close>

lemma eats_seq: "eats p xs (ys @ rest) skip \<Longrightarrow> eats (COMB_SEQUENCE ps) ys rest skip \<Longrightarrow> eats (COMB_SEQUENCE (p # ps)) (xs @ ys) rest skip"
  by (drule (1) eats_SEQUENCE_Cons) (simp add: o_def)

lemma eats_seq1: "eats p [x] (ys @ rest) skip \<Longrightarrow> eats (COMB_SEQUENCE ps) ys rest skip \<Longrightarrow> eats (COMB_SEQUENCE (p # ps)) (x # ys) rest skip"
  using eats_seq[of p "[x]" ys rest ps] by simp

lemma eats_seq0: "eats p [] (ys @ rest) skip \<Longrightarrow> eats (COMB_SEQUENCE ps) ys rest skip \<Longrightarrow> eats (COMB_SEQUENCE (p # ps)) ys rest skip"
  using eats_seq[of p "[]" ys rest ps] by simp

lemma eats_last: "eats p xs rest skip \<Longrightarrow> eats (COMB_SEQUENCE [p]) xs rest skip"
  using eats_seq[of p xs "[]" rest "[]"] by simp

lemma eats_more: "eats p xs (ys @ rest) skip \<Longrightarrow> eats (COMB_ZERO_OR_MORE p) ys rest skip \<Longrightarrow> eats (COMB_ZERO_OR_MORE p) (xs @ ys) rest skip"
  by (drule (1) eats_MORE) (simp add: o_def)

lemma eats_all:
  assumes "\<And>x. x \<in> set xs \<Longrightarrow> \<forall>t. eats p [x] t skip" "misses p rest"
  shows "eats (COMB_ZERO_OR_MORE p) xs rest skip"
  using assms(1)
proof (induction xs)
  case (Cons x xs)
  have "eats p [x] (xs @ rest) skip" using Cons.prems by simp
  from eats_more[OF this] Cons show ?case by simp
qed (simp add: eats_ZERO assms(2))

lemma eats_one_of_chars: "c \<in> set cs \<Longrightarrow> eats (COMB_ONE_OF (map PARSER_CHAR cs)) [c] rest skip"
proof (induction cs)
  case (Cons d cs)
  show ?case
  proof (cases "c = d")
    case True
    then show ?thesis by (simp add: eats_ONE_OF_now)
  next
    case False
    with Cons show ?thesis by (auto intro!: eats_ONE_OF_later misses_char)
  qed
qed simp

lemma misses_one_of_chars: "t = [] \<or> hd t \<notin> set cs \<Longrightarrow> misses (COMB_ONE_OF (map PARSER_CHAR cs)) t"
  by (induction cs) (auto intro!: misses_ONE_OF_Cons misses_char)

lemmas misses_one_of = misses_ONE_OF_Cons misses_ONE_OF_Nil

section \<open>Characters\<close>

lemma chr_codes [simp]:
  "chr CHR '' '' = 0x20" "chr (CHR 0x0A) = 0x0A" "chr (CHR 0x0D) = 0x0D" "chr (CHR 0x09) = 0x09"
  "chr CHR ''\"'' = 0x22" "chr (CHR 0x5C) = 0x5C" "chr CHR ''/'' = 0x2F" "chr CHR ''b'' = 0x62" "chr CHR ''f'' = 0x66"
  "chr CHR ''n'' = 0x6E" "chr CHR ''r'' = 0x72" "chr CHR ''t'' = 0x74" "chr CHR ''u'' = 0x75" "chr CHR ''-'' = 0x2D"
  "chr CHR ''0'' = 0x30" "chr CHR ''1'' = 0x31" "chr CHR ''9'' = 0x39" "chr CHR ''A'' = 0x41" "chr CHR ''F'' = 0x46"
  "chr CHR ''a'' = 0x61" "chr CHR ''.'' = 0x2E" "chr CHR ''e'' = 0x65" "chr CHR ''E'' = 0x45" "chr CHR ''+'' = 0x2B"
  "chr CHR '':'' = 0x3A" "chr CHR '','' = 0x2C" "chr CHR ''{'' = 0x7B" "chr CHR ''}'' = 0x7D" "chr CHR ''['' = 0x5B"
  "chr CHR '']'' = 0x5D"
  by code_simp+

lemma sint_byte: "sint (b :: byte) = (if uint b < 128 then uint b else uint b - 256)"
proof -
  have b: "0 \<le> uint b" "uint b < 256" using uint_bounded[of b] by simp_all
  have "sint b = signed_take_bit 7 (uint b)" by (simp add: sint_uint)
  also have "\<dots> = (uint b + 128) mod 256 - 128" by (simp add: signed_take_bit_eq_take_bit_shift take_bit_eq_mod)
  also have "\<dots> = (if uint b < 128 then uint b else uint b - 256)"
  proof (cases "uint b < 128")
    case False
    then have "(uint b + 128) mod 256 = (uint b - 128) mod 256" using mod_add_self2[of "uint b - 128" 256] by (simp add: add.commute)
    then show ?thesis using b False by simp
  qed (use b in simp)
  finally show ?thesis .
qed

lemma in_range_iff: "x \<le> 127 \<Longrightarrow> y \<le> 127 \<Longrightarrow> in_range x y c \<longleftrightarrow> x \<le> c \<and> c \<le> y"
proof -
  have "0 \<le> uint x" "uint c < 256" using uint_bounded[of c] by simp_all
  then have neg: "\<not> uint x \<le> uint c - 256" by linarith
  assume "x \<le> 127" "y \<le> 127"
  with neg show ?thesis unfolding in_range_def sint_byte word_le_def by auto
qed

section \<open>The grammar\<close>

text \<open>What JSON texts stand for (RFC 8259). Strings are bytes: characters in UTF-8, two-character escapes and
  escapes of UTF-16 code units. A number with a fraction or an exponent stands for the nearest double.\<close>

definition json_ws :: "bytes \<Rightarrow> bool" where
  "json_ws w \<longleftrightarrow> set w \<subseteq> {0x20, 0x0A, 0x0D, 0x09}"

definition utf8_char :: "bytes \<Rightarrow> bool" where
  "utf8_char cs \<longleftrightarrow> cs \<noteq> [] \<and> utf8_lead_len (hd cs) = length cs \<and> list_all utf8_cont (tl cs)"

definition json_plain :: "byte \<Rightarrow> bool" where
  "json_plain b \<longleftrightarrow> 0x1F < b \<and> b \<noteq> 0x22 \<and> b \<noteq> 0x5C"

definition json_escapes :: "(byte \<times> byte) list" where
  "json_escapes = [(0x22, 0x22), (0x5C, 0x5C), (0x2F, 0x2F), (0x62, 0x08), (0x66, 0x0C), (0x6E, 0x0A), (0x72, 0x0D), (0x74, 0x09)]"

definition hex_val :: "byte \<Rightarrow> nat option" where
  "hex_val c = (if 0x30 \<le> c \<and> c \<le> 0x39 then Some (unat c - 48) else if 0x41 \<le> c \<and> c \<le> 0x46 then Some (unat c - 55)
     else if 0x61 \<le> c \<and> c \<le> 0x66 then Some (unat c - 87) else None)"

fun hex4 :: "bytes \<Rightarrow> nat option" where
  "hex4 [a, b, c, d] = do {
     a \<leftarrow> hex_val a; b \<leftarrow> hex_val b; c \<leftarrow> hex_val c; d \<leftarrow> hex_val d;
     Some (4096 * a + 256 * b + 16 * c + d)
   }"
| "hex4 _ = None"

definition utf8_enc :: "nat \<Rightarrow> bytes" where
  "utf8_enc cp = map of_nat
     (if cp < 0x80 then [cp]
      else if cp < 0x800 then [0xC0 + cp div 64, 0x80 + cp mod 64]
      else if cp < 0x10000 then [0xE0 + cp div 4096, 0x80 + cp div 64 mod 64, 0x80 + cp mod 64]
      else [0xF0 + cp div 262144, 0x80 + cp div 4096 mod 64, 0x80 + cp div 64 mod 64, 0x80 + cp mod 64])"

inductive str_doc :: "bytes \<Rightarrow> bytes \<Rightarrow> bool" where
  str_end: "str_doc [] []"
| str_char: "utf8_char cs \<Longrightarrow> json_plain (hd cs) \<Longrightarrow> str_doc bs e \<Longrightarrow> str_doc (cs @ bs) (cs @ e)"
| str_esc: "(c, b) \<in> set json_escapes \<Longrightarrow> str_doc bs e \<Longrightarrow> str_doc (b # bs) (0x5C # c # e)"
| str_unit: "hex4 h = Some cp \<Longrightarrow> cp < 0xD800 \<or> 0xDFFF < cp \<Longrightarrow> str_doc bs e \<Longrightarrow> str_doc (utf8_enc cp @ bs) (0x5C # 0x75 # h @ e)"
| str_pair: "hex4 h = Some hi \<Longrightarrow> 0xD800 \<le> hi \<Longrightarrow> hi \<le> 0xDBFF \<Longrightarrow> hex4 l = Some lo \<Longrightarrow> 0xDC00 \<le> lo \<Longrightarrow> lo \<le> 0xDFFF \<Longrightarrow>
    str_doc bs e \<Longrightarrow> str_doc (utf8_enc (0x10000 + (hi - 0xD800) * 1024 + (lo - 0xDC00)) @ bs) (0x5C # 0x75 # h @ 0x5C # 0x75 # l @ e)"

definition int_doc :: "bytes \<Rightarrow> bool" where
  "int_doc t \<longleftrightarrow> (\<exists>s ds. t = s @ ds \<and> s \<in> {[], [0x2D]} \<and> list_all is_digit ds \<and> (ds = [0x30] \<or> ds \<noteq> [] \<and> hd ds \<noteq> 0x30))"

definition frac_syn :: "bytes \<Rightarrow> bool" where
  "frac_syn t \<longleftrightarrow> t = [] \<or> (\<exists>ds. t = 0x2E # ds \<and> list_all is_digit ds)"

definition exp_syn :: "bytes \<Rightarrow> bool" where
  "exp_syn t \<longleftrightarrow> t = [] \<or> (\<exists>c s ds. t = c # s @ ds \<and> c \<in> {0x65, 0x45} \<and> s \<in> {[], [0x2B], [0x2D]} \<and> ds \<noteq> [] \<and> list_all is_digit ds)"

text \<open>The double nearest to a number in parts: a minus sign or nothing, digits, a fraction and an exponent; and
  whether it is out of range.\<close>

definition exp_val :: "bytes \<Rightarrow> int" where
  "exp_val e = (let r = tl e in
     if r \<noteq> [] \<and> hd r = 0x2D then - digits_val (tl r) else if r \<noteq> [] \<and> hd r = 0x2B then digits_val (tl r) else digits_val r)"

definition text_f64 :: "bytes \<Rightarrow> bytes \<Rightarrow> bytes \<Rightarrow> bytes \<Rightarrow> (64 word) \<times> bool" where
  "text_f64 s ip f e =
     (let fp = tl f; expo = exp_val e - int (length fp); mant = nat (digits_val (ip @ fp));
          (val, range) = (if expo \<ge> 0 then nearest_f64 (mant * 10 ^ nat expo) 1 else nearest_f64 mant (10 ^ nat (- expo)))
      in (if s \<noteq> [] then val OR 0x8000000000000000 else val, range))"

text \<open>\<open>val_doc v t\<close>: the text \<open>T\<close>, without whitespace around it, stands for \<open>v\<close>.\<close>

inductive val_doc :: "gg_val \<Rightarrow> bytes \<Rightarrow> bool"
  and items_doc :: "gg_val list \<Rightarrow> bytes \<Rightarrow> bool"
  and pairs_doc :: "(bytes \<times> gg_val) list \<Rightarrow> bytes \<Rightarrow> bool" where
  doc_null: "val_doc VNull (str ''null'')"
| doc_true: "val_doc (VBool True) (str ''true'')"
| doc_false: "val_doc (VBool False) (str ''false'')"
| doc_int: "int_doc t \<Longrightarrow> int_text_val t = Some (sint w) \<Longrightarrow> val_doc (VI64 w) t"
| doc_f64: "s \<in> {[], [0x2D]} \<Longrightarrow> int_doc (s @ ip) \<Longrightarrow> list_all is_digit ip \<Longrightarrow> frac_syn f \<Longrightarrow> exp_syn e \<Longrightarrow> f @ e \<noteq> [] \<Longrightarrow>
    text_f64 s ip f e = (x, False) \<Longrightarrow> val_doc (VF64 x) (s @ ip @ f @ e)"
| doc_str: "str_doc bs e \<Longrightarrow> val_doc (VBuf bs) ([0x22] @ e @ [0x22])"
| doc_nil: "json_ws w \<Longrightarrow> val_doc (VList []) ([0x5B] @ w @ [0x5D])"
| doc_list: "json_ws w \<Longrightarrow> items_doc vs t \<Longrightarrow> val_doc (VList vs) ([0x5B] @ w @ t @ [0x5D])"
| doc_empty: "json_ws w \<Longrightarrow> val_doc (VMap []) ([0x7B] @ w @ [0x7D])"
| doc_map: "json_ws w \<Longrightarrow> pairs_doc kvs t \<Longrightarrow> val_doc (VMap kvs) ([0x7B] @ w @ t @ [0x7D])"
| item_last: "val_doc v t \<Longrightarrow> json_ws w \<Longrightarrow> items_doc [v] (t @ w)"
| item_more: "val_doc v t \<Longrightarrow> json_ws w \<Longrightarrow> json_ws w' \<Longrightarrow> items_doc vs ts \<Longrightarrow> items_doc (v # vs) (t @ w @ [0x2C] @ w' @ ts)"
| pair_last: "str_doc k e \<Longrightarrow> json_ws w1 \<Longrightarrow> json_ws w2 \<Longrightarrow> val_doc v t \<Longrightarrow> json_ws w3 \<Longrightarrow>
    pairs_doc [(k, v)] ([0x22] @ e @ [0x22] @ w1 @ [0x3A] @ w2 @ t @ w3)"
| pair_more: "str_doc k e \<Longrightarrow> json_ws w1 \<Longrightarrow> json_ws w2 \<Longrightarrow> val_doc v t \<Longrightarrow> json_ws w3 \<Longrightarrow> json_ws w4 \<Longrightarrow> pairs_doc kvs ts \<Longrightarrow>
    pairs_doc ((k, v) # kvs) (([0x22] @ e @ [0x22] @ w1 @ [0x3A] @ w2 @ t @ w3) @ [0x2C] @ w4 @ ts)"

text \<open>A whole document has whitespace around the value.\<close>

definition json_doc :: "gg_val \<Rightarrow> bytes \<Rightarrow> bool" where
  "json_doc v d \<longleftrightarrow> (\<exists>w t w'. json_ws w \<and> val_doc v t \<and> json_ws w' \<and> d = w @ t @ w')"

text \<open>The same texts without what they stand for, and with fractions and exponents: the syntax the parser
  recognises. It is the one of RFC 8259 but for a fraction without digits, which the parser accepts.\<close>

inductive str_syn :: "bytes \<Rightarrow> bool" where
  syn_end: "str_syn []"
| syn_char: "utf8_char cs \<Longrightarrow> json_plain (hd cs) \<Longrightarrow> str_syn e \<Longrightarrow> str_syn (cs @ e)"
| syn_esc: "c \<in> fst ` set json_escapes \<Longrightarrow> str_syn e \<Longrightarrow> str_syn (0x5C # c # e)"
| syn_hex: "hex4 h = Some k \<Longrightarrow> str_syn e \<Longrightarrow> str_syn (0x5C # 0x75 # h @ e)"

definition num_syn :: "bytes \<Rightarrow> bool" where
  "num_syn t \<longleftrightarrow> (\<exists>i f e. t = i @ f @ e \<and> int_doc i \<and> frac_syn f \<and> exp_syn e)"

inductive val_syn :: "bytes \<Rightarrow> bool"
  and items_syn :: "nat \<Rightarrow> bytes \<Rightarrow> bool"
  and pairs_syn :: "nat \<Rightarrow> bytes \<Rightarrow> bool" where
  syn_null: "val_syn (str ''null'')"
| syn_true: "val_syn (str ''true'')"
| syn_false: "val_syn (str ''false'')"
| syn_num: "num_syn t \<Longrightarrow> val_syn t"
| syn_str: "str_syn e \<Longrightarrow> val_syn ([0x22] @ e @ [0x22])"
| syn_nil: "json_ws w \<Longrightarrow> val_syn ([0x5B] @ w @ [0x5D])"
| syn_list: "json_ws w \<Longrightarrow> items_syn n t \<Longrightarrow> val_syn ([0x5B] @ w @ t @ [0x5D])"
| syn_empty: "json_ws w \<Longrightarrow> val_syn ([0x7B] @ w @ [0x7D])"
| syn_map: "json_ws w \<Longrightarrow> pairs_syn n t \<Longrightarrow> val_syn ([0x7B] @ w @ t @ [0x7D])"
| syn_item: "val_syn t \<Longrightarrow> json_ws w \<Longrightarrow> items_syn (Suc 0) (t @ w)"
| syn_items: "val_syn t \<Longrightarrow> json_ws w \<Longrightarrow> json_ws w' \<Longrightarrow> items_syn n ts \<Longrightarrow> items_syn (Suc n) (t @ w @ [0x2C] @ w' @ ts)"
| syn_pair: "str_syn e \<Longrightarrow> json_ws w1 \<Longrightarrow> json_ws w2 \<Longrightarrow> val_syn t \<Longrightarrow> json_ws w3 \<Longrightarrow>
    pairs_syn (Suc 0) ([0x22] @ e @ [0x22] @ w1 @ [0x3A] @ w2 @ t @ w3)"
| syn_pairs: "str_syn e \<Longrightarrow> json_ws w1 \<Longrightarrow> json_ws w2 \<Longrightarrow> val_syn t \<Longrightarrow> json_ws w3 \<Longrightarrow> json_ws w4 \<Longrightarrow> pairs_syn n ts \<Longrightarrow>
    pairs_syn (Suc n) (([0x22] @ e @ [0x22] @ w1 @ [0x3A] @ w2 @ t @ w3) @ [0x2C] @ w4 @ ts)"

definition json_syn :: "bytes \<Rightarrow> bool" where
  "json_syn d \<longleftrightarrow> (\<exists>w t w'. json_ws w \<and> val_syn t \<and> json_ws w' \<and> d = w @ t @ w')"

lemma str_doc_syn: "str_doc bs e \<Longrightarrow> str_syn e"
proof (induction rule: str_doc.induct)
  case (str_pair h hi l lo bs e)
  then show ?case using syn_hex[OF str_pair(1) syn_hex[OF str_pair(4)]] by simp
qed (force intro: str_syn.intros)+

lemma int_doc_syn: "int_doc t \<Longrightarrow> num_syn t"
  unfolding num_syn_def by (intro exI[of _ t] exI[of _ "[]"]) (simp add: frac_syn_def exp_syn_def)

lemma doc_syn:
  "val_doc v t \<Longrightarrow> val_syn t" "items_doc vs ts \<Longrightarrow> items_syn (length vs) ts" "pairs_doc kvs ps \<Longrightarrow> pairs_syn (length kvs) ps"
proof (induction rule: val_doc_items_doc_pairs_doc.inducts)
  case (doc_f64 s ip f e x)
  have "num_syn ((s @ ip) @ f @ e)" using doc_f64 unfolding num_syn_def by blast
  then show ?case using syn_num by simp
qed (use str_doc_syn int_doc_syn in \<open>auto intro: val_syn_items_syn_pairs_syn.intros[simplified]\<close>)

section \<open>Strings, numbers and whitespace are parsed\<close>

definition ws_bytes :: bytes where "ws_bytes = [0x20, 0x0A, 0x0D, 0x09]"

lemma PARSER_JSON_WHITESPACE_chars: "PARSER_JSON_WHITESPACE = COMB_ZERO_OR_MORE (COMB_ONE_OF (map PARSER_CHAR ws_bytes))"
  by (simp add: PARSER_JSON_WHITESPACE_def ws_bytes_def)

lemma eats_ws:
  assumes "json_ws w" "rest = [] \<or> hd rest \<notin> set ws_bytes"
  shows "eats PARSER_JSON_WHITESPACE w rest skip"
  unfolding PARSER_JSON_WHITESPACE_chars
  by (rule eats_all[OF _ misses_one_of_chars[OF assms(2)]])
    (use assms(1) in \<open>auto simp: json_ws_def ws_bytes_def subset_iff simp del: list.map intro!: eats_one_of_chars\<close>)

text \<open>Digits.\<close>

lemma is_digit_range: "in_range 0x30 0x39 c \<longleftrightarrow> is_digit c"
  by (simp add: in_range_iff is_digit_def)

lemma eats_digits: "list_all is_digit ds \<Longrightarrow> rest = [] \<or> \<not> is_digit (hd rest) \<Longrightarrow> eats (COMB_ZERO_OR_MORE PARSER_DIGIT) ds rest skip"
  unfolding PARSER_DIGIT_def
  by (rule eats_all) (auto simp: list_all_iff is_digit_range intro!: eats_range misses_range)

lemma eats_hex: "hex_val c = Some k \<Longrightarrow> eats PARSER_HEX_DIGIT [c] rest skip"
proof -
  assume c: "hex_val c = Some k"
  have r: "in_range 0x30 0x39 c \<longleftrightarrow> 0x30 \<le> c \<and> c \<le> 0x39" "in_range 0x41 0x46 c \<longleftrightarrow> 0x41 \<le> c \<and> c \<le> 0x46"
    "in_range 0x61 0x66 c \<longleftrightarrow> 0x61 \<le> c \<and> c \<le> 0x66" by (simp_all add: in_range_iff)
  consider "in_range 0x30 0x39 c" | "\<not> in_range 0x30 0x39 c" "in_range 0x41 0x46 c"
    | "\<not> in_range 0x30 0x39 c" "\<not> in_range 0x41 0x46 c" "in_range 0x61 0x66 c"
    using c unfolding r hex_val_def by (auto split: if_splits)
  then show ?thesis unfolding PARSER_HEX_DIGIT_def PARSER_DIGIT_def
    by cases (simp_all add: eats_ONE_OF_now eats_ONE_OF_later eats_range misses_range)
qed

lemma hex4_cases:
  assumes "hex4 h = Some k"
  obtains a b c d x y z u where "h = [a, b, c, d]" "hex_val a = Some x" "hex_val b = Some y" "hex_val c = Some z" "hex_val d = Some u"
    "k = 4096 * x + 256 * y + 16 * z + u"
  using assms by (cases h rule: hex4.cases) (auto simp: bind_Some_iff)

text \<open>Numbers: what follows must not continue the number.\<close>

definition num_ends :: "bytes \<Rightarrow> bool" where
  "num_ends rest \<longleftrightarrow> rest = [] \<or> \<not> is_digit (hd rest) \<and> hd rest \<notin> {0x2E, 0x65, 0x45}"

lemma eats_int_part:
  assumes "int_doc t" "rest = [] \<or> \<not> is_digit (hd rest)"
  shows "eats PARSER_INT_PART t rest skip"
proof -
  obtain s ds where t: "t = s @ ds" "s \<in> {[], [0x2D]}" "list_all is_digit ds" "ds = [0x30] \<or> ds \<noteq> [] \<and> hd ds \<noteq> 0x30"
    using assms(1) unfolding int_doc_def by blast
  from t(3,4) have ne: "ds \<noteq> []" "is_digit (hd ds)" by (auto simp: list_all_iff)
  then have "hd ds \<noteq> 0x2D" by (auto simp: is_digit_def)
  then have sign: "eats (COMB_MAYBE (ch CHR ''-'')) s (ds @ rest) skip"
    using t(2) ne(1) by (auto intro: eats_MAYBE[OF eats_char] intro!: eats_MAYBE_not misses_char)
  have "eats (COMB_ONE_OF [ch CHR ''0'', COMB_SEQUENCE [PARSER_CHAR_RANGE (chr CHR ''1'') (chr CHR ''9''), COMB_ZERO_OR_MORE PARSER_DIGIT]])
      ds rest skip"
  proof (cases "ds = [0x30]")
    case True
    then show ?thesis by (auto intro!: eats_ONE_OF_now)
  next
    case False
    with t(4) obtain d ds' where d: "ds = d # ds'" "d \<noteq> 0x30" by (cases ds) auto
    with t(3) have "in_range 0x31 0x39 d" by (auto simp: in_range_iff is_digit_def word_le_nat_alt word_unat_eq_iff)
    moreover have "eats (COMB_ZERO_OR_MORE PARSER_DIGIT) ds' rest skip"
      using t(3) d assms(2) by (intro eats_digits) auto
    ultimately show ?thesis using d
      by (simp add: eats_ONE_OF_later misses_char eats_ONE_OF_now eats_seq1 eats_last eats_range)
  qed
  then show ?thesis unfolding PARSER_INT_PART_def t(1) using sign by (intro eats_seq eats_last)
qed

lemma misses_frac: "t = [] \<or> hd t \<noteq> 0x2E \<Longrightarrow> misses PARSER_FRAC_PART t"
  by (auto simp: PARSER_FRAC_PART_def intro!: misses_SEQUENCE_now misses_char)

lemma misses_exp: "t = [] \<or> hd t \<notin> {0x65, 0x45} \<Longrightarrow> misses PARSER_EXPONENT t"
  by (auto simp: PARSER_EXPONENT_def intro!: misses_SEQUENCE_now misses_char misses_one_of)

lemma misses_fraction: "num_ends rest \<Longrightarrow> misses PARSER_FRAC_PART rest" "num_ends rest \<Longrightarrow> misses PARSER_EXPONENT rest"
  by (auto simp: num_ends_def intro!: misses_frac misses_exp)

text \<open>A part that may be missing.\<close>

definition part_parsed :: "Parser \<Rightarrow> bytes \<Rightarrow> bytes \<Rightarrow> bool" where
  "part_parsed p x rest \<longleftrightarrow> (if x = [] then misses p rest else eats p x rest skip)"

lemma part_maybe: "part_parsed p x rest \<Longrightarrow> eats (COMB_MAYBE p) x rest skip"
  by (auto simp: part_parsed_def eats_MAYBE eats_MAYBE_not split: if_splits)

lemma frac_parsed:
  assumes "frac_syn f" "t = [] \<or> \<not> is_digit (hd t) \<and> hd t \<noteq> 0x2E"
  shows "part_parsed PARSER_FRAC_PART f t"
proof (cases "f = []")
  case True
  then show ?thesis using assms(2) by (auto simp: part_parsed_def intro!: misses_frac)
next
  case False
  then obtain ds where f: "f = 0x2E # ds" "list_all is_digit ds" using assms(1) by (auto simp: frac_syn_def)
  have "eats (COMB_ZERO_OR_MORE PARSER_DIGIT) ds t skip" using f(2) assms(2) by (intro eats_digits) auto
  then show ?thesis unfolding f(1) PARSER_FRAC_PART_def by (auto simp: part_parsed_def intro!: eats_seq1 eats_last)
qed

lemma exp_parsed:
  assumes "exp_syn e" "num_ends t"
  shows "part_parsed PARSER_EXPONENT e t"
proof (cases "e = []")
  case True
  then show ?thesis using assms(2) by (auto simp: part_parsed_def intro!: misses_fraction)
next
  case False
  then obtain c s d ds where e: "e = c # s @ d # ds" "c \<in> {0x65, 0x45}" "s \<in> {[], [0x2B], [0x2D]}" "list_all is_digit (d # ds)"
    using assms(1) unfolding exp_syn_def by (metis neq_Nil_conv)
  have c: "eats (COMB_ONE_OF [PARSER_CHAR 0x65, PARSER_CHAR 0x45]) [c] r skip" for r
    using eats_one_of_chars[of c "[0x65, 0x45]" r] e(2) by simp
  have sign: "eats (COMB_MAYBE (COMB_ONE_OF [PARSER_CHAR 0x2B, PARSER_CHAR 0x2D])) s (d # r) skip" for r
  proof (cases "s = []")
    case True
    have "d \<noteq> 0x2B" "d \<noteq> 0x2D" using e(4) by (auto simp: is_digit_def)
    with True show ?thesis by (auto intro!: eats_MAYBE_not misses_one_of misses_char)
  next
    case False
    then show ?thesis using e(3) eats_one_of_chars[of "hd s" "[0x2B, 0x2D]" "d # r"] by (auto intro!: eats_MAYBE)
  qed
  have d: "eats PARSER_DIGIT [d] r skip" for r using e(4) by (simp add: PARSER_DIGIT_def eats_range is_digit_range)
  have "eats (COMB_ZERO_OR_MORE PARSER_DIGIT) ds t skip" using e(4) assms(2) by (intro eats_digits) (auto simp: num_ends_def)
  then have "eats (COMB_SEQUENCE [PARSER_DIGIT, COMB_ZERO_OR_MORE PARSER_DIGIT]) (d # ds) t skip"
    by (intro eats_seq1 eats_last d)
  with sign have "eats (COMB_SEQUENCE [COMB_MAYBE (COMB_ONE_OF [PARSER_CHAR 0x2B, PARSER_CHAR 0x2D]), PARSER_DIGIT,
      COMB_ZERO_OR_MORE PARSER_DIGIT]) (s @ d # ds) t skip" by (intro eats_seq) auto
  with c have "eats PARSER_EXPONENT e t skip" unfolding e(1) PARSER_EXPONENT_def by (auto intro!: eats_seq1)
  with False show ?thesis by (simp add: part_parsed_def)
qed

lemma num_part_ends:
  assumes "exp_syn e" "num_ends rest"
  shows "e @ rest = [] \<or> \<not> is_digit (hd (e @ rest)) \<and> hd (e @ rest) \<noteq> 0x2E"
  using assms by (auto simp: exp_syn_def num_ends_def is_digit_def)

lemma eats_number:
  assumes "num_syn t" "num_ends rest"
  shows "eats PARSER_JSON_NUMBER t rest (\<lambda>a r. r\<lparr>pr_type := JSON_TYPE_NUMBER, pr_content := \<lparr>buf_data = a, buf_len = length t\<rparr>\<rparr>)"
proof -
  obtain i f e where t: "t = i @ f @ e" "int_doc i" "frac_syn f" "exp_syn e" using assms(1) by (auto simp: num_syn_def)
  note ends = num_part_ends[OF t(4) assms(2)]
  have "eats (COMB_SEQUENCE [COMB_MAYBE PARSER_FRAC_PART, COMB_MAYBE PARSER_EXPONENT]) (f @ e) rest skip"
    using part_maybe[OF frac_parsed[OF t(3) ends]] part_maybe[OF exp_parsed[OF t(4) assms(2)]] by (intro eats_seq eats_last)
  moreover have "(f @ e) @ rest = [] \<or> \<not> is_digit (hd ((f @ e) @ rest))"
    using ends t(3) by (auto simp: frac_syn_def is_digit_def)
  ultimately have "eats (COMB_SEQUENCE [PARSER_INT_PART, COMB_MAYBE PARSER_FRAC_PART, COMB_MAYBE PARSER_EXPONENT]) t rest skip"
    unfolding t(1) by (rule eats_seq[OF eats_int_part[OF t(2)], rotated])
  then show ?thesis unfolding PARSER_JSON_NUMBER_def by (rule eats_RESULT_VAL)
qed

text \<open>Strings.\<close>

abbreviation str_item :: Parser where "str_item \<equiv> COMB_ONE_OF [PARSER_JSON_STR_CODEPOINT, PARSER_JSON_STR_ESCAPE]"

lemma cont_no_lead:
  assumes "utf8_cont b" shows "utf8_lead_len b = 0"
proof -
  have *: "bit b 7" "\<not> bit b 6"
    using assms unfolding utf8_cont_def by (auto simp: bit_eq_iff bit_and_iff dest: spec[of _ 7] spec[of _ 6])
  have "b AND 0x80 \<noteq> 0" "b AND 0xE0 \<noteq> 0xC0" "b AND 0xF0 \<noteq> 0xE0" "b AND 0xF8 \<noteq> 0xF0"
    using * by (auto simp: bit_eq_iff bit_and_iff intro: exI[of _ 7] exI[of _ 6])
  then show ?thesis by (simp add: utf8_lead_len_def)
qed

lemma eats_codepoint:
  assumes "utf8_char cs" "json_plain (hd cs)"
  shows "eats PARSER_JSON_STR_CODEPOINT cs rest skip"
proof (rule eats_leaf)
  fix m buf out assume c: "contents m buf = cs @ rest" "buf_len buf \<le> SIZE_MAX"
  have cs: "cs \<noteq> []" "utf8_lead_len (hd cs) = length cs" "list_all utf8_cont (tl cs)" using assms(1) by (auto simp: utf8_char_def)
  have b: "m (buf_data buf) = hd cs" "length cs \<le> buf_len buf" "0 < buf_len buf"
    using contents_Cons[of m buf "hd cs" "tl cs @ rest"] c(1) cs(1) by (cases cs; simp)+
  have nth: "m (buf_data buf + i) = cs ! i" if "i < length cs" for i
  proof -
    have "contents m buf ! i = m (buf_data buf + i)" using that b(2) by (simp add: contents_def)
    then show ?thesis using that c(1) by (simp add: nth_append)
  qed
  have "list_all (\<lambda>i. utf8_cont (m (buf_data buf + i))) [1..<length cs]"
    unfolding list_all_iff
  proof
    fix i assume "i \<in> set [1..<length cs]"
    then have "i < length cs" "i - 1 < length (tl cs)" "tl cs ! (i - 1) = cs ! i" by (auto simp: nth_tl)
    then show "utf8_cont (m (buf_data buf + i))" using cs(3) nth[of i] by (metis list_all_length)
  qed
  moreover have "\<not> utf8_cont (hd cs)"
  proof
    assume "utf8_cont (hd cs)"
    then have "utf8_lead_len (hd cs) = 0" by (rule cont_no_lead)
    with cs show False by simp
  qed
  ultimately have "parser_json_str_codepoint_fn m buf = (True, advance buf (length cs))"
    using assms(2) b c(2) cs(1,2) by (auto simp: parser_json_str_codepoint_fn_def json_plain_def substr_advance Let_def)
  then show "parses m PARSER_JSON_STR_CODEPOINT buf out (True, advance buf (length cs), out)"
    using parses_leaf(4)[of m buf out] by simp
qed

lemma misses_codepoint: "t = [] \<or> \<not> json_plain (hd t) \<Longrightarrow> misses PARSER_JSON_STR_CODEPOINT t"
proof (rule missesI)
  fix m buf out assume t: "t = [] \<or> \<not> json_plain (hd t)" "contents m buf = t"
  then have "parser_json_str_codepoint_fn m buf = (False, buf)"
    by (cases t) (auto simp: parser_json_str_codepoint_fn_def contents_Nil json_plain_def not_less Let_def dest: contents_Cons)
  then show "parses m PARSER_JSON_STR_CODEPOINT buf out (False, buf, out)" using parses_leaf(4)[of m buf out] by simp
qed

definition esc_bytes :: bytes where "esc_bytes = [0x22, 0x5C, 0x2F, 0x62, 0x66, 0x6E, 0x72, 0x74]"

abbreviation hex_escape :: Parser where
  "hex_escape \<equiv> COMB_SEQUENCE [PARSER_CHAR 0x75, PARSER_HEX_DIGIT, PARSER_HEX_DIGIT, PARSER_HEX_DIGIT, PARSER_HEX_DIGIT]"

lemma PARSER_JSON_STR_ESCAPE_chars:
  "PARSER_JSON_STR_ESCAPE = COMB_SEQUENCE [PARSER_CHAR 0x5C, COMB_ONE_OF (map PARSER_CHAR esc_bytes @ [hex_escape])]"
  by (simp add: PARSER_JSON_STR_ESCAPE_def esc_bytes_def)

lemma eats_one_of_char_first: "c \<in> set cs \<Longrightarrow> eats (COMB_ONE_OF (map PARSER_CHAR cs @ ps)) [c] rest skip"
proof (induction cs)
  case (Cons d cs)
  show ?case
  proof (cases "c = d")
    case True
    then show ?thesis by (simp add: eats_ONE_OF_now)
  next
    case False
    with Cons show ?thesis by (auto intro!: eats_ONE_OF_later misses_char)
  qed
qed simp

lemma eats_one_of_chars_later:
  "t @ rest = [] \<or> hd (t @ rest) \<notin> set cs \<Longrightarrow> eats (COMB_ONE_OF ps) t rest f \<Longrightarrow> eats (COMB_ONE_OF (map PARSER_CHAR cs @ ps)) t rest f"
  by (induction cs) (auto intro!: eats_ONE_OF_later misses_char)

lemma eats_hex_escape: "hex4 h = Some k \<Longrightarrow> eats PARSER_JSON_STR_ESCAPE (0x5C # 0x75 # h) rest skip"
proof -
  assume "hex4 h = Some k"
  then obtain a b c d x y z u where h: "h = [a, b, c, d]" "hex_val a = Some x" "hex_val b = Some y" "hex_val c = Some z" "hex_val d = Some u"
    by (rule hex4_cases)
  then have "eats hex_escape (0x75 # h) rest skip" by (simp add: eats_seq1 eats_last eats_hex)
  then have "eats (COMB_ONE_OF [hex_escape]) (0x75 # h) rest skip" by (rule eats_ONE_OF_now)
  then have "eats (COMB_ONE_OF (map PARSER_CHAR esc_bytes @ [hex_escape])) (0x75 # h) rest skip"
    by (intro eats_one_of_chars_later) (auto simp: esc_bytes_def)
  then show ?thesis unfolding PARSER_JSON_STR_ESCAPE_chars by (intro eats_seq1 eats_last eats_char)
qed

lemma eats_simple_escape: "c \<in> fst ` set json_escapes \<Longrightarrow> eats PARSER_JSON_STR_ESCAPE [0x5C, c] rest skip"
proof -
  assume "c \<in> fst ` set json_escapes"
  then have "c \<in> set esc_bytes" by (auto simp: json_escapes_def esc_bytes_def)
  then show ?thesis unfolding PARSER_JSON_STR_ESCAPE_chars by (intro eats_seq1 eats_last eats_char eats_one_of_char_first)
qed

lemma eats_escape:
  assumes "eats PARSER_JSON_STR_ESCAPE (0x5C # t) rest skip"
  shows "eats str_item (0x5C # t) rest skip"
  by (rule eats_ONE_OF_later[OF misses_codepoint eats_ONE_OF_now[OF assms]]) (simp add: json_plain_def)

lemma eats_str_body:
  assumes "str_syn e"
  shows "eats (COMB_ZERO_OR_MORE str_item) e (0x22 # rest) skip"
  using assms
proof induction
  case syn_end
  have "misses str_item (0x22 # rest)"
    unfolding PARSER_JSON_STR_ESCAPE_chars
    by (intro misses_ONE_OF_Cons misses_ONE_OF_Nil misses_codepoint misses_SEQUENCE_now misses_char) (simp_all add: json_plain_def)
  then show ?case by (rule eats_ZERO)
next
  case (syn_char cs e)
  then show ?case by (intro eats_more eats_ONE_OF_now eats_codepoint)
next
  case (syn_esc c e)
  then show ?case using eats_more[OF eats_escape[OF eats_simple_escape[OF syn_esc(1)]]] by simp
next
  case (syn_hex h k e)
  then show ?case using eats_more[OF eats_escape[OF eats_hex_escape[OF syn_hex(1)]]] by simp
qed

lemma eats_string:
  assumes "str_syn e"
  shows "eats PARSER_JSON_STR ([0x22] @ e @ [0x22]) rest
    (\<lambda>a r. r\<lparr>pr_type := JSON_TYPE_STR, pr_content := \<lparr>buf_data = a + 1, buf_len = length e\<rparr>\<rparr>)"
proof -
  let ?body = "COMB_RESULT_VAL JSON_TYPE_STR (COMB_ZERO_OR_MORE str_item)"
  have "eats ?body e ([0x22] @ rest) (\<lambda>a r. r\<lparr>pr_type := JSON_TYPE_STR, pr_content := \<lparr>buf_data = a, buf_len = length e\<rparr>\<rparr>)"
    using eats_RESULT_VAL[OF eats_str_body[OF assms, of rest]] by simp
  from eats_SEQUENCE_Cons[OF this eats_last[OF eats_char]]
  have "eats (COMB_SEQUENCE [?body, PARSER_CHAR 0x22]) (e @ [0x22]) rest
      (\<lambda>a r. r\<lparr>pr_type := JSON_TYPE_STR, pr_content := \<lparr>buf_data = a, buf_len = length e\<rparr>\<rparr>)" by (simp add: o_def)
  from eats_SEQUENCE_Cons[OF eats_char[of "0x22" "(e @ [0x22]) @ rest"] this] show ?thesis
    by (simp add: o_def PARSER_JSON_STR_def)
qed

section \<open>Values are parsed\<close>

abbreviation json_core :: Parser where
  "json_core \<equiv> COMB_ONE_OF [PARSER_JSON_STR, PARSER_JSON_NUMBER, PARSER_JSON_OBJECT, PARSER_JSON_ARRAY,
     PARSER_JSON_TRUE, PARSER_JSON_FALSE, PARSER_JSON_NULL]"

definition val_ends :: "bytes \<Rightarrow> bool" where
  "val_ends rest \<longleftrightarrow> rest = [] \<or> hd rest \<in> {0x2C, 0x5D, 0x7D, 0x3A}"

lemma val_ends_num: "val_ends rest \<Longrightarrow> json_ws w \<Longrightarrow> num_ends (w @ rest)"
  by (cases w) (auto simp: val_ends_def num_ends_def json_ws_def is_digit_def)

lemma val_ends_ws: "val_ends rest \<Longrightarrow> rest = [] \<or> hd rest \<notin> set ws_bytes"
  by (auto simp: val_ends_def ws_bytes_def)

lemma misses_by_first:
  shows
    "t = [] \<or> hd t \<noteq> 0x22 \<Longrightarrow> misses PARSER_JSON_STR t" "t = [] \<or> hd t \<noteq> 0x7B \<Longrightarrow> misses PARSER_JSON_OBJECT t"
    "t = [] \<or> hd t \<noteq> 0x5B \<Longrightarrow> misses PARSER_JSON_ARRAY t"
    "t = [] \<or> hd t \<noteq> 0x74 \<Longrightarrow> misses PARSER_JSON_TRUE t" "t = [] \<or> hd t \<noteq> 0x66 \<Longrightarrow> misses PARSER_JSON_FALSE t"
    "t = [] \<or> hd t \<noteq> 0x6E \<Longrightarrow> misses PARSER_JSON_NULL t"
  by (cases t; auto simp: PARSER_JSON_STR_def PARSER_JSON_OBJECT_def PARSER_JSON_ARRAY_def PARSER_JSON_TRUE_def PARSER_JSON_FALSE_def
      PARSER_JSON_NULL_def str_def intro!: misses_SEQUENCE_now misses_char misses_RESULT_VAL misses_str)+

lemma misses_number:
  assumes "t = [] \<or> \<not> is_digit (hd t) \<and> hd t \<noteq> 0x2D"
  shows "misses PARSER_JSON_NUMBER t"
proof -
  have "eats (COMB_MAYBE (ch CHR ''-'')) [] t skip" using assms by (intro eats_MAYBE_not misses_char) auto
  moreover have "t = [] \<or> \<not> in_range 0x31 0x39 (hd t)" "t = [] \<or> hd t \<noteq> 0x30"
    using assms by (auto simp: in_range_iff is_digit_def word_le_nat_alt)
  then have "misses (COMB_SEQUENCE [COMB_ONE_OF [ch CHR ''0'', COMB_SEQUENCE [PARSER_CHAR_RANGE (chr CHR ''1'') (chr CHR ''9''),
      COMB_ZERO_OR_MORE PARSER_DIGIT]]]) t"
    by (auto intro!: misses_SEQUENCE_now misses_one_of misses_char misses_range)
  ultimately have "misses PARSER_INT_PART t" unfolding PARSER_INT_PART_def using misses_SEQUENCE_later[of _ "[]"] by simp
  then show ?thesis unfolding PARSER_JSON_NUMBER_def by (intro misses_RESULT_VAL misses_SEQUENCE_now)
qed

lemma misses_value:
  assumes "t = [] \<or> hd t = 0x5D \<or> hd t = 0x7D"
  shows "misses PARSER_JSON_VALUE t"
proof -
  have "eats PARSER_JSON_WHITESPACE [] t skip" using assms by (intro eats_ws) (auto simp: json_ws_def ws_bytes_def)
  moreover have "misses json_core t"
    using assms by (auto intro!: misses_one_of misses_by_first misses_number simp: is_digit_def)
  ultimately have "misses json_value_parser t" unfolding json_value_parser_def
    using misses_SEQUENCE_later[of PARSER_JSON_WHITESPACE "[]" t] misses_SEQUENCE_now[of json_core t] by simp
  then show ?thesis by (rule misses_VALUE)
qed

lemma eats_value:
  assumes "json_ws w" "json_ws w'" "val_ends rest" "eats json_core t (w' @ rest) f" "t \<noteq> []" "hd t \<notin> set ws_bytes"
  shows "eats PARSER_JSON_VALUE (w @ t @ w') rest (\<lambda>a. f (a + length w))"
proof -
  have "eats (COMB_SEQUENCE [PARSER_JSON_WHITESPACE]) w' rest skip"
    by (rule eats_last[OF eats_ws[OF assms(2) val_ends_ws[OF assms(3)]]])
  from eats_SEQUENCE_Cons[OF assms(4) this]
  have "eats (COMB_SEQUENCE [json_core, PARSER_JSON_WHITESPACE]) (t @ w') rest f" by (simp add: o_def)
  moreover have "eats PARSER_JSON_WHITESPACE w ((t @ w') @ rest) skip" using assms(5,6) by (intro eats_ws[OF assms(1)]) simp
  ultimately have "eats json_value_parser (w @ t @ w') rest (\<lambda>a. f (a + length w))"
    unfolding json_value_parser_def using eats_SEQUENCE_Cons by (fastforce simp: o_def)
  then show ?thesis by (rule eats_VALUE)
qed

text \<open>The bodies of arrays and objects.\<close>

definition counted :: "nat \<Rightarrow> addr \<Rightarrow> ParseResult \<Rightarrow> ParseResult" where
  "counted n = (\<lambda>_ r. r\<lparr>pr_count := pr_count r + n\<rparr>)"

definition body_parsed :: "Parser \<Rightarrow> Parser \<Rightarrow> bytes \<Rightarrow> bytes \<Rightarrow> nat \<Rightarrow> bool" where
  "body_parsed item item_sep t rest n \<longleftrightarrow> (\<exists>xs ys. t = xs @ ys \<and>
     eats (COMB_ZERO_OR_MORE (COMB_INCREMENT_COUNT item_sep)) xs (ys @ rest) (counted (n - 1)) \<and>
     eats (COMB_INCREMENT_COUNT item) ys rest (counted 1) \<and> 0 < n)"

lemma body_last:
  assumes "eats item t rest skip" "misses item_sep (t @ rest)"
  shows "body_parsed item item_sep t rest (Suc 0)"
  unfolding body_parsed_def
  using eats_ZERO[OF misses_INCREMENT_COUNT[OF assms(2)]] eats_INCREMENT_COUNT[OF assms(1)]
  by (intro exI[of _ "[]"] exI[of _ t]) (simp add: counted_def)

lemma body_more:
  assumes "eats item_sep t (ts @ rest) skip" "body_parsed item item_sep ts rest n"
  shows "body_parsed item item_sep (t @ ts) rest (Suc n)"
proof -
  obtain xs ys where b: "ts = xs @ ys" "eats (COMB_ZERO_OR_MORE (COMB_INCREMENT_COUNT item_sep)) xs (ys @ rest) (counted (n - 1))"
    "eats (COMB_INCREMENT_COUNT item) ys rest (counted 1)" "0 < n"
    using assms(2) unfolding body_parsed_def by blast
  have "eats (COMB_INCREMENT_COUNT item_sep) t (xs @ ys @ rest) (counted 1)"
    using eats_INCREMENT_COUNT[OF assms(1)] b(1) by (simp add: counted_def)
  from eats_MORE[OF this b(2)] have "eats (COMB_ZERO_OR_MORE (COMB_INCREMENT_COUNT item_sep)) (t @ xs) (ys @ rest) (counted n)"
    using b(4) by (simp add: counted_def o_def)
  then show ?thesis unfolding body_parsed_def using b by (intro exI[of _ "t @ xs"] exI[of _ ys]) simp
qed

abbreviation body :: "Parser \<Rightarrow> Parser \<Rightarrow> Parser" where
  "body item item_sep \<equiv> COMB_MAYBE (COMB_SEQUENCE [COMB_ZERO_OR_MORE (COMB_INCREMENT_COUNT item_sep), COMB_INCREMENT_COUNT item])"

lemma eats_body:
  assumes "body_parsed item item_sep t rest n"
  shows "eats (body item item_sep) t rest (counted n)"
proof -
  obtain xs ys where b: "t = xs @ ys" "eats (COMB_ZERO_OR_MORE (COMB_INCREMENT_COUNT item_sep)) xs (ys @ rest) (counted (n - 1))"
    "eats (COMB_INCREMENT_COUNT item) ys rest (counted 1)" "0 < n"
    using assms unfolding body_parsed_def by blast
  have "eats (COMB_SEQUENCE [COMB_INCREMENT_COUNT item]) ys rest (counted 1)"
    using eats_SEQUENCE_Cons[of "COMB_INCREMENT_COUNT item" ys "[]" rest "counted 1" "[]" skip] b(3) by (simp add: o_def counted_def)
  from eats_MAYBE[OF eats_SEQUENCE_Cons[OF b(2) this]] show ?thesis using b(1,4) by (simp add: o_def counted_def)
qed

lemma eats_body_empty:
  assumes "misses item rest" "misses item_sep rest"
  shows "eats (body item item_sep) [] rest (counted 0)"
proof -
  have "misses (COMB_SEQUENCE [COMB_ZERO_OR_MORE (COMB_INCREMENT_COUNT item_sep), COMB_INCREMENT_COUNT item]) rest"
    using misses_SEQUENCE_later[of _ "[]" rest] eats_ZERO[OF misses_INCREMENT_COUNT[OF assms(2)]]
      misses_SEQUENCE_now[OF misses_INCREMENT_COUNT[OF assms(1)]] by simp
  then show ?thesis using eats_MAYBE_not by (simp add: counted_def)
qed

lemma eats_bracketed:
  assumes "json_ws w" "eats (body item item_sep) t (c # rest) (counted n)" "hd (t @ [c]) \<notin> set ws_bytes"
  shows "eats (COMB_SEQUENCE [PARSER_CHAR o', PARSER_JSON_WHITESPACE, COMB_RESULT_VAL ty (body item item_sep), PARSER_CHAR c])
    ([o'] @ w @ t @ [c]) rest
    (\<lambda>a r. r\<lparr>pr_count := pr_count r + n, pr_type := ty, pr_content := \<lparr>buf_data = a + 1 + length w, buf_len = length t\<rparr>\<rparr>)"
proof -
  let ?f = "\<lambda>a r. r\<lparr>pr_count := pr_count r + n, pr_type := ty, pr_content := \<lparr>buf_data = a, buf_len = length t\<rparr>\<rparr>"
  have "eats (COMB_RESULT_VAL ty (body item item_sep)) t ([c] @ rest) ?f"
    using eats_RESULT_VAL[OF assms(2), of ty] by (simp add: counted_def)
  from eats_SEQUENCE_Cons[OF this eats_last[OF eats_char]]
  have "eats (COMB_SEQUENCE [COMB_RESULT_VAL ty (body item item_sep), PARSER_CHAR c]) (t @ [c]) rest ?f" by (simp add: o_def)
  moreover have "eats PARSER_JSON_WHITESPACE w ((t @ [c]) @ rest) skip"
    using assms(3) by (intro eats_ws[OF assms(1)]) (cases t; simp)
  ultimately have "eats (COMB_SEQUENCE [PARSER_JSON_WHITESPACE, COMB_RESULT_VAL ty (body item item_sep), PARSER_CHAR c])
      (w @ t @ [c]) rest (\<lambda>a. ?f (a + length w))" using eats_SEQUENCE_Cons by (fastforce simp: o_def)
  from eats_SEQUENCE_Cons[OF eats_char[of o'] this] show ?thesis by (simp add: o_def add.assoc)
qed

text \<open>The separators of arrays and objects.\<close>

abbreviation "elem_sep \<equiv> COMB_SEQUENCE [PARSER_JSON_ARRAY_ELEM, ch CHR '','']"
abbreviation "kv_sep \<equiv> COMB_SEQUENCE [PARSER_JSON_OBJECT_KV, ch CHR '','', PARSER_JSON_WHITESPACE]"

lemma eats_elem: "eats PARSER_JSON_VALUE t rest f \<Longrightarrow> eats PARSER_JSON_ARRAY_ELEM t rest skip"
  unfolding PARSER_JSON_ARRAY_ELEM_def by (rule eats_NESTED)

lemma array_last:
  assumes "eats PARSER_JSON_VALUE t (0x5D # rest) f"
  shows "body_parsed PARSER_JSON_ARRAY_ELEM elem_sep t (0x5D # rest) (Suc 0)"
  using eats_elem[OF assms] by (simp add: body_last misses_SEQUENCE_later misses_SEQUENCE_now misses_char)

lemma array_more:
  assumes "eats PARSER_JSON_VALUE t ([0x2C] @ ts @ rest) f" "body_parsed PARSER_JSON_ARRAY_ELEM elem_sep ts rest n"
  shows "body_parsed PARSER_JSON_ARRAY_ELEM elem_sep (t @ [0x2C] @ ts) rest (Suc n)"
proof -
  have "eats elem_sep (t @ [0x2C]) (ts @ rest) skip"
    using eats_elem[OF assms(1)] by (intro eats_seq) (auto intro: eats_last)
  from body_more[OF this assms(2)] show ?thesis by simp
qed

lemma eats_kv:
  assumes "str_syn e" "json_ws w1" "eats PARSER_JSON_VALUE t rest f"
  shows "eats PARSER_JSON_OBJECT_KV ([0x22] @ e @ [0x22] @ w1 @ [0x3A] @ t) rest skip"
proof -
  have "eats (COMB_SEQUENCE [PARSER_JSON_VALUE]) t rest f"
    using eats_SEQUENCE_Cons[OF _ eats_SEQUENCE_Nil, of PARSER_JSON_VALUE t rest f] assms(3) by (simp add: o_def)
  from eats_SEQUENCE_Cons[OF eats_char[of "0x3A"] this]
  have 1: "eats (COMB_SEQUENCE [PARSER_CHAR 0x3A, PARSER_JSON_VALUE]) ([0x3A] @ t) rest (\<lambda>a. f (a + 1))" by (simp add: o_def)
  have "eats PARSER_JSON_WHITESPACE w1 (([0x3A] @ t) @ rest) skip" by (rule eats_ws[OF assms(2)]) (simp add: ws_bytes_def)
  from eats_SEQUENCE_Cons[OF eats_string[OF assms(1)] eats_SEQUENCE_Cons[OF this 1]]
  show ?thesis unfolding PARSER_JSON_OBJECT_KV_def using eats_NESTED by fastforce
qed

lemma object_last:
  assumes "eats PARSER_JSON_OBJECT_KV t (0x7D # rest) skip"
  shows "body_parsed PARSER_JSON_OBJECT_KV kv_sep t (0x7D # rest) (Suc 0)"
  using assms by (simp add: body_last misses_SEQUENCE_later misses_SEQUENCE_now misses_char)

lemma object_more:
  assumes "eats PARSER_JSON_OBJECT_KV t ([0x2C] @ w @ ts @ rest) skip" "json_ws w" "ts \<noteq> []" "hd ts \<notin> set ws_bytes"
    "body_parsed PARSER_JSON_OBJECT_KV kv_sep ts rest n"
  shows "body_parsed PARSER_JSON_OBJECT_KV kv_sep (t @ [0x2C] @ w @ ts) rest (Suc n)"
proof -
  have "eats PARSER_JSON_WHITESPACE w (ts @ rest) skip" using assms(3,4) by (intro eats_ws[OF assms(2)]) simp
  then have "eats (COMB_SEQUENCE [ch CHR '','', PARSER_JSON_WHITESPACE]) ([0x2C] @ w) (ts @ rest) skip"
    by (intro eats_seq) (auto intro: eats_last)
  then have "eats kv_sep (t @ [0x2C] @ w) (ts @ rest) skip" using eats_seq[of PARSER_JSON_OBJECT_KV t "[0x2C] @ w" "ts @ rest"] assms(1) by simp
  from body_more[OF this assms(5)] show ?thesis by simp
qed

text \<open>The alternatives of a value, by its first byte.\<close>

lemma eats_core:
  "t = 0x22 # t' \<Longrightarrow> eats PARSER_JSON_STR t rest f \<Longrightarrow> eats json_core t rest f"
  "t = 0x7B # t' \<Longrightarrow> eats PARSER_JSON_OBJECT t rest f \<Longrightarrow> eats json_core t rest f"
  "t = 0x5B # t' \<Longrightarrow> eats PARSER_JSON_ARRAY t rest f \<Longrightarrow> eats json_core t rest f"
  "t = 0x74 # t' \<Longrightarrow> eats PARSER_JSON_TRUE t rest f \<Longrightarrow> eats json_core t rest f"
  "t = 0x66 # t' \<Longrightarrow> eats PARSER_JSON_FALSE t rest f \<Longrightarrow> eats json_core t rest f"
  "t = 0x6E # t' \<Longrightarrow> eats PARSER_JSON_NULL t rest f \<Longrightarrow> eats json_core t rest f"
  by (simp_all add: eats_ONE_OF_now eats_ONE_OF_later misses_by_first misses_number is_digit_def)

lemma int_doc_first: "int_doc t \<Longrightarrow> t \<noteq> [] \<and> hd t \<noteq> 0x22 \<and> hd t \<notin> set ws_bytes"
  unfolding int_doc_def by (auto simp: list_all_iff is_digit_def ws_bytes_def neq_Nil_conv)

lemma num_syn_first: "num_syn t \<Longrightarrow> t \<noteq> [] \<and> hd t \<noteq> 0x22 \<and> hd t \<notin> set ws_bytes"
  using int_doc_first by (auto simp: num_syn_def)

lemma eats_core_number:
  assumes "num_syn t" "num_ends rest"
  shows "eats json_core t rest (\<lambda>a r. r\<lparr>pr_type := JSON_TYPE_NUMBER, pr_content := \<lparr>buf_data = a, buf_len = length t\<rparr>\<rparr>)"
  using num_syn_first[OF assms(1)]
  by (intro eats_ONE_OF_later[OF misses_by_first(1)] eats_ONE_OF_now eats_number assms) simp

definition effect_lit :: "JsonType \<Rightarrow> nat \<Rightarrow> addr \<Rightarrow> ParseResult \<Rightarrow> ParseResult" where
  "effect_lit ty n = (\<lambda>a r. r\<lparr>pr_type := ty, pr_content := \<lparr>buf_data = a, buf_len = n\<rparr>\<rparr>)"

lemma eats_core_literal:
  "eats json_core (str ''null'') rest (effect_lit JSON_TYPE_NULL 4)"
  "eats json_core (str ''true'') rest (effect_lit JSON_TYPE_TRUE 4)"
  "eats json_core (str ''false'') rest (effect_lit JSON_TYPE_FALSE 5)"
proof -
  have "eats PARSER_JSON_NULL (str ''null'') rest (effect_lit JSON_TYPE_NULL 4)"
    "eats PARSER_JSON_TRUE (str ''true'') rest (effect_lit JSON_TYPE_TRUE 4)"
    "eats PARSER_JSON_FALSE (str ''false'') rest (effect_lit JSON_TYPE_FALSE 5)"
    unfolding PARSER_JSON_NULL_def PARSER_JSON_TRUE_def PARSER_JSON_FALSE_def effect_lit_def
    using eats_RESULT_VAL[OF eats_str[of "str ''null''" rest], of JSON_TYPE_NULL] eats_RESULT_VAL[OF eats_str[of "str ''true''" rest], of JSON_TYPE_TRUE]
      eats_RESULT_VAL[OF eats_str[of "str ''false''" rest], of JSON_TYPE_FALSE] by (simp_all add: eval_nat_numeral)
  then show "eats json_core (str ''null'') rest (effect_lit JSON_TYPE_NULL 4)"
    "eats json_core (str ''true'') rest (effect_lit JSON_TYPE_TRUE 4)"
    "eats json_core (str ''false'') rest (effect_lit JSON_TYPE_FALSE 5)"
    by (auto simp: str_def intro: eats_core)
qed

definition effect_nested :: "JsonType \<Rightarrow> nat \<Rightarrow> nat \<Rightarrow> nat \<Rightarrow> addr \<Rightarrow> ParseResult \<Rightarrow> ParseResult" where
  "effect_nested ty off n cnt = (\<lambda>a r. r\<lparr>pr_count := pr_count r + cnt, pr_type := ty, pr_content := \<lparr>buf_data = a + off, buf_len = n\<rparr>\<rparr>)"

lemma eats_core_array:
  assumes "json_ws w" "eats (body PARSER_JSON_ARRAY_ELEM elem_sep) t (0x5D # rest) (counted n)" "hd (t @ [0x5D]) \<notin> set ws_bytes"
  shows "eats json_core ([0x5B] @ w @ t @ [0x5D]) rest (effect_nested JSON_TYPE_ARRAY (1 + length w) (length t) n)"
proof -
  have "eats PARSER_JSON_ARRAY ([0x5B] @ w @ t @ [0x5D]) rest (effect_nested JSON_TYPE_ARRAY (1 + length w) (length t) n)"
    using eats_bracketed[OF assms, of "0x5B" JSON_TYPE_ARRAY] by (simp add: PARSER_JSON_ARRAY_def effect_nested_def add.assoc)
  then show ?thesis by (intro eats_core(3)) simp_all
qed

lemma eats_core_object:
  assumes "json_ws w" "eats (body PARSER_JSON_OBJECT_KV kv_sep) t (0x7D # rest) (counted n)" "hd (t @ [0x7D]) \<notin> set ws_bytes"
  shows "eats json_core ([0x7B] @ w @ t @ [0x7D]) rest (effect_nested JSON_TYPE_OBJECT (1 + length w) (length t) n)"
proof -
  have "eats PARSER_JSON_OBJECT ([0x7B] @ w @ t @ [0x7D]) rest (effect_nested JSON_TYPE_OBJECT (1 + length w) (length t) n)"
    using eats_bracketed[OF assms, of "0x7B" JSON_TYPE_OBJECT] by (simp add: PARSER_JSON_OBJECT_def effect_nested_def add.assoc)
  then show ?thesis by (intro eats_core(2)) simp_all
qed

lemma eats_core_empty:
  assumes "json_ws w"
  shows "eats json_core ([0x5B] @ w @ [0x5D]) rest (effect_nested JSON_TYPE_ARRAY (1 + length w) 0 0)"
    "eats json_core ([0x7B] @ w @ [0x7D]) rest (effect_nested JSON_TYPE_OBJECT (1 + length w) 0 0)"
proof -
  have "misses PARSER_JSON_ARRAY_ELEM (0x5D # rest)" unfolding PARSER_JSON_ARRAY_ELEM_def by (intro misses_NESTED misses_value) simp
  then show "eats json_core ([0x5B] @ w @ [0x5D]) rest (effect_nested JSON_TYPE_ARRAY (1 + length w) 0 0)"
    using eats_core_array[OF assms eats_body_empty, of rest] by (simp add: misses_SEQUENCE_now ws_bytes_def)
  have "misses PARSER_JSON_OBJECT_KV (0x7D # rest)" unfolding PARSER_JSON_OBJECT_KV_def
    by (intro misses_NESTED misses_SEQUENCE_now misses_by_first) simp
  then show "eats json_core ([0x7B] @ w @ [0x7D]) rest (effect_nested JSON_TYPE_OBJECT (1 + length w) 0 0)"
    using eats_core_object[OF assms eats_body_empty, of rest] by (simp add: misses_SEQUENCE_now ws_bytes_def)
qed

lemma eats_core_string:
  assumes "str_syn e"
  shows "eats json_core ([0x22] @ e @ [0x22]) rest (\<lambda>a r. r\<lparr>pr_type := JSON_TYPE_STR, pr_content := \<lparr>buf_data = a + 1, buf_len = length e\<rparr>\<rparr>)"
  using eats_string[OF assms] by (intro eats_core(1)) simp_all

definition core_parsed :: "bytes \<Rightarrow> bool" where
  "core_parsed t \<longleftrightarrow> t \<noteq> [] \<and> hd t \<notin> set ws_bytes \<and> (\<forall>rest. num_ends rest \<longrightarrow> (\<exists>f. eats json_core t rest f))"

lemma value_parsed:
  assumes "core_parsed t" "json_ws w" "json_ws w'" "val_ends rest"
  shows "\<exists>f. eats PARSER_JSON_VALUE (w @ t @ w') rest f"
proof -
  obtain f where "eats json_core t (w' @ rest) f" using assms val_ends_num unfolding core_parsed_def by blast
  with eats_value[OF assms(2-4) this] assms(1) show ?thesis unfolding core_parsed_def by blast
qed

lemma syn_parsed:
  "val_syn t \<Longrightarrow> core_parsed t"
  "items_syn n ts \<Longrightarrow> ts \<noteq> [] \<and> hd ts \<notin> set ws_bytes \<and>
     (\<forall>w rest. json_ws w \<longrightarrow> body_parsed PARSER_JSON_ARRAY_ELEM elem_sep (w @ ts) (0x5D # rest) n)"
  "pairs_syn n ts \<Longrightarrow> ts \<noteq> [] \<and> hd ts \<notin> set ws_bytes \<and>
     (\<forall>rest. body_parsed PARSER_JSON_OBJECT_KV kv_sep ts (0x7D # rest) n)"
proof (induction rule: val_syn_items_syn_pairs_syn.inducts)
  case (syn_num t)
  then show ?case using num_syn_first[of t] eats_core_number unfolding core_parsed_def by blast
next
  case (syn_str e)
  then show ?case using eats_core_string[of e] by (auto simp: core_parsed_def ws_bytes_def)
next
  case (syn_nil w)
  then show ?case using eats_core_empty[of w] by (auto simp: core_parsed_def ws_bytes_def)
next
  case (syn_list w n t)
  have nil: "json_ws []" by (simp add: json_ws_def)
  from syn_list show ?case using eats_core_array[OF syn_list(1) eats_body, of t] nil by (fastforce simp: core_parsed_def ws_bytes_def)
next
  case (syn_empty w)
  then show ?case using eats_core_empty[of w] by (auto simp: core_parsed_def ws_bytes_def)
next
  case (syn_map w n t)
  then show ?case using eats_core_object[OF syn_map(1) eats_body, of t] by (fastforce simp: core_parsed_def ws_bytes_def)
next
  case (syn_item t w)
  have "\<exists>f. eats PARSER_JSON_VALUE (w0 @ t @ w) (0x5D # rest) f" if "json_ws w0" for w0 rest
    by (rule value_parsed[OF syn_item(3) that syn_item(2)]) (simp add: val_ends_def)
  then show ?case using syn_item(3) array_last by (fastforce simp: core_parsed_def)
next
  case (syn_items t w w' n ts)
  have "\<exists>f. eats PARSER_JSON_VALUE (w0 @ t @ w) ([0x2C] @ (w' @ ts) @ 0x5D # rest) f" if "json_ws w0" for w0 rest
    by (rule value_parsed[OF syn_items(5) that syn_items(2)]) (simp add: val_ends_def)
  then have "body_parsed PARSER_JSON_ARRAY_ELEM elem_sep ((w0 @ t @ w) @ [0x2C] @ w' @ ts) (0x5D # rest) (Suc n)"
    if "json_ws w0" for w0 rest
    using array_more[of "w0 @ t @ w" "w' @ ts" "0x5D # rest"] syn_items(3,6) that by blast
  then show ?case using syn_items(5) by (simp add: core_parsed_def)
next
  case (syn_pair e w1 w2 t w3)
  have "\<exists>f. eats PARSER_JSON_VALUE (w2 @ t @ w3) (0x7D # rest) f" for rest
    by (rule value_parsed[OF syn_pair(6,3,5)]) (simp add: val_ends_def)
  then show ?case using object_last eats_kv[OF syn_pair(1,2)] by (fastforce simp: ws_bytes_def)
next
  case (syn_pairs e w1 w2 t w3 w4 n ts)
  let ?kv = "[0x22] @ e @ [0x22] @ w1 @ [0x3A] @ w2 @ t @ w3"
  have "\<exists>f. eats PARSER_JSON_VALUE (w2 @ t @ w3) ([0x2C] @ w4 @ ts @ 0x7D # rest) f" for rest
    by (rule value_parsed[OF syn_pairs(8,3,5)]) (simp add: val_ends_def)
  then have "eats PARSER_JSON_OBJECT_KV ?kv ([0x2C] @ w4 @ ts @ 0x7D # rest) skip" for rest
    using eats_kv[OF syn_pairs(1,2)] by blast
  then have "body_parsed PARSER_JSON_OBJECT_KV kv_sep (?kv @ [0x2C] @ w4 @ ts) (0x7D # rest) (Suc n)" for rest
    using object_more[of ?kv w4 ts "0x7D # rest"] syn_pairs(6,9) by blast
  then show ?case by (simp add: ws_bytes_def)
qed (use eats_core_literal in \<open>auto simp: core_parsed_def ws_bytes_def str_def\<close>)

lemma docs_parsed:
  "val_doc v t \<Longrightarrow> core_parsed t"
  "items_doc vs ts \<Longrightarrow> ts \<noteq> [] \<and> hd ts \<notin> set ws_bytes \<and>
     (\<forall>w rest. json_ws w \<longrightarrow> body_parsed PARSER_JSON_ARRAY_ELEM elem_sep (w @ ts) (0x5D # rest) (length vs))"
  "pairs_doc kvs ts \<Longrightarrow> ts \<noteq> [] \<and> hd ts \<notin> set ws_bytes \<and>
     (\<forall>rest. body_parsed PARSER_JSON_OBJECT_KV kv_sep ts (0x7D # rest) (length kvs))"
  using syn_parsed(1)[OF doc_syn(1)] syn_parsed(2)[OF doc_syn(2)] syn_parsed(3)[OF doc_syn(3)] by blast+

end
