(* ===== verification/Json_Strings.thy ===== *)
theory Json_Strings
  imports Json_Grammar Json_Decode
begin

unbundle bit_operations_syntax

text \<open>
  Unescaping in place follows the grammar of strings: for every text of a string, with two-character
  escapes, escaped code units and surrogate pairs, \<open>unescape_string\<close> leaves the bytes the text
  stands for.
\<close>

section \<open>Code units and code points\<close>

lemma hex_char_value: "hex_char_to_byte c = map_option of_nat (hex_val c)"
proof -
  have "of_nat (unat c - 48) = c - 48" if "48 \<le> c" using that by (simp add: word_le_nat_alt of_nat_diff)
  moreover have "of_nat (unat c - 55) = c - 65 + 10" if "65 \<le> c" using that by (simp add: word_le_nat_alt of_nat_diff)
  moreover have "of_nat (unat c - 87) = c - 97 + 10" if "97 \<le> c" using that by (simp add: word_le_nat_alt of_nat_diff)
  ultimately show ?thesis by (simp add: hex_char_to_byte_def hex_val_def)
qed

lemma hex_val_bound: "hex_val c = Some k \<Longrightarrow> k < 16"
  by (auto simp: hex_val_def word_le_nat_alt split: if_splits)

lemma hex4_bound: "hex4 h = Some k \<Longrightarrow> k < 65536 \<and> length h = 4"
  by (erule hex4_cases) (auto dest!: hex_val_bound)

lemma ucast_of_nat: "n < 2 ^ LENGTH('a) \<Longrightarrow> (ucast (of_nat n :: 'a::len word) :: 'b::len word) = of_nat n"
  by (simp add: unsigned_of_nat take_bit_nat_eq_self)

lemma digit_bits: "x < 16 \<Longrightarrow> bit (x :: nat) n \<Longrightarrow> n < 4"
  using take_bit_nat_eq_self[of x 4] bit_take_bit_iff[of 4 x n] by simp

lemma or_digit:
  assumes "x < 16"
  shows "push_bit 4 e OR of_nat x = push_bit 4 e + (of_nat x :: 32 word)"
proof (rule disjunctive_add_eq_or[symmetric], rule bit_word_eqI)
  fix n show "bit (push_bit 4 e AND (of_nat x :: 32 word)) n \<longleftrightarrow> bit (0 :: 32 word) n"
    using digit_bits[OF assms, of n] by (auto simp: bit_simps)
qed

lemma hex4_word:
  assumes "a < 16" "b < 16" "c < 16" "d < 16"
  shows "push_bit 12 (of_nat a :: 32 word) OR push_bit 8 (of_nat b) OR push_bit 4 (of_nat c) OR of_nat d =
    of_nat (4096 * a + 256 * b + 16 * c + d)"
proof -
  have 1: "push_bit 12 (of_nat a :: 32 word) OR push_bit 8 (of_nat b) = push_bit 8 (push_bit 4 (of_nat a) + of_nat b)"
    using arg_cong[OF or_digit[OF assms(2), of "of_nat a"], of "push_bit 8"] by simp
  have 2: "push_bit 8 (push_bit 4 (of_nat a) + of_nat b) OR push_bit 4 (of_nat c :: 32 word) =
      push_bit 4 (push_bit 4 (push_bit 4 (of_nat a) + of_nat b) + of_nat c)"
    using arg_cong[OF or_digit[OF assms(3), of "push_bit 4 (of_nat a) + of_nat b"], of "push_bit 4"] by simp
  show ?thesis
    unfolding or.assoc[symmetric] unfolding 1 unfolding 2 unfolding or_digit[OF assms(4)] by (simp add: push_bit_eq_mult algebra_simps)
qed

lemma hex4_read:
  assumes "hex4 h = Some k" "rd m p 4 = h"
  shows "get_uint16_from_hex4 m p = Some (of_nat k)"
proof -
  obtain a b c d x y z u where h: "h = [a, b, c, d]" "hex_val a = Some x" "hex_val b = Some y" "hex_val c = Some z" "hex_val d = Some u"
    "k = 4096 * x + 256 * y + 16 * z + u" using assms(1) by (rule hex4_cases)
  have v: "x < 16" "y < 16" "z < 16" "u < 16" using h hex_val_bound by blast+
  have "m p = a" "m (p + 1) = b" "m (p + 2) = c" "m (p + 3) = d"
    using assms(2) unfolding h(1) by (auto simp: eval_nat_numeral rd_Suc)
  then have "get_uint16_from_hex4 m p = Some (ucast (push_bit 12 (of_nat x :: 32 word) OR push_bit 8 (of_nat y) OR push_bit 4 (of_nat z) OR of_nat u))"
    using v by (simp add: get_uint16_from_hex4_def hex_char_value h(2-5) ucast_of_nat)
  also have "\<dots> = Some (of_nat k)" unfolding hex4_word[OF v] h(6)[symmetric] using hex4_bound[OF assms(1)] by (simp add: ucast_of_nat)
  finally show ?thesis .
qed

lemma codepoint_utf8:
  assumes "cp < 0x200000"
  shows "codepoint_bytes (of_nat cp) = Some (utf8_enc cp)"
proof -
  have le: "(of_nat cp :: 32 word) \<le> of_nat k \<longleftrightarrow> cp \<le> k" if "k < 0x200000" for k
    using assms that by (simp add: word_le_nat_alt unat_of_nat_len)
  have d: "drop_bit n (of_nat cp :: 32 word) = of_nat (cp div 2 ^ n)" for n
  proof -
    have "cp div 2 ^ n < 0x200000" using assms div_le_dividend[of cp "2 ^ n"] by linarith
    then have "cp div 2 ^ n < 2 ^ LENGTH(32)" by simp
    moreover have "unat (drop_bit n (of_nat cp :: 32 word)) = drop_bit n cp"
      using assms unfolding unat_drop_bit_eq by (subst unat_of_nat_len) simp_all
    ultimately show ?thesis by (simp only: word_unat_eq_iff unat_of_nat_len drop_bit_eq_div)
  qed
  have a: "of_nat k AND (0x3F :: 32 word) = of_nat (k mod 64)" for k
    using take_bit_eq_mask[of 6 "of_nat k :: 32 word"] take_bit_of_nat[of 6 k, where 'a = "32 word"]
    by (simp add: mask_eq_exp_minus_1 take_bit_eq_mod)
  have u: "(ucast (of_nat k :: 32 word) :: byte) = of_nat k" if "k < 0x200000" for k
    using that by (intro ucast_of_nat) simp
  have lt: "cp div n < 0x200000" for n using assms div_le_dividend[of cp n] by linarith
  have lt2: "k mod 64 < 0x200000" for k :: nat using mod_less_divisor[of 64 k] by linarith
  show ?thesis
    using assms le[of 127] le[of 2047] le[of 65535] le[of 2097151]
    by (auto simp: codepoint_bytes_def utf8_enc_def d a u lt lt2 div_mult2_eq[symmetric])
qed

section \<open>Unescaping follows the grammar\<close>

text \<open>A unit of text \<open>Xs\<close> is replaced by the bytes \<open>us\<close>, which are not more.\<close>

definition unescapes :: "bytes \<Rightarrow> bytes \<Rightarrow> bool" where
  "unescapes xs us \<longleftrightarrow> length us \<le> length xs \<and> (\<forall>m buf w ys. contents m buf = xs @ ys \<longrightarrow> buf_len buf \<le> SIZE_MAX \<longrightarrow> w \<le> buf_data buf \<longrightarrow>
     unescape_loop m buf w = unescape_loop (wr m w us) (advance buf (length xs)) (w + length us))"

lemma contents_wr_before:
  "w + length us \<le> buf_data buf \<Longrightarrow> contents (wr m w us) buf = contents m buf"
  unfolding contents_def by (rule rd_wr_disjoint) simp

lemma unescapes_append:
  assumes "unescapes xs us" "unescapes ys vs"
  shows "unescapes (xs @ ys) (us @ vs)"
  unfolding unescapes_def
proof (intro conjI allI impI)
  show "length (us @ vs) \<le> length (xs @ ys)" using assms by (simp add: unescapes_def)
  fix m buf w zs assume *: "contents m buf = (xs @ ys) @ zs" "buf_len buf \<le> SIZE_MAX" "w \<le> buf_data buf"
  let ?m = "wr m w us" and ?b = "advance buf (length xs)"
  have len: "length us \<le> length xs" using assms(1) by (simp add: unescapes_def)
  have "contents ?m ?b = ys @ zs"
    using contents_rest[of m buf xs "ys @ zs"] *(1,3) len contents_wr_before[of w us ?b m] by simp
  moreover have "unescape_loop m buf w = unescape_loop ?m ?b (w + length us)" using assms(1) * by (simp add: unescapes_def)
  ultimately show "unescape_loop m buf w = unescape_loop (wr m w (us @ vs)) (advance buf (length (xs @ ys))) (w + length (us @ vs))"
    using assms(2) * len by (simp add: unescapes_def wr_wr_append add.assoc)
qed

lemma unescapes_Nil: "unescapes [] []"
  by (simp add: unescapes_def)

lemma unescapes_byte:
  assumes "b \<noteq> 0x5C"
  shows "unescapes [b] [b]"
  unfolding unescapes_def
proof (intro conjI allI impI)
  fix m buf w ys assume *: "contents m buf = [b] @ ys" "buf_len buf \<le> SIZE_MAX" "w \<le> buf_data buf"
  then have "m (buf_data buf) = b" "0 < buf_len buf" using contents_Cons[of m buf b ys] by simp_all
  then show "unescape_loop m buf w = unescape_loop (wr m w [b]) (advance buf (length [b])) (w + length [b])"
    using assms *(2) by (subst unescape_loop.simps) (simp add: substr_advance)
qed simp

lemma unescapes_bytes: "0x5C \<notin> set bs \<Longrightarrow> unescapes bs bs"
proof (induction bs)
  case (Cons b bs)
  then show ?case using unescapes_append[OF unescapes_byte[of b], of bs bs] by simp
qed (simp add: unescapes_Nil)

lemma utf8_no_backslash:
  assumes "utf8_char cs" "json_plain (hd cs)"
  shows "0x5C \<notin> set cs"
proof -
  have "\<not> utf8_cont 0x5C" by (simp add: utf8_cont_def)
  then have "0x5C \<notin> set (tl cs)" using assms(1) by (auto simp: utf8_char_def list_all_iff)
  then show ?thesis using assms by (cases cs) (auto simp: json_plain_def utf8_char_def)
qed

text \<open>An escape handled in one step.\<close>

lemma unescapesI:
  assumes "length us \<le> length xs" "xs = 0x5C # xs'"
    "\<And>m buf w ys. contents m buf = xs @ ys \<Longrightarrow> buf_len buf \<le> SIZE_MAX \<Longrightarrow>
      str_conv_handle_escape m buf w = (True, advance buf (length xs), w + length us, wr m w us)"
  shows "unescapes xs us"
  unfolding unescapes_def
proof (intro conjI allI impI)
  fix m buf w ys assume *: "contents m buf = xs @ ys" "buf_len buf \<le> SIZE_MAX" "w \<le> buf_data buf"
  then have "m (buf_data buf) = 0x5C" "0 < buf_len buf" using contents_Cons[of m buf "0x5C" "xs' @ ys"] assms(2) by simp_all
  then show "unescape_loop m buf w = unescape_loop (wr m w us) (advance buf (length xs)) (w + length us)"
    using assms(3)[OF *(1,2), of w] by (subst unescape_loop.simps) simp
qed (rule assms(1))

lemma unescapes_simple:
  assumes "(c, b) \<in> set json_escapes"
  shows "unescapes [0x5C, c] [b]"
proof (rule unescapesI)
  fix m buf w ys assume *: "contents m buf = [0x5C, c] @ ys" "buf_len buf \<le> SIZE_MAX"
  have "m (buf_data buf) = 0x5C" "2 \<le> buf_len buf" "m (buf_data buf + 1) = c"
    using contents_Cons[of m buf "0x5C" "c # ys"] contents_Cons[of m "advance buf (length [0x5C])" c ys] contents_rest[of m buf "[0x5C]" "c # ys"] *(1)
    by simp_all
  moreover have "c \<noteq> 0x75" "simple_escape c = Some b" using assms by (auto simp: json_escapes_def simple_escape_def)
  ultimately show "str_conv_handle_escape m buf w = (True, advance buf (length [0x5C, c]), w + length [b], wr m w [b])"
    using *(2) by (simp add: str_conv_handle_escape_def substr_advance numeral_2_eq_2)
qed simp_all

lemma unit_read:
  assumes "contents m buf = 0x5C # 0x75 # h @ ys" "hex4 h = Some k"
  shows "u_escape m buf" "get_uint16_from_hex4 m (buf_data buf + 2) = Some (of_nat k)" "6 \<le> buf_len buf"
    "contents m (advance buf 6) = ys"
proof -
  have h: "length h = 4" using hex4_bound[OF assms(2)] by simp
  have l: "buf_len buf = 6 + length ys" using arg_cong[OF assms(1), of length] h by simp
  have 1: "m (buf_data buf) = 0x5C" using contents_Cons(1)[OF assms(1)] .
  have c2: "contents m (advance buf 1) = 0x75 # h @ ys" using contents_rest[of m buf "[0x5C]"] assms(1) by simp
  have c3: "contents m (advance buf 2) = h @ ys" using contents_rest[of m buf "[0x5C, 0x75]"] assms(1) by (simp add: numeral_2_eq_2)
  have "m (buf_data buf + 1) = 0x75" using contents_Cons(1)[OF c2] by simp
  with 1 l show "u_escape m buf" by (simp add: u_escape_def)
  have "rd m (buf_data buf + 2) 4 = h" using arg_cong[OF c3, of "take 4"] h l by (simp add: contents_def)
  from hex4_read[OF assms(2) this] show "get_uint16_from_hex4 m (buf_data buf + 2) = Some (of_nat k)" .
  show "6 \<le> buf_len buf" using l by simp
  show "contents m (advance buf 6) = ys" using contents_rest[of m buf "0x5C # 0x75 # h" ys] assms(1) h by simp
qed

lemma utf8_enc_length: "length (utf8_enc cp) \<le> 4"
  by (simp add: utf8_enc_def)

lemma write_utf8: "cp < 0x200000 \<Longrightarrow> write_codepoint_utf8 m (of_nat cp) w = (True, w + length (utf8_enc cp), wr m w (utf8_enc cp))"
  by (simp add: write_codepoint_utf8_def codepoint_utf8)

lemma unat16: "k < 65536 \<Longrightarrow> unat (of_nat k :: 16 word) = k"
  by (simp add: unat_of_nat_len)

lemma handle_escape_u:
  "u_escape m buf \<Longrightarrow> str_conv_handle_escape m buf w = str_conv_handle_utf16_escape m buf w"
  by (simp add: str_conv_handle_escape_def u_escape_def)

lemma unescapes_unit:
  assumes "hex4 h = Some cp" "cp < 0xD800 \<or> 0xDFFF < cp"
  shows "unescapes (0x5C # 0x75 # h) (utf8_enc cp)"
proof (rule unescapesI)
  have h: "cp < 65536" "length h = 4" using hex4_bound[OF assms(1)] by simp_all
  then show "length (utf8_enc cp) \<le> length (0x5C # 0x75 # h)" using utf8_enc_length[of cp] by simp
  fix m buf w ys assume c: "contents m buf = (0x5C # 0x75 # h) @ ys" and l: "buf_len buf \<le> SIZE_MAX"
  have "contents m buf = 0x5C # 0x75 # h @ ys" using c by simp
  note r = unit_read[OF this assms(1)]
  have s: "\<not> (0xD800 \<le> (of_nat cp :: 16 word) \<and> (of_nat cp :: 16 word) \<le> 0xDBFF)" "\<not> (0xDC00 \<le> (of_nat cp :: 16 word) \<and> (of_nat cp :: 16 word) \<le> 0xDFFF)"
    using assms(2) h(1) by (auto simp: word_le_nat_alt unat16)
  have "(ucast (of_nat cp :: 16 word) :: 32 word) = of_nat cp" using h(1) by (simp add: ucast_of_nat)
  then show "str_conv_handle_escape m buf w =
      (True, advance buf (length (0x5C # 0x75 # h)), w + length (utf8_enc cp), wr m w (utf8_enc cp))"
    unfolding handle_escape_u[OF r(1)] str_conv_handle_utf16_escape_def r(2) option.case Let_def if_not_P[OF s(1)] if_not_P[OF s(2)]
    using r(1,3) l h write_utf8[of cp m w] by (simp add: substr_advance)
qed simp

lemma unescapes_pair:
  assumes "hex4 h = Some hi" "0xD800 \<le> hi" "hi \<le> 0xDBFF" "hex4 l = Some lo" "0xDC00 \<le> lo" "lo \<le> 0xDFFF"
  shows "unescapes (0x5C # 0x75 # h @ 0x5C # 0x75 # l) (utf8_enc (0x10000 + (hi - 0xD800) * 1024 + (lo - 0xDC00)))"
    (is "unescapes ?t (utf8_enc ?cp)")
proof (rule unescapesI)
  have h: "length h = 4" "length l = 4" "hi < 65536" "lo < 65536" using hex4_bound[OF assms(1)] hex4_bound[OF assms(4)] by simp_all
  then show "length (utf8_enc ?cp) \<le> length ?t" using utf8_enc_length[of ?cp] by simp
  fix m buf w ys assume c: "contents m buf = ?t @ ys" and len: "buf_len buf \<le> SIZE_MAX"
  have c': "contents m buf = 0x5C # 0x75 # h @ 0x5C # 0x75 # l @ ys" using c by simp
  note r = unit_read[OF c' assms(1)]
  note r2 = unit_read[OF r(4) assms(4)]
  have s: "0xD800 \<le> (of_nat hi :: 16 word) \<and> (of_nat hi :: 16 word) \<le> 0xDBFF" "\<not> ((of_nat lo :: 16 word) < 0xDC00 \<or> (of_nat lo :: 16 word) > 0xDFFF)"
    using assms h by (auto simp: word_le_nat_alt word_less_nat_alt unat16)
  have "?cp = hi * 1024 + lo - 0x35FDC00" "0x35FDC00 \<le> hi * 1024 + lo" using assms(2,5) by simp_all
  then have "(of_nat ?cp :: 32 word) = of_nat (hi * 1024 + lo) - of_nat 0x35FDC00" by (simp only: of_nat_diff)
  moreover have "(push_bit 10 (ucast (of_nat hi :: 16 word) - 0xD800) + (ucast (of_nat lo :: 16 word) - 0xDC00)) + 0x10000 =
      (of_nat (hi * 1024 + lo) - of_nat 0x35FDC00 :: 32 word)"
    using h by (simp add: ucast_of_nat push_bit_eq_mult left_diff_distrib)
  ultimately have cp: "(push_bit 10 (ucast (of_nat hi :: 16 word) - 0xD800) + (ucast (of_nat lo :: 16 word) - 0xDC00)) + 0x10000 = (of_nat ?cp :: 32 word)"
    by (simp only:)
  have "?cp < 0x200000" using assms by simp
  from write_utf8[OF this, of m w] show "str_conv_handle_escape m buf w = (True, advance buf (length ?t), w + length (utf8_enc ?cp), wr m w (utf8_enc ?cp))"
    unfolding handle_escape_u[OF r(1)] str_conv_handle_utf16_escape_def r(2) option.case Let_def if_P[OF s(1)]
      substr_advance[OF r(3) len] r2(2) if_not_P[OF s(2)] cp
    using r(1) r2(1,3) len h by (simp add: substr_advance)
qed simp

lemma str_doc_unescapes: "str_doc bs e \<Longrightarrow> unescapes e bs"
proof (induction rule: str_doc.induct)
  case (str_char cs bs e)
  then show ?case by (intro unescapes_append unescapes_bytes utf8_no_backslash)
next
  case (str_esc c b bs e)
  then show ?case using unescapes_append[OF unescapes_simple[OF str_esc(1)]] by simp
next
  case (str_unit h cp bs e)
  then show ?case using unescapes_append[OF unescapes_unit[OF str_unit(1,2)]] by simp
next
  case (str_pair h hi l lo bs e)
  then show ?case using unescapes_append[OF unescapes_pair[OF str_pair(1-6)]] by simp
qed (rule unescapes_Nil)

lemma unescape_doc:
  assumes "str_doc bs e" "contents m s = e" "buf_len s \<le> SIZE_MAX"
  shows "\<exists>m'. unescape_string m s = (True, s\<lparr>buf_len := length bs\<rparr>, m') \<and> length bs \<le> buf_len s \<and> contents m' (s\<lparr>buf_len := length bs\<rparr>) = bs \<and>
    agree_off {buf_data s..<buf_data s + buf_len s} m m'"
proof -
  let ?m = "wr m (buf_data s) bs"
  have len: "length e = buf_len s" using assms(2) by auto
  have u: "unescapes e bs" by (rule str_doc_unescapes[OF assms(1)])
  then have le: "length bs \<le> buf_len s" using len by (simp add: unescapes_def)
  have "unescape_loop m s (buf_data s) = unescape_loop ?m (advance s (length e)) (buf_data s + length bs)"
    using u assms(2,3) unfolding unescapes_def by (metis append_Nil2 order_refl)
  also have "\<dots> = (True, buf_data s + length bs, ?m)" using len by (subst unescape_loop.simps) simp
  finally have "unescape_string m s = (True, s\<lparr>buf_len := length bs\<rparr>, ?m)" by (simp add: unescape_string_def)
  then show ?thesis using le by (auto simp: contents_def rd_wr_same' intro!: agree_off_wr)
qed

end
