(* ===== verification/Json_Numbers.thy ===== *)
theory Json_Numbers
  imports Json_Grammar
begin

unbundle bit_operations_syntax

text \<open>
  The numbers of JSON texts in memory: what \<open>strtod\<close> makes of the text of a number, given the byte after it,
  and what \<open>decode_json_number\<close> makes of the defect that it looks at this byte at all.
\<close>

section \<open>Reading the text of a number\<close>

lemma rd_append: "rd m p (length (x @ y)) = x @ y \<longleftrightarrow> rd m p (length x) = x \<and> rd m (p + length x) (length y) = y"
  by (simp add: rd_add)

lemma rd_first: "rd m p (length t) = t \<Longrightarrow> t \<noteq> [] \<Longrightarrow> m p = hd t"
  by (cases t) (auto simp: rd_Suc)

lemma digits_from_text:
  assumes "list_all is_digit ds" "rd m p (length ds) = ds" "\<not> is_digit (m (p + length ds))"
  shows "digits_from m p = Some ds"
  using assms
proof (induction ds arbitrary: p)
  case Nil
  then show ?case by (subst digits_from.simps) simp
next
  case (Cons d ds)
  then have "m p = d" "rd m (Suc p) (length ds) = ds" by (simp_all add: rd_Suc)
  with Cons show ?case by (subst digits_from.simps) simp
qed

definition num_stop :: "byte \<Rightarrow> bool" where
  "num_stop c \<longleftrightarrow> \<not> is_digit c \<and> c \<notin> {0x2E, 0x65, 0x45}"

lemma strtod_frac:
  assumes "frac_syn f" "rd m p (length f) = f" "\<not> is_digit (m (p + length f))" "f = [] \<Longrightarrow> m p \<noteq> 0x2E"
  shows "(if m p = 0x2E then digits_from m (p + 1) else Some []) = Some (tl f)"
    "(if m p = 0x2E then p + 1 + length (tl f) else p) = p + length f"
proof -
  have "digits_from m (p + 1) = Some ds \<and> m p = 0x2E" if "f = 0x2E # ds" "list_all is_digit ds" for ds
    using that assms(2,3) digits_from_text[of ds m "Suc p"] by (simp add: rd_Suc)
  then show "(if m p = 0x2E then digits_from m (p + 1) else Some []) = Some (tl f)"
    "(if m p = 0x2E then p + 1 + length (tl f) else p) = p + length f"
    using assms(1,4) by (auto simp: frac_syn_def)
qed

lemma strtod_exp:
  assumes "exp_syn e" "rd m p (length e) = e" "num_stop (m (p + length e))"
  shows "\<exists>ds. (if m p = 0x65 \<or> m p = 0x45 then digits_from m (if m (p + 1) = 0x2B \<or> m (p + 1) = 0x2D then p + 2 else p + 1) else Some []) = Some ds \<and>
    (if m (p + 1) = 0x2D then - digits_val ds else digits_val ds) = exp_val e"
proof (cases "e = []")
  case True
  then show ?thesis using assms(3) by (auto simp: num_stop_def exp_val_def Let_def digits_val_def)
next
  case False
  then obtain c s ds where e: "e = c # s @ ds" "c \<in> {0x65, 0x45}" "s \<in> {[], [0x2B], [0x2D]}" "ds \<noteq> []" "list_all is_digit ds"
    using assms(1) unfolding exp_syn_def by blast
  obtain d ds' where d: "ds = d # ds'" "is_digit d" using e(4,5) by (cases ds) auto
  then have nd: "d \<noteq> 0x2B" "d \<noteq> 0x2D" by (auto simp: is_digit_def)
  have r: "rd m (p + 1 + length s) (length ds) = ds" "rd m (p + 1) (length s) = s" "m p = c"
    using assms(2) rd_append[of m "Suc p" s ds] unfolding e(1) by (simp_all add: rd_Suc)
  have end': "\<not> is_digit (m (p + 1 + length s + length ds))" using assms(3) unfolding e(1) num_stop_def by (simp add: add.assoc)
  have dg: "digits_from m (p + 1 + length s) = Some ds" by (rule digits_from_text[OF e(5) r(1) end'])
  have m1: "m (p + 1) = (if s = [] then d else hd s)" using r(1,2) d(1) e(3) by (auto simp: rd_Suc)
  have "exp_val e = (if s = [0x2D] then - digits_val ds else digits_val ds)"
    unfolding exp_val_def e(1) using e(3) d nd by (auto simp: Let_def)
  then show ?thesis using r(3) e(2,3) m1 dg nd by (intro exI[of _ ds]) (auto simp: add.commute)
qed

lemma strtod_text:
  assumes "s \<in> {[], [0x2D]}" "int_doc (s @ ip)" "list_all is_digit ip" "frac_syn f" "exp_syn e"
    "rd m p (length (s @ ip @ f @ e)) = s @ ip @ f @ e" "num_stop (m (p + length (s @ ip @ f @ e)))"
  shows "strtod m p = Some (text_f64 s ip f e)"
proof -
  let ?p1 = "p + length s" let ?p2 = "?p1 + length ip" let ?p3 = "?p2 + length f"
  have r: "rd m p (length s) = s" "rd m ?p1 (length ip) = ip" "rd m ?p2 (length f) = f" "rd m ?p3 (length e) = e"
    using assms(6) rd_append[of m p s "ip @ f @ e"] rd_append[of m ?p1 ip "f @ e"] rd_append[of m ?p2 f e] by auto
  have ne: "ip \<noteq> []" using assms(1,2) unfolding int_doc_def by (auto simp: append_eq_Cons_conv is_digit_def)
  have stop: "num_stop (m (?p3 + length e))" using assms(7) by (simp add: add.assoc)
  have e1: "\<not> is_digit (m ?p3) \<and> m ?p3 \<noteq> 0x2E"
  proof (cases "e = []")
    case True
    then show ?thesis using stop by (simp add: num_stop_def)
  next
    case False
    then have "m ?p3 = hd e" by (rule rd_first[OF r(4)])
    with False assms(5) show ?thesis by (auto simp: exp_syn_def is_digit_def)
  qed
  have f0: "m ?p2 \<noteq> 0x2E" if "f = []" using that e1 by simp
  have "\<not> is_digit (m ?p2)"
  proof (cases "f = []")
    case True
    then show ?thesis using e1 by simp
  next
    case False
    then have "m ?p2 = hd f" by (rule rd_first[OF r(3)])
    with False assms(4) show ?thesis by (auto simp: frac_syn_def is_digit_def)
  qed
  then have ip: "digits_from m ?p1 = Some ip" by (rule digits_from_text[OF assms(3) r(2)])
  have first: "m ?p1 = hd ip" "is_digit (hd ip)" using rd_first[OF r(2) ne] ne assms(3) by (auto simp: list_all_iff)
  then have neg: "(m p = 0x2D) = (s \<noteq> [])" "(if m p = 0x2D then p + 1 else p) = ?p1"
    using assms(1) r(1) by (auto simp: is_digit_def rd_Suc)
  have fr: "(if m ?p2 = 0x2E then digits_from m (?p2 + 1) else Some []) = Some (tl f)"
    "(if m ?p2 = 0x2E then ?p2 + 1 + length (tl f) else ?p2) = ?p3"
    using strtod_frac[OF assms(4) r(3) _ f0] e1 by simp_all
  obtain ds where ex: "(if m ?p3 = 0x65 \<or> m ?p3 = 0x45 then digits_from m (if m (?p3 + 1) = 0x2B \<or> m (?p3 + 1) = 0x2D then ?p3 + 2 else ?p3 + 1) else Some []) = Some ds"
    "(if m (?p3 + 1) = 0x2D then - digits_val ds else digits_val ds) = exp_val e"
    using strtod_exp[OF assms(5) r(4) stop] by blast
  show ?thesis unfolding strtod_def Let_def chr_codes neg(2) ip Option.bind.bind_lunit
    unfolding fr(1) Option.bind.bind_lunit unfolding fr(2) unfolding ex(1) Option.bind.bind_lunit
    unfolding ex(2) neg(1) text_f64_def Let_def by (simp split: prod.split)
qed

section \<open>Decoding a number\<close>

lemma part_parses:
  assumes "part_parsed p x rest" "contents m buf = x @ rest" "buf_len buf \<le> SIZE_MAX"
  shows "parses m p buf None (x \<noteq> [], advance buf (length x), None)"
  using assms eatsD[of p x rest skip m buf None] missesD[of p rest m buf None] by (auto simp: part_parsed_def split: if_splits)

lemma number_parts:
  assumes "int_doc i" "frac_syn f" "exp_syn e" "contents m buf = i @ f @ e" "buf_len buf \<le> SIZE_MAX"
  shows "parses m PARSER_INT_PART buf None (True, advance buf (length i), None)"
    "parses m PARSER_FRAC_PART (advance buf (length i)) None (f \<noteq> [], advance buf (length (i @ f)), None)"
    "parses m PARSER_EXPONENT (advance buf (length (i @ f))) None (e \<noteq> [], advance buf (length (i @ f @ e)), None)"
proof -
  have nil: "num_ends []" by (simp add: num_ends_def)
  note ends = num_part_ends[OF assms(3) nil, simplified]
  have "f @ e = [] \<or> \<not> is_digit (hd (f @ e))" using ends assms(2) by (auto simp: frac_syn_def is_digit_def)
  from eatsD[OF eats_int_part[OF assms(1) this] assms(4,5), of None]
  show "parses m PARSER_INT_PART buf None (True, advance buf (length i), None)" by simp
  note c = contents_rest[OF assms(4)]
  show "parses m PARSER_FRAC_PART (advance buf (length i)) None (f \<noteq> [], advance buf (length (i @ f)), None)"
    using part_parses[OF frac_parsed[OF assms(2) ends] c] assms(5) by simp
  have "contents m (advance buf (length (i @ f))) = e @ []" using contents_rest[OF c] by simp
  from part_parses[OF exp_parsed[OF assms(3) nil] this] assms(5)
  show "parses m PARSER_EXPONENT (advance buf (length (i @ f))) None (e \<noteq> [], advance buf (length (i @ f @ e)), None)" by (simp add: add.assoc)
qed

lemma decode_number_parts:
  assumes "int_doc i" "frac_syn f" "exp_syn e" "contents m buf = i @ f @ e" "buf_len buf \<le> SIZE_MAX"
  shows "\<forall>\<^sub>F n in sequentially. decode_json_number n m buf want =
    (if f @ e = [] then
       (case gg_str_to_int64 i of Inl er \<Rightarrow> Some (Inl er) | Inr val \<Rightarrow> Some (Inr (if want then Some (gg_obj_i64 (of_int val)) else None)))
     else do {
       (val, erange) \<leftarrow> strtod m (buf_data buf);
       if erange then Some (Inl GG_ERR_RANGE) else Some (Inr (if want then Some (gg_obj_f64 val) else None))
     })"
  using number_parts[OF assms] unfolding parses_def
proof eventually_elim
  case (elim n)
  then show ?case using assms(4) by (auto simp: decode_json_number_def)
qed

lemma decode_f64:
  assumes "s \<in> {[], [0x2D]}" "int_doc (s @ ip)" "list_all is_digit ip" "frac_syn f" "exp_syn e" "f @ e \<noteq> []"
    "contents m buf = s @ ip @ f @ e" "buf_len buf \<le> SIZE_MAX" "num_stop (m (buf_data buf + buf_len buf))"
  shows "\<forall>\<^sub>F n in sequentially. decode_json_number n m buf True =
    Some (if snd (text_f64 s ip f e) then Inl GG_ERR_RANGE else Inr (Some (gg_obj_f64 (fst (text_f64 s ip f e)))))"
proof -
  have c: "contents m buf = (s @ ip) @ f @ e" using assms(7) by simp
  have len: "buf_len buf = length (s @ ip @ f @ e)" using arg_cong[OF assms(7), of length] by simp
  have "strtod m (buf_data buf) = Some (text_f64 s ip f e)"
    using assms(7,9) unfolding len contents_def by (intro strtod_text[OF assms(1-5)]) simp_all
  with decode_number_parts[OF assms(2,4,5) c assms(8), of True] assms(6) show ?thesis
    by (auto simp: case_prod_beta elim: eventually_mono)
qed

section \<open>The byte after the buffer\<close>

text \<open>Digits that follow the buffer in memory are read as part of a fraction at its end.\<close>

lemma decode_overread:
  assumes "s \<in> {[], [0x2D]}" "int_doc (s @ ip)" "list_all is_digit ip" "list_all is_digit ds" "list_all is_digit ds'"
    "rd m (buf_data buf) (length (s @ ip @ (0x2E # ds) @ ds')) = s @ ip @ (0x2E # ds) @ ds'"
    "buf_len buf = length (s @ ip @ 0x2E # ds)" "buf_len buf \<le> SIZE_MAX" "num_stop (m (buf_data buf + buf_len buf + length ds'))"
  shows "\<forall>\<^sub>F n in sequentially. decode_json_number n m buf True =
    Some (if snd (text_f64 s ip (0x2E # ds @ ds') []) then Inl GG_ERR_RANGE
      else Inr (Some (gg_obj_f64 (fst (text_f64 s ip (0x2E # ds @ ds') [])))))"
proof -
  let ?f = "0x2E # ds" and ?g = "0x2E # ds @ ds'"
  have c: "contents m buf = (s @ ip) @ ?f @ []"
    using assms(6,7) rd_append[of m "buf_data buf" "s @ ip @ ?f" ds'] by (simp add: contents_def)
  have e: "exp_syn []" by (simp add: exp_syn_def)
  have "frac_syn ?g" using assms(4,5) by (auto simp: frac_syn_def)
  from strtod_text[OF assms(1-3) this e, of m "buf_data buf"] assms(6,7,9)
  have "strtod m (buf_data buf) = Some (text_f64 s ip ?g [])" by (simp add: add.assoc)
  moreover have "frac_syn ?f" using assms(4) by (simp add: frac_syn_def)
  note decode_number_parts[OF assms(2) this e c assms(8), of True]
  ultimately show ?thesis by (auto simp: case_prod_beta elim: eventually_mono)
qed

end
