(* ===== verification/Json_Docs.thy ===== *)
theory Json_Docs
  imports Json_Strings Json_Numbers Claim
begin

text \<open>
  Decoding JSON documents: for every text of the grammar \<open>json_doc\<close>, the decoder returns an object
  that stands for the value of the text with all its maps in canonical form, whenever the arena has
  room for the arrays of the value, and reports that memory ran out otherwise.
\<close>

section \<open>What decoding gives\<close>

text \<open>The value with its maps in canonical form, the arena space of its arrays, and the lengths that
  objects can have.\<close>

definition map_canon :: "(bytes \<times> gg_val) list \<Rightarrow> (bytes \<times> gg_val) list" where
  "map_canon kvs = map (\<lambda>k. (k, the (map_of kvs k))) (sorted_list_of_set (fst ` set kvs))"

fun canon_val :: "gg_val \<Rightarrow> gg_val" and canon_vals :: "gg_val list \<Rightarrow> gg_val list"
  and canon_pairs :: "(bytes \<times> gg_val) list \<Rightarrow> (bytes \<times> gg_val) list" where
  "canon_val (VList vs) = VList (canon_vals vs)"
| "canon_val (VMap kvs) = VMap (map_canon (canon_pairs kvs))"
| "canon_val v = v"
| "canon_vals [] = []"
| "canon_vals (v # vs) = canon_val v # canon_vals vs"
| "canon_pairs [] = []"
| "canon_pairs ((k, v) # kvs) = (k, canon_val v) # canon_pairs kvs"

fun json_need :: "gg_val \<Rightarrow> nat" and items_need :: "gg_val list \<Rightarrow> nat" and pairs_need :: "(bytes \<times> gg_val) list \<Rightarrow> nat" where
  "json_need (VList vs) = obj_size * length vs + items_need vs"
| "json_need (VMap kvs) = kv_size * length kvs + pairs_need kvs"
| "json_need v = 0"
| "items_need [] = 0"
| "items_need (v # vs) = json_need v + items_need vs"
| "pairs_need [] = 0"
| "pairs_need ((k, v) # kvs) = json_need v + pairs_need kvs"

fun val_fits :: "gg_val \<Rightarrow> bool" and vals_fit :: "gg_val list \<Rightarrow> bool" and pairs_fit :: "(bytes \<times> gg_val) list \<Rightarrow> bool" where
  "val_fits (VBuf bs) = (length bs < 65536)"
| "val_fits (VList vs) = (length vs < 65536 \<and> vals_fit vs)"
| "val_fits (VMap kvs) = (length kvs < 65536 \<and> pairs_fit kvs)"
| "val_fits v = True"
| "vals_fit [] = True"
| "vals_fit (v # vs) = (val_fits v \<and> vals_fit vs)"
| "pairs_fit [] = True"
| "pairs_fit ((k, v) # kvs) = (length k < 65536 \<and> val_fits v \<and> pairs_fit kvs)"

lemma length_canon [simp]: "length (canon_vals vs) = length vs" "length (canon_pairs kvs) = length kvs"
proof -
  show "length (canon_vals vs) = length vs" by (induction vs) auto
  show "length (canon_pairs kvs) = length kvs" by (induction kvs) auto
qed

lemma map_of_canon_pairs:
  assumes "distinct (map fst xs)"
  shows "xs = map (\<lambda>k. (k, the (map_of xs k))) (map fst xs)"
proof (rule nth_equalityI)
  fix i assume i: "i < length xs"
  then have "map_of xs (fst (xs ! i)) = Some (snd (xs ! i))" using map_of_is_SomeI[OF assms] nth_mem[OF i] by simp
  with i show "xs ! i = map (\<lambda>k. (k, the (map_of xs k))) (map fst xs) ! i" by (simp add: prod_eq_iff)
qed simp

lemma canon_list_map: "canon_list fst kvs = map_canon kvs"
proof -
  let ?xs = "canon_list fst kvs"
  have s: "sorted_wrt (<) (map fst ?xs)" by (rule canon_list_spec)
  have "fst ` set ?xs = fst ` set kvs" using map_of_canon[of kvs] by (metis dom_map_of_conv_image_fst)
  then have "map fst ?xs = sorted_list_of_set (fst ` set kvs)"
    using sorted_list_of_set.idem_if_sorted_distinct[of "map fst ?xs"] s by (simp add: strict_sorted_iff)
  with map_of_canon_pairs[of ?xs] s show ?thesis unfolding map_canon_def map_of_canon by (simp add: strict_sorted_iff)
qed

lemma length_map_canon: "length (map_canon kvs) \<le> length kvs"
  using canon_list_spec(3)[of fst kvs] by (simp add: canon_list_map)

abbreviation span :: "GgBuffer \<Rightarrow> nat \<Rightarrow> addr set" where "span buf n \<equiv> {buf_data buf..<buf_data buf + n}"

text \<open>The decoder returns, with enough fuel, a given result.\<close>

definition takes :: "GgBuffer \<Rightarrow> GgBuffer \<Rightarrow> GgArena \<Rightarrow> mem \<Rightarrow> GgObject option res \<times> GgBuffer \<times> GgArena \<times> mem \<Rightarrow> bool" where
  "takes pruned buf a m r \<longleftrightarrow> (\<forall>\<^sub>F n in sequentially. take_json_val n pruned buf a True m = Some r)"

lemma takes_parse:
  assumes "eats PARSER_JSON_VALUE d rest f" "contents m buf = d @ rest" "buf_len buf \<le> SIZE_MAX"
    "\<forall>\<^sub>F n in sequentially. decode_json_val n pruned (take_json_val n pruned) (f (buf_data buf) PARSE_RESULT_INIT) a True m = Some (x, a', m')"
  shows "takes pruned buf a m (x, advance buf (length d), a', m')"
proof -
  have "\<forall>\<^sub>F n in sequentially. parser_call n m PARSER_JSON_VALUE buf (Some PARSE_RESULT_INIT) =
      Some (True, advance buf (length d), Some (f (buf_data buf) PARSE_RESULT_INIT))"
    using eatsD[OF assms(1-3), of "Some PARSE_RESULT_INIT"] by (simp add: parses_def)
  with assms(4) have "\<forall>\<^sub>F n in sequentially. take_json_val (Suc n) pruned buf a True m = Some (x, advance buf (length d), a', m')"
    by eventually_elim simp
  then show ?thesis unfolding takes_def
    by (rule eventually_sequentially_Suc[where P = "\<lambda>n. take_json_val n pruned buf a True m = _", THEN iffD1])
qed

text \<open>The result of decoding \<open>v\<close> from the addresses \<open>T\<close> with arena \<open>a\<close>.\<close>

definition decoded :: "gg_val \<Rightarrow> addr set \<Rightarrow> GgArena \<Rightarrow> GgObject option res \<Rightarrow> GgArena \<Rightarrow> mem \<Rightarrow> bool" where
  "decoded v T a r a' m' \<longleftrightarrow>
     (if json_need v \<le> arena_avail a
      then a' = adv a (json_need v) \<and> (\<exists>x. r = Inr (Some x) \<and> length x = obj_size \<and> val_blk m' x (canon_val v) \<and>
        blk_foot m' x (canon_val v) \<subseteq> T \<union> taken a (json_need v))
      else r = Inl GG_ERR_NOMEM)"

lemma decoded_mono: "decoded v T a r a' m' \<Longrightarrow> T \<subseteq> T' \<Longrightarrow> decoded v T' a r a' m'"
  unfolding decoded_def by (auto split: if_splits)

text \<open>A double is read up to the first byte that does not continue it; at the end of a buffer that is the byte
  after the buffer.\<close>

definition f64_stops :: "mem \<Rightarrow> GgBuffer \<Rightarrow> gg_val \<Rightarrow> bool" where
  "f64_stops m buf v \<longleftrightarrow> (\<forall>x. v = VF64 x \<longrightarrow> num_stop (m (buf_data buf + buf_len buf)))"

definition decodes :: "GgBuffer \<Rightarrow> gg_val \<Rightarrow> bytes \<Rightarrow> bool" where
  "decodes pruned v d \<longleftrightarrow> (\<forall>m buf a rest. contents m buf = d @ rest \<longrightarrow> val_ends rest \<longrightarrow> f64_stops m buf v \<longrightarrow> buf_data buf + buf_len buf < 2 ^ 64 \<longrightarrow>
     arena_ok a \<longrightarrow> span buf (length d) \<inter> arena_free a = {} \<longrightarrow>
     (\<exists>r a' m'. takes pruned buf a m (r, advance buf (length d), a', m') \<and> agree_off (span buf (length d) \<union> arena_free a) m m' \<and>
        decoded v (span buf (length d)) a r a' m'))"

lemma val_stays:
  assumes "val_blk m x v" "blk_foot m x v \<subseteq> S" "agree_off W m m'" "S \<inter> W = {}"
  shows "val_blk m' x v" "blk_foot m' x v \<subseteq> S"
proof -
  have "agree_on (blk_foot m x v) m m'" using assms(2,4) by (intro agree_off_on[OF assms(3)]) auto
  then show "val_blk m' x v" "blk_foot m' x v \<subseteq> S" using val_blk_frame blk_foot_frame assms(1,2) by blast+
qed

text \<open>Values without arrays.\<close>

lemma decodesI:
  assumes "json_ws w" "json_ws w'" "\<And>rest. num_ends rest \<Longrightarrow> eats json_core t rest f" "t \<noteq> []" "hd t \<notin> set ws_bytes"
    "\<And>m buf a rest. contents m buf = t @ rest \<Longrightarrow> buf_data buf + buf_len buf < 2 ^ 64 \<Longrightarrow> arena_ok a \<Longrightarrow>
      span buf (length t) \<inter> arena_free a = {} \<Longrightarrow> num_ends rest \<Longrightarrow> f64_stops m buf v \<Longrightarrow>
      \<exists>r a' m'. (\<forall>\<^sub>F n in sequentially. decode_json_val n pruned (take_json_val n pruned) (f (buf_data buf) PARSE_RESULT_INIT) a True m = Some (r, a', m')) \<and>
        agree_off (span buf (length t) \<union> arena_free a) m m' \<and> decoded v (span buf (length t)) a r a' m'"
  shows "decodes pruned v (w @ t @ w')"
  unfolding decodes_def
proof (intro allI impI)
  fix m buf a rest
  assume c: "contents m buf = (w @ t @ w') @ rest" "val_ends rest" and stops: "f64_stops m buf v"
    and "buf_data buf + buf_len buf < 2 ^ 64" "arena_ok a" "span buf (length (w @ t @ w')) \<inter> arena_free a = {}"
  note c = c this(4-6)
  let ?b = "advance buf (length w)" and ?T = "span buf (length (w @ t @ w'))"
  have l: "buf_len buf \<le> SIZE_MAX" "length w \<le> buf_len buf" using c(3) arg_cong[OF c(1), of length] by (simp_all add: SIZE_MAX_def)
  have sub: "span ?b (length t) \<subseteq> ?T" by auto
  have "contents m ?b = t @ w' @ rest" using contents_rest[of m buf w] c(1) by simp
  moreover have "buf_data ?b + buf_len ?b < 2 ^ 64" using c(3) l(2) by simp
  moreover have "span ?b (length t) \<inter> arena_free a = {}" using c(5) sub by blast
  moreover have "f64_stops m ?b v" using stops l(2) by (simp add: f64_stops_def)
  moreover note val_ends_num[OF c(2) assms(2)]
  ultimately obtain r a' m' where
    1: "\<forall>\<^sub>F n in sequentially. decode_json_val n pruned (take_json_val n pruned) (f (buf_data ?b) PARSE_RESULT_INIT) a True m = Some (r, a', m')"
      "agree_off (span ?b (length t) \<union> arena_free a) m m'" "decoded v (span ?b (length t)) a r a' m'" using assms(6)[of m ?b "w' @ rest" a] c(4) by blast
  have "eats PARSER_JSON_VALUE (w @ t @ w') rest (\<lambda>a. f (a + length w))"
    by (rule eats_value[OF assms(1,2) c(2) assms(3)[OF val_ends_num[OF c(2) assms(2)]] assms(4,5)])
  from takes_parse[OF this c(1) l(1)] 1(1) have "takes pruned buf a m (r, advance buf (length (w @ t @ w')), a', m')" by simp
  moreover have "agree_off (?T \<union> arena_free a) m m'" by (rule agree_off_mono[OF 1(2)]) (use sub in auto)
  moreover have "decoded v ?T a r a' m'" by (rule decoded_mono[OF 1(3) sub])
  ultimately show "\<exists>r a' m'. takes pruned buf a m (r, advance buf (length (w @ t @ w')), a', m') \<and>
      agree_off (?T \<union> arena_free a) m m' \<and> decoded v ?T a r a' m'" by blast
qed

lemma decodes_scalar:
  assumes "json_ws w" "json_ws w'" "\<And>rest. num_ends rest \<Longrightarrow> eats json_core t rest f" "t \<noteq> []" "hd t \<notin> set ws_bytes"
    "\<And>m buf a rest. contents m buf = t @ rest \<Longrightarrow> buf_len buf \<le> SIZE_MAX \<Longrightarrow>
      \<forall>\<^sub>F n in sequentially. decode_json_val n pruned (take_json_val n pruned) (f (buf_data buf) PARSE_RESULT_INIT) a True m = Some (Inr (Some x), a, m)"
    "length x = obj_size" "\<And>m. val_blk m x v" "\<And>m. blk_foot m x v = {}" "canon_val v = v" "json_need v = 0"
  shows "decodes pruned v (w @ t @ w')"
proof (rule decodesI[OF assms(1-5)])
  fix m buf a rest assume c: "contents m buf = t @ rest" "buf_data buf + buf_len buf < 2 ^ 64"
  then have "buf_len buf \<le> SIZE_MAX" by (simp add: SIZE_MAX_def)
  then show "\<exists>r a' m'. (\<forall>\<^sub>F n in sequentially. decode_json_val n pruned (take_json_val n pruned) (f (buf_data buf) PARSE_RESULT_INIT) a True m = Some (r, a', m')) \<and>
      agree_off (span buf (length t) \<union> arena_free a) m m' \<and> decoded v (span buf (length t)) a r a' m'"
    using assms(6)[OF c(1)] assms(7-11) by (intro exI[of _ "Inr (Some x)"] exI[of _ a] exI[of _ m]) (simp add: decoded_def)
qed

lemma decodes_literal:
  assumes "json_ws w" "json_ws w'"
  shows "decodes pruned VNull (w @ str ''null'' @ w')" "decodes pruned (VBool True) (w @ str ''true'' @ w')"
    "decodes pruned (VBool False) (w @ str ''false'' @ w')"
  by (rule decodes_scalar[OF assms eats_core_literal(1), where x = GG_OBJ_NULL] decodes_scalar[OF assms eats_core_literal(2), where x = "gg_obj_bool True"]
      decodes_scalar[OF assms eats_core_literal(3), where x = "gg_obj_bool False"];
      simp add: str_def ws_bytes_def decode_json_val_def effect_lit_def)+

lemma decodes_int:
  assumes "json_ws w" "json_ws w'" "int_doc t" "int_text_val t = Some (sint i)"
  shows "decodes pruned (VI64 i) (w @ t @ w')"
proof (rule decodes_scalar[OF assms(1,2) eats_core_number[OF int_doc_syn[OF assms(3)]], where x = "gg_obj_i64 i"])
  fix m buf a rest assume c: "contents m buf = t @ rest" "buf_len buf \<le> SIZE_MAX"
  let ?b = "\<lparr>buf_data = buf_data buf, buf_len = length t\<rparr>"
  have l: "length t \<le> buf_len buf" using arg_cong[OF c(1), of length] by simp
  have b: "contents m ?b = t @ []" using arg_cong[OF c(1), of "take (length t)"] l by (simp add: contents_def)
  have fin: "contents m (advance ?b (length t)) = []" by (simp add: contents_def)
  have len: "buf_len ?b \<le> SIZE_MAX" "buf_len (advance ?b (length t)) \<le> SIZE_MAX" using l c(2) by simp_all
  have ne: "num_ends []" by (simp add: num_ends_def)
  have num: "gg_str_to_int64 (contents m ?b) = Inr (sint i)"
    using assms(4) b sint_greater_eq[of i] sint_less[of i] by (simp add: str_to_int64_iff INT64_MIN_def INT64_MAX_def)
  have "\<forall>\<^sub>F n in sequentially. parser_call n m PARSER_INT_PART ?b None = Some (True, advance ?b (length t), None)"
    using eatsD[OF eats_int_part[OF assms(3)] b len(1), of None] by (simp add: parses_def)
  moreover have "\<forall>\<^sub>F n in sequentially. parser_call n m PARSER_FRAC_PART (advance ?b (length t)) None = Some (False, advance ?b (length t), None)"
    "\<forall>\<^sub>F n in sequentially. parser_call n m PARSER_EXPONENT (advance ?b (length t)) None = Some (False, advance ?b (length t), None)"
    using missesD[OF misses_fraction(1)[OF ne] fin len(2), of None] missesD[OF misses_fraction(2)[OF ne] fin len(2), of None]
    by (simp_all add: parses_def)
  ultimately have "\<forall>\<^sub>F n in sequentially. decode_json_number n m ?b True = Some (Inr (Some (gg_obj_i64 i)))"
    by eventually_elim (simp add: decode_json_number_def num)
  then show "\<forall>\<^sub>F n in sequentially. decode_json_val n pruned (take_json_val n pruned)
      (PARSE_RESULT_INIT\<lparr>pr_type := JSON_TYPE_NUMBER, pr_content := ?b\<rparr>) a True m = Some (Inr (Some (gg_obj_i64 i)), a, m)"
    by eventually_elim (simp add: decode_json_val_def)
qed (use int_doc_first[OF assms(3)] in simp_all)

lemma decodes_f64:
  assumes "json_ws w" "json_ws w'" "s \<in> {[], [0x2D]}" "int_doc (s @ ip)" "list_all is_digit ip" "frac_syn f" "exp_syn e" "f @ e \<noteq> []"
    "text_f64 s ip f e = (x, False)"
  shows "decodes pruned (VF64 x) (w @ (s @ ip @ f @ e) @ w')"
proof -
  let ?t = "s @ ip @ f @ e"
  have num: "num_syn ?t" using doc_syn(1)[OF doc_f64[OF assms(3-9)]] assms(4,6,7) unfolding num_syn_def by (metis append_assoc)
  show ?thesis
  proof (rule decodesI[OF assms(1,2) eats_core_number[OF num]])
    fix m buf a rest
    assume c: "contents m buf = ?t @ rest" "buf_data buf + buf_len buf < 2 ^ 64" "num_ends rest" "f64_stops m buf (VF64 x)"
    let ?b = "\<lparr>buf_data = buf_data buf, buf_len = length ?t\<rparr>"
    have l: "buf_len buf = length ?t + length rest" using arg_cong[OF c(1), of length] by simp
    have b: "contents m ?b = ?t" using arg_cong[OF c(1), of "take (length ?t)"] l by (simp add: contents_def)
    have "num_stop (m (buf_data buf + length ?t))"
    proof (cases "rest = []")
      case True
      then show ?thesis using c(4) l by (simp add: f64_stops_def)
    next
      case False
      then have "m (buf_data buf + length ?t) = hd rest"
        using contents_Cons(1)[of m "advance buf (length ?t)" "hd rest" "tl rest"] contents_rest[OF c(1)] by simp
      then show ?thesis using c(3) False by (simp add: num_ends_def num_stop_def)
    qed
    then have stop: "num_stop (m (buf_data ?b + buf_len ?b))" by simp
    have "buf_len ?b \<le> SIZE_MAX" using l c(2) by (simp add: SIZE_MAX_def)
    from decode_f64[OF assms(3-8) b this stop] have "\<forall>\<^sub>F n in sequentially. decode_json_number n m ?b True = Some (Inr (Some (gg_obj_f64 x)))"
      by (simp add: assms(9))
    then have "\<forall>\<^sub>F n in sequentially. decode_json_val n pruned (take_json_val n pruned)
        (PARSE_RESULT_INIT\<lparr>pr_type := JSON_TYPE_NUMBER, pr_content := ?b\<rparr>) a True m = Some (Inr (Some (gg_obj_f64 x)), a, m)"
      by eventually_elim (simp add: decode_json_val_def)
    then show "\<exists>r a' m'. (\<forall>\<^sub>F n in sequentially. decode_json_val n pruned (take_json_val n pruned)
        (PARSE_RESULT_INIT\<lparr>pr_type := JSON_TYPE_NUMBER, pr_content := ?b\<rparr>) a True m = Some (r, a', m')) \<and>
      agree_off (span buf (length ?t) \<union> arena_free a) m m' \<and> decoded (VF64 x) (span buf (length ?t)) a r a' m'"
      by (intro exI[of _ "Inr (Some (gg_obj_f64 x))"] exI[of _ a] exI[of _ m]) (simp add: decoded_def)
  qed (use num_syn_first[OF num] in simp_all)
qed

lemma decodes_str:
  assumes "json_ws w" "json_ws w'" "str_doc bs e" "length bs < 65536"
  shows "decodes pruned (VBuf bs) (w @ ([0x22] @ e @ [0x22]) @ w')"
proof (rule decodesI[OF assms(1,2) eats_core_string[OF str_doc_syn[OF assms(3)]]])
  fix m buf a rest assume c: "contents m buf = ([0x22] @ e @ [0x22]) @ rest" "buf_data buf + buf_len buf < 2 ^ 64"
  let ?T = "span buf (length ([0x22] @ e @ [0x22]))" and ?s = "\<lparr>buf_data = buf_data buf + 1, buf_len = length e\<rparr>"
  have l: "length e + 2 \<le> buf_len buf" using arg_cong[OF c(1), of length] by simp
  have "contents m (advance buf 1) = e @ [0x22] @ rest" using contents_rest[of m buf "[0x22]"] c(1) by simp
  from arg_cong[OF this, of "take (length e)"] have s: "contents m ?s = e" using l by (simp add: contents_def)
  have "buf_len ?s \<le> SIZE_MAX" using l c(2) by (simp add: SIZE_MAX_def)
  from unescape_doc[OF assms(3) s this] obtain m' where
    u: "unescape_string m ?s = (True, ?s\<lparr>buf_len := length bs\<rparr>, m')" "length bs \<le> length e" "contents m' (?s\<lparr>buf_len := length bs\<rparr>) = bs"
      "agree_off {buf_data ?s..<buf_data ?s + buf_len ?s} m m'" by auto
  obtain x where x: "gg_obj_buf (?s\<lparr>buf_len := length bs\<rparr>) = Some x" using assms(4) gg_obj_fits(1)[of "?s\<lparr>buf_len := length bs\<rparr>"] by auto
  have i: "gg_obj_into_buf x = Some (?s\<lparr>buf_len := length bs\<rparr>)" using into_obj_buf[OF x] l c(2) by simp
  have "length x = obj_size" using x assms(4) by (auto simp: gg_obj_packed)
  moreover have "blk_foot m' x (VBuf bs) \<subseteq> ?T" using into_val(1)[OF i] u(2) by (auto simp: Let_def)
  ultimately have "decoded (VBuf bs) ?T a (Inr (Some x)) a m'" using i u(3) by (auto simp: decoded_def)
  moreover have "agree_off (?T \<union> arena_free a) m m'" by (rule agree_off_mono[OF u(4)]) auto
  ultimately show "\<exists>r a' m'. (\<forall>\<^sub>F n in sequentially. decode_json_val n pruned (take_json_val n pruned)
        (PARSE_RESULT_INIT\<lparr>pr_type := JSON_TYPE_STR, pr_content := ?s\<rparr>) a True m = Some (r, a', m')) \<and>
      agree_off (?T \<union> arena_free a) m m' \<and> decoded (VBuf bs) ?T a r a' m'"
    using u(1) x by (intro exI[of _ "Inr (Some x)"] exI[of _ a] exI[of _ m']) (simp add: decode_json_val_def decode_json_str_def)
qed (simp_all add: ws_bytes_def)

section \<open>Arrays\<close>

definition items_decoded :: "gg_val list \<Rightarrow> addr set \<Rightarrow> addr \<Rightarrow> GgArena \<Rightarrow> GgError \<Rightarrow> GgArena \<Rightarrow> mem \<Rightarrow> bool" where
  "items_decoded vs T q a r a' m' \<longleftrightarrow>
     (if items_need vs \<le> arena_avail a
      then r = GG_ERR_OK \<and> a' = adv a (items_need vs) \<and> objs_at m' q (canon_vals vs) \<and>
        objs_foot m' q (canon_vals vs) \<subseteq> {q..<q + obj_size * length vs} \<union> (T \<union> taken a (items_need vs))
      else r = GG_ERR_NOMEM)"

text \<open>The byte after a buffer stops a number, and is not among the addresses \<open>W\<close> that are written.\<close>

definition ends_well :: "mem \<Rightarrow> GgBuffer \<Rightarrow> addr set \<Rightarrow> bool" where
  "ends_well m buf W \<longleftrightarrow> num_stop (m (buf_data buf + buf_len buf)) \<and> buf_data buf + buf_len buf \<notin> W"

lemma ends_well_stops: "ends_well m buf W \<Longrightarrow> f64_stops m buf v"
  by (simp add: ends_well_def f64_stops_def)

lemma ends_well_advance:
  assumes "ends_well m buf W" "agree_off (Q \<union> (span buf k \<union> F)) m m'" "Q \<union> F \<subseteq> W" "W' \<subseteq> W" "k \<le> buf_len buf" "j \<le> buf_len buf"
  shows "ends_well m' (advance buf j) W'"
proof -
  let ?p = "buf_data buf + buf_len buf"
  have "?p \<notin> Q \<union> (span buf k \<union> F)" using assms(1,3,5) by (auto simp: ends_well_def)
  then have "m' ?p = m ?p" using assms(2) by (simp add: agree_off_def)
  then show ?thesis using assms(1,4,6) by (auto simp: ends_well_def)
qed

definition items_decode :: "GgBuffer \<Rightarrow> gg_val list \<Rightarrow> bytes \<Rightarrow> bool" where
  "items_decode pruned vs d \<longleftrightarrow> (\<forall>m buf a items i q. contents m buf = d \<longrightarrow> buf_data buf + buf_len buf < 2 ^ 64 \<longrightarrow>
     arena_ok a \<longrightarrow> items \<noteq> NULL \<longrightarrow> q = items + obj_size * i \<longrightarrow> span buf (length d) \<inter> arena_free a = {} \<longrightarrow>
     {q..<q + obj_size * length vs} \<inter> (span buf (length d) \<union> arena_free a) = {} \<longrightarrow>
     ends_well m buf ({q..<q + obj_size * length vs} \<union> arena_free a) \<longrightarrow>
     (\<exists>r a' m'. (\<forall>\<^sub>F n in sequentially. array_loop (take_json_val n pruned) items i (length vs) buf a m = Some (r, a', m')) \<and>
        agree_off ({q..<q + obj_size * length vs} \<union> (span buf (length d) \<union> arena_free a)) m m' \<and>
        items_decoded vs (span buf (length d)) q a r a' m'))"

lemma items_decodeD:
  assumes "items_decode pruned vs d" "contents m buf = d" "buf_data buf + buf_len buf < 2 ^ 64" "arena_ok a" "items \<noteq> NULL"
    "q = items + obj_size * i" "span buf (length d) \<inter> arena_free a = {}"
    "{q..<q + obj_size * length vs} \<inter> (span buf (length d) \<union> arena_free a) = {}"
    "ends_well m buf ({q..<q + obj_size * length vs} \<union> arena_free a)"
  obtains r a' m' where "\<forall>\<^sub>F n in sequentially. array_loop (take_json_val n pruned) items i (length vs) buf a m = Some (r, a', m')"
    "agree_off ({q..<q + obj_size * length vs} \<union> (span buf (length d) \<union> arena_free a)) m m'"
    "items_decoded vs (span buf (length d)) q a r a' m'"
  using assms unfolding items_decode_def by blast

lemma decodesD:
  assumes "decodes pruned v d" "contents m buf = d @ rest" "val_ends rest" "f64_stops m buf v" "buf_data buf + buf_len buf < 2 ^ 64"
    "arena_ok a" "span buf (length d) \<inter> arena_free a = {}"
  obtains r a' m' where "\<forall>\<^sub>F n in sequentially. take_json_val n pruned buf a True m = Some (r, advance buf (length d), a', m')"
    "agree_off (span buf (length d) \<union> arena_free a) m m'" "decoded v (span buf (length d)) a r a' m'"
  using assms unfolding decodes_def takes_def by blast

lemma decodedE:
  assumes "decoded v T a r a' m'"
  obtains (nomem) "arena_avail a < json_need v" "r = Inl GG_ERR_NOMEM"
  | (ok) x where "json_need v \<le> arena_avail a" "a' = adv a (json_need v)" "r = Inr (Some x)" "length x = obj_size"
      "val_blk m' x (canon_val v)" "blk_foot m' x (canon_val v) \<subseteq> T \<union> taken a (json_need v)"
  using assms unfolding decoded_def by (auto simp: not_le split: if_splits)

text \<open>An object stored into its place of the array.\<close>

lemma stored_item:
  assumes "val_blk m x v" "length x = obj_size" "blk_foot m x v \<subseteq> S" "S \<inter> {q..<q + obj_size} = {}"
  shows "objs_at (wr m q x) q [v]" "objs_foot (wr m q x) q [v] \<subseteq> {q..<q + obj_size} \<union> S"
proof -
  have "agree_off {q..<q + obj_size} m (wr m q x)" using assms(2) by (intro agree_off_wr) simp
  from val_stays[OF assms(1,3) this assms(4)] assms(2)
  show "objs_at (wr m q x) q [v]" "objs_foot (wr m q x) q [v] \<subseteq> {q..<q + obj_size} \<union> S" by (auto simp: rd_wr_same')
qed

lemma items_last:
  assumes "decodes pruned v d"
  shows "items_decode pruned [v] d"
  unfolding items_decode_def
proof (intro allI impI)
  fix m buf a items i q
  assume c: "contents m buf = d" "buf_data buf + buf_len buf < 2 ^ 64" "arena_ok a" "items \<noteq> NULL" "q = items + obj_size * i"
    "span buf (length d) \<inter> arena_free a = {}" "{q..<q + obj_size * length [v]} \<inter> (span buf (length d) \<union> arena_free a) = {}"
    "ends_well m buf ({q..<q + obj_size * length [v]} \<union> arena_free a)"
  let ?T = "span buf (length d)"
  have "contents m buf = d @ []" "val_ends []" using c(1) by (simp_all add: val_ends_def)
  from decodesD[OF assms this ends_well_stops[OF c(8)] c(2,3,6)] obtain r a' m' where
    1: "\<forall>\<^sub>F n in sequentially. take_json_val n pruned buf a True m = Some (r, advance buf (length d), a', m')"
      "agree_off (?T \<union> arena_free a) m m'" "decoded v ?T a r a' m'" by blast
  from 1(3) show "\<exists>r a' m'. (\<forall>\<^sub>F n in sequentially. array_loop (take_json_val n pruned) items i (length [v]) buf a m = Some (r, a', m')) \<and>
      agree_off ({q..<q + obj_size * length [v]} \<union> (?T \<union> arena_free a)) m m' \<and> items_decoded [v] ?T q a r a' m'"
  proof (cases rule: decodedE)
    case nomem
    have "\<forall>\<^sub>F n in sequentially. array_loop (take_json_val n pruned) items i (length [v]) buf a m = Some (GG_ERR_NOMEM, a', m')"
      using 1(1) by eventually_elim (use nomem c(4) in simp)
    moreover have "agree_off ({q..<q + obj_size * length [v]} \<union> (?T \<union> arena_free a)) m m'" by (rule agree_off_mono[OF 1(2)]) auto
    ultimately show ?thesis using nomem by (auto simp: items_decoded_def)
  next
    case (ok x)
    have "\<forall>\<^sub>F n in sequentially. array_loop (take_json_val n pruned) items i (length [v]) buf a m = Some (GG_ERR_OK, a', wr m' q x)"
      using 1(1) by eventually_elim (use ok c(4,5) in \<open>simp add: store_def\<close>)
    moreover have "agree_off ({q..<q + obj_size * length [v]} \<union> (?T \<union> arena_free a)) m (wr m' q x)"
      by (rule agree_off_trans[OF agree_off_mono[OF 1(2)] agree_off_wr]) (use ok(4) in auto)
    moreover have "(?T \<union> taken a (json_need v)) \<inter> {q..<q + obj_size} = {}" using c(7) taken_sub(1)[OF ok(1) c(3)] by auto
    from stored_item[OF ok(5,4,6) this] have "items_decoded [v] ?T q a GG_ERR_OK a' (wr m' q x)"
      using ok by (simp add: items_decoded_def)
    ultimately show ?thesis by blast
  qed
qed

lemma objs_stay:
  assumes "objs_at m p vs" "objs_foot m p vs \<subseteq> S" "agree_off W m m'" "S \<inter> W = {}"
  shows "objs_at m' p vs" "objs_foot m' p vs \<subseteq> S"
proof -
  have "agree_on (objs_foot m p vs) m m'" using assms(2,4) by (intro agree_off_on[OF assms(3)]) auto
  then show "objs_at m' p vs" "objs_foot m' p vs \<subseteq> S" using objs_frame objs_foot_frame assms(1,2) by blast+
qed

lemma contents_length: "contents m b = bs \<Longrightarrow> buf_len b = length bs"
  by auto

lemma span_off: "agree_off W m m' \<Longrightarrow> span b (buf_len b) \<inter> W = {} \<Longrightarrow> contents m' b = contents m b"
  unfolding contents_def by (rule rd_off)

lemma parser_char_ok: "contents m buf = c # t \<Longrightarrow> buf_len buf \<le> SIZE_MAX \<Longrightarrow> parser_char_fn c m buf = (True, advance buf 1)"
  using contents_Cons[of m buf c t] by (simp add: parser_char_fn_def substr_advance)

lemma adv_disjoint:
  "arena_free (adv a n) \<subseteq> arena_free a" "taken a n \<inter> arena_free (adv a n) = {}"
  "taken a n \<union> taken (adv a n) k = taken a (n + k)"
  by (auto simp: arena_free_def)

text \<open>What is left of the text after the first value and a separator is untouched by decoding that value.\<close>

lemma rest_untouched:
  assumes "contents m buf = d1 @ [c] @ d2" "agree_off (Q \<union> (span buf (length d1) \<union> F)) m m'" "Q \<inter> span buf (length (d1 @ [c] @ d2)) = {}"
    "F \<inter> span buf (length (d1 @ [c] @ d2)) = {}"
  shows "contents m' (advance buf (length d1)) = c # d2"
    "span (advance buf (length d1 + 1)) (length d2) \<subseteq> span buf (length (d1 @ [c] @ d2))"
    "span buf (length d1) \<subseteq> span buf (length (d1 @ [c] @ d2))"
    "span (advance buf (length d1 + 1)) (length d2) \<inter> span buf (length d1) = {}"
proof -
  let ?b = "advance buf (length d1)"
  have l: "buf_len buf = length (d1 @ [c] @ d2)" using arg_cong[OF assms(1), of length] by simp
  then have "span ?b (buf_len ?b) \<inter> span buf (length d1) = {}" "span ?b (buf_len ?b) \<subseteq> span buf (length (d1 @ [c] @ d2))" by auto
  then have "span ?b (buf_len ?b) \<inter> (Q \<union> (span buf (length d1) \<union> F)) = {}" using assms(3,4) by blast
  from span_off[OF assms(2) this] show "contents m' ?b = c # d2" using contents_rest[OF assms(1)] by simp
qed auto

lemma items_decoded_Cons:
  assumes "items_decoded vs T2 (q + obj_size) (adv a (json_need v)) r a2 m2" "objs_at m2 q [canon_val v]"
    "objs_foot m2 q [canon_val v] \<subseteq> {q..<q + obj_size} \<union> (T1 \<union> taken a (json_need v))" "json_need v \<le> arena_avail a" "T1 \<subseteq> T" "T2 \<subseteq> T"
  shows "items_decoded (v # vs) T q a r a2 m2"
proof (cases "items_need (v # vs) \<le> arena_avail a")
  case True
  let ?Q = "{q..<q + obj_size * length (v # vs)}"
  have "items_need vs \<le> arena_avail (adv a (json_need v))" using True by simp
  with assms(1) have 1: "r = GG_ERR_OK" "a2 = adv a (items_need (v # vs))" "objs_at m2 (q + obj_size) (canon_vals vs)"
    "objs_foot m2 (q + obj_size) (canon_vals vs) \<subseteq>
       {q + obj_size..<q + obj_size + obj_size * length vs} \<union> (T2 \<union> taken (adv a (json_need v)) (items_need vs))"
    unfolding items_decoded_def by simp_all
  have "{q + obj_size..<q + obj_size + obj_size * length vs} \<subseteq> ?Q" "{q..<q + obj_size} \<subseteq> ?Q" by auto
  with 1(4) assms(3,5,6) adv_disjoint(3)[of a "json_need v" "items_need vs"]
  have "objs_foot m2 q (canon_vals (v # vs)) \<subseteq> ?Q \<union> (T \<union> taken a (items_need (v # vs)))"
    unfolding canon_vals.simps items_need.simps objs_foot.simps(2)[of m2 q "canon_val v" "canon_vals vs"] objs_foot.simps(2)[of m2 q "canon_val v" "[]"] objs_foot.simps(1)
    by blast
  with 1 assms(2) True show ?thesis by (simp add: items_decoded_def)
next
  case False
  with assms(1,4) show ?thesis by (simp add: items_decoded_def)
qed

lemma items_more:
  assumes v: "decodes pruned v d1" and vs: "items_decode pruned vs d2" "vs \<noteq> []"
  shows "items_decode pruned (v # vs) (d1 @ [0x2C] @ d2)"
  unfolding items_decode_def
proof (intro allI impI)
  fix m buf a items i q
  let ?d = "d1 @ [0x2C] @ d2" let ?T = "span buf (length ?d)" and ?Q = "{q..<q + obj_size * length (v # vs)}"
  let ?T1 = "span buf (length d1)" and ?b2 = "advance buf (length d1 + 1)" let ?T2 = "span ?b2 (length d2)"
  assume c: "contents m buf = ?d" "buf_data buf + buf_len buf < 2 ^ 64" "arena_ok a" "items \<noteq> NULL" "q = items + obj_size * i"
    "?T \<inter> arena_free a = {}" "?Q \<inter> (?T \<union> arena_free a) = {}" "ends_well m buf (?Q \<union> arena_free a)"
  have lens: "buf_len buf = length ?d" "buf_len buf \<le> SIZE_MAX" using arg_cong[OF c(1), of length] c(2) by (simp_all add: SIZE_MAX_def)
  have T1: "?T1 \<subseteq> ?T" and T2: "?T2 \<subseteq> ?T" and T12: "?T2 \<inter> ?T1 = {}" by auto
  have "val_ends ([0x2C] @ d2)" by (simp add: val_ends_def)
  moreover have "?T1 \<inter> arena_free a = {}" using c(6) T1 by blast
  ultimately obtain r a1 m1 where
    1: "\<forall>\<^sub>F n in sequentially. take_json_val n pruned buf a True m = Some (r, advance buf (length d1), a1, m1)"
      "agree_off (?T1 \<union> arena_free a) m m1" "decoded v ?T1 a r a1 m1" using decodesD[OF v c(1) _ ends_well_stops[OF c(8)] c(2,3)] by blast
  from 1(3) show "\<exists>r a' m'. (\<forall>\<^sub>F n in sequentially. array_loop (take_json_val n pruned) items i (length (v # vs)) buf a m = Some (r, a', m')) \<and>
      agree_off (?Q \<union> (?T \<union> arena_free a)) m m' \<and> items_decoded (v # vs) ?T q a r a' m'"
  proof (cases rule: decodedE)
    case nomem
    have "\<forall>\<^sub>F n in sequentially. array_loop (take_json_val n pruned) items i (length (v # vs)) buf a m = Some (GG_ERR_NOMEM, a1, m1)"
      using 1(1) by eventually_elim (use nomem c(4) in simp)
    moreover have "agree_off (?Q \<union> (?T \<union> arena_free a)) m m1" by (rule agree_off_mono[OF 1(2)]) (use T1 in blast)
    ultimately show ?thesis using nomem by (auto simp: items_decoded_def)
  next
    case (ok x)
    let ?Q1 = "{q..<q + obj_size}" and ?m = "wr m1 q x" and ?q2 = "q + obj_size" let ?Q2 = "{?q2..<?q2 + obj_size * length vs}"
    have Q: "?Q1 \<subseteq> ?Q" "?Q2 \<subseteq> ?Q" "?Q1 \<inter> ?Q2 = {}" by auto
    have off: "agree_off (?Q1 \<union> (?T1 \<union> arena_free a)) m ?m"
      by (rule agree_off_trans[OF agree_off_mono[OF 1(2)] agree_off_wr]) (use ok(4) in auto)
    have "?Q1 \<inter> ?T = {}" "arena_free a \<inter> ?T = {}" using c(6,7) Q by blast+
    note rest = rest_untouched(1)[OF c(1) off this]
    have sep: "parser_char_fn 0x2C ?m (advance buf (length d1)) = (True, ?b2)"
      using parser_char_ok[OF rest] lens(2) by simp
    have d2: "contents ?m ?b2 = d2" using contents_rest[of ?m "advance buf (length d1)" "[0x2C]" d2] rest by simp
    have pre: "buf_data ?b2 + buf_len ?b2 < 2 ^ 64" "arena_ok a1" "?q2 = items + obj_size * (i + 1)"
      "?T2 \<inter> arena_free a1 = {}" "?Q2 \<inter> (?T2 \<union> arena_free a1) = {}"
      using c ok(1,2) lens T2 Q adv_disjoint(1)[of a "json_need v"] by (simp, simp, simp, blast, blast)
    have "ends_well ?m ?b2 (?Q2 \<union> arena_free a1)"
      by (rule ends_well_advance[OF c(8) off]) (use lens(1) Q ok(2) adv_disjoint(1)[of a "json_need v"] in auto)
    from items_decodeD[OF vs(1) d2 pre(1,2) c(4) pre(3-5) this] obtain r2 a2 m2 where
      2: "\<forall>\<^sub>F n in sequentially. array_loop (take_json_val n pruned) items (i + 1) (length vs) ?b2 a1 ?m = Some (r2, a2, m2)"
        "agree_off (?Q2 \<union> (?T2 \<union> arena_free a1)) ?m m2" "items_decoded vs ?T2 ?q2 a1 r2 a2 m2" by blast
    have run: "\<forall>\<^sub>F n in sequentially. array_loop (take_json_val n pruned) items i (length (v # vs)) buf a m = Some (r2, a2, m2)"
      using 1(1) 2(1) by eventually_elim (use ok(3) c(4,5) vs(2) sep in \<open>simp add: store_def\<close>)
    have frame: "agree_off (?Q \<union> (?T \<union> arena_free a)) m m2"
      by (rule agree_off_trans[OF agree_off_mono[OF off] agree_off_mono[OF 2(2)]])
        (use T1 T2 Q ok(2) adv_disjoint(1)[of a "json_need v"] in blast)+
    let ?S = "?T1 \<union> taken a (json_need v)"
    have tk: "taken a (json_need v) \<subseteq> arena_free a" by (rule taken_sub(1)[OF ok(1) c(3)])
    then have "?S \<inter> ?Q1 = {}" using c(7) T1 Q by blast
    note st = stored_item[OF ok(5,4,6) this]
    have "(?Q1 \<union> ?S) \<inter> (?Q2 \<union> (?T2 \<union> arena_free a1)) = {}"
      using c(6,7) T1 T2 T12 Q tk ok(2) adv_disjoint(1,2)[of a "json_need v"] by blast
    note st2 = objs_stay[OF st 2(2) this]
    have "items_decoded (v # vs) ?T q a r2 a2 m2"
      using 2(3) st2 ok(2) by (intro items_decoded_Cons[OF _ _ _ ok(1) T1 T2]) simp_all
    with run frame show ?thesis by blast
  qed
qed

lemma alloc_n_result:
  assumes "arena_ok a" "n < 65536" "sz < 256"
  shows "alloc_n a n sz = Some (if sz * n \<le> arena_avail a then (bump a, adv a (sz * n)) else (NULL, a))"
proof -
  have "n * sz < 65536 * 256" using mult_strict_mono[OF assms(2,3)] by simp
  then have "u64 (n * sz) = n * sz" "n * sz \<le> PTRDIFF_MAX" by (simp_all add: PTRDIFF_MAX_def)
  then show ?thesis using assms(1) by (simp add: alloc_n_def alloc_bytes_Suc adv_def mult.commute)
qed

lemma nested_content:
  assumes "contents m buf = ([o'] @ w @ t @ [c]) @ rest" "buf_data buf + buf_len buf < 2 ^ 64"
  shows "contents m \<lparr>buf_data = buf_data buf + (1 + length w), buf_len = length t\<rparr> = t"
    "buf_data buf + (1 + length w) + length t < 2 ^ 64"
    "{buf_data buf + (1 + length w)..<buf_data buf + (1 + length w) + length t} \<subseteq> span buf (length ([o'] @ w @ t @ [c]))"
    "num_stop c \<Longrightarrow> span buf (length ([o'] @ w @ t @ [c])) \<inter> F = {} \<Longrightarrow> ends_well m \<lparr>buf_data = buf_data buf + (1 + length w), buf_len = length t\<rparr> F"
proof -
  have l: "buf_len buf = length t + length w + 2 + length rest" using arg_cong[OF assms(1), of length] by simp
  have "contents m (advance buf (length (o' # w))) = t @ c # rest" using contents_rest[of m buf "o' # w" "t @ c # rest"] assms(1) by simp
  from arg_cong[OF this, of "take (length t)"] l
  show "contents m \<lparr>buf_data = buf_data buf + (1 + length w), buf_len = length t\<rparr> = t" by (simp add: contents_def)
  show "buf_data buf + (1 + length w) + length t < 2 ^ 64" using l assms(2) by simp
  have "contents m (advance buf (length (o' # w @ t))) = c # rest" using contents_rest[of m buf "o' # w @ t" "c # rest"] assms(1) by simp
  from contents_Cons(1)[OF this] have "m (buf_data buf + (1 + length w) + length t) = c" by (simp add: add.assoc)
  moreover have "buf_data buf + (1 + length w) + length t \<in> span buf (length ([o'] @ w @ t @ [c]))" by simp
  ultimately show "num_stop c \<Longrightarrow> span buf (length ([o'] @ w @ t @ [c])) \<inter> F = {} \<Longrightarrow> ends_well m \<lparr>buf_data = buf_data buf + (1 + length w), buf_len = length t\<rparr> F"
    unfolding ends_well_def by (simp del: atLeastLessThan_iff) blast
qed auto

lemma decode_array_nomem:
  assumes "arena_ok a" "0 < n" "n < 65536" "arena_avail a < obj_size * n"
  shows "decode_json_array tk content n a True m = Some (Inl GG_ERR_NOMEM, a, m)"
  using assms alloc_n_result[of a n obj_size] by (simp add: decode_json_array_def)

lemma decode_array_run:
  assumes "arena_ok a" "0 < n" "n < 65536" "obj_size * n \<le> arena_avail a"
    "array_loop tk (bump a) 0 n content (adv a (obj_size * n)) m = Some (r, a', m')"
  shows "decode_json_array tk content n a True m =
    (if r \<noteq> GG_ERR_OK then Some (Inl r, a', m')
     else map_option (\<lambda>x. (Inr (Some x), a', m')) (gg_obj_list \<lparr>list_items = bump a, list_len = n\<rparr>))"
  using assms alloc_n_result[of a n obj_size] alloc_adv(2)[OF assms(1)]
  by (cases "gg_obj_list \<lparr>list_items = bump a, list_len = n\<rparr>") (auto simp: decode_json_array_def)

lemma list_object:
  assumes "p < 2 ^ 64" "length vs < 65536" "objs_at m p vs" "objs_foot m p vs \<subseteq> S"
  shows "\<exists>x. gg_obj_list \<lparr>list_items = p, list_len = length vs\<rparr> = Some x \<and> length x = obj_size \<and> val_blk m x (VList vs) \<and> blk_foot m x (VList vs) \<subseteq> S"
proof -
  obtain x where x: "gg_obj_list \<lparr>list_items = p, list_len = length vs\<rparr> = Some x"
    using assms(2) gg_obj_fits(2)[of "\<lparr>list_items = p, list_len = length vs\<rparr>"] by auto
  have i: "gg_obj_into_list x = Some \<lparr>list_items = p, list_len = length vs\<rparr>" using into_obj_list[OF x] assms(1) by simp
  have "length x = obj_size" using x assms(2) by (auto simp: gg_obj_packed)
  then show ?thesis using x i into_val(2)[OF i] assms(3,4) by simp
qed

lemma array_decoded:
  assumes items: "items_decode pruned vs t" and n: "0 < length vs" "length vs < 65536"
    and c: "contents m C = t" "buf_data C + buf_len C < 2 ^ 64" "arena_ok a" "span C (length t) \<inter> arena_free a = {}" "ends_well m C (arena_free a)"
  shows "\<exists>r a' m'. (\<forall>\<^sub>F n in sequentially. decode_json_array (take_json_val n pruned) C (length vs) a True m = Some (r, a', m')) \<and>
      agree_off (span C (length t) \<union> arena_free a) m m' \<and> decoded (VList vs) (span C (length t)) a r a' m'"
proof (cases "obj_size * length vs \<le> arena_avail a")
  case False
  then show ?thesis using decode_array_nomem[OF c(3) n]
    by (intro exI[of _ "Inl GG_ERR_NOMEM"] exI[of _ a] exI[of _ m]) (simp add: decoded_def)
next
  case room: True
  let ?n = "length vs" and ?T = "span C (length t)"
  let ?a = "adv a (obj_size * ?n)" and ?Q = "taken a (obj_size * ?n)"
  have tk: "?Q \<subseteq> arena_free a" "?Q \<inter> arena_free ?a = {}" "arena_free ?a \<subseteq> arena_free a"
    using taken_sub(1)[OF room c(3)] adv_disjoint by blast+
  have ok: "arena_ok ?a" and base: "bump a = bump a + obj_size * 0" using c(3) room by simp_all
  have dis: "?T \<inter> arena_free ?a = {}" "?Q \<inter> (?T \<union> arena_free ?a) = {}" using c(4) tk by blast+
  have "ends_well m C (?Q \<union> arena_free ?a)" using c(5) tk unfolding ends_well_def by blast
  from items_decodeD[OF items c(1,2) ok alloc_adv(2)[OF c(3)] base dis this] obtain r a' m' where
    1: "\<forall>\<^sub>F n in sequentially. array_loop (take_json_val n pruned) (bump a) 0 ?n C ?a m = Some (r, a', m')"
      "agree_off (?Q \<union> (?T \<union> arena_free ?a)) m m'" "items_decoded vs ?T (bump a) ?a r a' m'" by blast
  have frame: "agree_off (?T \<union> arena_free a) m m'" by (rule agree_off_mono[OF 1(2)]) (use tk in auto)
  show ?thesis
  proof (cases "items_need vs \<le> arena_avail ?a")
    case True
    with 1(3) have ok: "r = GG_ERR_OK" "a' = adv a (json_need (VList vs))" "objs_at m' (bump a) (canon_vals vs)"
      "objs_foot m' (bump a) (canon_vals vs) \<subseteq> ?Q \<union> (?T \<union> taken ?a (items_need vs))" by (simp_all add: items_decoded_def)
    then have foot: "objs_foot m' (bump a) (canon_vals vs) \<subseteq> ?T \<union> taken a (json_need (VList vs))"
      using adv_disjoint(3)[of a "obj_size * ?n" "items_need vs"] by auto
    from list_object[OF alloc_adv(3)[OF c(3)] _ ok(3) foot] n obtain x where
      x: "gg_obj_list \<lparr>list_items = bump a, list_len = ?n\<rparr> = Some x" "length x = obj_size" "val_blk m' x (canon_val (VList vs))"
        "blk_foot m' x (canon_val (VList vs)) \<subseteq> ?T \<union> taken a (json_need (VList vs))"
      by (auto simp del: val_blk.simps blk_foot.simps)
    have "decoded (VList vs) ?T a (Inr (Some x)) a' m'" using x ok(2) True room unfolding decoded_def by simp
    moreover have "\<forall>\<^sub>F n in sequentially. decode_json_array (take_json_val n pruned) C ?n a True m = Some (Inr (Some x), a', m')"
      using 1(1) by eventually_elim (use decode_array_run[OF c(3) n room] ok(1) x(1) in simp)
    ultimately show ?thesis using frame by blast
  next
    case False
    with 1(3) have no: "r = GG_ERR_NOMEM" "decoded (VList vs) ?T a (Inl GG_ERR_NOMEM) a' m'" by (simp_all add: items_decoded_def decoded_def)
    have "\<forall>\<^sub>F n in sequentially. decode_json_array (take_json_val n pruned) C ?n a True m = Some (Inl GG_ERR_NOMEM, a', m')"
      using 1(1) by eventually_elim (use decode_array_run[OF c(3) n room] no(1) in simp)
    then show ?thesis using frame no(2) by blast
  qed
qed

lemma decoded_nested:
  assumes "C \<subseteq> T" "agree_off (C \<union> F) m m'" "decoded v C a r a' m'"
  shows "agree_off (T \<union> F) m m'" "decoded v T a r a' m'"
  using agree_off_mono[OF assms(2), of "T \<union> F"] decoded_mono[OF assms(3,1)] assms(1) by blast+

lemma decodes_list:
  assumes ws: "json_ws w0" "json_ws w1" "json_ws w" and doc: "items_doc vs t" and items: "items_decode pruned vs t" and fits: "length vs < 65536"
  shows "decodes pruned (VList vs) (w0 @ ([0x5B] @ w @ t @ [0x5D]) @ w1)"
proof (rule decodesI[OF ws(1,2)])
  let ?t = "[0x5B] @ w @ t @ [0x5D]"
  note p = docs_parsed(2)[OF doc]
  have "json_ws []" by (simp add: json_ws_def)
  then have b: "body_parsed PARSER_JSON_ARRAY_ELEM elem_sep t (0x5D # rest) (length vs)" for rest using p by fastforce
  then show "eats json_core ?t rest (effect_nested JSON_TYPE_ARRAY (1 + length w) (length t) (length vs))" for rest
    using p by (intro eats_core_array[OF ws(3) eats_body]) auto
  have n: "0 < length vs" using b[of "[]"] by (auto simp: body_parsed_def)
  fix m buf a rest
  assume c: "contents m buf = ?t @ rest" "buf_data buf + buf_len buf < 2 ^ 64" "arena_ok a" "span buf (length ?t) \<inter> arena_free a = {}"
  let ?C = "\<lparr>buf_data = buf_data buf + (1 + length w), buf_len = length t\<rparr>"
  note nc = nested_content[OF c(1,2)]
  have sub: "span ?C (length t) \<subseteq> span buf (length ?t)" using nc(3) by simp
  then have dis: "span ?C (length t) \<inter> arena_free a = {}" using c(4) by blast
  have end': "ends_well m ?C (arena_free a)" using nc(4)[OF _ c(4)] by (simp add: num_stop_def is_digit_def)
  have "buf_data ?C + buf_len ?C < 2 ^ 64" using nc(2) by simp
  from array_decoded[OF items n fits nc(1) this c(3) dis end'] decoded_nested[OF sub]
  show "\<exists>r a' m'. (\<forall>\<^sub>F n in sequentially. decode_json_val n pruned (take_json_val n pruned)
        (effect_nested JSON_TYPE_ARRAY (1 + length w) (length t) (length vs) (buf_data buf) PARSE_RESULT_INIT) a True m = Some (r, a', m')) \<and>
      agree_off (span buf (length ?t) \<union> arena_free a) m m' \<and> decoded (VList vs) (span buf (length ?t)) a r a' m'"
    by (simp add: decode_json_val_def effect_nested_def PARSE_RESULT_INIT_def) blast
qed (simp_all add: ws_bytes_def)

lemma decodes_empty_list:
  assumes "json_ws w0" "json_ws w1" "json_ws w"
  shows "decodes pruned (VList []) (w0 @ ([0x5B] @ w @ [0x5D]) @ w1)"
proof -
  obtain x where x: "gg_obj_list \<lparr>list_items = NULL, list_len = 0\<rparr> = Some x" "length x = obj_size"
    using list_object[of 0 "[]" _ "{}"] by auto
  then have v: "val_blk m x (VList [])" "blk_foot m x (VList []) = {}" for m using into_obj_list[OF x(1)] by simp_all
  show ?thesis
    by (rule decodes_scalar[OF assms(1,2) eats_core_empty(1)[OF assms(3)] _ _ _ x(2) v])
      (simp_all add: ws_bytes_def decode_json_val_def effect_nested_def PARSE_RESULT_INIT_def decode_json_array_def x(1))
qed

section \<open>Objects\<close>

text \<open>A pair in memory, whose references stay within \<open>S\<close>.\<close>

definition kv_at :: "addr set \<Rightarrow> mem \<Rightarrow> addr \<Rightarrow> bytes \<times> gg_val \<Rightarrow> bool" where
  "kv_at S m q kv \<longleftrightarrow> kv_blk m (rd m q kv_size) kv \<and> kv_refs m (rd m q kv_size) kv \<subseteq> S"

lemma kv_stays:
  assumes "kv_at S m q kv" "agree_off W m m'" "({q..<q + kv_size} \<union> S) \<inter> W = {}"
  shows "kv_at S m' q kv"
proof -
  have "rd m' q kv_size = rd m q kv_size" using assms(3) by (intro rd_off[OF assms(2)]) blast
  moreover have "agree_on (kv_refs m (rd m q kv_size) kv) m m'"
    using assms(1,3) unfolding kv_at_def by (intro agree_off_on[OF assms(2)]) blast
  ultimately show ?thesis using assms(1) kv_blk_frame kv_refs_frame unfolding kv_at_def by metis
qed

lemma kv_at_mono: "kv_at S m q kv \<Longrightarrow> S \<subseteq> S' \<Longrightarrow> kv_at S' m q kv"
  by (auto simp: kv_at_def)

lemma kv_arr_Suc: "kv_arr m p (Suc n) = rd m p kv_size # kv_arr m (p + kv_size) n"
  by (rule nth_equalityI) (auto simp: nth_Cons' algebra_simps)

lemma pairs_Cons:
  assumes "kv_at S m q kv" "kvs_at m (q + kv_size) kvs" "kvs_within S m (q + kv_size) kvs"
  shows "kvs_at m q (kv # kvs)" "kvs_within S m q (kv # kvs)"
  using assms by (simp_all add: kvs_at_conv kvs_within_def kv_arr_Suc kv_at_def)

lemma kvs_within_mono: "kvs_within S m p kvs \<Longrightarrow> S \<subseteq> S' \<Longrightarrow> kvs_within S' m p kvs"
  unfolding kvs_within_def by (erule list_all2_mono) blast

lemma key_step:
  assumes "decodes pruned (VBuf k) d" "contents m buf = d @ rest" "val_ends rest" "buf_data buf + buf_len buf < 2 ^ 64" "arena_ok a"
    "span buf (length d) \<inter> arena_free a = {}"
  obtains ko key m1 where "\<forall>\<^sub>F n in sequentially. take_json_val n pruned buf a True m = Some (Inr (Some ko), advance buf (length d), a, m1)"
    "agree_off (span buf (length d) \<union> arena_free a) m m1" "gg_obj_type ko = Some GG_TYPE_BUF" "gg_obj_into_buf ko = Some key"
    "buf_len key < 65536" "buf_data key < 2 ^ 64" "contents m1 key = k" "span key (length k) \<subseteq> span buf (length d)"
proof -
  obtain r a' m1 where 1: "\<forall>\<^sub>F n in sequentially. take_json_val n pruned buf a True m = Some (r, advance buf (length d), a', m1)"
    "agree_off (span buf (length d) \<union> arena_free a) m m1" "decoded (VBuf k) (span buf (length d)) a r a' m1"
    using decodesD[OF assms(1-3) _ assms(4-6)] by (auto simp: f64_stops_def)
  from 1(3) obtain ko where ko: "r = Inr (Some ko)" "a' = a" "length ko = obj_size" "val_blk m1 ko (VBuf k)"
    "blk_foot m1 ko (VBuf k) \<subseteq> span buf (length d)" unfolding decoded_def by auto
  then obtain key where key: "gg_obj_into_buf ko = Some key" "contents m1 key = k" by (auto split: option.splits)
  have "buf_data key < 2 ^ 64" using into_val(1)[OF key(1)] le_val_bound[of "take 8 ko"] ko(3) by simp
  with that[OF _ 1(2) into_type(4)[OF key(1)] key(1) into_len_bound(1)[OF key(1)] _ key(2)] 1(1) ko into_val(1)[OF key(1)]
  show thesis by (simp add: Let_def)
qed

lemma key_header:
  assumes "buf_len key < 65536" "buf_data key < 2 ^ 64"
  shows "gg_kv_key (le_bytes 8 (buf_data key) @ le_bytes 2 (buf_len key) @ x) = key"
    "take 8 (le_bytes 8 (buf_data key) @ le_bytes 2 (buf_len key) @ x) = le_bytes 8 (buf_data key)"
  using assms by (simp_all add: gg_kv_key_def)

lemma pair_built:
  assumes key: "buf_len key < 65536" "buf_data key < 2 ^ 64" "contents m key = k" "span key (length k) \<subseteq> S"
    and x: "length x = obj_size" "val_blk m x v" "blk_foot m x v \<subseteq> S" and S: "S \<inter> {q..<q + kv_size} = {}"
    and hdr: "rd m q 10 = le_bytes 8 (buf_data key) @ le_bytes 2 (buf_len key)"
  shows "kv_at S (wr m (q + 10) x) q (k, v)"
proof -
  let ?m = "wr m (q + 10) x" and ?h = "le_bytes 8 (buf_data key) @ le_bytes 2 (buf_len key)"
  have off: "agree_off {q..<q + kv_size} m ?m" using x(1) by (intro agree_off_wr) auto
  have "rd ?m q (10 + 11) = rd m q 10 @ x" unfolding rd_add using x(1) by (simp add: rd_wr_disjoint rd_wr_same')
  then have blk: "rd ?m q kv_size = le_bytes 8 (buf_data key) @ le_bytes 2 (buf_len key) @ x" using hdr by simp
  have "span key (length k) \<inter> {q..<q + kv_size} = {}" using key(4) S by blast
  then have "span key (buf_len key) \<inter> {q..<q + kv_size} = {}" unfolding contents_length[OF key(3)] .
  from span_off[OF off this] have "contents ?m key = k" using key(3) by simp
  moreover note val_stays[OF x(2,3) off S]
  ultimately show ?thesis using key(1,2,4) unfolding kv_at_def blk kv_blk_def kv_refs_def key_header[OF key(1,2)] by (simp add: Let_def)
qed

text \<open>One turn of the loop over the pairs, up to the separator.\<close>

definition pair_turn :: "GgBuffer \<Rightarrow> addr \<Rightarrow> nat \<Rightarrow> GgBuffer \<Rightarrow> GgArena \<Rightarrow> mem \<Rightarrow> GgBuffer \<Rightarrow> GgArena \<Rightarrow> mem \<Rightarrow> bool" where
  "pair_turn pruned pairs i buf a m buf' a' m' \<longleftrightarrow> (\<forall>\<^sub>F n in sequentially. \<forall>j.
     object_loop (take_json_val n pruned) pairs i (Suc j) buf a m =
       (if j = 0 then Some (GG_ERR_OK, a', m')
        else case parser_char_fn (chr CHR '','') m' buf' of (matches, buf'') \<Rightarrow>
          if \<not> matches then Some (GG_ERR_PARSE, a', m') else object_loop (take_json_val n pruned) pairs (i + 1) j buf'' a' m'))"

definition pair_fails :: "GgBuffer \<Rightarrow> addr \<Rightarrow> nat \<Rightarrow> GgBuffer \<Rightarrow> GgArena \<Rightarrow> mem \<Rightarrow> GgArena \<Rightarrow> mem \<Rightarrow> bool" where
  "pair_fails pruned pairs i buf a m a' m' \<longleftrightarrow> (\<forall>\<^sub>F n in sequentially. \<forall>j.
     object_loop (take_json_val n pruned) pairs i (Suc j) buf a m = Some (GG_ERR_NOMEM, a', m'))"

lemma pair_key:
  assumes key: "decodes pruned (VBuf k) dk" and c: "contents m buf = dk @ [0x3A] @ ys" "buf_data buf + buf_len buf < 2 ^ 64" "arena_ok a"
    and dis: "span buf (buf_len buf) \<inter> arena_free a = {}" "{q..<q + kv_size} \<inter> (span buf (buf_len buf) \<union> arena_free a) = {}"
  obtains ko key pair m1 where
    "\<forall>\<^sub>F n in sequentially. take_json_val n pruned buf a True m = Some (Inr (Some ko), advance buf (length dk), a, m1)"
    "gg_obj_type ko = Some GG_TYPE_BUF" "gg_obj_into_buf ko = Some key" "gg_kv_set_key (rd m1 q kv_size) key = Some pair"
    "buf_len key < 65536" "buf_data key < 2 ^ 64" "contents (wr m1 q pair) key = k" "span key (length k) \<subseteq> span buf (length dk)"
    "rd (wr m1 q pair) q 10 = le_bytes 8 (buf_data key) @ le_bytes 2 (buf_len key)"
    "agree_off ({q..<q + kv_size} \<union> (span buf (length dk) \<union> arena_free a)) m (wr m1 q pair)"
proof -
  let ?T = "span buf (length dk)" and ?Q = "{q..<q + kv_size}"
  have sub: "?T \<subseteq> span buf (buf_len buf)" using arg_cong[OF c(1), of length] by auto
  have e: "val_ends ([0x3A] @ ys)" by (simp add: val_ends_def)
  have d: "?T \<inter> arena_free a = {}" using dis(1) sub by blast
  obtain ko key m1 where k: "\<forall>\<^sub>F n in sequentially. take_json_val n pruned buf a True m = Some (Inr (Some ko), advance buf (length dk), a, m1)"
    "agree_off (?T \<union> arena_free a) m m1" "gg_obj_type ko = Some GG_TYPE_BUF" "gg_obj_into_buf ko = Some key"
    "buf_len key < 65536" "buf_data key < 2 ^ 64" "contents m1 key = k" "span key (length k) \<subseteq> ?T"
    by (rule key_step[OF key c(1) e c(2,3) d])
  define pair where "pair = le_bytes 8 (buf_data key) @ le_bytes 2 (buf_len key) @ drop 10 (rd m1 q kv_size)"
  have len: "length pair = kv_size" by (simp add: pair_def)
  have wr: "agree_off ?Q m1 (wr m1 q pair)" using len by (intro agree_off_wr) simp
  have "span key (length k) \<inter> ?Q = {}" using k(8) sub dis(2) by blast
  then have "span key (buf_len key) \<inter> ?Q = {}" unfolding contents_length[OF k(7)] .
  from span_off[OF wr this] have "contents (wr m1 q pair) key = k" using k(7) by simp
  moreover have "rd (wr m1 q pair) q 10 = take 10 pair" using len by (simp add: rd_wr_inner)
  moreover have "agree_off (?Q \<union> (?T \<union> arena_free a)) m (wr m1 q pair)"
    by (rule agree_off_trans[OF agree_off_mono[OF k(2)] agree_off_mono[OF wr]]) auto
  ultimately show thesis using that[OF k(1,3,4) _ k(5,6) _ k(8)] gg_kv_layout[OF k(5), of "rd m1 q kv_size"] by (simp add: pair_def)
qed

lemma pair_step:
  assumes key: "decodes pruned (VBuf k) dk" and val: "decodes pruned v dv"
    and c: "contents m buf = dk @ [0x3A] @ dv @ rest" "val_ends rest" "buf_data buf + buf_len buf < 2 ^ 64" "arena_ok a"
    and p: "pairs \<noteq> NULL" "q = pairs + kv_size * i"
    and dis: "span buf (buf_len buf) \<inter> arena_free a = {}" "{q..<q + kv_size} \<inter> (span buf (buf_len buf) \<union> arena_free a) = {}"
    and stops: "ends_well m buf ({q..<q + kv_size} \<union> arena_free a)"
  obtains (nomem) a' m' where "arena_avail a < json_need v" "pair_fails pruned pairs i buf a m a' m'"
      "agree_off ({q..<q + kv_size} \<union> (span buf (length (dk @ [0x3A] @ dv)) \<union> arena_free a)) m m'"
  | (ok) m' where "json_need v \<le> arena_avail a"
      "pair_turn pruned pairs i buf a m (advance buf (length (dk @ [0x3A] @ dv))) (adv a (json_need v)) m'"
      "agree_off ({q..<q + kv_size} \<union> (span buf (length (dk @ [0x3A] @ dv)) \<union> arena_free a)) m m'"
      "kv_at (span buf (length (dk @ [0x3A] @ dv)) \<union> taken a (json_need v)) m' q (k, canon_val v)"
proof -
  let ?Q = "{q..<q + kv_size}" and ?B = "span buf (buf_len buf)" and ?Tk = "span buf (length dk)" and ?b = "advance buf (length dk + 1)"
  let ?Tv = "span ?b (length dv)" and ?T = "span buf (length (dk @ [0x3A] @ dv))"
  obtain ko key pair m1 where k: "\<forall>\<^sub>F n in sequentially. take_json_val n pruned buf a True m = Some (Inr (Some ko), advance buf (length dk), a, m1)"
    "gg_obj_type ko = Some GG_TYPE_BUF" "gg_obj_into_buf ko = Some key" "gg_kv_set_key (rd m1 q kv_size) key = Some pair"
    "buf_len key < 65536" "buf_data key < 2 ^ 64" "contents (wr m1 q pair) key = k" "span key (length k) \<subseteq> ?Tk"
    "rd (wr m1 q pair) q 10 = le_bytes 8 (buf_data key) @ le_bytes 2 (buf_len key)"
    "agree_off (?Q \<union> (?Tk \<union> arena_free a)) m (wr m1 q pair)"
    by (rule pair_key[OF key c(1,3,4) dis])
  let ?m = "wr m1 q pair"
  have l: "buf_len buf = length (dk @ [0x3A] @ dv @ rest)" "buf_len buf \<le> SIZE_MAX"
    using arg_cong[OF c(1), of length] c(3) by (simp_all add: SIZE_MAX_def)
  have sub: "?Tk \<subseteq> ?T" "?Tv \<subseteq> ?T" "?T \<subseteq> ?B" "?Tk \<inter> ?Tv = {}" using l(1) by auto
  have "?Q \<inter> span buf (length (dk @ [0x3A] @ dv @ rest)) = {}" "arena_free a \<inter> span buf (length (dk @ [0x3A] @ dv @ rest)) = {}"
    using dis unfolding l(1) by blast+
  note colon = rest_untouched(1)[OF c(1) k(10) this]
  have sep: "parser_char_fn 0x3A ?m (advance buf (length dk)) = (True, ?b)" using parser_char_ok[OF colon] l(2) by simp
  have cv: "contents ?m ?b = dv @ rest" using contents_rest[of ?m "advance buf (length dk)" "[0x3A]" "dv @ rest"] colon by simp
  have b: "buf_data ?b + buf_len ?b < 2 ^ 64" using c(3) l(1) by simp
  have "?Tv \<inter> arena_free a = {}" using dis(1) sub by blast
  moreover have "ends_well ?m ?b {}" by (rule ends_well_advance[OF stops k(10)]) (use l(1) in auto)
  ultimately obtain r a' m3 where
    v: "\<forall>\<^sub>F n in sequentially. take_json_val n pruned ?b a True ?m = Some (r, advance ?b (length dv), a', m3)"
      "agree_off (?Tv \<union> arena_free a) ?m m3" "decoded v ?Tv a r a' m3" using decodesD[OF val cv c(2) ends_well_stops b c(4)] by blast
  have f3: "agree_off (?Q \<union> (?T \<union> arena_free a)) m m3"
    by (rule agree_off_trans[OF agree_off_mono[OF k(10)] agree_off_mono[OF v(2)]]) (use sub in blast)+
  from v(3) show thesis
  proof (cases rule: decodedE)
    case nm: nomem
    have "pair_fails pruned pairs i buf a m a' m3" unfolding pair_fails_def
      using k(1) v(1) by eventually_elim (use nm k(2-4) p sep in simp)
    then show thesis using nomem nm(1) f3 by blast
  next
    case x: (ok x)
    let ?m4 = "wr m3 (q + 10) x" and ?S = "?T \<union> taken a (json_need v)"
    have "pair_turn pruned pairs i buf a m (advance buf (length (dk @ [0x3A] @ dv))) a' ?m4" unfolding pair_turn_def
      using k(1) v(1) by eventually_elim (use x(3) k(2-4) p sep in \<open>simp add: store_def gg_kv_val_def Let_def add.commute add.left_commute split: prod.split\<close>)
    moreover have "agree_off (?Q \<union> (?T \<union> arena_free a)) m ?m4"
      by (rule agree_off_trans[OF f3 agree_off_wr]) (use x(4) in auto)
    moreover have "kv_at ?S ?m4 q (k, canon_val v)"
    proof (rule pair_built[OF k(5,6) _ _ x(4,5)])
      have "span key (length k) \<inter> (?Tv \<union> arena_free a) = {}" using k(8) sub dis(1) by blast
      then have "span key (buf_len key) \<inter> (?Tv \<union> arena_free a) = {}" unfolding contents_length[OF k(7)] .
      from span_off[OF v(2) this] show "contents m3 key = k" using k(7) by simp
      show "rd m3 q 10 = le_bytes 8 (buf_data key) @ le_bytes 2 (buf_len key)"
        unfolding k(9)[symmetric] by (rule rd_off[OF v(2)]) (use dis(2) sub in fastforce)
      show "span key (length k) \<subseteq> ?S" "blk_foot m3 x (canon_val v) \<subseteq> ?S" using k(8) sub x(6) by blast+
      show "?S \<inter> {q..<q + kv_size} = {}" using taken_sub(1)[OF x(1) c(4)] dis(2) sub by blast
    qed
    ultimately show thesis using ok[OF x(1)] x(2) by blast
  qed
qed

definition pairs_decoded :: "(bytes \<times> gg_val) list \<Rightarrow> addr set \<Rightarrow> addr \<Rightarrow> GgArena \<Rightarrow> GgError \<Rightarrow> GgArena \<Rightarrow> mem \<Rightarrow> bool" where
  "pairs_decoded kvs T q a r a' m' \<longleftrightarrow>
     (if pairs_need kvs \<le> arena_avail a
      then r = GG_ERR_OK \<and> a' = adv a (pairs_need kvs) \<and> kvs_at m' q (canon_pairs kvs) \<and>
        kvs_within (T \<union> taken a (pairs_need kvs)) m' q (canon_pairs kvs)
      else r = GG_ERR_NOMEM)"

definition pairs_decode :: "GgBuffer \<Rightarrow> (bytes \<times> gg_val) list \<Rightarrow> bytes \<Rightarrow> bool" where
  "pairs_decode pruned kvs d \<longleftrightarrow> (\<forall>m buf a pairs i q. contents m buf = d \<longrightarrow> buf_data buf + buf_len buf < 2 ^ 64 \<longrightarrow>
     arena_ok a \<longrightarrow> pairs \<noteq> NULL \<longrightarrow> q = pairs + kv_size * i \<longrightarrow> span buf (length d) \<inter> arena_free a = {} \<longrightarrow>
     {q..<q + kv_size * length kvs} \<inter> (span buf (length d) \<union> arena_free a) = {} \<longrightarrow>
     ends_well m buf ({q..<q + kv_size * length kvs} \<union> arena_free a) \<longrightarrow>
     (\<exists>r a' m'. (\<forall>\<^sub>F n in sequentially. object_loop (take_json_val n pruned) pairs i (length kvs) buf a m = Some (r, a', m')) \<and>
        agree_off ({q..<q + kv_size * length kvs} \<union> (span buf (length d) \<union> arena_free a)) m m' \<and>
        pairs_decoded kvs (span buf (length d)) q a r a' m'))"

lemma pairs_decodeD:
  assumes "pairs_decode pruned kvs d" "contents m buf = d" "buf_data buf + buf_len buf < 2 ^ 64" "arena_ok a" "pairs \<noteq> NULL"
    "q = pairs + kv_size * i" "span buf (length d) \<inter> arena_free a = {}"
    "{q..<q + kv_size * length kvs} \<inter> (span buf (length d) \<union> arena_free a) = {}"
    "ends_well m buf ({q..<q + kv_size * length kvs} \<union> arena_free a)"
  obtains r a' m' where "\<forall>\<^sub>F n in sequentially. object_loop (take_json_val n pruned) pairs i (length kvs) buf a m = Some (r, a', m')"
    "agree_off ({q..<q + kv_size * length kvs} \<union> (span buf (length d) \<union> arena_free a)) m m'"
    "pairs_decoded kvs (span buf (length d)) q a r a' m'"
  using assms unfolding pairs_decode_def by blast

lemma pairs_last:
  assumes key: "decodes pruned (VBuf k) dk" and val: "decodes pruned v dv"
  shows "pairs_decode pruned [(k, v)] (dk @ [0x3A] @ dv)"
  unfolding pairs_decode_def
proof (intro allI impI)
  fix m buf a pairs i q
  let ?d = "dk @ [0x3A] @ dv" let ?T = "span buf (length ?d)" and ?Q = "{q..<q + kv_size * length [(k, v)]}"
  assume c: "contents m buf = ?d" "buf_data buf + buf_len buf < 2 ^ 64" "arena_ok a" "pairs \<noteq> NULL" "q = pairs + kv_size * i"
    "?T \<inter> arena_free a = {}" "?Q \<inter> (?T \<union> arena_free a) = {}" "ends_well m buf (?Q \<union> arena_free a)"
  have stops: "ends_well m buf ({q..<q + kv_size} \<union> arena_free a)" using c(8) by simp
  have t: "contents m buf = dk @ [0x3A] @ dv @ []" "val_ends []" using c(1) by (simp_all add: val_ends_def)
  have dis: "span buf (buf_len buf) \<inter> arena_free a = {}" "{q..<q + kv_size} \<inter> (span buf (buf_len buf) \<union> arena_free a) = {}"
    using c(6,7) unfolding contents_length[OF c(1)] by simp_all
  show "\<exists>r a' m'. (\<forall>\<^sub>F n in sequentially. object_loop (take_json_val n pruned) pairs i (length [(k, v)]) buf a m = Some (r, a', m')) \<and>
      agree_off (?Q \<union> (?T \<union> arena_free a)) m m' \<and> pairs_decoded [(k, v)] ?T q a r a' m'"
  proof (rule pair_step[OF key val t c(2-5) dis stops])
    fix a' m' assume 1: "arena_avail a < json_need v" "pair_fails pruned pairs i buf a m a' m'"
      "agree_off ({q..<q + kv_size} \<union> (?T \<union> arena_free a)) m m'"
    have "\<forall>\<^sub>F n in sequentially. object_loop (take_json_val n pruned) pairs i (length [(k, v)]) buf a m = Some (GG_ERR_NOMEM, a', m')"
      using 1(2) unfolding pair_fails_def by eventually_elim (simp del: object_loop.simps)
    moreover have "pairs_decoded [(k, v)] ?T q a GG_ERR_NOMEM a' m'" using 1(1) by (simp add: pairs_decoded_def)
    moreover have "agree_off (?Q \<union> (?T \<union> arena_free a)) m m'" using 1(3) by simp
    ultimately show ?thesis by blast
  next
    fix m' assume 1: "json_need v \<le> arena_avail a" "pair_turn pruned pairs i buf a m (advance buf (length ?d)) (adv a (json_need v)) m'"
      "agree_off ({q..<q + kv_size} \<union> (?T \<union> arena_free a)) m m'" "kv_at (?T \<union> taken a (json_need v)) m' q (k, canon_val v)"
    have "\<forall>\<^sub>F n in sequentially. object_loop (take_json_val n pruned) pairs i (length [(k, v)]) buf a m = Some (GG_ERR_OK, adv a (json_need v), m')"
      using 1(2) unfolding pair_turn_def by eventually_elim (simp del: object_loop.simps)
    moreover have "pairs_decoded [(k, v)] ?T q a GG_ERR_OK (adv a (json_need v)) m'"
      using 1(1) pairs_Cons[OF 1(4), of "[]"] by (simp add: pairs_decoded_def kvs_within_def kv_arr_def)
    moreover have "agree_off (?Q \<union> (?T \<union> arena_free a)) m m'" using 1(3) by simp
    ultimately show ?thesis by blast
  qed
qed

lemma pairs_decoded_Cons:
  assumes "pairs_decoded kvs T2 (q + kv_size) (adv a (json_need v)) r a2 m2" "kv_at (T1 \<union> taken a (json_need v)) m2 q (k, canon_val v)"
    "json_need v \<le> arena_avail a" "T1 \<subseteq> T" "T2 \<subseteq> T"
  shows "pairs_decoded ((k, v) # kvs) T q a r a2 m2"
proof (cases "pairs_need ((k, v) # kvs) \<le> arena_avail a")
  case True
  let ?S = "T \<union> taken a (pairs_need ((k, v) # kvs))"
  have "pairs_need kvs \<le> arena_avail (adv a (json_need v))" using True by simp
  with assms(1) have 1: "r = GG_ERR_OK" "a2 = adv a (pairs_need ((k, v) # kvs))" "kvs_at m2 (q + kv_size) (canon_pairs kvs)"
    "kvs_within (T2 \<union> taken (adv a (json_need v)) (pairs_need kvs)) m2 (q + kv_size) (canon_pairs kvs)"
    unfolding pairs_decoded_def by simp_all
  have tk: "taken a (json_need v) \<union> taken (adv a (json_need v)) (pairs_need kvs) = taken a (pairs_need ((k, v) # kvs))"
    using adv_disjoint(3)[of a "json_need v" "pairs_need kvs"] by simp
  have "kv_at ?S m2 q (k, canon_val v)" by (rule kv_at_mono[OF assms(2)]) (use tk assms(4) in blast)
  moreover have "kvs_within ?S m2 (q + kv_size) (canon_pairs kvs)" by (rule kvs_within_mono[OF 1(4)]) (use tk assms(5) in blast)
  ultimately show ?thesis using 1 True pairs_Cons[of ?S m2 q "(k, canon_val v)" "canon_pairs kvs"] unfolding pairs_decoded_def by simp
next
  case False
  with assms(1,3) show ?thesis by (simp add: pairs_decoded_def)
qed

lemma pairs_more:
  assumes key: "decodes pruned (VBuf k) dk" and val: "decodes pruned v dv" and kvs: "pairs_decode pruned kvs d2" "kvs \<noteq> []"
  shows "pairs_decode pruned ((k, v) # kvs) ((dk @ [0x3A] @ dv) @ [0x2C] @ d2)"
  unfolding pairs_decode_def
proof (intro allI impI)
  fix m buf a pairs i q
  let ?d1 = "dk @ [0x3A] @ dv" let ?d = "?d1 @ [0x2C] @ d2" let ?T = "span buf (length ?d)" and ?Q = "{q..<q + kv_size * length ((k, v) # kvs)}"
  let ?T1 = "span buf (length ?d1)" and ?b2 = "advance buf (length ?d1 + 1)" and ?Q1 = "{q..<q + kv_size}" let ?T2 = "span ?b2 (length d2)"
  assume c: "contents m buf = ?d" "buf_data buf + buf_len buf < 2 ^ 64" "arena_ok a" "pairs \<noteq> NULL" "q = pairs + kv_size * i"
    "?T \<inter> arena_free a = {}" "?Q \<inter> (?T \<union> arena_free a) = {}" "ends_well m buf (?Q \<union> arena_free a)"
  have stops: "ends_well m buf (?Q1 \<union> arena_free a)" using c(8) by (auto simp: ends_well_def)
  have t: "contents m buf = dk @ [0x3A] @ dv @ [0x2C] @ d2" "val_ends ([0x2C] @ d2)" using c(1) by (simp_all add: val_ends_def)
  have T: "?T1 \<subseteq> ?T" "?T2 \<subseteq> ?T" "?T2 \<inter> ?T1 = {}" by auto
  have Q1: "?Q1 \<subseteq> ?Q" by auto
  have dis: "span buf (buf_len buf) \<inter> arena_free a = {}" "?Q1 \<inter> (span buf (buf_len buf) \<union> arena_free a) = {}"
    using c(6,7) Q1 unfolding contents_length[OF c(1)] by blast+
  show "\<exists>r a' m'. (\<forall>\<^sub>F n in sequentially. object_loop (take_json_val n pruned) pairs i (length ((k, v) # kvs)) buf a m = Some (r, a', m')) \<and>
      agree_off (?Q \<union> (?T \<union> arena_free a)) m m' \<and> pairs_decoded ((k, v) # kvs) ?T q a r a' m'"
  proof (rule pair_step[OF key val t c(2-5) dis stops])
    fix a' m' assume 1: "arena_avail a < json_need v" "pair_fails pruned pairs i buf a m a' m'"
      "agree_off (?Q1 \<union> (?T1 \<union> arena_free a)) m m'"
    have "\<forall>\<^sub>F n in sequentially. object_loop (take_json_val n pruned) pairs i (length ((k, v) # kvs)) buf a m = Some (GG_ERR_NOMEM, a', m')"
      using 1(2) unfolding pair_fails_def by eventually_elim (simp del: object_loop.simps)
    moreover have "pairs_decoded ((k, v) # kvs) ?T q a GG_ERR_NOMEM a' m'" using 1(1) by (simp add: pairs_decoded_def)
    moreover have "agree_off (?Q \<union> (?T \<union> arena_free a)) m m'" by (rule agree_off_mono[OF 1(3)]) (use T Q1 in blast)
    ultimately show ?thesis by blast
  next
    let ?a = "adv a (json_need v)" and ?q2 = "q + kv_size" let ?Q2 = "{?q2..<?q2 + kv_size * length kvs}"
    fix m1 assume 1: "json_need v \<le> arena_avail a" "pair_turn pruned pairs i buf a m (advance buf (length ?d1)) ?a m1"
      "agree_off (?Q1 \<union> (?T1 \<union> arena_free a)) m m1" "kv_at (?T1 \<union> taken a (json_need v)) m1 q (k, canon_val v)"
    have Q: "?Q2 \<subseteq> ?Q" "?Q1 \<inter> ?Q2 = {}" by auto
    have "?Q1 \<inter> ?T = {}" "arena_free a \<inter> ?T = {}" using c(6,7) Q1 by blast+
    note rest = rest_untouched(1)[OF c(1) 1(3) this]
    have "buf_len (advance buf (length ?d1)) \<le> SIZE_MAX" using c(2) by (simp add: SIZE_MAX_def)
    then have sep: "parser_char_fn 0x2C m1 (advance buf (length ?d1)) = (True, ?b2)" using parser_char_ok[OF rest] by simp
    have d2: "contents m1 ?b2 = d2" using contents_rest[of m1 "advance buf (length ?d1)" "[0x2C]" d2] rest by simp
    have b2: "buf_data ?b2 + buf_len ?b2 < 2 ^ 64" using c(2) contents_length[OF c(1)] by simp
    have ok: "arena_ok ?a" and q2: "?q2 = pairs + kv_size * (i + 1)" using c(3,5) 1(1) by simp_all
    have dis2: "?T2 \<inter> arena_free ?a = {}" "?Q2 \<inter> (?T2 \<union> arena_free ?a) = {}"
      using c(6,7) T Q adv_disjoint(1)[of a "json_need v"] by blast+
    have end2: "ends_well m1 ?b2 (?Q2 \<union> arena_free ?a)"
      by (rule ends_well_advance[OF c(8) 1(3)]) (use contents_length[OF c(1)] Q Q1 adv_disjoint(1)[of a "json_need v"] in auto)
    obtain r2 a2 m2 where
      2: "\<forall>\<^sub>F n in sequentially. object_loop (take_json_val n pruned) pairs (i + 1) (length kvs) ?b2 ?a m1 = Some (r2, a2, m2)"
        "agree_off (?Q2 \<union> (?T2 \<union> arena_free ?a)) m1 m2" "pairs_decoded kvs ?T2 ?q2 ?a r2 a2 m2"
      by (rule pairs_decodeD[OF kvs(1) d2 b2 ok c(4) q2 dis2 end2])
    have "\<forall>\<^sub>F n in sequentially. object_loop (take_json_val n pruned) pairs i (length ((k, v) # kvs)) buf a m = Some (r2, a2, m2)"
      using 1(2)[unfolded pair_turn_def] 2(1) by eventually_elim (use kvs(2) sep in \<open>simp del: object_loop.simps\<close>)
    moreover have "agree_off (?Q \<union> (?T \<union> arena_free a)) m m2"
      by (rule agree_off_trans[OF agree_off_mono[OF 1(3)] agree_off_mono[OF 2(2)]]) (use T Q Q1 adv_disjoint(1)[of a "json_need v"] in blast)+
    moreover have "(?Q1 \<union> (?T1 \<union> taken a (json_need v))) \<inter> (?Q2 \<union> (?T2 \<union> arena_free ?a)) = {}"
      using c(6,7) T Q Q1 taken_sub(1)[OF 1(1) c(3)] adv_disjoint(1,2)[of a "json_need v"] by blast
    from pairs_decoded_Cons[OF 2(3) kv_stays[OF 1(4) 2(2) this] 1(1) T(1,2)] have "pairs_decoded ((k, v) # kvs) ?T q a r2 a2 m2" .
    ultimately show ?thesis by blast
  qed
qed

lemma decode_object_nomem:
  assumes "arena_ok a" "0 < n" "n < 65536" "arena_avail a < kv_size * n"
  shows "decode_json_object pruned tk content n a True m = Some (Inl GG_ERR_NOMEM, a, m)"
  using assms alloc_n_result[of a n kv_size] by (simp add: decode_json_object_def)

lemma decode_object_run:
  assumes "arena_ok a" "0 < n" "n < 65536" "kv_size * n \<le> arena_avail a"
    "object_loop tk (bump a) 0 n content (adv a (kv_size * n)) m = Some (r, a', m')"
  shows "decode_json_object pruned tk content n a True m =
    (if r \<noteq> GG_ERR_OK then Some (Inl r, a', m')
     else do {
       (m'', mp) \<leftarrow> gg_map_canonicalize_shallow pruned m' \<lparr>map_pairs = bump a, map_len = n\<rparr>;
       x \<leftarrow> gg_obj_map mp;
       Some (Inr (Some x), a', m'')
     })"
  using assms alloc_n_result[of a n kv_size] alloc_adv(2)[OF assms(1)] by (auto simp: decode_json_object_def)

lemma kvs_foot_within: "kvs_within S m p kvs \<Longrightarrow> kvs_foot m p kvs \<subseteq> arr_reg p (length kvs) \<union> S"
proof (induction kvs arbitrary: p)
  case (Cons kv kvs)
  obtain k v where kv: "kv = (k, v)" by (cases kv)
  have "kv_refs m (rd m p kv_size) kv \<subseteq> S" "kvs_within S m (p + kv_size) kvs"
    using Cons.prems by (simp_all add: kvs_within_def kv_arr_Suc)
  moreover have "arr_reg (p + kv_size) (length kvs) \<subseteq> arr_reg p (length (kv # kvs))" "{p..<p + kv_size} \<subseteq> arr_reg p (length (kv # kvs))" by auto
  moreover have "kv_refs m (rd m p kv_size) kv = (let d = le_val (take 8 (rd m p kv_size)) in {d..<d + length k}) \<union> blk_foot m (rd m (gg_kv_val p) obj_size) v"
    by (simp add: kv_refs_def kv gg_kv_val_def)
  ultimately show ?case unfolding kv kvs_foot.simps using Cons.IH[of "p + kv_size"] by blast
qed simp

lemma map_object:
  assumes "buf_len pruned < 65536" "p < 2 ^ 64" "length kvs < 65536" "kvs_at m p kvs" "kvs_within S m p kvs" "S \<inter> arr_reg p (length kvs) = {}"
  shows "\<exists>m' mp x. gg_map_canonicalize_shallow pruned m \<lparr>map_pairs = p, map_len = length kvs\<rparr> = Some (m', mp) \<and> gg_obj_map mp = Some x \<and>
    length x = obj_size \<and> val_blk m' x (VMap (map_canon kvs)) \<and> blk_foot m' x (VMap (map_canon kvs)) \<subseteq> arr_reg p (length kvs) \<union> S \<and>
    agree_off (arr_reg p (length kvs)) m m'"
proof -
  let ?val = "\<lparr>map_pairs = p, map_len = length kvs\<rparr>" and ?kvs = "map_canon kvs"
  obtain m' mp where r: "gg_map_canonicalize_shallow pruned m ?val = Some (m', mp)" "map_pairs mp = p" "map_len mp = length ?kvs"
    "kvs_at m' p ?kvs" "kvs_within S m' p ?kvs" "agree_off (arr_reg p (length kvs)) m m'"
    using canonicalize_within[OF assms(1), of m ?val kvs S] assms(4-6) by (auto simp: canon_list_map)
  have l: "map_len mp < 65536" using length_map_canon[of kvs] assms(3) r(3) by simp
  then obtain x where x: "gg_obj_map mp = Some x" using gg_obj_fits(3)[of mp] by auto
  have i: "gg_obj_into_map x = Some mp" using into_obj_map[OF x] r(2) assms(2) by simp
  have "length x = obj_size" using x l by (auto simp: gg_obj_packed)
  moreover have "val_blk m' x (VMap ?kvs)" using i r(2-4) by simp
  moreover have "arr_reg p (length ?kvs) \<subseteq> arr_reg p (length kvs)" using length_map_canon[of kvs] by auto
  then have "blk_foot m' x (VMap ?kvs) \<subseteq> arr_reg p (length kvs) \<union> S"
    using kvs_foot_within[OF r(5)] into_val(3)[OF i] r(2) by auto
  ultimately show ?thesis using r(1,6) x by blast
qed

lemma object_decoded:
  assumes pr: "buf_len pruned < 65536" and pairs: "pairs_decode pruned kvs t" and n: "0 < length kvs" "length kvs < 65536"
    and c: "contents m C = t" "buf_data C + buf_len C < 2 ^ 64" "arena_ok a" "span C (length t) \<inter> arena_free a = {}" "ends_well m C (arena_free a)"
  shows "\<exists>r a' m'. (\<forall>\<^sub>F n in sequentially. decode_json_object pruned (take_json_val n pruned) C (length kvs) a True m = Some (r, a', m')) \<and>
      agree_off (span C (length t) \<union> arena_free a) m m' \<and> decoded (VMap kvs) (span C (length t)) a r a' m'"
proof (cases "kv_size * length kvs \<le> arena_avail a")
  case False
  then show ?thesis using decode_object_nomem[OF c(3) n]
    by (intro exI[of _ "Inl GG_ERR_NOMEM"] exI[of _ a] exI[of _ m]) (simp add: decoded_def)
next
  case room: True
  let ?n = "length kvs" and ?T = "span C (length t)"
  let ?a = "adv a (kv_size * ?n)" and ?Q = "taken a (kv_size * ?n)"
  have tk: "?Q \<subseteq> arena_free a" "?Q \<inter> arena_free ?a = {}" "arena_free ?a \<subseteq> arena_free a"
    using taken_sub(1)[OF room c(3)] adv_disjoint by blast+
  have ok: "arena_ok ?a" and base: "bump a = bump a + kv_size * 0" using c(3) room by simp_all
  have dis: "?T \<inter> arena_free ?a = {}" "?Q \<inter> (?T \<union> arena_free ?a) = {}" using c(4) tk by blast+
  have stop: "ends_well m C (?Q \<union> arena_free ?a)" using c(5) tk unfolding ends_well_def by blast
  obtain r a' m1 where
    1: "\<forall>\<^sub>F n in sequentially. object_loop (take_json_val n pruned) (bump a) 0 ?n C ?a m = Some (r, a', m1)"
      "agree_off (?Q \<union> (?T \<union> arena_free ?a)) m m1" "pairs_decoded kvs ?T (bump a) ?a r a' m1"
    by (rule pairs_decodeD[OF pairs c(1,2) ok alloc_adv(2)[OF c(3)] base dis stop])
  have frame: "agree_off (?T \<union> arena_free a) m m1" by (rule agree_off_mono[OF 1(2)]) (use tk in blast)
  show ?thesis
  proof (cases "pairs_need kvs \<le> arena_avail ?a")
    case True
    let ?S = "?T \<union> taken ?a (pairs_need kvs)"
    from True 1(3) have ok2: "r = GG_ERR_OK" "a' = adv a (json_need (VMap kvs))" "kvs_at m1 (bump a) (canon_pairs kvs)"
      "kvs_within ?S m1 (bump a) (canon_pairs kvs)" by (simp_all add: pairs_decoded_def)
    have "?S \<inter> ?Q = {}" using dis(2) taken_sub(1)[OF True ok] by blast
    then obtain m' mp x where
      x: "gg_map_canonicalize_shallow pruned m1 \<lparr>map_pairs = bump a, map_len = ?n\<rparr> = Some (m', mp)" "gg_obj_map mp = Some x" "length x = obj_size"
        "val_blk m' x (canon_val (VMap kvs))" "blk_foot m' x (canon_val (VMap kvs)) \<subseteq> ?Q \<union> ?S" "agree_off ?Q m1 m'"
      using map_object[OF pr alloc_adv(3)[OF c(3)] _ ok2(3,4)] n(2) by (auto simp del: val_blk.simps blk_foot.simps)
    have "?Q \<union> ?S = ?T \<union> taken a (json_need (VMap kvs))" using adv_disjoint(3)[of a "kv_size * ?n" "pairs_need kvs"] by auto
    with x(5) have foot: "blk_foot m' x (canon_val (VMap kvs)) \<subseteq> ?T \<union> taken a (json_need (VMap kvs))" by simp
    have "decoded (VMap kvs) ?T a (Inr (Some x)) a' m'" unfolding decoded_def using x(3,4) foot ok2(2) True room by simp
    moreover have "\<forall>\<^sub>F n in sequentially. decode_json_object pruned (take_json_val n pruned) C ?n a True m = Some (Inr (Some x), a', m')"
      using 1(1) by eventually_elim (use decode_object_run[OF c(3) n room] ok2(1) x(1,2) in simp)
    moreover have "agree_off (?T \<union> arena_free a) m m'" by (rule agree_off_trans[OF frame agree_off_mono[OF x(6)]]) (use tk in blast)
    ultimately show ?thesis by blast
  next
    case False
    with 1(3) have no: "r = GG_ERR_NOMEM" "decoded (VMap kvs) ?T a (Inl GG_ERR_NOMEM) a' m1" by (simp_all add: pairs_decoded_def decoded_def)
    have "\<forall>\<^sub>F n in sequentially. decode_json_object pruned (take_json_val n pruned) C ?n a True m = Some (Inl GG_ERR_NOMEM, a', m1)"
      using 1(1) by eventually_elim (use decode_object_run[OF c(3) n room] no(1) in simp)
    then show ?thesis using frame no(2) by blast
  qed
qed

lemma decodes_map:
  assumes pr: "buf_len pruned < 65536" and ws: "json_ws w0" "json_ws w1" "json_ws w" and doc: "pairs_doc kvs t" and pairs: "pairs_decode pruned kvs t"
    and fits: "length kvs < 65536"
  shows "decodes pruned (VMap kvs) (w0 @ ([0x7B] @ w @ t @ [0x7D]) @ w1)"
proof (rule decodesI[OF ws(1,2)])
  let ?t = "[0x7B] @ w @ t @ [0x7D]"
  note p = docs_parsed(3)[OF doc]
  then show "eats json_core ?t rest (effect_nested JSON_TYPE_OBJECT (1 + length w) (length t) (length kvs))" for rest
    by (intro eats_core_object[OF ws(3) eats_body]) auto
  have n: "0 < length kvs" using p by (auto simp: body_parsed_def)
  fix m buf a rest
  assume c: "contents m buf = ?t @ rest" "buf_data buf + buf_len buf < 2 ^ 64" "arena_ok a" "span buf (length ?t) \<inter> arena_free a = {}"
  let ?C = "\<lparr>buf_data = buf_data buf + (1 + length w), buf_len = length t\<rparr>"
  note nc = nested_content[OF c(1,2)]
  have sub: "span ?C (length t) \<subseteq> span buf (length ?t)" using nc(3) by simp
  then have dis: "span ?C (length t) \<inter> arena_free a = {}" using c(4) by blast
  have end': "ends_well m ?C (arena_free a)" using nc(4)[OF _ c(4)] by (simp add: num_stop_def is_digit_def)
  have "buf_data ?C + buf_len ?C < 2 ^ 64" using nc(2) by simp
  from object_decoded[OF pr pairs n fits nc(1) this c(3) dis end'] decoded_nested[OF sub]
  show "\<exists>r a' m'. (\<forall>\<^sub>F n in sequentially. decode_json_val n pruned (take_json_val n pruned)
        (effect_nested JSON_TYPE_OBJECT (1 + length w) (length t) (length kvs) (buf_data buf) PARSE_RESULT_INIT) a True m = Some (r, a', m')) \<and>
      agree_off (span buf (length ?t) \<union> arena_free a) m m' \<and> decoded (VMap kvs) (span buf (length ?t)) a r a' m'"
    by (simp add: decode_json_val_def effect_nested_def PARSE_RESULT_INIT_def) blast
qed (simp_all add: ws_bytes_def)

lemma decodes_empty_map:
  assumes "buf_len pruned < 65536" "json_ws w0" "json_ws w1" "json_ws w"
  shows "decodes pruned (VMap []) (w0 @ ([0x7B] @ w @ [0x7D]) @ w1)"
proof -
  let ?val = "\<lparr>map_pairs = NULL, map_len = 0\<rparr>"
  obtain x where x: "gg_obj_map ?val = Some x" using gg_obj_fits(3)[of ?val] by auto
  then have l: "length x = obj_size" by (auto simp: gg_obj_packed)
  have v: "val_blk m x (VMap [])" "blk_foot m x (VMap []) = {}" for m using into_obj_map[OF x] by simp_all
  have "gg_map_canonicalize_shallow pruned m ?val = Some (m, ?val)" for m
    by (simp add: gg_map_canonicalize_shallow_def prune_duplicates_def sort_keys_def)
  then show ?thesis
    by (intro decodes_scalar[OF assms(2,3) eats_core_empty(2)[OF assms(4)] _ _ _ l v])
      (simp_all add: ws_bytes_def decode_json_val_def effect_nested_def PARSE_RESULT_INIT_def decode_json_object_def x map_canon_def)
qed

section \<open>Every document is decoded\<close>

lemma docs_decoded:
  assumes pr: "buf_len pruned < 65536"
  shows "val_doc v t \<Longrightarrow> val_fits v \<longrightarrow> (\<forall>w w'. json_ws w \<longrightarrow> json_ws w' \<longrightarrow> decodes pruned v (w @ t @ w'))"
    "items_doc vs ts \<Longrightarrow> vs \<noteq> [] \<and> (vals_fit vs \<longrightarrow> (\<forall>w. json_ws w \<longrightarrow> items_decode pruned vs (w @ ts)))"
    "pairs_doc kvs ts \<Longrightarrow> kvs \<noteq> [] \<and> (pairs_fit kvs \<longrightarrow> (\<forall>w. json_ws w \<longrightarrow> pairs_decode pruned kvs (w @ ts)))"
proof (induction rule: val_doc_items_doc_pairs_doc.inducts)
  case (doc_list w vs t)
  have "json_ws []" by (simp add: json_ws_def)
  with doc_list have "vals_fit vs \<Longrightarrow> items_decode pruned vs t" by fastforce
  with doc_list(1,2) show ?case using decodes_list by auto
next
  case (doc_map w kvs t)
  have "json_ws []" by (simp add: json_ws_def)
  with doc_map have "pairs_fit kvs \<Longrightarrow> pairs_decode pruned kvs t" by fastforce
  with doc_map(1,2) show ?case using decodes_map[OF pr] by auto
next
  case (item_last v t w)
  then show ?case by (auto intro!: items_last)
next
  case (item_more v t w w' vs ts)
  then show ?case using items_more[of pruned v "_ @ t @ w" vs "w' @ ts"] by auto
next
  case (pair_last k e w1 w2 v t w3)
  have "pairs_decode pruned [(k, v)] ((w @ ([0x22] @ e @ [0x22]) @ w1) @ [0x3A] @ (w2 @ t @ w3))" if "pairs_fit [(k, v)]" "json_ws w" for w
    by (rule pairs_last[OF decodes_str[OF that(2) pair_last(2,1)]]) (use pair_last that in simp_all)
  then show ?case by simp
next
  case (pair_more k e w1 w2 v t w3 w4 kvs ts)
  have "pairs_decode pruned ((k, v) # kvs) (((w @ ([0x22] @ e @ [0x22]) @ w1) @ [0x3A] @ (w2 @ t @ w3)) @ [0x2C] @ (w4 @ ts))"
    if "pairs_fit ((k, v) # kvs)" "json_ws w" for w
    by (rule pairs_more[OF decodes_str[OF that(2) pair_more(2,1)]]) (use pair_more that in simp_all)
  then show ?case by simp
qed (auto simp del: append.simps append_Cons append_assoc intro: decodes_literal decodes_int decodes_f64 decodes_str decodes_empty_list decodes_empty_map[OF pr])

lemma json_doc_decodes: "buf_len pruned < 65536 \<Longrightarrow> json_doc v d \<Longrightarrow> val_fits v \<Longrightarrow> decodes pruned v d"
  unfolding json_doc_def using docs_decoded(1) by blast

lemma decode_doc:
  assumes "json_doc v (contents m buf)" "val_fits v" "f64_stops m buf v" "buf_data buf + buf_len buf < 2 ^ 64" "arena_ok a"
    "span buf (buf_len buf) \<inter> arena_free a = {}" "buf_len pruned < 65536"
  shows "\<exists>N r m'. (\<forall>n \<ge> N. gg_json_decode_destructive n pruned buf (Some a) True m =
      Some (r, Some (if json_need v \<le> arena_avail a then adv a (json_need v) else a), m')) \<and>
    agree_off (span buf (buf_len buf) \<union> arena_free a) m m' \<and>
    (if json_need v \<le> arena_avail a
     then \<exists>x. r = Inr (Some x) \<and> length x = obj_size \<and> val_blk m' x (canon_val v) \<and> blk_foot m' x (canon_val v) \<subseteq> span buf (buf_len buf) \<union> taken a (json_need v)
     else r = Inl GG_ERR_NOMEM)"
proof -
  let ?d = "contents m buf" and ?T = "span buf (buf_len buf)"
  have "val_ends []" "contents m buf = ?d @ []" "span buf (length ?d) \<inter> arena_free a = {}" using assms(6) by (simp_all add: val_ends_def)
  from decodesD[OF json_doc_decodes[OF assms(7,1,2)] this(2,1) assms(3,4,5) this(3)] obtain r a' m' where
    1: "\<forall>\<^sub>F n in sequentially. take_json_val n pruned buf a True m = Some (r, advance buf (length ?d), a', m')"
      "agree_off (?T \<union> arena_free a) m m'" "decoded v ?T a r a' m'" by auto
  then obtain N where N: "\<And>n. N \<le> n \<Longrightarrow> take_json_val n pruned buf a True m = Some (r, advance buf (length ?d), a', m')"
    unfolding eventually_sequentially by blast
  show ?thesis using 1(3)
  proof (cases rule: decodedE)
    case nomem
    then show ?thesis using N 1(2) by (intro exI[of _ N] exI[of _ r] exI[of _ m']) (simp add: gg_json_decode_destructive_def)
  next
    case (ok x)
    then show ?thesis using N 1(2) by (intro exI[of _ N] exI[of _ r] exI[of _ m']) (simp add: gg_json_decode_destructive_def)
  qed
qed

end
