(* ===== verification/Json_Floats.thy ===== *)
theory Json_Floats
  imports Complex_Main Json_Numbers
begin

unbundle bit_operations_syntax

text \<open>
  Doubles through text: the encoder writes 17 significant digits, and the double nearest to them is the one
  that was written. The decoder takes it back if it is zero or normal; a subnormal double it rejects, since
  \<open>strtod\<close> reports a range error for it.
\<close>

section \<open>Rounding\<close>

lemma round_even_near:
  assumes "0 < b"
  shows "\<bar>real (round_even a b) - real a / real b\<bar> \<le> 1 / 2"
proof -
  let ?q = "a div b" and ?r = "a mod b"
  have "real a = real ?q * real b + real ?r" using div_mult_mod_eq[of a b] by (metis of_nat_add of_nat_mult)
  then have d: "real a / real b = real ?q + real ?r / real b" using assms by (simp add: field_simps)
  have "?r < b" using assms by simp
  then have r: "0 \<le> real ?r / real b" "real ?r / real b < 1" using assms by simp_all
  have lo: "real ?r / real b \<le> 1 / 2 \<longleftrightarrow> 2 * ?r \<le> b" and hi: "1 / 2 \<le> real ?r / real b \<longleftrightarrow> b \<le> 2 * ?r"
    using assms by (simp_all add: field_simps) linarith+
  show ?thesis using r lo hi by (auto simp: round_even_def Let_def d)
qed

lemma round_even_eq:
  assumes "0 < b" "\<bar>real a / real b - real q\<bar> < 1 / 2"
  shows "round_even a b = q"
proof -
  have "\<bar>real (round_even a b) - real q\<bar> < 1" using round_even_near[OF assms(1), of a] assms(2) by linarith
  then show ?thesis by linarith
qed

lemma round_even_nearest:
  assumes "0 < b" "round_even a b = q"
  shows "real q - 1 / 2 \<le> real a / real b" "real a / real b \<le> real q + 1 / 2"
  using round_even_near[OF assms(1), of a] assms(2) by linarith+

lemma scale2_val:
  assumes "scale2 a b e = (x, y)" "0 < b"
  shows "0 < y" "real x / real y = real a / real b / 2 powi e"
  using assms by (auto simp: scale2_def power_int_def field_simps split: if_splits)

lemma bit_length_bounds: "0 < n \<Longrightarrow> 2 ^ (bit_length n - 1) \<le> n \<and> n < 2 ^ bit_length n"
proof (induction n rule: bit_length.induct)
  case (1 n)
  show ?case
  proof (cases "n div 2 = 0")
    case True
    then have "n = 1" using 1(2) by auto
    then show ?thesis by (simp add: bit_length.simps[of "Suc 0"] bit_length.simps[of 0])
  next
    case False
    have "0 < bit_length (n div 2)" using False by (subst bit_length.simps) simp
    then obtain k where k: "bit_length (n div 2) = Suc k" by (cases "bit_length (n div 2)") auto
    have "2 ^ k \<le> n div 2" "n div 2 < 2 ^ Suc k" using 1 False k by auto
    then have "2 ^ Suc k \<le> n" "n < 2 ^ Suc (Suc k)" by auto
    then show ?thesis using 1(2) k by (subst (1 2) bit_length.simps) simp
  qed
qed

lemma bit_length_real:
  assumes "0 < n"
  shows "2 powi (int (bit_length n) - 1) \<le> real n" "real n < 2 powi int (bit_length n)"
proof -
  have "0 < bit_length n" using assms by (subst bit_length.simps) simp
  then have "2 powi (int (bit_length n) - 1) = real (2 ^ (bit_length n - 1))" by (simp add: power_int_def nat_diff_distrib)
  then show "2 powi (int (bit_length n) - 1) \<le> real n" using bit_length_bounds[OF assms] by (metis of_nat_le_iff)
  have "real n < real (2 ^ bit_length n)" using bit_length_bounds[OF assms] of_nat_less_iff by blast
  then show "real n < 2 powi int (bit_length n)" by simp
qed

text \<open>The binary logarithm that the decoder finds.\<close>

lemma lg_bounds:
  assumes "0 < a" "0 < b" "d = int (bit_length a) - int (bit_length b)"
    "lg = (if (case scale2 a b d of (x, y) \<Rightarrow> y \<le> x) then d else d - 1)"
  shows "2 powi lg \<le> real a / real b" "real a / real b < 2 powi (lg + 1)"
proof -
  let ?v = "real a / real b"
  have "2 powi (int (bit_length a) - 1) / 2 powi int (bit_length b) \<le> ?v"
    using bit_length_real[OF assms(1)] bit_length_real[OF assms(2)] assms(2) by (intro frac_le) auto
  also have "2 powi (int (bit_length a) - 1) / 2 powi int (bit_length b) = (2 powi (int (bit_length a) - 1 - int (bit_length b)) :: real)"
    by (rule power_int_diff[symmetric]) simp
  finally have lo: "2 powi (d - 1) \<le> ?v" by (simp add: assms(3) algebra_simps)
  have "?v < 2 powi int (bit_length a) / 2 powi (int (bit_length b) - 1)"
    using bit_length_real[OF assms(1)] bit_length_real[OF assms(2)] by (intro frac_less) auto
  also have "2 powi int (bit_length a) / 2 powi (int (bit_length b) - 1) = (2 powi (int (bit_length a) - (int (bit_length b) - 1)) :: real)"
    by (rule power_int_diff[symmetric]) simp
  finally have hi: "?v < 2 powi (d + 1)" by (simp add: assms(3) algebra_simps)
  obtain x y where xy: "scale2 a b d = (x, y)" by (cases "scale2 a b d")
  from scale2_val[OF this assms(2)] have y: "0 < y" "real x / real y = ?v / 2 powi d" by auto
  have "y \<le> x \<longleftrightarrow> 1 \<le> real x / real y" using y(1) by simp
  also have "\<dots> \<longleftrightarrow> 2 powi d \<le> ?v" by (simp only: y(2) le_divide_eq_1_pos zero_less_power_int zero_less_numeral)
  finally have "lg = (if 2 powi d \<le> ?v then d else d - 1)" using assms(4) xy by simp
  then show "2 powi lg \<le> ?v" "?v < 2 powi (lg + 1)" using lo hi by (auto simp: not_le split: if_splits)
qed

text \<open>The double nearest to a number that is close to \<open>M * 2 ^ E\<close>: the word with these parts. Below \<open>2 ^ 52\<close> units
  of the last place the doubles are twice as dense, which matters for the smallest significand only.\<close>

lemma powi_less_exp: "(2 :: real) powi i < 2 powi j \<Longrightarrow> i < j"
  using power_int_increasing[of j i "2 :: real"] by (cases "i < j") auto

lemma nearest_f64_close:
  assumes "0 < a" "0 < b" "M < 2 ^ 53" "- 1074 \<le> E" "E \<le> 971" "E = - 1074 \<or> 2 ^ 52 \<le> M"
    "\<bar>real a / real b / 2 powi E - real M\<bar> < 1 / 2" "M = 2 ^ 52 \<Longrightarrow> \<bar>real a / real b / 2 powi E - real M\<bar> < 1 / 4"
  shows "nearest_f64 a b = (of_nat (nat (E + 1074) * 2 ^ 52 + M), M < 2 ^ 52 \<and> real a / real b / 2 powi E \<noteq> real M)"
proof -
  let ?v = "real a / real b" let ?u = "?v / 2 powi E"
  define d where "d = int (bit_length a) - int (bit_length b)"
  define lg where "lg = (if (case scale2 a b d of (x, y) \<Rightarrow> y \<le> x) then d else d - 1)"
  define e where "e = max (lg - 52) (- 1074)"
  obtain x y where xy: "scale2 a b e = (x, y)" by (cases "scale2 a b e")
  note lg = lg_bounds[OF assms(1,2) d_def lg_def]
  note s = scale2_val[OF xy assms(2)]
  have n: "nearest_f64 a b = (let q = round_even x y in
      if e + 1074 \<ge> 2046 \<or> e + 1074 = 2045 \<and> q = 2 ^ 53 then (of_nat (2047 * 2 ^ 52), True)
      else (of_nat (nat (e + 1074) * 2 ^ 52 + q), q < 2 ^ 52 \<and> q * y \<noteq> x))"
    using assms(1) xy by (simp add: nearest_f64_def Let_def flip: d_def lg_def e_def)
  have M: "real M \<le> 2 ^ 53 - 1" using assms(3) by simp
  have split: "2 powi (52 + k + E) = 2 powi k * 2 ^ 52 * (2 powi E :: real)" for k
    by (simp add: power_int_add mult.commute)
  have up: "?u < c \<longleftrightarrow> ?v < c * 2 powi E" and down: "c < ?u \<longleftrightarrow> c * 2 powi E < ?v" for c
    by (simp_all only: pos_divide_less_eq pos_less_divide_eq zero_less_power_int zero_less_numeral)
  show ?thesis
  proof (cases "e = E")
    case True
    then have q: "real x / real y = ?u" "round_even x y = M" using s assms(7) round_even_eq[of y x M] by auto
    have "M * y \<noteq> x \<longleftrightarrow> real x / real y \<noteq> real M" using s(1) by (auto simp: divide_eq_eq simp flip: of_nat_mult)
    note this[unfolded q(1)]
    with this show ?thesis using n q(2) True assms(3,4,5) by (auto simp: Let_def)
  next
    case False
    have "?u < 2 ^ 53" using assms(7) M by linarith
    then have "?u < 2 powi 1 * 2 ^ 52" by simp
    from this[unfolded up] have "?v < 2 powi (52 + 1 + E)" unfolding split .
    from le_less_trans[OF lg(1) this] have "lg < 53 + E" using powi_less_exp[of lg "53 + E"] by simp
    then have E: "E \<noteq> - 1074" "lg < 52 + E" "2 ^ 52 \<le> M" using False assms(4,6) by (auto simp: e_def)
    have "?v < 2 powi (52 + 0 + E)" using lg(2) power_int_increasing[of "lg + 1" "52 + E" "2 :: real"] E(2) by simp
    then have u: "?u < 2 ^ 52" unfolding split up by simp
    then have "real M < 2 ^ 52 + 1" using assms(7) by linarith
    then have M: "M = 2 ^ 52" using E(3) by simp
    have near: "\<bar>?u - 2 ^ 52\<bar> < 1 / 4" using assms(8)[OF M] by (simp only: M of_nat_power of_nat_numeral)
    have pows: "(2 :: real) ^ 52 = 2251799813685248 * 2" "(2 :: real) ^ 53 = 2 ^ 52 * 2" by simp_all
    have "2251799813685248 < ?u" using near pows(1) by linarith
    then have "2 powi (- 1) * 2 ^ 52 < ?u" by simp
    from this[unfolded down] have "2 powi (52 + (- 1) + E) < ?v" unfolding split .
    from less_trans[OF this lg(2)] have "51 + E < lg + 1" using powi_less_exp[of "51 + E" "lg + 1"] by simp
    then have e: "e = E - 1" using E(1,2) assms(4) by (simp add: e_def)
    have "real x / real y = 2 * ?u" using s(2) by (simp add: e power_int_diff)
    then have "\<bar>real x / real y - 2 ^ 53\<bar> < 1 / 2" using near pows(2) by linarith
    then have "round_even x y = 2 ^ 53" using round_even_eq[OF s(1), of x "2 ^ 53"] by simp
    moreover have "nat (E + 1074) = Suc (nat (E + 1073))" using E(1) assms(4) by linarith
    ultimately show ?thesis using n assms(5) by (simp add: Let_def e M)
  qed
qed

section \<open>Seventeen significant digits\<close>

lemma scaled_near:
  assumes "0 < snd v"
  shows "\<bar>real (scaled v X) - real (fst v) / real (snd v) * 10 powi (16 - X)\<bar> \<le> 1 / 2"
proof (cases "X \<le> 16")
  case True
  then show ?thesis using round_even_near[OF assms, of "fst v * 10 ^ nat (16 - X)"] by (simp add: scaled_def power_int_def)
next
  case False
  then have "16 - X = - int (nat (X - 16))" by simp
  then have "10 powi (16 - X) = 1 / (10 :: real) ^ nat (X - 16)" by (simp only: power_int_minus_divide power_int_of_nat)
  then show ?thesis using round_even_near[of "snd v * 10 ^ nat (X - 16)" "fst v"] assms False by (simp add: scaled_def)
qed

lemma decimal_exp_first:
  assumes "fst v \<noteq> 0" "scaled v 308 < 10 ^ 17"
  shows "- 324 \<le> decimal_exp v" "decimal_exp v \<le> 308" "scaled v (decimal_exp v) < 10 ^ 17"
    "- 324 < decimal_exp v \<Longrightarrow> 10 ^ 17 \<le> scaled v (decimal_exp v - 1)"
proof -
  let ?P = "\<lambda>X. scaled v X < 10 ^ 17"
  define L where "L = [- 324..308 :: int]"
  have L: "length L = 633" "308 \<in> set L" "j < 633 \<Longrightarrow> L ! j = - 324 + int j" for j
    unfolding L_def length_upto set_upto by (simp_all add: nth_upto del: upto_rec_numeral)
  have "find ?P L \<noteq> None" using assms(2) L(2) unfolding find_None_iff by blast
  then obtain X where X: "find ?P L = Some X" by auto
  then obtain i where i: "i < 633" "X = L ! i" "?P X" "\<forall>j < i. \<not> ?P (L ! j)"
    unfolding find_Some_iff L(1) by blast
  have d: "decimal_exp v = - 324 + int i" using X assms(1) i(1,2) L(3) unfolding decimal_exp_def L_def[symmetric] by simp
  show "- 324 \<le> decimal_exp v" "decimal_exp v \<le> 308" "?P (decimal_exp v)" using d i L(3) by auto
  show "10 ^ 17 \<le> scaled v (decimal_exp v - 1)" if "- 324 < decimal_exp v"
  proof -
    have "i - 1 < i" using d that by simp
    then have "\<not> ?P (- 324 + int (i - 1))" using i(1,4) L(3)[of "i - 1"] by auto
    moreover have "- 324 + int (i - 1) = decimal_exp v - 1" using d \<open>i - 1 < i\<close> by simp
    ultimately show ?thesis by simp
  qed
qed

lemma decimal_exp_bounds:
  assumes "0 < snd v" "2 powi (- 1074) \<le> real (fst v) / real (snd v)" "real (fst v) / real (snd v) < 2 ^ 1024"
  defines "X \<equiv> decimal_exp v"
  shows "- 324 \<le> X" "X \<le> 308" "10 ^ 16 \<le> scaled v X" "scaled v X < 10 ^ 17"
    "10 ^ 16 - 1 / 20 \<le> real (fst v) / real (snd v) * 10 powi (16 - X)"
proof -
  define r where "r = real (fst v) / real (snd v)"
  have r: "2 powi (- 1074) \<le> r" "r < 2 ^ 1024" using assms(2,3) by (simp_all add: r_def)
  note near = scaled_near[OF assms(1), folded r_def]
  have "0 < r" by (rule less_le_trans[OF _ r(1)]) simp
  then have nz: "fst v \<noteq> 0" unfolding r_def by (cases "fst v") auto
  have "r * 10 powi (16 - 308) < 10 ^ 17 - 1" using r(2) by (simp add: power_int_def field_simps)
  then have "real (scaled v 308) < 10 ^ 17" using near[of 308] by linarith
  then have "scaled v 308 < 10 ^ 17" by simp
  note first = decimal_exp_first[OF nz this, folded X_def]
  show "- 324 \<le> X" "X \<le> 308" "scaled v X < 10 ^ 17" by (fact first)+
  have lo: "10 ^ 16 - 1 / 20 \<le> r * 10 powi (16 - X)"
  proof (cases "- 324 < X")
    case True
    have "10 ^ 17 \<le> real (scaled v (X - 1))" using first(4)[OF True] by simp
    then have "10 ^ 17 - 1 / 2 \<le> r * 10 powi (16 - (X - 1))" using near[of "X - 1"] by linarith
    moreover have "(10 :: real) powi (16 - (X - 1)) = 10 powi (16 - X) * 10" using power_int_add_1[of "10 :: real" "16 - X"] by (simp add: algebra_simps)
    ultimately show ?thesis by simp
  next
    case False
    then have X: "X = - 324" using first(1) by simp
    have "10 ^ 16 \<le> (2 powi (- 1074) * 10 powi (16 - X) :: real)" by (simp add: X power_int_def field_simps)
    also have "\<dots> \<le> r * 10 powi (16 - X)" using r(1) by (intro mult_right_mono) auto
    finally show ?thesis by simp
  qed
  then show "10 ^ 16 - 1 / 20 \<le> real (fst v) / real (snd v) * 10 powi (16 - X)" by (simp only: r_def)
  have "10 ^ 16 - 1 < real (scaled v X)" using lo near[of X] by linarith
  then show "10 ^ 16 \<le> scaled v X" by simp
qed

text \<open>The number that the digits stand for is close to the value that was written.\<close>

lemma digits_close:
  assumes "0 < snd v" "real (fst v) / real (snd v) = real M * 2 powi E" "0 < M" "M < 2 ^ 53" "- 1074 \<le> E" "E \<le> 971"
  defines "X \<equiv> decimal_exp v"
  defines "u \<equiv> real (scaled v X) * 10 powi (X - 16) / 2 powi E"
  shows "\<bar>u - real M\<bar> < 1 / 2" "M = 2 ^ 52 \<Longrightarrow> \<bar>u - real M\<bar> < 1 / 4"
    "10 ^ 16 \<le> scaled v X" "scaled v X < 10 ^ 17" "- 324 \<le> X" "X \<le> 308" "10 powi (X - 16) * 10 ^ 15 \<le> real M * 2 powi E"
proof -
  let ?r = "real M * 2 powi E" and ?D = "real (scaled v X)" and ?p = "10 powi (16 - X) :: real"
  have "2 powi (- 1074) \<le> (2 powi E :: real)" using assms(5) by (intro power_int_increasing) auto
  also have "\<dots> \<le> ?r" using assms(3) by simp
  finally have lo: "2 powi (- 1074) \<le> ?r" .
  have "real M < 2 ^ 53" using assms(4) by simp
  then have "?r < 2 ^ 53 * 2 powi E" by simp
  also have "\<dots> \<le> 2 ^ 53 * 2 powi 971" using assms(6) by (intro mult_left_mono power_int_increasing) auto
  also have "\<dots> = 2 ^ 1024" by (simp only: power_int_numeral flip: power_add) simp
  finally have hi: "?r < 2 ^ 1024" .
  note b = decimal_exp_bounds[OF assms(1), folded X_def, unfolded assms(2), OF lo hi]
  show "10 ^ 16 \<le> scaled v X" "scaled v X < 10 ^ 17" "- 324 \<le> X" "X \<le> 308" by (fact b)+
  have p: "0 < ?p" by simp
  have inv: "10 powi (X - 16) = inverse ?p" using power_int_minus[of "10 :: real" "16 - X"] by simp
  have near: "\<bar>?D - ?r * ?p\<bar> \<le> 1 / 2" using scaled_near[OF assms(1), of X] unfolding assms(2) .
  have "10 ^ 15 \<le> ?r * ?p" using b(5) by simp
  then show "10 powi (X - 16) * 10 ^ 15 \<le> ?r" unfolding inv using p by (simp add: field_simps)
  have t: "1 \<le> real M * (2 powi E * ?p) / (10 ^ 16 - 1 / 20)" using b(5) by (simp add: mult.assoc)
  let ?w = "2 powi E * ?p"
  have w: "0 < ?w" by simp
  have "u - real M = (?D - ?r * ?p) / ?w" unfolding u_def inv using p by (simp add: field_simps)
  then have "\<bar>u - real M\<bar> = \<bar>?D - ?r * ?p\<bar> / ?w" using w by (simp add: abs_divide abs_mult)
  also have "\<dots> \<le> (1 / 2) / ?w" using near w by (intro divide_right_mono) auto
  also have "\<dots> \<le> real M / (2 * (10 ^ 16 - 1 / 20))" using t w by (simp add: field_simps)
  finally have close: "\<bar>u - real M\<bar> \<le> real M / (2 * (10 ^ 16 - 1 / 20))" .
  show "\<bar>u - real M\<bar> < 1 / 2" using close assms(4) by simp
  show "\<bar>u - real M\<bar> < 1 / 4" if "M = 2 ^ 52" using close that by simp
qed

text \<open>The parts of a double.\<close>

lemma f64_exp_bound: "f64_exp w < 2048"
proof -
  have "drop_bit 52 w AND 0x7FF = take_bit 11 (drop_bit 52 w)" by (simp add: take_bit_eq_mask mask_eq_exp_minus_1)
  then show ?thesis using take_bit_nat_less_exp[of 11 "unat (drop_bit 52 w)"] by (simp add: f64_exp_def unsigned_take_bit_eq)
qed

lemma f64_frac_bound: "f64_frac w < 2 ^ 52"
  using take_bit_nat_less_exp[of 52 "unat w"] by (simp add: f64_frac_def unsigned_take_bit_eq flip: take_bit_eq_mask)

lemma join_parts:
  fixes w e11 sign :: "64 word"
  assumes "\<And>i. bit e11 i \<longleftrightarrow> i < 11" "\<And>i. bit sign i \<longleftrightarrow> i = 63"
  shows "push_bit 52 (drop_bit 52 w AND e11) + (w AND mask 52) OR (if bit w 63 then sign else 0) = w"
proof -
  have 1: "push_bit 52 (drop_bit 52 w AND e11) + (w AND mask 52) = push_bit 52 (drop_bit 52 w AND e11) OR (w AND mask 52)"
    by (rule disjunctive_add) (auto simp: bit_simps)
  have 2: "bit ((push_bit 52 (drop_bit 52 w AND e11) OR (w AND mask 52)) OR (if bit w 63 then sign else 0)) n = bit w n"
    if "n < LENGTH(64)" for n
  proof -
    have "n < 64" using that by simp
    then consider "n < 52" | "52 \<le> n" "n < 63" | "n = 63" by linarith
    then show ?thesis by cases (auto simp: assms bit_simps)
  qed
  show ?thesis unfolding 1 by (rule bit_word_eqI) (rule 2)
qed

lemma f64_parts: "of_nat (f64_exp w * 2 ^ 52 + f64_frac w) OR (if f64_neg w then 0x8000000000000000 else 0) = w"
proof -
  have m: "(0x7FF :: 64 word) = mask 11" "(0x8000000000000000 :: 64 word) = push_bit 63 1" by (simp_all add: mask_eq_exp_minus_1)
  have "bit (0x7FF :: 64 word) i \<longleftrightarrow> i < 11" "bit (0x8000000000000000 :: 64 word) i \<longleftrightarrow> i = 63" for i
    unfolding m bit_mask_iff bit_push_bit_iff bit_1_iff by auto
  from join_parts[OF this, of w] show ?thesis by (simp add: f64_exp_def f64_frac_def f64_neg_def push_bit_eq_mult)
qed

lemma f64_fraction_val:
  assumes "f64_exp w \<noteq> 2047"
  obtains M E where "0 < snd (f64_fraction w)" "real (fst (f64_fraction w)) / real (snd (f64_fraction w)) = real M * 2 powi E"
    "M < 2 ^ 53" "- 1074 \<le> E" "E \<le> 971" "E = - 1074 \<or> 2 ^ 52 \<le> M" "nat (E + 1074) * 2 ^ 52 + M = f64_exp w * 2 ^ 52 + f64_frac w"
    "M < 2 ^ 52 \<longleftrightarrow> f64_exp w = 0" "M = 0 \<longleftrightarrow> f64_exp w = 0 \<and> f64_frac w = 0" "fst (f64_fraction w) = 0 \<longleftrightarrow> M = 0"
proof -
  define M where "M = (if f64_exp w = 0 then f64_frac w else 2 ^ 52 + f64_frac w)"
  define E where "E = (if f64_exp w = 0 then - 1074 else int (f64_exp w) - 1075)"
  have f: "f64_fraction w = (if E \<ge> 0 then (M * 2 ^ nat E, 1) else (M, 2 ^ nat (- E)))"
    unfolding f64_fraction_def M_def E_def Let_def by simp
  have v: "real (fst (f64_fraction w)) / real (snd (f64_fraction w)) = real M * 2 powi E"
    by (auto simp: f power_int_def field_simps)
  have e: "f64_exp w < 2047" using f64_exp_bound[of w] assms by simp
  show thesis
  proof (rule that[OF _ v])
    show "0 < snd (f64_fraction w)" "fst (f64_fraction w) = 0 \<longleftrightarrow> M = 0" by (simp_all add: f)
    show "M < 2 ^ 53" "- 1074 \<le> E" "E \<le> 971" "E = - 1074 \<or> 2 ^ 52 \<le> M" "M < 2 ^ 52 \<longleftrightarrow> f64_exp w = 0"
      "M = 0 \<longleftrightarrow> f64_exp w = 0 \<and> f64_frac w = 0" using f64_frac_bound[of w] e by (auto simp: M_def E_def)
    show "nat (E + 1074) * 2 ^ 52 + M = f64_exp w * 2 ^ 52 + f64_frac w"
    proof (cases "f64_exp w")
      case (Suc k)
      then have "nat (E + 1074) = k" by (simp add: E_def)
      then show ?thesis using Suc by (simp add: M_def)
    qed (simp add: M_def E_def)
  qed
qed

section \<open>The text of a double\<close>

lemma digits_val_append: "digits_val (x @ y) = digits_val x * 10 ^ length y + digits_val y"
  using digits_val_step[of "digits_val x" y] by (simp add: digits_val_def)

lemma digit_byte:
  assumes "k < 10"
  shows "is_digit (of_nat (48 + k))" "uint (of_nat (48 + k) :: byte) = 48 + int k"
proof -
  have "unat (of_nat (48 + k) :: byte) = 48 + k" using assms by (intro unat_of_nat_small) simp
  then show "uint (of_nat (48 + k) :: byte) = 48 + int k" by (simp only: uint_nat)
  then show "is_digit (of_nat (48 + k))" using assms by (simp add: is_digit_uint)
qed

lemma fixed_digits_digits: "list_all is_digit (fixed_digits k n)"
  by (induction k arbitrary: n) (simp_all add: digit_byte(1) del: of_nat_add)

lemma fixed_digits_val: "digits_val (fixed_digits k n) = int (n mod 10 ^ k)"
proof (induction k arbitrary: n)
  case (Suc k)
  have "n mod 10 ^ Suc k = n div 10 mod 10 ^ k * 10 + n mod 10" using mod_mult2_eq[of n 10 "10 ^ k"] by simp
  with Suc show ?case using digit_byte(2)[of "n mod 10"] by (simp add: digits_val_append digits_val_Cons digits_val_def[of "[]"] del: of_nat_add)
qed (simp add: digits_val_def)

lemma zeros_val: "digits_val (replicate k 0x30 @ ds) = digits_val ds"
  by (induction k) (simp_all add: digits_val_Cons)

lemma fixed_digits_first:
  assumes "10 ^ k \<le> n" "n < 10 ^ Suc k"
  shows "hd (fixed_digits (Suc k) n) \<noteq> 0x30"
  using assms
proof (induction k arbitrary: n)
  case 0
  then have "n mod 10 = n" by simp
  then show ?case using digit_byte(2)[of n] 0 by (auto simp: simp del: of_nat_add)
next
  case (Suc k)
  then have "10 ^ k \<le> n div 10" "n div 10 < 10 ^ Suc k" by auto
  from Suc.IH[OF this] show ?case using length_fixed_digits[of "Suc k" "n div 10"]
    by (cases "fixed_digits (Suc k) (n div 10)") (simp_all del: length_fixed_digits)
qed

lemma exp_text_parts:
  assumes "\<bar>X\<bar> < 1000"
  shows "exp_syn (exp_text X)" "exp_val (exp_text X) = X"
proof -
  let ?k = "if \<bar>X\<bar> < 100 then 2 else 3 :: nat" let ?ds = "fixed_digits ?k (nat \<bar>X\<bar>)" and ?s = "if X < 0 then 0x2D else 0x2B :: byte"
  have t: "exp_text X = 0x65 # [?s] @ ?ds" by (simp add: exp_text_def)
  have "?ds \<noteq> []" using length_fixed_digits[of ?k "nat \<bar>X\<bar>"] by (cases "fixed_digits ?k (nat \<bar>X\<bar>)") (auto split: if_splits)
  moreover have "[?s] \<in> {[], [0x2B], [0x2D]}" by simp
  ultimately show "exp_syn (exp_text X)" unfolding exp_syn_def t using fixed_digits_digits[of ?k "nat \<bar>X\<bar>"] by blast
  have "nat \<bar>X\<bar> < 10 ^ ?k" using assms by (auto simp: nat_less_iff)
  then have "digits_val ?ds = \<bar>X\<bar>" by (simp only: fixed_digits_val mod_less nat_0_le abs_ge_zero)
  then show "exp_val (exp_text X) = X" unfolding exp_val_def t Let_def by simp
qed

lemma f64_text_parts:
  fixes w defines "v \<equiv> f64_fraction w" defines "X \<equiv> decimal_exp v" defines "D \<equiv> scaled v X"
  defines "s \<equiv> if f64_neg w then [0x2D] else []"
  assumes "f64_exp w \<noteq> 2047" "D < 10 ^ 17" "- 324 \<le> X" "X \<le> 308" "10 ^ 16 \<le> D \<or> X = 0"
  shows "\<exists>ip f e. f64_text w = s @ ip @ f @ e \<and> int_doc (s @ ip) \<and> list_all is_digit ip \<and> frac_syn f \<and> exp_syn e \<and> f \<noteq> [] \<and>
    exp_val e - int (length (tl f)) = X - 16 \<and> digits_val (ip @ tl f) = int D"
proof -
  let ?ds = "fixed_digits 17 D"
  have ds: "list_all is_digit ?ds" "digits_val ?ds = int D" "length ?ds = 17"
    using fixed_digits_digits fixed_digits_val[of 17 D] assms(6) by simp_all
  then have part: "list_all is_digit (take k ?ds)" "list_all is_digit (drop k ?ds)" "digits_val (take k ?ds @ drop k ?ds) = int D" for k
    by (simp_all add: list_all_iff) (meson in_set_takeD in_set_dropD)+
  have no_exp: "exp_syn []" "exp_val [] = 0" by (simp_all add: exp_syn_def exp_val_def digits_val_def)
  have lead: "int_doc (s @ take k ?ds)" if "0 < k" "10 ^ 16 \<le> D \<or> k = 1" for k
  proof -
    have "take k ?ds = [0x30] \<or> take k ?ds \<noteq> [] \<and> hd (take k ?ds) \<noteq> 0x30"
    proof (cases "10 ^ 16 \<le> D")
      case True
      then have "hd ?ds \<noteq> 0x30" using fixed_digits_first[of 16 D] assms(6) by simp
      then show ?thesis using that(1) ds(3) by (cases ?ds) (auto simp: take_Cons')
    next
      case False
      then show ?thesis using that ds(3) by (cases ?ds) auto
    qed
    then show ?thesis unfolding int_doc_def using part(1)[of k] by (intro exI[of _ s] exI[of _ "take k ?ds"]) (simp add: s_def)
  qed
  have shape: "f64_text w = s @ (if 0 \<le> X \<and> X < 17 then take (nat X + 1) ?ds @ [0x2E] @ drop (nat X + 1) ?ds
           else if - 4 \<le> X \<and> X < 0 then [0x30, 0x2E] @ replicate (nat (- X) - 1) 0x30 @ ?ds
           else take 1 ?ds @ [0x2E] @ drop 1 ?ds @ exp_text X)"
    using assms(5) by (simp add: f64_text_def Let_def s_def str_def flip: v_def X_def D_def)
  consider (fixed) "0 \<le> X" "X < 17" | (small) "- 4 \<le> X" "X < 0" | (sci) "X < - 4 \<or> 17 \<le> X" by linarith
  then show ?thesis
  proof cases
    case fixed
    then have "f64_text w = s @ take (nat X + 1) ?ds @ (0x2E # drop (nat X + 1) ?ds) @ []" unfolding shape by simp
    moreover have "int_doc (s @ take (nat X + 1) ?ds)" by (rule lead) (use assms(9) in auto)
    moreover have "frac_syn (0x2E # drop (nat X + 1) ?ds)" using part(2) by (simp add: frac_syn_def)
    moreover have "0 - int (length (drop (nat X + 1) ?ds)) = X - 16" using fixed by simp
    ultimately show ?thesis using part(1,3)[of "nat X + 1"] no_exp
      by (intro exI[of _ "take (nat X + 1) ?ds"] exI[of _ "0x2E # drop (nat X + 1) ?ds"] exI[of _ "[]"]) (simp del: append_take_drop_id take_Suc drop_Suc)
  next
    case small
    let ?z = "replicate (nat (- X) - 1) 0x30 @ ?ds"
    have "f64_text w = s @ [0x30] @ (0x2E # ?z) @ []" unfolding shape using small by simp
    moreover have "int_doc (s @ [0x30])" unfolding int_doc_def s_def by (intro exI[of _ s] exI[of _ "[0x30]"]) (auto simp: s_def is_digit_def)
    moreover have "frac_syn (0x2E # ?z)" using ds(1) by (auto simp: frac_syn_def list_all_iff is_digit_def)
    moreover have "0 - int (length ?z) = X - 16" using small by simp
    moreover have "digits_val ([0x30] @ ?z) = int D" using zeros_val[of "Suc (nat (- X) - 1)" ?ds] ds(2) by simp
    moreover have "list_all is_digit [0x30]" by (simp add: is_digit_def)
    ultimately show ?thesis using no_exp
      by (intro exI[of _ "[0x30]"] exI[of _ "0x2E # ?z"] exI[of _ "[]"]) (simp del: append_take_drop_id take_Suc drop_Suc)
  next
    case sci
    have "f64_text w = s @ take 1 ?ds @ (0x2E # drop 1 ?ds) @ exp_text X" unfolding shape using sci by auto
    moreover have "int_doc (s @ take 1 ?ds)" using lead[of 1] by simp
    moreover have "frac_syn (0x2E # drop 1 ?ds)" using part(2) by (simp add: frac_syn_def)
    moreover have "exp_syn (exp_text X)" "exp_val (exp_text X) - int (length (drop 1 ?ds)) = X - 16" using exp_text_parts[of X] assms(7,8) by simp_all
    ultimately show ?thesis using part(1,3)[of 1]
      by (intro exI[of _ "take 1 ?ds"] exI[of _ "0x2E # drop 1 ?ds"] exI[of _ "exp_text X"]) (simp del: append_take_drop_id take_Suc drop_Suc)
  qed
qed

section \<open>Reading the text back\<close>

text \<open>The fraction that \<open>strtod\<close> rounds, for a mantissa and a decimal exponent.\<close>

definition decimal_fraction :: "nat \<Rightarrow> int \<Rightarrow> nat \<times> nat" where
  "decimal_fraction mant expo = (if expo \<ge> 0 then (mant * 10 ^ nat expo, 1) else (mant, 10 ^ nat (- expo)))"

lemma decimal_fraction_val:
  "0 < snd (decimal_fraction D x)" "real (fst (decimal_fraction D x)) / real (snd (decimal_fraction D x)) = real D * 10 powi x"
  "fst (decimal_fraction D x) = 0 \<longleftrightarrow> D = 0"
  by (auto simp: decimal_fraction_def power_int_def field_simps)

lemma text_f64_fraction:
  assumes "exp_val e - int (length (tl f)) = x" "digits_val (ip @ tl f) = int D"
  shows "text_f64 s ip f e = (case nearest_f64 (fst (decimal_fraction D x)) (snd (decimal_fraction D x)) of
    (val, erange) \<Rightarrow> (if s \<noteq> [] then val OR 0x8000000000000000 else val, erange))"
  using assms by (simp add: text_f64_def decimal_fraction_def Let_def split: prod.splits)

text \<open>A decimal number with few digits that is below the normal doubles is not a double.\<close>

lemma not_dyadic:
  assumes "real D * 10 powi (X - 16) = real M * 2 powi (- 1074)" "0 < D" "D < 10 ^ 17" "X \<le> - 9"
  shows False
proof -
  define k where "k = nat (16 - X)"
  have k: "X - 16 = - int k" "25 \<le> k" using assms(4) by (simp_all add: k_def)
  have "real D / 10 ^ k = real M / 2 ^ 1074" using assms(1) unfolding k(1) by (simp add: power_int_minus_divide)
  then have "real (D * 2 ^ 1074) = real (M * 10 ^ k)" by (simp add: field_simps)
  then have "D * 2 ^ 1074 = M * (2 ^ k * 5 ^ k)" by (simp only: of_nat_eq_iff flip: power_mult_distrib) simp
  then have "5 ^ k dvd D * 2 ^ 1074" by simp
  moreover have "coprime (5 ^ k) ((2 :: nat) ^ 1074)" by (intro coprime_power_left_iff[THEN iffD2] coprime_power_right_iff[THEN iffD2]) simp
  ultimately have "5 ^ k dvd D" by (simp add: coprime_dvd_mult_left_iff)
  then have "5 ^ k \<le> D" using assms(2) by (simp add: dvd_imp_le)
  moreover have "(5 :: nat) ^ 25 \<le> 5 ^ k" using k(2) by (intro power_increasing) auto
  moreover have "(10 :: nat) ^ 17 < 5 ^ 25" by simp
  ultimately show False using assms(3) by linarith
qed

lemma f64_text_reads:
  assumes "f64_exp w \<noteq> 2047"
  shows "\<exists>s ip f e. f64_text w = s @ ip @ f @ e \<and> s \<in> {[], [0x2D]} \<and> int_doc (s @ ip) \<and> list_all is_digit ip \<and> frac_syn f \<and> exp_syn e \<and> f \<noteq> [] \<and>
    text_f64 s ip f e = (w, f64_exp w = 0 \<and> f64_frac w \<noteq> 0)"
proof -
  define v X D s where "v = f64_fraction w" and "X = decimal_exp v" and "D = scaled v X" and "s = (if f64_neg w then [0x2D] else [] :: bytes)"
  obtain M E where v: "0 < snd v" "real (fst v) / real (snd v) = real M * 2 powi E" "M < 2 ^ 53" "- 1074 \<le> E" "E \<le> 971"
    "E = - 1074 \<or> 2 ^ 52 \<le> M" "nat (E + 1074) * 2 ^ 52 + M = f64_exp w * 2 ^ 52 + f64_frac w"
    "M < 2 ^ 52 \<longleftrightarrow> f64_exp w = 0" "M = 0 \<longleftrightarrow> f64_exp w = 0 \<and> f64_frac w = 0" "fst v = 0 \<longleftrightarrow> M = 0"
    using f64_fraction_val[OF assms] unfolding v_def by blast
  have w: "of_nat (nat (E + 1074) * 2 ^ 52 + M) OR (if s \<noteq> [] then 0x8000000000000000 else 0) = w"
    unfolding v(7) using f64_parts[of w] by (cases "f64_neg w") (simp_all add: s_def)
  let ?a = "fst (decimal_fraction D (X - 16))" and ?b = "snd (decimal_fraction D (X - 16))"
  note ab = decimal_fraction_val[of D "X - 16"]
  have "(D < 10 ^ 17 \<and> - 324 \<le> X \<and> X \<le> 308 \<and> (10 ^ 16 \<le> D \<or> X = 0)) \<and>
    nearest_f64 ?a ?b = (of_nat (nat (E + 1074) * 2 ^ 52 + M), f64_exp w = 0 \<and> f64_frac w \<noteq> 0)"
  proof (cases "M = 0")
    case True
    then have z: "X = 0" "D = 0" "E = - 1074" using v(1,6,10) by (auto simp: X_def D_def decimal_exp_def scaled_def round_even_def)
    then show ?thesis using True v(9) by (simp add: nearest_f64_def decimal_fraction_def)
  next
    case False
    then have M: "0 < M" by simp
    note c = digits_close[OF v(1,2) M v(3,4,5), folded X_def, folded D_def]
    have "0 < D" by (rule less_le_trans[OF _ c(3)]) simp
    then have a: "0 < ?a" using ab(3) by simp
    have n: "nearest_f64 ?a ?b = (of_nat (nat (E + 1074) * 2 ^ 52 + M), M < 2 ^ 52 \<and> real D * 10 powi (X - 16) / 2 powi E \<noteq> real M)"
      using nearest_f64_close[OF a ab(1) v(3,4,5,6)] c(1,2) unfolding ab(2) by blast
    have "real D * 10 powi (X - 16) / 2 powi E \<noteq> real M" if "M < 2 ^ 52"
    proof
      assume "real D * 10 powi (X - 16) / 2 powi E = real M"
      moreover have E: "E = - 1074" using that v(6) by simp
      ultimately have eq: "real D * 10 powi (X - 16) = real M * 2 powi (- 1074)" by (simp only: divide_eq_eq) simp
      have "X \<le> - 9"
      proof (rule ccontr)
        assume "\<not> X \<le> - 9"
        then have "(10 :: real) powi (- 24) \<le> 10 powi (X - 16)" by (intro power_int_increasing) auto
        then have "10 powi (- 24) * 10 ^ 15 \<le> real M * 2 powi (- 1074)" using c(7) unfolding E by (meson mult_right_mono order_trans zero_le_numeral zero_le_power)
        moreover have "real M * 2 powi (- 1074) < 2 ^ 52 * 2 powi (- 1074)" using that by simp
        moreover have "2 ^ 52 * 2 powi (- 1074) < (10 powi (- 24) * 10 ^ 15 :: real)" by (simp add: power_int_def field_simps)
        ultimately show False by linarith
      qed
      from not_dyadic[OF eq \<open>0 < D\<close> c(4) this] show False .
    qed
    then have "M < 2 ^ 52 \<and> real D * 10 powi (X - 16) / 2 powi E \<noteq> real M \<longleftrightarrow> f64_exp w = 0 \<and> f64_frac w \<noteq> 0"
      using v(8,9) False by metis
    with n c(3-6) show ?thesis by simp
  qed
  then have b: "D < 10 ^ 17" "- 324 \<le> X" "X \<le> 308" "10 ^ 16 \<le> D \<or> X = 0"
    and n: "nearest_f64 ?a ?b = (of_nat (nat (E + 1074) * 2 ^ 52 + M), f64_exp w = 0 \<and> f64_frac w \<noteq> 0)" by blast+
  from f64_text_parts[OF assms, folded v_def, folded X_def, folded D_def, folded s_def, OF b] obtain ip f e where
    p: "f64_text w = s @ ip @ f @ e" "int_doc (s @ ip)" "list_all is_digit ip" "frac_syn f" "exp_syn e" "f \<noteq> []"
      "exp_val e - int (length (tl f)) = X - 16" "digits_val (ip @ tl f) = int D" by blast
  have "text_f64 s ip f e = (w, f64_exp w = 0 \<and> f64_frac w \<noteq> 0)"
    unfolding text_f64_fraction[OF p(7,8)] n using w by (cases "s = []") simp_all
  moreover have "s \<in> {[], [0x2D]}" by (simp add: s_def)
  ultimately show ?thesis using p(1-6) by blast
qed

section \<open>Properties\<close>

text \<open>C15: Every finite double survives its text: if the buffer holds the 17 digits that the encoder prints for a double and the
  byte after the buffer does not continue a number, then reading it gives the same double, bit for bit, the signed
  zeros included, if it is zero or normal; for a subnormal double it fails with \<open>GG_ERR_RANGE\<close>.\<close>

theorem f64_roundtrip:
  assumes "f64_exp w \<noteq> 2047" "contents m buf = f64_text w" "buf_len buf \<le> SIZE_MAX" "num_stop (m (buf_data buf + buf_len buf))"
  shows "\<exists>N. \<forall>n \<ge> N. decode_json_number n m buf True =
    Some (if f64_exp w = 0 \<and> f64_frac w \<noteq> 0 then Inl GG_ERR_RANGE else Inr (Some (gg_obj_f64 w)))"
proof -
  from f64_text_reads[OF assms(1)] obtain s ip f e where
    p: "f64_text w = s @ ip @ f @ e" "s \<in> {[], [0x2D]}" "int_doc (s @ ip)" "list_all is_digit ip" "frac_syn f" "exp_syn e" "f \<noteq> []"
      "text_f64 s ip f e = (w, f64_exp w = 0 \<and> f64_frac w \<noteq> 0)" by blast
  have "f @ e \<noteq> []" using p(7) by simp
  from decode_f64[OF p(2-6) this assms(2)[unfolded p(1)] assms(3,4)] show ?thesis
    unfolding p(8) eventually_sequentially by (simp only: fst_conv snd_conv)
qed

theorem f64_roundtrip_witness:
  "\<exists>N. \<forall>n \<ge> N. decode_json_number n (wr (\<lambda>_. 0) 64 (f64_text 0x0010000000000000)) \<lparr>buf_data = 64, buf_len = length (f64_text 0x0010000000000000)\<rparr> True =
    Some (Inr (Some (gg_obj_f64 0x0010000000000000)))"
proof -
  let ?w = "0x0010000000000000 :: 64 word" let ?b = "\<lparr>buf_data = 64, buf_len = length (f64_text ?w)\<rparr>"
  have "f64_exp ?w = 1" by code_simp
  moreover have "contents (wr (\<lambda>_. 0) 64 (f64_text ?w)) ?b = f64_text ?w" by (simp add: contents_def)
  moreover have "num_stop (wr (\<lambda>_. 0) 64 (f64_text ?w) (buf_data ?b + buf_len ?b))" by (simp add: wr_def num_stop_def is_digit_def)
  ultimately show ?thesis using f64_roundtrip[of ?w _ ?b] length_f64_text[of ?w] by (simp add: SIZE_MAX_def)
qed

end
