(* ===== verification/Json_Roundtrip.thy ===== *)
theory Json_Roundtrip
  imports Json_Docs Json_Floats
begin

unbundle bit_operations_syntax

text \<open>
  Encoding and decoding together: the text that the encoder writes for a value without infinities, NaNs and
  subnormal doubles, whose strings are UTF-8, is a document of the grammar for that value, so decoding it gives the value back,
  with its maps in canonical form.
\<close>

section \<open>Texts written by the encoder are documents\<close>

function utf8_text :: "bytes \<Rightarrow> bool" where
  "utf8_text [] = True"
| "utf8_text (b # bs) = (let n = utf8_lead_len b in 0 < n \<and> n \<le> Suc (length bs) \<and> list_all utf8_cont (take (n - 1) bs) \<and> utf8_text (drop (n - 1) bs))"
  by pat_completeness auto
termination by (relation "measure length") auto

fun json_able :: "gg_val \<Rightarrow> bool" and items_able :: "gg_val list \<Rightarrow> bool" and pairs_able :: "(bytes \<times> gg_val) list \<Rightarrow> bool" where
  "json_able (VF64 w) = (f64_exp w \<noteq> 2047 \<and> (f64_exp w = 0 \<longrightarrow> f64_frac w = 0))"
| "json_able (VBuf bs) = utf8_text bs"
| "json_able (VList vs) = items_able vs"
| "json_able (VMap kvs) = pairs_able kvs"
| "json_able _ = True"
| "items_able [] = True"
| "items_able (v # vs) = (json_able v \<and> items_able vs)"
| "pairs_able [] = True"
| "pairs_able ((k, v) # kvs) = (utf8_text k \<and> json_able v \<and> pairs_able kvs)"

lemma hex_digit_char: "n < 16 \<Longrightarrow> hex_val (hex_digit n) = Some n"
proof -
  assume n: "n < 16"
  have "unat (hex_digit n) = (if n < 10 then 48 + n else 55 + n)"
    using n unat_of_nat_small[of "48 + n"] unat_of_nat_small[of "55 + n"] by (auto simp: hex_digit_def simp del: of_nat_add unat_of_nat_small)
  then show ?thesis using n by (auto simp: hex_val_def word_le_nat_alt)
qed

lemma control_doc:
  assumes "b \<le> 0x1F"
  shows "hex4 [0x30, 0x30, hex_digit (unat b div 16), hex_digit (unat b mod 16)] = Some (unat b)" "utf8_enc (unat b) = [b]"
proof -
  have b: "unat b \<le> 31" using assms by (simp add: word_le_nat_alt)
  have "hex_val 0x30 = Some 0" by (simp add: hex_val_def)
  then show "hex4 [0x30, 0x30, hex_digit (unat b div 16), hex_digit (unat b mod 16)] = Some (unat b)"
    using b by (simp add: hex_digit_char)
  show "utf8_enc (unat b) = [b]" using b by (simp add: utf8_enc_def)
qed

lemma low_bit: "unat (b :: byte) < 128 \<Longrightarrow> \<not> bit b 7"
  using bit_take_bit_iff[of 7 "unat b" 7] take_bit_nat_eq_self[of "unat b" 7] by (simp add: bit_unsigned_iff)

lemma cont_high: "utf8_cont b \<Longrightarrow> 0x80 \<le> b"
proof -
  assume "utf8_cont b"
  then have "bit b 7" unfolding utf8_cont_def by (auto simp: bit_eq_iff bit_and_iff dest: spec[of _ 7])
  then show ?thesis using low_bit[of b] by (cases "unat b < 128") (simp_all add: word_le_nat_alt)
qed

lemma esc_high: "list_all utf8_cont cs \<Longrightarrow> concat (map esc cs) = cs"
proof (induction cs)
  case (Cons c cs)
  then have "0x80 \<le> c" using cont_high by simp
  then have "c \<noteq> 0x22" "c \<noteq> 0x5C" "\<not> c \<le> 0x1F" by (auto simp: word_le_nat_alt)
  with Cons show ?case by (simp add: esc_def)
qed simp

lemma low_lead: "b \<le> 0x7F \<Longrightarrow> utf8_lead_len b = 1"
  using low_bit[of b] and_exp_eq_0_iff_not_bit[of b 7] by (simp add: utf8_lead_len_def word_le_nat_alt)

lemma str_doc_text: "utf8_text bs \<Longrightarrow> str_doc bs (concat (map esc bs))"
proof (induction bs rule: utf8_text.induct)
  case 1
  show ?case by (simp add: str_end)
next
  case (2 b bs)
  let ?n = "utf8_lead_len b" let ?cs = "take (?n - 1) bs" and ?r = "drop (?n - 1) bs"
  have n: "0 < ?n" "?n \<le> Suc (length bs)" "list_all utf8_cont ?cs" "utf8_text ?r" using 2(2) by (auto simp: Let_def)
  then have r: "str_doc ?r (concat (map esc ?r))" using 2(1) by simp
  show ?case
  proof (cases "json_plain b")
    case True
    then have e: "esc b = [b]" by (auto simp: esc_def json_plain_def not_less)
    have "utf8_char (b # ?cs)" using n by (auto simp: utf8_char_def min_def)
    from str_char[OF this _ r] True have "str_doc (b # ?cs @ ?r) (b # ?cs @ concat (map esc ?r))" by simp
    moreover have "concat (map esc (b # bs)) = b # ?cs @ concat (map esc ?r)"
      using esc_high[OF n(3)] e by (metis append_Cons append_Nil append_take_drop_id concat.simps(2) concat_append list.simps(9) map_append)
    ultimately show ?thesis by simp
  next
    case False
    then have "b \<le> 0x1F \<or> b = 0x22 \<or> b = 0x5C" by (auto simp: json_plain_def not_less)
    then have "b \<le> 0x7F" by (auto simp: word_le_nat_alt)
    then have r: "str_doc bs (concat (map esc bs))" using r low_lead by simp
    consider (control) "b \<le> 0x1F" | (quote) "b = 0x22" | (backslash) "b = 0x5C" using False by (auto simp: json_plain_def not_less)
    then show ?thesis
    proof cases
      case control
      then have "b \<noteq> 0x22" "b \<noteq> 0x5C" by (auto simp: word_le_nat_alt)
      then have e: "esc b = [0x5C, 0x75, 0x30, 0x30, hex_digit (unat b div 16), hex_digit (unat b mod 16)]"
        using control by (simp add: esc_def)
      have "unat b < 0xD800" using control by (simp add: word_le_nat_alt)
      then show ?thesis using str_unit[OF control_doc(1)[OF control] _ r] by (simp add: e control_doc(2)[OF control])
    next
      case quote
      have "esc 0x22 = [0x5C, 0x22]" by (simp add: esc_def)
      then show ?thesis using str_esc[OF _ r, of "0x22" b] by (simp add: quote json_escapes_def)
    next
      case backslash
      have "esc 0x5C = [0x5C, 0x5C]" by (simp add: esc_def)
      then show ?thesis using str_esc[OF _ r, of "0x5C" b] by (simp add: backslash json_escapes_def)
    qed
  qed
qed

lemma nat_text_first: "0 < n \<Longrightarrow> hd (nat_text n) \<noteq> 0x30"
proof (induction n rule: nat_text.induct)
  case (1 n)
  show ?case
  proof (cases "n < 10")
    case True
    then have "unat (of_nat (48 + n) :: byte) = 48 + n" by (intro unat_of_nat_small) simp
    then have "(of_nat (48 + n) :: byte) \<noteq> 0x30" using 1(2) by (auto simp: word_unat_eq_iff simp del: of_nat_add)
    then show ?thesis using True by (simp add: nat_text.simps)
  next
    case False
    then have "hd (nat_text (n div 10)) \<noteq> 0x30" using 1 by simp
    then show ?thesis using False nat_text_digits[of "n div 10"] by (subst nat_text.simps) simp
  qed
qed

lemma int_text_doc: "int_doc (int_text i)"
proof -
  have 1: "list_all is_digit (nat_text n)" "nat_text n = [0x30] \<or> nat_text n \<noteq> [] \<and> hd (nat_text n) \<noteq> 0x30" for n
    using nat_text_digits[of n] nat_text_first[of n] by (simp, cases "n = 0") (simp_all add: nat_text.simps[of 0])
  show ?thesis
  proof (cases "i < 0")
    case True
    then show ?thesis unfolding int_doc_def int_text_def using 1[of "nat (- i)"]
      by (intro exI[of _ "[0x2D]"] exI[of _ "nat_text (nat (- i))"]) simp
  next
    case False
    then show ?thesis unfolding int_doc_def int_text_def using 1[of "nat i"] by (intro exI[of _ "[]"] exI[of _ "nat_text (nat i)"]) simp
  qed
qed

lemma str_bytes: "str ''['' = [0x5B]" "str '']'' = [0x5D]" "str '','' = [0x2C]" "str ''{'' = [0x7B]" "str ''}'' = [0x7D]" "str '':'' = [0x3A]"
  by (simp_all add: str_def)

lemma no_ws: "json_ws []"
  by (simp add: json_ws_def)

lemma quoted_bytes: "quoted bs = [0x22] @ concat (map esc bs) @ [0x22]"
  by (simp add: quoted_def)

lemma f64_text_doc: "f64_exp w \<noteq> 2047 \<Longrightarrow> (f64_exp w = 0 \<longrightarrow> f64_frac w = 0) \<Longrightarrow> val_doc (VF64 w) (f64_text w)"
  using f64_text_reads[of w] doc_f64[of _ _ _ _ w] by fastforce

lemma texts_are_docs:
  "json_able v \<longrightarrow> val_doc v (json_text v)"
  "items_able vs \<longrightarrow> vs \<noteq> [] \<longrightarrow> (\<exists>t. items_doc vs t \<and> json_items i vs = (if i = 0 then [] else [0x2C]) @ t @ [0x5D])"
  "pairs_able kvs \<longrightarrow> kvs \<noteq> [] \<longrightarrow> (\<exists>t. pairs_doc kvs t \<and> json_pairs i kvs = (if i = 0 then [] else [0x2C]) @ t @ [0x7D])"
proof (induction v and i vs and i kvs rule: json_text_json_items_json_pairs.induct)
  case 1
  show ?case by (simp add: doc_null)
next
  case (2 b)
  show ?case by (simp add: doc_true doc_false)
next
  case (3 w)
  show ?case using doc_int[OF int_text_doc int_text_val_text] by simp
next
  case (4 w)
  show ?case using f64_text_doc[of w] by simp
next
  case (5 bs)
  show ?case using doc_str[OF str_doc_text] by (simp add: quoted_def)
next
  case (6 vs)
  show ?case
  proof (cases "vs = []")
    case True
    then show ?thesis using doc_nil[OF no_ws] by (simp add: str_bytes)
  next
    case False
    with 6 show ?thesis using doc_list[OF no_ws] by (fastforce simp: str_bytes)
  qed
next
  case (7 kvs)
  show ?case
  proof (cases "kvs = []")
    case True
    then show ?thesis using doc_empty[OF no_ws] by (simp add: str_bytes)
  next
    case False
    with 7 show ?thesis using doc_map[OF no_ws] by (fastforce simp: str_bytes)
  qed
next
  case (9 i v vs)
  show ?case
  proof (cases "vs = []")
    case True
    with 9 show ?thesis using item_last[OF _ no_ws] by (fastforce simp: str_bytes)
  next
    case False
    with 9 show ?thesis using item_more[OF _ no_ws no_ws] by (fastforce simp: str_bytes)
  qed
next
  case (11 i k v kvs)
  note key = str_doc_text[of k]
  show ?case
  proof (cases "kvs = []")
    case True
    with 11 show ?thesis using pair_last[OF key no_ws no_ws _ no_ws] by (fastforce simp: str_bytes quoted_bytes)
  next
    case False
    with 11 show ?thesis using pair_more[OF key no_ws no_ws _ no_ws no_ws] by (fastforce simp: str_bytes quoted_bytes)
  qed
qed simp_all

section \<open>Objects in memory fit, and canonical values stay as they are\<close>

lemma objects_fit:
  "val_blk m x v \<Longrightarrow> val_fits v" "objs_at m p vs \<Longrightarrow> vals_fit vs" "kvs_at m p kvs \<Longrightarrow> pairs_fit kvs"
proof (induction m x v and m p vs and m p kvs rule: val_blk_objs_at_kvs_at.induct)
  case (5 m x bs)
  then show ?case by (auto split: option.splits dest: into_len_bound(1))
next
  case (6 m x vs)
  then show ?case by (auto split: option.splits dest: into_len_bound(2))
next
  case (7 m x kvs)
  then show ?case by (auto split: option.splits dest: into_len_bound(3))
next
  case (11 m p k v kvs)
  have "buf_len (gg_kv_key (rd m p kv_size)) < 65536"
    using le_val_bound[of "take 2 (drop 8 (rd m p kv_size))"] by (simp add: gg_kv_key_def)
  with 11 show ?case using contents_length[of m "gg_kv_key (rd m p kv_size)" k] by simp
qed simp_all

lemma map_canon_sorted: "sorted_wrt (<) (map fst kvs) \<Longrightarrow> map_canon kvs = kvs"
  unfolding map_canon_def using map_of_canon_pairs[of kvs] sorted_list_of_set.idem_if_sorted_distinct[of "map fst kvs"]
  by (simp add: strict_sorted_iff)

lemma canon_val_id:
  "val_canonical v \<longrightarrow> canon_val v = v" "vals_canonical vs \<longrightarrow> canon_vals vs = vs" "kvs_canonical kvs \<longrightarrow> canon_pairs kvs = kvs"
  by (induction v and vs and kvs rule: canon_val_canon_vals_canon_pairs.induct) (auto simp: map_canon_sorted)

section \<open>Properties\<close>

text \<open>C9: Decoding a JSON document whose strings, lists and maps have lengths that objects can hold, and whose doubles
  are not out of range, into an arena that does not overlap the buffer. If the document is a bare number with a
  fraction or an exponent, the byte after the buffer must not continue it. With enough fuel the decoder returns: if
  the arena has room for the arrays of the value, it succeeds with an object that stands for the value
  of the document, all maps sorted by key with the first of equal keys kept, uses exactly that room, and the
  object refers to the buffer and to that room only; otherwise it reports that memory ran out and leaves
  the arena as it was. Nothing outside the buffer and the free part of the arena is written.\<close>

theorem gg_json_decode_correct:
  assumes "json_doc v (contents m buf)" "val_fits v" "f64_stops m buf v" "buf_data buf + buf_len buf < 2 ^ 64" "arena_ok a"
    "{buf_data buf..<buf_data buf + buf_len buf} \<inter> arena_free a = {}" "buf_len pruned < 65536"
  shows "\<exists>N r m'. (\<forall>n \<ge> N. gg_json_decode_destructive n pruned buf (Some a) True m =
      Some (r, Some (if json_need v \<le> arena_avail a then adv a (json_need v) else a), m')) \<and>
    agree_off ({buf_data buf..<buf_data buf + buf_len buf} \<union> arena_free a) m m' \<and>
    (if json_need v \<le> arena_avail a
     then \<exists>x. r = Inr (Some x) \<and> length x = obj_size \<and> val_blk m' x (canon_val v) \<and>
       blk_foot m' x (canon_val v) \<subseteq> {buf_data buf..<buf_data buf + buf_len buf} \<union> taken a (json_need v)
     else r = Inl GG_ERR_NOMEM)"
  using assms by (rule decode_doc)

theorem gg_json_decode_correct_witness:
  "\<exists>N x m'. (\<forall>n \<ge> N. gg_json_decode_destructive n \<lparr>buf_data = 8, buf_len = 1\<rparr> \<lparr>buf_data = 64, buf_len = 12\<rparr>
      (Some \<lparr>arena_mem = 1000, arena_capacity = 50, arena_index = 3\<rparr>) True (wr (\<lambda>_. 0) 64 (str '' [0.5, \"a\"] '')) =
      Some (Inr (Some x), Some \<lparr>arena_mem = 1000, arena_capacity = 50, arena_index = 25\<rparr>, m')) \<and> val_blk m' x (VList [VF64 0x3FE0000000000000, VBuf [97]])"
proof -
  let ?v = "VList [VF64 0x3FE0000000000000, VBuf [97]]" and ?m = "wr (\<lambda>_. 0) 64 (str '' [0.5, \"a\"] '')" and ?b = "\<lparr>buf_data = 64, buf_len = 12\<rparr>"
  let ?a = "\<lparr>arena_mem = 1000, arena_capacity = 50, arena_index = 3\<rparr>"
  have "int_doc ([] @ [0x30])" unfolding int_doc_def by (intro exI[of _ "[]"] exI[of _ "[0x30]"]) (simp add: is_digit_def)
  moreover have "frac_syn [0x2E, 0x35]" "exp_syn []" by (simp_all add: frac_syn_def exp_syn_def is_digit_def)
  moreover have "text_f64 [] [0x30] [0x2E, 0x35] [] = (0x3FE0000000000000, False)"
    by (simp add: text_f64_def exp_val_def digits_val_def nearest_f64_def Let_def scale2_def round_even_def bit_length.simps)
  moreover have "str ''0.5'' = [0x30, 0x2E, 0x35]" by code_simp
  ultimately have d: "val_doc (VF64 0x3FE0000000000000) (str ''0.5'')" using doc_f64[of "[]" "[0x30]" "[0x2E, 0x35]" "[]"] by (simp add: is_digit_def)
  have "json_able (VBuf [97])" "json_text (VBuf [97]) = str ''\"a\"''" by code_simp+
  then have "val_doc (VBuf [97]) (str ''\"a\"'')" using texts_are_docs(1)[of "VBuf [97]"] by simp
  from item_more[OF d no_ws _ item_last[OF this no_ws], of "[0x20]"] have "items_doc [VF64 0x3FE0000000000000, VBuf [97]] (str ''0.5, \"a\"'')"
    by (simp add: str_def json_ws_def)
  from doc_list[OF no_ws this] have "val_doc ?v (str ''[0.5, \"a\"]'')" by (simp add: str_def)
  moreover have "contents ?m ?b = [0x20] @ str ''[0.5, \"a\"]'' @ [0x20]" by (simp add: contents_def rd_wr_same' str_def)
  ultimately have d: "json_doc ?v (contents ?m ?b)" unfolding json_doc_def json_ws_def
    by (intro exI[of _ "[0x20]"] exI[of _ "str ''[0.5, \"a\"]''"]) simp
  have "arena_ok ?a" by (simp add: arena_ok_def int_limits)
  moreover have "{buf_data ?b..<buf_data ?b + buf_len ?b} \<inter> arena_free ?a = {}" by (auto simp: arena_free_def)
  ultimately show ?thesis using gg_json_decode_correct[OF d, of ?a "\<lparr>buf_data = 8, buf_len = 1\<rparr>"]
    by (auto simp: arena_avail_def adv_def f64_stops_def simp del: val_blk.simps blk_foot.simps)
qed



end
