(* ===== verification/Json_Syntax.thy ===== *)
theory Json_Syntax
  imports Json_Grammar
begin

text \<open>
  The parser accepts nothing but JSON: \<open>derives p t\<close> is the language of a parser, read as a grammar. What
  \<open>parser_call\<close> consumes is a word of the language of its parser (\<open>parser_sound\<close>), and the language
  of the value parser is the syntax of \<open>Json_Grammar\<close> (\<open>derives_value\<close>). With \<open>syn_parsed\<close> of that theory
  the parser recognises exactly the JSON texts.
\<close>

section \<open>The language of a parser\<close>

inductive derives :: "Parser \<Rightarrow> bytes \<Rightarrow> bool" where
  d_one_of: "p \<in> set ps \<Longrightarrow> derives p t \<Longrightarrow> derives (COMB_ONE_OF ps) t"
| d_seq_nil: "derives (COMB_SEQUENCE []) []"
| d_seq: "derives p x \<Longrightarrow> derives (COMB_SEQUENCE ps) y \<Longrightarrow> derives (COMB_SEQUENCE (p # ps)) (x @ y)"
| d_zero: "derives (COMB_ZERO_OR_MORE p) []"
| d_more: "derives p x \<Longrightarrow> derives (COMB_ZERO_OR_MORE p) y \<Longrightarrow> derives (COMB_ZERO_OR_MORE p) (x @ y)"
| d_not: "derives (COMB_MAYBE p) []"
| d_maybe: "derives p t \<Longrightarrow> derives (COMB_MAYBE p) t"
| d_nested: "derives p t \<Longrightarrow> derives (COMB_NESTED p) t"
| d_result: "derives p t \<Longrightarrow> derives (COMB_RESULT_VAL ty p) t"
| d_count: "derives p t \<Longrightarrow> derives (COMB_INCREMENT_COUNT p) t"
| d_char: "derives (PARSER_CHAR c) [c]"
| d_str: "derives (PARSER_STR s) s"
| d_range: "in_range x y c \<Longrightarrow> derives (PARSER_CHAR_RANGE x y) [c]"
| d_codepoint: "utf8_char cs \<Longrightarrow> json_plain (hd cs) \<Longrightarrow> derives PARSER_JSON_STR_CODEPOINT cs"
| d_value: "derives json_value_parser t \<Longrightarrow> derives PARSER_JSON_VALUE t"

inductive_simps derives_simps:
  "derives (COMB_ONE_OF ps) t" "derives (COMB_SEQUENCE []) t" "derives (COMB_SEQUENCE (p # ps)) t" "derives (COMB_MAYBE p) t"
  "derives (COMB_NESTED p) t" "derives (COMB_RESULT_VAL ty p) t" "derives (COMB_INCREMENT_COUNT p) t" "derives (PARSER_CHAR c) t"
  "derives (PARSER_STR s) t" "derives (PARSER_CHAR_RANGE x y) t" "derives PARSER_JSON_STR_CODEPOINT t" "derives PARSER_JSON_VALUE t"

section \<open>What a parser consumes is a word of its language\<close>

text \<open>A match of \<open>p\<close> that takes \<open>buf\<close> to \<open>buf'\<close>.\<close>

definition read_as :: "mem \<Rightarrow> Parser \<Rightarrow> GgBuffer \<Rightarrow> GgBuffer \<Rightarrow> bool" where
  "read_as m p buf buf' \<longleftrightarrow> (\<exists>k \<le> buf_len buf. buf' = advance buf k \<and> derives p (rd m (buf_data buf) k))"

definition call_sound :: "mem \<Rightarrow> call \<Rightarrow> bool" where
  "call_sound m f \<longleftrightarrow> call_ok f \<and> (\<forall>p buf out buf' out'. f p buf out = Some (True, buf', out') \<longrightarrow> buf_len buf \<le> SIZE_MAX \<longrightarrow> read_as m p buf buf')"

lemma call_soundD:
  "call_sound m f \<Longrightarrow> f p buf out = Some (True, buf', out') \<Longrightarrow> buf_len buf \<le> SIZE_MAX \<Longrightarrow> read_as m p buf buf'"
  unfolding call_sound_def by blast

lemma sound_miss: "call_sound m f \<Longrightarrow> f p buf out = Some (False, buf', out') \<Longrightarrow> buf_len buf \<le> SIZE_MAX \<Longrightarrow> buf' = buf"
  unfolding call_sound_def by (auto dest: call_okD simp: moves_def)

lemma read_as_wrap: "read_as m p buf buf' \<Longrightarrow> (\<And>t. derives p t \<Longrightarrow> derives q t) \<Longrightarrow> read_as m q buf buf'"
  by (auto simp: read_as_def)

lemma read_as_empty: "derives p [] \<Longrightarrow> read_as m p buf buf"
  by (auto simp: read_as_def intro!: exI[of _ 0])

lemma read_as_append:
  assumes "read_as m p buf buf1" "read_as m q buf1 buf2" "\<And>x y. derives p x \<Longrightarrow> derives q y \<Longrightarrow> derives r (x @ y)"
  shows "read_as m r buf buf2"
proof -
  obtain j k where "j \<le> buf_len buf" "buf1 = advance buf j" "derives p (rd m (buf_data buf) j)"
    "k \<le> buf_len buf1" "buf2 = advance buf1 k" "derives q (rd m (buf_data buf1) k)"
    using assms(1,2) by (auto simp: read_as_def)
  then show ?thesis using assms(3) by (auto simp: read_as_def rd_add intro!: exI[of _ "j + k"])
qed

lemma read_as_len: "read_as m p buf buf' \<Longrightarrow> buf_len buf' \<le> buf_len buf"
  by (auto simp: read_as_def)

lemma one_of_sound:
  assumes "call_sound m f"
  shows "comb_one_of_fn f ps buf out = Some (True, buf', out') \<Longrightarrow> buf_len buf \<le> SIZE_MAX \<Longrightarrow> read_as m (COMB_ONE_OF ps) buf buf'"
proof (induction ps arbitrary: buf out)
  case (Cons p ps)
  from Cons.prems(1) obtain c buf1 out1 where 1: "f p buf out = Some (c, buf1, out1)"
    "(if c then Some (True, buf1, out1) else comb_one_of_fn f ps buf1 out1) = Some (True, buf', out')"
    by (auto simp: bind_Some_iff)
  show ?case
  proof (cases c)
    case True
    with 1 call_soundD[OF assms, of p buf out buf1 out1] Cons.prems(2) have "read_as m p buf buf'" by simp
    then show ?thesis by (rule read_as_wrap) (auto intro: d_one_of)
  next
    case False
    with 1 sound_miss[OF assms, of p buf out buf1 out1] Cons.prems(2) have "buf1 = buf" by simp
    with 1(2) False Cons.IH[of buf out1] Cons.prems(2) have "read_as m (COMB_ONE_OF ps) buf buf'" by simp
    then show ?thesis by (rule read_as_wrap) (auto simp: derives_simps)
  qed
qed simp

lemma sequence_sound:
  assumes "call_sound m f"
  shows "comb_sequence_loop f ps buf out = Some (True, buf', out') \<Longrightarrow> buf_len buf \<le> SIZE_MAX \<Longrightarrow> read_as m (COMB_SEQUENCE ps) buf buf'"
proof (induction ps arbitrary: buf out)
  case Nil
  then show ?case by (auto intro: read_as_empty d_seq_nil)
next
  case (Cons p ps)
  from Cons.prems(1) obtain buf1 out1 where 1: "f p buf out = Some (True, buf1, out1)"
    "comb_sequence_loop f ps buf1 out1 = Some (True, buf', out')"
    by (auto simp: bind_Some_iff split: if_splits)
  note r1 = call_soundD[OF assms 1(1) Cons.prems(2)]
  have "read_as m (COMB_SEQUENCE ps) buf1 buf'" using Cons.IH[OF 1(2)] read_as_len[OF r1] Cons.prems(2) by simp
  then show ?case using d_seq by (rule read_as_append[OF r1])
qed

lemma zero_or_more_sound:
  assumes "call_sound m f"
  shows "comb_zero_or_more_fn n f p buf out = Some (b, buf', out') \<Longrightarrow> buf_len buf \<le> SIZE_MAX \<Longrightarrow> read_as m (COMB_ZERO_OR_MORE p) buf buf'"
proof (induction n arbitrary: buf out)
  case (Suc n)
  from Suc.prems(1) obtain c buf1 out1 where 1: "f p buf out = Some (c, buf1, out1)"
    "(if c then comb_zero_or_more_fn n f p buf1 out1 else Some (True, buf1, out1)) = Some (b, buf', out')"
    by (auto simp: bind_Some_iff)
  show ?case
  proof (cases c)
    case True
    then have r1: "read_as m p buf buf1" using call_soundD[OF assms, of p buf out buf1 out1] 1(1) Suc.prems(2) by simp
    have "read_as m (COMB_ZERO_OR_MORE p) buf1 buf'" using Suc.IH[of buf1 out1] 1(2) True read_as_len[OF r1] Suc.prems(2) by simp
    then show ?thesis using d_more by (rule read_as_append[OF r1])
  next
    case False
    then have "buf1 = buf" "buf' = buf1" using 1 sound_miss[OF assms, of p buf out buf1 out1] Suc.prems(2) by simp_all
    then show ?thesis by (simp add: read_as_empty d_zero)
  qed
qed simp

lemma codepoint_read:
  assumes "parser_json_str_codepoint_fn m buf = (True, buf')" "buf_len buf \<le> SIZE_MAX"
  shows "read_as m PARSER_JSON_STR_CODEPOINT buf buf'"
proof -
  let ?b = "m (buf_data buf)" and ?n = "utf8_lead_len (m (buf_data buf))"
  have 1: "json_plain ?b" "?n \<noteq> 0" "?n \<le> buf_len buf" "list_all (\<lambda>i. utf8_cont (m (buf_data buf + i))) [1..<?n]"
    "buf' = gg_buffer_substr buf ?n SIZE_MAX"
    using assms(1) by (auto simp: parser_json_str_codepoint_fn_def json_plain_def Let_def not_le not_less split: if_splits)
  then obtain k where k: "?n = Suc k" by (cases ?n) auto
  let ?cs = "rd m (buf_data buf) ?n"
  have cs: "?cs = ?b # rd m (Suc (buf_data buf)) k" unfolding k by (rule rd_Suc)
  have "utf8_cont x" if "x \<in> set (rd m (Suc (buf_data buf)) k)" for x
  proof -
    from that obtain i where i: "i < k" "x = m (Suc (buf_data buf) + i)" by (auto simp: in_set_conv_nth)
    then have "Suc i \<in> set [1..<?n]" using k by auto
    then have "utf8_cont (m (buf_data buf + Suc i))" using 1(4) unfolding list_all_iff by blast
    then show ?thesis using i(2) by simp
  qed
  then have "utf8_char ?cs" unfolding utf8_char_def k rd_Suc by (simp add: list_all_iff k)
  moreover have "json_plain (hd ?cs)" using 1(1) by (simp add: cs)
  ultimately have "derives PARSER_JSON_STR_CODEPOINT ?cs" by (rule d_codepoint)
  then show ?thesis using 1(3,5) assms(2) by (auto simp: read_as_def substr_advance intro!: exI[of _ ?n])
qed

lemma leaf_read:
  assumes "buf_len buf \<le> SIZE_MAX"
  shows "parser_char_fn c m buf = (True, buf') \<Longrightarrow> read_as m (PARSER_CHAR c) buf buf'"
    "parser_str_fn s m buf = (True, buf') \<Longrightarrow> read_as m (PARSER_STR s) buf buf'"
    "parser_char_range_fn x y m buf = (True, buf') \<Longrightarrow> read_as m (PARSER_CHAR_RANGE x y) buf buf'"
proof -
  assume "parser_char_fn c m buf = (True, buf')"
  then have "1 \<le> buf_len buf" "m (buf_data buf) = c" "buf' = advance buf 1"
    using assms by (auto simp: parser_char_fn_def substr_advance not_less split: if_splits)
  then show "read_as m (PARSER_CHAR c) buf buf'" by (auto simp: read_as_def rd_Suc intro!: exI[of _ 1] d_char)
next
  assume "parser_str_fn s m buf = (True, buf')"
  then have 1: "length s \<le> buf_len buf" "memcmp s (rd m (buf_data buf) (length s)) (length s) = 0" "buf' = advance buf (length s)"
    using assms by (auto simp: parser_str_fn_def substr_advance not_less split: if_splits)
  then have "rd m (buf_data buf) (length s) = s" by (simp add: memcmp_0_iff)
  then show "read_as m (PARSER_STR s) buf buf'" using 1 by (auto simp: read_as_def intro!: exI[of _ "length s"] d_str)
next
  assume "parser_char_range_fn x y m buf = (True, buf')"
  then have "1 \<le> buf_len buf" "in_range x y (m (buf_data buf))" "buf' = advance buf 1"
    using assms by (auto simp: parser_char_range_fn_def in_range_def substr_advance Let_def not_less split: if_splits)
  then show "read_as m (PARSER_CHAR_RANGE x y) buf buf'" by (auto simp: read_as_def rd_Suc intro!: exI[of _ 1] d_range)
qed

lemma parser_fn_sound:
  assumes "call_sound m f"
  shows "call_sound m (parser_fn n f m)"
  unfolding call_sound_def
proof (intro conjI allI impI)
  show "call_ok (parser_fn n f m)" using assms by (intro parser_fn_ok) (simp add: call_sound_def)
  fix p buf out buf' out'
  assume r: "parser_fn n f m p buf out = Some (True, buf', out')" and len: "buf_len buf \<le> SIZE_MAX"
  note ok = call_soundD[OF assms _ len]
  show "read_as m p buf buf'"
  proof (cases p)
    case (COMB_ONE_OF ps)
    with r one_of_sound[OF assms _ len] show ?thesis by (simp add: parser_fn_def)
  next
    case (COMB_SEQUENCE ps)
    with r sequence_sound[OF assms _ len] show ?thesis
      by (auto simp: parser_fn_def comb_sequence_fn_def bind_Some_iff split: if_splits)
  next
    case (COMB_ZERO_OR_MORE q)
    with r zero_or_more_sound[OF assms _ len] show ?thesis by (simp add: parser_fn_def)
  next
    case (COMB_MAYBE q)
    with r obtain c o1 where "f q buf out = Some (c, buf', o1)" by (auto simp: parser_fn_def comb_maybe_fn_def bind_Some_iff)
    with COMB_MAYBE show ?thesis using ok[of q out buf' o1] sound_miss[OF assms _ len, of q out buf' o1]
      by (cases c) (auto intro: read_as_wrap d_maybe read_as_empty d_not)
  next
    case PARSER_JSON_STR_CODEPOINT
    with r codepoint_read[OF _ len] show ?thesis by (auto simp: parser_fn_def no_output_eq)
  qed (use r ok leaf_read[OF len] in \<open>auto simp: parser_fn_def comb_nested_fn_def comb_result_val_fn_def comb_increment_count_fn_def
      bind_Some_iff Let_def no_output_eq intro!: read_as_wrap[OF ok] derives.intros(8-10,15)\<close>)
qed

lemma parser_call_sound: "call_sound m (parser_call n m)"
  by (induction n) (auto simp: parser_fn_sound, simp add: call_sound_def call_ok_def)

lemmas parser_sound = call_soundD[OF parser_call_sound]

section \<open>Words of the parsers are JSON\<close>

lemma derives_more_iff: "derives (COMB_ZERO_OR_MORE p) t \<longleftrightarrow> (\<exists>ts. t = concat ts \<and> (\<forall>x \<in> set ts. derives p x))"
proof
  show "derives (COMB_ZERO_OR_MORE p) t \<Longrightarrow> \<exists>ts. t = concat ts \<and> (\<forall>x \<in> set ts. derives p x)"
  proof (induction "COMB_ZERO_OR_MORE p" t rule: derives.induct)
    case d_zero
    show ?case by (rule exI[of _ "[]"]) simp
  next
    case (d_more x y)
    then obtain ts where "y = concat ts" "\<forall>x \<in> set ts. derives p x" by blast
    with d_more(1) show ?case by (intro exI[of _ "x # ts"]) simp
  qed
  assume "\<exists>ts. t = concat ts \<and> (\<forall>x \<in> set ts. derives p x)"
  then obtain ts where "t = concat ts" "\<forall>x \<in> set ts. derives p x" by blast
  then show "derives (COMB_ZERO_OR_MORE p) t"
  proof (induction ts arbitrary: t)
    case (Cons x ts)
    then show ?case using d_more[of p x "concat ts"] by simp
  qed (simp add: d_zero)
qed

lemma derives_chars: "derives (COMB_ONE_OF (map PARSER_CHAR cs)) t \<longleftrightarrow> (\<exists>c \<in> set cs. t = [c])"
  by (auto simp: derives_simps)

lemma derives_many:
  assumes "derives (COMB_ZERO_OR_MORE p) t" "\<And>x. derives p x \<Longrightarrow> \<exists>c. x = [c] \<and> P c"
  shows "list_all P t"
proof -
  obtain ts where "t = concat ts" "\<forall>x \<in> set ts. derives p x" using assms(1) unfolding derives_more_iff by blast
  then show ?thesis
  proof (induction ts arbitrary: t)
    case (Cons x ts)
    then show ?case using assms(2)[of x] by auto
  qed simp
qed

lemma derives_ws:
  assumes "derives PARSER_JSON_WHITESPACE t"
  shows "json_ws t"
proof -
  have "list_all (\<lambda>c. c \<in> set ws_bytes) t"
    using assms unfolding PARSER_JSON_WHITESPACE_chars by (rule derives_many) (auto simp only: derives_chars)
  then show ?thesis by (auto simp: json_ws_def ws_bytes_def list_all_iff)
qed

lemma derives_digit: "derives PARSER_DIGIT t \<longleftrightarrow> (\<exists>c. t = [c] \<and> is_digit c)"
  by (auto simp: PARSER_DIGIT_def derives_simps is_digit_range)

lemma derives_digits: "derives (COMB_ZERO_OR_MORE PARSER_DIGIT) t \<Longrightarrow> list_all is_digit t"
  by (erule derives_many) (simp add: derives_digit)

lemma derives_hex: "derives PARSER_HEX_DIGIT t \<Longrightarrow> \<exists>c k. t = [c] \<and> hex_val c = Some k"
  by (auto simp: PARSER_HEX_DIGIT_def PARSER_DIGIT_def derives_simps in_range_iff hex_val_def)

lemma derives_escape:
  assumes "derives PARSER_JSON_STR_ESCAPE t"
  shows "(\<exists>c \<in> fst ` set json_escapes. t = [0x5C, c]) \<or> (\<exists>h k. hex4 h = Some k \<and> t = 0x5C # 0x75 # h)"
proof -
  obtain u where t: "t = 0x5C # u" and u: "derives (COMB_ONE_OF (map PARSER_CHAR esc_bytes @ [hex_escape])) u"
    using assms unfolding PARSER_JSON_STR_ESCAPE_chars by (auto simp: derives_simps)
  from u consider c where "c \<in> set esc_bytes" "u = [c]" | "derives hex_escape u"
    by (auto simp: derives_simps(1) derives_simps(8))
  then show ?thesis
  proof cases
    case (1 c)
    then have "c \<in> fst ` set json_escapes" by (auto simp: esc_bytes_def json_escapes_def)
    with 1 t show ?thesis by blast
  next
    case 2
    then obtain a b c d where h: "u = 0x75 # a @ b @ c @ d" "derives PARSER_HEX_DIGIT a" "derives PARSER_HEX_DIGIT b"
      "derives PARSER_HEX_DIGIT c" "derives PARSER_HEX_DIGIT d" by (auto simp: derives_simps)
    then have "\<exists>k. hex4 (a @ b @ c @ d) = Some k" by (auto dest!: derives_hex)
    with h(1) t show ?thesis by blast
  qed
qed

lemma derives_str_body: "derives (COMB_ZERO_OR_MORE str_item) e \<Longrightarrow> str_syn e"
proof -
  assume "derives (COMB_ZERO_OR_MORE str_item) e"
  then obtain ts where "e = concat ts" "\<forall>x \<in> set ts. derives str_item x" unfolding derives_more_iff by blast
  then show ?thesis
  proof (induction ts arbitrary: e)
    case (Cons x ts)
    then have rest: "str_syn (concat ts)" by simp
    have "derives PARSER_JSON_STR_CODEPOINT x \<or> derives PARSER_JSON_STR_ESCAPE x" using Cons.prems(2) by (auto simp: derives_simps(1))
    then show ?case
    proof
      assume "derives PARSER_JSON_STR_CODEPOINT x"
      then show ?thesis using Cons.prems(1) rest by (auto simp: derives_simps intro: syn_char)
    next
      assume "derives PARSER_JSON_STR_ESCAPE x"
      from derives_escape[OF this] consider c where "c \<in> fst ` set json_escapes" "x = [0x5C, c]"
        | h k where "hex4 h = Some k" "x = 0x5C # 0x75 # h" by blast
      then show ?thesis using Cons.prems(1) syn_esc[OF _ rest] syn_hex[OF _ rest] by cases auto
    qed
  qed (simp add: syn_end)
qed

lemma derives_string: "derives PARSER_JSON_STR t \<Longrightarrow> \<exists>e. str_syn e \<and> t = [0x22] @ e @ [0x22]"
  unfolding PARSER_JSON_STR_def using derives_str_body by (auto simp: derives_simps)

lemma derives_number:
  assumes "derives PARSER_JSON_NUMBER t"
  shows "num_syn t"
proof -
  obtain i f e where t: "t = i @ f @ e" "derives PARSER_INT_PART i" "derives (COMB_MAYBE PARSER_FRAC_PART) f" "derives (COMB_MAYBE PARSER_EXPONENT) e"
    using assms unfolding PARSER_JSON_NUMBER_def by (auto simp: derives_simps(2,3,6))
  have "\<exists>s ds. i = s @ ds \<and> s \<in> {[], [0x2D]} \<and> (ds = [0x30] \<or> (\<exists>d es. ds = d # es \<and> in_range 0x31 0x39 d \<and> list_all is_digit es))"
  proof -
    obtain s ds where "i = s @ ds" "derives (COMB_MAYBE (PARSER_CHAR 0x2D)) s"
      "derives (PARSER_CHAR 0x30) ds \<or> derives (COMB_SEQUENCE [PARSER_CHAR_RANGE 0x31 0x39, COMB_ZERO_OR_MORE PARSER_DIGIT]) ds"
      using t(2) unfolding PARSER_INT_PART_def by (auto simp: derives_simps(1-3))
    then show ?thesis using derives_digits by (intro exI[of _ s] exI[of _ ds]) (auto simp: derives_simps)
  qed
  then obtain s ds where i: "i = s @ ds" "s \<in> {[], [0x2D]}" "ds = [0x30] \<or> (\<exists>d es. ds = d # es \<and> in_range 0x31 0x39 d \<and> list_all is_digit es)"
    by blast
  then have "int_doc i" unfolding int_doc_def
    by (intro exI[of _ s] exI[of _ ds]) (auto simp: in_range_iff is_digit_def word_le_nat_alt)
  moreover have "frac_syn f" using t(3) derives_digits unfolding PARSER_FRAC_PART_def by (auto simp: derives_simps frac_syn_def)
  moreover have "exp_syn e"
  proof (cases "e = []")
    case False
    then have "derives PARSER_EXPONENT e" using t(4) by (simp add: derives_simps)
    then obtain x s d ds where e: "e = x @ s @ d @ ds" "derives (COMB_ONE_OF [PARSER_CHAR 0x65, PARSER_CHAR 0x45]) x"
      "derives (COMB_MAYBE (COMB_ONE_OF [PARSER_CHAR 0x2B, PARSER_CHAR 0x2D])) s" "derives PARSER_DIGIT d"
      "derives (COMB_ZERO_OR_MORE PARSER_DIGIT) ds" unfolding PARSER_EXPONENT_def by (auto simp: derives_simps(2,3))
    then obtain c d' where "e = c # s @ d' # ds" "c \<in> {0x65, 0x45}" "s \<in> {[], [0x2B], [0x2D]}" "is_digit d'" "list_all is_digit ds"
      using derives_digits by (auto simp: derives_simps derives_digit)
    then show ?thesis unfolding exp_syn_def by (intro disjI2 exI[of _ c] exI[of _ s] exI[of _ "d' # ds"]) simp
  qed (simp add: exp_syn_def)
  ultimately show ?thesis using t(1) unfolding num_syn_def by blast
qed

text \<open>Words of the bodies of arrays and objects, whose elements are JSON.\<close>

lemma ws_append: "json_ws w \<Longrightarrow> json_ws w' \<Longrightarrow> json_ws (w @ w')"
  by (simp add: json_ws_def)

lemma derives_body:
  assumes "derives (body item item_sep) t"
  shows "t = [] \<or> (\<exists>xs y. t = concat xs @ y \<and> (\<forall>x \<in> set xs. derives item_sep x) \<and> derives item y)"
proof (cases "t = []")
  case False
  then obtain x y where "t = x @ y" "derives (COMB_ZERO_OR_MORE (COMB_INCREMENT_COUNT item_sep)) x" "derives item y"
    using assms by (auto simp: derives_simps(2,3,4,7))
  moreover from this obtain xs where "x = concat xs" "\<forall>x \<in> set xs. derives item_sep x"
    unfolding derives_more_iff derives_simps(7) by blast
  ultimately show ?thesis by blast
qed simp

lemma elems_syn:
  assumes "\<And>t. length t \<le> n \<Longrightarrow> derives PARSER_JSON_VALUE t \<Longrightarrow> json_syn t"
    "\<forall>x \<in> set xs. derives elem_sep x" "derives PARSER_JSON_ARRAY_ELEM y" "length (concat xs @ y) \<le> n"
  shows "\<exists>w k ts. json_ws w \<and> items_syn k ts \<and> concat xs @ y = w @ ts"
  using assms(2,4)
proof (induction xs)
  case Nil
  then have "json_syn y" using assms(1)[of y] assms(3) by (simp add: PARSER_JSON_ARRAY_ELEM_def derives_simps(5))
  then show ?case unfolding json_syn_def using syn_item by fastforce
next
  case (Cons x xs)
  obtain e where x: "x = e @ [0x2C]" "derives PARSER_JSON_VALUE e"
    using Cons.prems(1) by (auto simp: PARSER_JSON_ARRAY_ELEM_def derives_simps(2,3,5,8))
  then have "json_syn e" using assms(1)[of e] Cons.prems(2) by simp
  then obtain w t w' where e: "json_ws w" "val_syn t" "json_ws w'" "e = w @ t @ w'" unfolding json_syn_def by blast
  obtain w2 k ts where r: "json_ws w2" "items_syn k ts" "concat xs @ y = w2 @ ts" using Cons by auto
  have "items_syn (Suc k) (t @ w' @ [0x2C] @ w2 @ ts)" by (rule syn_items[OF e(2,3) r(1,2)])
  then show ?case using e x(1) r(3) by (intro exI[of _ w] exI[of _ "Suc k"] exI[of _ "t @ w' @ [0x2C] @ w2 @ ts"]) simp
qed

lemma kv_syn:
  assumes "\<And>t. length t \<le> n \<Longrightarrow> derives PARSER_JSON_VALUE t \<Longrightarrow> json_syn t" "derives PARSER_JSON_OBJECT_KV y" "length y \<le> n"
  obtains e w1 w2 t w3 where "str_syn e" "json_ws w1" "json_ws w2" "val_syn t" "json_ws w3"
    "y = [0x22] @ e @ [0x22] @ w1 @ [0x3A] @ w2 @ t @ w3"
proof -
  obtain k w1 v where y: "y = k @ w1 @ [0x3A] @ v" "derives PARSER_JSON_STR k" "derives PARSER_JSON_WHITESPACE w1" "derives PARSER_JSON_VALUE v"
    using assms(2) unfolding PARSER_JSON_OBJECT_KV_def by (auto simp: derives_simps(2,3,5,8))
  have "json_syn v" using assms(1)[of v] assms(3) y(1,4) by simp
  then obtain w2 t w3 where "json_ws w2" "val_syn t" "json_ws w3" "v = w2 @ t @ w3" unfolding json_syn_def by blast
  then show thesis using that derives_string[OF y(2)] derives_ws[OF y(3)] y(1) by auto
qed

lemma pairs_of_syn:
  assumes "\<And>t. length t \<le> n \<Longrightarrow> derives PARSER_JSON_VALUE t \<Longrightarrow> json_syn t"
    "\<forall>x \<in> set xs. derives kv_sep x" "derives PARSER_JSON_OBJECT_KV y" "length (concat xs @ y) \<le> n"
  shows "\<exists>k. pairs_syn k (concat xs @ y)"
  using assms(2,4)
proof (induction xs)
  case Nil
  then have l: "length y \<le> n" by simp
  from kv_syn[OF assms(1,3) l] show ?case using syn_pair by (metis append_Nil concat.simps(1))
next
  case (Cons x xs)
  obtain kv w4 where x: "x = kv @ [0x2C] @ w4" "derives PARSER_JSON_OBJECT_KV kv" "json_ws w4"
    using Cons.prems(1) derives_ws by (auto simp: derives_simps(2,3,8))
  obtain k where r: "pairs_syn k (concat xs @ y)" using Cons by auto
  have l: "length kv \<le> n" using Cons.prems(2) x(1) by simp
  obtain e w1 w2 t w3 where kv: "str_syn e" "json_ws w1" "json_ws w2" "val_syn t" "json_ws w3"
    "kv = [0x22] @ e @ [0x22] @ w1 @ [0x3A] @ w2 @ t @ w3" by (rule kv_syn[OF assms(1) x(2) l])
  from syn_pairs[OF kv(1-5) x(3) r] show ?case using kv(6) x(1) by auto
qed

lemma array_syn:
  assumes "\<And>t. length t < n \<Longrightarrow> derives PARSER_JSON_VALUE t \<Longrightarrow> json_syn t" "derives PARSER_JSON_ARRAY t" "length t \<le> n"
  shows "val_syn t"
proof -
  obtain w b where t: "t = [0x5B] @ w @ b @ [0x5D]" "derives PARSER_JSON_WHITESPACE w" "derives (body PARSER_JSON_ARRAY_ELEM elem_sep) b"
    using assms(2) unfolding PARSER_JSON_ARRAY_def by (auto simp: derives_simps(2,3,6,8))
  have w: "json_ws w" by (rule derives_ws[OF t(2)])
  from derives_body[OF t(3)] show ?thesis
  proof (elim disjE exE conjE)
    assume "b = []"
    then show ?thesis using syn_nil[OF w] t(1) by simp
  next
    fix xs y assume b: "b = concat xs @ y" "\<forall>x \<in> set xs. derives elem_sep x" "derives PARSER_JSON_ARRAY_ELEM y"
    have "\<exists>w k ts. json_ws w \<and> items_syn k ts \<and> concat xs @ y = w @ ts"
      by (rule elems_syn[where n = "length b"]) (use assms(1,3) b t(1) in auto)
    then obtain w' k ts where "json_ws w'" "items_syn k ts" "b = w' @ ts" using b(1) by auto
    with syn_list[OF ws_append[OF w, of w'], of k ts] t(1) show ?thesis by simp
  qed
qed

lemma object_syn:
  assumes "\<And>t. length t < n \<Longrightarrow> derives PARSER_JSON_VALUE t \<Longrightarrow> json_syn t" "derives PARSER_JSON_OBJECT t" "length t \<le> n"
  shows "val_syn t"
proof -
  obtain w b where t: "t = [0x7B] @ w @ b @ [0x7D]" "derives PARSER_JSON_WHITESPACE w" "derives (body PARSER_JSON_OBJECT_KV kv_sep) b"
    using assms(2) unfolding PARSER_JSON_OBJECT_def by (auto simp: derives_simps(2,3,6,8))
  have w: "json_ws w" by (rule derives_ws[OF t(2)])
  from derives_body[OF t(3)] show ?thesis
  proof (elim disjE exE conjE)
    assume "b = []"
    then show ?thesis using syn_empty[OF w] t(1) by simp
  next
    fix xs y assume b: "b = concat xs @ y" "\<forall>x \<in> set xs. derives kv_sep x" "derives PARSER_JSON_OBJECT_KV y"
    have "\<exists>k. pairs_syn k (concat xs @ y)"
      by (rule pairs_of_syn[where n = "length b"]) (use assms(1,3) b t(1) in auto)
    then obtain k where "pairs_syn k b" using b(1) by auto
    from syn_map[OF w this] t(1) show ?thesis by simp
  qed
qed

lemma derives_value: "derives PARSER_JSON_VALUE t \<Longrightarrow> json_syn t"
proof (induction "length t" arbitrary: t rule: less_induct)
  case less
  obtain w c w' where t: "t = w @ c @ w'" "derives PARSER_JSON_WHITESPACE w" "derives json_core c" "derives PARSER_JSON_WHITESPACE w'"
    using less.prems unfolding json_value_parser_def derives_simps(12) by (auto simp: derives_simps(2,3))
  have IH: "\<And>u. length u < length t \<Longrightarrow> derives PARSER_JSON_VALUE u \<Longrightarrow> json_syn u" using less.hyps by blast
  have len: "length c \<le> length t" using t(1) by simp
  from t(3) consider "derives PARSER_JSON_STR c" | "derives PARSER_JSON_NUMBER c" | "derives PARSER_JSON_OBJECT c"
    | "derives PARSER_JSON_ARRAY c" | "c \<in> {str ''true'', str ''false'', str ''null''}"
    unfolding derives_simps(1) PARSER_JSON_TRUE_def PARSER_JSON_FALSE_def PARSER_JSON_NULL_def by (auto simp: derives_simps(6,9))
  then have "val_syn c"
  proof cases
    case 1
    then show ?thesis using derives_string syn_str by blast
  next
    case 2
    then show ?thesis by (intro syn_num derives_number)
  next
    case 3
    then show ?thesis using IH len by (intro object_syn)
  next
    case 4
    then show ?thesis using IH len by (intro array_syn)
  next
    case 5
    then show ?thesis by (auto intro: syn_true syn_false syn_null)
  qed
  then show ?case using t derives_ws unfolding json_syn_def by blast
qed

section \<open>The parser recognises JSON\<close>

lemma whole_match_syn:
  assumes "parser_call n m PARSER_JSON_VALUE buf out = Some (True, buf', out')" "buf_len buf \<le> SIZE_MAX" "buf_len buf' = 0"
  shows "json_syn (contents m buf)"
proof -
  obtain k where k: "k \<le> buf_len buf" "buf' = advance buf k" "derives PARSER_JSON_VALUE (rd m (buf_data buf) k)"
    using parser_sound[OF assms(1,2)] by (auto simp: read_as_def)
  then have "k = buf_len buf" using assms(3) by simp
  with derives_value[OF k(3)] show ?thesis by (simp add: contents_def)
qed

lemma syn_whole_match:
  assumes "json_syn (contents m buf)" "buf_len buf \<le> SIZE_MAX"
  shows "\<exists>out'. parses m PARSER_JSON_VALUE buf out (True, advance buf (buf_len buf), out')"
proof -
  obtain w t w' where t: "json_ws w" "val_syn t" "json_ws w'" "contents m buf = w @ t @ w'" using assms(1) unfolding json_syn_def by blast
  obtain f where f: "eats PARSER_JSON_VALUE (w @ t @ w') [] f"
    using value_parsed[OF syn_parsed(1)[OF t(2)] t(1,3), of "[]"] by (auto simp: val_ends_def)
  have "length (w @ t @ w') = buf_len buf" using t(4) by (metis length_contents)
  with eatsD[OF f, of m buf out] t(4) assms(2) show ?thesis by auto
qed

section \<open>Properties\<close>

text \<open>C14: The parser recognises JSON exactly: on every buffer it terminates, and it matches and consumes the whole
  buffer if and only if the buffer holds a JSON text, with white space around it (the syntax of RFC 8259, in
  which a fraction may have no digits). The decoder accepts nothing else.\<close>

theorem json_parser_exact:
  assumes "buf_len buf \<le> SIZE_MAX"
  shows "(\<exists>N matches buf' out'. (\<forall>n \<ge> N. parser_call n m PARSER_JSON_VALUE buf out = Some (matches, buf', out')) \<and>
      (matches \<and> buf_len buf' = 0 \<longleftrightarrow> json_syn (contents m buf))) \<and>
    (\<forall>n x a m'. gg_json_decode_destructive n pruned buf arena want m = Some (Inr x, a, m') \<longrightarrow> json_syn (contents m buf))"
proof (intro conjI allI impI)
  obtain N matches buf' out' where N: "\<And>n. N \<le> n \<Longrightarrow> parser_call n m PARSER_JSON_VALUE buf out = Some (matches, buf', out')"
    using totalE[OF parser_terminates[of PARSER_JSON_VALUE buf m]] assms by (metis wf_parser.simps(12))
  then have p: "parses m PARSER_JSON_VALUE buf out (matches, buf', out')" by (auto simp: parses_def eventually_sequentially)
  have "matches \<and> buf_len buf' = 0 \<longleftrightarrow> json_syn (contents m buf)"
  proof
    assume "matches \<and> buf_len buf' = 0"
    then show "json_syn (contents m buf)" using whole_match_syn[OF _ assms] N[OF order_refl] by simp
  next
    assume "json_syn (contents m buf)"
    then show "matches \<and> buf_len buf' = 0" using syn_whole_match[OF _ assms, of m out] parses_det[OF p] by fastforce
  qed
  with N show "\<exists>N matches buf' out'. (\<forall>n \<ge> N. parser_call n m PARSER_JSON_VALUE buf out = Some (matches, buf', out')) \<and>
      (matches \<and> buf_len buf' = 0 \<longleftrightarrow> json_syn (contents m buf))" by blast
next
  fix n x a m' assume r: "gg_json_decode_destructive n pruned buf arena want m = Some (Inr x, a, m')"
  define a0 where "a0 = (case arena of None \<Rightarrow> \<lparr>arena_mem = NULL, arena_capacity = 0, arena_index = 0\<rparr> | Some a \<Rightarrow> a)"
  obtain ret buf2 a2 m2 where 0: "take_json_val n pruned buf a0 want m = Some (ret, buf2, a2, m2)"
    using r unfolding gg_json_decode_destructive_def a0_def by (auto simp: bind_Some_iff)
  then have 1: "take_json_val n pruned buf a0 want m = Some (Inr x, buf2, a2, m2)" "buf_len buf2 = 0"
    using r unfolding gg_json_decode_destructive_def a0_def by (cases ret; simp split: if_splits)+
  then obtain k o1 where "parser_call k m PARSER_JSON_VALUE buf (Some PARSE_RESULT_INIT) = Some (True, buf2, o1)"
    by (cases n) (auto simp: bind_Some_iff split: if_splits)
  from whole_match_syn[OF this assms 1(2)] show "json_syn (contents m buf)" .
qed

theorem json_parser_exact_witness:
  "\<exists>N buf' out'. \<forall>n \<ge> N. parser_call n (wr (\<lambda>_. 0) 8 (str ''[1.5, {}]'')) PARSER_JSON_VALUE \<lparr>buf_data = 8, buf_len = 9\<rparr> None =
     Some (True, buf', out')"
proof -
  let ?m = "wr (\<lambda>_. 0) 8 (str ''[1.5, {}]'')" and ?b = "\<lparr>buf_data = 8, buf_len = 9\<rparr>"
  have ws: "json_ws []" "json_ws [0x20]" by (simp_all add: json_ws_def)
  have "num_syn (str ''1.5'')" unfolding num_syn_def
    by (intro exI[of _ "str ''1''"] exI[of _ "str ''.5''"] exI[of _ "[]"])
      (auto simp: str_def chr_def int_doc_def frac_syn_def exp_syn_def is_digit_def intro: exI[of _ "[]"])
  from syn_items[OF syn_num[OF this] ws syn_item[OF syn_empty[OF ws(1)] ws(1)]]
  have "items_syn 2 (str ''1.5'' @ [] @ [0x2C] @ [0x20] @ (str ''{}'' @ []))" by (simp add: str_def chr_def numeral_2_eq_2)
  from syn_list[OF ws(1) this] have "val_syn (str ''[1.5, {}]'')" by (simp add: str_def chr_def)
  moreover have "contents ?m ?b = [] @ str ''[1.5, {}]'' @ []" by (simp add: contents_def rd_wr_same')
  ultimately have "json_syn (contents ?m ?b)" unfolding json_syn_def using ws(1) by blast
  moreover have "buf_len ?b \<le> SIZE_MAX" by (simp add: SIZE_MAX_def)
  ultimately show ?thesis using json_parser_exact[of ?b ?m None] by metis
qed

end
