(* ===== verification/File_Path.thy ===== *)
theory File_Path
  imports File
begin

text \<open>
  Opening files and directories by path (\<open>src/file.c\<close>). A path is walked one component at a time: every
  component is opened relative to the descriptor of the one before it, which is then closed. The kernel's
  answers come from \<open>os_ret\<close>; \<open>os_opened\<close> records what was opened and created. \<open>gg_file_open_no_leak\<close>
  and \<open>gg_dir_openat_walks\<close> are the two promises: no descriptor is lost on any path through the code, and a
  directory is reached through exactly the components of its path.
\<close>

section \<open>Definitions\<close>

text \<open>The flags as Linux has them on this machine.\<close>

definition O_RDONLY :: open_flags where "O_RDONLY = 0"
definition O_CREAT :: open_flags where "O_CREAT = 0x40"
definition O_DIRECTORY :: open_flags where "O_DIRECTORY = 0x10000"
definition O_CLOEXEC :: open_flags where "O_CLOEXEC = 0x80000"
definition O_PATH :: open_flags where "O_PATH = 0x200000"
definition AT_FDCWD :: int where "AT_FDCWD = -100"
definition NAME_MAX :: nat where "NAME_MAX = 255"

unbundle bit_operations_syntax

text \<open>The kernel reads a name up to its terminator.\<close>

definition c_string :: "bytes \<Rightarrow> bytes" where
  "c_string bs = takeWhile (\<lambda>b. b \<noteq> 0) bs"

definition sys_openat :: "int \<Rightarrow> bytes \<Rightarrow> open_flags \<Rightarrow> nat \<Rightarrow> os \<Rightarrow> (nat option \<times> os) run" where
  "sys_openat dirfd pathname flags mode os = do {
     (fd, os) \<leftarrow> sys_new_fd os;
     Some (case fd of
         None \<Rightarrow> (None, os)
       | Some fd \<Rightarrow> (Some fd, os\<lparr>os_opened := os_opened os @ [Opened dirfd (c_string pathname) flags mode fd]\<rparr>))
   }"

definition sys_mkdirat :: "int \<Rightarrow> bytes \<Rightarrow> nat \<Rightarrow> os \<Rightarrow> (bool \<times> os) run" where
  "sys_mkdirat dirfd pathname mode os = do {
     (ok, os) \<leftarrow> sys_status os;
     Some (ok, if ok then os\<lparr>os_opened := os_opened os @ [Created dirfd (c_string pathname) mode]\<rparr> else os)
   }"

lemma sys_openat_consumes: "sys_openat d p f md os = Some (r, os') \<Longrightarrow> length (os_ret os') < length (os_ret os)"
  by (auto simp: sys_openat_def sys_new_fd_def Let_def split: if_split_asm option.split_asm elim!: bind_SomeE dest!: sys_status_consumes)

lemma sys_mkdirat_consumes: "sys_mkdirat d p md os = Some (r, os') \<Longrightarrow> length (os_ret os') < length (os_ret os)"
  by (auto simp: sys_mkdirat_def split: if_split_asm elim!: bind_SomeE dest!: sys_status_consumes)

function openat_wrapper :: "int \<Rightarrow> bytes \<Rightarrow> open_flags \<Rightarrow> nat \<Rightarrow> os \<Rightarrow> (nat option \<times> os) run" where
  "openat_wrapper dirfd pathname flags mode os =
     (case sys_openat dirfd pathname flags mode os of
        None \<Rightarrow> None
      | Some (ret, os) \<Rightarrow>
          if ret = None \<and> os_errno os = EINTR then openat_wrapper dirfd pathname flags mode os else Some (ret, os))"
  by pat_completeness auto
termination by (relation "measure (\<lambda>(_, _, _, _, os). length (os_ret os))") (auto dest: sys_openat_consumes)

function mkdirat_loop :: "int \<Rightarrow> bytes \<Rightarrow> nat \<Rightarrow> os \<Rightarrow> (bool \<times> os) run" where
  "mkdirat_loop dirfd pathname mode os =
     (case sys_mkdirat dirfd pathname mode os of
        None \<Rightarrow> None
      | Some (ok, os) \<Rightarrow> if \<not> ok \<and> os_errno os = EINTR then mkdirat_loop dirfd pathname mode os else Some (ok, os))"
  by pat_completeness auto
termination by (relation "measure (\<lambda>(_, _, _, os). length (os_ret os))") (auto dest: sys_mkdirat_consumes)

declare openat_wrapper.simps [simp del] mkdirat_loop.simps [simp del]

text \<open>\<open>gg_openat\<close> has the same loop in its own body.\<close>

definition gg_openat :: "int \<Rightarrow> bytes \<Rightarrow> open_flags \<Rightarrow> nat \<Rightarrow> os \<Rightarrow> (nat res \<times> os) run" where
  "gg_openat dirfd pathname flags mode os = do {
     (ret, os) \<leftarrow> openat_wrapper dirfd pathname flags mode os;
     Some (case ret of None \<Rightarrow> Inl GG_ERR_FAILURE | Some fd \<Rightarrow> Inr fd, os)
   }"

definition copy_dir_fd :: "int \<Rightarrow> open_flags \<Rightarrow> os \<Rightarrow> (nat res \<times> os) run" where
  "copy_dir_fd dirfd flags os = do {
     (fd, os) \<leftarrow> openat_wrapper dirfd (str ''.'') (O_CLOEXEC OR O_DIRECTORY OR flags) 0 os;
     Some (case fd of None \<Rightarrow> Inl GG_ERR_FAILURE | Some fd \<Rightarrow> Inr fd, os)
   }"

definition gg_mkdirat :: "int \<Rightarrow> bytes \<Rightarrow> nat \<Rightarrow> os \<Rightarrow> (GgError \<times> os) run" where
  "gg_mkdirat dirfd pathname mode os = do {
     (ret, os) \<leftarrow> copy_dir_fd dirfd O_RDONLY os;
     case ret of
       Inl e \<Rightarrow> Some (e, os)
     | Inr parent_fd \<Rightarrow> do {
         (ok, os) \<leftarrow> mkdirat_loop (int parent_fd) pathname mode os;
         if \<not> ok then cleanup_close parent_fd (GG_ERR_FAILURE, os)
         else do {
           (ret, os) \<leftarrow> gg_fsync os;
           cleanup_close parent_fd (ret, os)
         }
       }
   }"

definition gg_dir_openat_mkdir :: "int \<Rightarrow> bytes \<Rightarrow> open_flags \<Rightarrow> nat \<Rightarrow> os \<Rightarrow> (nat res \<times> os) run" where
  "gg_dir_openat_mkdir dirfd pathname flags mode os = do {
     (ret, os) \<leftarrow> gg_openat dirfd pathname flags 0 os;
     case ret of
       Inr fd \<Rightarrow> Some (Inr fd, os)
     | Inl e \<Rightarrow>
         if os_errno os = ENOENT then do {
           (ret, os) \<leftarrow> gg_mkdirat dirfd pathname mode os;
           if ret \<noteq> GG_ERR_OK then Some (Inl ret, os)
           else gg_openat dirfd pathname flags 0 os
         }
         else Some (Inl e, os)
   }"

text \<open>Splitting at the first and at the last slash, with the two parts and whether there was one.\<close>

function first_comp_loop :: "bytes \<Rightarrow> nat \<Rightarrow> bool \<times> bytes \<times> bytes" where
  "first_comp_loop path i =
     (if i < length path then
        if path ! i = chr CHR ''/'' then (True, take i path, drop (i + 1) path) else first_comp_loop path (i + 1)
      else (False, path, drop (length path) path))"
  by pat_completeness auto
termination by (relation "measure (\<lambda>(path, i). length path - i)") auto

declare first_comp_loop.simps [simp del]

definition split_path_first_comp :: "bytes \<Rightarrow> bool \<times> bytes \<times> bytes" where
  "split_path_first_comp path = first_comp_loop path 0"

fun last_comp_loop :: "bytes \<Rightarrow> nat \<Rightarrow> bool \<times> bytes \<times> bytes" where
  "last_comp_loop path 0 = (False, take 0 path, path)"
| "last_comp_loop path (Suc i) =
     (if path ! i = chr CHR ''/'' then (True, take i path, drop (Suc i) path) else last_comp_loop path i)"

definition split_path_last_comp :: "bytes \<Rightarrow> bool \<times> bytes \<times> bytes" where
  "split_path_last_comp path = last_comp_loop path (length path)"

function strip_trailing_slashes :: "bytes \<Rightarrow> bytes" where
  "strip_trailing_slashes path =
     (if length path \<ge> 1 \<and> path ! (length path - 1) = chr CHR ''/'' then strip_trailing_slashes (take (length path - 1) path)
      else path)"
  by pat_completeness auto
termination by (relation "measure length") auto

declare strip_trailing_slashes.simps [simp del]

text \<open>Opening a directory below \<open>dirfd\<close>. The loop returns the last descriptor and the last component, or an
  error after closing the descriptor it holds.\<close>

definition open_comp :: "bool \<Rightarrow> nat \<Rightarrow> bytes \<Rightarrow> open_flags \<Rightarrow> os \<Rightarrow> (nat res \<times> os) run" where
  "open_comp create cur_fd component flags os =
     (if create then gg_dir_openat_mkdir (int cur_fd) component (O_CLOEXEC OR O_DIRECTORY OR flags) 0x1ED os
      else gg_openat (int cur_fd) component (O_CLOEXEC OR O_DIRECTORY OR flags) 0 os)"

lemma first_comp_shorter: "split_path_first_comp path = (True, component, rest) \<Longrightarrow> length rest < length path"
proof -
  have "first_comp_loop path i = (True, component, rest) \<Longrightarrow> length rest < length path" for i
    by (induction path i rule: first_comp_loop.induct) (subst (asm) (2) first_comp_loop.simps, auto split: if_split_asm)
  then show "split_path_first_comp path = (True, component, rest) \<Longrightarrow> length rest < length path"
    by (simp add: split_path_first_comp_def)
qed

function dir_loop :: "bool \<Rightarrow> nat \<Rightarrow> bytes \<Rightarrow> os \<Rightarrow> ((nat \<times> bytes) res \<times> os) run" where
  "dir_loop create cur_fd rest os =
     (case split_path_first_comp rest of
        (False, component, _) \<Rightarrow> Some (Inr (cur_fd, component), os)
      | (True, component, rest) \<Rightarrow>
          if length component = 0 then dir_loop create cur_fd rest os
          else if length component > NAME_MAX then cleanup_close cur_fd (Inl GG_ERR_RANGE, os)
          else case open_comp create cur_fd component O_PATH os of
              None \<Rightarrow> None
            | Some (Inl _, os) \<Rightarrow> cleanup_close cur_fd (Inl GG_ERR_FAILURE, os)
            | Some (Inr new_fd, os) \<Rightarrow>
                (case gg_close os cur_fd of None \<Rightarrow> None | Some (_, os) \<Rightarrow> dir_loop create new_fd rest os))"
  by pat_completeness auto
termination by (relation "measure (\<lambda>(_, _, rest, _). length rest)") (auto dest: first_comp_shorter sym)

declare dir_loop.simps [simp del]

definition gg_dir_openat :: "int \<Rightarrow> bytes \<Rightarrow> open_flags \<Rightarrow> bool \<Rightarrow> os \<Rightarrow> (nat res \<times> os) run" where
  "gg_dir_openat dirfd path flags create os = do {
     let rest = strip_trailing_slashes path;
     (ret, os) \<leftarrow> copy_dir_fd dirfd O_PATH os;
     case ret of
       Inl e \<Rightarrow> Some (Inl e, os)
     | Inr cur_fd \<Rightarrow> do {
         (ret, os) \<leftarrow> dir_loop create cur_fd rest os;
         case ret of
           Inl e \<Rightarrow> Some (Inl e, os)
         | Inr (cur_fd, component) \<Rightarrow>
             if length component > NAME_MAX then cleanup_close cur_fd (Inl GG_ERR_NOMEM, os)
             else do {
               (ret, os) \<leftarrow> open_comp create cur_fd component flags os;
               cleanup_close cur_fd (case ret of Inl _ \<Rightarrow> Inl GG_ERR_FAILURE | Inr result \<Rightarrow> Inr result, os)
             }
       }
   }"

text \<open>\<open>open\<close> of \<open>/\<close> or \<open>.\<close>; it is not repeated when interrupted.\<close>

definition open_base :: "bool \<Rightarrow> open_flags \<Rightarrow> os \<Rightarrow> (nat option \<times> os) run" where
  "open_base absolute flags os =
     sys_openat AT_FDCWD (str (if absolute then ''/'' else ''.'')) (O_CLOEXEC OR O_DIRECTORY OR flags) 0 os"

definition is_absolute :: "bytes \<Rightarrow> bool" where
  "is_absolute path = (path ! 0 = chr CHR ''/'')"

definition gg_dir_open :: "bytes \<Rightarrow> open_flags \<Rightarrow> bool \<Rightarrow> os \<Rightarrow> (nat res \<times> os) run" where
  "gg_dir_open path flags create os =
     (if length path = 0 then Some (Inl GG_ERR_INVALID, os)
      else let absolute = is_absolute path;
               rel_path = strip_trailing_slashes (if absolute then drop 1 path else path) in
        if length rel_path = 0 then
          if \<not> absolute then Some (Inl GG_ERR_INVALID, os)
          else do {
            (fd, os) \<leftarrow> open_base True flags os;
            Some (case fd of None \<Rightarrow> Inl GG_ERR_FAILURE | Some fd \<Rightarrow> Inr fd, os)
          }
        else do {
          (base_fd, os) \<leftarrow> open_base absolute (if create then O_RDONLY else O_PATH) os;
          case base_fd of
            None \<Rightarrow> Some (Inl GG_ERR_FAILURE, os)
          | Some base_fd \<Rightarrow> do {
              r \<leftarrow> gg_dir_openat (int base_fd) rel_path flags create os;
              cleanup_close base_fd r
            }
        })"

definition gg_file_openat :: "int \<Rightarrow> bytes \<Rightarrow> open_flags \<Rightarrow> nat \<Rightarrow> os \<Rightarrow> (nat res \<times> os) run" where
  "gg_file_openat dirfd path flags mode os = do {
     let (has_dir, dir, file) = split_path_last_comp path;
     (ret, os) \<leftarrow> (if has_dir then gg_dir_openat dirfd dir O_PATH (flags AND O_CREAT \<noteq> 0) os
                   else copy_dir_fd dirfd O_PATH os);
     case ret of
       Inl e \<Rightarrow> Some (Inl e, os)
     | Inr cur_fd \<Rightarrow>
         if length file > NAME_MAX then cleanup_close cur_fd (Inl GG_ERR_NOMEM, os)
         else do {
           (ret, os) \<leftarrow> gg_openat (int cur_fd) file (O_CLOEXEC OR flags) mode os;
           cleanup_close cur_fd (case ret of Inl _ \<Rightarrow> Inl GG_ERR_FAILURE | Inr result \<Rightarrow> Inr result, os)
         }
   }"

text \<open>What \<open>gg_file_open\<close> and \<open>gg_file_read_path\<close> do with a path before they use it.\<close>

definition below_base :: "bytes \<Rightarrow> (int \<Rightarrow> bytes \<Rightarrow> os \<Rightarrow> ('a res \<times> os) run) \<Rightarrow> os \<Rightarrow> ('a res \<times> os) run" where
  "below_base path act os =
     (if length path = 0 then Some (Inl GG_ERR_INVALID, os)
      else let absolute = is_absolute path; rel_path = (if absolute then drop 1 path else path) in
        if length rel_path = 0 then Some (Inl GG_ERR_INVALID, os)
        else do {
          (base_fd, os) \<leftarrow> open_base absolute O_PATH os;
          case base_fd of
            None \<Rightarrow> Some (Inl GG_ERR_FAILURE, os)
          | Some base_fd \<Rightarrow> do {
              r \<leftarrow> act (int base_fd) rel_path os;
              cleanup_close base_fd r
            }
        })"

definition gg_file_open :: "bytes \<Rightarrow> open_flags \<Rightarrow> nat \<Rightarrow> os \<Rightarrow> (nat res \<times> os) run" where
  "gg_file_open path flags mode os =
     below_base path (\<lambda>base_fd rel_path os. gg_file_openat base_fd rel_path flags mode os) os"

text \<open>Reading a whole file into a buffer of \<open>room\<close> bytes. The file is what \<open>fstat\<close> and \<open>read\<close> say of it:
  its size and the events of its reads.\<close>

record file_content =
  st_size :: nat
  file_reads :: "rd_ev list"

definition gg_file_read_path_at :: "file_content \<Rightarrow> int \<Rightarrow> bytes \<Rightarrow> nat \<Rightarrow> os \<Rightarrow> (bytes res \<times> os) run" where
  "gg_file_read_path_at file dirfd path room os = do {
     (ret, os) \<leftarrow> gg_file_openat dirfd path O_RDONLY 0 os;
     case ret of
       Inl e \<Rightarrow> Some (Inl e, os)
     | Inr fd \<Rightarrow> do {
         (ok, os) \<leftarrow> sys_status os;
         if \<not> ok then cleanup_close fd (Inl GG_ERR_FAILURE, os)
         else let file_size = st_size file in
           if file_size > room then cleanup_close fd (Inl GG_ERR_NOMEM, os)
           else do {
             (ret, _) \<leftarrow> gg_file_read_exact (file_reads file) file_size;
             cleanup_close fd (ret, os)
           }
       }
   }"

definition gg_file_read_path :: "file_content \<Rightarrow> bytes \<Rightarrow> nat \<Rightarrow> os \<Rightarrow> (bytes res \<times> os) run" where
  "gg_file_read_path file path room os =
     below_base path (\<lambda>base_fd rel_path os. gg_file_read_path_at file base_fd rel_path room os) os"

text \<open>The constructor of the library sets a handler for \<open>SIGPIPE\<close> that does nothing, unless the process was started with
  another disposition.\<close>

datatype sig_handler = SIG_DFL | SIG_IGN | Handler string

definition ignore_sigpipe :: "sig_handler \<Rightarrow> os \<Rightarrow> (sig_handler \<times> os) run" where
  "ignore_sigpipe sa_handler os = do {
     (ok, os) \<leftarrow> sys_status os;
     c_assert ok;
     if sa_handler = SIG_DFL then do {
       (ok, os) \<leftarrow> sys_status os;
       c_assert ok;
       Some (Handler ''empty_sig_handler'', os)
     }
     else Some (sa_handler, os)
   }"

section \<open>Descriptors\<close>

text \<open>A call that returns a descriptor has opened exactly that one; a call that fails has opened none.\<close>

definition opens :: "os \<Rightarrow> nat res \<times> os \<Rightarrow> bool" where
  "opens os r \<longleftrightarrow> (case fst r of Inl _ \<Rightarrow> os_fds (snd r) = os_fds os
     | Inr fd \<Rightarrow> fd \<notin> set (os_fds os) \<and> os_fds (snd r) = fd # os_fds os)"

lemma opens_iff [simp]:
  "opens os (Inl e, os') \<longleftrightarrow> os_fds os' = os_fds os"
  "opens os (Inr fd, os') \<longleftrightarrow> fd \<notin> set (os_fds os) \<and> os_fds os' = fd # os_fds os"
  by (simp_all add: opens_def)

lemma cleanup_close_fds: "cleanup_close fd r = Some (x, os') \<Longrightarrow> x = fst r \<and> os_fds os' = remove1 fd (os_fds (snd r))"
  by (auto simp: cleanup_close_def elim!: bind_SomeE dest: gg_close_fds)

lemma sys_openat_fds:
  "sys_openat d p f md os = Some (r, os') \<Longrightarrow>
   (case r of None \<Rightarrow> os_fds os' = os_fds os | Some fd \<Rightarrow> fd \<notin> set (os_fds os) \<and> os_fds os' = fd # os_fds os)"
  by (auto simp: sys_openat_def lowest_fd_new split: option.split_asm elim!: bind_SomeE dest!: sys_new_fd_fds)

lemma openat_wrapper_fds:
  "openat_wrapper d p f md os = Some (r, os') \<Longrightarrow>
   (case r of None \<Rightarrow> os_fds os' = os_fds os | Some fd \<Rightarrow> fd \<notin> set (os_fds os) \<and> os_fds os' = fd # os_fds os)"
proof (induction d p f md os rule: openat_wrapper.induct)
  case (1 d p f md os)
  then show ?case
    by (subst (asm) (2) openat_wrapper.simps) (auto split: option.split_asm if_split_asm dest!: sys_openat_fds)
qed

lemma gg_openat_opens: "gg_openat d p f md os = Some r \<Longrightarrow> opens os r"
  by (auto simp: gg_openat_def elim!: bind_SomeE dest!: openat_wrapper_fds split: option.split_asm)

lemma copy_dir_fd_opens: "copy_dir_fd d f os = Some r \<Longrightarrow> opens os r"
  by (auto simp: copy_dir_fd_def elim!: bind_SomeE dest!: openat_wrapper_fds split: option.split_asm)

lemma mkdirat_loop_fds: "mkdirat_loop d p md os = Some (ok, os') \<Longrightarrow> os_fds os' = os_fds os"
proof (induction d p md os rule: mkdirat_loop.induct)
  case (1 d p md os)
  have "sys_mkdirat d p md os = Some (ok, os1) \<Longrightarrow> os_fds os1 = os_fds os" for ok os1
    by (auto simp: sys_mkdirat_def elim!: bind_SomeE dest: sys_status_fds split: if_split_asm)
  with 1 show ?case
    by (subst (asm) (2) mkdirat_loop.simps) (auto split: option.split_asm if_split_asm)
qed

lemma gg_fsync_fds: "gg_fsync os = Some (e, os') \<Longrightarrow> os_fds os' = os_fds os"
proof -
  have "fsync_loop os = Some (ok, os') \<Longrightarrow> os_fds os' = os_fds os" for ok
  proof (induction os rule: fsync_loop.induct)
    case (1 os)
    then show ?case
      by (subst (asm) (2) fsync_loop.simps) (auto split: option.split_asm if_split_asm dest: sys_status_fds)
  qed
  then show "gg_fsync os = Some (e, os') \<Longrightarrow> os_fds os' = os_fds os"
    by (auto simp: gg_fsync_def elim!: bind_SomeE)
qed

lemma gg_mkdirat_fds: "gg_mkdirat d p md os = Some (e, os') \<Longrightarrow> os_fds os' = os_fds os"
  by (auto simp: gg_mkdirat_def split: sum.split_asm if_split_asm elim!: bind_SomeE
      dest!: copy_dir_fd_opens mkdirat_loop_fds gg_fsync_fds cleanup_close_fds)

lemma open_comp_opens: "open_comp create d c f os = Some r \<Longrightarrow> opens os r"
  by (auto simp: open_comp_def gg_dir_openat_mkdir_def split: sum.split_asm if_split_asm elim!: bind_SomeE
      dest!: gg_openat_opens gg_mkdirat_fds)
     (auto simp: opens_def split: sum.splits)

lemma dir_loop_cases:
  assumes "dir_loop create cur rest os = Some (r, os')"
  obtains (last) c rest' where "split_path_first_comp rest = (False, c, rest')" "r = Inr (cur, c)" "os' = os"
    | (skip) rest' where "split_path_first_comp rest = (True, [], rest')" "dir_loop create cur rest' os = Some (r, os')"
    | (err) e os1 where "os_fds os1 = os_fds os" "cleanup_close cur (Inl e :: (nat \<times> bytes) res, os1) = Some (r, os')"
    | (down) c rest' new os1 e os2 where "split_path_first_comp rest = (True, c, rest')" "c \<noteq> []"
        "open_comp create cur c O_PATH os = Some (Inr new, os1)" "gg_close os1 cur = Some (e, os2)"
        "dir_loop create new rest' os2 = Some (r, os')"
proof -
  obtain b c rest' where sp: "split_path_first_comp rest = (b, c, rest')" by (cases "split_path_first_comp rest")
  show ?thesis
  proof (cases "b \<and> c \<noteq> [] \<and> length c \<le> NAME_MAX")
    case True
    then obtain x os1 where x: "open_comp create cur c O_PATH os = Some (x, os1)"
      using assms sp by (subst (asm) dir_loop.simps) (auto split: option.split_asm)
    show ?thesis
    proof (cases x)
      case (Inl e)
      then have "cleanup_close cur (Inl GG_ERR_FAILURE, os1) = Some (r, os')"
        using assms sp True x by (subst (asm) dir_loop.simps) auto
      then show ?thesis using err[of os1] open_comp_opens[OF x] Inl by simp
    next
      case (Inr new)
      then obtain e os2 where "gg_close os1 cur = Some (e, os2)" "dir_loop create new rest' os2 = Some (r, os')"
        using assms sp True x by (subst (asm) dir_loop.simps) (auto split: option.split_asm)
      then show ?thesis using sp True x Inr by (intro down) auto
    qed
  next
    case False
    then show ?thesis
      using assms sp last skip err[of os] by (subst (asm) dir_loop.simps)
        (auto split: if_split_asm bool.split_asm)
  qed
qed

lemma dir_loop_fds:
  "dir_loop create cur rest os = Some (r, os') \<Longrightarrow> os_fds os = cur # F \<Longrightarrow> cur \<notin> set F \<Longrightarrow>
   (case r of Inl _ \<Rightarrow> os_fds os' = F | Inr (fd, _) \<Rightarrow> os_fds os' = fd # F \<and> fd \<notin> set F)"
proof (induction "length rest" arbitrary: cur rest os rule: less_induct)
  case less
  from less.prems(1) show ?case
  proof (cases rule: dir_loop_cases)
    case (skip rest')
    then show ?thesis using less.hyps[OF first_comp_shorter[OF skip(1)]] less.prems by simp
  next
    case (err e os1)
    then show ?thesis using less.prems by (auto dest: cleanup_close_fds)
  next
    case (down c rest' new os1 e os2)
    have "os_fds os1 = new # cur # F" "new \<notin> set (cur # F)" using open_comp_opens[OF down(3)] less.prems by simp_all
    then have "os_fds os2 = new # F" "new \<notin> set F" using gg_close_fds[OF down(4)] by auto
    then show ?thesis using less.hyps[OF first_comp_shorter[OF down(1)] down(5)] by simp
  qed (use less.prems in auto)
qed

lemma gg_dir_openat_opens:
  assumes "gg_dir_openat d p f create os = Some r"
  shows "opens os r"
proof -
  obtain ret os1 where c: "copy_dir_fd d O_PATH os = Some (ret, os1)" "opens os (ret, os1)"
    using assms copy_dir_fd_opens by (auto simp: gg_dir_openat_def elim!: bind_SomeE)
  show ?thesis
  proof (cases ret)
    case (Inr cur)
    obtain x os2 where l: "dir_loop create cur (strip_trailing_slashes p) os1 = Some (x, os2)"
      using assms c(1) Inr by (auto simp: gg_dir_openat_def elim!: bind_SomeE)
    with dir_loop_fds[OF this, of "os_fds os"] c Inr assms show ?thesis
      by (cases r) (auto simp: gg_dir_openat_def split: sum.split_asm if_split_asm elim!: bind_SomeE
          dest!: cleanup_close_fds open_comp_opens)
  qed (use assms c in \<open>auto simp: gg_dir_openat_def\<close>)
qed

lemma gg_file_openat_opens:
  assumes "gg_file_openat d p f md os = Some r"
  shows "opens os r"
proof -
  obtain b dir name where sp: "split_path_last_comp p = (b, dir, name)" by (cases "split_path_last_comp p")
  obtain x os1 where x: "(if b then gg_dir_openat d dir O_PATH (f AND O_CREAT \<noteq> 0) os else copy_dir_fd d O_PATH os) = Some (x, os1)"
    using assms sp by (auto simp: gg_file_openat_def elim!: bind_SomeE)
  have "opens os (x, os1)"
    using x by (auto split: if_split_asm dest: gg_dir_openat_opens copy_dir_fd_opens)
  then show ?thesis
    using assms by (cases r)
      (auto simp: gg_file_openat_def sp x split: sum.split_asm if_split_asm elim!: bind_SomeE dest!: cleanup_close_fds gg_openat_opens)
qed

lemma read_path_at_fds: "gg_file_read_path_at content d p room os = Some (r, os') \<Longrightarrow> os_fds os' = os_fds os"
  by (auto simp: gg_file_read_path_at_def Let_def split: sum.split_asm if_split_asm elim!: bind_SomeE
      dest!: gg_file_openat_opens cleanup_close_fds sys_status_fds)

lemma below_base_fds:
  assumes "below_base p act os = Some (r, os')"
    and act: "\<And>d q os r os'. act d q os = Some (r, os') \<Longrightarrow> Q (os_fds os) r (os_fds os')"
    and fails: "\<And>F e. Q F (Inl e) F" and base: "\<And>F r F' b. Q (b # F) r F' \<Longrightarrow> b \<notin> set F \<Longrightarrow> Q F r (remove1 b F')"
  shows "Q (os_fds os) r (os_fds os')"
  using assms(1)
  by (auto simp: below_base_def open_base_def Let_def fails split: if_split_asm option.split_asm elim!: bind_SomeE
      dest!: sys_openat_fds cleanup_close_fds act intro!: base)

section \<open>Walking a path\<close>

text \<open>The components of a path: what is between its slashes and not empty.\<close>

fun path_parts :: "bytes \<Rightarrow> bytes list" where
  "path_parts [] = [[]]"
| "path_parts (c # cs) = (if c = chr CHR ''/'' then [] # path_parts cs else (c # hd (path_parts cs)) # tl (path_parts cs))"

definition components :: "bytes \<Rightarrow> bytes list" where
  "components path = filter (\<lambda>c. c \<noteq> []) (path_parts path)"

text \<open>The walk from the directory \<open>d\<close> through the components to the descriptor \<open>fd\<close>: each is opened as a
  directory, relative to the one before it, and only the last one with the caller's flags.\<close>

fun walk :: "open_flags \<Rightarrow> nat \<Rightarrow> bytes list \<Rightarrow> path_made list \<Rightarrow> nat \<Rightarrow> bool" where
  "walk flags d [] [] fd = (fd = d)"
| "walk flags d (c # cs) (Opened d' name flags' mode fd' # es) fd =
     (d' = int d \<and> name = c_string c \<and> mode = 0 \<and> flags' = O_CLOEXEC OR O_DIRECTORY OR (if cs = [] then flags else O_PATH) \<and>
      walk flags fd' cs es fd)"
| "walk flags d cs es fd = False"

lemma walk_step:
  "walk O_PATH fd' cs es d' \<Longrightarrow> walk O_PATH d (c # cs) (Opened (int d) (c_string c) (O_CLOEXEC OR O_DIRECTORY OR O_PATH) 0 fd' # es) d'"
  by simp

lemma walk_last:
  "walk O_PATH d cs es d' \<Longrightarrow>
   walk flags d (cs @ [c]) (es @ [Opened (int d') (c_string c) (O_CLOEXEC OR O_DIRECTORY OR flags) 0 fd]) fd"
  by (induction O_PATH d cs es d' rule: walk.induct) auto

lemma first_comp_parts:
  "first_comp_loop path i = (b, c, rest) \<Longrightarrow> (\<forall>j < i. path ! j \<noteq> chr CHR ''/'') \<Longrightarrow> i \<le> length path \<Longrightarrow>
   (if b then path_parts path = c # path_parts rest else path_parts path = [path] \<and> c = path)"
proof (induction path i rule: first_comp_loop.induct)
  case (1 path i)
  have none: "path_parts xs = [xs]" if "chr CHR ''/'' \<notin> set xs" for xs
    using that by (induction xs) auto
  have cut: "path_parts (xs @ chr CHR ''/'' # ys) = xs # path_parts ys" if "chr CHR ''/'' \<notin> set xs" for xs ys
    using that by (induction xs) auto
  show ?case
  proof (cases "i < length path")
    case True
    show ?thesis
    proof (cases "path ! i = chr CHR ''/''")
      case slash: True
      have "path = take i path @ chr CHR ''/'' # drop (i + 1) path"
        using True slash id_take_nth_drop[OF True] by simp
      then have "path_parts path = take i path # path_parts (drop (i + 1) path)"
        using cut[of "take i path" "drop (i + 1) path"] "1.prems"(2) True by (auto simp: in_set_conv_nth)
      then show ?thesis using "1.prems"(1) True slash by (subst (asm) first_comp_loop.simps) auto
    next
      case False
      then show ?thesis
        using "1.IH"[OF True False] "1.prems" True by (subst (asm) (2) first_comp_loop.simps) (auto simp: less_Suc_eq)
    qed
  next
    case False
    then show ?thesis using none[of path] "1.prems" by (subst (asm) first_comp_loop.simps) (auto simp: in_set_conv_nth)
  qed
qed

lemma split_first_parts:
  "split_path_first_comp path = (True, c, rest) \<Longrightarrow> path_parts path = c # path_parts rest"
  "split_path_first_comp path = (False, c, rest) \<Longrightarrow> path_parts path = [path] \<and> c = path"
  using first_comp_parts[of path 0] by (fastforce simp: split_path_first_comp_def)+

lemma parts_not_Nil [simp]: "path_parts p \<noteq> []" by (cases p) auto

lemma parts_snoc: "path_parts (p @ [c]) =
    (if c = chr CHR ''/'' then path_parts p @ [[]] else butlast (path_parts p) @ [last (path_parts p) @ [c]])"
proof (induction p)
  case (Cons a p)
  obtain x xs where "path_parts p = x # xs" using parts_not_Nil[of p] by (meson neq_Nil_conv)
  with Cons show ?case by (cases xs) auto
qed simp

lemma strip_parts: "components (strip_trailing_slashes p) = components p \<and>
    (strip_trailing_slashes p \<noteq> [] \<longrightarrow> last (path_parts (strip_trailing_slashes p)) \<noteq> [])"
proof (induction p rule: strip_trailing_slashes.induct)
  case (1 p)
  show ?case
  proof (cases p rule: rev_cases)
    case (snoc q c)
    then show ?thesis
      using 1 by (subst (1 2 3) strip_trailing_slashes.simps) (auto simp: parts_snoc components_def nth_append)
  qed (simp add: strip_trailing_slashes.simps)
qed

lemma status_opened: "sys_status os = Some (ok, os') \<Longrightarrow> os_opened os' = os_opened os"
  by (auto simp: sys_status_def split: list.splits option.splits)

lemma gg_close_opened: "gg_close os fd = Some (e, os') \<Longrightarrow> os_opened os' = os_opened os"
  by (auto simp: gg_close_def sys_close_def elim!: bind_SomeE dest: status_opened)

lemma cleanup_close_opened: "cleanup_close fd r = Some (x, os') \<Longrightarrow> x = fst r \<and> os_opened os' = os_opened (snd r)"
  by (auto simp: cleanup_close_def elim!: bind_SomeE dest: gg_close_opened)

lemma openat_wrapper_opened:
  "openat_wrapper d p f md os = Some (Some fd, os') \<Longrightarrow> os_opened os' = os_opened os @ [Opened d (c_string p) f md fd]"
proof (induction d p f md os rule: openat_wrapper.induct)
  case (1 d p f md os)
  have "sys_openat d p f md os = Some (r, os1) \<Longrightarrow>
      os_opened os1 = (case r of None \<Rightarrow> os_opened os | Some fd \<Rightarrow> os_opened os @ [Opened d (c_string p) f md fd])" for r os1
    by (auto simp: sys_openat_def sys_new_fd_def Let_def split: if_split_asm option.split_asm elim!: bind_SomeE dest!: status_opened)
  with 1 show ?case
    by (subst (asm) (2) openat_wrapper.simps) (auto split: option.split_asm if_split_asm)
qed

lemma open_comp_opened:
  "open_comp False cur c f os = Some (Inr fd, os') \<Longrightarrow>
   os_opened os' = os_opened os @ [Opened (int cur) (c_string c) (O_CLOEXEC OR O_DIRECTORY OR f) 0 fd]"
  by (auto simp: open_comp_def gg_openat_def split: option.split_asm elim!: bind_SomeE dest: openat_wrapper_opened)

lemma dir_loop_walks:
  "dir_loop False cur rest os = Some (Inr (fd, c), os') \<Longrightarrow>
   \<exists>cs es. os_opened os' = os_opened os @ es \<and> walk O_PATH cur cs es fd \<and> components rest = cs @ components c \<and>
     path_parts c = [c] \<and> c = last (path_parts rest)"
proof (induction "length rest" arbitrary: cur rest os rule: less_induct)
  case less
  from less.prems show ?case
  proof (cases rule: dir_loop_cases)
    case (last c' rest')
    then show ?thesis using split_first_parts(2)[of rest] by (intro exI[of _ "[]"]) auto
  next
    case (skip rest')
    then show ?thesis
      using less.hyps[OF first_comp_shorter[OF skip(1)] skip(2)] split_first_parts(1)[OF skip(1)] by (simp add: components_def)
  next
    case (err e os1)
    then show ?thesis by (auto dest: cleanup_close_opened)
  next
    case (down c' rest' new os1 e os2)
    obtain cs es where r: "os_opened os' = os_opened os2 @ es" "walk O_PATH new cs es fd" "components rest' = cs @ components c"
      "path_parts c = [c]" "c = last (path_parts rest')"
      using less.hyps[OF first_comp_shorter[OF down(1)] down(5)] by blast
    show ?thesis
      using r walk_step[OF r(2), of cur c'] down(2) split_first_parts(1)[OF down(1)] gg_close_opened[OF down(4)] open_comp_opened[OF down(3)]
      by (intro exI[of _ "c' # cs"] exI) (auto simp: components_def)
  qed
qed

section \<open>Properties\<close>

text \<open>C19: Opening a directory or a file by path, and reading a whole file, lose no descriptor on any path through the
  code: whatever the kernel answers, however often a call is interrupted and wherever the walk fails, the call
  returns either one new descriptor and no other, or an error and none, and reading a file leaves none open.\<close>

theorem gg_file_open_no_leak:
  "(\<forall>r. gg_dir_open path flags create os = Some r \<longrightarrow> opens os r) \<and>
   (\<forall>r. gg_file_open path flags mode os = Some r \<longrightarrow> opens os r) \<and>
   (\<forall>r os'. gg_file_read_path content path room os = Some (r, os') \<longrightarrow> os_fds os' = os_fds os)"
proof (intro conjI allI impI)
  fix r assume "gg_dir_open path flags create os = Some r"
  then show "opens os r"
    by (cases r) (auto simp: gg_dir_open_def open_base_def Let_def split: if_split_asm option.split_asm elim!: bind_SomeE
      dest!: sys_openat_fds gg_dir_openat_opens cleanup_close_fds, auto simp: opens_def split: sum.splits)
next
  fix r assume "gg_file_open path flags mode os = Some r"
  then show "opens os r"
    using below_base_fds[of path "\<lambda>d q os. gg_file_openat d q flags mode os" os "fst r" "snd r"
        "\<lambda>F x F'. case x of Inl _ \<Rightarrow> F' = F | Inr fd \<Rightarrow> fd \<notin> set F \<and> F' = fd # F"]
    by (fastforce simp: gg_file_open_def opens_def dest!: gg_file_openat_opens split: sum.splits)
next
  fix r os' assume "gg_file_read_path content path room os = Some (r, os')"
  then show "os_fds os' = os_fds os"
    using below_base_fds[of path "\<lambda>d q os. gg_file_read_path_at content d q room os" os r os' "\<lambda>F x F'. F' = F"] read_path_at_fds
    by (simp add: gg_file_read_path_def)
qed

text \<open>A file \<open>/etc/c\<close> of two bytes, opened after an interrupted call, and a directory whose walk fails.\<close>

definition small_os :: "errno option list \<Rightarrow> os" where
  "small_os rs = \<lparr>os_fds = [0, 1, 2], os_ret = rs, os_errno = EINVAL, os_opened = []\<rparr>"

theorem gg_file_open_no_leak_witness:
  "\<exists>os'. gg_file_read_path \<lparr>st_size = 2, file_reads = [Arrived [7, 8]]\<rparr> (str ''/etc/c'') 10
      (small_os [None, None, Some EINTR, None, None, None, None, None, None, None, None, None]) = Some (Inr [7, 8], os') \<and> os_fds os' = [0, 1, 2]"
proof -
  have "map_option fst (gg_file_read_path \<lparr>st_size = 2, file_reads = [Arrived [7, 8]]\<rparr> (str ''/etc/c'') 10
      (small_os [None, None, Some EINTR, None, None, None, None, None, None, None, None, None])) = Some (Inr [7, 8])"
    by code_simp
  then obtain os' where r: "gg_file_read_path \<lparr>st_size = 2, file_reads = [Arrived [7, 8]]\<rparr> (str ''/etc/c'') 10
      (small_os [None, None, Some EINTR, None, None, None, None, None, None, None, None, None]) = Some (Inr [7, 8], os')"
    by auto
  from gg_file_open_no_leak[of "str ''/etc/c''" 0 False "small_os [None, None, Some EINTR, None, None, None, None, None, None, None, None, None]" 0
      "\<lparr>st_size = 2, file_reads = [Arrived [7, 8]]\<rparr>" 10] r show ?thesis by (auto simp: small_os_def)
qed

text \<open>C27: Opening a directory that has to exist walks through exactly the components of its path: whatever slashes are doubled
  or trailing, the first component is opened below a copy of \<open>dirfd\<close>, every later one relative to the descriptor of
  the one before it, each as a directory, and the descriptor returned is that of the last one.\<close>

theorem gg_dir_openat_walks:
  assumes "gg_dir_openat dirfd path flags False os = Some (Inr fd, os')" "components path \<noteq> []"
  shows "\<exists>base es. os_opened os' = os_opened os @ Opened dirfd (str ''.'') (O_CLOEXEC OR O_DIRECTORY OR O_PATH) 0 base # es \<and>
    walk flags base (components path) es fd"
proof -
  let ?p = "strip_trailing_slashes path"
  obtain base os1 cur c os2 os3 where s: "copy_dir_fd dirfd O_PATH os = Some (Inr base, os1)"
    "dir_loop False base ?p os1 = Some (Inr (cur, c), os2)" "open_comp False cur c flags os2 = Some (Inr fd, os3)"
    "os_opened os' = os_opened os3"
    using assms(1)
    by (auto simp: gg_dir_openat_def split: sum.split_asm if_split_asm elim!: bind_SomeE dest!: cleanup_close_opened)
  have b: "os_opened os1 = os_opened os @ [Opened dirfd (str ''.'') (O_CLOEXEC OR O_DIRECTORY OR O_PATH) 0 base]"
    using s(1) by (auto simp: copy_dir_fd_def c_string_def str_def chr_def split: option.split_asm elim!: bind_SomeE dest!: openat_wrapper_opened)
  obtain cs es where w: "os_opened os2 = os_opened os1 @ es" "walk O_PATH base cs es cur" "components ?p = cs @ components c"
    "path_parts c = [c]" "c = last (path_parts ?p)"
    using dir_loop_walks[OF s(2)] by blast
  have "?p \<noteq> []" using strip_parts[of path] assms(2) by (auto simp: components_def)
  then have "components path = cs @ [c]" using strip_parts[of path] w by (auto simp: components_def)
  then show ?thesis
    using b w(1) walk_last[OF w(2), of flags c fd] open_comp_opened[OF s(3)] s(4) by auto
qed

theorem gg_dir_openat_walks_witness:
  "\<exists>fd os'. gg_dir_openat 2 (str ''a//bc/'') 0 False (small_os [None, None, None, None, None]) = Some (Inr fd, os') \<and>
    (\<exists>base es. os_opened os' = Opened 2 (str ''.'') (O_CLOEXEC OR O_DIRECTORY OR O_PATH) 0 base # es \<and>
       walk 0 base [str ''a'', str ''bc''] es fd)"
proof -
  have "map_option fst (gg_dir_openat 2 (str ''a//bc/'') 0 False (small_os [None, None, None, None, None])) = Some (Inr 3)"
    by code_simp
  then obtain os' where r: "gg_dir_openat 2 (str ''a//bc/'') 0 False (small_os [None, None, None, None, None]) = Some (Inr 3, os')"
    by auto
  have "components (str ''a//bc/'') = [str ''a'', str ''bc'']" by code_simp
  with gg_dir_openat_walks[OF r] r show ?thesis by (auto simp: small_os_def)
qed

end
