(* ===== verification/Util.thy ===== *)
theory Util
  imports File
begin

text \<open>
  Small services: absolute values (\<open>src/math.c\<close>), sleeping (\<open>src/sleep.c\<close>), random numbers (\<open>src/rand.c\<close>),
  retries with backoff (\<open>src/backoff.c\<close>), the list of initialisation functions (\<open>src/init.c\<close>) and the
  allocator interface (\<open>src/alloc.c\<close>).
\<close>

section \<open>Definitions\<close>

text \<open>C division truncates, as \<open>sdiv\<close> and \<open>smod\<close> do. Signed negation is defined unless it overflows.\<close>

definition neg64 :: "int \<Rightarrow> int run" where
  "neg64 i = (if - i \<le> INT64_MAX then Some (- i) else None)"

definition gg_abs :: "int \<Rightarrow> int run" where
  "gg_abs i64 =
     (if i64 \<ge> 0 then Some i64
      else if i64 \<ge> INT32_MIN then neg64 i64
      else do {
        n \<leftarrow> neg64 INT32_MIN;
        r \<leftarrow> neg64 (i64 smod INT32_MIN);
        Some (((i64 sdiv INT32_MIN) * n + r) mod 2 ^ 64)
      })"

text \<open>\<open>nanosleep\<close> completes, is interrupted with some time left, or fails. The times asked for are returned.\<close>

datatype nap = Slept | Interrupted "int \<times> int" | NapErr errno

type_synonym timespec = "int \<times> int"

fun sleep_timespec :: "nap list \<Rightarrow> timespec \<Rightarrow> (GgError \<times> timespec list \<times> nap list) run" where
  "sleep_timespec [] remain = None"
| "sleep_timespec (Slept # naps) remain = Some (GG_ERR_OK, [remain], naps)"
| "sleep_timespec (Interrupted left # naps) remain = do {
     (ret, asked, naps) \<leftarrow> sleep_timespec naps left;
     Some (ret, remain # asked, naps)
   }"
| "sleep_timespec (NapErr e # naps) remain =
     (if e = EINTR then do { (ret, asked, naps) \<leftarrow> sleep_timespec naps remain; Some (ret, remain # asked, naps) }
      else Some (GG_ERR_FAILURE, [remain], naps))"

definition gg_sleep :: "nap list \<Rightarrow> int \<Rightarrow> (GgError \<times> timespec list \<times> nap list) run" where
  "gg_sleep naps seconds = sleep_timespec naps (seconds, 0)"

definition gg_sleep_ms :: "nap list \<Rightarrow> int \<Rightarrow> (GgError \<times> timespec list \<times> nap list) run" where
  "gg_sleep_ms naps ms = sleep_timespec naps (ms sdiv 1000, (ms smod 1000) * 1000 * 1000)"

text \<open>Random bytes come from the device; the process ends when they cannot be read.\<close>

definition gg_rand_fill :: "rd_ev list \<Rightarrow> nat \<Rightarrow> (bytes \<times> rd_ev list) run" where
  "gg_rand_fill device n = do {
     (ret, device) \<leftarrow> gg_file_read_exact device n;
     case ret of Inl _ \<Rightarrow> None | Inr bs \<Rightarrow> Some (bs, device)
   }"

definition backoff_get_rand :: "rd_ev list \<Rightarrow> (nat \<times> rd_ev list) run" where
  "backoff_get_rand device = do { (bs, device) \<leftarrow> gg_rand_fill device 8; Some (le_val bs, device) }"

text \<open>The surroundings of a retry: the random device, the sleeps, and the times slept so far.\<close>

record backoff_env =
  be_random :: "rd_ev list"
  be_naps :: "nap list"
  be_slept :: "nat list"

definition backoff_sleep :: "nat \<Rightarrow> backoff_env \<Rightarrow> backoff_env run" where
  "backoff_sleep ms env = do {
     (sleep_err, _, naps) \<leftarrow> gg_sleep_ms (be_naps env) (int ms);
     if sleep_err \<noteq> GG_ERR_OK then None
     else Some (env\<lparr>be_naps := naps, be_slept := be_slept env @ [ms]\<rparr>)
   }"

text \<open>One turn of the loop after a failed attempt: the random sleep and the next bound. A remainder by zero is
  undefined in C.\<close>

definition next_max :: "nat \<Rightarrow> nat \<Rightarrow> nat" where
  "next_max max_ms current_max_ms = (if current_max_ms \<le> max_ms div 2 then u32 (current_max_ms * 2) else max_ms)"

definition backoff_pause :: "nat \<Rightarrow> backoff_env \<Rightarrow> backoff_env run" where
  "backoff_pause current_max_ms env = do {
     (r, device) \<leftarrow> backoff_get_rand (be_random env);
     c_assert (current_max_ms \<noteq> 0);
     backoff_sleep (u32 (r mod current_max_ms)) (env\<lparr>be_random := device\<rparr>)
   }"

text \<open>\<open>attempt\<close> is the function that is retried, on a state of its own. The loop runs for ever when every attempt
  fails and \<open>max_attempts\<close> is 0.\<close>

partial_function (option) backoff_loop ::
    "('s \<Rightarrow> (GgError \<times> 's) run) \<Rightarrow> nat \<Rightarrow> nat \<Rightarrow> nat \<Rightarrow> nat \<Rightarrow> 's \<Rightarrow> backoff_env \<Rightarrow> (GgError \<times> 's \<times> backoff_env) option" where
  "backoff_loop attempt max_ms max_attempts current_max_ms attempts s env =
     Option.bind (attempt s) (\<lambda>(ret, s).
       if ret = GG_ERR_OK then Some (GG_ERR_OK, s, env)
       else let attempts = (if max_attempts \<noteq> 0 then u32 (attempts + 1) else attempts) in
         if max_attempts \<noteq> 0 \<and> attempts = max_attempts then Some (ret, s, env)
         else Option.bind (backoff_pause current_max_ms env) (\<lambda>env.
           backoff_loop attempt max_ms max_attempts (next_max max_ms current_max_ms) attempts s env))"

definition gg_backoff ::
    "nat \<Rightarrow> nat \<Rightarrow> nat \<Rightarrow> ('s \<Rightarrow> (GgError \<times> 's) run) option \<Rightarrow> 's \<Rightarrow> backoff_env \<Rightarrow> (GgError \<times> 's \<times> backoff_env) run" where
  "gg_backoff base_ms max_ms max_attempts fn s env =
     (case fn of
        None \<Rightarrow> None
      | Some attempt \<Rightarrow> do {
          c_assert (base_ms \<noteq> 0);
          backoff_loop attempt max_ms max_attempts base_ms 0 s env
        })"

text \<open>The initialisation list: functions are registered at its front and run once, in the order of the list; a
  failure ends the process.\<close>

type_synonym 's init_entry = "'s \<Rightarrow> (GgError \<times> 's) run"

definition gg_register_init_fn :: "'s init_entry \<Rightarrow> 's init_entry list \<Rightarrow> 's init_entry list" where
  "gg_register_init_fn entry init_list = entry # init_list"

fun init_loop :: "'s init_entry list \<Rightarrow> 's \<Rightarrow> 's run" where
  "init_loop [] s = Some s"
| "init_loop (fn # rest) s = do {
     (ret, s) \<leftarrow> fn s;
     if ret \<noteq> GG_ERR_OK then None else init_loop rest s
   }"

definition gg_sdk_init :: "'s init_entry list \<Rightarrow> 's \<Rightarrow> ('s init_entry list \<times> 's) run" where
  "gg_sdk_init init_list s = do { s \<leftarrow> init_loop init_list s; Some ([], s) }"

text \<open>The allocator interface: a missing table or entry allocates nothing and frees nothing.\<close>

record 's GgAllocVtable =
  vt_alloc :: "('s \<Rightarrow> nat \<Rightarrow> nat \<Rightarrow> (addr \<times> 's) run) option"
  vt_free :: "('s \<Rightarrow> addr \<Rightarrow> 's run) option"

definition gg_alloc :: "'s GgAllocVtable option \<Rightarrow> 's \<Rightarrow> nat \<Rightarrow> nat \<Rightarrow> (addr \<times> 's) run" where
  "gg_alloc vtable s sz alignment =
     (case Option.bind vtable vt_alloc of None \<Rightarrow> Some (NULL, s) | Some alloc \<Rightarrow> alloc s sz alignment)"

definition gg_free :: "'s GgAllocVtable option \<Rightarrow> 's \<Rightarrow> addr \<Rightarrow> 's run" where
  "gg_free vtable s ptr =
     (if ptr \<noteq> NULL then case Option.bind vtable vt_free of None \<Rightarrow> Some s | Some free \<Rightarrow> free s ptr
      else Some s)"

section \<open>Absolute values\<close>

text \<open>\<open>gg_abs\<close> returns the absolute value of every 64-bit integer, \<open>INT64_MIN\<close> included, and no step of it
  overflows.\<close>

theorem gg_abs_correct:
  assumes "INT64_MIN \<le> i" "i \<le> INT64_MAX"
  shows "gg_abs i = Some \<bar>i\<bar>"
proof (cases "i < INT32_MIN")
  case True
  have "\<bar>i\<bar> div 2147483648 * 2147483648 + \<bar>i\<bar> mod 2147483648 = \<bar>i\<bar>" by simp
  moreover have "0 \<le> \<bar>i\<bar> mod 2147483648" "\<bar>i\<bar> mod 2147483648 < 2147483648" by simp_all
  moreover have "i sdiv INT32_MIN = \<bar>i\<bar> div 2147483648" "i smod INT32_MIN = - (\<bar>i\<bar> mod 2147483648)"
    using True by (simp_all add: INT32_MIN_def signed_divide_int_def signed_modulo_int_def sgn_if)
  ultimately show ?thesis
    using True assms by (simp add: gg_abs_def neg64_def int_limits)
qed (use assms in \<open>auto simp: gg_abs_def neg64_def int_limits\<close>)

theorem gg_abs_correct_witness: "gg_abs (- 9223372036854775808) = Some 9223372036854775808"
  using gg_abs_correct[of "- 9223372036854775808"] by (simp add: int_limits)

section \<open>Retries\<close>

text \<open>What retrying up to \<open>n\<close> times amounts to: the result of the first success, or of the last attempt.\<close>

fun tries :: "('s \<Rightarrow> GgError \<times> 's) \<Rightarrow> nat \<Rightarrow> 's \<Rightarrow> GgError \<times> 's" where
  "tries f 0 s = (GG_ERR_FAILURE, s)"
| "tries f (Suc k) s = (case f s of (ret, s') \<Rightarrow> if ret = GG_ERR_OK \<or> k = 0 then (ret, s') else tries f k s')"

text \<open>The surroundings provide random bytes and undisturbed sleeps for \<open>k\<close> pauses.\<close>

definition supplied :: "nat \<Rightarrow> backoff_env \<Rightarrow> bool" where
  "supplied k env \<longleftrightarrow> 8 * k \<le> length (arriving (be_random env)) \<and> (\<exists>rest. be_naps env = replicate k Slept @ rest)"

lemma pause_supplied:
  assumes "supplied (Suc k) env" "0 < cur" "cur < 2 ^ 32"
  shows "\<exists>x env'. backoff_pause cur env = Some env' \<and> x < cur \<and> be_slept env' = be_slept env @ [x] \<and> supplied k env'"
proof -
  obtain device where d: "gg_file_read (be_random env) 8 = Some (Inr (take 8 (arriving (be_random env))), device)"
    "arriving device = drop 8 (arriving (be_random env))"
    using gg_file_read_arriving[of 8 "be_random env"] assms(1) by (auto simp: supplied_def)
  let ?r = "le_val (take 8 (arriving (be_random env)))"
  have r: "backoff_get_rand (be_random env) = Some (?r, device)"
    using d(1) assms(1) by (simp add: backoff_get_rand_def gg_rand_fill_def gg_file_read_exact_def supplied_def)
  obtain rest where n: "be_naps env = Slept # replicate k Slept @ rest" using assms(1) by (auto simp: supplied_def)
  have "?r mod cur < cur" using assms(2) by simp
  moreover have "u32 (?r mod cur) = ?r mod cur" using calculation assms(3) by (intro u32_small) simp
  ultimately show ?thesis
    using r n d(2) assms by (auto simp: backoff_pause_def backoff_sleep_def gg_sleep_ms_def supplied_def)
qed

lemma next_max_bounds:
  assumes "0 < max_ms" "max_ms < 2 ^ 32" "0 < cur" "cur \<le> B" "max_ms \<le> B"
  shows "0 < next_max max_ms cur \<and> next_max max_ms cur \<le> B"
  using assms by (auto simp: next_max_def)

lemma backoff_loop_tries:
  assumes "n < 2 ^ 32" "0 < max_ms" "max_ms \<le> B" "B < 2 ^ 32"
  shows "attempts + Suc k = n \<Longrightarrow> 0 < cur \<Longrightarrow> cur \<le> B \<Longrightarrow> supplied k env \<Longrightarrow>
    \<exists>env' ts. backoff_loop (\<lambda>s. Some (f s)) max_ms n cur attempts s env = Some (fst (tries f (Suc k) s), snd (tries f (Suc k) s), env') \<and>
      be_slept env' = be_slept env @ ts \<and> length ts \<le> k \<and> (\<forall>t \<in> set ts. t < B)"
proof (induction k arbitrary: attempts cur env s)
  case 0
  then show ?case
    using assms(1) by (subst backoff_loop.simps) (auto simp: Let_def split: prod.splits)
next
  case (Suc k)
  obtain ret s' where f: "f s = (ret, s')" by (cases "f s")
  show ?case
  proof (cases "ret = GG_ERR_OK")
    case True
    then show ?thesis by (subst backoff_loop.simps) (auto simp: f intro: exI[of _ "[]"])
  next
    case False
    obtain x env1 where p: "backoff_pause cur env = Some env1" "x < cur" "be_slept env1 = be_slept env @ [x]" "supplied k env1"
      using pause_supplied[OF Suc.prems(4,2)] Suc.prems(3) assms(4) by auto
    have u: "u32 (attempts + 1) = attempts + 1" using Suc.prems(1) assms(1) by (intro u32_small) simp
    have step: "backoff_loop (\<lambda>s. Some (f s)) max_ms n cur attempts s env =
        backoff_loop (\<lambda>s. Some (f s)) max_ms n (next_max max_ms cur) (attempts + 1) s' env1"
      using False f p(1) u Suc.prems(1) by (subst backoff_loop.simps) (simp add: Let_def)
    have "0 < next_max max_ms cur \<and> next_max max_ms cur \<le> B" using next_max_bounds[of max_ms cur B] assms Suc.prems by simp
    then obtain env' ts where "backoff_loop (\<lambda>s. Some (f s)) max_ms n (next_max max_ms cur) (attempts + 1) s' env1 =
        Some (fst (tries f (Suc k) s'), snd (tries f (Suc k) s'), env')" "be_slept env' = be_slept env1 @ ts" "length ts \<le> k" "\<forall>t \<in> set ts. t < B"
      using Suc.IH[of "attempts + 1" "next_max max_ms cur" env1 s'] Suc.prems(1) p(4) by auto
    then show ?thesis
      using step False f p(2,3) Suc.prems(3) by (intro exI[of _ env'] exI[of _ "x # ts"]) auto
  qed
qed

text \<open>C37: A bounded retry returns. \<open>gg_backoff\<close> with \<open>n\<close> attempts gives the result of the first success or of the
  \<open>n\<close>-th attempt; it pauses at most \<open>n - 1\<close> times, and every pause is shorter than the larger of the two
  bounds it is given.\<close>

theorem gg_backoff_bounded:
  assumes "0 < n" "n < 2 ^ 32" "0 < base_ms" "base_ms < 2 ^ 32" "0 < max_ms" "max_ms < 2 ^ 32" "supplied (n - 1) env"
  shows "\<exists>env' ts. gg_backoff base_ms max_ms n (Some (\<lambda>s. Some (f s))) s env = Some (fst (tries f n s), snd (tries f n s), env') \<and>
    be_slept env' = be_slept env @ ts \<and> length ts \<le> n - 1 \<and> (\<forall>t \<in> set ts. t < max base_ms max_ms)"
  using backoff_loop_tries[of n max_ms "max base_ms max_ms" 0 "n - 1" base_ms env f s] assms by (simp add: gg_backoff_def)

definition calm :: backoff_env where
  "calm = \<lparr>be_random = [Arrived (replicate 16 7)], be_naps = [Slept, Slept], be_slept = []\<rparr>"

definition countdown :: "nat \<Rightarrow> GgError \<times> nat" where
  "countdown k = (if k = 0 then GG_ERR_OK else GG_ERR_FAILURE, k - 1)"

theorem gg_backoff_bounded_witness:
  "\<exists>env'. gg_backoff 100 1000 3 (Some (\<lambda>k. Some (countdown k))) 5 calm = Some (GG_ERR_FAILURE, 2, env')"
proof -
  have "supplied 2 calm" by (auto simp: supplied_def calm_def numeral_2_eq_2)
  moreover have "tries countdown 3 5 = (GG_ERR_FAILURE, 2)" by code_simp
  ultimately show ?thesis using gg_backoff_bounded[of 3 100 1000 calm countdown 5] by auto
qed

text \<open>A defect of the backoff: with \<open>max_ms\<close> equal to 0 the second pause takes a remainder by zero, however the
  system behaves.\<close>

theorem gg_backoff_zero_max:
  assumes "0 < base_ms" "base_ms < 2 ^ 32" "n = 0 \<or> 2 < n" "supplied 2 env"
  shows "gg_backoff base_ms 0 n (Some (\<lambda>s. Some (GG_ERR_FAILURE, s))) s env = None"
proof -
  obtain x env1 where p: "backoff_pause base_ms env = Some env1" "supplied 1 env1"
    using pause_supplied[of 1 env base_ms] assms by (auto simp: numeral_2_eq_2)
  have z: "backoff_pause 0 env1 = None" by (cases "backoff_get_rand (be_random env1)") (auto simp: backoff_pause_def)
  have "next_max 0 base_ms = 0" using assms(1) by (simp add: next_max_def)
  then show ?thesis
    using p z assms(1,3) by (auto simp: gg_backoff_def backoff_loop.simps[of _ _ _ base_ms] backoff_loop.simps[of _ _ _ 0] Let_def)
qed

theorem gg_backoff_zero_max_witness: "gg_backoff 100 0 0 (Some (\<lambda>s. Some (GG_ERR_FAILURE, s))) () calm = None"
proof -
  have "supplied 2 calm" by (auto simp: supplied_def calm_def numeral_2_eq_2)
  then show ?thesis by (intro gg_backoff_zero_max) simp_all
qed

end
