(* ===== verification/Log.thy ===== *)
theory Log
  imports Json_Encode
begin

text \<open>
  Logging (\<open>src/log.c\<close>, \<open>priv_include/gg/log.h\<close>): the constructor that finds out whether stderr is
  the systemd journal, and \<open>gg_log\<close>, which writes one line in three pieces under a mutex.

  A C string is the list of its bytes before the NUL. \<open>getenv\<close> and \<open>fstat\<close> are arguments: the value of
  \<open>JOURNAL_STREAM\<close>, and the device and inode of stderr where \<open>fstat\<close> succeeds. \<open>strtoul\<close> and
  the conversions of \<open>printf\<close> that the log calls use are written out; a format the calls do not use is
  \<^const>\<open>None\<close>. stderr takes what is written to it. Threads that log at the same time are a step
  relation over the mutex and the pieces still to be written.
\<close>

section \<open>Definitions\<close>

definition GG_LOG_NONE :: nat where "GG_LOG_NONE = 0"
definition GG_LOG_ERROR :: nat where "GG_LOG_ERROR = 1"
definition GG_LOG_WARN :: nat where "GG_LOG_WARN = 2"
definition GG_LOG_INFO :: nat where "GG_LOG_INFO = 3"
definition GG_LOG_DEBUG :: nat where "GG_LOG_DEBUG = 4"
definition GG_LOG_TRACE :: nat where "GG_LOG_TRACE = 5"

lemmas log_levels = GG_LOG_NONE_def GG_LOG_ERROR_def GG_LOG_WARN_def GG_LOG_INFO_def GG_LOG_DEBUG_def
  GG_LOG_TRACE_def

subsection \<open>The journal\<close>

text \<open>\<open>strtoul\<close> with base 10: the value and where \<open>endptr\<close> points. Leading space and a sign are
  accepted, a value that does not fit is \<open>ULONG_MAX\<close>, a minus sign negates in the unsigned type, and
  without digits the end is the start.\<close>

definition is_space :: "byte \<Rightarrow> bool" where
  "is_space c \<longleftrightarrow> c = 0x20 \<or> 0x09 \<le> c \<and> c \<le> 0x0D"

definition strtoul :: "bytes \<Rightarrow> nat \<times> bytes" where
  "strtoul s =
     (let s1 = dropWhile is_space s;
          neg = (s1 \<noteq> [] \<and> hd s1 = chr CHR ''-'');
          s2 = (if s1 \<noteq> [] \<and> (hd s1 = chr CHR ''-'' \<or> hd s1 = chr CHR ''+'') then tl s1 else s1);
          ds = takeWhile is_digit s2;
          v = nat (digits_val ds)
      in if ds = [] then (0, s)
         else (if v > 2 ^ 64 - 1 then 2 ^ 64 - 1 else if neg then u64 (2 ^ 64 - v) else v,
               dropWhile is_digit s2))"

text \<open>The flag \<open>enable_systemd_log_prefix\<close> as the constructor leaves it.\<close>

definition configure_logging :: "bytes option \<Rightarrow> (nat \<times> nat) option \<Rightarrow> bool \<Rightarrow> bool" where
  "configure_logging journal_stream stderr_stat enable =
     (case journal_stream of None \<Rightarrow> enable
      | Some js \<Rightarrow>
         (case stderr_stat of None \<Rightarrow> enable
          | Some (st_dev, st_ino) \<Rightarrow>
             let (journal_dev, endptr) = strtoul js
             in if endptr = [] \<or> hd endptr \<noteq> chr CHR '':'' then enable
                else let journal_ino = fst (strtoul (tl endptr))
                     in if st_dev = journal_dev \<and> st_ino = journal_ino then True else enable))"

subsection \<open>Formats\<close>

datatype printf_arg = ArgInt int | ArgUInt nat | ArgStr bytes | ArgPtr addr

fun hex_text :: "nat \<Rightarrow> bytes" where
  "hex_text n = (let d = (if n mod 16 < 10 then of_nat (48 + n mod 16) else of_nat (87 + n mod 16))
     in if n < 16 then [d] else hex_text (n div 16) @ [d])"

declare hex_text.simps [simp del]

text \<open>The text of one conversion and the arguments after it.\<close>

definition conversion :: "string \<Rightarrow> printf_arg list \<Rightarrow> (bytes \<times> printf_arg list) run" where
  "conversion d args =
     (if d = ''%'' then Some ([chr CHR ''%''], args)
      else case args of
        ArgStr s # args' \<Rightarrow> if d = ''s'' then Some (takeWhile (\<lambda>c. c \<noteq> 0) s, args') else None
      | ArgPtr p # args' \<Rightarrow>
          if d = ''p'' then Some (if p = NULL then str ''(nil)'' else str ''0x'' @ hex_text p, args') else None
      | ArgUInt n # args' \<Rightarrow> if d = ''u'' \<or> d = ''zu'' then Some (nat_text n, args') else None
      | ArgInt i # args' \<Rightarrow>
          if d = ''d'' then Some (int_text i, args')
          else if d = ''c'' then Some ([of_int i], args')
          else if d = ''.*s'' then
            (case args' of
               ArgStr s # args'' \<Rightarrow> Some (takeWhile (\<lambda>c. c \<noteq> 0) (if i < 0 then s else take (nat i) s), args'')
             | _ \<Rightarrow> None)
          else None
      | [] \<Rightarrow> None)"

definition directives :: "string list" where
  "directives = [''%'', ''s'', ''c'', ''d'', ''u'', ''zu'', ''p'', ''.*s'']"

fun printf_text :: "string \<Rightarrow> printf_arg list \<Rightarrow> bytes run" where
  "printf_text [] args = Some []"
| "printf_text (c # f) args =
     (if c \<noteq> CHR ''%'' then Option.bind (printf_text f args) (\<lambda>t. Some (chr c # t))
      else case find (\<lambda>d. take (length d) f = d) directives of
        None \<Rightarrow> None
      | Some d \<Rightarrow> Option.bind (conversion d args) (\<lambda>r.
          Option.bind (printf_text (drop (length d) f) (snd r)) (\<lambda>t. Some (fst r @ t))))"

subsection \<open>A log call\<close>

record log_call =
  lc_level :: nat
  lc_file :: bytes
  lc_line :: int
  lc_tag :: bytes
  lc_format :: string
  lc_args :: "printf_arg list"

definition log_prefix :: "bool \<Rightarrow> nat \<Rightarrow> bytes" where
  "log_prefix enable_systemd_log_prefix level =
     (if enable_systemd_log_prefix then
        if level = GG_LOG_ERROR then str ''<3>''
        else if level = GG_LOG_WARN then str ''<4>''
        else if level = GG_LOG_INFO then str ''<6>''
        else if level = GG_LOG_DEBUG \<or> level = GG_LOG_TRACE then str ''<7>''
        else []
      else [])"

definition level_c :: "nat \<Rightarrow> byte" where
  "level_c level =
     (if level = GG_LOG_ERROR then chr CHR ''E''
      else if level = GG_LOG_WARN then chr CHR ''W''
      else if level = GG_LOG_INFO then chr CHR ''I''
      else if level = GG_LOG_DEBUG then chr CHR ''D''
      else if level = GG_LOG_TRACE then chr CHR ''T''
      else chr CHR ''?'')"

text \<open>The three writes made while the mutex is held.\<close>

definition log_writes :: "bool \<Rightarrow> log_call \<Rightarrow> bytes list run" where
  "log_writes enable c = do {
     head \<leftarrow> printf_text ''%s%c[%s] %s:%d: ''
       [ArgStr (log_prefix enable (lc_level c)), ArgInt (uint (level_c (lc_level c))), ArgStr (lc_tag c),
        ArgStr (lc_file c), ArgInt (lc_line c)];
     message \<leftarrow> printf_text (lc_format c) (lc_args c);
     Some [head, message, [0x0A]]
   }"

text \<open>\<open>gg_log\<close> called by one thread: what has been written to stderr, before and after.\<close>

definition gg_log :: "bool \<Rightarrow> log_call \<Rightarrow> bytes \<Rightarrow> bytes run" where
  "gg_log enable c err = do { ws \<leftarrow> log_writes enable c; Some (foldl (@) err ws) }"

text \<open>The macros \<open>GG_LOGE\<close> to \<open>GG_LOGT\<close>, in a program compiled with the threshold \<open>GG_LOG_LEVEL\<close>: a
  level above it is the call that does nothing.\<close>

definition GG_LOG :: "nat \<Rightarrow> bool \<Rightarrow> log_call \<Rightarrow> bytes \<Rightarrow> bytes run" where
  "GG_LOG GG_LOG_LEVEL enable c err = (if GG_LOG_LEVEL \<ge> lc_level c then gg_log enable c err else Some err)"

subsection \<open>Threads\<close>

text \<open>A thread is outside of \<open>gg_log\<close>, or holds the mutex with some writes to go. \<open>lg_todo\<close> are the
  calls it still makes; \<open>lg_order\<close> records who entered the critical section with which call.\<close>

datatype log_pc = Outside | Writing "bytes list"

record log_state =
  lg_pc :: "nat \<Rightarrow> log_pc"
  lg_todo :: "nat \<Rightarrow> log_call list"
  lg_mutex :: "nat option"
  lg_stderr :: bytes
  lg_order :: "(nat \<times> log_call) list"

definition log_start :: "(nat \<Rightarrow> log_call list) \<Rightarrow> log_state" where
  "log_start calls = \<lparr>lg_pc = \<lambda>_. Outside, lg_todo = calls, lg_mutex = None, lg_stderr = [], lg_order = []\<rparr>"

inductive log_step :: "bool \<Rightarrow> log_state \<Rightarrow> log_state \<Rightarrow> bool" for enable where
  enter: "lg_pc s t = Outside \<Longrightarrow> lg_todo s t = c # cs \<Longrightarrow> lg_mutex s = None \<Longrightarrow>
    log_writes enable c = Some ws \<Longrightarrow>
    log_step enable s (s\<lparr>lg_pc := (lg_pc s)(t := Writing ws), lg_todo := (lg_todo s)(t := cs),
      lg_mutex := Some t, lg_order := lg_order s @ [(t, c)]\<rparr>)"
| emit: "lg_pc s t = Writing (w # ws) \<Longrightarrow>
    log_step enable s (s\<lparr>lg_pc := (lg_pc s)(t := Writing ws), lg_stderr := lg_stderr s @ w\<rparr>)"
| leave: "lg_pc s t = Writing [] \<Longrightarrow>
    log_step enable s (s\<lparr>lg_pc := (lg_pc s)(t := Outside), lg_mutex := None\<rparr>)"

inductive_cases log_stepE: "log_step enable s s'"

inductive log_reachable :: "bool \<Rightarrow> (nat \<Rightarrow> log_call list) \<Rightarrow> log_state \<Rightarrow> bool" for enable calls where
  start: "log_reachable enable calls (log_start calls)"
| step: "log_reachable enable calls s \<Longrightarrow> log_step enable s s' \<Longrightarrow> log_reachable enable calls s'"

text \<open>The line of a call, all of it.\<close>

definition log_line :: "bool \<Rightarrow> log_call \<Rightarrow> bytes" where
  "log_line enable c = (case log_writes enable c of None \<Rightarrow> [] | Some ws \<Rightarrow> concat ws)"

section \<open>The journal\<close>

lemma digit_not_sign:
  assumes "is_digit c"
  shows "\<not> is_space c" "c \<noteq> chr CHR ''-''" "c \<noteq> chr CHR ''+''"
  using assms by (auto simp: is_digit_def is_space_def chr_def word_le_nat_alt)

lemma strtoul_text:
  assumes "n < 2 ^ 64" "r = [] \<or> \<not> is_digit (hd r)"
  shows "strtoul (nat_text n @ r) = (n, r)"
proof -
  obtain d ds where t: "nat_text n = d # ds" using nat_text_digits[of n] by (cases "nat_text n") auto
  have d: "list_all is_digit (d # ds)" "digits_val (d # ds) = int n" using nat_text_digits[of n] t by simp_all
  then have s: "dropWhile is_space (nat_text n @ r) = nat_text n @ r" "hd (nat_text n) \<noteq> chr CHR ''-''"
    "hd (nat_text n) \<noteq> chr CHR ''+''" using t digit_not_sign[of d] by auto
  have "takeWhile is_digit (nat_text n @ r) = nat_text n" "dropWhile is_digit (nat_text n @ r) = r"
    using d(1) assms(2) t by (auto simp: takeWhile_append dropWhile_append list_all_iff takeWhile_eq_Nil_iff
      dropWhile_eq_self_iff)
  with s d(2) t assms(1) show ?thesis unfolding strtoul_def Let_def by simp
qed

section \<open>Lines\<close>

lemma foldl_append: "foldl (@) err ws = err @ concat ws"
  by (induction ws arbitrary: err) simp_all

lemma gg_log_line: "gg_log enable c err = map_option (\<lambda>_. err @ log_line enable c) (log_writes enable c)"
  by (simp add: gg_log_def log_line_def foldl_append split: option.splits)

lemma find_dir [simp]:
  "find (\<lambda>d. take (length d) (CHR ''s'' # f) = d) directives = Some ''s''"
  "find (\<lambda>d. take (length d) (CHR ''c'' # f) = d) directives = Some ''c''"
  "find (\<lambda>d. take (length d) (CHR ''d'' # f) = d) directives = Some ''d''"
  by (simp_all add: directives_def)

text \<open>What a line consists of.\<close>

lemma log_writes_text:
  assumes "0 \<notin> set (lc_tag c)" "0 \<notin> set (lc_file c)"
  shows "log_writes enable c = map_option (\<lambda>message.
    [log_prefix enable (lc_level c) @ level_c (lc_level c) # str ''['' @ lc_tag c @ str ''] '' @ lc_file c @
       str '':'' @ int_text (lc_line c) @ str '': '', message, [0x0A]]) (printf_text (lc_format c) (lc_args c))"
proof -
  have nul: "takeWhile (\<lambda>c. c \<noteq> 0) s = s" if "0 \<notin> set s" for s :: bytes
    using that by (auto simp: takeWhile_eq_all_conv)
  have p: "0 \<notin> set (log_prefix enable (lc_level c))" by (simp add: log_prefix_def str_def chr_def)
  show ?thesis using assms
    by (cases "printf_text (lc_format c) (lc_args c)") (simp_all add: log_writes_def conversion_def nul p str_def)
qed

section \<open>Threads\<close>

text \<open>The holder of the mutex is the thread with writes to go; what is on stderr and what the holder still
  writes are the lines of the calls, in the order they entered.\<close>

definition log_inv :: "bool \<Rightarrow> (nat \<Rightarrow> log_call list) \<Rightarrow> log_state \<Rightarrow> bool" where
  "log_inv enable calls s \<longleftrightarrow>
     (\<forall>t. lg_mutex s = Some t \<longleftrightarrow> lg_pc s t \<noteq> Outside) \<and>
     (case lg_mutex s of
        None \<Rightarrow> lg_stderr s = concat (map (log_line enable \<circ> snd) (lg_order s))
      | Some t \<Rightarrow> \<exists>ws. lg_pc s t = Writing ws \<and>
          lg_stderr s @ concat ws = concat (map (log_line enable \<circ> snd) (lg_order s))) \<and>
     (\<forall>t. map snd (filter (\<lambda>x. fst x = t) (lg_order s)) @ lg_todo s t = calls t)"

lemma log_inv_start: "log_inv enable calls (log_start calls)"
  by (simp add: log_inv_def log_start_def)

lemma log_inv_step:
  assumes "log_inv enable calls s" "log_step enable s s'"
  shows "log_inv enable calls s'"
  using assms(2,1)
proof (cases rule: log_step.cases)
  case (enter t c cs ws)
  with assms(1) have "\<And>u. lg_pc s u = Outside" by (auto simp: log_inv_def)
  moreover have "map snd (filter (\<lambda>x. fst x = t) (lg_order s)) @ c # cs = calls t"
    using enter(3) assms(1) unfolding log_inv_def by metis
  ultimately show ?thesis using enter assms(1) by (auto simp: log_inv_def log_line_def)
next
  case (emit t w ws)
  with assms(1) have "lg_mutex s = Some t" by (auto simp: log_inv_def)
  with emit assms(1) show ?thesis by (auto simp: log_inv_def)
next
  case (leave t)
  with assms(1) have m: "lg_mutex s = Some t" by (auto simp: log_inv_def)
  with assms(1) have "\<And>u. u \<noteq> t \<Longrightarrow> lg_pc s u = Outside" unfolding log_inv_def by (metis option.inject)
  with m leave assms(1) show ?thesis by (auto simp: log_inv_def)
qed

lemma log_inv_reachable: "log_reachable enable calls s \<Longrightarrow> log_inv enable calls s"
  by (induction rule: log_reachable.induct) (auto intro: log_inv_start log_inv_step)

text \<open>No deadlock: a call that has not been made, or not been finished, can go on.\<close>

lemma log_progress:
  assumes "log_reachable enable calls s" "\<And>t c. c \<in> set (calls t) \<Longrightarrow> log_writes enable c \<noteq> None"
    "lg_mutex s \<noteq> None \<or> lg_todo s t \<noteq> []"
  shows "\<exists>s'. log_step enable s s'"
proof (cases "lg_mutex s")
  case None
  have inv: "log_inv enable calls s" by (rule log_inv_reachable[OF assms(1)])
  with None have out: "lg_pc s t = Outside" unfolding log_inv_def by (metis option.distinct(1))
  obtain c cs where c: "lg_todo s t = c # cs" using assms(3) None by (cases "lg_todo s t") auto
  have "map snd (filter (\<lambda>x. fst x = t) (lg_order s)) @ lg_todo s t = calls t" using inv by (simp add: log_inv_def)
  then have "c \<in> set (calls t)" using c by (metis in_set_conv_decomp)
  then obtain ws where "log_writes enable c = Some ws" using assms(2) by blast
  then show ?thesis using enter[OF out c None] by blast
next
  case (Some u)
  then obtain ws where "lg_pc s u = Writing ws" using log_inv_reachable[OF assms(1)] by (auto simp: log_inv_def)
  then show ?thesis by (cases ws) (auto intro: emit leave)
qed

section \<open>Properties\<close>

text \<open>The journal is recognised exactly: when \<open>JOURNAL_STREAM\<close> is a device and an inode in decimal,
  the prefix is switched on if and only if they are the device and the inode of stderr; without the
  variable, or when stderr has no status, it stays off.\<close>

theorem configure_logging_exact:
  assumes "d < 2 ^ 64" "i < 2 ^ 64"
  shows "(configure_logging (Some (nat_text d @ chr CHR '':'' # nat_text i)) (Some (dev, ino)) False \<longleftrightarrow>
      dev = d \<and> ino = i) \<and>
    \<not> configure_logging None st False \<and> \<not> configure_logging js None False"
proof -
  have d: "strtoul (nat_text d @ chr CHR '':'' # nat_text i) = (d, chr CHR '':'' # nat_text i)"
    by (rule strtoul_text[OF assms(1)]) (simp add: is_digit_def chr_def)
  have "strtoul (nat_text i) = (i, [])" using strtoul_text[OF assms(2), of "[]"] by simp
  with d show ?thesis by (auto simp: configure_logging_def split: option.splits)
qed

theorem configure_logging_exact_witness:
  "configure_logging (Some (nat_text 9 @ chr CHR '':'' # nat_text 21)) (Some (9, 22)) False = False \<and>
   configure_logging (Some (nat_text 9 @ chr CHR '':'' # nat_text 21)) (Some (9, 21)) False = True"
  using configure_logging_exact[of 9 21 9] by simp

text \<open>C12: Lines of threads that log at the same time are never mixed: whatever the interleaving, when no
  thread is inside \<open>gg_log\<close> stderr holds the whole lines of the calls made so far, one after the other; at
  any moment it holds a prefix of whole lines; and every thread's lines are in the order of its calls.\<close>

theorem log_lines_whole:
  assumes "log_reachable enable calls s"
  shows "(lg_mutex s = None \<longrightarrow> lg_stderr s = concat (map (log_line enable \<circ> snd) (lg_order s))) \<and>
    (\<exists>rest. lg_stderr s @ rest = concat (map (log_line enable \<circ> snd) (lg_order s))) \<and>
    map snd (filter (\<lambda>x. fst x = t) (lg_order s)) @ lg_todo s t = calls t"
  using log_inv_reachable[OF assms] by (auto simp: log_inv_def split: option.splits)

theorem log_lines_whole_witness:
  "\<exists>s. log_reachable True (\<lambda>t. if t = 0 then [\<lparr>lc_level = 1, lc_file = str ''a.c'', lc_line = 7, lc_tag = str ''gg'',
     lc_format = ''e %d'', lc_args = [ArgInt (- 3)]\<rparr>] else []) s \<and> lg_stderr s = str ''<3>E[gg] a.c:7: e -3'' @ [0x0A]"
proof -
  let ?c = "\<lparr>lc_level = 1, lc_file = str ''a.c'', lc_line = 7, lc_tag = str ''gg'', lc_format = ''e %d'',
    lc_args = [ArgInt (- 3)]\<rparr>"
  let ?calls = "\<lambda>t. if t = 0 then [?c] else []"
  let ?ws = "[str ''<3>E[gg] a.c:7: '', str ''e -3'', [0x0A]]"
  have ws: "log_writes True ?c = Some ?ws"
    by (subst log_writes_text) (auto simp: conversion_def log_prefix_def level_c_def log_levels str_def chr_def
      int_text_def nat_text.simps)
  note st = log_reachable.step
  let ?s1 = "\<lparr>lg_pc = (\<lambda>_. Outside)(0 := Writing ?ws), lg_todo = ?calls(0 := []), lg_mutex = Some 0, lg_stderr = [],
    lg_order = [(0, ?c)]\<rparr>"
  have "log_step True (log_start ?calls) ?s1"
    using enter[of "log_start ?calls" 0 ?c "[]" True ?ws] ws by (simp add: log_start_def)
  from st[OF log_reachable.start this] have 1: "log_reachable True ?calls ?s1" .
  from st[OF 1 emit[of _ 0]] have 2: "log_reachable True ?calls (?s1\<lparr>lg_pc := (\<lambda>_. Outside)(0 := Writing (drop 1 ?ws)),
    lg_stderr := ?ws ! 0\<rparr>)" by simp
  from st[OF 2 emit[of _ 0]] have 3: "log_reachable True ?calls (?s1\<lparr>lg_pc := (\<lambda>_. Outside)(0 := Writing (drop 2 ?ws)),
    lg_stderr := ?ws ! 0 @ ?ws ! 1\<rparr>)" by simp
  from st[OF 3 emit[of _ 0]] have 4: "log_reachable True ?calls (?s1\<lparr>lg_pc := (\<lambda>_. Outside)(0 := Writing []),
    lg_stderr := concat ?ws\<rparr>)" by simp
  let ?s5 = "?s1\<lparr>lg_pc := (\<lambda>_. Outside)(0 := Outside), lg_mutex := None, lg_stderr := concat ?ws\<rparr>"
  from st[OF 4 leave[of _ 0]] have 5: "log_reachable True ?calls ?s5" by simp
  have "log_line True ?c = str ''<3>E[gg] a.c:7: e -3'' @ [0x0A]" unfolding log_line_def ws by (simp add: str_def)
  moreover have "lg_stderr ?s5 = log_line True ?c" using log_lines_whole[OF 5] by simp
  ultimately have "lg_stderr ?s5 = str ''<3>E[gg] a.c:7: e -3'' @ [0x0A]" by (rule trans[rotated])
  with 5 show ?thesis by (intro exI conjI)
qed

end
