(* ===== verification/Canonical.thy ===== *)
theory Canonical
  imports Json_Docs
begin

text \<open>
  Canonicalizing a whole object in place (\<open>gg_obj_canonicalize\<close>, \<open>src/object_canonical.c\<close>): the visitor sorts every
  map it meets and removes its duplicates before it goes on to the values that are left, so the visit reads
  arrays that the handlers have just rewritten. \<open>blk_sep\<close> says that no array of the object overlaps another part
  of it.
\<close>

section \<open>Arrays and separation\<close>

abbreviation item :: "addr \<Rightarrow> nat \<Rightarrow> addr" where "item q i \<equiv> q + obj_size * i"
abbreviation pair_val :: "addr \<Rightarrow> nat \<Rightarrow> addr" where "pair_val q i \<equiv> gg_kv_val (q + kv_size * i)"

lemma pair_size: "i < length kvs \<Longrightarrow> size (snd (kvs ! i)) < Suc (size_list (size_prod (\<lambda>_. 0) size) kvs)"
proof -
  assume "i < length kvs"
  then have "size_prod (\<lambda>_. 0) size (kvs ! i) \<le> size_list (size_prod (\<lambda>_. 0) size) kvs"
    by (intro size_list_estimation'[of "kvs ! i"]) auto
  then show ?thesis by (cases "kvs ! i") auto
qed

lemma item_size: "i < length vs \<Longrightarrow> size (vs ! i) < Suc (size_list size vs)"
  using size_list_estimation'[of "vs ! i" vs "size (vs ! i)" size] by simp

text \<open>The bytes of the arrays that an object refers to, in all depths: what canonicalization may write.\<close>

function blk_arr :: "mem \<Rightarrow> GgObject \<Rightarrow> gg_val \<Rightarrow> addr set" where
  "blk_arr m x (VList vs) = (let q = le_val (take 8 x) in
     {q..<item q (length vs)} \<union> (\<Union>i \<in> {..<length vs}. blk_arr m (rd m (item q i) obj_size) (vs ! i)))"
| "blk_arr m x (VMap kvs) = (let q = le_val (take 8 x) in
     arr_reg q (length kvs) \<union> (\<Union>i \<in> {..<length kvs}. blk_arr m (rd m (pair_val q i) obj_size) (snd (kvs ! i))))"
| "blk_arr m x VNull = {}" | "blk_arr m x (VBool b) = {}" | "blk_arr m x (VI64 w) = {}" | "blk_arr m x (VF64 w) = {}"
| "blk_arr m x (VBuf bs) = {}"
  by pat_completeness auto
termination
  by (relation "measure (\<lambda>(_, _, v). size v)") (auto simp: pair_size item_size)

function blk_sep :: "mem \<Rightarrow> GgObject \<Rightarrow> gg_val \<Rightarrow> bool" where
  "blk_sep m x (VList vs) = (let q = le_val (take 8 x) in
     {q..<item q (length vs)} \<inter> objs_refs m q vs = {} \<and>
     (\<forall>i \<in> {..<length vs}. blk_sep m (rd m (item q i) obj_size) (vs ! i)) \<and>
     (\<forall>i < length vs. \<forall>j < length vs. i \<noteq> j \<longrightarrow>
        blk_arr m (rd m (item q i) obj_size) (vs ! i) \<inter> blk_foot m (rd m (item q j) obj_size) (vs ! j) = {}))"
| "blk_sep m x (VMap kvs) = (let q = le_val (take 8 x) in
     arr_reg q (length kvs) \<inter> pairs_refs m q kvs = {} \<and>
     (\<forall>i \<in> {..<length kvs}. blk_sep m (rd m (pair_val q i) obj_size) (snd (kvs ! i))) \<and>
     (\<forall>i < length kvs. \<forall>j < length kvs.
        blk_arr m (rd m (pair_val q i) obj_size) (snd (kvs ! i)) \<inter> key_range m (q + kv_size * j) = {} \<and>
        (i \<noteq> j \<longrightarrow> blk_arr m (rd m (pair_val q i) obj_size) (snd (kvs ! i)) \<inter>
           blk_foot m (rd m (pair_val q j) obj_size) (snd (kvs ! j)) = {})))"
| "blk_sep m x VNull = True" | "blk_sep m x (VBool b) = True" | "blk_sep m x (VI64 w) = True" | "blk_sep m x (VF64 w) = True"
| "blk_sep m x (VBuf bs) = True"
  by pat_completeness auto
termination
  by (relation "measure (\<lambda>(_, _, v). size v)") (auto simp: pair_size item_size)

lemma objs_refs_index: "objs_refs m q vs = (\<Union>i < length vs. blk_foot m (rd m (item q i) obj_size) (vs ! i))"
proof (induction vs arbitrary: q)
  case (Cons v vs)
  have "{..<length (v # vs)} = insert 0 (Suc ` {..<length vs})" by (simp add: lessThan_Suc_eq_insert_0)
  then show ?case using Cons[of "q + obj_size"] by (simp add: algebra_simps)
qed simp

lemma pairs_refs_index:
  "pairs_refs m q kvs = (\<Union>i < length kvs. key_range m (q + kv_size * i) \<union> blk_foot m (rd m (pair_val q i) obj_size) (snd (kvs ! i)))"
proof (induction kvs arbitrary: q)
  case (Cons kv kvs)
  have "{..<length (kv # kvs)} = insert 0 (Suc ` {..<length kvs})" by (simp add: lessThan_Suc_eq_insert_0)
  then show ?case using Cons[of "q + kv_size"] by (cases kv) (simp add: algebra_simps gg_kv_val_def)
qed simp

lemma objs_at_index: "objs_at m q vs \<longleftrightarrow> (\<forall>i < length vs. obj_at m (item q i) (vs ! i))"
proof (induction vs arbitrary: q)
  case (Cons v vs)
  then show ?case by (simp add: All_less_Suc2 algebra_simps)
qed simp

lemma kvs_at_index: "kvs_at m q kvs \<longleftrightarrow> (\<forall>i < length kvs. contents m (gg_kv_key (rd m (q + kv_size * i) kv_size)) = fst (kvs ! i) \<and>
    obj_at m (pair_val q i) (snd (kvs ! i)))"
proof (induction kvs arbitrary: q)
  case (Cons kv kvs)
  then show ?case by (cases kv) (simp add: All_less_Suc2 algebra_simps gg_kv_val_def)
qed simp

text \<open>The parts of a list and of a map.\<close>

lemma list_parts:
  assumes "val_blk m x (VList vs)" "q = le_val (take 8 x)" "i < length vs"
  shows "obj_at m (item q i) (vs ! i)" "{item q i..<item q i + obj_size} \<subseteq> {q..<item q (length vs)}"
    "blk_foot m (rd m (item q i) obj_size) (vs ! i) \<subseteq> objs_refs m q vs"
    "blk_foot m x (VList vs) = {q..<item q (length vs)} \<union> objs_refs m q vs"
proof -
  obtain l where l: "gg_obj_into_list x = Some l" "objs_at m (list_items l) vs" using assms(1) by (auto split: option.splits)
  then show "obj_at m (item q i) (vs ! i)" using into_val(2)[OF l(1)] assms(2,3) by (simp add: objs_at_index)
  have "obj_size * Suc i \<le> obj_size * length vs" using assms(3) by (intro mult_le_mono2) simp
  then show "{item q i..<item q i + obj_size} \<subseteq> {q..<item q (length vs)}" by auto
  show "blk_foot m (rd m (item q i) obj_size) (vs ! i) \<subseteq> objs_refs m q vs" unfolding objs_refs_index using assms(3) by blast
  show "blk_foot m x (VList vs) = {q..<item q (length vs)} \<union> objs_refs m q vs" by (simp add: assms(2) objs_foot_eq)
qed

lemma map_parts:
  assumes "val_blk m x (VMap kvs)" "q = le_val (take 8 x)" "i < length kvs"
  shows "obj_at m (pair_val q i) (snd (kvs ! i))" "contents m (gg_kv_key (rd m (q + kv_size * i) kv_size)) = fst (kvs ! i)"
    "{q + kv_size * i..<q + kv_size * i + kv_size} \<subseteq> arr_reg q (length kvs)"
    "{pair_val q i..<pair_val q i + obj_size} \<subseteq> {q + kv_size * i..<q + kv_size * i + kv_size}"
    "key_range m (q + kv_size * i) \<union> blk_foot m (rd m (pair_val q i) obj_size) (snd (kvs ! i)) \<subseteq> pairs_refs m q kvs"
    "blk_foot m x (VMap kvs) = arr_reg q (length kvs) \<union> pairs_refs m q kvs"
proof -
  obtain l where l: "gg_obj_into_map x = Some l" "kvs_at m (map_pairs l) kvs" using assms(1) by (auto split: option.splits)
  then have q: "kvs_at m q kvs" using into_val(3)[OF l(1)] assms(2) by simp
  then show "obj_at m (pair_val q i) (snd (kvs ! i))" "contents m (gg_kv_key (rd m (q + kv_size * i) kv_size)) = fst (kvs ! i)"
    using assms(3) by (simp_all add: kvs_at_index)
  have "kv_size * Suc i \<le> kv_size * length kvs" using assms(3) by (intro mult_le_mono2) simp
  then show "{q + kv_size * i..<q + kv_size * i + kv_size} \<subseteq> arr_reg q (length kvs)" by auto
  show "{pair_val q i..<pair_val q i + obj_size} \<subseteq> {q + kv_size * i..<q + kv_size * i + kv_size}" by (auto simp: gg_kv_val_def)
  show "key_range m (q + kv_size * i) \<union> blk_foot m (rd m (pair_val q i) obj_size) (snd (kvs ! i)) \<subseteq> pairs_refs m q kvs"
    unfolding pairs_refs_index using assms(3) by blast
  show "blk_foot m x (VMap kvs) = arr_reg q (length kvs) \<union> pairs_refs m q kvs" using kvs_foot_eq[OF q] by (simp add: assms(2))
qed

lemma map_foot: "val_blk m x (VMap kvs) \<Longrightarrow> blk_foot m x (VMap kvs) = arr_reg (le_val (take 8 x)) (length kvs) \<union> pairs_refs m (le_val (take 8 x)) kvs"
  using into_val(3)[of x] kvs_foot_eq[of m "le_val (take 8 x)" kvs] by (auto split: option.splits)

lemma arr_in_foot: "val_blk m x v \<Longrightarrow> blk_arr m x v \<subseteq> blk_foot m x v"
proof (induction m x v rule: blk_arr.induct)
  case (1 m x vs)
  let ?q = "le_val (take 8 x)"
  have "blk_arr m (rd m (item ?q i) obj_size) (vs ! i) \<subseteq> objs_refs m ?q vs" if "i < length vs" for i
    using 1(1)[OF refl, of i] list_parts(1,3)[OF 1(2) refl that] that by auto
  then show ?case by (auto simp: Let_def objs_foot_eq)
next
  case (2 m x kvs)
  let ?q = "le_val (take 8 x)"
  have "blk_arr m (rd m (pair_val ?q i) obj_size) (snd (kvs ! i)) \<subseteq> pairs_refs m ?q kvs" if "i < length kvs" for i
    using 2(1)[OF refl, of i] map_parts(1,5)[OF 2(2) refl that] that by auto
  then show ?case unfolding map_foot[OF 2(2)] by (auto simp: Let_def simp del: blk_foot.simps)
qed simp_all

lemma key_range_frame:
  assumes "rd m' p kv_size = rd m p kv_size"
  shows "key_range m' p = key_range m p"
  using assms by (simp add: key_range_def)

text \<open>They depend on the footprint only.\<close>

lemma sep_frame: "val_blk m x v \<Longrightarrow> agree_on (blk_foot m x v) m m' \<Longrightarrow> blk_arr m' x v = blk_arr m x v \<and> blk_sep m' x v = blk_sep m x v"
proof (induction m x v rule: blk_sep.induct)
  case (1 m x vs)
  let ?q = "le_val (take 8 x)" let ?x = "\<lambda>m i. rd m (item ?q i) obj_size"
  have *: "?x m' i = ?x m i" "agree_on (blk_foot m (?x m i) (vs ! i)) m m'" if "i < length vs" for i
  proof -
    note l = list_parts(2-4)[OF 1(2) refl that]
    have "{item ?q i..<item ?q i + obj_size} \<subseteq> blk_foot m x (VList vs)" unfolding l(3) using l(1) by blast
    from agree_on_rd[OF 1(3) this] show "?x m' i = ?x m i" by simp
    show "agree_on (blk_foot m (?x m i) (vs ! i)) m m'" by (rule agree_on_mono[OF 1(3)]) (use l(2,3) in blast)
  qed
  have IH: "blk_arr m' (?x m i) (vs ! i) = blk_arr m (?x m i) (vs ! i)" "blk_sep m' (?x m i) (vs ! i) = blk_sep m (?x m i) (vs ! i)"
    "blk_foot m' (?x m i) (vs ! i) = blk_foot m (?x m i) (vs ! i)" if "i < length vs" for i
    using 1(1)[OF refl, of i] list_parts(1)[OF 1(2) refl that] *[OF that] that blk_foot_frame[of m "?x m i" "vs ! i" m'] by auto
  show ?case by (simp add: Let_def objs_refs_index * IH)
next
  case (2 m x kvs)
  let ?q = "le_val (take 8 x)" let ?x = "\<lambda>m i. rd m (pair_val ?q i) obj_size"
  have *: "?x m' i = ?x m i" "agree_on (blk_foot m (?x m i) (snd (kvs ! i))) m m'"
    "rd m' (?q + kv_size * i) kv_size = rd m (?q + kv_size * i) kv_size" if "i < length kvs" for i
  proof -
    note l = map_parts(3-6)[OF 2(2) refl that]
    have c: "{?q + kv_size * i..<?q + kv_size * i + kv_size} \<subseteq> blk_foot m x (VMap kvs)" unfolding l(4) using l(1) by blast
    from agree_on_rd[OF 2(3) c] show "rd m' (?q + kv_size * i) kv_size = rd m (?q + kv_size * i) kv_size" by simp
    from agree_on_rd[OF 2(3) subset_trans[OF l(2) c]] show "?x m' i = ?x m i" by simp
    show "agree_on (blk_foot m (?x m i) (snd (kvs ! i))) m m'" by (rule agree_on_mono[OF 2(3)]) (use l(3,4) in blast)
  qed
  have IH: "blk_arr m' (?x m i) (snd (kvs ! i)) = blk_arr m (?x m i) (snd (kvs ! i))" "blk_sep m' (?x m i) (snd (kvs ! i)) = blk_sep m (?x m i) (snd (kvs ! i))"
    "blk_foot m' (?x m i) (snd (kvs ! i)) = blk_foot m (?x m i) (snd (kvs ! i))" if "i < length kvs" for i
    using 2(1)[OF refl lessThan_iff[THEN iffD2, OF that] map_parts(1)[OF 2(2) refl that] *(2)[OF that]]
      blk_foot_frame[OF *(2)[OF that] map_parts(1)[OF 2(2) refl that]] by blast+
  have k: "key_range m' (?q + kv_size * i) = key_range m (?q + kv_size * i)" if "i < length kvs" for i
    using *(3)[OF that] by (rule key_range_frame)
  show ?case by (simp add: Let_def pairs_refs_index *(1) IH k)
qed simp_all

section \<open>Visiting cells\<close>

text \<open>A cell is the place of an object and its value. The visit of a list or a map goes through its cells; what it writes at one
  cell must not be part of another.\<close>

type_synonym cell = "addr \<times> gg_val"

abbreviation cell_foot :: "mem \<Rightarrow> cell \<Rightarrow> addr set" where "cell_foot m x \<equiv> obj_foot m (fst x) (snd x)"

definition cell_w :: "mem \<Rightarrow> cell \<Rightarrow> addr set" where
  "cell_w m x = {fst x..<fst x + obj_size} \<union> blk_arr m (rd m (fst x) obj_size) (snd x)"

definition cell_ok :: "mem \<Rightarrow> cell \<Rightarrow> bool" where
  "cell_ok m x \<longleftrightarrow> obj_at m (fst x) (snd x) \<and> blk_sep m (rd m (fst x) obj_size) (snd x) \<and>
     {fst x..<fst x + obj_size} \<inter> blk_foot m (rd m (fst x) obj_size) (snd x) = {}"

definition apart :: "mem \<Rightarrow> cell \<Rightarrow> cell \<Rightarrow> bool" where
  "apart m x y \<longleftrightarrow> cell_w m x \<inter> cell_foot m y = {} \<and> cell_w m y \<inter> cell_foot m x = {}"

definition cells_ok :: "mem \<Rightarrow> cell list \<Rightarrow> bool" where
  "cells_ok m cs \<longleftrightarrow> (\<forall>x \<in> set cs. cell_ok m x) \<and> sorted_wrt (apart m) cs"

definition cells_w :: "mem \<Rightarrow> cell list \<Rightarrow> addr set" where
  "cells_w m cs = (\<Union>x \<in> set cs. cell_w m x)"

lemma cell_w_foot: "cell_ok m x \<Longrightarrow> cell_w m x \<subseteq> cell_foot m x"
  using arr_in_foot[of m "rd m (fst x) obj_size" "snd x"] by (auto simp: cell_ok_def cell_w_def)

lemma cell_frame:
  assumes "agree_off W m m'" "cell_foot m x \<inter> W = {}" "cell_ok m x"
  shows "cell_ok m' x" "cell_foot m' x = cell_foot m x" "cell_w m' x = cell_w m x" "rd m' (fst x) obj_size = rd m (fst x) obj_size"
    "blk_foot m' (rd m' (fst x) obj_size) (snd x) = blk_foot m (rd m (fst x) obj_size) (snd x)"
proof -
  have at: "obj_at m (fst x) (snd x)" using assms(3) by (simp add: cell_ok_def)
  show eq: "rd m' (fst x) obj_size = rd m (fst x) obj_size" by (rule rd_off[OF assms(1)]) (use assms(2) in blast)
  have on: "agree_on (blk_foot m (rd m (fst x) obj_size) (snd x)) m m'" by (rule agree_off_on[OF assms(1)]) (use assms(2) in blast)
  note f = val_blk_frame[OF on at] blk_foot_frame[OF on at] sep_frame[OF at on]
  show "cell_ok m' x" "cell_foot m' x = cell_foot m x" "cell_w m' x = cell_w m x"
    "blk_foot m' (rd m' (fst x) obj_size) (snd x) = blk_foot m (rd m (fst x) obj_size) (snd x)"
    using assms(3) f unfolding cell_ok_def cell_w_def eq by simp_all
qed

abbreviation canon_handlers :: "GgBuffer \<Rightarrow> unit GgObjectVisitHandlers" where
  "canon_handlers pruned \<equiv> no_handlers\<lparr>on_map := Some (canonicalize_map pruned)\<rparr>"

definition canon_done :: "mem \<Rightarrow> mem \<Rightarrow> cell \<Rightarrow> bool" where
  "canon_done m m' x \<longleftrightarrow> obj_at m' (fst x) (canon_val (snd x)) \<and>
     blk_foot m' (rd m' (fst x) obj_size) (canon_val (snd x)) \<subseteq> blk_foot m (rd m (fst x) obj_size) (snd x)"

definition canons :: "GgBuffer \<Rightarrow> gg_val \<Rightarrow> bool" where
  "canons pruned v \<longleftrightarrow> (\<forall>d p s m. cell_ok m (p, v) \<longrightarrow> d + val_depth v \<le> 15 \<longrightarrow> s + val_count v \<le> 255 \<longrightarrow>
     (\<exists>s' m'. vobj (canon_handlers pruned) d p s () m (Next s' () m') \<and> s' \<le> s + val_count v \<and>
        canon_done m m' (p, v) \<and> agree_off (cell_w m (p, v)) m m'))"

lemma canonsD:
  "canons pruned (snd x) \<Longrightarrow> cell_ok m x \<Longrightarrow> d + val_depth (snd x) \<le> 15 \<Longrightarrow> s + val_count (snd x) \<le> 255 \<Longrightarrow>
     \<exists>s' m'. vobj (canon_handlers pruned) d (fst x) s () m (Next s' () m') \<and> s' \<le> s + val_count (snd x) \<and>
       canon_done m m' x \<and> agree_off (cell_w m x) m m'"
  unfolding canons_def by (cases x) simp

text \<open>The cells are visited one after the other, and the object at \<open>p\<close> stays as it is.\<close>

fun chain :: "GgBuffer \<Rightarrow> addr \<Rightarrow> nat \<Rightarrow> cell list \<Rightarrow> nat \<Rightarrow> mem \<Rightarrow> nat \<Rightarrow> mem \<Rightarrow> bool" where
  "chain pruned p d [] s m s' m' = (s' = s \<and> m' = m)"
| "chain pruned p d (x # xs) s m s' m' = (\<exists>s1 m1. vobj (canon_handlers pruned) d (fst x) s () m (Next s1 () m1) \<and>
     rd m1 p obj_size = rd m p obj_size \<and> chain pruned p d xs s1 m1 s' m')"

lemma canon_cells:
  assumes "\<forall>x \<in> set cs. canons pruned (snd x) \<and> d + val_depth (snd x) \<le> 15 \<and> {p..<p + obj_size} \<inter> cell_foot m x = {}"
    "cells_ok m cs" "s + sum_list (map (val_count \<circ> snd) cs) \<le> 255"
  shows "\<exists>s' m'. chain pruned p d cs s m s' m' \<and> s' \<le> s + sum_list (map (val_count \<circ> snd) cs) \<and>
    (\<forall>x \<in> set cs. canon_done m m' x) \<and> agree_off (cells_w m cs) m m'"
  using assms
proof (induction cs arbitrary: s m)
  case Nil
  then show ?case by (auto simp: cells_w_def)
next
  case (Cons x cs)
  have ok: "cell_ok m x" and apart: "\<And>y. y \<in> set cs \<Longrightarrow> apart m x y" and oks: "cells_ok m cs"
    using Cons.prems(2) by (auto simp: cells_ok_def)
  obtain s1 m1 where 1: "vobj (canon_handlers pruned) d (fst x) s () m (Next s1 () m1)" "s1 \<le> s + val_count (snd x)"
    "canon_done m m1 x" "agree_off (cell_w m x) m m1"
    using canonsD[of pruned x m d s] Cons.prems(1,3) ok by auto
  have f: "cell_ok m1 y" "cell_foot m1 y = cell_foot m y" "cell_w m1 y = cell_w m y"
    "blk_foot m1 (rd m1 (fst y) obj_size) (snd y) = blk_foot m (rd m (fst y) obj_size) (snd y)" if "y \<in> set cs" for y
  proof -
    have d: "cell_foot m y \<inter> cell_w m x = {}" using apart[OF that] unfolding apart_def by blast
    have "cell_ok m y" using oks that by (simp add: cells_ok_def)
    from cell_frame[OF 1(4) d this] show "cell_ok m1 y" "cell_foot m1 y = cell_foot m y" "cell_w m1 y = cell_w m y"
      "blk_foot m1 (rd m1 (fst y) obj_size) (snd y) = blk_foot m (rd m (fst y) obj_size) (snd y)" by simp_all
  qed
  have p1: "rd m1 p obj_size = rd m p obj_size"
    by (rule rd_off[OF 1(4)]) (use Cons.prems(1) cell_w_foot[OF ok] in auto)
  have ap: "apart m1 y z = apart m y z" if "y \<in> set cs" "z \<in> set cs" for y z
    unfolding apart_def f(2,3)[OF that(1)] f(2,3)[OF that(2)] ..
  have "sorted_wrt (apart m1) cs" using oks ap unfolding cells_ok_def by (auto intro: sorted_wrt_mono_rel[of cs "apart m"])
  then have "cells_ok m1 cs" using f(1) by (simp add: cells_ok_def)
  moreover have "\<forall>y \<in> set cs. canons pruned (snd y) \<and> d + val_depth (snd y) \<le> 15 \<and> {p..<p + obj_size} \<inter> cell_foot m1 y = {}"
    using Cons.prems(1) f(2) by (metis list.set_intros(2))
  moreover have "s1 + sum_list (map (val_count \<circ> snd) cs) \<le> 255" using Cons.prems(3) 1(2) by (simp add: comp_def)
  ultimately obtain s' m' where 2: "chain pruned p d cs s1 m1 s' m'" "s' \<le> s1 + sum_list (map (val_count \<circ> snd) cs)"
    "\<forall>y \<in> set cs. canon_done m1 m' y" "agree_off (cells_w m1 cs) m1 m'" using Cons.IH by blast
  have w: "cells_w m1 cs = cells_w m cs" unfolding cells_w_def using f(3) by simp
  have "obj_foot m1 (fst x) (canon_val (snd x)) \<subseteq> cell_foot m x" using 1(3) unfolding canon_done_def by blast
  moreover have "cell_foot m x \<inter> cells_w m cs = {}" using apart unfolding cells_w_def apart_def by blast
  ultimately have "obj_foot m1 (fst x) (canon_val (snd x)) \<inter> cells_w m1 cs = {}" unfolding w by blast
  from obj_off[OF 2(4) this] 1(3) have "canon_done m m' x" unfolding canon_done_def by simp
  moreover have "canon_done m m' y" if "y \<in> set cs" for y using 2(3) that f(4)[OF that] unfolding canon_done_def by auto
  moreover have "agree_off (cells_w m (x # cs)) m m'"
    using agree_off_mono[OF 1(4), of "cells_w m (x # cs)"] agree_off_mono[OF 2(4)[unfolded w], of "cells_w m (x # cs)"]
    by (auto simp: cells_w_def intro: agree_off_trans)
  ultimately show ?case using 1(1,2) 2(1,2) p1 by (intro exI[of _ s'] exI[of _ m']) (auto simp: comp_def)
qed

section \<open>Lists\<close>

lemmas no_call_defs = no_handlers_def call0_def call1_def call2_def cont_def

lemma no_calls:
  "call0 (on_null (canon_handlers pruned)) c m = Some (GG_ERR_OK, c, m)" "call1 (on_bool (canon_handlers pruned)) b c m = Some (GG_ERR_OK, c, m)"
  "call1 (on_i64 (canon_handlers pruned)) w c m = Some (GG_ERR_OK, c, m)" "call1 (on_f64 (canon_handlers pruned)) w c m = Some (GG_ERR_OK, c, m)"
  "call2 (on_buf (canon_handlers pruned)) u p c m = Some (GG_ERR_OK, c, m)" "call2 (on_list (canon_handlers pruned)) l p c m = Some (GG_ERR_OK, c, m)"
  "call2 (on_map_key (canon_handlers pruned)) u p c m = Some (GG_ERR_OK, c, m)"
  "call0 (end_list (canon_handlers pruned)) c m = Some (GG_ERR_OK, c, m)" "call0 (end_map (canon_handlers pruned)) c m = Some (GG_ERR_OK, c, m)"
  "cont i (cont_list (canon_handlers pruned)) c m = Some (GG_ERR_OK, c, m)" "cont i (cont_map (canon_handlers pruned)) c m = Some (GG_ERR_OK, c, m)"
  by (simp_all add: no_call_defs)

lemma chain_vlist:
  "chain pruned p (Suc d) (map (\<lambda>j. (item q j, vs ! j)) [i..<n]) s m s' m' \<Longrightarrow>
     gg_obj_into_list (rd m p obj_size) = Some \<lparr>list_items = q, list_len = n\<rparr> \<Longrightarrow> i \<le> n \<Longrightarrow> n \<le> 255 \<Longrightarrow> Suc d < 15 \<or> i = n \<Longrightarrow>
     vlist (canon_handlers pruned) d p i s () m (Next s' () m')"
proof (induction "n - i" arbitrary: i s m)
  case 0
  then have "vlist (canon_handlers pruned) d p i s () m (after (GG_ERR_OK, (), m) s)"
    by (intro list_end[OF 0(3)]) (simp_all add: no_call_defs)
  then show ?case using 0 by (simp add: after_def)
next
  case (Suc k)
  then have i: "i < n" "[i..<n] = i # [Suc i..<n]" by (simp_all add: upt_conv_Cons)
  then obtain s1 m1 where 1: "vobj (canon_handlers pruned) (Suc d) (item q i) s () m (Next s1 () m1)" "rd m1 p obj_size = rd m p obj_size"
    "chain pruned p (Suc d) (map (\<lambda>j. (item q j, vs ! j)) [Suc i..<n]) s1 m1 s' m'" using Suc.prems(1) by auto
  have "vlist (canon_handlers pruned) d p (Suc i) s1 () m1 (Next s' () m')"
    using Suc.hyps(1)[of "Suc i" s1 m1] Suc.hyps(2) Suc.prems 1(2,3) i(1) by auto
  moreover have "u8 (i + 1) = Suc i" using i(1) Suc.prems(4) by simp
  moreover have "vobj (canon_handlers pruned) (Suc d) (list_items \<lparr>list_items = q, list_len = n\<rparr> + obj_size * i) s () m (Next s1 () m1)"
    using 1(1) by simp
  note list_item[OF Suc.prems(2) _ no_calls(10) _ this]
  ultimately show ?case using i(1) Suc.prems(5) by (simp add: GG_MAX_OBJECT_DEPTH_def)
qed

lemma canons_leaf: "(\<forall>vs. v \<noteq> VList vs) \<Longrightarrow> (\<forall>kvs. v \<noteq> VMap kvs) \<Longrightarrow> canons pruned v"
  unfolding canons_def
proof (intro allI impI)
  fix d p s and m :: mem
  assume v: "\<forall>vs. v \<noteq> VList vs" "\<forall>kvs. v \<noteq> VMap kvs" and "cell_ok m (p, v)"
  then have at: "obj_at m p v" by (simp add: cell_ok_def)
  have "leaf_act (canon_handlers pruned) p (val_type v) () m = Some (GG_ERR_OK, (), m)"
    using v at by (cases v) (auto simp: leaf_act_def Let_def no_call_defs split: option.splits)
  from leaf[OF val_blk_type[OF at] this, of d s] have "vobj (canon_handlers pruned) d p s () m (Next s () m)" by (simp add: after_def)
  moreover have "canon_val v = v" using v by (cases v) auto
  ultimately show "\<exists>s' m'. vobj (canon_handlers pruned) d p s () m (Next s' () m') \<and> s' \<le> s + val_count v \<and>
        canon_done m m' (p, v) \<and> agree_off (cell_w m (p, v)) m m'"
    using at by (intro exI[of _ s] exI[of _ m]) (simp add: canon_done_def)
qed

lemma sum_index: "sum_list (map f xs) = sum_list (map (\<lambda>i. f (xs ! i)) [0..<length xs])"
  by (metis map_map map_nth comp_def map_cong)

lemma vals_sums: "vals_count vs = sum_list (map val_count vs)" "v \<in> set vs \<Longrightarrow> val_depth v \<le> vals_depth vs"
  by (induction vs) auto

lemma kvs_sums: "kvs_count kvs = sum_list (map (val_count \<circ> snd) kvs)" "kv \<in> set kvs \<Longrightarrow> val_depth (snd kv) \<le> kvs_depth kvs"
  by (induction kvs) auto

lemma val_depth_pos: "0 < val_depth v"
  by (cases v) auto

lemma canon_vals_map: "canon_vals vs = map canon_val vs"
  by (induction vs) auto

lemma canon_pairs_map: "canon_pairs kvs = map (\<lambda>kv. (fst kv, canon_val (snd kv))) kvs"
  by (induction kvs) auto

text \<open>The cells of a list.\<close>

lemma list_cells:
  assumes "cell_ok m (p, VList vs)"
  defines "q \<equiv> le_val (take 8 (rd m p obj_size))"
  defines "cs \<equiv> map (\<lambda>j. (item q j, vs ! j)) [0..<length vs]"
  shows "cells_ok m cs" "\<And>x. x \<in> set cs \<Longrightarrow> {p..<p + obj_size} \<inter> cell_foot m x = {}" "cells_w m cs \<subseteq> blk_arr m (rd m p obj_size) (VList vs)"
    "gg_obj_into_list (rd m p obj_size) = Some \<lparr>list_items = q, list_len = length vs\<rparr>"
proof -
  let ?x = "rd m p obj_size" and ?n = "length vs"
  have blk: "val_blk m ?x (VList vs)" and sep: "blk_sep m ?x (VList vs)" and out: "{p..<p + obj_size} \<inter> blk_foot m ?x (VList vs) = {}"
    using assms(1) by (simp_all only: cell_ok_def fst_conv snd_conv)
  obtain l where l: "gg_obj_into_list ?x = Some l" "list_len l = ?n" using blk by (auto split: option.splits)
  then show "gg_obj_into_list ?x = Some \<lparr>list_items = q, list_len = ?n\<rparr>" using into_val(2)[OF l(1)] by (cases l) (simp add: q_def)
  note part = list_parts[OF blk, folded q_def, OF refl]
  have arr: "{q..<item q ?n} \<inter> objs_refs m q vs = {}" and seps: "\<And>i. i < ?n \<Longrightarrow> blk_sep m (rd m (item q i) obj_size) (vs ! i)"
    and ap: "\<And>i j. i < ?n \<Longrightarrow> j < ?n \<Longrightarrow> i \<noteq> j \<Longrightarrow>
        blk_arr m (rd m (item q i) obj_size) (vs ! i) \<inter> blk_foot m (rd m (item q j) obj_size) (vs ! j) = {}"
    using sep by (simp_all add: Let_def q_def)
  have cell: "cell_ok m (item q i, vs ! i)" if "i < ?n" for i
    using part(1-3)[OF that] seps[OF that] arr unfolding cell_ok_def fst_conv snd_conv by blast
  have w: "cell_w m (item q i, vs ! i) \<inter> cell_foot m (item q j, vs ! j) = {}" if "i < ?n" "j < ?n" "i \<noteq> j" for i j
  proof -
    have "{item q i..<item q i + obj_size} \<inter> {item q j..<item q j + obj_size} = {}" using that(3) by (cases "i < j") auto
    moreover have "blk_arr m (rd m (item q i) obj_size) (vs ! i) \<subseteq> objs_refs m q vs"
      using arr_in_foot[OF part(1)[OF that(1)]] part(3)[OF that(1)] by blast
    ultimately show ?thesis using ap[OF that] part(2,3)[OF that(1)] part(2,3)[OF that(2)] arr
      unfolding cell_w_def fst_conv snd_conv by blast
  qed
  show "cells_ok m cs" using cell w by (auto simp: cs_def cells_ok_def apart_def sorted_wrt_iff_nth_less)
  show "{p..<p + obj_size} \<inter> cell_foot m x = {}" if "x \<in> set cs" for x
  proof -
    from that obtain i where i: "i < ?n" "x = (item q i, vs ! i)" by (auto simp: cs_def)
    then have "cell_foot m x \<subseteq> blk_foot m ?x (VList vs)" unfolding part(4)[OF i(1)] using part(2,3)[OF i(1)] by auto
    then show ?thesis using out by blast
  qed
  show "cells_w m cs \<subseteq> blk_arr m ?x (VList vs)"
    using part(2) by (fastforce simp: cs_def cells_w_def cell_w_def Let_def q_def)
qed

lemma canons_list:
  assumes "\<And>v. v \<in> set vs \<Longrightarrow> canons pruned v"
  shows "canons pruned (VList vs)"
  unfolding canons_def
proof (intro allI impI)
  fix d p s and m :: mem
  assume ok: "cell_ok m (p, VList vs)" and lim: "d + val_depth (VList vs) \<le> 15" "s + val_count (VList vs) \<le> 255"
  let ?x = "rd m p obj_size" let ?q = "le_val (take 8 ?x)" and ?n = "length vs"
  let ?cs = "map (\<lambda>j. (item ?q j, vs ! j)) [0..<?n]"
  note cells = list_cells[OF ok]
  have blk: "val_blk m ?x (VList vs)" and out: "{p..<p + obj_size} \<inter> blk_foot m ?x (VList vs) = {}"
    using ok by (simp_all only: cell_ok_def fst_conv snd_conv)
  have sum: "sum_list (map (val_count \<circ> snd) ?cs) = vals_count vs"
    unfolding vals_sums(1) sum_index[of val_count vs] by (simp add: comp_def)
  have depth: "Suc d + val_depth v \<le> 15" if "v \<in> set vs" for v using vals_sums(2)[OF that] lim(1) by simp
  then have pre: "\<forall>x \<in> set ?cs. canons pruned (snd x) \<and> Suc d + val_depth (snd x) \<le> 15 \<and> {p..<p + obj_size} \<inter> cell_foot m x = {}"
    using cells(2) assms by auto
  have "s + ?n + sum_list (map (val_count \<circ> snd) ?cs) \<le> 255" unfolding sum using lim(2) by simp
  from canon_cells[OF pre cells(1) this] obtain s' m' where
    r: "chain pruned p (Suc d) ?cs (s + ?n) m s' m'" "s' \<le> s + ?n + vals_count vs" "\<forall>x \<in> set ?cs. canon_done m m' x"
      "agree_off (cells_w m ?cs) m m'" unfolding sum by blast
  have "Suc d < 15 \<or> 0 = ?n" using depth[of "hd vs"] val_depth_pos[of "hd vs"] by (cases vs) auto
  from chain_vlist[OF r(1) cells(4) _ _ this] lim(2) have "vlist (canon_handlers pruned) d p 0 (s + ?n) () m (Next s' () m')" by simp
  moreover have "u8 (s + u8 ?n) = s + ?n" using lim(2) by simp
  ultimately have v: "vobj (canon_handlers pruned) d p s () m (Next s' () m')"
    using list[OF cells(4) _ no_calls(6)] lim(2) by (simp add: GG_MAX_OBJECT_SUBOBJECTS_def)
  have "rd m' p obj_size = ?x"
    by (rule rd_off[OF r(4)]) (use cells(3) out arr_in_foot[OF blk] in blast)
  moreover have "obj_at m' (item ?q i) (canon_vals vs ! i) \<and>
      blk_foot m' (rd m' (item ?q i) obj_size) (canon_vals vs ! i) \<subseteq> blk_foot m (rd m (item ?q i) obj_size) (vs ! i)" if "i < ?n" for i
    using r(3) that by (auto simp: canon_done_def canon_vals_map)
  ultimately have "canon_done m m' (p, VList vs)"
    using cells(4) unfolding canon_done_def fst_conv snd_conv canon_val.simps
    by (auto simp: objs_at_index objs_foot_eq objs_refs_index)
  moreover have "agree_off (cell_w m (p, VList vs)) m m'"
    by (rule agree_off_mono[OF r(4)]) (use cells(3) in \<open>auto simp: cell_w_def\<close>)
  ultimately show "\<exists>s' m'. vobj (canon_handlers pruned) d p s () m (Next s' () m') \<and> s' \<le> s + val_count (VList vs) \<and>
        canon_done m m' (p, VList vs) \<and> agree_off (cell_w m (p, VList vs)) m m'"
    using v r(2) by (intro exI[of _ s'] exI[of _ m']) auto
qed

section \<open>Maps\<close>

lemma key_stays:
  assumes "cell_ok m (p, VMap kvs)" "q = le_val (take 8 (rd m p obj_size))" "i < length kvs" "agree_off ({p..<p + obj_size} \<union> arr_reg q (length kvs)) m m'"
  shows "key_of m' (rd m (q + kv_size * i) kv_size) = fst (kvs ! i)"
proof -
  let ?u = "gg_kv_key (rd m (q + kv_size * i) kv_size)"
  have blk: "val_blk m (rd m p obj_size) (VMap kvs)" and sep: "arr_reg q (length kvs) \<inter> pairs_refs m q kvs = {}"
    and out: "{p..<p + obj_size} \<inter> blk_foot m (rd m p obj_size) (VMap kvs) = {}"
    using assms(1,2) by (simp_all add: cell_ok_def Let_def)
  note part = map_parts[OF blk assms(2,3)]
  have "key_range m (q + kv_size * i) \<inter> ({p..<p + obj_size} \<union> arr_reg q (length kvs)) = {}" using part(5,6) sep out by blast
  then have "contents m' ?u = contents m ?u" unfolding contents_def by (intro rd_off[OF assms(4)]) (simp add: key_range_def Let_def)
  then show ?thesis using part(2) by simp
qed

text \<open>\<open>pos\<close> is where a pair that is left was before.\<close>

definition moved :: "mem \<Rightarrow> mem \<Rightarrow> addr \<Rightarrow> (bytes \<times> gg_val) list \<Rightarrow> (nat \<Rightarrow> nat) \<Rightarrow> bool" where
  "moved m m' q kvs pos \<longleftrightarrow> inj_on pos {..<length (map_canon kvs)} \<and> (\<forall>j < length (map_canon kvs). pos j < length kvs \<and>
     map_canon kvs ! j = kvs ! pos j \<and> rd m' (q + kv_size * j) kv_size = rd m (q + kv_size * pos j) kv_size)"

lemma canon_shallow:
  assumes "buf_len pruned < 65536" "cell_ok m (p, VMap kvs)" "q = le_val (take 8 (rd m p obj_size))"
  shows "\<exists>m' pos. gg_map_canonicalize_shallow pruned m \<lparr>map_pairs = q, map_len = length kvs\<rparr> =
      Some (m', \<lparr>map_pairs = q, map_len = length (map_canon kvs)\<rparr>) \<and>
    moved m m' q kvs pos \<and> agree_off (arr_reg q (length kvs)) m m'"
proof -
  let ?val = "\<lparr>map_pairs = q, map_len = length kvs\<rparr>" and ?n = "length kvs" and ?ks = "map_canon kvs"
  let ?xs = "kv_arr m q ?n" and ?A = "arr_reg q ?n"
  let ?R = "\<lambda>b kv. \<exists>i < ?n. b = rd m (q + kv_size * i) kv_size \<and> kv = kvs ! i"
  have key: "key_of m' b = fst kv" if "?R b kv" "agree_off ?A m m'" for b kv m'
    using that(1) key_stays[OF assms(2,3) _ agree_off_mono[OF that(2)]] by auto
  have rel: "list_all2 ?R ?xs kvs" by (auto simp: list_all2_conv_all_nth)
  have "keys_fixed ?A m (key_of m) ?xs" unfolding keys_fixed_def
  proof (intro ballI allI impI)
    fix b m' assume "b \<in> set ?xs" and off: "agree_off ?A m m'"
    then obtain i where "i < ?n" "b = rd m (q + kv_size * i) kv_size" by (auto simp: kv_arr_def)
    then have "?R b (kvs ! i)" by blast
    then show "key_of m' b = key_of m b" using key[OF _ off] key[OF _ agree_off_refl] by metis
  qed
  with canonicalize_refines[OF assms(1), of ?val m "key_of m"] obtain m' val' where
    r: "gg_map_canonicalize_shallow pruned m ?val = Some (m', val')" "map_pairs val' = q"
      "agree_off ?A m m'" "kv_arr m' q (map_len val') = canon_list (key_of m) ?xs" by auto
  have "list_all2 ?R (canon_list (key_of m) ?xs) (canon_list fst kvs)"
    by (rule canon_list_rel[OF _ rel]) (rule key[OF _ agree_off_refl])
  then have rel: "list_all2 ?R (kv_arr m' q (map_len val')) ?ks" unfolding r(4) canon_list_map .
  then have len: "map_len val' = length ?ks" using list_all2_lengthD by fastforce
  have "\<forall>j < length ?ks. \<exists>i < ?n. rd m' (q + kv_size * j) kv_size = rd m (q + kv_size * i) kv_size \<and> ?ks ! j = kvs ! i"
    using rel by (simp add: list_all2_conv_all_nth len)
  then obtain pos where pos: "\<And>j. j < length ?ks \<Longrightarrow> pos j < ?n \<and> rd m' (q + kv_size * j) kv_size = rd m (q + kv_size * pos j) kv_size \<and> ?ks ! j = kvs ! pos j"
    by metis
  have dist: "distinct (map fst ?ks)" using canon_list_spec(1)[of fst kvs] by (simp add: canon_list_map strict_sorted_iff)
  have "inj_on pos {..<length ?ks}"
  proof (rule inj_onI)
    fix i j assume ij: "i \<in> {..<length ?ks}" "j \<in> {..<length ?ks}" and "pos i = pos j"
    then have "map fst ?ks ! i = map fst ?ks ! j" using pos[of i] pos[of j] by simp
    then show "i = j" using nth_eq_iff_index_eq[OF dist, of i j] ij by simp
  qed
  then have "moved m m' q kvs pos" using pos unfolding moved_def by blast
  moreover have "val' = \<lparr>map_pairs = q, map_len = length ?ks\<rparr>" using r(2) len by (cases val') simp
  ultimately show ?thesis using r(1,3) by auto
qed

lemma canon_enter:
  assumes "buf_len pruned < 65536" "cell_ok m (p, VMap kvs)" "q = le_val (take 8 (rd m p obj_size))"
  shows "\<exists>m1 pos. canonicalize_map pruned \<lparr>map_pairs = q, map_len = length kvs\<rparr> p () m = Some (GG_ERR_OK, (), m1) \<and>
    gg_obj_into_map (rd m1 p obj_size) = Some \<lparr>map_pairs = q, map_len = length (map_canon kvs)\<rparr> \<and>
    moved m m1 q kvs pos \<and> agree_off ({p..<p + obj_size} \<union> arr_reg q (length kvs)) m m1"
proof -
  let ?n = "length kvs" and ?ks = "map_canon kvs" and ?A = "arr_reg q (length kvs)"
  let ?val' = "\<lparr>map_pairs = q, map_len = length ?ks\<rparr>"
  from canon_shallow[OF assms] obtain m' pos where
    r: "gg_map_canonicalize_shallow pruned m \<lparr>map_pairs = q, map_len = ?n\<rparr> = Some (m', ?val')" "moved m m' q kvs pos" "agree_off ?A m m'" by blast
  have blk: "val_blk m (rd m p obj_size) (VMap kvs)" and out: "{p..<p + obj_size} \<inter> ?A = {}"
    using assms(2) map_foot[of m "rd m p obj_size" kvs] unfolding cell_ok_def fst_conv snd_conv assms(3) by blast+
  then obtain l where l: "gg_obj_into_map (rd m p obj_size) = Some l" "map_len l = ?n" by (auto split: option.splits)
  then have "q < 2 ^ 64" "length ?ks < 65536"
    using into_len_bound(3)[OF l(1)] length_map_canon[of kvs] assms(3) le_val_bound[of "take 8 (rd m p obj_size)"] by auto
  then obtain x where x: "gg_obj_map ?val' = Some x" "length x = obj_size" "gg_obj_into_map x = Some ?val'"
    using gg_obj_fits(3)[of ?val'] gg_obj_packed(6)[of ?val'] into_obj_map[of ?val'] by auto
  have "rd (wr m' p x) (q + kv_size * j) kv_size = rd m' (q + kv_size * j) kv_size" if "j < length ?ks" for j
  proof -
    have "kv_size * Suc j \<le> kv_size * ?n" using that length_map_canon[of kvs] by (intro mult_le_mono2) simp
    then have "{q + kv_size * j..<q + kv_size * j + kv_size} \<subseteq> ?A" by auto
    then show ?thesis using out x(2) by (intro rd_wr_off) auto
  qed
  then have "moved m (wr m' p x) q kvs pos" using r(2) unfolding moved_def by auto
  moreover have "agree_off ({p..<p + obj_size} \<union> ?A) m (wr m' p x)"
    using x(2) by (intro agree_off_trans[OF agree_off_mono[OF r(3)] agree_off_wr]) auto
  moreover have "gg_obj_into_map (rd (wr m' p x) p obj_size) = Some ?val'" using x(2,3) by (simp add: rd_wr_same')
  ultimately show ?thesis using r(1) x(1)
    by (intro exI[of _ "wr m' p x"] exI[of _ pos]) (simp add: canonicalize_map_def)
qed

text \<open>The cells of the values that are left, after the map has been sorted.\<close>

lemma map_cells:
  assumes ok: "cell_ok m (p, VMap kvs)" and q: "q = le_val (take 8 (rd m p obj_size))"
    and mv: "moved m m1 q kvs pos" and off: "agree_off ({p..<p + obj_size} \<union> arr_reg q (length kvs)) m m1"
  defines "cs \<equiv> map (\<lambda>j. (pair_val q j, snd (map_canon kvs ! j))) [0..<length (map_canon kvs)]"
  shows "cells_ok m1 cs" "\<And>x. x \<in> set cs \<Longrightarrow> {p..<p + obj_size} \<inter> cell_foot m1 x = {}"
    "cells_w m1 cs \<subseteq> blk_arr m (rd m p obj_size) (VMap kvs)"
    "\<And>j. j < length (map_canon kvs) \<Longrightarrow> rd m1 (pair_val q j) obj_size = rd m (pair_val q (pos j)) obj_size"
    "\<And>j. j < length (map_canon kvs) \<Longrightarrow> blk_foot m1 (rd m1 (pair_val q j) obj_size) (snd (map_canon kvs ! j)) =
       blk_foot m (rd m (pair_val q (pos j)) obj_size) (snd (kvs ! pos j))"
    "\<And>j. j < length (map_canon kvs) \<Longrightarrow> pos j < length kvs \<and> blk_arr m1 (rd m1 (pair_val q j) obj_size) (snd (map_canon kvs ! j)) =
       blk_arr m (rd m (pair_val q (pos j)) obj_size) (snd (kvs ! pos j))"
proof -
  let ?x = "rd m p obj_size" and ?n = "length kvs" and ?ks = "map_canon kvs"
  let ?A = "\<lambda>i. blk_arr m (rd m (pair_val q i) obj_size) (snd (kvs ! i))" and ?F = "\<lambda>i. blk_foot m (rd m (pair_val q i) obj_size) (snd (kvs ! i))"
  have blk: "val_blk m ?x (VMap kvs)" and sep: "blk_sep m ?x (VMap kvs)" and out: "{p..<p + obj_size} \<inter> blk_foot m ?x (VMap kvs) = {}"
    using ok by (simp_all only: cell_ok_def fst_conv snd_conv)
  note part = map_parts[OF blk q]
  have arr: "arr_reg q ?n \<inter> pairs_refs m q kvs = {}" and seps: "\<And>i. i < ?n \<Longrightarrow> blk_sep m (rd m (pair_val q i) obj_size) (snd (kvs ! i))"
    and ap: "\<And>i j. i < ?n \<Longrightarrow> j < ?n \<Longrightarrow> i \<noteq> j \<Longrightarrow> ?A i \<inter> ?F j = {}" using sep by (simp_all add: Let_def q)
  have pos: "pos j < ?n" "?ks ! j = kvs ! pos j" if "j < length ?ks" for j using mv that unfolding moved_def by auto
  show cell: "rd m1 (pair_val q j) obj_size = rd m (pair_val q (pos j)) obj_size" if "j < length ?ks" for j
    using mv that unfolding moved_def kv_val_drop by simp
  have refs: "?F i \<inter> ({p..<p + obj_size} \<union> arr_reg q ?n) = {}" if "i < ?n" for i using part(5,6)[OF that] arr out by blast
  have at: "val_blk m1 (rd m1 (pair_val q j) obj_size) (snd (?ks ! j))" and
    foot: "blk_foot m1 (rd m1 (pair_val q j) obj_size) (snd (?ks ! j)) = ?F (pos j)" and
    arrs: "blk_arr m1 (rd m1 (pair_val q j) obj_size) (snd (?ks ! j)) = ?A (pos j)" and
    sep1: "blk_sep m1 (rd m1 (pair_val q j) obj_size) (snd (?ks ! j))" if "j < length ?ks" for j
  proof -
    note pj = pos[OF that]
    note on = agree_off_on[OF off refs[OF pj(1)]] and at = part(1)[OF pj(1)]
    show "val_blk m1 (rd m1 (pair_val q j) obj_size) (snd (?ks ! j))" "blk_foot m1 (rd m1 (pair_val q j) obj_size) (snd (?ks ! j)) = ?F (pos j)"
      "blk_arr m1 (rd m1 (pair_val q j) obj_size) (snd (?ks ! j)) = ?A (pos j)" "blk_sep m1 (rd m1 (pair_val q j) obj_size) (snd (?ks ! j))"
      unfolding cell[OF that] pj(2) using val_blk_frame[OF on at] blk_foot_frame[OF on at] sep_frame[OF at on] seps[OF pj(1)] by simp_all
  qed
  show "\<And>j. j < length ?ks \<Longrightarrow> blk_foot m1 (rd m1 (pair_val q j) obj_size) (snd (?ks ! j)) = ?F (pos j)" by (rule foot)
  show "\<And>j. j < length ?ks \<Longrightarrow> pos j < ?n \<and> blk_arr m1 (rd m1 (pair_val q j) obj_size) (snd (?ks ! j)) = ?A (pos j)" using arrs pos(1) by simp
  have inarr: "{pair_val q j..<pair_val q j + obj_size} \<subseteq> arr_reg q ?n" if "j < length ?ks" for j
    using part(3,4)[of j] that length_map_canon[of kvs] by (meson order.strict_trans2 subset_trans)
  have sub: "?A i \<subseteq> ?F i" "?F i \<subseteq> pairs_refs m q kvs" if "i < ?n" for i using arr_in_foot[OF part(1)[OF that]] part(5)[OF that] by auto
  have w: "cell_w m1 (pair_val q i, snd (?ks ! i)) \<inter> cell_foot m1 (pair_val q j, snd (?ks ! j)) = {}"
    if "i < length ?ks" "j < length ?ks" "i \<noteq> j" for i j
  proof -
    have "{pair_val q i..<pair_val q i + obj_size} \<inter> {pair_val q j..<pair_val q j + obj_size} = {}"
      using that(3) by (cases "i < j") (auto simp: gg_kv_val_def)
    moreover have "pos i \<noteq> pos j" using mv that unfolding moved_def inj_on_def by blast
    then have "?A (pos i) \<inter> ?F (pos j) = {}" using ap pos that by blast
    ultimately show ?thesis using arr inarr[OF that(1)] inarr[OF that(2)] sub[OF pos(1)[OF that(1)]] sub[OF pos(1)[OF that(2)]]
      unfolding cell_w_def fst_conv snd_conv foot[OF that(2)] arrs[OF that(1)] by blast
  qed
  have "cell_ok m1 (pair_val q j, snd (?ks ! j))" if "j < length ?ks" for j
    using at[OF that] sep1[OF that] inarr[OF that] arr sub(2)[OF pos(1)[OF that]]
    unfolding cell_ok_def fst_conv snd_conv foot[OF that] by blast
  then show "cells_ok m1 cs" using w by (auto simp: cs_def cells_ok_def apart_def sorted_wrt_iff_nth_less)
  show "{p..<p + obj_size} \<inter> cell_foot m1 x = {}" if "x \<in> set cs" for x
  proof -
    from that obtain j where j: "j < length ?ks" "x = (pair_val q j, snd (?ks ! j))" by (auto simp: cs_def)
    show ?thesis using inarr[OF j(1)] sub(2)[OF pos(1)[OF j(1)]] out part(6)[OF pos(1)[OF j(1)]] unfolding j(2) fst_conv snd_conv foot[OF j(1)] by blast
  qed
  have "cell_w m1 (pair_val q j, snd (?ks ! j)) \<subseteq> blk_arr m ?x (VMap kvs)" if "j < length ?ks" for j
    using inarr[OF that] pos(1)[OF that] unfolding cell_w_def fst_conv snd_conv arrs[OF that] by (auto simp: Let_def q)
  then show "cells_w m1 cs \<subseteq> blk_arr m ?x (VMap kvs)" by (fastforce simp: cs_def cells_w_def)
qed

lemma chain_vmap:
  "chain pruned p (Suc d) (map (\<lambda>j. (pair_val q j, snd (ks ! j))) [i..<n]) s m s' m' \<Longrightarrow>
     gg_obj_into_map (rd m p obj_size) = Some \<lparr>map_pairs = q, map_len = n\<rparr> \<Longrightarrow> i \<le> n \<Longrightarrow> n \<le> 255 \<Longrightarrow> Suc d < 15 \<or> i = n \<Longrightarrow>
     vmap (canon_handlers pruned) d p i s () m (Next s' () m')"
proof (induction "n - i" arbitrary: i s m)
  case 0
  then have "vmap (canon_handlers pruned) d p i s () m (after (GG_ERR_OK, (), m) s)"
    by (intro map_end[OF 0(3)]) (simp_all add: no_call_defs)
  then show ?case using 0 by (simp add: after_def)
next
  case (Suc k)
  then have i: "i < n" "[i..<n] = i # [Suc i..<n]" by (simp_all add: upt_conv_Cons)
  then obtain s1 m1 where 1: "vobj (canon_handlers pruned) (Suc d) (pair_val q i) s () m (Next s1 () m1)" "rd m1 p obj_size = rd m p obj_size"
    "chain pruned p (Suc d) (map (\<lambda>j. (pair_val q j, snd (ks ! j))) [Suc i..<n]) s1 m1 s' m'" using Suc.prems(1) by auto
  have "vmap (canon_handlers pruned) d p (Suc i) s1 () m1 (Next s' () m')"
    using Suc.hyps(1)[of "Suc i" s1 m1] Suc.hyps(2) Suc.prems 1(2,3) i(1) by auto
  moreover have "u8 (i + 1) = Suc i" using i(1) Suc.prems(4) by simp
  moreover have "q + kv_size * i = map_pairs \<lparr>map_pairs = q, map_len = n\<rparr> + kv_size * i" by simp
  note map_item[OF Suc.prems(2) _ no_calls(11) this no_calls(7) _ 1(1)]
  ultimately show ?case using i(1) Suc.prems(5) by (simp add: GG_MAX_OBJECT_DEPTH_def)
qed

lemma sum_subset: "distinct xs \<Longrightarrow> set xs \<subseteq> set ys \<Longrightarrow> sum_list (map f xs) \<le> (sum_list (map f ys) :: nat)"
proof (induction ys arbitrary: xs)
  case (Cons y ys)
  show ?case
  proof (cases "y \<in> set xs")
    case True
    have "sum_list (map f xs) = f y + sum_list (map f (remove1 y xs))" using sum_list_map_remove1[OF True, of f] .
    also have "\<dots> \<le> f y + sum_list (map f ys)" using Cons.IH[of "remove1 y xs"] Cons.prems by auto
    finally show ?thesis by simp
  next
    case False
    then have "sum_list (map f xs) \<le> sum_list (map f ys)" using Cons.IH[of xs] Cons.prems by auto
    then show ?thesis by simp
  qed
qed simp

lemma map_canon_spec: "distinct (map fst (map_canon kvs))" "set (map_canon kvs) \<subseteq> set kvs" "kvs_count (map_canon kvs) \<le> kvs_count kvs"
  "kvs_depth (map_canon kvs) \<le> kvs_depth kvs"
proof -
  show d: "distinct (map fst (map_canon kvs))" and sub: "set (map_canon kvs) \<subseteq> set kvs"
    using canon_list_spec(1,2)[of fst kvs] by (simp_all add: canon_list_map strict_sorted_iff)
  show "kvs_count (map_canon kvs) \<le> kvs_count kvs" unfolding kvs_sums(1) using sum_subset[OF _ sub] d by (simp add: distinct_map)
  have "kvs_depth ks \<le> b" if "\<forall>kv \<in> set ks. val_depth (snd kv) \<le> b" for ks b using that by (induction ks) auto
  then show "kvs_depth (map_canon kvs) \<le> kvs_depth kvs" using kvs_sums(2)[of _ kvs] sub by blast
qed

lemma canon_pairs_canon: "map_canon (canon_pairs kvs) = canon_pairs (map_canon kvs)"
proof -
  have "map_of (map (\<lambda>kv. (fst kv, f (snd kv))) kvs) k = map_option f (map_of kvs k)" for f :: "gg_val \<Rightarrow> gg_val" and k by (induction kvs) auto
  moreover have "fst ` set (map (\<lambda>kv. (fst kv, canon_val (snd kv))) kvs) = fst ` set kvs" by force
  moreover have "map_of kvs k \<noteq> None" if "k \<in> set (sorted_list_of_set (fst ` set kvs))" for k using that by (auto simp: map_of_eq_None_iff)
  ultimately show ?thesis unfolding map_canon_def canon_pairs_map by (auto simp: comp_def option.map_sel)
qed

text \<open>The keys stay as they are while the values are visited.\<close>

lemma canon_keys:
  assumes ok: "cell_ok m (p, VMap kvs)" and q: "q = le_val (take 8 (rd m p obj_size))"
    and mv: "moved m m1 q kvs pos" and off: "agree_off ({p..<p + obj_size} \<union> arr_reg q (length kvs)) m m1"
    and off': "agree_off (cells_w m1 (map (\<lambda>j. (pair_val q j, snd (map_canon kvs ! j))) [0..<length (map_canon kvs)])) m1 m'"
    and j: "j < length (map_canon kvs)"
  shows "gg_kv_key (rd m' (q + kv_size * j) kv_size) = gg_kv_key (rd m (q + kv_size * pos j) kv_size)"
    "contents m' (gg_kv_key (rd m' (q + kv_size * j) kv_size)) = fst (map_canon kvs ! j)"
proof -
  let ?ks = "map_canon kvs" and ?n = "length kvs" let ?cs = "map (\<lambda>j. (pair_val q j, snd (?ks ! j))) [0..<length ?ks]"
  have blk: "val_blk m (rd m p obj_size) (VMap kvs)" and sep: "blk_sep m (rd m p obj_size) (VMap kvs)"
    and out: "{p..<p + obj_size} \<inter> blk_foot m (rd m p obj_size) (VMap kvs) = {}"
    using ok by (simp_all only: cell_ok_def fst_conv snd_conv)
  have pos: "pos j < ?n" "?ks ! j = kvs ! pos j" "rd m1 (q + kv_size * j) kv_size = rd m (q + kv_size * pos j) kv_size"
    using mv j unfolding moved_def by auto
  note part = map_parts[OF blk q pos(1)] and cells = map_cells[OF ok q mv off]
  have arr: "arr_reg q ?n \<inter> pairs_refs m q kvs = {}" and karr: "\<And>i. i < ?n \<Longrightarrow>
      blk_arr m (rd m (pair_val q i) obj_size) (snd (kvs ! i)) \<inter> key_range m (q + kv_size * pos j) = {}"
    using sep pos(1) by (simp_all add: Let_def q)
  have sub: "blk_arr m (rd m (pair_val q i) obj_size) (snd (kvs ! i)) \<subseteq> pairs_refs m q kvs" if "i < ?n" for i
    using map_parts(1,5)[OF blk q that] arr_in_foot by blast
  have W: "cells_w m1 ?cs \<subseteq> (\<Union>i < length ?ks. {pair_val q i..<pair_val q i + obj_size}) \<union>
      (\<Union>i < ?n. blk_arr m (rd m (pair_val q i) obj_size) (snd (kvs ! i)))"
  proof -
    have "blk_arr m1 (rd m1 (pair_val q i) obj_size) (snd (?ks ! i)) = blk_arr m (rd m (pair_val q (pos i)) obj_size) (snd (kvs ! pos i)) \<and> pos i < ?n"
      if "i < length ?ks" for i
      using cells(6)[OF that] by simp
    then show ?thesis by (fastforce simp: cells_w_def cell_w_def)
  qed
  have "kv_size * Suc j \<le> kv_size * ?n" using j length_map_canon[of kvs] by (intro mult_le_mono2) simp
  then have head: "{q + kv_size * j..<q + kv_size * j + 10} \<subseteq> arr_reg q ?n" by auto
  have "{q + kv_size * j..<q + kv_size * j + 10} \<inter> {pair_val q i..<pair_val q i + obj_size} = {}" for i
    by (cases i j rule: linorder_cases) (auto simp: gg_kv_val_def)
  then have "{q + kv_size * j..<q + kv_size * j + 10} \<inter> cells_w m1 ?cs = {}" using W head sub arr by blast
  from rd_off[OF off' this] have "rd m' (q + kv_size * j) 10 = rd m1 (q + kv_size * j) 10" .
  then show key: "gg_kv_key (rd m' (q + kv_size * j) kv_size) = gg_kv_key (rd m (q + kv_size * pos j) kv_size)"
    unfolding pos(3)[symmetric] using rd_add[of _ "q + kv_size * j" 10 11] by (simp add: gg_kv_key_def)
  let ?u = "gg_kv_key (rd m (q + kv_size * pos j) kv_size)"
  have u: "{buf_data ?u..<buf_data ?u + buf_len ?u} = key_range m (q + kv_size * pos j)" by (simp add: key_range_def Let_def)
  have "key_range m (q + kv_size * pos j) \<inter> ({p..<p + obj_size} \<union> arr_reg q ?n) = {}" using part(5,6) arr out by blast
  then have K: "key_range m (q + kv_size * pos j) \<inter> arr_reg q ?n = {}" by blast
  have "(\<Union>i < length ?ks. {pair_val q i..<pair_val q i + obj_size}) \<subseteq> arr_reg q ?n"
  proof (rule UN_least)
    fix i assume "i \<in> {..<length ?ks}"
    then have "i < ?n" using length_map_canon[of kvs] by simp
    then show "{pair_val q i..<pair_val q i + obj_size} \<subseteq> arr_reg q ?n" using map_parts(3,4)[OF blk q] by (meson subset_trans)
  qed
  then have "cells_w m1 ?cs \<subseteq> arr_reg q ?n \<union> (\<Union>i < ?n. blk_arr m (rd m (pair_val q i) obj_size) (snd (kvs ! i)))"
    using W by (meson Un_mono order.refl order.trans)
  moreover have "key_range m (q + kv_size * pos j) \<inter> (\<Union>i < ?n. blk_arr m (rd m (pair_val q i) obj_size) (snd (kvs ! i))) = {}"
    using karr by blast
  ultimately have "key_range m (q + kv_size * pos j) \<inter> cells_w m1 ?cs = {}" using K by blast
  then have "contents m' ?u = contents m1 ?u" unfolding contents_def u[symmetric] by (rule rd_off[OF off'])
  also have "\<dots> = fst (kvs ! pos j)" by (rule key_stays[OF ok q pos(1) off])
  finally show "contents m' (gg_kv_key (rd m' (q + kv_size * j) kv_size)) = fst (?ks ! j)" unfolding key pos(2) .
qed

lemma map_done:
  assumes ok: "cell_ok m (p, VMap kvs)" and q: "q = le_val (take 8 (rd m p obj_size))"
    and mv: "moved m m1 q kvs pos" and off: "agree_off ({p..<p + obj_size} \<union> arr_reg q (length kvs)) m m1"
    and off': "agree_off (cells_w m1 (map (\<lambda>j. (pair_val q j, snd (map_canon kvs ! j))) [0..<length (map_canon kvs)])) m1 m'"
    and cells: "\<And>j. j < length (map_canon kvs) \<Longrightarrow> canon_done m1 m' (pair_val q j, snd (map_canon kvs ! j))"
    and p: "gg_obj_into_map (rd m' p obj_size) = Some \<lparr>map_pairs = q, map_len = length (map_canon kvs)\<rparr>"
  shows "canon_done m m' (p, VMap kvs)"
proof -
  let ?ks = "map_canon kvs" let ?cs = "canon_pairs ?ks"
  have blk: "val_blk m (rd m p obj_size) (VMap kvs)" using ok by (simp only: cell_ok_def fst_conv snd_conv)
  note key = canon_keys[OF ok q mv off off'] and old = map_cells(5,6)[OF ok q mv off]
  have nth: "?cs ! j = (fst (?ks ! j), canon_val (snd (?ks ! j)))" if "j < length ?ks" for j using that by (simp add: canon_pairs_map)
  have at: "kvs_at m' q ?cs" unfolding kvs_at_index using key(2) cells nth by (auto simp: canon_done_def)
  have "pairs_refs m' q ?cs \<subseteq> pairs_refs m q kvs" unfolding pairs_refs_index[of m']
  proof (rule UN_least)
    fix j assume "j \<in> {..<length ?cs}"
    then have j: "j < length ?ks" by simp
    have "key_range m' (q + kv_size * j) = key_range m (q + kv_size * pos j)" unfolding key_range_def key(1)[OF j] ..
    moreover have "blk_foot m' (rd m' (pair_val q j) obj_size) (snd (?cs ! j)) \<subseteq> blk_foot m (rd m (pair_val q (pos j)) obj_size) (snd (kvs ! pos j))"
      using cells[OF j] old(1)[OF j] nth[OF j] by (simp add: canon_done_def)
    moreover have "pos j < length kvs" using old(2)[OF j] ..
    ultimately show "key_range m' (q + kv_size * j) \<union> blk_foot m' (rd m' (pair_val q j) obj_size) (snd (?cs ! j)) \<subseteq> pairs_refs m q kvs"
      using map_parts(5)[OF blk q] by blast
  qed
  moreover have "arr_reg q (length ?cs) \<subseteq> arr_reg q (length kvs)" using length_map_canon[of kvs] by auto
  ultimately have "kvs_foot m' q ?cs \<subseteq> blk_foot m (rd m p obj_size) (VMap kvs)"
    unfolding kvs_foot_eq[OF at] map_foot[OF blk] q[symmetric] by blast
  then show ?thesis using at p into_val(3)[OF p] by (simp add: canon_done_def canon_pairs_canon)
qed

lemma canons_map:
  assumes pr: "buf_len pruned < 65536" and vals: "\<And>kv. kv \<in> set kvs \<Longrightarrow> canons pruned (snd kv)"
  shows "canons pruned (VMap kvs)"
  unfolding canons_def
proof (intro allI impI)
  fix d p s and m :: mem
  assume ok: "cell_ok m (p, VMap kvs)" and lim: "d + val_depth (VMap kvs) \<le> 15" "s + val_count (VMap kvs) \<le> 255"
  define q ks where "q = le_val (take 8 (rd m p obj_size))" and "ks = map_canon kvs"
  let ?x = "rd m p obj_size" and ?n = "length kvs" and ?k = "length ks" let ?cs = "map (\<lambda>j. (pair_val q j, snd (ks ! j))) [0..<?k]"
  have blk: "val_blk m ?x (VMap kvs)" and out: "{p..<p + obj_size} \<inter> blk_foot m ?x (VMap kvs) = {}"
    using ok by (simp_all only: cell_ok_def fst_conv snd_conv)
  obtain l where l: "gg_obj_into_map ?x = Some l" "map_len l = ?n" using blk by (auto split: option.splits)
  then have l: "gg_obj_into_map ?x = Some \<lparr>map_pairs = q, map_len = ?n\<rparr>" using into_val(3)[OF l(1)] by (cases l) (simp add: q_def)
  from canon_enter[OF pr ok q_def, folded ks_def] obtain m1 pos where
    1: "canonicalize_map pruned \<lparr>map_pairs = q, map_len = ?n\<rparr> p () m = Some (GG_ERR_OK, (), m1)"
      "gg_obj_into_map (rd m1 p obj_size) = Some \<lparr>map_pairs = q, map_len = ?k\<rparr>" "moved m m1 q kvs pos"
      "agree_off ({p..<p + obj_size} \<union> arr_reg q ?n) m m1" by blast
  note cells = map_cells[OF ok q_def 1(3,4), folded ks_def]
  have ks: "set ks \<subseteq> set kvs" "kvs_count ks \<le> kvs_count kvs" "?k \<le> ?n" using map_canon_spec[of kvs] length_map_canon[of kvs] by (simp_all add: ks_def)
  have sum: "sum_list (map (val_count \<circ> snd) ?cs) = kvs_count ks"
    unfolding kvs_sums(1) sum_index[of "val_count \<circ> snd" ks] by (simp add: comp_def)
  have depth: "Suc d + val_depth (snd kv) \<le> 15" if "kv \<in> set ks" for kv using kvs_sums(2)[of kv kvs] that ks(1) lim(1) by auto
  have pre: "\<forall>x \<in> set ?cs. canons pruned (snd x) \<and> Suc d + val_depth (snd x) \<le> 15 \<and> {p..<p + obj_size} \<inter> cell_foot m1 x = {}"
  proof (intro ballI)
    fix x assume x: "x \<in> set ?cs"
    then obtain j where "j < ?k" "snd x = snd (ks ! j)" by auto
    then have "ks ! j \<in> set ks" "snd x = snd (ks ! j)" by simp_all
    then show "canons pruned (snd x) \<and> Suc d + val_depth (snd x) \<le> 15 \<and> {p..<p + obj_size} \<inter> cell_foot m1 x = {}"
      using cells(2)[OF x] vals[of "ks ! j"] depth[of "ks ! j"] ks(1) by auto
  qed
  have "s + 2 * ?n + sum_list (map (val_count \<circ> snd) ?cs) \<le> 255" unfolding sum using lim(2) ks(2) by simp
  from canon_cells[OF pre cells(1) this] obtain s' m' where
    r: "chain pruned p (Suc d) ?cs (s + 2 * ?n) m1 s' m'" "s' \<le> s + 2 * ?n + kvs_count ks" "\<forall>x \<in> set ?cs. canon_done m1 m' x"
      "agree_off (cells_w m1 ?cs) m1 m'" unfolding sum by blast
  have "Suc d < 15 \<or> 0 = ?k" using depth[of "hd ks"] val_depth_pos[of "snd (hd ks)"] by (cases ks) auto
  from chain_vmap[OF r(1) 1(2) _ _ this] lim(2) ks(3) have "vmap (canon_handlers pruned) d p 0 (s + 2 * ?n) () m1 (Next s' () m')" by simp
  moreover have "u8 (s + u8 (?n * 2)) = s + 2 * ?n" using lim(2) by simp
  moreover have "call2 (on_map (canon_handlers pruned)) \<lparr>map_pairs = q, map_len = ?n\<rparr> p () m = Some (GG_ERR_OK, (), m1)"
    using 1(1) by (simp add: call2_def)
  ultimately have v: "vobj (canon_handlers pruned) d p s () m (Next s' () m')"
    using map[OF l _ , of s "canon_handlers pruned" "()" "()" m1 d "Next s' () m'"] lim(2) by (simp add: GG_MAX_OBJECT_SUBOBJECTS_def mult.commute)
  have "{p..<p + obj_size} \<inter> cells_w m1 ?cs = {}" using cells(3) out arr_in_foot[OF blk] by blast
  from rd_off[OF r(4) this] have fin: "canon_done m m' (p, VMap kvs)"
    using map_done[OF ok q_def 1(3,4), folded ks_def, OF r(4)] r(3) 1(2) by simp
  have sub: "arr_reg q ?n \<subseteq> blk_arr m ?x (VMap kvs)" by (simp add: Let_def q_def)
  have "agree_off (cell_w m (p, VMap kvs)) m m'"
    by (rule agree_off_trans[OF agree_off_mono[OF 1(4)] agree_off_mono[OF r(4)]]) (use cells(3) sub in \<open>auto simp: cell_w_def\<close>)
  then show "\<exists>s' m'. vobj (canon_handlers pruned) d p s () m (Next s' () m') \<and> s' \<le> s + val_count (VMap kvs) \<and>
        canon_done m m' (p, VMap kvs) \<and> agree_off (cell_w m (p, VMap kvs)) m m'"
    using v r(2) ks(2) fin by (intro exI[of _ s'] exI[of _ m']) auto
qed

lemma canons_all: "buf_len pruned < 65536 \<Longrightarrow> canons pruned v"
proof (induction v)
  case (VList vs)
  then show ?case by (intro canons_list)
next
  case (VMap kvs)
  then show ?case by (intro canons_map) (auto intro: snds.intros)
qed (auto intro: canons_leaf)

lemma canonicalize_result:
  assumes "buf_len pruned < 65536" "p \<noteq> NULL" "cell_ok m (p, v)" "within_limits v"
  shows "\<exists>m'. gg_obj_canonicalize pruned m p = Some (GG_ERR_OK, m') \<and> canon_done m m' (p, v) \<and> agree_off (cell_w m (p, v)) m m'"
proof -
  have "0 + val_depth v \<le> 15" "0 + val_count v \<le> 255"
    using assms(4) by (auto simp: within_limits_def GG_MAX_OBJECT_DEPTH_def GG_MAX_OBJECT_SUBOBJECTS_def)
  with canons_all[OF assms(1), of v] assms(3) obtain s' m' where
    "vobj (canon_handlers pruned) 0 p 0 () m (Next s' () m')" "canon_done m m' (p, v)" "agree_off (cell_w m (p, v)) m m'"
    unfolding canons_def by blast
  then show ?thesis using assms(2) by (auto simp: gg_obj_canonicalize_def dest!: visit_performs)
qed

section \<open>The canonical value\<close>

lemma kvs_canonical_iff: "kvs_canonical kvs \<longleftrightarrow> (\<forall>kv \<in> set kvs. val_canonical (snd kv))"
  by (induction kvs) auto

lemma canon_val_canonical: "val_canonical (canon_val v)" "vals_canonical (canon_vals vs)" "kvs_canonical (canon_pairs kvs)"
proof (induction v and vs and kvs rule: canon_val_canon_vals_canon_pairs.induct)
  case (2 kvs)
  then show ?case using map_canon_spec(2)[of "canon_pairs kvs"] canon_list_spec(1)[of fst "canon_pairs kvs"]
    by (auto simp: kvs_canonical_iff canon_list_map)
qed simp_all

lemma canon_val_smaller:
  "val_count (canon_val v) \<le> val_count v \<and> val_depth (canon_val v) \<le> val_depth v"
  "vals_count (canon_vals vs) \<le> vals_count vs \<and> vals_depth (canon_vals vs) \<le> vals_depth vs"
  "kvs_count (canon_pairs kvs) \<le> kvs_count kvs \<and> kvs_depth (canon_pairs kvs) \<le> kvs_depth kvs"
proof (induction v and vs and kvs rule: canon_val_canon_vals_canon_pairs.induct)
  case (2 kvs)
  then show ?case using map_canon_spec(3,4)[of "canon_pairs kvs"] length_map_canon[of "canon_pairs kvs"] by auto
qed auto

section \<open>Canonical objects stay as they are\<close>

lemma obj_map_unique:
  assumes "gg_obj_into_map x = Some mp" "length x = obj_size"
  shows "gg_obj_map mp = Some x"
proof -
  obtain t where t: "gg_obj_type x = Some t" "t = GG_TYPE_MAP" "mp = \<lparr>map_pairs = le_val (take 8 x), map_len = le_val (take 2 (drop 8 x))\<rparr>"
    using assms(1) by (auto simp: gg_obj_into_map_def bind_Some_iff)
  have le: "unat (x ! 10) \<le> 6" and n: "[GG_TYPE_NULL, GG_TYPE_BOOLEAN, GG_TYPE_I64, GG_TYPE_F64, GG_TYPE_BUF, GG_TYPE_LIST, GG_TYPE_MAP] ! unat (x ! 10) = GG_TYPE_MAP"
    using t(1,2) by (auto simp: gg_obj_type_def Let_def bind_Some_iff word_le_nat_alt)
  from le consider "unat (x ! 10) = 0" | "unat (x ! 10) = 1" | "unat (x ! 10) = 2" | "unat (x ! 10) = 3" |
    "unat (x ! 10) = 4" | "unat (x ! 10) = 5" | "unat (x ! 10) = 6" by linarith
  then have "unat (x ! 10) = unat (6 :: 8 word)" using n by cases simp_all
  then have tag: "x ! 10 = 6" by (simp only: word_unat_eq_iff)
  have "drop 8 x = take 2 (drop 8 x) @ drop 10 x" using append_take_drop_id[of 2 "drop 8 x"] by simp
  moreover have "drop 10 x = [6]" using assms(2) tag Cons_nth_drop_Suc[of 10 x] by simp
  ultimately have "x = take 8 x @ take 2 (drop 8 x) @ [6]" using append_take_drop_id[of 8 x] by simp
  moreover have "le_bytes 8 (le_val (take 8 x)) = take 8 x" "le_bytes 2 (le_val (take 2 (drop 8 x))) = take 2 (drop 8 x)"
    using le_bytes_le_val[of "take 8 x"] le_bytes_le_val[of "take 2 (drop 8 x)"] assms(2) by simp_all
  moreover have "le_val (take 2 (drop 8 x)) < 65536" using le_val_bound[of "take 2 (drop 8 x)"] assms(2) by simp
  ultimately show ?thesis unfolding t(3) by (simp add: gg_obj_packed(6) pack_def)
qed

lemma prune_same:
  assumes "\<And>i l. i < map_len val \<Longrightarrow> l < i \<Longrightarrow> pair_key m (map_pairs val + kv_size * l) \<noteq> pair_key m (map_pairs val + kv_size * i)"
  shows "j \<le> map_len val \<Longrightarrow> prune_loop pruned j m val = Some (m, val)"
proof (induction j)
  case (Suc j)
  then have "snd (gg_map_get m val (pair_key m (map_pairs val + kv_size * j))) = gg_kv_val (map_pairs val + kv_size * j)"
    using map_get_is_first[of j val m] assms[of j] by auto
  with Suc show ?case by (simp add: Let_def)
qed simp

lemma sort_same:
  assumes "\<And>i. Suc i < n \<Longrightarrow> \<not> pair_key m (q + kv_size * Suc i) < pair_key m (q + kv_size * i)"
  shows "i + k \<le> n \<Longrightarrow> sort_from m q i k = m"
proof (induction k arbitrary: i)
  case (Suc k)
  have "sort_inner m q i = m" using assms[of "i - 1"] Suc.prems by (cases i) (simp_all del: mult_Suc_right)
  with Suc show ?case by simp
qed simp

lemma shallow_same:
  assumes "kvs_at m q kvs" "sorted_wrt (<) (map fst kvs)"
  shows "gg_map_canonicalize_shallow pruned m \<lparr>map_pairs = q, map_len = length kvs\<rparr> = Some (m, \<lparr>map_pairs = q, map_len = length kvs\<rparr>)"
proof -
  have k: "pair_key m (q + kv_size * i) = fst (kvs ! i)" if "i < length kvs" for i using assms(1) that by (simp add: kvs_at_index)
  have lt: "fst (kvs ! i) < fst (kvs ! j)" if "i < j" "j < length kvs" for i j
    using sorted_wrt_nth_less[OF assms(2), of i j] that by simp
  have "prune_duplicates pruned m \<lparr>map_pairs = q, map_len = length kvs\<rparr> = Some (m, \<lparr>map_pairs = q, map_len = length kvs\<rparr>)"
    unfolding prune_duplicates_def by (rule prune_same) (use k lt in \<open>auto simp: order.strict_implies_not_eq\<close>)
  moreover have "\<not> pair_key m (q + kv_size * Suc i) < pair_key m (q + kv_size * i)" if "Suc i < length kvs" for i
    unfolding k[OF that] k[OF Suc_lessD[OF that]] using lt[OF lessI that] by (rule less_not_sym)
  then have "sort_from m q 0 (length kvs) = m" by (intro sort_same[of "length kvs"]) auto
  then have "sort_keys m \<lparr>map_pairs = q, map_len = length kvs\<rparr> = m" by (simp add: sort_keys_def)
  ultimately show ?thesis by (simp add: gg_map_canonicalize_shallow_def)
qed

definition stays :: "GgBuffer \<Rightarrow> gg_val \<Rightarrow> bool" where
  "stays pruned v \<longleftrightarrow> (\<forall>d p s m. obj_at m p v \<longrightarrow> val_canonical v \<longrightarrow> d + val_depth v \<le> 15 \<longrightarrow> s + val_count v \<le> 255 \<longrightarrow>
     vobj (canon_handlers pruned) d p s () m (Next (s + val_count v) () m))"

lemma chain_same:
  "\<forall>x \<in> set cs. stays pruned (snd x) \<and> obj_at m (fst x) (snd x) \<and> val_canonical (snd x) \<and> d + val_depth (snd x) \<le> 15 \<Longrightarrow>
     s + sum_list (map (val_count \<circ> snd) cs) \<le> 255 \<Longrightarrow> chain pruned p d cs s m (s + sum_list (map (val_count \<circ> snd) cs)) m"
proof (induction cs arbitrary: s)
  case (Cons x cs)
  then have "vobj (canon_handlers pruned) d (fst x) s () m (Next (s + val_count (snd x)) () m)" by (auto simp: stays_def)
  moreover have "chain pruned p d cs (s + val_count (snd x)) m (s + val_count (snd x) + sum_list (map (val_count \<circ> snd) cs)) m"
    using Cons by (auto simp: comp_def)
  ultimately show ?case by (auto simp: comp_def add.assoc)
qed simp

lemma vals_canonical_iff: "vals_canonical vs \<longleftrightarrow> (\<forall>v \<in> set vs. val_canonical v)"
  by (induction vs) auto

lemma stays_leaf: "(\<forall>vs. v \<noteq> VList vs) \<Longrightarrow> (\<forall>kvs. v \<noteq> VMap kvs) \<Longrightarrow> stays pruned v"
  unfolding stays_def
proof (intro allI impI)
  fix d p s and m :: mem
  assume v: "\<forall>vs. v \<noteq> VList vs" "\<forall>kvs. v \<noteq> VMap kvs" and at: "obj_at m p v"
  have "leaf_act (canon_handlers pruned) p (val_type v) () m = Some (GG_ERR_OK, (), m)"
    using v at by (cases v) (auto simp: leaf_act_def Let_def no_call_defs split: option.splits)
  from leaf[OF val_blk_type[OF at] this, of d s] have "vobj (canon_handlers pruned) d p s () m (Next s () m)" by (simp add: after_def)
  moreover have "val_count v = 0" using v by (cases v) auto
  ultimately show "vobj (canon_handlers pruned) d p s () m (Next (s + val_count v) () m)" by simp
qed

lemma stays_list:
  assumes "\<And>v. v \<in> set vs \<Longrightarrow> stays pruned v"
  shows "stays pruned (VList vs)"
  unfolding stays_def
proof (intro allI impI)
  fix d p s and m :: mem
  assume at: "obj_at m p (VList vs)" and can: "val_canonical (VList vs)" and lim: "d + val_depth (VList vs) \<le> 15" "s + val_count (VList vs) \<le> 255"
  from at obtain q where l: "gg_obj_into_list (rd m p obj_size) = Some \<lparr>list_items = q, list_len = length vs\<rparr>" and items: "objs_at m q vs"
    by (auto split: option.splits) (metis GgList.surjective old.unit.exhaust)
  let ?cs = "map (\<lambda>j. (item q j, vs ! j)) [0..<length vs]"
  have depth: "Suc d + val_depth v \<le> 15" if "v \<in> set vs" for v using vals_sums(2)[OF that] lim(1) by simp
  have sum: "sum_list (map (val_count \<circ> snd) ?cs) = vals_count vs"
    unfolding vals_sums(1) sum_index[of val_count vs] by (simp add: comp_def)
  have "\<forall>x \<in> set ?cs. stays pruned (snd x) \<and> obj_at m (fst x) (snd x) \<and> val_canonical (snd x) \<and> Suc d + val_depth (snd x) \<le> 15"
    using assms items can depth by (auto simp: objs_at_index vals_canonical_iff)
  from chain_same[OF this, of "s + length vs" p] have c: "chain pruned p (Suc d) ?cs (s + length vs) m (s + length vs + vals_count vs) m"
    unfolding sum using lim(2) by simp
  have "Suc d < 15 \<or> 0 = length vs" using depth[of "hd vs"] val_depth_pos[of "hd vs"] by (cases vs) auto
  from chain_vlist[OF c l _ _ this] lim(2) have "vlist (canon_handlers pruned) d p 0 (s + length vs) () m (Next (s + length vs + vals_count vs) () m)" by simp
  moreover have "u8 (s + u8 (length vs)) = s + length vs" using lim(2) by simp
  ultimately show "vobj (canon_handlers pruned) d p s () m (Next (s + val_count (VList vs)) () m)"
    using list[OF l _ no_calls(6)] lim(2) by (simp add: GG_MAX_OBJECT_SUBOBJECTS_def add.assoc)
qed

lemma stays_map:
  assumes "\<And>kv. kv \<in> set kvs \<Longrightarrow> stays pruned (snd kv)"
  shows "stays pruned (VMap kvs)"
  unfolding stays_def
proof (intro allI impI)
  fix d p s and m :: mem
  assume at: "obj_at m p (VMap kvs)" and can: "val_canonical (VMap kvs)" and lim: "d + val_depth (VMap kvs) \<le> 15" "s + val_count (VMap kvs) \<le> 255"
  from at obtain q where l: "gg_obj_into_map (rd m p obj_size) = Some \<lparr>map_pairs = q, map_len = length kvs\<rparr>" and items: "kvs_at m q kvs"
    by (auto split: option.splits) (metis GgMap.surjective old.unit.exhaust)
  let ?n = "length kvs" let ?cs = "map (\<lambda>j. (pair_val q j, snd (kvs ! j))) [0..<?n]"
  have depth: "Suc d + val_depth (snd kv) \<le> 15" if "kv \<in> set kvs" for kv using kvs_sums(2)[OF that] lim(1) by simp
  have sum: "sum_list (map (val_count \<circ> snd) ?cs) = kvs_count kvs"
    unfolding kvs_sums(1) sum_index[of "val_count \<circ> snd" kvs] by (simp add: comp_def)
  have "\<forall>x \<in> set ?cs. stays pruned (snd x) \<and> obj_at m (fst x) (snd x) \<and> val_canonical (snd x) \<and> Suc d + val_depth (snd x) \<le> 15"
    using assms items can depth by (auto simp: kvs_at_index kvs_canonical_iff)
  from chain_same[OF this, of "s + 2 * ?n" p] have c: "chain pruned p (Suc d) ?cs (s + 2 * ?n) m (s + 2 * ?n + kvs_count kvs) m"
    unfolding sum using lim(2) by simp
  have "Suc d < 15 \<or> 0 = ?n" using depth[of "hd kvs"] val_depth_pos[of "snd (hd kvs)"] by (cases kvs) auto
  from chain_vmap[OF c l _ _ this] lim(2) have "vmap (canon_handlers pruned) d p 0 (s + 2 * ?n) () m (Next (s + 2 * ?n + kvs_count kvs) () m)" by simp
  moreover have "u8 (s + u8 (?n * 2)) = s + 2 * ?n" using lim(2) by simp
  moreover have "call2 (on_map (canon_handlers pruned)) \<lparr>map_pairs = q, map_len = ?n\<rparr> p () m = Some (GG_ERR_OK, (), m)"
    using shallow_same[OF items] can obj_map_unique[OF l] by (simp add: call2_def canonicalize_map_def)
  ultimately show "vobj (canon_handlers pruned) d p s () m (Next (s + val_count (VMap kvs)) () m)"
    using map[OF l _ , of s "canon_handlers pruned" "()" "()" m d "Next (s + 2 * ?n + kvs_count kvs) () m"] lim(2)
    by (simp add: GG_MAX_OBJECT_SUBOBJECTS_def mult.commute add.assoc)
qed

lemma stays_all: "stays pruned v"
proof (induction v)
  case (VList vs)
  then show ?case by (intro stays_list)
next
  case (VMap kvs)
  then show ?case by (intro stays_map) (auto intro: snds.intros)
qed (auto intro: stays_leaf)

lemma canonical_stays:
  assumes "p \<noteq> NULL" "obj_at m p v" "val_canonical v" "within_limits v"
  shows "gg_obj_canonicalize pruned m p = Some (GG_ERR_OK, m)"
proof -
  have "0 + val_depth v \<le> 15" "0 + val_count v \<le> 255"
    using assms(4) by (auto simp: within_limits_def GG_MAX_OBJECT_DEPTH_def GG_MAX_OBJECT_SUBOBJECTS_def)
  with stays_all[of pruned v] assms(2,3) have "vobj (canon_handlers pruned) 0 p 0 () m (Next (0 + val_count v) () m)"
    unfolding stays_def by blast
  then show ?thesis using assms(1) by (auto simp: gg_obj_canonicalize_def dest!: visit_performs)
qed

section \<open>Properties\<close>

text \<open>C7: Canonicalizing an object within the limits, none of whose arrays overlaps another part of it, succeeds: the object
  then stands for its value with every map, at every depth, sorted by key and without duplicates, the first of equal keys
  kept, and \<open>gg_obj_is_canonical\<close> answers true. Nothing is written outside the object and its arrays, and the object
  refers to nothing that it did not refer to before; an object that is canonical already is left as it is. A null pointer is accepted and changes nothing.\<close>

theorem gg_obj_canonicalize_correct:
  assumes "buf_len pruned < 65536" "p \<noteq> NULL" "obj_at m p v" "blk_sep m (rd m p obj_size) v"
    "{p..<p + obj_size} \<inter> blk_foot m (rd m p obj_size) v = {}" "within_limits v"
  shows "(\<exists>m'. gg_obj_canonicalize pruned m p = Some (GG_ERR_OK, m') \<and> obj_at m' p (canon_val v) \<and>
      gg_obj_is_canonical m' p = Some True \<and> obj_foot m' p (canon_val v) \<subseteq> obj_foot m p v \<and>
      agree_off ({p..<p + obj_size} \<union> blk_arr m (rd m p obj_size) v) m m') \<and>
    (val_canonical v \<longrightarrow> gg_obj_canonicalize pruned m p = Some (GG_ERR_OK, m)) \<and>
    gg_obj_canonicalize pruned m NULL = Some (GG_ERR_OK, m)"
proof -
  have "cell_ok m (p, v)" using assms(3-5) by (simp add: cell_ok_def)
  from canonicalize_result[OF assms(1,2) this assms(6)] obtain m' where
    r: "gg_obj_canonicalize pruned m p = Some (GG_ERR_OK, m')" "canon_done m m' (p, v)" "agree_off (cell_w m (p, v)) m m'" by blast
  have at: "obj_at m' p (canon_val v)" using r(2) by (simp add: canon_done_def)
  have "within_limits (canon_val v)" using canon_val_smaller(1)[of v] assms(6) by (auto simp: within_limits_def)
  then have "gg_obj_is_canonical m' p = Some True" using is_canonical_result[OF at] canon_val_canonical(1)[of v] by simp
  then show ?thesis using r at canonical_stays[OF assms(2,3) _ assms(6)] by (auto simp: canon_done_def cell_w_def gg_obj_canonicalize_def)
qed

definition canon_mem :: mem where
  "canon_mem = wr map_mem 100 [10,0,0,0,0,0,0,0, 2,0, 6]"

lemma canon_mem_val: "obj_at canon_mem 100 (VMap [([98], VI64 1), ([97], VBool True)])"
  by code_simp

lemma canon_mem_sep: "blk_sep canon_mem (rd canon_mem 100 obj_size) (VMap [([98], VI64 1), ([97], VBool True)])"
  and canon_mem_foot: "blk_foot canon_mem (rd canon_mem 100 obj_size) (VMap [([98], VI64 1), ([97], VBool True)]) \<subseteq> {10..<62}"
proof -
  have q: "le_val (take 8 (rd canon_mem 100 obj_size)) = 10" "le_val (rd canon_mem 10 8) = 60" "le_val (rd canon_mem 31 8) = 61" by code_simp+
  have "key_range canon_mem 10 = {60}" "key_range canon_mem 31 = {61}"
    by (auto simp: key_range_def gg_kv_key_def canon_mem_def map_mem_def rd_def wr_def upt_rec)
  then show "blk_sep canon_mem (rd canon_mem 100 obj_size) (VMap [([98], VI64 1), ([97], VBool True)])"
    unfolding blk_sep.simps q(1) Let_def by (auto simp: less_Suc_eq)
  show "blk_foot canon_mem (rd canon_mem 100 obj_size) (VMap [([98], VI64 1), ([97], VBool True)]) \<subseteq> {10..<62}"
    unfolding blk_foot.simps kvs_foot.simps q(1) Let_def by (auto simp: q(2,3))
qed

lemma canon_mem_canon: "canon_val (VMap [([98], VI64 1), ([97], VBool True)]) = VMap [([97], VBool True), ([98], VI64 1)]"
  by (simp add: map_canon_def sorted_list_of_set.fold_insort_key.insert_remove)

theorem gg_obj_canonicalize_correct_witness:
  "\<exists>m'. gg_obj_canonicalize \<lparr>buf_data = 0, buf_len = 0\<rparr> canon_mem 100 = Some (GG_ERR_OK, m') \<and>
     obj_at m' 100 (VMap [([97], VBool True), ([98], VI64 1)])"
proof -
  let ?v = "VMap [([98], VI64 1), ([97], VBool True)]"
  have out: "{100..<100 + obj_size} \<inter> blk_foot canon_mem (rd canon_mem 100 obj_size) ?v = {}"
    using canon_mem_foot by (auto simp del: blk_foot.simps)
  have l: "within_limits ?v" by code_simp
  from gg_obj_canonicalize_correct[OF _ _ canon_mem_val canon_mem_sep out l, of "\<lparr>buf_data = 0, buf_len = 0\<rparr>", unfolded canon_mem_canon]
  show ?thesis by auto
qed

end
