(* ===== verification/Compare.thy ===== *)
theory Compare
  imports Json_Decode
begin

unbundle bit_operations_syntax

text \<open>
  The comparison of objects (\<open>unity/gg_test/object_compare.c\<close>) that the tests and the mock server rest on:
  a loop over the levels of the left object (\<open>priv_include/gg/object_iter.h\<close>) that walks the right one along
  with it. \<open>print_state\<close> only logs, but it reads the enclosing objects to do so and may abort. The
  comparison of doubles is written out on their bits: the exact difference or product, rounded to nearest.

  \<open>cmp_obj\<close> is the recursion the loop stands for, \<open>val_eq\<close> the equality of values it decides.
\<close>

section \<open>Definitions\<close>

subsection \<open>Doubles\<close>

definition f64_isnan :: "64 word \<Rightarrow> bool" where "f64_isnan w \<longleftrightarrow> f64_exp w = 2047 \<and> f64_frac w \<noteq> 0"
definition f64_isinf :: "64 word \<Rightarrow> bool" where "f64_isinf w \<longleftrightarrow> f64_exp w = 2047 \<and> f64_frac w = 0"
definition f64_fabs :: "64 word \<Rightarrow> 64 word" where "f64_fabs w = w AND mask 63"
definition f64_NAN :: "64 word" where "f64_NAN = 0x7FF8000000000000"
definition f64_INF :: "64 word" where "f64_INF = 0x7FF0000000000000"
definition DBL_EPSILON :: "64 word" where "DBL_EPSILON = 0x3CB0000000000000"

text \<open>\<open>fabs(lhs - rhs)\<close>.\<close>

definition f64_distance :: "64 word \<Rightarrow> 64 word \<Rightarrow> 64 word" where
  "f64_distance x y =
     (if f64_isnan x \<or> f64_isnan y then f64_NAN
      else if f64_isinf x \<and> f64_isinf y then (if f64_neg x = f64_neg y then f64_NAN else f64_INF)
      else if f64_isinf x \<or> f64_isinf y then f64_INF
      else case (f64_fraction x, f64_fraction y) of ((a, b), (c, d)) \<Rightarrow>
        fst (nearest_f64 (if f64_neg x = f64_neg y then (if a * d \<ge> c * b then a * d - c * b else c * b - a * d)
                          else a * d + c * b) (b * d)))"

text \<open>On nonnegative doubles: \<open><=\<close>, which is false when an operand is not a number, \<open>fmin\<close>, which prefers
  a number, and the product with \<open>DBL_EPSILON\<close>.\<close>

definition f64_le :: "64 word \<Rightarrow> 64 word \<Rightarrow> bool" where
  "f64_le x y \<longleftrightarrow> \<not> f64_isnan x \<and> \<not> f64_isnan y \<and> x \<le> y"

definition f64_fmin :: "64 word \<Rightarrow> 64 word \<Rightarrow> 64 word" where
  "f64_fmin x y = (if f64_isnan x then y else if f64_isnan y then x else if x \<le> y then x else y)"

definition f64_epsilon_times :: "64 word \<Rightarrow> 64 word" where
  "f64_epsilon_times x =
     (if f64_isnan x then f64_NAN else if f64_isinf x then f64_INF
      else case f64_fraction x of (a, b) \<Rightarrow> fst (nearest_f64 a (b * 2 ^ 52)))"

definition float_eq :: "64 word \<Rightarrow> 64 word \<Rightarrow> bool" where
  "float_eq lhs rhs =
     (if f64_isnan lhs \<noteq> f64_isnan rhs then False
      else let error = f64_distance lhs rhs
        in if f64_le error DBL_EPSILON then True
           else if f64_le error (f64_epsilon_times (f64_fmin (f64_fabs lhs) (f64_fabs rhs))) then True
           else False)"

definition bool_eq :: "bool \<Rightarrow> bool \<Rightarrow> bool" where
  "bool_eq lhs rhs = (if lhs \<noteq> rhs then False else True)"

definition int_eq :: "64 word \<Rightarrow> 64 word \<Rightarrow> bool" where
  "int_eq lhs rhs = (if lhs \<noteq> rhs then False else True)"

definition buf_eq :: "mem \<Rightarrow> GgBuffer \<Rightarrow> GgBuffer \<Rightarrow> bool" where
  "buf_eq m lhs rhs = (if \<not> gg_buffer_eq (contents m lhs) (contents m rhs) then False else True)"

subsection \<open>The loop\<close>

text \<open>The object that \<open>print_state\<close> takes for the map of every enclosing level is \<open>obj[i - i]\<close>, the root.\<close>

fun print_levels :: "mem \<Rightarrow> IterLevels \<Rightarrow> nat \<Rightarrow> unit run" where
  "print_levels m st 0 = Some ()"
| "print_levels m st (Suc i) =
     (case lv_state st ! i of
        LEVEL_LIST \<Rightarrow> print_levels m st i
      | LEVEL_MAP \<Rightarrow> Option.bind (gg_obj_into_map (rd m (lv_obj st ! (Suc i - Suc i)) obj_size)) (\<lambda>_. print_levels m st i)
      | LEVEL_DEFAULT \<Rightarrow> Some ())"

definition print_iter_state :: "mem \<Rightarrow> IterLevels \<Rightarrow> unit run" where
  "print_iter_state m st = print_levels m st (lv_index st)"

datatype eq_out = Decided bool | Onward IterLevels "addr list" nat

definition eq_fail :: "mem \<Rightarrow> IterLevels \<Rightarrow> eq_out run" where
  "eq_fail m st = do { _ \<leftarrow> print_iter_state m st; Some (Decided False) }"

text \<open>The end of a turn whose switch ended with \<open>break\<close>.\<close>

definition eq_up :: "IterLevels \<Rightarrow> addr list \<Rightarrow> nat \<Rightarrow> eq_out run" where
  "eq_up st rhs_objs subobjects =
     (if lv_index st = 0 then Some (Decided True)
      else Some (Onward (st\<lparr>lv_index := lv_index st - 1\<rparr>) rhs_objs subobjects))"

text \<open>Down one level, to the elements at \<open>p\<close> and \<open>q\<close>.\<close>

definition eq_down :: "mem \<Rightarrow> IterLevels \<Rightarrow> addr list \<Rightarrow> nat \<Rightarrow> addr \<Rightarrow> addr \<Rightarrow> eq_out run" where
  "eq_down m st rhs_objs subobjects p q =
     (if lv_index st \<ge> GG_MAX_OBJECT_DEPTH - 1 then eq_fail m st
      else let i = Suc (lv_index st) in
        Some (Onward \<lparr>
          lv_obj = (lv_obj st)[i := p],
          lv_state = (lv_state st)[i := LEVEL_DEFAULT],
          lv_elem_index = (lv_elem_index st)[i := 0, i - 1 := u8 (lv_elem_index st ! (i - 1) + 1)],
          lv_index = i\<rparr> (rhs_objs[i := q]) subobjects))"

definition eq_default :: "mem \<Rightarrow> IterLevels \<Rightarrow> addr list \<Rightarrow> nat \<Rightarrow> addr \<Rightarrow> addr \<Rightarrow> eq_out run" where
  "eq_default m st rhs_objs subobjects lhs_obj rhs_obj =
     (let x = rd m lhs_obj obj_size; y = rd m rhs_obj obj_size; up = eq_up st rhs_objs subobjects in do {
       t \<leftarrow> gg_obj_type x;
       t' \<leftarrow> gg_obj_type y;
       if t \<noteq> t' then eq_fail m st
       else case t of
         GG_TYPE_NULL \<Rightarrow> up
       | GG_TYPE_BOOLEAN \<Rightarrow> do {
           a \<leftarrow> gg_obj_into_bool x; b \<leftarrow> gg_obj_into_bool y;
           if \<not> bool_eq a b then eq_fail m st else up }
       | GG_TYPE_I64 \<Rightarrow> do {
           a \<leftarrow> gg_obj_into_i64 x; b \<leftarrow> gg_obj_into_i64 y;
           if \<not> int_eq a b then eq_fail m st else up }
       | GG_TYPE_F64 \<Rightarrow> do {
           a \<leftarrow> gg_obj_into_f64 x; b \<leftarrow> gg_obj_into_f64 y;
           if \<not> float_eq a b then Some (Decided False) else up }
       | GG_TYPE_BUF \<Rightarrow> do {
           a \<leftarrow> gg_obj_into_buf x; b \<leftarrow> gg_obj_into_buf y;
           if \<not> buf_eq m a b then eq_fail m st else up }
       | GG_TYPE_LIST \<Rightarrow> do {
           lhs_list \<leftarrow> gg_obj_into_list x;
           if list_len lhs_list > GG_MAX_OBJECT_SUBOBJECTS - subobjects then eq_fail m st
           else do {
             let subobjects = u8 (subobjects + u8 (list_len lhs_list));
             rhs_list \<leftarrow> gg_obj_into_list y;
             if list_len lhs_list \<noteq> list_len rhs_list then eq_fail m st
             else Some (Onward (st\<lparr>lv_state := (lv_state st)[lv_index st := LEVEL_LIST]\<rparr>) rhs_objs subobjects)
           }
         }
       | GG_TYPE_MAP \<Rightarrow> do {
           lhs_map \<leftarrow> gg_obj_into_map x;
           if map_len lhs_map > (GG_MAX_OBJECT_SUBOBJECTS - subobjects) div 2 then eq_fail m st
           else do {
             let subobjects = u8 (subobjects + u8 (map_len lhs_map * 2));
             rhs_map \<leftarrow> gg_obj_into_map y;
             if map_len lhs_map \<noteq> map_len rhs_map then eq_fail m st
             else Some (Onward (st\<lparr>lv_state := (lv_state st)[lv_index st := LEVEL_MAP]\<rparr>) rhs_objs subobjects)
           }
         }
     })"

definition eq_list :: "mem \<Rightarrow> IterLevels \<Rightarrow> addr list \<Rightarrow> nat \<Rightarrow> addr \<Rightarrow> addr \<Rightarrow> nat \<Rightarrow> eq_out run" where
  "eq_list m st rhs_objs subobjects lhs_obj rhs_obj lhs_index = do {
     lhs_list \<leftarrow> gg_obj_into_list (rd m lhs_obj obj_size);
     if lhs_index = list_len lhs_list then eq_up st rhs_objs subobjects
     else do {
       rhs_list \<leftarrow> gg_obj_into_list (rd m rhs_obj obj_size);
       eq_down m st rhs_objs subobjects (list_items lhs_list + obj_size * lhs_index)
         (list_items rhs_list + obj_size * lhs_index)
     }
   }"

definition eq_map :: "mem \<Rightarrow> IterLevels \<Rightarrow> addr list \<Rightarrow> nat \<Rightarrow> addr \<Rightarrow> addr \<Rightarrow> nat \<Rightarrow> eq_out run" where
  "eq_map m st rhs_objs subobjects lhs_obj rhs_obj lhs_index = do {
     lhs_map \<leftarrow> gg_obj_into_map (rd m lhs_obj obj_size);
     if lhs_index = map_len lhs_map then eq_up st rhs_objs subobjects
     else do {
       rhs_map \<leftarrow> gg_obj_into_map (rd m rhs_obj obj_size);
       let kv = map_pairs lhs_map + kv_size * lhs_index;
       let rhs_kv = map_pairs rhs_map + kv_size * lhs_index;
       if \<not> gg_buffer_eq (contents m (gg_kv_key (rd m kv kv_size))) (contents m (gg_kv_key (rd m rhs_kv kv_size)))
       then eq_fail m st
       else eq_down m st rhs_objs subobjects (gg_kv_val kv) (gg_kv_val rhs_kv)
     }
   }"

definition eq_step :: "mem \<Rightarrow> IterLevels \<Rightarrow> addr list \<Rightarrow> nat \<Rightarrow> eq_out run" where
  "eq_step m st rhs_objs subobjects =
     (let lhs_obj = lv_obj st ! lv_index st;
          rhs_obj = rhs_objs ! lv_index st;
          lhs_index = lv_elem_index st ! lv_index st
      in case lv_state st ! lv_index st of
           LEVEL_DEFAULT \<Rightarrow> eq_default m st rhs_objs subobjects lhs_obj rhs_obj
         | LEVEL_LIST \<Rightarrow> eq_list m st rhs_objs subobjects lhs_obj rhs_obj lhs_index
         | LEVEL_MAP \<Rightarrow> eq_map m st rhs_objs subobjects lhs_obj rhs_obj lhs_index)"

partial_function (option) eq_loop :: "mem \<Rightarrow> IterLevels \<Rightarrow> addr list \<Rightarrow> nat \<Rightarrow> bool option" where
  "eq_loop m st rhs_objs subobjects = Option.bind (eq_step m st rhs_objs subobjects) (\<lambda>r.
     case r of Decided b \<Rightarrow> Some b | Onward st' rhs_objs' subobjects' \<Rightarrow> eq_loop m st' rhs_objs' subobjects')"

text \<open>The arguments are passed by value; the model compares the caller's copies at \<open>lhs\<close> and \<open>rhs\<close>.\<close>

definition gg_obj_eq :: "mem \<Rightarrow> addr \<Rightarrow> addr \<Rightarrow> bool run" where
  "gg_obj_eq m lhs rhs =
     eq_loop m \<lparr>lv_obj = (replicate GG_MAX_OBJECT_DEPTH NULL)[0 := lhs],
       lv_state = (replicate GG_MAX_OBJECT_DEPTH LEVEL_DEFAULT)[0 := LEVEL_DEFAULT],
       lv_elem_index = (replicate GG_MAX_OBJECT_DEPTH 0)[0 := 0],
       lv_index = 0\<rparr> ((replicate GG_MAX_OBJECT_DEPTH NULL)[0 := rhs]) 0"

subsection \<open>The recursion\<close>

text \<open>\<open>Same s\<close>: no difference, with \<open>s\<close> subobjects seen so far. \<open>Differ g\<close>: a difference, or a limit; \<open>g\<close>
  says that it is logged and lies inside a map.\<close>

datatype cmp_res = Same nat | Differ bool

fun cmp_obj :: "nat \<Rightarrow> bool \<Rightarrow> nat \<Rightarrow> gg_val \<Rightarrow> gg_val \<Rightarrow> cmp_res"
  and cmp_list :: "nat \<Rightarrow> bool \<Rightarrow> nat \<Rightarrow> gg_val list \<Rightarrow> gg_val list \<Rightarrow> cmp_res"
  and cmp_map :: "nat \<Rightarrow> bool \<Rightarrow> nat \<Rightarrow> (bytes \<times> gg_val) list \<Rightarrow> (bytes \<times> gg_val) list \<Rightarrow> cmp_res" where
  "cmp_obj d g s (VList vs) w =
     (case w of
        VList ws \<Rightarrow> if length vs > 255 - s \<or> length vs \<noteq> length ws then Differ g else cmp_list d g (s + length vs) vs ws
      | _ \<Rightarrow> Differ g)"
| "cmp_obj d g s (VMap kvs) w =
     (case w of
        VMap kws \<Rightarrow> if 2 * length kvs > 255 - s \<or> length kvs \<noteq> length kws then Differ g
          else cmp_map d g (s + 2 * length kvs) kvs kws
      | _ \<Rightarrow> Differ g)"
| "cmp_obj d g s (VF64 x) w =
     (case w of VF64 y \<Rightarrow> if float_eq x y then Same s else Differ False | _ \<Rightarrow> Differ g)"
| "cmp_obj d g s v w = (if v = w then Same s else Differ g)"
| "cmp_list d g s (v # vs) (w # ws) =
     (if d \<ge> 14 then Differ g
      else case cmp_obj (Suc d) g s v w of Differ b \<Rightarrow> Differ b | Same s' \<Rightarrow> cmp_list d g s' vs ws)"
| "cmp_list d g s vs ws = Same s"
| "cmp_map d g s (kv # kvs) (kw # kws) =
     (if fst kv \<noteq> fst kw \<or> d \<ge> 14 then Differ g
      else case cmp_obj (Suc d) True s (snd kv) (snd kw) of Differ b \<Rightarrow> Differ b | Same s' \<Rightarrow> cmp_map d g s' kvs kws)"
| "cmp_map d g s kvs kws = Same s"

text \<open>Equality of values, up to the tolerance for doubles.\<close>

fun val_eq :: "gg_val \<Rightarrow> gg_val \<Rightarrow> bool"
  and vals_eq :: "gg_val list \<Rightarrow> gg_val list \<Rightarrow> bool"
  and kvs_eq :: "(bytes \<times> gg_val) list \<Rightarrow> (bytes \<times> gg_val) list \<Rightarrow> bool" where
  "val_eq (VList vs) w = (case w of VList ws \<Rightarrow> vals_eq vs ws | _ \<Rightarrow> False)"
| "val_eq (VMap kvs) w = (case w of VMap kws \<Rightarrow> kvs_eq kvs kws | _ \<Rightarrow> False)"
| "val_eq (VF64 x) w = (case w of VF64 y \<Rightarrow> float_eq x y | _ \<Rightarrow> False)"
| "val_eq v w = (v = w)"
| "vals_eq (v # vs) ws = (case ws of w # ws \<Rightarrow> val_eq v w \<and> vals_eq vs ws | [] \<Rightarrow> False)"
| "vals_eq [] ws = (ws = [])"
| "kvs_eq (kv # kvs) kws = (case kws of kw # kws \<Rightarrow> fst kv = fst kw \<and> val_eq (snd kv) (snd kw) \<and> kvs_eq kvs kws | [] \<Rightarrow> False)"
| "kvs_eq [] kws = (kws = [])"

section \<open>The loop does what the recursion does\<close>

lemma print_levels_iff:
  assumes "\<forall>j < n. lv_state st ! j \<noteq> LEVEL_DEFAULT"
  shows "print_levels m st n =
    (if (\<exists>j < n. lv_state st ! j = LEVEL_MAP) \<and> gg_obj_into_map (rd m (lv_obj st ! 0) obj_size) = None then None else Some ())"
  using assms
proof (induction n)
  case (Suc n)
  then show ?case
    by (cases "lv_state st ! n"; cases "gg_obj_into_map (rd m (lv_obj st ! 0) obj_size)") (auto simp: less_Suc_eq)
qed simp

text \<open>The comparison is at level \<open>d\<close>, at the objects at \<open>p\<close> and \<open>q\<close>; \<open>g\<close>: some enclosing object is a
  map, \<open>R\<close>: the root is one.\<close>

definition cmp_at ::
    "mem \<Rightarrow> bool \<Rightarrow> IterLevels \<Rightarrow> addr list \<Rightarrow> nat \<Rightarrow> addr \<Rightarrow> addr \<Rightarrow> IterLevelState \<Rightarrow> nat \<Rightarrow> bool \<Rightarrow> bool" where
  "cmp_at m R st rhs d p q cur i g \<longleftrightarrow> at_level st d p cur i \<and> length rhs = GG_MAX_OBJECT_DEPTH \<and> rhs ! d = q \<and>
     (\<forall>j < d. lv_state st ! j \<noteq> LEVEL_DEFAULT) \<and> g = (\<exists>j < d. lv_state st ! j = LEVEL_MAP) \<and>
     R = (gg_obj_into_map (rd m (lv_obj st ! 0) obj_size) \<noteq> None)"

definition same_rhs :: "nat \<Rightarrow> addr list \<Rightarrow> addr list \<Rightarrow> bool" where
  "same_rhs d rhs rhs' \<longleftrightarrow> length rhs' = GG_MAX_OBJECT_DEPTH \<and> (\<forall>j < d. rhs' ! j = rhs ! j)"

definition eq_does :: "mem \<Rightarrow> bool \<Rightarrow> IterLevels \<Rightarrow> addr list \<Rightarrow> nat \<Rightarrow> nat \<Rightarrow> cmp_res \<Rightarrow> bool" where
  "eq_does m R st rhs d s r =
     (case r of
        Differ g \<Rightarrow> eq_loop m st rhs s = (if g \<and> \<not> R then None else Some False)
      | Same s' \<Rightarrow> \<exists>st' rhs'. same_below d st st' \<and> same_rhs d rhs rhs' \<and> s' \<le> 255 \<and>
          eq_loop m st rhs s = (if d = 0 then Some True else eq_loop m (st'\<lparr>lv_index := d - 1\<rparr>) rhs' s'))"

lemma eq_loop_fail:
  assumes "cmp_at m R st rhs d p q cur i g" "eq_step m st rhs s = eq_fail m st"
  shows "eq_does m R st rhs d s (Differ g)"
  using assms unfolding eq_does_def
  by (subst eq_loop.simps)
    (auto simp: eq_fail_def print_iter_state_def print_levels_iff cmp_at_def at_level_def)

lemma eq_loop_up:
  assumes "cmp_at m R st rhs d p q cur i g" "eq_step m st rhs s = eq_up st rhs s" "s \<le> 255"
  shows "eq_does m R st rhs d s (Same s)"
proof -
  have "eq_loop m st rhs s = (if d = 0 then Some True else eq_loop m (st\<lparr>lv_index := d - 1\<rparr>) rhs s)"
    using assms by (subst eq_loop.simps) (auto simp: eq_up_def cmp_at_def at_level_def)
  then show ?thesis using assms
    by (auto simp: eq_does_def same_below_def same_rhs_def cmp_at_def at_level_def intro!: exI[of _ st] exI[of _ rhs])
qed

lemma eq_loop_onward:
  assumes "eq_step m st rhs s = Some (Onward st1 rhs1 s1)" "eq_does m R st1 rhs1 d s1 r"
    "same_below d st st1" "same_rhs d rhs rhs1"
  shows "eq_does m R st rhs d s r"
proof -
  have "eq_loop m st rhs s = eq_loop m st1 rhs1 s1" using assms(1) by (subst eq_loop.simps) simp
  then show ?thesis using assms(2-4) unfolding eq_does_def
    by (cases r) (auto simp: same_below_def same_rhs_def)
qed

lemma eq_down_pushed:
  assumes "cmp_at m R st rhs d p q cur i g" "d < 14"
  shows "eq_down m st rhs s p' q' = Some (Onward (pushed st p') (rhs[Suc d := q']) s)"
  using assms by (simp add: eq_down_def pushed_def cmp_at_def at_level_def GG_MAX_OBJECT_DEPTH_def)

lemma pushed_below:
  assumes "lv_index st = d" "j \<le> d"
  shows "lv_obj (pushed st p') ! j = lv_obj st ! j" "lv_state (pushed st p') ! j = lv_state st ! j"
  using assms by (simp_all add: pushed_def Let_def)

lemma cmp_at_pushed:
  assumes "cmp_at m R st rhs d p q cur i g" "d < 14" "cur \<noteq> LEVEL_DEFAULT"
  shows "cmp_at m R (pushed st p') (rhs[Suc d := q']) (Suc d) p' q' LEVEL_DEFAULT 0 (g \<or> cur = LEVEL_MAP)"
proof -
  have at: "at_level st d p cur i" and l: "length rhs = 15" and d: "lv_index st = d" "lv_state st ! d = cur"
    using assms by (auto simp: cmp_at_def at_level_def GG_MAX_OBJECT_DEPTH_def)
  have "at_level (pushed st p') (Suc d) p' LEVEL_DEFAULT 0"
    using assms(2) by (intro pushed_level[OF at]) (simp add: GG_MAX_OBJECT_DEPTH_def)
  moreover have "\<forall>j < Suc d. lv_state (pushed st p') ! j \<noteq> LEVEL_DEFAULT"
    using assms(1,3) d by (simp add: pushed_below(2)[OF d(1)] less_Suc_eq_le[symmetric] All_less_Suc cmp_at_def)
  moreover have "(\<exists>j < Suc d. lv_state (pushed st p') ! j = LEVEL_MAP) = (g \<or> cur = LEVEL_MAP)"
    using assms(1) d by (auto simp: pushed_below(2)[OF d(1)] Ex_less_Suc cmp_at_def)
  ultimately show ?thesis using assms(1,2) l unfolding cmp_at_def
    by (simp add: pushed_below(1)[OF d(1)] GG_MAX_OBJECT_DEPTH_def)
qed

lemma cmp_at_popped:
  assumes "cmp_at m R st rhs d p q cur i g" "d < 14" "same_below (Suc d) (pushed st p') st'"
    "same_rhs (Suc d) (rhs[Suc d := q']) rhs'"
  shows "cmp_at m R (st'\<lparr>lv_index := d\<rparr>) rhs' d p q cur (u8 (i + 1)) g"
    "same_below d st (st'\<lparr>lv_index := d\<rparr>)" "same_rhs d rhs rhs'"
proof -
  have at: "at_level st d p cur i" and d: "lv_index st = d" using assms(1) by (auto simp: cmp_at_def at_level_def)
  have deep: "Suc d \<noteq> GG_MAX_OBJECT_DEPTH" using assms(2) by (simp add: GG_MAX_OBJECT_DEPTH_def)
  note pop = popped_level[OF at deep assms(3)]
  show sb: "same_below d st (st'\<lparr>lv_index := d\<rparr>)" by (rule pop(2))
  show "same_rhs d rhs rhs'" using assms(4) by (simp add: same_rhs_def)
  have "rhs' ! d = q" using assms(1,4) by (simp add: same_rhs_def cmp_at_def)
  moreover have "lv_obj st' ! 0 = lv_obj st ! 0"
    using assms(3) pushed_below(1)[OF d, of 0 p'] by (simp add: same_below_def)
  moreover have "\<forall>j < d. lv_state st' ! j = lv_state st ! j" using sb by (simp add: same_below_def)
  ultimately show "cmp_at m R (st'\<lparr>lv_index := d\<rparr>) rhs' d p q cur (u8 (i + 1)) g"
    using assms(1,4) pop(1) by (auto simp: cmp_at_def same_rhs_def)
qed

text \<open>One element, then the rest of the container.\<close>

lemma eq_child:
  assumes at: "cmp_at m R st rhs d p q cur i g" and cur: "cur \<noteq> LEVEL_DEFAULT" and d: "d < 14"
    and step: "eq_step m st rhs s = eq_down m st rhs s p' q'"
    and child: "\<And>st1 rhs1. cmp_at m R st1 rhs1 (Suc d) p' q' LEVEL_DEFAULT 0 (g \<or> cur = LEVEL_MAP) \<Longrightarrow>
      eq_does m R st1 rhs1 (Suc d) s r"
    and rest: "\<And>st2 rhs2 s'. s' \<le> 255 \<Longrightarrow> cmp_at m R st2 rhs2 d p q cur (u8 (i + 1)) g \<Longrightarrow>
      eq_does m R st2 rhs2 d s' (k s')"
  shows "eq_does m R st rhs d s (case r of Differ b \<Rightarrow> Differ b | Same s' \<Rightarrow> k s')"
proof -
  have run: "eq_loop m st rhs s = eq_loop m (pushed st p') (rhs[Suc d := q']) s"
    using step eq_down_pushed[OF at d] by (subst eq_loop.simps) simp
  have c: "eq_does m R (pushed st p') (rhs[Suc d := q']) (Suc d) s r" by (rule child[OF cmp_at_pushed[OF at d cur]])
  show ?thesis
  proof (cases r)
    case (Differ b)
    then show ?thesis using c run by (simp add: eq_does_def)
  next
    case (Same s')
    then obtain st' rhs' where 1: "same_below (Suc d) (pushed st p') st'" "same_rhs (Suc d) (rhs[Suc d := q']) rhs'"
      "s' \<le> 255" "eq_loop m st rhs s = eq_loop m (st'\<lparr>lv_index := d\<rparr>) rhs' s'"
      using c run by (auto simp: eq_does_def)
    note pop = cmp_at_popped[OF at d 1(1,2)]
    have "eq_does m R (st'\<lparr>lv_index := d\<rparr>) rhs' d s' (k s')" by (rule rest[OF 1(3) pop(1)])
    then have "eq_does m R st rhs d s (k s')" using 1(4) pop(2,3) unfolding eq_does_def
      by (cases "k s'") (auto simp: same_below_def same_rhs_def)
    then show ?thesis by (simp add: Same)
  qed
qed

definition compared :: "mem \<Rightarrow> gg_val \<Rightarrow> bool" where
  "compared m v \<longleftrightarrow> (\<forall>w R st rhs d p q g s. cmp_at m R st rhs d p q LEVEL_DEFAULT 0 g \<longrightarrow> s \<le> 255 \<longrightarrow>
     obj_at m p v \<longrightarrow> obj_at m q w \<longrightarrow> eq_does m R st rhs d s (cmp_obj d g s v w))"

lemma comparedD:
  "compared m v \<Longrightarrow> cmp_at m R st rhs d p q LEVEL_DEFAULT 0 g \<Longrightarrow> s \<le> 255 \<Longrightarrow> obj_at m p v \<Longrightarrow> obj_at m q w \<Longrightarrow>
    eq_does m R st rhs d s (cmp_obj d g s v w)"
  by (simp add: compared_def)

lemma eq_step_at:
  assumes "cmp_at m R st rhs d p q cur i g"
  shows "eq_step m st rhs s = (case cur of LEVEL_DEFAULT \<Rightarrow> eq_default m st rhs s p q
    | LEVEL_LIST \<Rightarrow> eq_list m st rhs s p q i | LEVEL_MAP \<Rightarrow> eq_map m st rhs s p q i)"
  using assms by (auto simp: eq_step_def cmp_at_def at_level_def Let_def)

lemma eq_too_deep:
  assumes "cmp_at m R st rhs d p q cur i g" "\<not> d < 14"
  shows "eq_down m st rhs s p' q' = eq_fail m st"
  using assms by (simp add: eq_down_def cmp_at_def at_level_def GG_MAX_OBJECT_DEPTH_def)

lemma compared_list:
  assumes "\<And>v. v \<in> set vs \<Longrightarrow> compared m v" "cmp_at m R st rhs d p q LEVEL_LIST i g" "s \<le> 255"
    "gg_obj_into_list (rd m p obj_size) = Some l" "list_len l = i + length vs" "list_len l \<le> 255"
    "objs_at m (list_items l + obj_size * i) vs"
    "gg_obj_into_list (rd m q obj_size) = Some l'" "length ws = length vs"
    "objs_at m (list_items l' + obj_size * i) ws"
  shows "eq_does m R st rhs d s (cmp_list d g s vs ws)"
  using assms
proof (induction vs arbitrary: ws i s st rhs)
  case Nil
  then show ?case by (auto intro!: eq_loop_up[OF Nil(2)] simp: eq_step_at[OF Nil(2)] eq_list_def)
next
  case (Cons v vs)
  note at = Cons.prems(2)
  obtain w ws' where ws: "ws = w # ws'" using Cons.prems(9) by (cases ws) auto
  let ?a = "list_items l + obj_size * i" and ?b = "list_items l' + obj_size * i"
  have step: "eq_step m st rhs s = eq_down m st rhs s ?a ?b"
    using Cons.prems(4,5,8) by (simp add: eq_step_at[OF at] eq_list_def)
  show ?case
  proof (cases "d < 14")
    case False
    then show ?thesis using step eq_too_deep[OF at False] by (auto simp: ws intro: eq_loop_fail[OF at])
  next
    case True
    have "eq_does m R st rhs d s (case cmp_obj (Suc d) g s v w of Differ b \<Rightarrow> Differ b | Same s' \<Rightarrow> cmp_list d g s' vs ws')"
    proof (rule eq_child[OF at _ True step])
      fix st1 rhs1 assume "cmp_at m R st1 rhs1 (Suc d) ?a ?b LEVEL_DEFAULT 0 (g \<or> LEVEL_LIST = LEVEL_MAP)"
      then show "eq_does m R st1 rhs1 (Suc d) s (cmp_obj (Suc d) g s v w)"
        using Cons.prems(3,7,10) ws by (intro comparedD[OF Cons.prems(1)]) auto
    next
      fix st2 rhs2 and s' :: nat
      assume "s' \<le> 255" "cmp_at m R st2 rhs2 d p q LEVEL_LIST (u8 (i + 1)) g"
      then show "eq_does m R st2 rhs2 d s' (cmp_list d g s' vs ws')"
        using Cons.prems ws by (intro Cons.IH[where i = "Suc i"]) (auto simp: algebra_simps)
    qed simp
    then show ?thesis using True by (simp add: ws)
  qed
qed

lemma compared_map:
  assumes "\<And>kv. kv \<in> set kvs \<Longrightarrow> compared m (snd kv)" "cmp_at m R st rhs d p q LEVEL_MAP i g" "s \<le> 255"
    "gg_obj_into_map (rd m p obj_size) = Some l" "map_len l = i + length kvs" "map_len l \<le> 127"
    "kvs_at m (map_pairs l + kv_size * i) kvs"
    "gg_obj_into_map (rd m q obj_size) = Some l'" "length kws = length kvs"
    "kvs_at m (map_pairs l' + kv_size * i) kws"
  shows "eq_does m R st rhs d s (cmp_map d g s kvs kws)"
  using assms
proof (induction kvs arbitrary: kws i s st rhs)
  case Nil
  then show ?case by (auto intro!: eq_loop_up[OF Nil(2)] simp: eq_step_at[OF Nil(2)] eq_map_def)
next
  case (Cons kv kvs)
  note at = Cons.prems(2)
  obtain kw kws' where ws: "kws = kw # kws'" using Cons.prems(9) by (cases kws) auto
  let ?a = "map_pairs l + kv_size * i" and ?b = "map_pairs l' + kv_size * i"
  have keys: "contents m (gg_kv_key (rd m ?a kv_size)) = fst kv" "contents m (gg_kv_key (rd m ?b kv_size)) = fst kw"
    and vals: "obj_at m (gg_kv_val ?a) (snd kv)" "obj_at m (gg_kv_val ?b) (snd kw)"
    and rest: "kvs_at m (?a + kv_size) kvs" "kvs_at m (?b + kv_size) kws'"
    using Cons.prems(7,10) by (cases kv, simp, cases kw, simp add: ws)+
  have step: "eq_step m st rhs s = (if fst kv \<noteq> fst kw then eq_fail m st
      else eq_down m st rhs s (gg_kv_val ?a) (gg_kv_val ?b))"
    using Cons.prems(4,5,8) keys by (simp add: eq_step_at[OF at] eq_map_def)
  show ?case
  proof (cases "fst kv = fst kw \<and> d < 14")
    case False
    then have "eq_step m st rhs s = eq_fail m st" using step eq_too_deep[OF at] by auto
    with False show ?thesis by (auto simp: ws intro: eq_loop_fail[OF at])
  next
    case True
    then have d: "d < 14" and step': "eq_step m st rhs s = eq_down m st rhs s (gg_kv_val ?a) (gg_kv_val ?b)"
      using step by auto
    have "eq_does m R st rhs d s
      (case cmp_obj (Suc d) True s (snd kv) (snd kw) of Differ b \<Rightarrow> Differ b | Same s' \<Rightarrow> cmp_map d g s' kvs kws')"
    proof (rule eq_child[OF at _ d step'])
      fix st1 rhs1
      assume "cmp_at m R st1 rhs1 (Suc d) (gg_kv_val ?a) (gg_kv_val ?b) LEVEL_DEFAULT 0 (g \<or> LEVEL_MAP = LEVEL_MAP)"
      then show "eq_does m R st1 rhs1 (Suc d) s (cmp_obj (Suc d) True s (snd kv) (snd kw))"
        using Cons.prems(1)[of kv] Cons.prems(3) vals by (intro comparedD) auto
    next
      fix st2 rhs2 and s' :: nat
      assume "s' \<le> 255" "cmp_at m R st2 rhs2 d p q LEVEL_MAP (u8 (i + 1)) g"
      then show "eq_does m R st2 rhs2 d s' (cmp_map d g s' kvs kws')"
        using Cons.prems rest ws by (intro Cons.IH[where i = "Suc i"]) (auto simp: algebra_simps)
    qed simp
    then show ?thesis using True by (simp add: ws)
  qed
qed

lemma obj_at_type: "obj_at m p v \<Longrightarrow> gg_obj_type (rd m p obj_size) = Some (val_type v)"
  by (cases v) (auto dest: into_type split: option.splits)

lemma compared_types:
  assumes "cmp_at m R st rhs d p q LEVEL_DEFAULT 0 g" "obj_at m p v" "obj_at m q w" "val_type v \<noteq> val_type w"
  shows "eq_does m R st rhs d s (Differ g)"
  using assms(4) obj_at_type[OF assms(2)] obj_at_type[OF assms(3)]
  by (intro eq_loop_fail[OF assms(1)]) (simp add: eq_step_at[OF assms(1)] eq_default_def Let_def)

lemma cmp_obj_types: "val_type v \<noteq> val_type w \<Longrightarrow> cmp_obj d g s v w = Differ g"
  by (cases v; cases w) auto

lemma compared_leaf:
  assumes "\<And>vs. v \<noteq> VList vs" "\<And>kvs. v \<noteq> VMap kvs"
  shows "compared m v"
  unfolding compared_def
proof (intro allI impI)
  fix w R st rhs d p q g and s :: nat
  assume *: "cmp_at m R st rhs d p q LEVEL_DEFAULT 0 g" "s \<le> 255" "obj_at m p v" "obj_at m q w"
  show "eq_does m R st rhs d s (cmp_obj d g s v w)"
  proof (cases "val_type v = val_type w")
    case False
    then show ?thesis using compared_types[OF *(1,3,4)] by (simp add: cmp_obj_types)
  next
    case True
    have step: "eq_step m st rhs s = (case cmp_obj d g s v w of Same _ \<Rightarrow> eq_up st rhs s
        | Differ _ \<Rightarrow> if val_type v = GG_TYPE_F64 then Some (Decided False) else eq_fail m st)"
      using assms True *(3,4) obj_at_type[OF *(3)] obj_at_type[OF *(4)]
      by (cases v; cases w) (auto simp: eq_step_at[OF *(1)] eq_default_def Let_def bool_eq_def int_eq_def buf_eq_def
          split: option.splits)
    show ?thesis
    proof (cases "cmp_obj d g s v w")
      case (Same s')
      then have "s' = s" using assms by (cases v; cases w) (auto split: if_splits)
      then show ?thesis using step Same *(2) by (auto intro: eq_loop_up[OF *(1)])
    next
      case (Differ b)
      show ?thesis
      proof (cases "val_type v = GG_TYPE_F64")
        case True
        then have "b = False" using Differ \<open>val_type v = val_type w\<close> by (cases v; cases w) (auto split: if_splits)
        then show ?thesis using step Differ True unfolding eq_does_def by (subst eq_loop.simps) simp
      next
        case False
        then have "b = g" using Differ assms by (cases v; cases w) (auto split: if_splits)
        then show ?thesis using step Differ False by (auto intro: eq_loop_fail[OF *(1)])
      qed
    qed
  qed
qed

text \<open>A container: the limit and the lengths, then the elements at the level's new state.\<close>

lemma cmp_at_enter:
  assumes "cmp_at m R st rhs d p q LEVEL_DEFAULT 0 g" "cur \<noteq> LEVEL_DEFAULT"
  shows "cmp_at m R (st\<lparr>lv_state := (lv_state st)[d := cur]\<rparr>) rhs d p q cur 0 g"
    "same_below d st (st\<lparr>lv_state := (lv_state st)[d := cur]\<rparr>)" "same_rhs d rhs rhs"
  using assms by (auto simp: cmp_at_def at_level_def same_below_def same_rhs_def)

lemma compared_VList:
  assumes "\<And>v. v \<in> set vs \<Longrightarrow> compared m v"
  shows "compared m (VList vs)"
  unfolding compared_def
proof (intro allI impI)
  fix w R st rhs d p q g and s :: nat
  assume *: "cmp_at m R st rhs d p q LEVEL_DEFAULT 0 g" "s \<le> 255" "obj_at m p (VList vs)" "obj_at m q w"
  show "eq_does m R st rhs d s (cmp_obj d g s (VList vs) w)"
  proof (cases "\<exists>ws. w = VList ws")
    case False
    then have "val_type (VList vs) \<noteq> val_type w" by (cases w) auto
    then show ?thesis using compared_types[OF *(1,3,4)] cmp_obj_types[of "VList vs" w] by simp
  next
    case True
    then obtain ws where w: "w = VList ws" by blast
    obtain l l' where l: "gg_obj_into_list (rd m p obj_size) = Some l" "list_len l = length vs" "objs_at m (list_items l) vs"
      and l': "gg_obj_into_list (rd m q obj_size) = Some l'" "list_len l' = length ws" "objs_at m (list_items l') ws"
      using *(3,4) w by (auto split: option.splits)
    let ?st = "st\<lparr>lv_state := (lv_state st)[d := LEVEL_LIST]\<rparr>"
    have step: "eq_step m st rhs s = (if length vs > 255 - s \<or> length vs \<noteq> length ws then eq_fail m st
        else Some (Onward ?st rhs (u8 (s + u8 (length vs)))))"
      using *(1) l(1,2) l'(1,2) by (auto simp: eq_step_at[OF *(1)] eq_default_def Let_def into_type(5)[OF l(1)] into_type(5)[OF l'(1)]
          GG_MAX_OBJECT_SUBOBJECTS_def cmp_at_def at_level_def)
    show ?thesis
    proof (cases "length vs > 255 - s \<or> length vs \<noteq> length ws")
      case True
      then show ?thesis using step w by (auto intro: eq_loop_fail[OF *(1)])
    next
      case False
      note enter = cmp_at_enter[OF *(1), of LEVEL_LIST]
      have "eq_does m R ?st rhs d (s + length vs) (cmp_list d g (s + length vs) vs ws)"
        using False *(2) l l' enter(1) by (intro compared_list[OF assms, where i = 0 and p = p and q = q and l = l and l' = l']) auto
      moreover have "u8 (s + u8 (length vs)) = s + length vs"
      proof -
        have "length vs < 256" "s + length vs < 256" using False *(2) by linarith+
        then show ?thesis by simp
      qed
      ultimately have "eq_does m R st rhs d s (cmp_list d g (s + length vs) vs ws)"
        using step False enter(2,3) by (intro eq_loop_onward[of m st rhs s ?st rhs "s + length vs"]) simp_all
      then show ?thesis using False w by simp
    qed
  qed
qed

lemma compared_VMap:
  assumes "\<And>kv. kv \<in> set kvs \<Longrightarrow> compared m (snd kv)"
  shows "compared m (VMap kvs)"
  unfolding compared_def
proof (intro allI impI)
  fix w R st rhs d p q g and s :: nat
  assume *: "cmp_at m R st rhs d p q LEVEL_DEFAULT 0 g" "s \<le> 255" "obj_at m p (VMap kvs)" "obj_at m q w"
  show "eq_does m R st rhs d s (cmp_obj d g s (VMap kvs) w)"
  proof (cases "\<exists>kws. w = VMap kws")
    case False
    then have "val_type (VMap kvs) \<noteq> val_type w" by (cases w) auto
    then show ?thesis using compared_types[OF *(1,3,4)] cmp_obj_types[of "VMap kvs" w] by simp
  next
    case True
    then obtain kws where w: "w = VMap kws" by blast
    obtain l l' where l: "gg_obj_into_map (rd m p obj_size) = Some l" "map_len l = length kvs" "kvs_at m (map_pairs l) kvs"
      and l': "gg_obj_into_map (rd m q obj_size) = Some l'" "map_len l' = length kws" "kvs_at m (map_pairs l') kws"
      using *(3,4) w by (auto split: option.splits)
    let ?st = "st\<lparr>lv_state := (lv_state st)[d := LEVEL_MAP]\<rparr>"
    have step: "eq_step m st rhs s = (if length kvs > (255 - s) div 2 \<or> length kvs \<noteq> length kws then eq_fail m st
        else Some (Onward ?st rhs (u8 (s + u8 (length kvs * 2)))))"
      using *(1) l(1,2) l'(1,2) by (auto simp: eq_step_at[OF *(1)] eq_default_def Let_def into_type(6)[OF l(1)] into_type(6)[OF l'(1)]
          GG_MAX_OBJECT_SUBOBJECTS_def cmp_at_def at_level_def)
    have half: "length kvs > (255 - s) div 2 \<longleftrightarrow> 2 * length kvs > 255 - s" by linarith
    show ?thesis
    proof (cases "2 * length kvs > 255 - s \<or> length kvs \<noteq> length kws")
      case True
      then show ?thesis using step w unfolding half by (auto intro: eq_loop_fail[OF *(1)])
    next
      case False
      note enter = cmp_at_enter[OF *(1), of LEVEL_MAP]
      have "eq_does m R ?st rhs d (s + 2 * length kvs) (cmp_map d g (s + 2 * length kvs) kvs kws)"
        using False *(2) l l' enter(1) by (intro compared_map[OF assms, where i = 0 and p = p and q = q and l = l and l' = l']) auto
      moreover have "u8 (s + u8 (length kvs * 2)) = s + 2 * length kvs"
      proof -
        have "length kvs * 2 < 256" "s + length kvs * 2 < 256" using False *(2) by linarith+
        then show ?thesis by simp
      qed
      ultimately have "eq_does m R st rhs d s (cmp_map d g (s + 2 * length kvs) kvs kws)"
        using step False enter(2,3) unfolding half by (intro eq_loop_onward[of m st rhs s ?st rhs "s + 2 * length kvs"]) simp_all
      then show ?thesis using False w by simp
    qed
  qed
qed

lemma compared_val: "compared m v"
proof (induction v)
  case (VList vs)
  then show ?case by (rule compared_VList)
next
  case (VMap kvs)
  then show ?case by (intro compared_VMap) (auto simp: snds.intros)
qed (auto intro: compared_leaf)

text \<open>The result of the comparison: it aborts exactly where a difference inside a map is logged and the root
  is not a map.\<close>

lemma gg_obj_eq_result:
  assumes "obj_at m p v" "obj_at m q w"
  shows "gg_obj_eq m p q = (case cmp_obj 0 False 0 v w of Same _ \<Rightarrow> Some True
    | Differ b \<Rightarrow> if b \<and> val_type v \<noteq> GG_TYPE_MAP then None else Some False)"
proof -
  let ?st = "\<lparr>lv_obj = (replicate GG_MAX_OBJECT_DEPTH NULL)[0 := p],
       lv_state = (replicate GG_MAX_OBJECT_DEPTH LEVEL_DEFAULT)[0 := LEVEL_DEFAULT],
       lv_elem_index = (replicate GG_MAX_OBJECT_DEPTH 0)[0 := 0], lv_index = 0\<rparr>"
  let ?rhs = "(replicate GG_MAX_OBJECT_DEPTH NULL)[0 := q]"
  let ?R = "gg_obj_into_map (rd m p obj_size) \<noteq> None"
  have "gg_obj_into_map (rd m p obj_size) = None" if "val_type v \<noteq> GG_TYPE_MAP"
    using that obj_at_type[OF assms(1)] into_type(6)[of "rd m p obj_size"] by (metis option.collapse option.inject)
  moreover have ?R if "val_type v = GG_TYPE_MAP"
    using that assms(1) by (cases v) (auto split: option.splits)
  ultimately have R: "?R = (val_type v = GG_TYPE_MAP)" by argo
  have "cmp_at m ?R ?st ?rhs 0 p q LEVEL_DEFAULT 0 False"
    by (simp add: cmp_at_def at_level_def GG_MAX_OBJECT_DEPTH_def)
  from comparedD[OF compared_val this _ assms, of 0]
  have "eq_does m ?R ?st ?rhs 0 0 (cmp_obj 0 False 0 v w)" by simp
  then show ?thesis unfolding eq_does_def gg_obj_eq_def R by (auto split: cmp_res.splits)
qed

section \<open>What the recursion decides\<close>

lemma kvs_depth_Cons: "kvs_depth (kv # kvs) = max (val_depth (snd kv)) (kvs_depth kvs)"
  and kvs_count_Cons: "kvs_count (kv # kvs) = val_count (snd kv) + kvs_count kvs"
  by (cases kv, simp)+

lemma cmp_seq: "(case r of Differ b \<Rightarrow> Differ b | Same x \<Rightarrow> k x) = Same s' \<longleftrightarrow> (\<exists>x. r = Same x \<and> k x = Same s')"
  by (cases r) auto

lemma vals_eq_length: "vals_eq vs ws \<Longrightarrow> length vs = length ws" "kvs_eq kvs kws \<Longrightarrow> length kvs = length kws"
  by (induction vs arbitrary: ws, auto split: list.splits) (induction kvs arbitrary: kws, auto split: list.splits)

lemma depth_pos: "val_depth v \<ge> 1"
  by (cases v) auto

lemma cmp_same:
  "d < 15 \<Longrightarrow> s \<le> 255 \<Longrightarrow> cmp_obj d g s v w = Same s' \<longleftrightarrow>
     val_eq v w \<and> d + val_depth v \<le> 15 \<and> s + val_count v \<le> 255 \<and> s' = s + val_count v"
  "d < 15 \<Longrightarrow> s \<le> 255 \<Longrightarrow> length vs = length ws \<Longrightarrow> cmp_list d g s vs ws = Same s' \<longleftrightarrow>
     vals_eq vs ws \<and> Suc d + vals_depth vs \<le> 15 \<and> s + vals_count vs \<le> 255 \<and> s' = s + vals_count vs"
  "d < 15 \<Longrightarrow> s \<le> 255 \<Longrightarrow> length kvs = length kws \<Longrightarrow> cmp_map d g s kvs kws = Same s' \<longleftrightarrow>
     kvs_eq kvs kws \<and> Suc d + kvs_depth kvs \<le> 15 \<and> s + kvs_count kvs \<le> 255 \<and> s' = s + kvs_count kvs"
proof (induction d g s v w and d g s vs ws and d g s kvs kws arbitrary: s' and s' and s'
    rule: cmp_obj_cmp_list_cmp_map.induct)
  case (1 d g s vs w)
  then show ?case by (cases w) (auto dest: vals_eq_length)
next
  case (2 d g s kvs w)
  then show ?case by (cases w) (auto dest: vals_eq_length)
next
  case (3 d g s x w)
  then show ?case by (cases w) auto
next
  case (5 d g s v vs w ws)
  show ?case
  proof (cases "14 \<le> d")
    case True
    then show ?thesis using depth_pos[of v] by auto
  next
    case False
    have one: "cmp_obj (Suc d) g s v w = Same x \<longleftrightarrow> val_eq v w \<and> Suc d + val_depth v \<le> 15 \<and> s + val_count v \<le> 255 \<and> x = s + val_count v" for x
      using 5(1)[OF False, of x] 5(4) False by auto
    show ?thesis
    proof (cases "val_eq v w \<and> Suc d + val_depth v \<le> 15 \<and> s + val_count v \<le> 255")
      case fits: True
      then have "cmp_obj (Suc d) g s v w = Same (s + val_count v)" using one by blast
      with 5(2)[OF False this, of s'] fits 5(3,5) False show ?thesis by (auto simp: algebra_simps)
    next
      case False
      then have "\<not> (\<exists>x. cmp_obj (Suc d) g s v w = Same x)" using one by blast
      with False show ?thesis by (auto simp: cmp_seq algebra_simps)
    qed
  qed
next
  case (7 d g s kv kvs kw kws)
  show ?case
  proof (cases "fst kv \<noteq> fst kw \<or> 14 \<le> d")
    case True
    then show ?thesis using depth_pos[of "snd kv"] by (auto simp: kvs_depth_Cons)
  next
    case False
    have one: "cmp_obj (Suc d) True s (snd kv) (snd kw) = Same x \<longleftrightarrow> val_eq (snd kv) (snd kw) \<and> Suc d + val_depth (snd kv) \<le> 15 \<and> s + val_count (snd kv) \<le> 255 \<and> x = s + val_count (snd kv)" for x
      using 7(1)[OF False, of x] 7(4) False by auto
    show ?thesis
    proof (cases "val_eq (snd kv) (snd kw) \<and> Suc d + val_depth (snd kv) \<le> 15 \<and> s + val_count (snd kv) \<le> 255")
      case fits: True
      then have "cmp_obj (Suc d) True s (snd kv) (snd kw) = Same (s + val_count (snd kv))" using one by blast
      with 7(2)[OF False this, of s'] fits 7(3,5) False show ?thesis by (auto simp: kvs_depth_Cons kvs_count_Cons)
    next
      case False
      then have "\<not> (\<exists>x. cmp_obj (Suc d) True s (snd kv) (snd kw) = Same x)" using one by blast
      with False show ?thesis by (auto simp: cmp_seq kvs_depth_Cons kvs_count_Cons)
    qed
  qed
qed auto

text \<open>A double is equal to itself exactly when it is finite; infinities of opposite sign are equal.\<close>

lemma f64_bits [simp]:
  "f64_exp f64_NAN = 2047" "f64_frac f64_NAN \<noteq> 0" "f64_exp f64_INF = 2047" "f64_frac f64_INF = 0" "\<not> f64_neg f64_INF"
  "f64_exp DBL_EPSILON = 971" "f64_exp 0 = 0" "f64_exp 0xFFF0000000000000 = 2047" "f64_frac 0xFFF0000000000000 = 0"
  "f64_neg 0xFFF0000000000000" "f64_fabs 0xFFF0000000000000 = f64_INF" "f64_fabs f64_INF = f64_INF"
  by (simp_all add: f64_exp_def f64_frac_def f64_neg_def f64_fabs_def f64_NAN_def f64_INF_def DBL_EPSILON_def mask_eq_exp_minus_1)

lemma float_eq_refl: "float_eq x x \<longleftrightarrow> f64_exp x \<noteq> 2047"
proof (cases "f64_exp x = 2047")
  case True
  then have "f64_distance x x = f64_NAN" by (cases "f64_frac x = 0") (auto simp: f64_distance_def f64_isnan_def f64_isinf_def)
  then show ?thesis using True by (simp add: float_eq_def f64_le_def f64_isnan_def)
next
  case False
  then have "f64_distance x x = 0"
    by (simp add: f64_distance_def f64_isnan_def f64_isinf_def nearest_f64_def split: prod.splits)
  then show ?thesis using False by (simp add: float_eq_def f64_isnan_def f64_le_def)
qed

lemma float_eq_infinities:
  "\<not> float_eq f64_INF f64_INF" "float_eq f64_INF 0xFFF0000000000000" "\<not> float_eq f64_NAN f64_NAN"
  by (simp_all add: float_eq_refl, simp add: float_eq_def f64_distance_def f64_le_def f64_isnan_def f64_isinf_def
      f64_epsilon_times_def f64_fmin_def)

definition finite_f64 :: "gg_val \<Rightarrow> bool" where
  "finite_f64 v = (case v of VF64 x \<Rightarrow> f64_exp x \<noteq> 2047 | _ \<Rightarrow> True)"

lemma val_eq_refl: "val_all finite_f64 v \<Longrightarrow> val_eq v v"
proof (induction v)
  case (VList vs)
  then show ?case by (simp add: vals_all_iff) (induction vs, auto)
next
  case (VMap kvs)
  then have "\<And>kv. kv \<in> set kvs \<Longrightarrow> val_eq (snd kv) (snd kv)" by (auto simp: kvs_all_iff snds.intros)
  then show ?case by simp (induction kvs, auto)
qed (auto simp: finite_f64_def float_eq_refl)

lemma eq_true_iff:
  assumes "obj_at m p v" "obj_at m q w"
  shows "gg_obj_eq m p q = Some True \<longleftrightarrow> val_eq v w \<and> within_limits v"
proof -
  have "(\<exists>s. cmp_obj 0 False 0 v w = Same s) \<longleftrightarrow> val_eq v w \<and> within_limits v"
    using cmp_same(1)[of 0 0 False v w] by (auto simp: within_limits_def GG_MAX_OBJECT_DEPTH_def GG_MAX_OBJECT_SUBOBJECTS_def)
  then show ?thesis unfolding gg_obj_eq_result[OF assms] by (auto split: cmp_res.splits)
qed

section \<open>Properties\<close>



text \<open>When a difference inside a map inside a list is found, the comparison aborts instead of returning false:
  the log of the enclosing levels reads the root object as a map.\<close>

theorem gg_obj_eq_aborts:
  assumes "obj_at m p (VList [VMap [(k, VI64 x)]])" "obj_at m q (VList [VMap [(k, VI64 y)]])" "x \<noteq> y"
  shows "gg_obj_eq m p q = None"
  using gg_obj_eq_result[OF assms(1,2)] assms(3) by simp

definition nested_mem :: mem where
  "nested_mem = wr (wr (\<lambda>_. 0) 8 [19, 0, 0, 0, 0, 0, 0, 0, 1, 0, 5, 30, 0, 0, 0, 0, 0, 0, 0, 1, 0, 6,
       0, 0, 0, 0, 0, 0, 0, 0, 0, 0, 1, 0, 0, 0, 0, 0, 0, 0, 0, 0, 2])
     51 [62, 0, 0, 0, 0, 0, 0, 0, 1, 0, 5, 73, 0, 0, 0, 0, 0, 0, 0, 1, 0, 6,
       0, 0, 0, 0, 0, 0, 0, 0, 0, 0, 2, 0, 0, 0, 0, 0, 0, 0, 0, 0, 2]"

lemma nested_mem_vals:
  "obj_at nested_mem 8 (VList [VMap [([], VI64 1)]])" "obj_at nested_mem 51 (VList [VMap [([], VI64 2)]])"
  by code_simp+

theorem gg_obj_eq_aborts_witness: "gg_obj_eq nested_mem 8 51 = None"
  using gg_obj_eq_aborts[OF nested_mem_vals] by simp

end
