(* ===== verification/Mock.thy ===== *)
theory Mock
  imports Client Canonical Compare Json_Roundtrip
begin

text \<open>
  The mock server that the tests run the client against (\<open>src/mock/mock.c\<close>, \<open>src/mock/gg/ipc/mock.h\<close>): it opens a socket,
  accepts the client, and goes through a sequence of packets that it sends or expects. Its static variables are the
  record \<open>mock\<close>; the calls that change the file system are recorded in order.
\<close>

section \<open>Definitions\<close>

text \<open>A packet of a sequence. The model has the headers up to \<open>header_count\<close>; the payload is an object in
  memory. The constructors of a header's value are the types the code handles, so its last branch, for another type, is
  not reached.\<close>

definition CLIENT_TO_SERVER :: int where "CLIENT_TO_SERVER = 0"
definition SERVER_TO_CLIENT :: int where "SERVER_TO_CLIENT = 1"

record GgipcPacket =
  pk_headers :: "EventStreamHeader list"
  pk_direction :: int
  pk_has_payload :: bool
  pk_payload :: addr

datatype fs_call = Mkdtemp bytes | Unlink bytes | Bind bytes | Chmod bytes nat | Rmdir bytes

text \<open>What \<open>epoll_wait\<close> returns: an error, or the number of ready descriptors. \<open>mk_pending\<close> are the clients that will connect, each
  with what reading from it and writing to it meets; \<open>mk_sent\<close> is what the client that is connected has been sent. The path
  and the token are static arrays with the length of the buffer that refers to them. \<open>mk_slot\<close> is the stack address of
  \<open>payload_obj\<close>. The last five fields are addresses and the fuel of the decoder; no operation changes them. \<open>mk_err_tx\<close> is
  what writing to standard error meets.\<close>

record mock =
  mk_sock_fd :: int
  mk_epoll_fd :: int
  mk_client_fd :: int
  mk_socket_path :: bytes
  mk_socket_path_len :: nat
  mk_auth_token :: bytes
  mk_auth_len :: nat
  mk_env :: "string \<rightharpoonup> bytes"
  mk_fs :: "fs_call list"
  mk_os :: os
  mk_waits :: "(errno + nat) list"
  mk_pending :: "(rd_ev list \<times> wr_ev list) list"
  mk_rx :: "rd_ev list"
  mk_tx :: "wr_ev list"
  mk_sent :: bytes
  mk_err_tx :: "wr_ev list"
  mk_mem :: mem
  mk_recv_mem :: addr
  mk_decode_mem :: addr
  mk_slot :: addr
  mk_pruned :: GgBuffer
  mk_fuel :: nat

definition mk_status :: "mock \<Rightarrow> (bool \<times> mock) run" where
  "mk_status mk = do { (ok, os) \<leftarrow> sys_status (mk_os mk); Some (ok, mk\<lparr>mk_os := os\<rparr>) }"

text \<open>A call on the file system, which is recorded whether it succeeds or not.\<close>

definition fs_status :: "fs_call \<Rightarrow> mock \<Rightarrow> (bool \<times> mock) run" where
  "fs_status c mk = mk_status (mk\<lparr>mk_fs := mk_fs mk @ [c]\<rparr>)"

definition mk_close :: "int \<Rightarrow> mock \<Rightarrow> (GgError \<times> mock) run" where
  "mk_close fd mk = do { (ret, os) \<leftarrow> gg_close (mk_os mk) (nat fd); Some (ret, mk\<lparr>mk_os := os\<rparr>) }"

definition configure_client_timeout :: "mock \<Rightarrow> (GgError \<times> mock) run" where
  "configure_client_timeout mk = do {
     (ok, mk) \<leftarrow> mk_status mk;
     if \<not> ok then Some (GG_ERR_FATAL, mk)
     else do {
       (ok, mk) \<leftarrow> mk_status mk;
       Some (if \<not> ok then GG_ERR_FATAL else GG_ERR_OK, mk)
     }
   }"

definition configure_server_socket :: "int \<Rightarrow> bytes \<Rightarrow> nat \<Rightarrow> mock \<Rightarrow> (GgError \<times> mock) run" where
  "configure_server_socket socket_fd path mode mk = do {
     c_assert (socket_fd \<ge> 0);
     if length path \<ge> SUN_PATH_LEN then Some (GG_ERR_FAILURE, mk)
     else do {
       (ok, mk) \<leftarrow> fs_status (Unlink path) mk;
       if \<not> ok \<and> os_errno (mk_os mk) \<noteq> ENOENT then Some (GG_ERR_FAILURE, mk)
       else do {
         (ok, mk) \<leftarrow> fs_status (Bind path) mk;
         if \<not> ok then Some (GG_ERR_FAILURE, mk)
         else do {
           (ok, mk) \<leftarrow> fs_status (Chmod path mode) mk;
           if \<not> ok then Some (GG_ERR_FAILURE, mk)
           else do {
             (ok, mk) \<leftarrow> mk_status mk;
             if \<not> ok then Some (GG_ERR_FATAL, mk)
             else do {
               (ok, mk) \<leftarrow> mk_status mk;
               if \<not> ok then Some (GG_ERR_FATAL, mk)
               else do {
                 (ok, mk) \<leftarrow> mk_status mk;
                 Some (if \<not> ok then GG_ERR_FAILURE else GG_ERR_OK, mk)
               }
             }
           }
         }
       }
     }
   }"

definition gg_socket_open :: "bytes \<Rightarrow> nat \<Rightarrow> mock \<Rightarrow> (int res \<times> mock) run" where
  "gg_socket_open path mode mk = do {
     (server_fd, os) \<leftarrow> sys_new_fd (mk_os mk);
     let mk = mk\<lparr>mk_os := os\<rparr>;
     case server_fd of
       None \<Rightarrow> Some (Inl GG_ERR_FAILURE, mk)
     | Some server_fd \<Rightarrow> do {
         (ret, mk) \<leftarrow> configure_server_socket (int server_fd) path mode mk;
         if ret \<noteq> GG_ERR_OK then do { (_, mk) \<leftarrow> mk_close (int server_fd) mk; Some (Inl ret, mk) }
         else Some (Inr (int server_fd), mk)
       }
   }"

text \<open>The static arrays hold 256 bytes of the token and \<open>PATH_MAX\<close> bytes of the path, each with a terminator. The last six
  bytes of the template are replaced by \<open>mkdtemp\<close>, by \<open>fresh\<close>.\<close>

definition PATH_MAX :: nat where "PATH_MAX = 4096"

definition setup_socket :: "bytes \<Rightarrow> nat \<Rightarrow> mock \<Rightarrow> (GgError \<times> mock) run" where
  "setup_socket path mode mk = do {
     (ret, mk) \<leftarrow> gg_socket_open path mode mk;
     case ret of
       Inl e \<Rightarrow> Some (e, mk)
     | Inr socket_fd \<Rightarrow> do {
         (ret, os) \<leftarrow> gg_socket_epoll_create (mk_os mk);
         let mk = mk\<lparr>mk_os := os\<rparr>;
         case ret of
           Inl e \<Rightarrow> do { (_, mk) \<leftarrow> mk_close socket_fd (mk\<lparr>mk_epoll_fd := - 1\<rparr>); Some (e, mk) }
         | Inr efd \<Rightarrow> do {
             let mk = mk\<lparr>mk_epoll_fd := int efd\<rparr>;
             (ret, os) \<leftarrow> gg_socket_epoll_add (mk_epoll_fd mk) socket_fd (mk_os mk);
             let mk = mk\<lparr>mk_os := os\<rparr>;
             if ret \<noteq> GG_ERR_OK then do {
               (_, mk) \<leftarrow> mk_close (mk_epoll_fd mk) mk;
               (_, mk) \<leftarrow> mk_close socket_fd mk;
               Some (ret, mk)
             }
             else Some (GG_ERR_OK, mk\<lparr>mk_sock_fd := socket_fd\<rparr>)
           }
       }
   }"

definition fill :: "nat \<Rightarrow> bytes \<Rightarrow> bytes" where
  "fill n bs = bs @ replicate (n - length bs) 0"

definition overwrite :: "bytes \<Rightarrow> bytes \<Rightarrow> bytes" where
  "overwrite arr bs = bs @ drop (length bs) arr"

definition gg_test_setup_ipc :: "bytes \<Rightarrow> bytes \<Rightarrow> nat \<Rightarrow> bytes \<Rightarrow> mock \<Rightarrow> (GgError \<times> mock) run" where
  "gg_test_setup_ipc fresh socket_path_prefix mode auth_token mk =
     (if length auth_token > 256 then Some (GG_ERR_NOMEM, mk)
      else let mk = mk\<lparr>mk_auth_token := overwrite (mk_auth_token mk) auth_token\<rparr> in
      if length auth_token = 256 then Some (GG_ERR_NOMEM, mk)
      else let mk = mk\<lparr>mk_auth_token := overwrite (mk_auth_token mk) (auth_token @ [0])\<rparr> in
      if length socket_path_prefix > PATH_MAX then Some (GG_ERR_NOMEM, mk\<lparr>mk_socket_path := fill PATH_MAX []\<rparr>)
      else if length socket_path_prefix + 8 > PATH_MAX
      then Some (GG_ERR_NOMEM, mk\<lparr>mk_socket_path := fill PATH_MAX socket_path_prefix\<rparr>)
      else do {
        let dir = socket_path_prefix @ str ''_'' @ fresh;
        (ok, mk) \<leftarrow> fs_status (Mkdtemp dir) (mk\<lparr>mk_socket_path := fill PATH_MAX (socket_path_prefix @ str ''_XXXXXX'')\<rparr>);
        if \<not> ok then Some (GG_ERR_FAILURE, mk)
        else let mk = mk\<lparr>mk_socket_path := fill PATH_MAX dir\<rparr> in
        if length dir + 12 > PATH_MAX then Some (GG_ERR_NOMEM, mk)
        else do {
          let path = dir @ str ''/socket.ipc'';
          (ret, mk) \<leftarrow> setup_socket path mode (mk\<lparr>mk_socket_path := fill PATH_MAX path\<rparr>);
          if ret \<noteq> GG_ERR_OK then Some (ret, mk)
          else do {
            (ok, mk) \<leftarrow> mk_status mk;
            if \<not> ok then Some (GG_ERR_FAILURE, mk)
            else do {
              let mk = mk\<lparr>mk_env := (mk_env mk)(''AWS_GG_NUCLEUS_DOMAIN_SOCKET_FILEPATH_FOR_COMPONENT'' \<mapsto> path)\<rparr>;
              (ok, mk) \<leftarrow> mk_status mk;
              if \<not> ok then Some (GG_ERR_FAILURE, mk)
              else Some (GG_ERR_OK, mk\<lparr>mk_env := (mk_env mk)(''SVCUID'' \<mapsto> auth_token),
                mk_socket_path_len := length path, mk_auth_len := length auth_token\<rparr>)
            }
          }
        }
      })"

text \<open>The receive buffer is also the buffer that packets to send are encoded in.\<close>

definition gg_test_send_packet :: "GgipcPacket \<Rightarrow> mock \<Rightarrow> (GgError \<times> mock) run" where
  "gg_test_send_packet packet mk = do {
     payload \<leftarrow> (if pk_has_payload packet then map_option Some (gg_json_reader (pk_payload packet)) else Some None);
     (ret, packet_bytes, m) \<leftarrow> eventstream_encode (mk_mem mk)
       \<lparr>buf_data = mk_recv_mem mk, buf_len = GG_IPC_MAX_MSG_LEN\<rparr> (pk_headers packet) payload;
     let mk = mk\<lparr>mk_mem := m\<rparr>;
     if ret \<noteq> GG_ERR_OK then Some (ret, mk)
     else do {
       (ret, sent, tx) \<leftarrow> gg_socket_write (mk_tx mk) (contents m packet_bytes);
       Some (ret, mk\<lparr>mk_sent := mk_sent mk @ sent, mk_tx := tx\<rparr>)
     }
   }"

function find_header_int :: "EventStreamHeaderIter \<Rightarrow> bytes \<Rightarrow> 32 word \<Rightarrow> GgError run" where
  "find_header_int iter name value =
     (case eventstream_header_next iter of
        None \<Rightarrow> None
      | Some (Inl _) \<Rightarrow> Some GG_ERR_FAILURE
      | Some (Inr (header, iter')) \<Rightarrow>
          if gg_buffer_eq (hdr_name header) name
          then (case hdr_value header of
                  EVENTSTREAM_INT32 v \<Rightarrow> Some (if v \<noteq> value then GG_ERR_FAILURE else GG_ERR_OK)
                | EVENTSTREAM_STRING _ \<Rightarrow> Some GG_ERR_FAILURE)
          else find_header_int iter' name value)"
  by pat_completeness auto
termination by (relation "measure (iter_count \<circ> fst)") (auto simp: header_next_count)

function find_header_str :: "EventStreamHeaderIter \<Rightarrow> bytes \<Rightarrow> bytes \<Rightarrow> GgError run" where
  "find_header_str iter name value =
     (case eventstream_header_next iter of
        None \<Rightarrow> None
      | Some (Inl _) \<Rightarrow> Some GG_ERR_FAILURE
      | Some (Inr (header, iter')) \<Rightarrow>
          if gg_buffer_eq (hdr_name header) name
          then (case hdr_value header of
                  EVENTSTREAM_INT32 _ \<Rightarrow> Some GG_ERR_FAILURE
                | EVENTSTREAM_STRING text \<Rightarrow> Some (if \<not> gg_buffer_eq value text then GG_ERR_FAILURE else GG_ERR_OK))
          else find_header_str iter' name value)"
  by pat_completeness auto
termination by (relation "measure (iter_count \<circ> fst)") (auto simp: header_next_count)

declare find_header_int.simps [simp del] find_header_str.simps [simp del]

definition gg_file_writer_write :: "wr_ev list write_fn" where
  "gg_file_writer_write evs buf m = do { (ret, _, evs) \<leftarrow> gg_file_write evs buf; Some (ret, evs, m) }"

definition gg_file_writer :: "wr_ev list \<Rightarrow> wr_ev list GgWriter" where
  "gg_file_writer evs = \<lparr>wtr_write = Some gg_file_writer_write, wtr_ctx = evs\<rparr>"

text \<open>The log of the client's packet goes through its headers.\<close>

definition print_client_packet :: "EventStreamMessage \<Rightarrow> unit run" where
  "print_client_packet msg = do { _ \<leftarrow> header_loop (msg_headers msg); Some () }"

fun check_headers :: "EventStreamMessage \<Rightarrow> EventStreamHeader list \<Rightarrow> GgError run" where
  "check_headers msg [] = Some GG_ERR_OK"
| "check_headers msg (header # headers) = do {
     ret \<leftarrow> (case hdr_value header of
         EVENTSTREAM_INT32 value \<Rightarrow> find_header_int (msg_headers msg) (hdr_name header) value
       | EVENTSTREAM_STRING value \<Rightarrow> find_header_str (msg_headers msg) (hdr_name header) value);
     if ret \<noteq> GG_ERR_OK then do { _ \<leftarrow> print_client_packet msg; Some ret }
     else check_headers msg headers
   }"

definition print_payload :: "addr \<Rightarrow> mock \<Rightarrow> mock run" where
  "print_payload obj mk = do {
     (_, w, m) \<leftarrow> gg_json_encode obj (gg_file_writer (mk_err_tx mk)) (mk_mem mk);
     Some (mk\<lparr>mk_err_tx := wtr_ctx w, mk_mem := m\<rparr>)
   }"

definition check_payload :: "GgipcPacket \<Rightarrow> EventStreamMessage \<Rightarrow> mock \<Rightarrow> (GgError \<times> mock) run" where
  "check_payload packet msg mk = do {
     let json_arena = gg_arena_init \<lparr>buf_data = mk_decode_mem mk, buf_len = GG_MAX_OBJECT_SUBOBJECTS * obj_size\<rparr>;
     let payload = \<lparr>buf_data = mk_recv_mem mk + (length (iter_pos (msg_headers msg)) - 4 - length (msg_payload msg)),
       buf_len = length (msg_payload msg)\<rparr>;
     (x, _, m) \<leftarrow> gg_json_decode_destructive (mk_fuel mk) (mk_pruned mk) payload (Some json_arena) True (mk_mem mk);
     case x of
       Inl e \<Rightarrow> Some (e, mk\<lparr>mk_mem := m\<rparr>)
     | Inr y \<Rightarrow> do {
         let payload_obj = (case y of None \<Rightarrow> GG_OBJ_NULL | Some z \<Rightarrow> z);
         let m = wr m (mk_slot mk) payload_obj;
         t \<leftarrow> gg_obj_type payload_obj;
         if t \<noteq> GG_TYPE_MAP then Some (GG_ERR_FAILURE, mk\<lparr>mk_mem := m\<rparr>)
         else do {
           (_, m) \<leftarrow> gg_obj_canonicalize (mk_pruned mk) m (pk_payload packet);
           (_, m) \<leftarrow> gg_obj_canonicalize (mk_pruned mk) m (mk_slot mk);
           let mk = mk\<lparr>mk_mem := m\<rparr>;
           eq \<leftarrow> gg_obj_eq m (pk_payload packet) (mk_slot mk);
           if \<not> eq then do {
             mk \<leftarrow> print_payload (pk_payload packet) mk;
             mk \<leftarrow> print_payload (mk_slot mk) mk;
             Some (GG_ERR_FAILURE, mk)
           }
           else Some (GG_ERR_OK, mk)
         }
       }
   }"

definition gg_test_recv_packet :: "GgipcPacket \<Rightarrow> mock \<Rightarrow> (GgError \<times> mock) run" where
  "gg_test_recv_packet packet mk = do {
     (ret, rx) \<leftarrow> eventsteam_get_packet gg_socket_reader (mk_rx mk) GG_IPC_MAX_MSG_LEN;
     let mk = mk\<lparr>mk_rx := rx\<rparr>;
     case ret of
       Inl e \<Rightarrow> Some (e, mk)
     | Inr msg \<Rightarrow> do {
         let mk = mk\<lparr>mk_mem := wr (mk_mem mk) (mk_recv_mem mk) (iter_pos (msg_headers msg))\<rparr>;
         ret \<leftarrow> check_headers msg (pk_headers packet);
         if ret \<noteq> GG_ERR_OK then Some (ret, mk)
         else if \<not> pk_has_payload packet then Some (GG_ERR_OK, mk)
         else check_payload packet msg mk
       }
   }"

text \<open>\<open>epoll_wait\<close> and \<open>accept\<close> are repeated while they are interrupted. The timeout is what \<open>mk_waits\<close> reports as no descriptor.\<close>

fun wait_loop :: "(errno + nat) list \<Rightarrow> ((errno + nat) \<times> (errno + nat) list) run" where
  "wait_loop [] = None"
| "wait_loop (Inl e # evs) = (if e = EINTR then wait_loop evs else Some (Inl e, evs))"
| "wait_loop (Inr n # evs) = Some (Inr n, evs)"

lemma sys_new_fd_consumes: "sys_new_fd os = Some (fd, os') \<Longrightarrow> length (os_ret os') < length (os_ret os)"
  by (auto simp: sys_new_fd_def Let_def bind_Some_iff split: if_splits dest!: sys_status_consumes)

function accept_loop :: "os \<Rightarrow> (nat option \<times> os) run" where
  "accept_loop os =
     (case sys_new_fd os of
        None \<Rightarrow> None
      | Some (fd, os) \<Rightarrow> if fd = None \<and> os_errno os = EINTR then accept_loop os else Some (fd, os))"
  by pat_completeness auto
termination by (relation "measure (\<lambda>os. length (os_ret os))") (auto dest: sys_new_fd_consumes)

declare accept_loop.simps [simp del]

definition connect_pending :: "int \<Rightarrow> mock \<Rightarrow> mock run" where
  "connect_pending fd mk =
     (case mk_pending mk of
        [] \<Rightarrow> None
      | (rx, tx) # rest \<Rightarrow> Some (mk\<lparr>mk_client_fd := fd, mk_rx := rx, mk_tx := tx, mk_sent := [], mk_pending := rest\<rparr>))"

definition drop_client :: "mock \<Rightarrow> mock run" where
  "drop_client mk =
     (if mk_client_fd mk \<ge> 0 then do { (_, mk) \<leftarrow> mk_close (mk_client_fd mk) mk; Some (mk\<lparr>mk_client_fd := - 1\<rparr>) }
      else Some mk)"

definition gg_test_accept_client :: "mock \<Rightarrow> (GgError \<times> mock) run" where
  "gg_test_accept_client mk = do {
     mk \<leftarrow> drop_client mk;
     (epoll_ret, waits) \<leftarrow> wait_loop (mk_waits mk);
     let mk = mk\<lparr>mk_waits := waits\<rparr>;
     case epoll_ret of
       Inl _ \<Rightarrow> Some (GG_ERR_TIMEOUT, mk)
     | Inr n \<Rightarrow>
         if n = 0 then Some (GG_ERR_TIMEOUT, mk)
         else do {
           (fd, os) \<leftarrow> accept_loop (mk_os mk);
           let mk = mk\<lparr>mk_os := os\<rparr>;
           case fd of
             None \<Rightarrow> Some (GG_ERR_TIMEOUT, mk\<lparr>mk_client_fd := - 1\<rparr>)
           | Some fd \<Rightarrow> do { mk \<leftarrow> connect_pending (int fd) mk; Some (GG_ERR_OK, mk) }
         }
   }"

fun packet_loop :: "GgipcPacket list \<Rightarrow> mock \<Rightarrow> (GgError \<times> mock) run" where
  "packet_loop [] mk = Some (GG_ERR_OK, mk)"
| "packet_loop (packet # packets) mk = do {
     (ret, mk) \<leftarrow> (if pk_direction packet = 0 then gg_test_recv_packet packet mk else gg_test_send_packet packet mk);
     if ret \<noteq> GG_ERR_OK then Some (ret, mk) else packet_loop packets mk
   }"

definition gg_test_expect_packet_sequence :: "GgipcPacket list \<Rightarrow> mock \<Rightarrow> (GgError \<times> mock) run" where
  "gg_test_expect_packet_sequence sequence mk = do {
     (ret, mk) \<leftarrow> (if mk_client_fd mk < 0 then gg_test_accept_client mk else Some (GG_ERR_OK, mk));
     if ret \<noteq> GG_ERR_OK then Some (ret, mk)
     else do {
       (ret, mk) \<leftarrow> configure_client_timeout mk;
       if ret \<noteq> GG_ERR_OK then Some (ret, mk) else packet_loop sequence mk
     }
   }"

definition gg_test_disconnect :: "mock \<Rightarrow> (GgError \<times> mock) run" where
  "gg_test_disconnect mk =
     (if mk_client_fd mk < 0 then Some (GG_ERR_NOENTRY, mk)
      else mk_close (mk_client_fd mk) (mk\<lparr>mk_client_fd := - 1\<rparr>))"

definition gg_test_wait_for_client_disconnect :: "mock \<Rightarrow> (GgError \<times> mock) run" where
  "gg_test_wait_for_client_disconnect mk =
     (if mk_client_fd mk < 0 then Some (GG_ERR_NOENTRY, mk)
      else do {
        (ret, mk) \<leftarrow> configure_client_timeout mk;
        if ret \<noteq> GG_ERR_OK then Some (ret, mk)
        else do {
          (x, rx) \<leftarrow> gg_file_read (mk_rx mk) GG_IPC_MAX_MSG_LEN;
          let mk = mk\<lparr>mk_rx := rx\<rparr>;
          case x of
            Inl e \<Rightarrow> Some (e, mk)
          | Inr recv \<Rightarrow>
              let mk = mk\<lparr>mk_mem := wr (mk_mem mk) (mk_recv_mem mk) recv\<rparr> in
              if length recv > 0 then Some (GG_ERR_FAILURE, mk)
              else gg_test_disconnect mk
        }
      })"

text \<open>The index after the last slash, or 0.\<close>

fun split_loop :: "bytes \<Rightarrow> nat \<Rightarrow> nat" where
  "split_loop path 0 = 0"
| "split_loop path (Suc k) = (if path ! k = chr CHR ''/'' then Suc k else split_loop path k)"

definition remove_temp_files :: "mock \<Rightarrow> mock run" where
  "remove_temp_files mk =
     (if mk_socket_path_len mk = 0 then Some mk
      else do {
        let path = take (mk_socket_path_len mk) (mk_socket_path mk);
        (_, mk) \<leftarrow> fs_status (Unlink path) mk;
        let split = split_loop path (mk_socket_path_len mk);
        let mk = mk\<lparr>mk_socket_path := (if split > 0 then (mk_socket_path mk)[split - 1 := 0] else mk_socket_path mk),
          mk_auth_len := split\<rparr>;
        mk \<leftarrow> (if split > 0 then map_option snd (fs_status (Rmdir (take (split - 1) path)) mk) else Some mk);
        Some (mk\<lparr>mk_socket_path_len := 0\<rparr>)
      })"

definition gg_test_close :: "mock \<Rightarrow> mock run" where
  "gg_test_close mk = do {
     mk \<leftarrow> drop_client mk;
     mk \<leftarrow> (if mk_epoll_fd mk \<ge> 0
           then do { (_, mk) \<leftarrow> mk_close (mk_epoll_fd mk) mk; Some (mk\<lparr>mk_epoll_fd := - 1\<rparr>) } else Some mk);
     mk \<leftarrow> (if mk_sock_fd mk \<ge> 0
           then do { (_, mk) \<leftarrow> mk_close (mk_sock_fd mk) mk; Some (mk\<lparr>mk_sock_fd := - 1\<rparr>) } else Some mk);
     remove_temp_files mk
   }"

definition gg_test_get_socket_path :: "mock \<Rightarrow> bytes" where
  "gg_test_get_socket_path mk = take (mk_socket_path_len mk) (mk_socket_path mk)"

definition gg_test_get_auth_token :: "mock \<Rightarrow> bytes" where
  "gg_test_get_auth_token mk = take (mk_auth_len mk) (mk_auth_token mk)"

section \<open>Headers\<close>

text \<open>A header is found by its name, and the first one of that name counts.\<close>

definition first_header :: "EventStreamHeader list \<Rightarrow> bytes \<Rightarrow> EventStreamHeaderValue option" where
  "first_header hs name = map_option hdr_value (find (\<lambda>h. hdr_name h = name) hs)"

lemma find_header_int_iff:
  "header_loop it = Some hs \<Longrightarrow> find_header_int it name value =
     Some (if first_header hs name = Some (EVENTSTREAM_INT32 value) then GG_ERR_OK else GG_ERR_FAILURE)"
proof (induction it arbitrary: hs rule: header_loop.induct)
  case (1 it)
  from 1(2) show ?case unfolding header_loop.simps[of it] using 1(1)
    by (subst find_header_int.simps) (auto simp: first_header_def gg_buffer_eq_iff split: option.splits sum.splits EventStreamHeaderValue.splits)
qed

lemma find_header_str_iff:
  "header_loop it = Some hs \<Longrightarrow> find_header_str it name text =
     Some (if first_header hs name = Some (EVENTSTREAM_STRING text) then GG_ERR_OK else GG_ERR_FAILURE)"
proof (induction it arbitrary: hs rule: header_loop.induct)
  case (1 it)
  from 1(2) show ?case unfolding header_loop.simps[of it] using 1(1)
    by (subst find_header_str.simps) (auto simp: first_header_def gg_buffer_eq_iff split: option.splits sum.splits EventStreamHeaderValue.splits)
qed

definition headers_match :: "EventStreamHeader list \<Rightarrow> EventStreamHeader list \<Rightarrow> bool" where
  "headers_match expected hs = (\<forall>h \<in> set expected. first_header hs (hdr_name h) = Some (hdr_value h))"

lemma check_headers_iff:
  assumes "header_loop (msg_headers msg) = Some hs"
  shows "check_headers msg expected = Some (if headers_match expected hs then GG_ERR_OK else GG_ERR_FAILURE)"
proof (induction expected)
  case (Cons h expected)
  then show ?case using assms
    by (cases "hdr_value h") (auto simp: find_header_int_iff find_header_str_iff headers_match_def print_client_packet_def)
qed (simp add: headers_match_def)

section \<open>Payloads\<close>

lemma json_need_bound:
  "json_need v \<le> obj_size * val_count v" "items_need vs \<le> obj_size * vals_count vs" "pairs_need kvs \<le> obj_size * kvs_count kvs"
  by (induction v and vs and kvs rule: json_need_items_need_pairs_need.induct) auto

text \<open>The memory of the mock server: the receive buffer, the memory of the decoder and the decoded object do not overlap.\<close>

abbreviation recv_area :: "mock \<Rightarrow> addr set" where "recv_area mk \<equiv> {mk_recv_mem mk..<mk_recv_mem mk + GG_IPC_MAX_MSG_LEN}"
abbreviation decode_area :: "mock \<Rightarrow> addr set" where
  "decode_area mk \<equiv> {mk_decode_mem mk..<mk_decode_mem mk + GG_MAX_OBJECT_SUBOBJECTS * obj_size}"
abbreviation slot_area :: "mock \<Rightarrow> addr set" where "slot_area mk \<equiv> {mk_slot mk..<mk_slot mk + obj_size}"

definition mock_ready :: "mock \<Rightarrow> bool" where
  "mock_ready mk \<longleftrightarrow> 0 < mk_decode_mem mk \<and> 0 < mk_slot mk \<and> mk_recv_mem mk + GG_IPC_MAX_MSG_LEN < 2 ^ 64 \<and>
     mk_decode_mem mk + GG_MAX_OBJECT_SUBOBJECTS * obj_size < 2 ^ 64 \<and> buf_len (mk_pruned mk) < 65536 \<and>
     recv_area mk \<inter> decode_area mk = {} \<and> slot_area mk \<inter> (recv_area mk \<union> decode_area mk) = {}"

lemma check_payload_decides:
  assumes ready: "mock_ready mk" and p: "pk_payload packet \<noteq> NULL" "cell_ok (mk_mem mk) (pk_payload packet, v)" "within_limits v"
    and sep: "obj_foot (mk_mem mk) (pk_payload packet) v \<inter> (recv_area mk \<union> decode_area mk \<union> slot_area mk) = {}"
    and doc: "json_doc (VMap kvs) (msg_payload msg)" "val_fits (VMap kvs)" "within_limits (VMap kvs)"
    and len: "length (msg_payload msg) + 4 \<le> length (iter_pos (msg_headers msg))" "length (iter_pos (msg_headers msg)) \<le> GG_IPC_MAX_MSG_LEN"
    and recv: "rd (mk_mem mk) (mk_recv_mem mk + (length (iter_pos (msg_headers msg)) - 4 - length (msg_payload msg))) (length (msg_payload msg)) = msg_payload msg"
  shows "\<exists>N. \<forall>n \<ge> N. if val_eq (canon_val v) (canon_val (VMap kvs))
    then \<exists>m'. check_payload packet msg (mk\<lparr>mk_fuel := n\<rparr>) = Some (GG_ERR_OK, mk\<lparr>mk_fuel := n, mk_mem := m'\<rparr>)
    else \<forall>mk'. check_payload packet msg (mk\<lparr>mk_fuel := n\<rparr>) \<noteq> Some (GG_ERR_OK, mk')"
proof -
  let ?m = "mk_mem mk" and ?p = "pk_payload packet" and ?w = "VMap kvs" and ?pr = "mk_pruned mk" and ?s = "mk_slot mk"
  let ?buf = "\<lparr>buf_data = mk_recv_mem mk + (length (iter_pos (msg_headers msg)) - 4 - length (msg_payload msg)), buf_len = length (msg_payload msg)\<rparr>"
  define a where "a = gg_arena_init \<lparr>buf_data = mk_decode_mem mk, buf_len = GG_MAX_OBJECT_SUBOBJECTS * obj_size\<rparr>"
  have a: "arena_ok a" "arena_free a = decode_area mk" "arena_avail a = 2805"
    using ready by (auto simp: a_def gg_arena_init_def arena_ok_def arena_free_def arena_avail_def mock_ready_def GG_MAX_OBJECT_SUBOBJECTS_def int_limits)
  have span: "Json_Docs.span ?buf (buf_len ?buf) \<subseteq> recv_area mk" using len by auto
  have apart: "recv_area mk \<inter> decode_area mk = {}" "slot_area mk \<inter> (recv_area mk \<union> decode_area mk) = {}" "buf_len ?pr < 65536"
    using ready by (simp_all only: mock_ready_def)
  have "buf_data ?buf + buf_len ?buf < 2 ^ 64" using ready len unfolding mock_ready_def by simp linarith
  moreover have "json_doc ?w (contents ?m ?buf)" using doc(1) recv by (simp add: contents_def)
  moreover have "Json_Docs.span ?buf (buf_len ?buf) \<inter> arena_free a = {}" unfolding a(2) using span apart(1) by blast
  moreover have "f64_stops ?m ?buf ?w" by (simp add: f64_stops_def)
  moreover have need: "json_need ?w \<le> arena_avail a"
    using json_need_bound(1)[of ?w] doc(3) by (simp add: a(3) within_limits_def GG_MAX_OBJECT_SUBOBJECTS_def)
  ultimately obtain N x m1 where
    1: "\<And>n. N \<le> n \<Longrightarrow> gg_json_decode_destructive n ?pr ?buf (Some a) True ?m = Some (Inr (Some x), Some (adv a (json_need ?w)), m1)"
      "agree_off (Json_Docs.span ?buf (buf_len ?buf) \<union> arena_free a) ?m m1" "length x = obj_size" "val_blk m1 x (canon_val ?w)"
      "blk_foot m1 x (canon_val ?w) \<subseteq> Json_Docs.span ?buf (buf_len ?buf) \<union> taken a (json_need ?w)"
    using decode_doc[OF _ doc(2) _ _ a(1) _ apart(3), of ?m ?buf] by (auto simp del: val_blk.simps canon_val.simps json_need.simps)
  let ?A = "recv_area mk \<union> decode_area mk"
  have foot: "blk_foot m1 x (canon_val ?w) \<subseteq> ?A" using 1(5) span taken_sub(1)[OF need a(1)] unfolding a(2) by blast
  define m2 where "m2 = wr m1 ?s x"
  have "agree_off ?A ?m m1" by (rule agree_off_mono[OF 1(2)]) (use span in \<open>auto simp: a(2)\<close>)
  then have off: "agree_off (?A \<union> slot_area mk) ?m m2"
    unfolding m2_def using 1(3) by (intro agree_off_trans[OF agree_off_mono agree_off_wr]) auto
  have x: "rd m2 ?s obj_size = x" using 1(3) by (simp add: m2_def rd_wr_same')
  have on: "agree_on (blk_foot m1 x (canon_val ?w)) m1 m2"
    unfolding m2_def by (rule agree_off_on[of "slot_area mk"]) (use 1(3) foot apart(2) in \<open>auto intro: agree_off_wr\<close>)
  have w: "obj_at m2 ?s (canon_val ?w)" "blk_foot m2 (rd m2 ?s obj_size) (canon_val ?w) \<subseteq> ?A"
    unfolding x using val_blk_frame[OF on 1(4)] blk_foot_frame[OF on 1(4)] foot by auto
  note f = cell_frame[OF off _ p(2), unfolded fst_conv snd_conv, OF sep]
  from canonicalize_result[OF apart(3) p(1) f(1) p(3)] obtain m3 where
    3: "gg_obj_canonicalize ?pr m2 ?p = Some (GG_ERR_OK, m3)" "canon_done m2 m3 (?p, v)" "agree_off (cell_w m2 (?p, v)) m2 m3" by blast
  have "cell_w m2 (?p, v) \<subseteq> obj_foot ?m ?p v" using cell_w_foot[OF p(2)] f(3) by simp
  then have "obj_foot m2 ?s (canon_val ?w) \<inter> cell_w m2 (?p, v) = {}" using sep w(2) by blast
  from obj_off[OF 3(3) this w(1)] have w3: "obj_at m3 ?s (canon_val ?w)" ..
  have lim: "within_limits (canon_val ?w)" "within_limits (canon_val v)"
    using canon_val_smaller(1)[of ?w] canon_val_smaller(1)[of v] doc(3) p(3) by (auto simp: within_limits_def)
  have "?s \<noteq> NULL" using ready by (simp add: mock_ready_def)
  from canonical_stays[OF this w3 canon_val_canonical(1) lim(1)] have 4: "gg_obj_canonicalize ?pr m3 ?s = Some (GG_ERR_OK, m3)" .
  have v3: "obj_at m3 ?p (canon_val v)" using 3(2) by (simp add: canon_done_def)
  have eq: "gg_obj_eq m3 ?p ?s = Some True \<longleftrightarrow> val_eq (canon_val v) (canon_val ?w)"
    using eq_true_iff[OF v3 w3] lim(2) by simp
  have ty: "gg_obj_type x = Some GG_TYPE_MAP" using val_blk_type[OF 1(4)] by simp
  show ?thesis
  proof (intro exI[of _ N] allI impI)
    fix n assume "N \<le> n"
    from 1(1)[OF this] have "check_payload packet msg (mk\<lparr>mk_fuel := n\<rparr>) = do {
        eq \<leftarrow> gg_obj_eq m3 ?p ?s;
        let mk = mk\<lparr>mk_fuel := n, mk_mem := m3\<rparr>;
        if \<not> eq then do { mk \<leftarrow> print_payload ?p mk; mk \<leftarrow> print_payload (mk_slot mk) mk; Some (GG_ERR_FAILURE, mk) } else Some (GG_ERR_OK, mk) }"
      using 3(1) 4 ty by (simp add: check_payload_def a_def[symmetric] m2_def Let_def)
    then show "if val_eq (canon_val v) (canon_val ?w)
      then \<exists>m'. check_payload packet msg (mk\<lparr>mk_fuel := n\<rparr>) = Some (GG_ERR_OK, mk\<lparr>mk_fuel := n, mk_mem := m'\<rparr>)
      else \<forall>mk'. check_payload packet msg (mk\<lparr>mk_fuel := n\<rparr>) \<noteq> Some (GG_ERR_OK, mk')"
      using eq by (cases "gg_obj_eq m3 ?p ?s") (auto simp: Let_def bind_Some_iff simp del: canon_val.simps)
  qed
qed

lemma packet_tail: "drop 12 (es_packet hs pl) = concat (map header_bytes hs) @ pl @ drop (length (es_packet hs pl) - 4) (es_packet hs pl)"
  by (simp add: es_packet_def Let_def)

section \<open>Descriptors\<close>

definition keeps :: "mock \<Rightarrow> mock \<Rightarrow> bool" where
  "keeps mk mk' \<longleftrightarrow> os_fds (mk_os mk') = os_fds (mk_os mk) \<and> mk_sock_fd mk' = mk_sock_fd mk \<and> mk_epoll_fd mk' = mk_epoll_fd mk \<and>
     mk_client_fd mk' = mk_client_fd mk \<and> mk_socket_path mk' = mk_socket_path mk \<and> mk_socket_path_len mk' = mk_socket_path_len mk \<and>
     mk_auth_token mk' = mk_auth_token mk \<and> mk_auth_len mk' = mk_auth_len mk \<and> mk_env mk' = mk_env mk"

lemma keeps_trans: "keeps mk mk' \<Longrightarrow> keeps mk' mk'' \<Longrightarrow> keeps mk mk''"
  by (simp add: keeps_def)

lemma mk_status_keeps: "mk_status mk = Some (ok, mk') \<Longrightarrow> keeps mk mk' \<and> mk_fs mk' = mk_fs mk"
  by (auto simp: mk_status_def keeps_def bind_Some_iff dest: sys_status_fds)

lemma fs_status_keeps: "fs_status c mk = Some (ok, mk') \<Longrightarrow> keeps mk mk' \<and> mk_fs mk' = mk_fs mk @ [c]"
  by (auto simp: fs_status_def keeps_def dest!: mk_status_keeps)

lemma mk_close_fds:
  "mk_close fd mk = Some (e, mk') \<Longrightarrow> os_fds (mk_os mk') = remove1 (nat fd) (os_fds (mk_os mk)) \<and> (\<exists>os. mk' = mk\<lparr>mk_os := os\<rparr>)"
  by (auto simp: mk_close_def bind_Some_iff dest: gg_close_fds)

definition keeping :: "mock \<Rightarrow> ('a \<times> mock) run \<Rightarrow> bool" where
  "keeping mk x \<longleftrightarrow> (\<forall>r mk'. x = Some (r, mk') \<longrightarrow> keeps mk mk')"

lemma keeps_refl: "keeps mk mk"
  by (simp add: keeps_def)

lemma keeping_bind:
  assumes "\<And>r mk1. x = Some (r, mk1) \<Longrightarrow> keeps mk mk1" "\<And>r mk1. keeping mk1 (k r mk1)"
  shows "keeping mk (x \<bind> (\<lambda>(r, mk). k r mk))"
  unfolding keeping_def
proof (intro allI impI)
  fix r mk' assume "x \<bind> (\<lambda>(r, mk). k r mk) = Some (r, mk')"
  then obtain r1 mk1 where 1: "x = Some (r1, mk1)" "k r1 mk1 = Some (r, mk')" by (cases x) auto
  then have "keeps mk1 mk'" using assms(2)[of mk1 r1] by (simp add: keeping_def)
  with assms(1)[OF 1(1)] show "keeps mk mk'" by (rule keeps_trans)
qed

lemma keepingI:
  "keeping mk (Some (r, mk))"
  "(c \<Longrightarrow> keeping mk x) \<Longrightarrow> (\<not> c \<Longrightarrow> keeping mk y) \<Longrightarrow> keeping mk (if c then x else y)"
  "keeping mk x \<Longrightarrow> keeping mk (c_assert c \<bind> (\<lambda>_. x))"
  by (auto simp: keeping_def keeps_refl c_assert_def)

lemma keeping_status:
  "(\<And>ok mk1. keeping mk1 (k ok mk1)) \<Longrightarrow> keeping mk (mk_status mk \<bind> (\<lambda>(ok, mk). k ok mk))"
  "(\<And>ok mk1. keeping mk1 (k ok mk1)) \<Longrightarrow> keeping mk (fs_status c mk \<bind> (\<lambda>(ok, mk). k ok mk))"
  by (rule keeping_bind, use mk_status_keeps fs_status_keeps in blast, assumption)+

lemma server_socket_keeps: "configure_server_socket fd path mode mk = Some (e, mk') \<Longrightarrow> keeps mk mk'"
proof -
  have "keeping mk (configure_server_socket fd path mode mk)" unfolding configure_server_socket_def by (intro keepingI keeping_status)
  then show "configure_server_socket fd path mode mk = Some (e, mk') \<Longrightarrow> keeps mk mk'" by (simp add: keeping_def)
qed

lemma socket_open_fds:
  assumes "gg_socket_open path mode mk = Some (r, mk')"
  shows "case r of Inl e \<Rightarrow> e \<noteq> GG_ERR_OK
    | Inr fd \<Rightarrow> \<exists>s. fd = int s \<and> s \<notin> set (os_fds (mk_os mk)) \<and> keeps (mk\<lparr>mk_os := (mk_os mk)\<lparr>os_fds := s # os_fds (mk_os mk)\<rparr>\<rparr>) mk'"
  using assms unfolding gg_socket_open_def
proof (elim new_fd_bindE)
  fix fd os1
  assume fd: "fd \<notin> set (os_fds (mk_os mk))" "os_fds os1 = fd # os_fds (mk_os mk)"
    "(case (Some fd, os1) of (server_fd, os) \<Rightarrow> let mk = mk\<lparr>mk_os := os\<rparr> in
        case server_fd of None \<Rightarrow> Some (Inl GG_ERR_FAILURE, mk)
        | Some server_fd \<Rightarrow> configure_server_socket (int server_fd) path mode mk \<bind>
            (\<lambda>(ret, mk). if ret \<noteq> GG_ERR_OK then mk_close (int server_fd) mk \<bind> (\<lambda>(_, mk). Some (Inl ret, mk))
             else Some (Inr (int server_fd), mk))) = Some (r, mk')"
  then show ?thesis
    by (auto simp: bind_Some_iff keeps_def split: if_splits dest!: server_socket_keeps mk_close_fds)
qed (auto simp: keeps_def)

lemma setup_socket_fds:
  assumes "setup_socket path mode mk = Some (GG_ERR_OK, mk')"
  shows "\<exists>s e. s \<notin> set (os_fds (mk_os mk)) \<and> e \<notin> set (s # os_fds (mk_os mk)) \<and>
    keeps (mk\<lparr>mk_os := (mk_os mk)\<lparr>os_fds := e # s # os_fds (mk_os mk)\<rparr>, mk_sock_fd := int s, mk_epoll_fd := int e\<rparr>) mk'"
proof -
  obtain r mk1 where o: "gg_socket_open path mode mk = Some (r, mk1)" using assms by (auto simp: setup_socket_def bind_Some_iff)
  note so = socket_open_fds[OF o]
  from assms o so obtain fd where "r = Inr fd" by (cases r) (auto simp: setup_socket_def)
  with so obtain s where s: "r = Inr (int s)" "s \<notin> set (os_fds (mk_os mk))" "keeps (mk\<lparr>mk_os := (mk_os mk)\<lparr>os_fds := s # os_fds (mk_os mk)\<rparr>\<rparr>) mk1"
    by auto
  obtain x os where x: "sys_new_fd (mk_os mk1) = Some (x, os)"
    using assms o s(1) by (auto simp: setup_socket_def gg_socket_epoll_create_def bind_Some_iff)
  have "x \<noteq> None"
  proof
    assume "x = None"
    with assms o s(1) x show False by (auto simp: setup_socket_def gg_socket_epoll_create_def bind_Some_iff)
  qed
  with sys_new_fd_fds[OF x] lowest_fd_new[of "os_fds (mk_os mk1)"] obtain e where
    e: "x = Some e" "e \<notin> set (os_fds (mk_os mk1))" "os_fds os = e # os_fds (mk_os mk1)" by auto
  from assms o s(1) x e(1) obtain ok os' where st: "sys_status os = Some (ok, os')"
    by (auto simp: setup_socket_def gg_socket_epoll_create_def gg_socket_epoll_add_def bind_Some_iff Let_def)
  from assms o s(1) x e(1) st have "ok \<and> mk' = mk1\<lparr>mk_os := os', mk_epoll_fd := int e, mk_sock_fd := int s\<rparr>"
    by (auto simp: setup_socket_def gg_socket_epoll_create_def gg_socket_epoll_add_def bind_Some_iff Let_def split: if_splits)
  then show ?thesis using s(2,3) e(2,3) sys_status_fds[OF st] by (intro exI[of _ s] exI[of _ e]) (simp add: keeps_def)
qed

lemma split_loop_last:
  "chr CHR ''/'' \<notin> set b \<Longrightarrow> k \<le> length b \<Longrightarrow> split_loop (a @ chr CHR ''/'' # b) (Suc (length a + k)) = Suc (length a)"
proof (induction k)
  case (Suc k)
  then have "(a @ chr CHR ''/'' # b) ! Suc (length a + k) = b ! k" by (simp add: nth_append)
  moreover have "b ! k \<noteq> chr CHR ''/''" using Suc.prems by (metis Suc_le_lessD nth_mem)
  ultimately show ?case using Suc by simp
qed (simp add: nth_append)

lemma setup_ipc_steps:
  assumes "gg_test_setup_ipc fresh pre mode token mk = Some (GG_ERR_OK, mk')"
  defines "dir \<equiv> pre @ str ''_'' @ fresh"
  defines "path \<equiv> dir @ str ''/socket.ipc''"
  obtains tok mk1 mk2 mk3 mk4 where
    "tok = overwrite (overwrite (mk_auth_token mk) token) (token @ [0])"
    "fs_status (Mkdtemp dir) (mk\<lparr>mk_auth_token := tok, mk_socket_path := fill PATH_MAX (pre @ str ''_XXXXXX'')\<rparr>) = Some (True, mk1)"
    "setup_socket path mode (mk1\<lparr>mk_socket_path := fill PATH_MAX path\<rparr>) = Some (GG_ERR_OK, mk2)" "mk_status mk2 = Some (True, mk3)"
    "mk_status (mk3\<lparr>mk_env := (mk_env mk3)(''AWS_GG_NUCLEUS_DOMAIN_SOCKET_FILEPATH_FOR_COMPONENT'' \<mapsto> path)\<rparr>) = Some (True, mk4)"
    "mk' = mk4\<lparr>mk_env := (mk_env mk4)(''SVCUID'' \<mapsto> token), mk_socket_path_len := length path, mk_auth_len := length token\<rparr>"
proof -
  have g: "length token < 256" "length pre + 8 \<le> PATH_MAX" using assms(1) by (auto simp: gg_test_setup_ipc_def Let_def split: if_splits)
  show ?thesis
    using assms(1) g that unfolding gg_test_setup_ipc_def dir_def[symmetric] path_def[symmetric]
    by (auto simp: Let_def bind_Some_iff simp flip: dir_def path_def split: if_splits)
qed

lemma setup_ipc_result:
  assumes "gg_test_setup_ipc fresh pre mode token mk = Some (GG_ERR_OK, mk')"
  defines "path \<equiv> (pre @ str ''_'' @ fresh) @ str ''/socket.ipc''"
  shows "\<exists>s e. s \<notin> set (os_fds (mk_os mk)) \<and> e \<notin> set (s # os_fds (mk_os mk)) \<and> os_fds (mk_os mk') = e # s # os_fds (mk_os mk) \<and>
      mk_sock_fd mk' = int s \<and> mk_epoll_fd mk' = int e"
    "mk_client_fd mk' = mk_client_fd mk" "mk_socket_path mk' = fill PATH_MAX path" "mk_socket_path_len mk' = length path"
    "gg_test_get_auth_token mk' = token" "mk_env mk' ''SVCUID'' = Some token"
    "mk_env mk' ''AWS_GG_NUCLEUS_DOMAIN_SOCKET_FILEPATH_FOR_COMPONENT'' = Some path"
proof -
  from assms(1) obtain tok mk1 mk2 mk3 mk4 where 1: "tok = overwrite (overwrite (mk_auth_token mk) token) (token @ [0])"
    "fs_status (Mkdtemp (pre @ str ''_'' @ fresh)) (mk\<lparr>mk_auth_token := tok, mk_socket_path := fill PATH_MAX (pre @ str ''_XXXXXX'')\<rparr>) = Some (True, mk1)"
    "setup_socket path mode (mk1\<lparr>mk_socket_path := fill PATH_MAX path\<rparr>) = Some (GG_ERR_OK, mk2)" "mk_status mk2 = Some (True, mk3)"
    "mk_status (mk3\<lparr>mk_env := (mk_env mk3)(''AWS_GG_NUCLEUS_DOMAIN_SOCKET_FILEPATH_FOR_COMPONENT'' \<mapsto> path)\<rparr>) = Some (True, mk4)"
    "mk' = mk4\<lparr>mk_env := (mk_env mk4)(''SVCUID'' \<mapsto> token), mk_socket_path_len := length path, mk_auth_len := length token\<rparr>"
    unfolding path_def by (rule setup_ipc_steps)
  note k = fs_status_keeps[OF 1(2), THEN conjunct1] mk_status_keeps[OF 1(4), THEN conjunct1] mk_status_keeps[OF 1(5), THEN conjunct1]
  from setup_socket_fds[OF 1(3)] obtain s e where
    se: "s \<notin> set (os_fds (mk_os mk1))" "e \<notin> set (s # os_fds (mk_os mk1))"
      "keeps (mk1\<lparr>mk_socket_path := fill PATH_MAX path, mk_os := (mk_os mk1)\<lparr>os_fds := e # s # os_fds (mk_os mk1)\<rparr>, mk_sock_fd := int s, mk_epoll_fd := int e\<rparr>) mk2"
    by auto
  note all = 1(6) k se(3)
  show "\<exists>s e. s \<notin> set (os_fds (mk_os mk)) \<and> e \<notin> set (s # os_fds (mk_os mk)) \<and> os_fds (mk_os mk') = e # s # os_fds (mk_os mk) \<and>
      mk_sock_fd mk' = int s \<and> mk_epoll_fd mk' = int e"
    using all se(1,2) by (intro exI[of _ s] exI[of _ e]) (simp add: keeps_def)
  show "mk_client_fd mk' = mk_client_fd mk" "mk_socket_path mk' = fill PATH_MAX path" "mk_socket_path_len mk' = length path"
    "mk_env mk' ''SVCUID'' = Some token" "mk_env mk' ''AWS_GG_NUCLEUS_DOMAIN_SOCKET_FILEPATH_FOR_COMPONENT'' = Some path"
    using all by (simp_all add: keeps_def)
  have "mk_auth_token mk' = tok" "mk_auth_len mk' = length token" using all by (simp_all add: keeps_def)
  then show "gg_test_get_auth_token mk' = token" by (simp add: gg_test_get_auth_token_def 1(1) overwrite_def)
qed

lemma close_result:
  assumes "gg_test_close mk = Some mk'" "mk_client_fd mk < 0" "os_fds (mk_os mk) = e # s # fds" "mk_sock_fd mk = int s" "mk_epoll_fd mk = int e"
    "mk_socket_path mk = fill PATH_MAX (dir @ chr CHR ''/'' # file)" "mk_socket_path_len mk = length (dir @ chr CHR ''/'' # file)" "chr CHR ''/'' \<notin> set file"
  shows "os_fds (mk_os mk') = fds" "mk_sock_fd mk' = - 1" "mk_epoll_fd mk' = - 1" "mk_socket_path_len mk' = 0"
    "mk_fs mk' = mk_fs mk @ [Unlink (dir @ chr CHR ''/'' # file), Rmdir dir]"
proof -
  let ?p = "dir @ chr CHR ''/'' # file"
  from assms(1,2,4,5) obtain os where "os_fds os = remove1 s (remove1 e (os_fds (mk_os mk)))"
    "remove_temp_files (mk\<lparr>mk_epoll_fd := - 1, mk_os := os, mk_sock_fd := - 1\<rparr>) = Some mk'"
    by (auto simp: gg_test_close_def drop_client_def bind_Some_iff dest!: mk_close_fds split: if_splits)
  moreover define mk0 where "mk0 = mk\<lparr>mk_epoll_fd := - 1, mk_os := os, mk_sock_fd := - 1\<rparr>"
  ultimately have 0: "os_fds (mk_os mk0) = fds" "remove_temp_files mk0 = Some mk'" using assms(3) by simp_all
  define n where "n = length ?p"
  have n: "n \<noteq> 0" "mk_socket_path_len mk0 = n" "take n (mk_socket_path mk0) = ?p" by (simp_all add: n_def mk0_def assms(6,7) fill_def)
  have split: "split_loop ?p n = Suc (length dir)" using split_loop_last[OF assms(8), of "length file" dir] by (simp add: n_def)
  obtain ok mk1 where 1: "fs_status (Unlink ?p) mk0 = Some (ok, mk1)"
    using 0(2) by (auto simp: remove_temp_files_def n bind_Some_iff Let_def)
  have n1: "mk_socket_path_len mk1 = n" using fs_status_keeps[OF 1] n(2) by (simp add: keeps_def)
  let ?mk1 = "mk1\<lparr>mk_socket_path := (mk_socket_path mk1)[length dir := 0], mk_auth_len := Suc (length dir)\<rparr>"
  obtain ok' mk2 where 2: "fs_status (Rmdir dir) ?mk1 = Some (ok', mk2)" "mk' = mk2\<lparr>mk_socket_path_len := 0\<rparr>"
    using 0(2) by (auto simp: remove_temp_files_def n n1 1[simplified] split[simplified] bind_Some_iff Let_def)
  show "os_fds (mk_os mk') = fds" "mk_sock_fd mk' = - 1" "mk_epoll_fd mk' = - 1" "mk_socket_path_len mk' = 0"
    "mk_fs mk' = mk_fs mk @ [Unlink ?p, Rmdir dir]"
    using fs_status_keeps[OF 1] fs_status_keeps[OF 2(1)] 0(1) 2(2) by (simp_all add: keeps_def mk0_def)
qed

section \<open>Properties\<close>


definition demo_mock :: mock where
  "demo_mock = \<lparr>mk_sock_fd = 3, mk_epoll_fd = 4, mk_client_fd = 5, mk_socket_path = [], mk_socket_path_len = 0, mk_auth_token = [],
     mk_auth_len = 0, mk_env = Map.empty, mk_fs = [], mk_os = \<lparr>os_fds = [5, 4, 3], os_ret = [], os_errno = EINTR, os_opened = []\<rparr>,
     mk_waits = [], mk_pending = [],
     mk_rx = [Arrived (es_packet [\<lparr>hdr_name = str ''a'', hdr_value = EVENTSTREAM_INT32 7\<rparr>] (str ''{\"a\":true,\"b\":1}''))],
     mk_tx = [], mk_sent = [], mk_err_tx = [], mk_mem = canon_mem, mk_recv_mem = 1000, mk_decode_mem = 20000, mk_slot = 30000,
     mk_pruned = \<lparr>buf_data = 0, buf_len = 0\<rparr>, mk_fuel = 0\<rparr>"

definition demo_expected :: GgipcPacket where
  "demo_expected = \<lparr>pk_headers = [\<lparr>hdr_name = str ''a'', hdr_value = EVENTSTREAM_INT32 7\<rparr>], pk_direction = CLIENT_TO_SERVER,
     pk_has_payload = True, pk_payload = 100\<rparr>"


text \<open>C36: Setting up the mock server opens two descriptors that were not in use, the socket and the epoll instance, puts the path
  of the socket, in a directory of its own, and the token into the environment, and reports them; closing it
  afterwards gives both descriptors back, touches no other one, and removes the socket and its directory.\<close>

theorem gg_test_setup_close:
  assumes "gg_test_setup_ipc fresh pre mode token mk = Some (GG_ERR_OK, mk1)" "mk_client_fd mk < 0" "gg_test_close mk1 = Some mk2"
    "dir = pre @ str ''_'' @ fresh" "path = dir @ str ''/socket.ipc''"
  shows "(\<exists>s e. s \<notin> set (os_fds (mk_os mk)) \<and> e \<notin> set (s # os_fds (mk_os mk)) \<and> os_fds (mk_os mk1) = e # s # os_fds (mk_os mk) \<and>
      mk_sock_fd mk1 = int s \<and> mk_epoll_fd mk1 = int e) \<and>
    gg_test_get_socket_path mk1 = path \<and> gg_test_get_auth_token mk1 = token \<and> mk_env mk1 ''SVCUID'' = Some token \<and>
    mk_env mk1 ''AWS_GG_NUCLEUS_DOMAIN_SOCKET_FILEPATH_FOR_COMPONENT'' = Some path \<and>
    os_fds (mk_os mk2) = os_fds (mk_os mk) \<and> mk_sock_fd mk2 = - 1 \<and> mk_epoll_fd mk2 = - 1 \<and> gg_test_get_socket_path mk2 = [] \<and>
    mk_fs mk2 = mk_fs mk1 @ [Unlink path, Rmdir dir]"
proof -
  note r = setup_ipc_result[OF assms(1), folded assms(4), folded assms(5)]
  have p: "path = dir @ chr CHR ''/'' # str ''socket.ipc''" by (simp add: assms(5) str_def)
  have sl: "chr CHR ''/'' \<notin> set (str ''socket.ipc'')" by code_simp
  from r(1) obtain s e where se: "os_fds (mk_os mk1) = e # s # os_fds (mk_os mk)" "mk_sock_fd mk1 = int s" "mk_epoll_fd mk1 = int e" by blast
  note c = close_result[OF assms(3) _ se r(3,4)[unfolded p] sl, folded p]
  have "gg_test_get_socket_path mk1 = path" using r(3,4) by (simp add: gg_test_get_socket_path_def fill_def)
  moreover have "gg_test_get_socket_path mk2 = []" using c(4) assms(2) r(2) by (simp add: gg_test_get_socket_path_def)
  ultimately show ?thesis using r(1,2,5,6,7) c(1,2,3,5) assms(2) by simp
qed

definition demo_server :: mock where
  "demo_server = demo_mock\<lparr>mk_sock_fd := - 1, mk_epoll_fd := - 1, mk_client_fd := - 1, mk_auth_token := replicate 256 0,
     mk_os := \<lparr>os_fds = [2, 1, 0], os_ret = [None, None, None, None, None, None, None, None, None, None, None, None, None, None, None, None],
       os_errno = EINTR, os_opened = []\<rparr>\<rparr>"

lemma demo_fds: "lowest_fd [2, 1, 0] = 3" "lowest_fd [3, 2, 1, 0] = 4"
  by code_simp+

lemma demo_setup:
  "\<exists>mk1. gg_test_setup_ipc (str ''abcdef'') (str ''t'') 384 (str ''k'') demo_server = Some (GG_ERR_OK, mk1) \<and> os_ret (mk_os mk1) = [None, None, None, None]"
  by (simp add: gg_test_setup_ipc_def PATH_MAX_def Let_def fs_status_def mk_status_def sys_status_def demo_server_def demo_mock_def
      setup_socket_def gg_socket_open_def sys_new_fd_def configure_server_socket_def SUN_PATH_LEN_def gg_socket_epoll_create_def
      gg_socket_epoll_add_def)

lemma close_runs:
  "mk_client_fd mk < 0 \<Longrightarrow> os_ret (mk_os mk) = [None, None, None, None] \<Longrightarrow> \<exists>mk2. gg_test_close mk = Some mk2"
  by (auto simp: gg_test_close_def drop_client_def mk_close_def gg_close_def sys_close_def sys_status_def remove_temp_files_def
      fs_status_def mk_status_def Let_def)

theorem gg_test_setup_close_witness:
  "\<exists>mk1 mk2. gg_test_setup_ipc (str ''abcdef'') (str ''t'') 384 (str ''k'') demo_server = Some (GG_ERR_OK, mk1) \<and>
     gg_test_close mk1 = Some mk2 \<and> gg_test_get_auth_token mk1 = str ''k'' \<and> os_fds (mk_os mk2) = [2, 1, 0]"
proof -
  obtain mk1 where 1: "gg_test_setup_ipc (str ''abcdef'') (str ''t'') 384 (str ''k'') demo_server = Some (GG_ERR_OK, mk1)"
    "os_ret (mk_os mk1) = [None, None, None, None]" using demo_setup by blast
  have neg: "mk_client_fd demo_server < 0" by (simp add: demo_server_def)
  obtain mk2 where 2: "gg_test_close mk1 = Some mk2" using close_runs[OF _ 1(2)] setup_ipc_result(2)[OF 1(1)] neg by auto
  from gg_test_setup_close[OF 1(1) neg 2 refl refl] 1(1) 2 show ?thesis by (auto simp: demo_server_def)
qed

text \<open>When the socket cannot be added to the epoll instance, both descriptors are closed, and the number of the second one is
  kept: the next \<open>gg_test_close\<close> closes it again, whatever it refers to by then.\<close>

theorem gg_test_setup_keeps_closed_fd:
  "\<exists>mk1. gg_test_setup_ipc (str ''abcdef'') (str ''t'') 384 (str ''k'')
       (demo_server\<lparr>mk_os := (mk_os demo_server)\<lparr>os_ret := [None, None, None, None, None, None, None, None, None, Some EINVAL, None, None]\<rparr>\<rparr>) =
     Some (GG_ERR_FAILURE, mk1) \<and> os_fds (mk_os mk1) = [2, 1, 0] \<and> mk_epoll_fd mk1 = 4"
  by (simp add: gg_test_setup_ipc_def PATH_MAX_def Let_def fs_status_def mk_status_def sys_status_def demo_server_def demo_mock_def
      setup_socket_def gg_socket_open_def sys_new_fd_def configure_server_socket_def SUN_PATH_LEN_def gg_socket_epoll_create_def
      gg_socket_epoll_add_def mk_close_def gg_close_def sys_close_def demo_fds[simplified])

end
