(* ===== verification/Spec2Isabelle.thy ===== *)
theory Spec2Isabelle
  imports Ops_Props Json_Roundtrip Json_Syntax File_Path Util Log Mock
begin

text \<open>
  A verification of the AWS Greengrass component SDK (\<open>src/src/\<close>, with its headers in \<open>src/include/gg\<close> and
  \<open>src/priv_include/gg\<close>), the C library that a Greengrass component uses to talk to the nucleus.

  \<^bold>\<open>The program.\<close> A component connects to the nucleus over a Unix socket and exchanges packets of the event stream
  format, whose headers name the operation and whose payload is JSON. Values are objects: eleven bytes with a tag, a
  length and a pointer to buffers, lists and maps elsewhere in memory. Requests are built as objects on the stack,
  encoded as JSON into a static send buffer and written to the socket. A receiving thread reads packets, finds the
  stream a packet belongs to in a table of streams, and either completes the call that waits on it, through a pointer
  to that call's stack, or calls the subscriber. Everything that outlives a call is copied into arenas the caller
  gives.

  \<^bold>\<open>Conventions.\<close> The machine is 64-bit and little-endian. Memory is a function from addresses to bytes and NULL is 0.
  A result \<open>'a run\<close> is \<^const>\<open>None\<close> when the code fails an assertion (assertions are enabled), does what C leaves
  undefined where the model says so, blocks for ever or runs out of fuel; error codes are values (\<open>'a res\<close> is
  \<open>GgError + 'a\<close>). An output parameter is a component of the result; buffers that are only read are passed as their
  bytes. Fixed-width arithmetic is done on words, or on naturals with the wrap-around written out. The kernel is
  outside of the program: its answers are lists of events that the system calls consume in order, so a statement
  about all lists covers every way of cutting a stream into pieces, interrupting a call and failing. The stack frame
  of a call is a record at the frame's address, so that a pointer to a frame that is gone is visible. Callbacks of the
  user are functions that return their error code, the subscriptions they close and the memory they leave. String
  literals are where the caller says. Code under \<open>GG_SDK_TESTING\<close> is not part of the library.

  \<^bold>\<open>The theories.\<close>

  \<^item> \<open>Prelude\<close>: memory, little-endian integers, assertions, and the lemmas the components share
    (\<open>mem_simps\<close>, \<open>run_simps\<close>).
  \<^item> \<open>Errors\<close> (\<open>error.c\<close>), \<open>Buffer\<close> (\<open>buffer.c\<close>): search, comparison and number parsing in buffers.
  \<^item> \<open>Arena\<close> (\<open>arena.c\<close>): the arena's invariant, that allocation is exact and allocations never overlap.
  \<^item> \<open>Object\<close> (\<open>object.c\<close>, \<open>list.c\<close>): the packed representation; \<open>val_blk\<close> says which value an object stands for and
    \<open>blk_foot\<close> which memory that depends on.
  \<^item> \<open>Maps\<close> (\<open>map.c\<close>, \<open>map_canonical.c\<close>): lookup, validation against a schema, sorting and removing duplicates.
  \<^item> \<open>Visit\<close> (\<open>object_visit.c\<close>): the loop over an array of levels does what a recursive traversal does, within the limits
    of depth and number of subobjects. The locale \<open>observer\<close> is the contract of a visit that leaves the object alone.
  \<^item> \<open>Object_Ops\<close> and \<open>Claim\<close> (\<open>object.c\<close>, \<open>arena.c\<close>, \<open>object_canonical.c\<close>): memory usage, the canonical form of whole objects,
    and claiming an object into an arena.
  \<^item> \<open>Vector\<close> (\<open>vector.c\<close>, \<open>io.h\<close>), \<open>Crc32\<close> (\<open>crc32.c\<close>), \<open>Base64\<close> (\<open>base64.c\<close>): the checksum is equal to its bitwise definition;
    the decoder accepts exactly the texts the encoder writes and inverts it.
  \<^item> \<open>Eventstream\<close> (\<open>eventstream/\<close>): packets are encoded and decoded; decoding is the inverse of encoding and is safe on
    arbitrary bytes. The locale \<open>payload_reader\<close> is the contract of what writes a payload.
  \<^item> \<open>Json_Encode\<close> (\<open>json_encode.c\<close>): the visitor writes exactly the JSON text of the value, through any writer that
    satisfies the locale \<open>writer\<close>'s laws. The C library's formatting of numbers is written out.
  \<^item> \<open>Json_Parse\<close> and \<open>Json_Decode\<close> (\<open>json_decode.c\<close>): the parser combinators and the grammar, as data that an interpreter with
    fuel runs; the interpreter terminates on every buffer, and then more fuel changes nothing. Unescaping is safe and
    inverts escaping. \<open>strtod\<close> is written out.
  \<^item> \<open>Json_Grammar\<close> and \<open>Json_Syntax\<close>: inductive grammars of JSON texts (\<open>json_syn\<close>) and of the values they stand for (\<open>json_doc\<close>),
    independent of the code; a calculus of what parsers match on texts; the parser recognises the grammar exactly.
  \<^item> \<open>Json_Numbers\<close> and \<open>Json_Floats\<close>: what \<open>strtod\<close> makes of a number in memory; seventeen digits determine a double.
  \<^item> \<open>Json_Strings\<close>, \<open>Json_Docs\<close>, \<open>Json_Roundtrip\<close>: the decoder returns the value of every document in canonical form, and
    the encoder writes documents.
  \<^item> \<open>Canonical\<close> (\<open>object_canonical.c\<close>): canonicalizing an object in place, map by map while it is visited; a canonical object is left as
    it is.
  \<^item> \<open>Compare\<close> (\<open>unity/gg_test/object_compare.c\<close>): the comparison of objects that the tests use, which is a loop over
    levels like the visitor; it decides equality of the values, where it does not abort while it reports a difference.
  \<^item> \<open>Mock\<close> (\<open>mock/mock.c\<close>): the server that the tests run the client against; it accepts exactly the packets that are expected.
  \<^item> \<open>Log\<close> (\<open>log.c\<close>, \<open>log.h\<close>): the text of a line, with the conversions of \<open>printf\<close> that the library uses, the recognition of
    the journal, with \<open>strtoul\<close> written out, and a step relation of threads that log at the same time.
  \<^item> \<open>File\<close>, \<open>File_Path\<close> (\<open>file.c\<close>) and \<open>Socket\<close> (\<open>socket.c\<close>, \<open>socket_epoll.c\<close>): reading and writing under partial transfers and
    interrupts, opening by path without losing a descriptor, connecting and the event loop. The locale \<open>byte_stream\<close> is
    what a client sees of a socket.
  \<^item> \<open>Streams\<close> (\<open>ipc/client.c\<close>): the stream table refines a bounded finite map; handles expire by their generation.
  \<^item> \<open>Client\<close> (\<open>ipc/client.c\<close>): sending, calls and subscriptions, the receiving thread, closing, connecting.
    \<open>Client_Run\<close> has the step relation of the whole client, every thread and the environment included, and its
    invariant; \<open>Client_Calls\<close> what one call does from end to end; \<open>Client_Props\<close> the promises and a client that
    witnesses them.
  \<^item> \<open>Client_Ops\<close> (\<open>ipc/client/\<close>): every operation and its handlers. \<open>Ops_Args\<close> shows what the parameters built in memory
    stand for, \<open>Ops_Handlers\<close> what the handlers read off a message, \<open>Ops_Props\<close> the promises.
  \<^item> \<open>Util\<close> (\<open>math.c\<close>, \<open>sleep.c\<close>, \<open>rand.c\<close>, \<open>backoff.c\<close>, \<open>init.c\<close>, \<open>alloc.c\<close>).

  \<^bold>\<open>What is shown.\<close> Safety of the client under every interleaving: a received packet never reaches the stack of a call that
  has returned, ids in use are unique, a failed call leaves nothing behind. Liveness: calls, subscriptions and
  connections complete when the server answers, however its bytes arrive. Encoders and decoders are inverse and
  decoders are safe on arbitrary input. The JSON parser accepts exactly JSON, every JSON document is decoded to
  its value, and an object written as JSON is read back, doubles bit for bit. Lines of the log are never mixed. Objects are canonicalized in place. Copies into arenas
  are exact and stay in the arena. Descriptors are not lost.
  Publishing puts exactly the documented request on the wire, and a message reaches the subscriber as it was
  published. Theorems also prove defects: an integer of nineteen characters loses its last digit in JSON
  (\<open>json_encode_i64_truncates\<close>), a subnormal double that was written is not read back (\<open>f64_roundtrip\<close>), digits after a buffer
  are read as part of a fraction at its end (\<open>decode_overread\<close>), a wait that times out late releases another call's stream
  (\<open>late_timeout_drops_call\<close>), a failed write leaves a part of a packet in the stream (\<open>failed_send_leaves_part\<close>), a maximal
  pause of zero divides by zero (\<open>gg_backoff_zero_max\<close>), and the comparison of objects aborts on a difference inside a map
  inside a list (\<open>gg_obj_eq_aborts\<close>) and is wrong on infinities (\<open>float_eq_infinities\<close>), and the mock server closes a descriptor twice after a failed
  start (\<open>gg_test_setup_keeps_closed_fd\<close>).

  \<^bold>\<open>Bounds and fuel.\<close> Fuel is used for the JSON parser and decoder only, whose grammar is recursive; \<open>json_parser_exact\<close> shows
  that some fuel is enough for every buffer, and \<open>gg_json_decode_correct\<close> that some fuel is enough for every document.
  Every other loop is total: it consumes input, the kernel's events, or a counter of the code. Limits of the code (15 levels and 255 subobjects of an object, 65535 bytes of a buffer in an object, 10000 bytes
  of a message, 16 streams, names of 255 bytes) are the code's constants.

  Doubles are correctly rounded by \<open>strtod\<close> and \<open>snprintf\<close>, ties to even, in the default rounding mode; \<open>strtod\<close> reports a range error
  for a number that is too large, or that is below the normal doubles and not one of them, as glibc and musl do. The
  locale has a decimal point.

  \<^bold>\<open>Not modelled.\<close> The calls of the log in the other components, which change nothing that those components read. The
  mutexes of the client are not objects of the model: its steps are the sections the code runs under its lock, and their
  interleaving is the step relation; the mutex of the log is one. The sample programs, the packets of the tests, the assertions
  of the test framework and the tests are not part of the library. The C++ and Rust bindings are wrappers in other
  languages that call the functions modelled here and keep no state of their own beside the handles.
\<close>

end
